(* ===== verification/Go_Prelude.thy ===== *)
theory Go_Prelude
  imports Main "HOL-Library.Finite_Map" "HOL-Library.Multiset"
begin

text \<open>
  Shared ground of the development: the pieces of the Go language and of its standard
  library that the modelled packages use, and the generic lemmas the component theories
  share.

  \<^item> Slices are lists. A nil slice and an empty slice are both \<open>[]\<close>; where the code
    tells them apart (\<open>jsonCache != nil\<close>, \<open>buf == nil\<close>, \<open>leaf != nil\<close>) the field has an
    option type or a constructor of its own. Lengths and capacities are \<open>nat\<close>: a slice
    never outgrows the address space, so the 64-bit arithmetic on them does not wrap.
    Index arguments, which callers may pass negative, are \<open>int\<close>.
  \<^item> A pointer receiver is an option value; \<open>None\<close> is the nil pointer.
  \<^item> A Go result pair \<open>(T, bool)\<close> and an option of samber/mo are both an option value:
    \<open>(v, true)\<close> is \<open>Some v\<close> and \<open>(zero, false)\<close> is \<open>None\<close>.
  \<^item> The zero value of a type parameter is the constant \<open>0\<close> of the class \<open>zero\<close>.
  \<^item> A callback with effects is a state transformer: \<open>fn :: 's \<Rightarrow> 'a \<Rightarrow> 's \<times> bool\<close>.
\<close>

named_theorems go_slice \<open>rewriting of slice copies and splices into take, drop and append\<close>
named_theorems go_map \<open>the content of a map or an ordered list after an operation on it\<close>
named_theorems go_cache \<open>the state of a serialization cache after an operation\<close>

subsection \<open>Slices\<close>

type_synonym bytes = string

text \<open>\<open>copy(dst[off:], src)\<close>: as many elements of \<open>src\<close> as fit, written from offset \<open>off\<close> on.\<close>

definition go_copy :: "'a list \<Rightarrow> nat \<Rightarrow> 'a list \<Rightarrow> 'a list" where
  "go_copy dst off src =
     take off dst @ take (length dst - off) src @ drop (off + length src) dst"

text \<open>\<open>xs[lo:hi]\<close> for \<open>lo \<le> hi \<le> len(xs)\<close>.\<close>

definition go_slice_range :: "'a list \<Rightarrow> nat \<Rightarrow> nat \<Rightarrow> 'a list" where
  "go_slice_range xs lo hi = drop lo (take hi xs)"

lemma length_go_copy [simp]:
  "off \<le> length dst \<Longrightarrow> length (go_copy dst off src) = length dst"
  by (simp add: go_copy_def)

text \<open>The two idioms of the list types: opening a gap at an index, closing the gap of a removed
  element.\<close>

lemma go_copy_insert [go_slice]:
  assumes "i \<le> length xs"
  shows "go_copy (go_copy (xs @ ys) (i + length ys)
           (go_slice_range (xs @ ys) i (length (xs @ ys) - length ys))) i ys
         = take i xs @ ys @ drop i xs"
proof -
  have "go_copy (xs @ ys) (i + length ys) (drop i xs) = take (i + length ys) (xs @ ys) @ drop i xs"
    using assms by (simp add: go_copy_def)
  then show ?thesis
    using assms by (simp add: go_copy_def go_slice_range_def)
qed

lemma go_copy_remove [go_slice]:
  assumes "i < length xs"
  shows "take (length xs - 1) ((go_copy xs i (drop (i + 1) xs))[length xs - 1 := z])
         = take i xs @ drop (i + 1) xs"
proof -
  have "go_copy xs i (drop (i + 1) xs) = take i xs @ drop (i + 1) xs @ [last xs]"
    using assms by (cases xs rule: rev_cases) (auto simp: go_copy_def)
  then show ?thesis
    using assms by (auto simp: list_update_append)
qed

subsection \<open>Loops with an early exit\<close>

text \<open>\<open>for _, x := range xs { if !fn(x) { return } }\<close>\<close>

fun range_until :: "('s \<Rightarrow> 'a \<Rightarrow> 's \<times> bool) \<Rightarrow> 's \<Rightarrow> 'a list \<Rightarrow> 's" where
  "range_until fn s [] = s"
| "range_until fn s (x # xs) =
     (case fn s x of (s', go) \<Rightarrow> if go then range_until fn s' xs else s')"

text \<open>The callback that appends what it sees and stops at the first element refused.\<close>

lemma range_until_collect:
  "range_until (\<lambda>acc x. (acc @ [x], P x)) acc xs
   = acc @ takeWhile P xs @ take 1 (dropWhile P xs)"
  by (induction xs arbitrary: acc) auto

lemma range_until_always [simp]:
  "range_until (\<lambda>s x. (f s x, True)) s xs = foldl f s xs"
  by (induction xs arbitrary: s) auto

lemma find_case_ex: "(case List.find P xs of None \<Rightarrow> False | Some _ \<Rightarrow> True) \<longleftrightarrow> (\<exists>x\<in>set xs. P x)"
  by (induction xs) auto

subsection \<open>Binary search: sort.Search and slices.BinarySearch\<close>

function go_search_loop :: "(nat \<Rightarrow> bool) \<Rightarrow> nat \<Rightarrow> nat \<Rightarrow> nat" where
  "go_search_loop f i j =
     (if i < j
      then let h = (i + j) div 2
           in if \<not> f h then go_search_loop f (h + 1) j else go_search_loop f i h
      else i)"
  by pat_completeness auto
termination
  by (relation "measure (\<lambda>(f, i, j). j - i)") auto

declare go_search_loop.simps [simp del]

definition go_search :: "nat \<Rightarrow> (nat \<Rightarrow> bool) \<Rightarrow> nat" where
  "go_search n f = go_search_loop f 0 n"

lemma go_search_loop_spec:
  assumes "\<forall>a b. a \<le> b \<and> b < n \<and> f a \<longrightarrow> f b"
    and "i \<le> j" and "j \<le> n"
    and "\<forall>k<i. \<not> f k" and "\<forall>k. j \<le> k \<and> k < n \<longrightarrow> f k"
  shows "go_search_loop f i j \<le> n \<and> (\<forall>k < go_search_loop f i j. \<not> f k)
         \<and> (\<forall>k. go_search_loop f i j \<le> k \<and> k < n \<longrightarrow> f k)"
  using assms
proof (induction f i j rule: go_search_loop.induct)
  case (1 f i j)
  show ?case
  proof (cases "i < j")
    case False
    then show ?thesis using 1(4-7) by (simp add: go_search_loop.simps)
  next
    case True
    define h where "h = (i + j) div 2"
    have h: "i \<le> h" "h < j" using True by (auto simp: h_def)
    have unfold: "go_search_loop f i j
        = (if \<not> f h then go_search_loop f (h + 1) j else go_search_loop f i h)"
      using True by (simp add: go_search_loop.simps [of f i j] h_def Let_def)
    show ?thesis
    proof (cases "f h")
      case False
      have low: "\<forall>k<h + 1. \<not> f k"
        using False "1.prems"(1,3) h(2) by (auto simp: less_Suc_eq_le)
      have "go_search_loop f (h + 1) j \<le> n \<and> (\<forall>k < go_search_loop f (h + 1) j. \<not> f k)
          \<and> (\<forall>k. go_search_loop f (h + 1) j \<le> k \<and> k < n \<longrightarrow> f k)"
        by (rule "1.IH"(1) [OF True h_def False "1.prems"(1) _ "1.prems"(3) low "1.prems"(5)])
          (use h in auto)
      then show ?thesis using False by (simp add: unfold)
    next
      case fh: True
      have high: "\<forall>k. h \<le> k \<and> k < n \<longrightarrow> f k"
        using fh "1.prems"(1) by blast
      have "go_search_loop f i h \<le> n \<and> (\<forall>k < go_search_loop f i h. \<not> f k)
          \<and> (\<forall>k. go_search_loop f i h \<le> k \<and> k < n \<longrightarrow> f k)"
        by (rule "1.IH"(2) [OF True h_def _ "1.prems"(1) h(1) _ "1.prems"(4) high])
          (use fh h "1.prems"(3) in auto)
      then show ?thesis using fh by (simp add: unfold)
    qed
  qed
qed

lemma go_search_spec:
  assumes "\<forall>a b. a \<le> b \<and> b < n \<and> f a \<longrightarrow> f b"
  shows "go_search n f \<le> n" and "k < go_search n f \<Longrightarrow> \<not> f k"
    and "go_search n f \<le> k \<Longrightarrow> k < n \<Longrightarrow> f k"
proof -
  have "go_search_loop f 0 n \<le> n \<and> (\<forall>k < go_search_loop f 0 n. \<not> f k)
      \<and> (\<forall>k. go_search_loop f 0 n \<le> k \<and> k < n \<longrightarrow> f k)"
    by (rule go_search_loop_spec [OF assms]) auto
  then show "go_search n f \<le> n" and "k < go_search n f \<Longrightarrow> \<not> f k"
    and "go_search n f \<le> k \<Longrightarrow> k < n \<Longrightarrow> f k"
    by (simp_all add: go_search_def)
qed

text \<open>
  On a slice along which the searched predicate never turns false again, the search returns the
  length of the longest prefix that refuses it; \<open>xs[:i]\<close> and \<open>xs[i:]\<close> are then
  \<open>takeWhile\<close> and \<open>dropWhile\<close>.
\<close>

lemma go_search_takeWhile:
  assumes "sorted_wrt (\<lambda>x y. P x \<longrightarrow> P y) xs"
  shows "go_search (length xs) (\<lambda>i. P (xs ! i)) = length (takeWhile (\<lambda>x. \<not> P x) xs)"
    (is "?s = ?t")
proof (rule antisym)
  have mono: "\<forall>a b. a \<le> b \<and> b < length xs \<and> P (xs ! a) \<longrightarrow> P (xs ! b)"
    using assms by (metis nat_less_le sorted_wrt_iff_nth_less)
  note le = go_search_spec(1) [OF mono]
  show "?s \<le> ?t"
  proof (rule ccontr)
    assume "\<not> ?s \<le> ?t"
    then have lt: "?t < ?s" by simp
    then have "?t < length xs" using le by linarith
    then have "P (xs ! ?t)" using nth_length_takeWhile [of "\<lambda>x. \<not> P x" xs] by blast
    then show False
      using go_search_spec(2) [OF mono, of ?t] lt by blast
  qed
  show "?t \<le> ?s"
  proof (rule ccontr)
    assume "\<not> ?t \<le> ?s"
    then have lt: "?s < ?t" by simp
    then have "?s < length xs" using length_takeWhile_le [of "\<lambda>x. \<not> P x" xs] by linarith
    then have "P (xs ! ?s)"
      using go_search_spec(3) [OF mono, of ?s] by blast
    moreover have "\<not> P (xs ! ?s)"
      using lt nth_mem [of ?s "takeWhile (\<lambda>x. \<not> P x) xs"]
      by (metis set_takeWhileD takeWhile_nth)
    ultimately show False by simp
  qed
qed

declare dropWhile_eq_Nil_conv [simp del] takeWhile_eq_all_conv [simp del]

lemma take_length_takeWhile [simp]: "take (length (takeWhile P xs)) xs = takeWhile P xs"
  by (metis takeWhile_eq_take)

lemma drop_length_takeWhile [simp]: "drop (length (takeWhile P xs)) xs = dropWhile P xs"
  by (metis dropWhile_eq_drop)

lemma length_takeWhile_eq_length_iff [simp]:
  "length (takeWhile P xs) = length xs \<longleftrightarrow> dropWhile P xs = []"
  by (metis append_Nil2 dropWhile_eq_drop drop_all order_refl takeWhile_dropWhile_id)

lemma nth_length_takeWhile_hd:
  "dropWhile P xs \<noteq> [] \<Longrightarrow> xs ! length (takeWhile P xs) = hd (dropWhile P xs)"
  by (metis dropWhile_eq_drop drop_eq_Nil2 hd_drop_conv_nth not_le)

text \<open>\<open>slices.BinarySearch\<close> on a strictly increasing slice.\<close>

definition go_binary_search :: "'a::linorder list \<Rightarrow> 'a \<Rightarrow> nat \<times> bool" where
  "go_binary_search xs t =
     (let i = go_search (length xs) (\<lambda>h. \<not> xs ! h < t)
      in (i, i < length xs \<and> xs ! i = t))"

lemma go_binary_search_split:
  assumes "sorted_wrt (<) xs"
  shows "go_binary_search xs t
         = (length (takeWhile (\<lambda>x. x < t) xs), t \<in> set xs)"
proof -
  have idx: "go_search (length xs) (\<lambda>h. \<not> xs ! h < t) = length (takeWhile (\<lambda>x. x < t) xs)"
    (is "?i = _")
  proof -
    have "sorted_wrt (\<lambda>x y. \<not> x < t \<longrightarrow> \<not> y < t) xs"
      by (rule sorted_wrt_mono_rel [OF _ assms]) auto
    from go_search_takeWhile [OF this] show ?thesis by simp
  qed
  have "?i < length xs \<and> xs ! ?i = t \<longleftrightarrow> t \<in> set xs"
  proof
    assume "t \<in> set xs"
    then have ne: "dropWhile (\<lambda>x. x < t) xs \<noteq> []"
      by (auto simp: dropWhile_eq_Nil_conv)
    have sd: "sorted_wrt (<) (dropWhile (\<lambda>x. x < t) xs)"
      using assms by (metis dropWhile_eq_drop sorted_wrt_drop)
    have "t \<in> set (dropWhile (\<lambda>x. x < t) xs)"
      using \<open>t \<in> set xs\<close> set_takeWhileD [of t "\<lambda>x. x < t" xs]
      by (metis Un_iff less_irrefl set_append takeWhile_dropWhile_id)
    moreover have "\<not> hd (dropWhile (\<lambda>x. x < t) xs) < t"
      by (rule hd_dropWhile [OF ne])
    ultimately have "hd (dropWhile (\<lambda>x. x < t) xs) = t"
      using sd ne by (cases "dropWhile (\<lambda>x. x < t) xs") auto
    moreover have "?i < length xs"
      using ne idx length_takeWhile_le [of "\<lambda>x. x < t" xs]
      by (metis length_takeWhile_eq_length_iff order_le_less)
    ultimately show "?i < length xs \<and> xs ! ?i = t"
      using nth_length_takeWhile_hd [OF ne] idx by simp
  qed (metis nth_mem)
  then show ?thesis by (simp add: go_binary_search_def Let_def idx)
qed

subsection \<open>Histories of operations and data refinement\<close>

text \<open>
  A component is a state and a step per call, \<open>cstep op s = (s', result)\<close>. \<open>run\<close> performs a
  sequence of calls and collects what they return.
\<close>

fun run :: "('op \<Rightarrow> 's \<Rightarrow> 's \<times> 'r) \<Rightarrow> 'op list \<Rightarrow> 's \<Rightarrow> 's \<times> 'r list" where
  "run step [] s = (s, [])"
| "run step (c # cs) s =
     (case step c s of (s', r) \<Rightarrow>
        (case run step cs s' of (s'', rs) \<Rightarrow> (s'', r # rs)))"

lemma run_append:
  "run step (cs @ ds) s =
     (case run step cs s of (s', rs) \<Rightarrow>
        (case run step ds s' of (s'', rs') \<Rightarrow> (s'', rs @ rs')))"
  by (induction cs arbitrary: s) (auto split: prod.splits)

text \<open>The interface of an invariant: every call keeps it, so every history does.\<close>

locale invariant_steps =
  fixes cstep :: "'op \<Rightarrow> 's \<Rightarrow> 's \<times> 'r"
    and inv :: "'s \<Rightarrow> bool"
  assumes step_inv: "inv s \<Longrightarrow> inv (fst (cstep c s))"
begin

lemma run_inv: "inv s \<Longrightarrow> inv (fst (run cstep cs s))"
proof (induction cs arbitrary: s)
  case (Cons c cs)
  obtain s' r where c: "cstep c s = (s', r)" by fastforce
  with step_inv [OF Cons.prems, of c] have "inv s'" by simp
  from Cons.IH [OF this] show ?case by (auto simp: c split: prod.splits)
qed simp

end

text \<open>
  The interface of a data refinement: under the invariant each call changes the abstract state as
  the specification says and returns what the specification returns. The client lemma lifts that
  to whole histories: no caller can tell the component from its specification.
\<close>

locale data_refinement = invariant_steps cstep inv
  for cstep :: "'op \<Rightarrow> 's \<Rightarrow> 's \<times> 'r"
    and inv :: "'s \<Rightarrow> bool" +
  fixes astep :: "'op \<Rightarrow> 'a \<Rightarrow> 'a \<times> 'r"
    and abs :: "'s \<Rightarrow> 'a"
  assumes step_sim: "inv s \<Longrightarrow> astep c (abs s) = (abs (fst (cstep c s)), snd (cstep c s))"
begin

lemma run_sim:
  "inv s \<Longrightarrow> run astep cs (abs s) = (abs (fst (run cstep cs s)), snd (run cstep cs s))"
proof (induction cs arbitrary: s)
  case (Cons c cs)
  obtain s' r where c: "cstep c s = (s', r)" by fastforce
  with step_inv [OF Cons.prems, of c] have "inv s'" by simp
  from Cons.IH [OF this] step_sim [OF Cons.prems, of c] show ?case
    by (simp add: c split: prod.splits)
qed simp

lemma run_results: "inv s \<Longrightarrow> snd (run cstep cs s) = snd (run astep cs (abs s))"
  by (simp add: run_sim)

lemma run_state: "inv s \<Longrightarrow> abs (fst (run cstep cs s)) = fst (run astep cs (abs s))"
  by (simp add: run_sim)

end

text \<open>
  The same for calls that come with a choice of the environment (the order in which a map is
  visited): \<open>ok\<close> says that the choice is one the language allows.
\<close>

locale guarded_refinement =
  fixes ok :: "'op \<Rightarrow> bool"
    and cstep :: "'op \<Rightarrow> 's \<Rightarrow> 's \<times> 'r"
    and inv :: "'s \<Rightarrow> bool"
    and astep :: "'op \<Rightarrow> 'a \<Rightarrow> 'a \<times> 'r"
    and abs :: "'s \<Rightarrow> 'a"
  assumes guarded_inv: "ok c \<Longrightarrow> inv s \<Longrightarrow> inv (fst (cstep c s))"
    and guarded_sim: "ok c \<Longrightarrow> inv s \<Longrightarrow> astep c (abs s) = (abs (fst (cstep c s)), snd (cstep c s))"
begin

lemma guarded_run:
  assumes "list_all ok cs" and "inv s"
  shows "run astep cs (abs s) = (abs (fst (run cstep cs s)), snd (run cstep cs s))"
    and "inv (fst (run cstep cs s))"
proof -
  have "run astep cs (abs s) = (abs (fst (run cstep cs s)), snd (run cstep cs s)) \<and> inv (fst (run cstep cs s))"
    using assms
  proof (induction cs arbitrary: s)
    case (Cons c cs)
    obtain s' r where c: "cstep c s = (s', r)" by fastforce
    have "ok c" and cs: "list_all ok cs" using Cons.prems(1) by simp_all
    then have "inv s'" using guarded_inv [OF _ Cons.prems(2), of c] c by simp
    from Cons.IH [OF cs this] guarded_sim [OF \<open>ok c\<close> Cons.prems(2)] show ?case
      by (auto simp: c split: prod.splits)
  qed simp
  then show "run astep cs (abs s) = (abs (fst (run cstep cs s)), snd (run cstep cs s))"
    and "inv (fst (run cstep cs s))" by auto
qed

lemma guarded_results:
  "list_all ok cs \<Longrightarrow> inv s \<Longrightarrow> snd (run cstep cs s) = snd (run astep cs (abs s))"
  by (simp add: guarded_run)

end

sublocale data_refinement \<subseteq> total: guarded_refinement "\<lambda>_. True" cstep inv astep abs
  by unfold_locales (simp_all add: step_inv step_sim)

text \<open>
  The same against a specification that leaves choices open: \<open>astep c a r a'\<close> says that the call may
  answer \<open>r\<close> and move to \<open>a'\<close>. \<open>admits\<close> lifts it to histories.
\<close>

fun admits :: "('op \<Rightarrow> 'a \<Rightarrow> 'r \<Rightarrow> 'a \<Rightarrow> bool) \<Rightarrow> 'op list \<Rightarrow> 'a \<Rightarrow> 'r list \<Rightarrow> 'a \<Rightarrow> bool" where
  "admits step [] a rs a' \<longleftrightarrow> rs = [] \<and> a' = a"
| "admits step (c # cs) a rs a' \<longleftrightarrow>
     (\<exists>r rs' b. rs = r # rs' \<and> step c a r b \<and> admits step cs b rs' a')"

locale guarded_loose_refinement =
  fixes ok :: "'op \<Rightarrow> bool"
    and cstep :: "'op \<Rightarrow> 's \<Rightarrow> 's \<times> 'r"
    and inv :: "'s \<Rightarrow> bool"
    and astep :: "'op \<Rightarrow> 'a \<Rightarrow> 'r \<Rightarrow> 'a \<Rightarrow> bool"
    and abs :: "'s \<Rightarrow> 'a"
  assumes guarded_loose_inv: "ok c \<Longrightarrow> inv s \<Longrightarrow> inv (fst (cstep c s))"
    and guarded_step_admits: "ok c \<Longrightarrow> inv s \<Longrightarrow> astep c (abs s) (snd (cstep c s)) (abs (fst (cstep c s)))"
begin

lemma guarded_admits:
  "list_all ok cs \<Longrightarrow> inv s
   \<Longrightarrow> admits astep cs (abs s) (snd (run cstep cs s)) (abs (fst (run cstep cs s)))"
proof (induction cs arbitrary: s)
  case (Cons c cs)
  obtain s' r where c: "cstep c s = (s', r)" by fastforce
  have okc: "ok c" and cs: "list_all ok cs" using Cons.prems(1) by simp_all
  then have "inv s'" using guarded_loose_inv [OF okc Cons.prems(2)] c by simp
  from Cons.IH [OF cs this] guarded_step_admits [OF okc Cons.prems(2)] show ?case
    by (auto simp: c split: prod.splits)
qed simp

end

locale loose_refinement = invariant_steps cstep inv
  for cstep :: "'op \<Rightarrow> 's \<Rightarrow> 's \<times> 'r"
    and inv :: "'s \<Rightarrow> bool" +
  fixes astep :: "'op \<Rightarrow> 'a \<Rightarrow> 'r \<Rightarrow> 'a \<Rightarrow> bool"
    and abs :: "'s \<Rightarrow> 'a"
  assumes step_admits: "inv s \<Longrightarrow> astep c (abs s) (snd (cstep c s)) (abs (fst (cstep c s)))"

sublocale loose_refinement \<subseteq> total: guarded_loose_refinement "\<lambda>_. True" cstep inv astep abs
  by unfold_locales (simp_all add: step_inv step_admits)

context loose_refinement
begin

lemma run_admits:
  "inv s \<Longrightarrow> admits astep cs (abs s) (snd (run cstep cs s)) (abs (fst (run cstep cs s)))"
  by (rule total.guarded_admits) (simp_all add: list_all_iff)

end

text \<open>A simulation: the abstract value of a state is given by a relation, for state that has one only
  up to the choice of where it is laid out.\<close>

locale simulation =
  fixes cstep :: "'op \<Rightarrow> 's \<Rightarrow> 's \<times> 'r"
    and rel :: "'s \<Rightarrow> 'a \<Rightarrow> bool"
    and astep :: "'op \<Rightarrow> 'a \<Rightarrow> 'a \<times> 'r"
  assumes step_result: "rel s a \<Longrightarrow> snd (cstep c s) = snd (astep c a)"
    and step_related: "rel s a \<Longrightarrow> rel (fst (cstep c s)) (fst (astep c a))"
begin

lemma run_simulates:
  "rel s a \<Longrightarrow> snd (run cstep cs s) = snd (run astep cs a) \<and> rel (fst (run cstep cs s)) (fst (run astep cs a))"
proof (induction cs arbitrary: s a)
  case (Cons c cs)
  from Cons.IH [OF step_related [OF Cons.prems, of c]] step_result [OF Cons.prems, of c] show ?case
    by (auto split: prod.split)
qed simp

lemma run_results: "rel s a \<Longrightarrow> snd (run cstep cs s) = snd (run astep cs a)"
  by (simp add: run_simulates)

lemma run_related: "rel s a \<Longrightarrow> rel (fst (run cstep cs s)) (fst (run astep cs a))"
  by (simp add: run_simulates)

end

end
