(* ===== verification/Ser_Cache.thy ===== *)
theory Ser_Cache
  imports Go_Prelude
begin

text \<open>
  The serialization cache that most containers of \<^verbatim>\<open>collectionx\<close> embed as the three fields
  \<open>jsonCache\<close>, \<open>stringCache\<close> and \<open>jsonDirty\<close>, gathered here into one record. Every mutation
  resets it to the dirty state, \<open>Clear\<close> resets it to its zero value, and \<open>ToJSON\<close> fills it. What
  \<open>json.Marshal\<close> makes of the current content is a parameter \<open>fresh\<close>: an error or the bytes.
  A cache is coherent when the bytes it would answer with are those a fresh marshalling gives.
\<close>

record ser_cache =
  jsonCache :: "bytes option"
  stringCache :: bytes
  jsonDirty :: bool

definition ser_zero :: ser_cache where
  "ser_zero = \<lparr>jsonCache = None, stringCache = [], jsonDirty = False\<rparr>"

definition ser_invalidate :: "ser_cache \<Rightarrow> ser_cache" where
  "ser_invalidate c = c\<lparr>jsonCache := None, stringCache := [], jsonDirty := True\<rparr>"

definition ser_store :: "bytes \<Rightarrow> ser_cache \<Rightarrow> ser_cache" where
  "ser_store d c = c\<lparr>jsonCache := Some d, stringCache := d, jsonDirty := False\<rparr>"

definition ser_to_json :: "('e + bytes) \<Rightarrow> ser_cache \<Rightarrow> ser_cache \<times> ('e + bytes)" where
  "ser_to_json fresh c =
     (case (jsonDirty c, jsonCache c) of
        (False, Some d) \<Rightarrow> (c, Inr d)
      | _ \<Rightarrow> (case fresh of
                Inl e \<Rightarrow> (c, Inl e)
              | Inr d \<Rightarrow> (ser_store d c, Inr d)))"

definition ser_string :: "('e + bytes) \<Rightarrow> bytes \<Rightarrow> ser_cache \<Rightarrow> ser_cache \<times> bytes" where
  "ser_string fresh fallback c =
     (if \<not> jsonDirty c \<and> stringCache c \<noteq> [] then (c, stringCache c)
      else case ser_to_json fresh c of
             (c', Inl _) \<Rightarrow> (c', fallback)
           | (c', Inr d) \<Rightarrow> (c', d))"

definition ser_coherent :: "('e + bytes) \<Rightarrow> ser_cache \<Rightarrow> bool" where
  "ser_coherent fresh c \<longleftrightarrow>
     (\<not> jsonDirty c \<longrightarrow>
        (\<forall>d. jsonCache c = Some d \<longrightarrow> fresh = Inr d) \<and>
        (stringCache c \<noteq> [] \<longrightarrow> fresh = Inr (stringCache c)))"

lemma ser_coherent_zero [simp, go_cache]: "ser_coherent fresh ser_zero"
  by (simp add: ser_coherent_def ser_zero_def)

lemma ser_coherent_invalidate [simp, go_cache]: "ser_coherent fresh (ser_invalidate c)"
  by (simp add: ser_coherent_def ser_invalidate_def)

lemma ser_coherent_store [simp, go_cache]: "ser_coherent (Inr d) (ser_store d c)"
  by (simp add: ser_coherent_def ser_store_def)

lemma ser_to_json_fresh:
  assumes "ser_coherent fresh c"
  shows "snd (ser_to_json fresh c) = fresh" and "ser_coherent fresh (fst (ser_to_json fresh c))"
proof -
  have "snd (ser_to_json fresh c) = fresh \<and> ser_coherent fresh (fst (ser_to_json fresh c))"
    using assms
    by (cases "jsonDirty c"; cases "jsonCache c"; cases fresh)
      (auto simp: ser_to_json_def ser_coherent_def ser_store_def)
  then show "snd (ser_to_json fresh c) = fresh"
    and "ser_coherent fresh (fst (ser_to_json fresh c))" by auto
qed

lemma ser_string_fresh:
  assumes "ser_coherent fresh c"
  shows "snd (ser_string fresh fb c) = (case fresh of Inl _ \<Rightarrow> fb | Inr d \<Rightarrow> d)"
    and "ser_coherent fresh (fst (ser_string fresh fb c))"
proof -
  obtain c' r where j: "ser_to_json fresh c = (c', r)" by fastforce
  then have r: "r = fresh" "ser_coherent fresh c'" using ser_to_json_fresh [OF assms] by simp_all
  have "snd (ser_string fresh fb c) = (case fresh of Inl _ \<Rightarrow> fb | Inr d \<Rightarrow> d)
      \<and> ser_coherent fresh (fst (ser_string fresh fb c))"
  proof (cases "\<not> jsonDirty c \<and> stringCache c \<noteq> []")
    case True
    then have "fresh = Inr (stringCache c)" using assms by (simp add: ser_coherent_def)
    with True assms show ?thesis by (simp add: ser_string_def)
  next
    case False
    with j r show ?thesis by (cases fresh) (auto simp: ser_string_def)
  qed
  then show "snd (ser_string fresh fb c) = (case fresh of Inl _ \<Rightarrow> fb | Inr d \<Rightarrow> d)"
    and "ser_coherent fresh (fst (ser_string fresh fb c))" by auto
qed

lemmas ser_cache_simps = ser_to_json_fresh ser_string_fresh

end
