(* ===== verification/List_JSON.thy ===== *)
theory List_JSON
  imports Ser_Cache
begin

text \<open>
  The JSON helpers of \<^verbatim>\<open>collectionx/internal\<close> and of \<^verbatim>\<open>collectionx/list/json.go\<close>. An error is
  its message; \<open>json.Marshal\<close> is the parameter \<open>marshal\<close>, which gives bytes or an error. Shown: a
  container's \<open>MarshalJSON\<close> and \<open>String\<close> answer what its \<open>ToJSON\<close> answers.
\<close>

type_synonym 'x json_marshal = "'x \<Rightarrow> string + bytes"

definition JSONResultString :: "string + bytes \<Rightarrow> string \<Rightarrow> string" where
  "JSONResultString res fallback = (case res of Inl err \<Rightarrow> fallback | Inr d \<Rightarrow> d)"

text \<open>\<open>marshal_nil\<close> is \<open>json.Marshal(nil)\<close>.\<close>

definition ForwardToJSON ::
    "string + bytes \<Rightarrow> (unit \<Rightarrow> string + bytes) option \<Rightarrow> string + bytes" where
  "ForwardToJSON marshal_nil toJSON =
     (case toJSON of
        None \<Rightarrow> (case marshal_nil of Inl err \<Rightarrow> Inl (''marshal nil json value: '' @ err) | Inr d \<Rightarrow> Inr d)
      | Some f \<Rightarrow> f ())"

definition StringFromToJSON :: "(unit \<Rightarrow> string + bytes) option \<Rightarrow> string \<Rightarrow> string" where
  "StringFromToJSON toJSON fallback =
     (case toJSON of None \<Rightarrow> fallback | Some f \<Rightarrow> JSONResultString (f ()) fallback)"

definition marshalListJSON :: "'x json_marshal \<Rightarrow> 'x \<Rightarrow> string \<Rightarrow> string + bytes" where
  "marshalListJSON marshal v kind =
     (case marshal v of
        Inl err \<Rightarrow> Inl (''marshal '' @ kind @ '' json: '' @ err) | Inr d \<Rightarrow> Inr d)"

definition forwardListJSON :: "string + bytes \<Rightarrow> (unit \<Rightarrow> string + bytes) \<Rightarrow> string \<Rightarrow> string + bytes" where
  "forwardListJSON marshal_nil toJSON kind =
     (case ForwardToJSON marshal_nil (Some toJSON) of
        Inl err \<Rightarrow> Inl (''marshal '' @ kind @ '': '' @ err) | Inr d \<Rightarrow> Inr d)"

lemma marshalListJSON_Inr [simp]: "marshalListJSON marshal v kind = Inr d \<longleftrightarrow> marshal v = Inr d"
  by (simp add: marshalListJSON_def split: sum.splits)

lemma forwardListJSON_Inr [simp]:
  "forwardListJSON n toJSON kind = Inr d \<longleftrightarrow> toJSON () = Inr d"
  by (simp add: forwardListJSON_def ForwardToJSON_def split: sum.splits)

lemma JSONResultString_marshal [simp]:
  "JSONResultString (marshalListJSON marshal v kind) fb
   = (case marshal v of Inl _ \<Rightarrow> fb | Inr d \<Rightarrow> d)"
  by (simp add: JSONResultString_def marshalListJSON_def split: sum.splits)

end
