(* ===== verification/Mapping_Map.thy ===== *)
theory Mapping_Map
  imports List_JSON
begin

text \<open>
  \<^verbatim>\<open>collectionx/mapping/map.go\<close> and the Map part of \<^verbatim>\<open>mapping/json.go\<close>. A Go map is an optional
  finite map (\<open>None\<close> is the nil map); \<open>ml\<close> reads either. A write into a nil map, a panic in Go, leaves
  it nil here, so the theorems below, which see every write, show that none happens. The order in
  which \<open>range\<close> visits a map is not fixed by the language: it is an argument \<open>ks\<close> of every operation
  that iterates, and \<open>iterates ks m\<close> says that it visits every key once. Callbacks of the chain
  operations are pure predicates. Shown: over any history a finite map, never with a stale
  serialization; the iterating operations do what they say whatever the order.
\<close>

subsection \<open>Go maps\<close>

type_synonym ('k, 'v) go_map = "('k, 'v) fmap option"

definition ml :: "('k, 'v) go_map \<Rightarrow> ('k, 'v) fmap" where
  "ml m = (case m of None \<Rightarrow> fmempty | Some f \<Rightarrow> f)"

lemma ml_simps [simp]: "ml None = fmempty" "ml (Some f) = f"
  by (simp_all add: ml_def)

text \<open>\<open>len(m)\<close>\<close>

definition fm_size :: "('k, 'v) fmap \<Rightarrow> nat" where
  "fm_size f = fcard (fmdom f)"

definition iterates :: "'k list \<Rightarrow> ('k, 'v) fmap \<Rightarrow> bool" where
  "iterates ks f \<longleftrightarrow> distinct ks \<and> set ks = fmdom' f"

text \<open>The entries in the order of iteration.\<close>

definition fm_entries :: "'k list \<Rightarrow> ('k, 'v) fmap \<Rightarrow> ('k \<times> 'v) list" where
  "fm_entries ks f = List.map_filter (\<lambda>k. map_option (Pair k) (fmlookup f k)) ks"

lemma fm_size_zero [simp]: "fm_size f = 0 \<longleftrightarrow> f = fmempty"
  by (simp add: fm_size_def) (metis fmap_ext fmdom_empty fmdom_notD fempty_iff fmempty_lookup)

lemma fm_size_empty [simp]: "fm_size fmempty = 0"
  by (simp add: fm_size_def)

lemma fm_size_upd: "fm_size (fmupd k v f) = (if fmlookup f k = None then Suc (fm_size f) else fm_size f)"
proof (cases "fmlookup f k")
  case None
  then have "k |\<notin>| fmdom f" by (simp add: fmlookup_dom_iff)
  with None show ?thesis by (simp add: fm_size_def fcard_finsert_disjoint)
next
  case (Some x)
  then have "k |\<in>| fmdom f" by (simp add: fmlookup_dom_iff)
  then show ?thesis using Some by (simp add: fm_size_def finsert_absorb)
qed

lemma fm_size_drop: "fm_size (fmdrop k f) = (if fmlookup f k = None then fm_size f else fm_size f - 1)"
proof (cases "fmlookup f k")
  case None
  then show ?thesis by (simp add: fmdrop_idle fmlookup_dom_iff)
next
  case (Some x)
  then have "k |\<in>| fmdom f" by (simp add: fmlookup_dom_iff)
  with Some show ?thesis by (simp add: fm_size_def fcard_fminus_fsingleton)
qed

lemma fm_size_card: "fm_size f = card (fmdom' f)"
  by (simp add: fm_size_def fcard.rep_eq fmdom'_alt_def)

lemma length_iterates: "iterates ks f \<Longrightarrow> length ks = fm_size f"
  by (metis distinct_card fm_size_card iterates_def)

lemma fm_entries_simps [simp]:
  "fm_entries [] f = []"
  "fm_entries (k # ks) f = (case fmlookup f k of None \<Rightarrow> fm_entries ks f | Some v \<Rightarrow> (k, v) # fm_entries ks f)"
  by (simp_all add: fm_entries_def map_filter_simps split: option.split)

lemma fm_entries_iterates:
  assumes "iterates ks f"
  shows "map fst (fm_entries ks f) = ks" and "set (fm_entries ks f) = {(k, v). fmlookup f k = Some v}"
proof -
  have "map fst (fm_entries ks f) = ks \<and> set (fm_entries ks f) = {(k, v). k \<in> set ks \<and> fmlookup f k = Some v}"
    if "set ks \<subseteq> fmdom' f"
    using that by (induction ks) (auto simp: fmlookup_dom'_iff split: option.splits)
  then show "map fst (fm_entries ks f) = ks" and "set (fm_entries ks f) = {(k, v). fmlookup f k = Some v}"
    using assms by (auto simp: iterates_def fmlookup_dom'_iff)
qed

lemma iterates_exists: "\<exists>ks. iterates ks f"
  by (metis finite_distinct_list finite_fmdom' iterates_def)

subsection \<open>Map\<close>

record ('k, 'v) gmap =
  gm_items :: "('k, 'v) go_map"
  gm_ser :: ser_cache

definition gm_zero :: "('k, 'v) gmap" where
  "gm_zero = \<lparr>gm_items = None, gm_ser = ser_zero\<rparr>"

definition Map_invalidateSerializationCache :: "('k, 'v) gmap \<Rightarrow> ('k, 'v) gmap" where
  "Map_invalidateSerializationCache m = m\<lparr>gm_ser := ser_invalidate (gm_ser m)\<rparr>"

definition Map_cacheSerializationData :: "('k, 'v) gmap \<Rightarrow> bytes \<Rightarrow> ('k, 'v) gmap" where
  "Map_cacheSerializationData m data = m\<lparr>gm_ser := ser_store data (gm_ser m)\<rparr>"

definition Map_ensureInit :: "('k, 'v) gmap \<Rightarrow> ('k, 'v) gmap" where
  "Map_ensureInit m = (if gm_items m = None then m\<lparr>gm_items := Some fmempty\<rparr> else m)"

primrec Map_Set :: "('k, 'v) gmap option \<Rightarrow> 'k \<Rightarrow> 'v \<Rightarrow> ('k, 'v) gmap option" where
  "Map_Set None k v = None"
| "Map_Set (Some m0) k v =
     (let m = Map_ensureInit m0
      in Some (Map_invalidateSerializationCache (m\<lparr>gm_items := map_option (fmupd k v) (gm_items m)\<rparr>)))"

primrec Map_SetAll :: "('k, 'v) gmap option \<Rightarrow> ('k, 'v) go_map \<Rightarrow> ('k, 'v) gmap option" where
  "Map_SetAll None source = None"
| "Map_SetAll (Some m0) source =
     (if fm_size (ml source) = 0 then Some m0
      else let m = Map_ensureInit m0
           in Some (Map_invalidateSerializationCache
                      (m\<lparr>gm_items := map_option (\<lambda>f. fmadd f (ml source)) (gm_items m)\<rparr>)))"

text \<open>The capacity is clamped to zero or more and is only an allocation hint.\<close>

definition NewMapWithCapacity :: "int \<Rightarrow> ('k, 'v) gmap option" where
  "NewMapWithCapacity capacity = Some (gm_zero\<lparr>gm_items := Some fmempty\<rparr>)"

definition NewMap :: "('k, 'v) gmap option" where
  "NewMap = NewMapWithCapacity 0"

definition NewMapFrom :: "('k, 'v) go_map \<Rightarrow> ('k, 'v) gmap option" where
  "NewMapFrom source = Map_SetAll (NewMapWithCapacity (int (fm_size (ml source)))) source"

primrec Map_Get :: "('k, 'v) gmap option \<Rightarrow> 'k \<Rightarrow> 'v option" where
  "Map_Get None k = None"
| "Map_Get (Some m) k = (case gm_items m of None \<Rightarrow> None | Some f \<Rightarrow> fmlookup f k)"

definition Map_GetOption :: "('k, 'v) gmap option \<Rightarrow> 'k \<Rightarrow> 'v option" where
  "Map_GetOption p k = (case Map_Get p k of None \<Rightarrow> None | Some v \<Rightarrow> Some v)"

definition Map_GetOrDefault :: "('k, 'v) gmap option \<Rightarrow> 'k \<Rightarrow> 'v \<Rightarrow> 'v" where
  "Map_GetOrDefault p k fallback = (case Map_Get p k of None \<Rightarrow> fallback | Some v \<Rightarrow> v)"

primrec Map_Delete :: "('k, 'v) gmap option \<Rightarrow> 'k \<Rightarrow> ('k, 'v) gmap option \<times> bool" where
  "Map_Delete None k = (None, False)"
| "Map_Delete (Some m) k =
     (case gm_items m of
        None \<Rightarrow> (Some m, False)
      | Some f \<Rightarrow>
          let existed = fmlookup f k \<noteq> None
          in if existed
             then (Some (Map_invalidateSerializationCache (m\<lparr>gm_items := Some (fmdrop k f)\<rparr>)), existed)
             else (Some m, existed))"

primrec Map_Len :: "('k, 'v) gmap option \<Rightarrow> nat" where
  "Map_Len None = 0"
| "Map_Len (Some m) = fm_size (ml (gm_items m))"

definition Map_IsEmpty :: "('k, 'v) gmap option \<Rightarrow> bool" where
  "Map_IsEmpty p \<longleftrightarrow> Map_Len p = 0"

primrec Map_Clear :: "('k, 'v) gmap option \<Rightarrow> ('k, 'v) gmap option" where
  "Map_Clear None = None"
| "Map_Clear (Some m) =
     Some (m\<lparr>gm_items := map_option (\<lambda>_. fmempty) (gm_items m), gm_ser := ser_zero\<rparr>)"

primrec Map_Keys :: "'k list \<Rightarrow> ('k, 'v) gmap option \<Rightarrow> 'k list" where
  "Map_Keys ks None = []"
| "Map_Keys ks (Some m) =
     (if fm_size (ml (gm_items m)) = 0 then []
      else foldl (\<lambda>out (k, v). out @ [k]) [] (fm_entries ks (ml (gm_items m))))"

primrec Map_Values :: "'k list \<Rightarrow> ('k, 'v) gmap option \<Rightarrow> 'v list" where
  "Map_Values ks None = []"
| "Map_Values ks (Some m) =
     (if fm_size (ml (gm_items m)) = 0 then []
      else foldl (\<lambda>out (k, v). out @ [v]) [] (fm_entries ks (ml (gm_items m))))"

text \<open>\<open>maps.Copy\<close> into a fresh map.\<close>

primrec Map_All :: "('k, 'v) gmap option \<Rightarrow> ('k, 'v) go_map" where
  "Map_All None = Some fmempty"
| "Map_All (Some m) =
     (if fm_size (ml (gm_items m)) = 0 then Some fmempty
      else Some (fmadd fmempty (ml (gm_items m))))"

fun Map_Range ::
    "'k list \<Rightarrow> ('k, 'v) gmap option \<Rightarrow> ('st \<Rightarrow> 'k \<times> 'v \<Rightarrow> 'st \<times> bool) option \<Rightarrow> 'st \<Rightarrow> 'st" where
  "Map_Range ks (Some m) (Some fn) st = range_until fn st (fm_entries ks (ml (gm_items m)))"
| "Map_Range ks _ _ st = st"

primrec Map_Clone :: "('k, 'v) gmap option \<Rightarrow> ('k, 'v) gmap option" where
  "Map_Clone None = NewMap"
| "Map_Clone (Some m) =
     (if fm_size (ml (gm_items m)) = 0 then NewMap
      else map_option
             (\<lambda>out. out\<lparr>gm_items := map_option (\<lambda>f. fmadd f (ml (gm_items m))) (gm_items out)\<rparr>)
             (NewMapWithCapacity (int (fm_size (ml (gm_items m))))))"

fun Map_WhereEntries ::
    "'k list \<Rightarrow> ('k, 'v) gmap option \<Rightarrow> ('k \<Rightarrow> 'v \<Rightarrow> bool) option \<Rightarrow> ('k, 'v) gmap option" where
  "Map_WhereEntries ks (Some m) (Some P) =
     (if fm_size (ml (gm_items m)) = 0 then NewMap
      else Map_Range ks (Some m)
             (Some (\<lambda>filtered (k, v). (if P k v then Map_Set filtered k v else filtered, True)))
             (NewMapWithCapacity (int (fm_size (ml (gm_items m))))))"
| "Map_WhereEntries ks _ _ = NewMap"

fun Map_RejectEntries ::
    "'k list \<Rightarrow> ('k, 'v) gmap option \<Rightarrow> ('k \<Rightarrow> 'v \<Rightarrow> bool) option \<Rightarrow> ('k, 'v) gmap option" where
  "Map_RejectEntries ks (Some m) (Some P) =
     (if fm_size (ml (gm_items m)) = 0 then NewMap
      else Map_Range ks (Some m)
             (Some (\<lambda>rejected (k, v). (if \<not> P k v then Map_Set rejected k v else rejected, True)))
             (NewMapWithCapacity (int (fm_size (ml (gm_items m))))))"
| "Map_RejectEntries ks _ _ = NewMap"

fun Map_EachEntry ::
    "'k list \<Rightarrow> ('k, 'v) gmap option \<Rightarrow> ('st \<Rightarrow> 'k \<times> 'v \<Rightarrow> 'st) option \<Rightarrow> 'st
     \<Rightarrow> 'st \<times> ('k, 'v) gmap option" where
  "Map_EachEntry ks None fn st = (st, NewMap)"
| "Map_EachEntry ks (Some m) None st = (st, Some m)"
| "Map_EachEntry ks (Some m) (Some fn) st =
     (Map_Range ks (Some m) (Some (\<lambda>s kv. (fn s kv, True))) st, Some m)"

fun Map_FirstEntryWhere ::
    "'k list \<Rightarrow> ('k, 'v) gmap option \<Rightarrow> ('k \<Rightarrow> 'v \<Rightarrow> bool) option \<Rightarrow> ('k \<times> 'v) option" where
  "Map_FirstEntryWhere ks (Some m) (Some P) =
     (if fm_size (ml (gm_items m)) = 0 then None
      else Map_Range ks (Some m)
             (Some (\<lambda>found (k, v). if \<not> P k v then (found, True) else (Some (k, v), False))) None)"
| "Map_FirstEntryWhere ks _ _ = None"

definition Map_AnyEntryMatch ::
    "'k list \<Rightarrow> ('k, 'v) gmap option \<Rightarrow> ('k \<Rightarrow> 'v \<Rightarrow> bool) option \<Rightarrow> bool" where
  "Map_AnyEntryMatch ks p P = (case Map_FirstEntryWhere ks p P of None \<Rightarrow> False | Some _ \<Rightarrow> True)"

fun Map_AllEntryMatch ::
    "'k list \<Rightarrow> ('k, 'v) gmap option \<Rightarrow> ('k \<Rightarrow> 'v \<Rightarrow> bool) option \<Rightarrow> bool" where
  "Map_AllEntryMatch ks (Some m) (Some P) =
     (if fm_size (ml (gm_items m)) = 0 then False
      else Map_Range ks (Some m)
             (Some (\<lambda>matched (k, v). if P k v then (matched, True) else (False, False))) True)"
| "Map_AllEntryMatch ks _ _ = False"

subsection \<open>JSON\<close>

definition marshalMappingJSON :: "'x json_marshal \<Rightarrow> 'x \<Rightarrow> string \<Rightarrow> string + bytes" where
  "marshalMappingJSON marshal v kind =
     (case marshal v of
        Inl err \<Rightarrow> Inl (''marshal '' @ kind @ '' json: '' @ err) | Inr d \<Rightarrow> Inr d)"

definition forwardMappingJSON :: "string + bytes \<Rightarrow> (unit \<Rightarrow> string + bytes) \<Rightarrow> string \<Rightarrow> string + bytes" where
  "forwardMappingJSON marshal_nil toJSON kind =
     (case ForwardToJSON marshal_nil (Some toJSON) of
        Inl err \<Rightarrow> Inl (''marshal '' @ kind @ '': '' @ err) | Inr d \<Rightarrow> Inr d)"

lemma marshalMappingJSON_list: "marshalMappingJSON = marshalListJSON"
  by (simp add: marshalMappingJSON_def marshalListJSON_def fun_eq_iff)

lemma JSONResultString_mapping [simp]:
  "JSONResultString (marshalMappingJSON marshal v kind) fb = (case marshal v of Inl _ \<Rightarrow> fb | Inr d \<Rightarrow> d)"
  by (simp add: marshalMappingJSON_list)

primrec Map_ToJSON ::
    "('k, 'v) fmap json_marshal \<Rightarrow> ('k, 'v) gmap option \<Rightarrow> ('k, 'v) gmap option \<times> (string + bytes)" where
  "Map_ToJSON marshal None = (None, marshalMappingJSON marshal fmempty ''map'')"
| "Map_ToJSON marshal (Some m) =
     (case (jsonDirty (gm_ser m), jsonCache (gm_ser m)) of
        (False, Some d) \<Rightarrow> (Some m, Inr d)
      | _ \<Rightarrow>
         (case (if fm_size (ml (gm_items m)) = 0 then marshalMappingJSON marshal fmempty ''map''
                else marshalMappingJSON marshal (ml (gm_items m)) ''map'') of
            Inl err \<Rightarrow> (Some m, Inl err)
          | Inr d \<Rightarrow> (Some (Map_cacheSerializationData m d), Inr d)))"

definition Map_MarshalJSON ::
    "string + bytes \<Rightarrow> ('k, 'v) fmap json_marshal \<Rightarrow> ('k, 'v) gmap option
     \<Rightarrow> ('k, 'v) gmap option \<times> (string + bytes)" where
  "Map_MarshalJSON n marshal p =
     (case Map_ToJSON marshal p of (q, r) \<Rightarrow> (q, forwardMappingJSON n (\<lambda>_. r) ''map''))"

definition Map_String ::
    "('k, 'v) fmap json_marshal \<Rightarrow> ('k, 'v) gmap option \<Rightarrow> ('k, 'v) gmap option \<times> string" where
  "Map_String marshal p =
     (case p of
        Some m \<Rightarrow>
          if \<not> jsonDirty (gm_ser m) \<and> stringCache (gm_ser m) \<noteq> [] then (p, stringCache (gm_ser m))
          else (case Map_ToJSON marshal p of (q, r) \<Rightarrow> (q, JSONResultString r ''{}''))
      | None \<Rightarrow> (case Map_ToJSON marshal p of (q, r) \<Rightarrow> (q, JSONResultString r ''{}'')))"

subsection \<open>The content after each operation\<close>

text \<open>\<open>gm_map\<close> is the content of a struct that other types embed by value; the operations on it are
  called through its address.\<close>

definition gm_map :: "('k, 'v) gmap \<Rightarrow> ('k, 'v) fmap" where
  "gm_map m = ml (gm_items m)"

lemma Map_Get_map [simp, go_map]: "Map_Get (Some m) k = fmlookup (gm_map m) k"
  by (cases "gm_items m") (simp_all add: gm_map_def)

lemma Map_ensureInit_map [simp, go_map]: "gm_map (Map_ensureInit m) = gm_map m"
  by (simp add: Map_ensureInit_def gm_map_def)

lemma Map_Set_map [go_map]:
  "\<exists>m'. Map_Set (Some m) k v = Some m' \<and> gm_map m' = fmupd k v (gm_map m)"
  by (cases "gm_items m")
    (simp_all add: gm_map_def Map_ensureInit_def Map_invalidateSerializationCache_def Let_def)

lemma Map_SetAll_map [go_map]:
  "\<exists>m'. Map_SetAll (Some m) source = Some m' \<and> gm_map m' = fmadd (gm_map m) (ml source)"
  by (cases "gm_items m")
    (simp_all add: gm_map_def Map_ensureInit_def Map_invalidateSerializationCache_def Let_def)

lemma Map_Delete_map [go_map]:
  "\<exists>m'. Map_Delete (Some m) k = (Some m', fmlookup (gm_map m) k \<noteq> None) \<and> gm_map m' = fmdrop k (gm_map m)"
proof (cases "gm_items m")
  case None
  then show ?thesis by (simp add: gm_map_def)
next
  case (Some f)
  then show ?thesis
    by (cases "fmlookup f k")
      (simp_all add: gm_map_def Map_invalidateSerializationCache_def fmdrop_idle fmlookup_dom_iff)
qed

lemma Map_Clear_map [go_map]: "\<exists>m'. Map_Clear (Some m) = Some m' \<and> gm_map m' = fmempty"
  by (cases "gm_items m") (simp_all add: gm_map_def)

lemma Map_Len_map [simp, go_map]: "Map_Len (Some m) = fm_size (gm_map m)"
  by (simp add: gm_map_def)

lemma Map_All_map [simp, go_map]: "Map_All (Some m) = Some (gm_map m)"
  by (simp add: gm_map_def)

text \<open>The same for the struct behind the address.\<close>

lemma gm_map_the [simp, go_map]:
  "gm_map (the (Map_Set (Some m) k v)) = fmupd k v (gm_map m)"
  "gm_map (the (Map_SetAll (Some m) source)) = fmadd (gm_map m) (ml source)"
  "gm_map (the (fst (Map_Delete (Some m) k))) = fmdrop k (gm_map m)"
  "gm_map (the (Map_Clear (Some m))) = fmempty"
  using Map_Set_map [of m k v] Map_SetAll_map [of m source] Map_Delete_map [of m k] Map_Clear_map [of m]
  by auto

lemma gm_map_zero [simp, go_map]: "gm_map gm_zero = fmempty"
  by (simp add: gm_zero_def gm_map_def)

lemma NewMap_map [go_map]: "\<exists>m. NewMap = Some m \<and> gm_map m = fmempty \<and> gm_ser m = ser_zero"
  by (simp add: NewMap_def NewMapWithCapacity_def gm_map_def gm_zero_def)

subsection \<open>Over any history a finite map\<close>

datatype (dead 'k, dead 'v) mp_op =
    MpSet 'k 'v | MpSetAll "('k, 'v) go_map" | MpGet 'k | MpGetOption 'k | MpGetOrDefault 'k 'v
  | MpDelete 'k | MpLen | MpIsEmpty | MpClear | MpAll | MpClone | MpToJSON | MpString

datatype (dead 'k, dead 'v) mp_res =
    MpUnit | MpVal "'v option" | MpPlain 'v | MpBool bool | MpNat nat | MpMap "('k, 'v) fmap"
  | MpBytes "string + bytes" | MpText string

primrec mp_step ::
    "('k, 'v) fmap json_marshal \<Rightarrow> ('k, 'v) mp_op \<Rightarrow> ('k, 'v) gmap option
     \<Rightarrow> ('k, 'v) gmap option \<times> ('k, 'v) mp_res" where
  "mp_step marshal (MpSet k v) p = (Map_Set p k v, MpUnit)"
| "mp_step marshal (MpSetAll src) p = (Map_SetAll p src, MpUnit)"
| "mp_step marshal (MpGet k) p = (p, MpVal (Map_Get p k))"
| "mp_step marshal (MpGetOption k) p = (p, MpVal (Map_GetOption p k))"
| "mp_step marshal (MpGetOrDefault k v) p = (p, MpPlain (Map_GetOrDefault p k v))"
| "mp_step marshal (MpDelete k) p = map_prod id MpBool (Map_Delete p k)"
| "mp_step marshal MpLen p = (p, MpNat (Map_Len p))"
| "mp_step marshal MpIsEmpty p = (p, MpBool (Map_IsEmpty p))"
| "mp_step marshal MpClear p = (Map_Clear p, MpUnit)"
| "mp_step marshal MpAll p = (p, MpMap (ml (Map_All p)))"
| "mp_step marshal MpClone p = (p, MpMap (case Map_Clone p of None \<Rightarrow> fmempty | Some c \<Rightarrow> gm_map c))"
| "mp_step marshal MpToJSON p = map_prod id MpBytes (Map_ToJSON marshal p)"
| "mp_step marshal MpString p = map_prod id MpText (Map_String marshal p)"

primrec mp_spec ::
    "('k, 'v) fmap json_marshal \<Rightarrow> ('k, 'v) mp_op \<Rightarrow> ('k, 'v) fmap \<Rightarrow> ('k, 'v) fmap \<times> ('k, 'v) mp_res" where
  "mp_spec marshal (MpSet k v) f = (fmupd k v f, MpUnit)"
| "mp_spec marshal (MpSetAll src) f = (fmadd f (ml src), MpUnit)"
| "mp_spec marshal (MpGet k) f = (f, MpVal (fmlookup f k))"
| "mp_spec marshal (MpGetOption k) f = (f, MpVal (fmlookup f k))"
| "mp_spec marshal (MpGetOrDefault k v) f =
     (f, MpPlain (case fmlookup f k of None \<Rightarrow> v | Some x \<Rightarrow> x))"
| "mp_spec marshal (MpDelete k) f = (fmdrop k f, MpBool (fmlookup f k \<noteq> None))"
| "mp_spec marshal MpLen f = (f, MpNat (fm_size f))"
| "mp_spec marshal MpIsEmpty f = (f, MpBool (f = fmempty))"
| "mp_spec marshal MpClear f = (fmempty, MpUnit)"
| "mp_spec marshal MpAll f = (f, MpMap f)"
| "mp_spec marshal MpClone f = (f, MpMap f)"
| "mp_spec marshal MpToJSON f = (f, MpBytes (marshalMappingJSON marshal f ''map''))"
| "mp_spec marshal MpString f = (f, MpText (case marshal f of Inl _ \<Rightarrow> ''{}'' | Inr d \<Rightarrow> d))"

definition mp_inv :: "('k, 'v) fmap json_marshal \<Rightarrow> ('k, 'v) gmap option \<Rightarrow> bool" where
  "mp_inv marshal p \<longleftrightarrow>
     (\<exists>m. p = Some m \<and> ser_coherent (marshalMappingJSON marshal (gm_map m) ''map'') (gm_ser m))"

definition mp_abs :: "('k, 'v) gmap option \<Rightarrow> ('k, 'v) fmap" where
  "mp_abs p = (case p of None \<Rightarrow> fmempty | Some m \<Rightarrow> gm_map m)"

lemma mp_abs_Some [simp]: "mp_abs (Some m) = gm_map m"
  by (simp add: mp_abs_def)

lemma mp_abs_ops:
  "mp_abs (Map_Set (Some m) k v) = fmupd k v (gm_map m)"
  "mp_abs (Map_SetAll (Some m) source) = fmadd (gm_map m) (ml source)"
  "mp_abs (fst (Map_Delete (Some m) k)) = fmdrop k (gm_map m)"
  "snd (Map_Delete (Some m) k) \<longleftrightarrow> fmlookup (gm_map m) k \<noteq> None"
  "mp_abs (Map_Clear (Some m)) = fmempty"
  using Map_Set_map [of m k v] Map_SetAll_map [of m source] Map_Delete_map [of m k] Map_Clear_map [of m]
  by auto

lemma mp_ToJSON_ser:
  "Map_ToJSON marshal (Some m)
   = (case ser_to_json (marshalMappingJSON marshal (gm_map m) ''map'') (gm_ser m) of
        (c, r) \<Rightarrow> (Some (m\<lparr>gm_ser := c\<rparr>), r))"
  by (cases "jsonDirty (gm_ser m)"; cases "jsonCache (gm_ser m)";
      cases "marshalMappingJSON marshal (gm_map m) ''map''")
    (auto simp: ser_to_json_def Map_cacheSerializationData_def gm_map_def)

lemma mp_ToJSON_inv:
  assumes "mp_inv marshal (Some m)"
  shows "mp_inv marshal (fst (Map_ToJSON marshal (Some m)))"
    and "mp_abs (fst (Map_ToJSON marshal (Some m))) = gm_map m"
    and "snd (Map_ToJSON marshal (Some m)) = marshalMappingJSON marshal (gm_map m) ''map''"
  using assms ser_to_json_fresh [of "marshalMappingJSON marshal (gm_map m) ''map''" "gm_ser m"]
  unfolding mp_ToJSON_ser by (auto simp: mp_inv_def gm_map_def split: prod.splits)

lemma mp_String_inv:
  assumes "mp_inv marshal (Some m)"
  shows "mp_inv marshal (fst (Map_String marshal (Some m)))"
    and "mp_abs (fst (Map_String marshal (Some m))) = gm_map m"
    and "snd (Map_String marshal (Some m)) = (case marshal (gm_map m) of Inl _ \<Rightarrow> ''{}'' | Inr d \<Rightarrow> d)"
proof -
  note j = mp_ToJSON_inv [OF assms]
  have "marshal (gm_map m) = Inr (stringCache (gm_ser m))"
    if "\<not> jsonDirty (gm_ser m)" "stringCache (gm_ser m) \<noteq> []"
    using assms that by (auto simp: mp_inv_def ser_coherent_def marshalMappingJSON_list)
  then show "mp_inv marshal (fst (Map_String marshal (Some m)))"
    and "mp_abs (fst (Map_String marshal (Some m))) = gm_map m"
    and "snd (Map_String marshal (Some m)) = (case marshal (gm_map m) of Inl _ \<Rightarrow> ''{}'' | Inr d \<Rightarrow> d)"
    using j assms by (auto simp: Map_String_def simp del: Map_ToJSON.simps split: prod.splits)
qed

interpretation mp_ref: data_refinement "mp_step marshal" "mp_inv marshal" "mp_spec marshal" mp_abs
  for marshal :: "('k, 'v) fmap json_marshal"
proof unfold_locales
  fix p :: "('k, 'v) gmap option" and c :: "('k, 'v) mp_op"
  assume inv: "mp_inv marshal p"
  then obtain m where p: "p = Some m" by (auto simp: mp_inv_def)
  note i = inv [unfolded p]
  note json = mp_ToJSON_inv [OF i] mp_String_inv [OF i]
  note del = Map_ToJSON.simps Map_Get.simps Map_Len.simps Map_All.simps
  have clone: "\<exists>c. Map_Clone (Some m) = Some c \<and> gm_map c = gm_map m"
    by (auto simp: NewMap_def NewMapWithCapacity_def gm_map_def gm_zero_def)
  have dirty: "mp_inv marshal (Map_Set (Some m) k v)" "mp_inv marshal (Map_SetAll (Some m) src)"
      "mp_inv marshal (fst (Map_Delete (Some m) k))" "mp_inv marshal (Map_Clear (Some m))" for k v src
    using i by (auto simp: mp_inv_def Map_invalidateSerializationCache_def Let_def gm_map_def
        split: option.splits)
  show "mp_inv marshal (fst (mp_step marshal c p))"
    using json dirty i
    by (cases c) (simp_all add: p del: del Map_Set.simps Map_SetAll.simps Map_Delete.simps Map_Clear.simps)
  show "mp_spec marshal c (mp_abs p) = (mp_abs (fst (mp_step marshal c p)), snd (mp_step marshal c p))"
    using json clone
    by (cases c)
      (auto simp: p mp_abs_ops Map_GetOption_def Map_GetOrDefault_def Map_IsEmpty_def
        simp del: del Map_Set.simps Map_SetAll.simps Map_Delete.simps Map_Clear.simps Map_Clone.simps
        split: option.splits)
qed

lemma mp_inv_new: "mp_inv marshal NewMap" "mp_abs NewMap = fmempty"
  using NewMap_map by (auto simp: mp_inv_def NewMap_def NewMapWithCapacity_def gm_zero_def gm_map_def)

text \<open>
  C21. Over any history of calls on a fresh \<open>Map\<close>, every call answers what it would answer on a
  finite map, and \<open>ToJSON\<close> and \<open>String\<close> always serialize the current entries.
\<close>

theorem map_refines_fmap:
  "snd (run (mp_step marshal) cs NewMap) = snd (run (mp_spec marshal) cs fmempty)"
  using mp_ref.run_results [OF mp_inv_new(1), of marshal cs] by (simp only: mp_inv_new(2))

subsection \<open>Iteration\<close>

lemma foldl_snoc: "foldl (\<lambda>out (k, v). out @ [f k v]) acc es = acc @ map (\<lambda>(k, v). f k v) es"
  by (induction es arbitrary: acc) auto

lemma foldl_Map_Set:
  fixes m :: "('k, 'v) gmap"
  shows "mp_abs (foldl (\<lambda>out (k, v). if P k v then Map_Set out k v else out) (Some m) es)
   = foldl (\<lambda>f (k, v). if P k v then fmupd k v f else f) (gm_map m) es"
proof (induction es arbitrary: m)
  case (Cons e es)
  obtain k v where e: "e = (k, v)" by fastforce
  obtain m' :: "('k, 'v) gmap" where m': "Map_Set (Some m) k v = Some m'" "gm_map m' = fmupd k v (gm_map m)"
    using Map_Set_map [of m k v] by blast
  show ?case using Cons.IH [of m] Cons.IH [of m'] m' by (simp add: e del: Map_Set.simps)
qed simp

lemma foldl_fmupd_lookup:
  assumes "distinct (map fst es)"
  shows "fmlookup (foldl (\<lambda>f (k, v). if P k v then fmupd k v f else f) g es) x
         = (case map_of es x of None \<Rightarrow> fmlookup g x
            | Some v \<Rightarrow> if P x v then Some v else fmlookup g x)"
  using assms
proof (induction es arbitrary: g)
  case (Cons e es)
  obtain k v where e: "e = (k, v)" by fastforce
  have "map_of es k = None" using Cons.prems by (simp add: e map_of_eq_None_iff)
  then show ?case using Cons by (auto simp: e split: option.splits)
qed simp

lemma map_of_fm_entries: "iterates ks f \<Longrightarrow> map_of (fm_entries ks f) = fmlookup f"
proof (rule ext)
  fix x assume it: "iterates ks f"
  note e = fm_entries_iterates [OF it]
  have "distinct (map fst (fm_entries ks f))" using e(1) it by (simp add: iterates_def)
  then have "map_of (fm_entries ks f) x = Some v \<longleftrightarrow> (x, v) \<in> set (fm_entries ks f)" for v
    by (metis map_of_is_SomeI map_of_SomeD)
  then have "map_of (fm_entries ks f) x = Some v \<longleftrightarrow> fmlookup f x = Some v" for v
    using e(2) by auto
  then show "map_of (fm_entries ks f) x = fmlookup f x" by (metis not_Some_eq)
qed

lemma range_find:
  "range_until (\<lambda>found (k, v). if \<not> P k v then (found, True) else (Some (k, v), False)) acc es
   = (case List.find (\<lambda>(k, v). P k v) es of None \<Rightarrow> acc | Some kv \<Rightarrow> Some kv)"
proof (induction es)
  case (Cons e es)
  obtain k v where "e = (k, v)" by fastforce
  with Cons.IH show ?case by (cases "P k v") simp_all
qed simp

lemma range_all:
  "range_until (\<lambda>ok (k, v). if P k v then (ok, True) else (False, False)) b es
   \<longleftrightarrow> (if \<forall>(k, v)\<in>set es. P k v then b else False)"
proof (induction es arbitrary: b)
  case (Cons e es)
  obtain k v where "e = (k, v)" by fastforce
  with Cons.IH show ?case by (cases "P k v") simp_all
qed simp

lemma Where_step_split:
  "(\<lambda>out (k, v). (if P k v then Map_Set out k v else out, True))
   = (\<lambda>out e. ((\<lambda>out (k, v). if P k v then Map_Set out k v else out) out e, True))"
  by (auto simp: fun_eq_iff)

lemma Where_entries:
  fixes m :: "('k, 'v) gmap"
  assumes it: "iterates ks (gm_map m)"
  shows "mp_abs (Map_Range ks (Some m)
           (Some (\<lambda>out (k, v). (if P k v then Map_Set out k v else out, True))) (NewMapWithCapacity n))
         = fmfilter (\<lambda>k. \<exists>v. fmlookup (gm_map m) k = Some v \<and> P k v) (gm_map m)" (is "?l = ?r")
proof -
  obtain e :: "('k, 'v) gmap" where e: "NewMapWithCapacity n = Some e" "gm_map e = fmempty"
    by (simp add: NewMapWithCapacity_def gm_map_def gm_zero_def)
  have "?l = foldl (\<lambda>f (k, v). if P k v then fmupd k v f else f) fmempty (fm_entries ks (gm_map m))"
    using foldl_Map_Set [of P e] e unfolding Where_step_split by (simp add: gm_map_def)
  moreover have "distinct (map fst (fm_entries ks (gm_map m)))"
    using fm_entries_iterates(1) [OF it] it by (simp add: iterates_def)
  ultimately have "fmlookup ?l x = (case fmlookup (gm_map m) x of None \<Rightarrow> None
      | Some v \<Rightarrow> if P x v then Some v else None)" for x
    by (simp add: foldl_fmupd_lookup map_of_fm_entries [OF it] split: option.split)
  then show ?thesis by (intro fmap_ext) (simp split: option.split)
qed

text \<open>
  Whatever the order in which Go visits the entries: \<open>Keys\<close> lists every key once and \<open>Values\<close>
  the values in the same order, \<open>WhereEntries\<close> and \<open>RejectEntries\<close> split the map by the predicate,
  \<open>AnyEntryMatch\<close> and \<open>AllEntryMatch\<close> decide the two quantifiers over the entries (\<open>AllEntryMatch\<close>
  being false on an empty map), and \<open>FirstEntryWhere\<close> answers a matching entry if there is one.
\<close>

theorem map_iteration_ops:
  assumes "iterates ks (gm_map m)"
  shows "distinct (Map_Keys ks (Some m)) \<and> set (Map_Keys ks (Some m)) = fmdom' (gm_map m)
       \<and> map Some (Map_Values ks (Some m)) = map (fmlookup (gm_map m)) (Map_Keys ks (Some m))
       \<and> mp_abs (Map_WhereEntries ks (Some m) (Some P))
         = fmfilter (\<lambda>k. \<exists>v. fmlookup (gm_map m) k = Some v \<and> P k v) (gm_map m)
       \<and> mp_abs (Map_RejectEntries ks (Some m) (Some P))
         = fmfilter (\<lambda>k. \<exists>v. fmlookup (gm_map m) k = Some v \<and> \<not> P k v) (gm_map m)
       \<and> Map_AnyEntryMatch ks (Some m) (Some P) = (\<exists>k v. fmlookup (gm_map m) k = Some v \<and> P k v)
       \<and> Map_AllEntryMatch ks (Some m) (Some P)
         = (gm_map m \<noteq> fmempty \<and> \<not> (\<exists>k v. fmlookup (gm_map m) k = Some v \<and> \<not> P k v))
       \<and> (case Map_FirstEntryWhere ks (Some m) (Some P) of
            None \<Rightarrow> \<not> (\<exists>k v. fmlookup (gm_map m) k = Some v \<and> P k v)
          | Some (k, v) \<Rightarrow> fmlookup (gm_map m) k = Some v \<and> P k v)"
proof -
  let ?f = "gm_map m" and ?es = "fm_entries ks (gm_map m)"
  note e = fm_entries_iterates [OF assms]
  have nil: "?f = fmempty \<longleftrightarrow> ks = []" by (metis length_iterates [OF assms] fm_size_zero length_0_conv)
  have len: "fm_size (ml (gm_items m)) = 0 \<longleftrightarrow> ks = []" using nil by (simp add: gm_map_def)
  have keys: "Map_Keys ks (Some m) = ks"
    using e(1) len foldl_snoc [of "\<lambda>k v. k" "[]" ?es] by (auto simp: gm_map_def case_prod_beta')
  have vls: "Map_Values ks (Some m) = map snd ?es"
    using len foldl_snoc [of "\<lambda>k v. v" "[]" ?es] by (auto simp: gm_map_def case_prod_beta')
  have "map Some (map snd ?es) = map (fmlookup ?f) (map fst ?es)"
    using e(2) by auto
  then have vals: "map Some (Map_Values ks (Some m)) = map (fmlookup ?f) (Map_Keys ks (Some m))"
    by (simp only: keys vls e(1))
  have first: "Map_FirstEntryWhere ks (Some m) (Some P) = List.find (\<lambda>(k, v). P k v) ?es"
    using len by (auto simp: range_find gm_map_def split: option.split)
  have fnone: "List.find (\<lambda>(k, v). P k v) ?es = None \<longleftrightarrow> \<not> (\<exists>k v. fmlookup ?f k = Some v \<and> P k v)"
    using e(2) by (auto simp: find_None_iff)
  have fsome: "fmlookup ?f k = Some v \<and> P k v" if "List.find (\<lambda>(k, v). P k v) ?es = Some (k, v)" for k v
    using that e(2) by (auto simp: find_Some_iff) (metis (mono_tags, lifting) case_prodD mem_Collect_eq nth_mem)
  have any: "Map_AnyEntryMatch ks (Some m) (Some P) = (\<exists>k v. fmlookup ?f k = Some v \<and> P k v)"
    unfolding Map_AnyEntryMatch_def first using fnone
    by (cases "List.find (\<lambda>(k, v). P k v) ?es") auto
  have all: "Map_AllEntryMatch ks (Some m) (Some P)
      = (?f \<noteq> fmempty \<and> \<not> (\<exists>k v. fmlookup ?f k = Some v \<and> \<not> P k v))"
  proof -
    have "(\<forall>(k, v)\<in>set ?es. P k v) \<longleftrightarrow> \<not> (\<exists>k v. fmlookup ?f k = Some v \<and> \<not> P k v)"
      using e(2) by auto
    then show ?thesis using len nil by (simp add: range_all gm_map_def)
  qed
  have empty: "fmfilter Q fmempty = fmempty" for Q :: "'a \<Rightarrow> bool" by simp
  have wh: "mp_abs (Map_WhereEntries ks (Some m) (Some Q))
      = fmfilter (\<lambda>k. \<exists>v. fmlookup ?f k = Some v \<and> Q k v) ?f" for Q
    using Where_entries [OF assms, of Q] mp_inv_new(2) nil len by (cases "ks = []") simp_all
  have rj: "mp_abs (Map_RejectEntries ks (Some m) (Some Q))
      = fmfilter (\<lambda>k. \<exists>v. fmlookup ?f k = Some v \<and> \<not> Q k v) ?f" for Q
    using Where_entries [OF assms, of "\<lambda>k v. \<not> Q k v"] mp_inv_new(2) nil len by (cases "ks = []") simp_all
  have fst: "case Map_FirstEntryWhere ks (Some m) (Some P) of
            None \<Rightarrow> \<not> (\<exists>k v. fmlookup ?f k = Some v \<and> P k v)
          | Some (k, v) \<Rightarrow> fmlookup ?f k = Some v \<and> P k v"
    unfolding first using fnone fsome by (cases "List.find (\<lambda>(k, v). P k v) ?es") auto
  show ?thesis
    using keys vals any all wh rj fst assms by (simp add: iterates_def del: Map_Keys.simps)
qed

lemma map_iteration_ops_witness:
  "iterates [2, 1 :: nat] (gm_map \<lparr>gm_items = Some (fmap_of_list [(1, ''a''), (2, ''b'')]), gm_ser = ser_zero\<rparr>)
   \<and> set (Map_Keys [2, 1] (Some \<lparr>gm_items = Some (fmap_of_list [(1, ''a''), (2, ''b'')]), gm_ser = ser_zero\<rparr>))
     = {1, 2 :: nat}"
proof -
  let ?m = "\<lparr>gm_items = Some (fmap_of_list [(1 :: nat, ''a''), (2, ''b'')]), gm_ser = ser_zero\<rparr>"
  have dom: "fmdom' (gm_map ?m) = {1, 2}" by (simp add: gm_map_def)
  then have it: "iterates [2, 1] (gm_map ?m)" by (auto simp: iterates_def)
  have "set (Map_Keys [2, 1] (Some ?m)) = fmdom' (gm_map ?m)"
    by (rule conjunct1 [OF conjunct2 [OF map_iteration_ops [OF it, where P = "\<lambda>_ _. True"]]])
  then show ?thesis using it unfolding dom by (rule conjI [rotated])
qed

text \<open>From here on the operations are rewritten through the content they leave.\<close>

declare Map_Get.simps(2) [simp del] Map_Len.simps(2) [simp del] Map_All.simps(2) [simp del]
  Map_Set.simps(2) [simp del] Map_SetAll.simps(2) [simp del] Map_Delete.simps(2) [simp del]
  Map_Clear.simps(2) [simp del]

end
