(* ===== verification/List_List.thy ===== *)
theory List_List
  imports List_JSON
begin

text \<open>
  \<^verbatim>\<open>collectionx/list/list.go\<close>, \<^verbatim>\<open>list_chain.go\<close> and the List part of \<^verbatim>\<open>json.go\<close>. The backing slice is
  an option: a nil slice marshals differently from an empty one, so the two are kept apart, and
  \<open>sl\<close> reads either as a list. Loops that work in place (\<open>RemoveIf\<close>, \<open>SetAllIndexed\<close>, the copies of
  \<open>AddAllAt\<close> and \<open>RemoveAt\<close>) are modelled write by write. Predicates and mappers are pure functions.
  \<open>slices.SortFunc\<close>, which leaves the order of equal items open, is the parameter \<open>sort_func\<close>.
  Shown: over any history the list answers as a mathematical list, the serialization cache is never
  stale, and the chain operations are filters, prefixes and suffixes.
\<close>

type_synonym 'a slice = "'a list option"

definition sl :: "'a slice \<Rightarrow> 'a list" where
  "sl s = (case s of None \<Rightarrow> [] | Some xs \<Rightarrow> xs)"

lemma sl_simps [simp]: "sl None = []" "sl (Some xs) = xs"
  by (simp_all add: sl_def)

record 'a glist =
  li_items :: "'a slice"
  li_ser :: ser_cache

definition li_zero :: "'a glist" where
  "li_zero = \<lparr>li_items = None, li_ser = ser_zero\<rparr>"

definition List_invalidateSerializationCache :: "'a glist \<Rightarrow> 'a glist" where
  "List_invalidateSerializationCache l = l\<lparr>li_ser := ser_invalidate (li_ser l)\<rparr>"

definition List_cacheSerializationData :: "'a glist \<Rightarrow> bytes \<Rightarrow> 'a glist" where
  "List_cacheSerializationData l data = l\<lparr>li_ser := ser_store data (li_ser l)\<rparr>"

primrec List_Add :: "'a glist option \<Rightarrow> 'a list \<Rightarrow> 'a glist option" where
  "List_Add None xs = None"
| "List_Add (Some l) xs =
     (if xs = [] then Some l
      else Some (List_invalidateSerializationCache (l\<lparr>li_items := Some (sl (li_items l) @ xs)\<rparr>)))"

definition NewListWithCapacity :: "int \<Rightarrow> 'a list \<Rightarrow> 'a glist option" where
  "NewListWithCapacity capacity xs =
     (let cap = (if capacity < int (length xs) then int (length xs) else capacity)
      in if cap \<le> 0 then Some li_zero
         else List_Add (Some (li_zero\<lparr>li_items := Some []\<rparr>)) xs)"

definition NewList :: "'a list \<Rightarrow> 'a glist option" where
  "NewList xs = NewListWithCapacity (int (length xs)) xs"

fun List_Merge :: "'a glist option \<Rightarrow> 'a glist option \<Rightarrow> 'a glist option" where
  "List_Merge None other = None"
| "List_Merge (Some l) None = Some l"
| "List_Merge (Some l) (Some other) =
     (if length (sl (li_items other)) = 0 then Some l
      else Some (List_invalidateSerializationCache
                   (l\<lparr>li_items := Some (sl (li_items l) @ sl (li_items other))\<rparr>)))"

definition List_MergeSlice :: "'a glist option \<Rightarrow> 'a list \<Rightarrow> 'a glist option" where
  "List_MergeSlice p xs = (if p = None then None else List_Add p xs)"

primrec List_AddAllAt :: "'a glist option \<Rightarrow> int \<Rightarrow> 'a list \<Rightarrow> 'a glist option \<times> bool" where
  "List_AddAllAt None index xs = (None, False)"
| "List_AddAllAt (Some l) index xs =
     (if index < 0 \<or> index > int (length (sl (li_items l))) then (Some l, False)
      else if length xs = 0 then (Some l, True)
      else let i = nat index;
               s1 = sl (li_items l) @ xs;
               s2 = go_copy s1 (i + length xs) (go_slice_range s1 i (length s1 - length xs));
               s3 = go_copy s2 i xs
           in (Some (List_invalidateSerializationCache (l\<lparr>li_items := Some s3\<rparr>)), True))"

definition List_AddAt :: "'a glist option \<Rightarrow> int \<Rightarrow> 'a \<Rightarrow> 'a glist option \<times> bool" where
  "List_AddAt p index x = List_AddAllAt p index [x]"

primrec List_Get :: "'a glist option \<Rightarrow> int \<Rightarrow> 'a option" where
  "List_Get None index = None"
| "List_Get (Some l) index =
     (if index < 0 \<or> index \<ge> int (length (sl (li_items l))) then None
      else Some (sl (li_items l) ! nat index))"

definition List_GetFirst :: "'a glist option \<Rightarrow> 'a option" where
  "List_GetFirst p = List_Get p 0"

definition List_GetOption :: "'a glist option \<Rightarrow> int \<Rightarrow> 'a option" where
  "List_GetOption p index = (case List_Get p index of None \<Rightarrow> None | Some v \<Rightarrow> Some v)"

definition List_GetFirstOption :: "'a glist option \<Rightarrow> 'a option" where
  "List_GetFirstOption p = List_GetOption p 0"

primrec List_Len :: "'a glist option \<Rightarrow> nat" where
  "List_Len None = 0"
| "List_Len (Some l) = length (sl (li_items l))"

definition List_GetLast :: "'a glist option \<Rightarrow> 'a option" where
  "List_GetLast p = List_Get p (int (List_Len p) - 1)"

definition List_GetLastOption :: "'a glist option \<Rightarrow> 'a option" where
  "List_GetLastOption p = (case List_GetLast p of None \<Rightarrow> None | Some v \<Rightarrow> Some v)"

primrec List_Set :: "'a glist option \<Rightarrow> int \<Rightarrow> 'a \<Rightarrow> 'a glist option \<times> bool" where
  "List_Set None index x = (None, False)"
| "List_Set (Some l) index x =
     (if index < 0 \<or> index \<ge> int (length (sl (li_items l))) then (Some l, False)
      else (Some (List_invalidateSerializationCache
                    (l\<lparr>li_items := Some ((sl (li_items l))[nat index := x])\<rparr>)), True))"

fun List_SetAllIndexed ::
    "'a glist option \<Rightarrow> (nat \<Rightarrow> 'a \<Rightarrow> 'a) option \<Rightarrow> 'a glist option \<times> nat" where
  "List_SetAllIndexed (Some l) (Some mapper) =
     (if length (sl (li_items l)) = 0 then (Some l, 0)
      else let xs = foldl (\<lambda>ys i. ys[i := mapper i (ys ! i)]) (sl (li_items l))
                      [0 ..< length (sl (li_items l))]
           in (Some (List_invalidateSerializationCache (l\<lparr>li_items := Some xs\<rparr>)), length xs))"
| "List_SetAllIndexed p _ = (p, 0)"

definition List_SetAll ::
    "'a glist option \<Rightarrow> ('a \<Rightarrow> 'a) option \<Rightarrow> 'a glist option \<times> nat" where
  "List_SetAll p mapper =
     (case mapper of None \<Rightarrow> (p, 0) | Some f \<Rightarrow> List_SetAllIndexed p (Some (\<lambda>_. f)))"

primrec List_RemoveAt :: "'a::zero glist option \<Rightarrow> int \<Rightarrow> 'a glist option \<times> 'a option" where
  "List_RemoveAt None index = (None, None)"
| "List_RemoveAt (Some l) index =
     (if index < 0 \<or> index \<ge> int (length (sl (li_items l))) then (Some l, None)
      else let i = nat index;
               s = sl (li_items l);
               removed = s ! i;
               s1 = go_copy s i (drop (i + 1) s);
               s2 = s1[length s1 - 1 := 0];
               s3 = take (length s2 - 1) s2
           in (Some (List_invalidateSerializationCache (l\<lparr>li_items := Some s3\<rparr>)), Some removed))"

definition List_RemoveAtOption ::
    "'a::zero glist option \<Rightarrow> int \<Rightarrow> 'a glist option \<times> 'a option" where
  "List_RemoveAtOption p index =
     (case List_RemoveAt p index of (q, None) \<Rightarrow> (q, None) | (q, Some v) \<Rightarrow> (q, Some v))"

text \<open>The compaction loop of \<open>RemoveIf\<close>: the slice and the write index after reading the items at
  the given indices.\<close>

fun removeIfLoop :: "('a \<Rightarrow> bool) \<Rightarrow> nat list \<Rightarrow> 'a list \<Rightarrow> nat \<Rightarrow> 'a list \<times> nat" where
  "removeIfLoop predicate [] xs writeIndex = (xs, writeIndex)"
| "removeIfLoop predicate (i # is) xs writeIndex =
     (if predicate (xs ! i) then removeIfLoop predicate is xs writeIndex
      else removeIfLoop predicate is (xs[writeIndex := xs ! i]) (writeIndex + 1))"

fun List_RemoveIf ::
    "'a::zero glist option \<Rightarrow> ('a \<Rightarrow> bool) option \<Rightarrow> 'a glist option \<times> nat" where
  "List_RemoveIf (Some l) (Some predicate) =
     (if length (sl (li_items l)) = 0 then (Some l, 0)
      else case removeIfLoop predicate [0 ..< length (sl (li_items l))] (sl (li_items l)) 0 of
             (xs, writeIndex) \<Rightarrow>
               let removed = length xs - writeIndex
               in if removed = 0 then (Some (l\<lparr>li_items := Some xs\<rparr>), 0)
                  else let zs = foldl (\<lambda>ys i. ys[i := 0]) xs [writeIndex ..< length xs]
                       in (Some (List_invalidateSerializationCache
                                   (l\<lparr>li_items := Some (take writeIndex zs)\<rparr>)), removed))"
| "List_RemoveIf p _ = (p, 0)"

definition List_IsEmpty :: "'a glist option \<Rightarrow> bool" where
  "List_IsEmpty p \<longleftrightarrow> List_Len p = 0"

primrec List_Clear :: "'a glist option \<Rightarrow> 'a glist option" where
  "List_Clear None = None"
| "List_Clear (Some l) = Some (l\<lparr>li_items := None, li_ser := ser_zero\<rparr>)"

primrec List_Values :: "'a glist option \<Rightarrow> 'a list" where
  "List_Values None = []"
| "List_Values (Some l) = (if length (sl (li_items l)) = 0 then [] else sl (li_items l))"

fun List_Range ::
    "'a glist option \<Rightarrow> ('st \<Rightarrow> nat \<times> 'a \<Rightarrow> 'st \<times> bool) option \<Rightarrow> 'st \<Rightarrow> 'st" where
  "List_Range (Some l) (Some fn) st = range_until fn st (enumerate 0 (sl (li_items l)))"
| "List_Range _ _ st = st"

primrec List_Clone :: "'a glist option \<Rightarrow> 'a glist option" where
  "List_Clone None = Some li_zero"
| "List_Clone (Some l) =
     (if length (sl (li_items l)) = 0 then Some li_zero
      else Some (li_zero\<lparr>li_items := Some (sl (li_items l))\<rparr>))"

fun List_Sort ::
    "(('a \<Rightarrow> 'a \<Rightarrow> int) \<Rightarrow> 'a list \<Rightarrow> 'a list) \<Rightarrow> 'a glist option \<Rightarrow> ('a \<Rightarrow> 'a \<Rightarrow> int) option
     \<Rightarrow> 'a glist option" where
  "List_Sort sort_func None compare = NewList []"
| "List_Sort sort_func (Some l) None = Some l"
| "List_Sort sort_func (Some l) (Some compare) =
     (if length (sl (li_items l)) < 2 then Some l
      else Some (List_invalidateSerializationCache
                   (l\<lparr>li_items := Some (sort_func compare (sl (li_items l)))\<rparr>)))"

subsection \<open>Chain operations\<close>

fun List_Where :: "'a glist option \<Rightarrow> (nat \<Rightarrow> 'a \<Rightarrow> bool) option \<Rightarrow> 'a glist option" where
  "List_Where (Some l) (Some predicate) =
     (if length (sl (li_items l)) = 0 then NewList []
      else foldl (\<lambda>filtered (i, x). if predicate i x then List_Add filtered [x] else filtered)
             (NewListWithCapacity (int (length (sl (li_items l)))) [])
             (enumerate 0 (sl (li_items l))))"
| "List_Where _ _ = NewList []"

fun List_Reject :: "'a glist option \<Rightarrow> (nat \<Rightarrow> 'a \<Rightarrow> bool) option \<Rightarrow> 'a glist option" where
  "List_Reject (Some l) (Some predicate) =
     (if length (sl (li_items l)) = 0 then NewList []
      else foldl (\<lambda>rejected (i, x). if \<not> predicate i x then List_Add rejected [x] else rejected)
             (NewListWithCapacity (int (length (sl (li_items l)))) [])
             (enumerate 0 (sl (li_items l))))"
| "List_Reject _ _ = NewList []"

primrec List_Take :: "'a glist option \<Rightarrow> int \<Rightarrow> 'a glist option" where
  "List_Take None n = NewList []"
| "List_Take (Some l) n =
     (if n \<le> 0 \<or> length (sl (li_items l)) = 0 then NewList []
      else if n \<ge> int (length (sl (li_items l))) then List_Clone (Some l)
      else NewList (take (nat n) (sl (li_items l))))"

primrec List_Drop :: "'a glist option \<Rightarrow> int \<Rightarrow> 'a glist option" where
  "List_Drop None n = NewList []"
| "List_Drop (Some l) n =
     (if length (sl (li_items l)) = 0 then NewList []
      else if n \<le> 0 then List_Clone (Some l)
      else if n \<ge> int (length (sl (li_items l))) then NewList []
      else NewList (drop (nat n) (sl (li_items l))))"

fun List_Each ::
    "'a glist option \<Rightarrow> ('st \<Rightarrow> nat \<times> 'a \<Rightarrow> 'st) option \<Rightarrow> 'st \<Rightarrow> 'st \<times> 'a glist option" where
  "List_Each None fn st = (st, NewList [])"
| "List_Each (Some l) None st = (st, Some l)"
| "List_Each (Some l) (Some fn) st = (foldl fn st (enumerate 0 (sl (li_items l))), Some l)"

fun firstWhereLoop :: "(nat \<Rightarrow> 'a \<Rightarrow> bool) \<Rightarrow> (nat \<times> 'a) list \<Rightarrow> 'a option" where
  "firstWhereLoop predicate [] = None"
| "firstWhereLoop predicate ((i, x) # rest) =
     (if predicate i x then Some x else firstWhereLoop predicate rest)"

fun List_FirstWhere :: "'a glist option \<Rightarrow> (nat \<Rightarrow> 'a \<Rightarrow> bool) option \<Rightarrow> 'a option" where
  "List_FirstWhere (Some l) (Some predicate) =
     (if length (sl (li_items l)) = 0 then None
      else firstWhereLoop predicate (enumerate 0 (sl (li_items l))))"
| "List_FirstWhere _ _ = None"

definition List_AnyMatch :: "'a glist option \<Rightarrow> (nat \<Rightarrow> 'a \<Rightarrow> bool) option \<Rightarrow> bool" where
  "List_AnyMatch p predicate = (case List_FirstWhere p predicate of None \<Rightarrow> False | Some _ \<Rightarrow> True)"

fun List_AllMatch :: "'a glist option \<Rightarrow> (nat \<Rightarrow> 'a \<Rightarrow> bool) option \<Rightarrow> bool" where
  "List_AllMatch (Some l) (Some predicate) =
     (if length (sl (li_items l)) = 0 then False
      else range_until (\<lambda>ok (i, x). if predicate i x then (ok, True) else (False, False)) True
             (enumerate 0 (sl (li_items l))))"
| "List_AllMatch _ _ = False"

subsection \<open>JSON\<close>

text \<open>\<open>marshal\<close> is \<open>json.Marshal\<close> on a slice, nil or not.\<close>

primrec List_ToJSON ::
    "'a slice json_marshal \<Rightarrow> 'a glist option \<Rightarrow> 'a glist option \<times> (string + bytes)" where
  "List_ToJSON marshal None = (None, marshalListJSON marshal None ''list'')"
| "List_ToJSON marshal (Some l) =
     (case (jsonDirty (li_ser l), jsonCache (li_ser l)) of
        (False, Some d) \<Rightarrow> (Some l, Inr d)
      | _ \<Rightarrow> (case marshalListJSON marshal (li_items l) ''list'' of
                Inl err \<Rightarrow> (Some l, Inl err)
              | Inr d \<Rightarrow> (Some (List_cacheSerializationData l d), Inr d)))"

definition List_MarshalJSON ::
    "string + bytes \<Rightarrow> 'a slice json_marshal \<Rightarrow> 'a glist option
     \<Rightarrow> 'a glist option \<times> (string + bytes)" where
  "List_MarshalJSON n marshal p =
     (case List_ToJSON marshal p of (q, r) \<Rightarrow> (q, forwardListJSON n (\<lambda>_. r) ''list''))"

definition List_String ::
    "'a slice json_marshal \<Rightarrow> 'a glist option \<Rightarrow> 'a glist option \<times> string" where
  "List_String marshal p =
     (case p of
        Some l \<Rightarrow>
          if \<not> jsonDirty (li_ser l) \<and> stringCache (li_ser l) \<noteq> [] then (p, stringCache (li_ser l))
          else (case List_ToJSON marshal p of (q, r) \<Rightarrow> (q, JSONResultString r ''[]''))
      | None \<Rightarrow> (case List_ToJSON marshal p of (q, r) \<Rightarrow> (q, JSONResultString r ''[]'')))"

subsection \<open>The in-place loops\<close>

lemma removeIfLoop_spec:
  assumes "w \<le> k" "k \<le> length xs" "removeIfLoop P [k ..< length xs] xs w = (ys, w')"
  shows "length ys = length xs \<and> w' \<le> length xs
       \<and> take w' ys = take w xs @ filter (\<lambda>x. \<not> P x) (drop k xs)"
  using assms
proof (induction "length xs - k" arbitrary: k xs w)
  case 0
  then show ?case by auto
next
  case (Suc m)
  then have k: "k < length xs" "m = length xs - Suc k" by auto
  have upt: "[k ..< length xs] = k # [Suc k ..< length xs]" using k by (simp add: upt_conv_Cons)
  note d = Cons_nth_drop_Suc [OF k(1), symmetric]
  show ?case
  proof (cases "P (xs ! k)")
    case True
    then show ?thesis
      using Suc.hyps(1) [OF k(2), of w] Suc.prems k by (simp add: upt d)
  next
    case False
    let ?xs = "xs[w := xs ! k]"
    have "removeIfLoop P [Suc k ..< length ?xs] ?xs (Suc w) = (ys, w')"
      using False Suc.prems(3) by (simp add: upt)
    moreover have "Suc w \<le> Suc k" "Suc k \<le> length ?xs" "m = length ?xs - Suc k"
      using Suc.prems(1) k by auto
    ultimately have "length ys = length ?xs \<and> w' \<le> length ?xs
        \<and> take w' ys = take (Suc w) ?xs @ filter (\<lambda>x. \<not> P x) (drop (Suc k) ?xs)"
      using Suc.hyps(1) by blast
    moreover have "take (Suc w) ?xs = take w xs @ [xs ! k]"
      using Suc.prems(1) k(1) by (simp add: take_Suc_conv_app_nth)
    moreover have "drop (Suc k) ?xs = drop (Suc k) xs" using Suc.prems(1) by simp
    ultimately show ?thesis using False by (simp add: d)
  qed
qed

lemma removeIfLoop_filter:
  assumes "removeIfLoop P [0 ..< length xs] xs 0 = (ys, w)"
  shows "length ys = length xs" and "w = length (filter (\<lambda>x. \<not> P x) xs)"
    and "take w ys = filter (\<lambda>x. \<not> P x) xs" and "w = length xs \<Longrightarrow> ys = xs"
proof -
  have spec: "length ys = length xs \<and> w \<le> length xs \<and> take w ys = filter (\<lambda>x. \<not> P x) xs"
    using removeIfLoop_spec [OF _ _ assms] by simp
  then show len: "length ys = length xs" and t: "take w ys = filter (\<lambda>x. \<not> P x) xs" by auto
  show w: "w = length (filter (\<lambda>x. \<not> P x) xs)" using spec by (metis length_take min.absorb2)
  show "ys = xs" if "w = length xs"
  proof -
    have "ys = filter (\<lambda>x. \<not> P x) xs" using that t len by simp
    moreover have "filter (\<lambda>x. \<not> P x) xs = xs"
      using that w by (metis filter_id_conv length_filter_less less_irrefl)
    ultimately show ?thesis by simp
  qed
qed

lemma length_zero_loop [simp]: "length (foldl (\<lambda>ys i. ys[i := z]) xs is) = length xs"
  by (induction "is" arbitrary: xs) auto

lemma take_zero_loop: "take w (foldl (\<lambda>ys i. ys[i := z]) xs [w ..< n]) = take w xs"
proof -
  have "take w (foldl (\<lambda>ys i. ys[i := z]) xs is) = take w xs" if "\<forall>i\<in>set is. w \<le> i" for "is"
    using that by (induction "is" arbitrary: xs) auto
  then show ?thesis by simp
qed

lemma map_loop:
  "n \<le> length xs \<Longrightarrow> foldl (\<lambda>ys i. ys[i := f i (ys ! i)]) xs [0 ..< n]
     = map (\<lambda>(i, x). f i x) (enumerate 0 (take n xs)) @ drop n xs"
proof (induction n)
  case (Suc n)
  then have n: "n < length xs" "drop n xs = xs ! n # drop (Suc n) xs"
    by (simp_all add: Cons_nth_drop_Suc)
  have "enumerate 0 (take (Suc n) xs) = enumerate 0 (take n xs) @ [(n, xs ! n)]"
    using n(1) by (simp add: take_Suc_conv_app_nth enumerate_append_eq)
  then show ?case using Suc n by (simp add: list_update_append nth_append)
qed simp

subsection \<open>Over any history a list\<close>

datatype (dead 'a) li_op =
    LiAdd "'a list" | LiMerge "'a glist option" | LiMergeSlice "'a list" | LiAddAt int 'a
  | LiAddAllAt int "'a list" | LiGet int | LiGetFirst | LiGetLast | LiSet int 'a
  | LiSetAll "'a \<Rightarrow> 'a" | LiSetAllIndexed "nat \<Rightarrow> 'a \<Rightarrow> 'a" | LiRemoveAt int
  | LiRemoveIf "'a \<Rightarrow> bool" | LiLen | LiIsEmpty | LiClear | LiValues | LiRange "nat \<times> 'a \<Rightarrow> bool"
  | LiToJSON | LiString

datatype (dead 'a) li_res =
    LiUnit | LiBool bool | LiNat nat | LiItem "'a option" | LiItems "'a list"
  | LiSeen "(nat \<times> 'a) list"

primrec li_step ::
    "'a::zero slice json_marshal \<Rightarrow> 'a li_op \<Rightarrow> 'a glist option \<Rightarrow> 'a glist option \<times> 'a li_res" where
  "li_step marshal (LiAdd xs) p = (List_Add p xs, LiUnit)"
| "li_step marshal (LiMerge other) p = (List_Merge p other, LiUnit)"
| "li_step marshal (LiMergeSlice xs) p = (List_MergeSlice p xs, LiUnit)"
| "li_step marshal (LiAddAt i x) p = map_prod id LiBool (List_AddAt p i x)"
| "li_step marshal (LiAddAllAt i xs) p = map_prod id LiBool (List_AddAllAt p i xs)"
| "li_step marshal (LiGet i) p = (p, LiItem (List_Get p i))"
| "li_step marshal LiGetFirst p = (p, LiItem (List_GetFirst p))"
| "li_step marshal LiGetLast p = (p, LiItem (List_GetLast p))"
| "li_step marshal (LiSet i x) p = map_prod id LiBool (List_Set p i x)"
| "li_step marshal (LiSetAll f) p = map_prod id LiNat (List_SetAll p (Some f))"
| "li_step marshal (LiSetAllIndexed f) p = map_prod id LiNat (List_SetAllIndexed p (Some f))"
| "li_step marshal (LiRemoveAt i) p = map_prod id LiItem (List_RemoveAt p i)"
| "li_step marshal (LiRemoveIf P) p = map_prod id LiNat (List_RemoveIf p (Some P))"
| "li_step marshal LiLen p = (p, LiNat (List_Len p))"
| "li_step marshal LiIsEmpty p = (p, LiBool (List_IsEmpty p))"
| "li_step marshal LiClear p = (List_Clear p, LiUnit)"
| "li_step marshal LiValues p = (p, LiItems (List_Values p))"
| "li_step marshal (LiRange P) p =
     (p, LiSeen (List_Range p (Some (\<lambda>acc x. (acc @ [x], P x))) []))"
| "li_step marshal LiToJSON p = (fst (List_ToJSON marshal p), LiUnit)"
| "li_step marshal LiString p = (fst (List_String marshal p), LiUnit)"

definition in_range :: "int \<Rightarrow> 'a list \<Rightarrow> bool" where
  "in_range i xs \<longleftrightarrow> 0 \<le> i \<and> i < int (length xs)"

definition list_insert :: "int \<Rightarrow> 'a list \<Rightarrow> 'a list \<Rightarrow> 'a list \<times> 'a li_res" where
  "list_insert i ys xs =
     (if 0 \<le> i \<and> i \<le> int (length xs) then (take (nat i) xs @ ys @ drop (nat i) xs, LiBool True)
      else (xs, LiBool False))"

primrec li_spec :: "'a li_op \<Rightarrow> 'a list \<Rightarrow> 'a list \<times> 'a li_res" where
  "li_spec (LiAdd ys) xs = (xs @ ys, LiUnit)"
| "li_spec (LiMerge other) xs = (xs @ List_Values other, LiUnit)"
| "li_spec (LiMergeSlice ys) xs = (xs @ ys, LiUnit)"
| "li_spec (LiAddAt i y) xs = list_insert i [y] xs"
| "li_spec (LiAddAllAt i ys) xs = list_insert i ys xs"
| "li_spec (LiGet i) xs = (xs, LiItem (if in_range i xs then Some (xs ! nat i) else None))"
| "li_spec LiGetFirst xs = (xs, LiItem (if xs = [] then None else Some (hd xs)))"
| "li_spec LiGetLast xs = (xs, LiItem (if xs = [] then None else Some (last xs)))"
| "li_spec (LiSet i x) xs =
     (if in_range i xs then (xs[nat i := x], LiBool True) else (xs, LiBool False))"
| "li_spec (LiSetAll f) xs = (map f xs, LiNat (length xs))"
| "li_spec (LiSetAllIndexed f) xs = (map (\<lambda>(i, x). f i x) (enumerate 0 xs), LiNat (length xs))"
| "li_spec (LiRemoveAt i) xs =
     (if in_range i xs then (take (nat i) xs @ drop (Suc (nat i)) xs, LiItem (Some (xs ! nat i)))
      else (xs, LiItem None))"
| "li_spec (LiRemoveIf P) xs =
     (filter (\<lambda>x. \<not> P x) xs, LiNat (length (filter P xs)))"
| "li_spec LiLen xs = (xs, LiNat (length xs))"
| "li_spec LiIsEmpty xs = (xs, LiBool (xs = []))"
| "li_spec LiClear xs = ([], LiUnit)"
| "li_spec LiValues xs = (xs, LiItems xs)"
| "li_spec (LiRange P) xs =
     (xs, LiSeen (takeWhile P (enumerate 0 xs) @ take 1 (dropWhile P (enumerate 0 xs))))"
| "li_spec LiToJSON xs = (xs, LiUnit)"
| "li_spec LiString xs = (xs, LiUnit)"

definition li_inv :: "'a slice json_marshal \<Rightarrow> 'a glist option \<Rightarrow> bool" where
  "li_inv marshal p \<longleftrightarrow>
     (\<exists>l. p = Some l \<and> ser_coherent (marshalListJSON marshal (li_items l) ''list'') (li_ser l))"

definition li_abs :: "'a glist option \<Rightarrow> 'a list" where
  "li_abs p = (case p of None \<Rightarrow> [] | Some l \<Rightarrow> sl (li_items l))"

lemma li_abs_Some [simp]: "li_abs (Some l) = sl (li_items l)"
  by (simp add: li_abs_def)

lemma li_inv_invalidate [simp]: "li_inv marshal (Some (List_invalidateSerializationCache l))"
  by (simp add: li_inv_def List_invalidateSerializationCache_def)

lemma li_items_invalidate [simp]:
  "li_items (List_invalidateSerializationCache l) = li_items l"
  by (simp add: List_invalidateSerializationCache_def)

text \<open>The content of a list that another type embeds by value, after a call through its address.\<close>

lemma li_items_the [go_map]:
  "sl (li_items (the (List_Add (Some l) xs))) = sl (li_items l) @ xs"
  "sl (li_items (the (List_MergeSlice (Some l) xs))) = sl (li_items l) @ xs"
  "sl (li_items (the (List_Clear (Some l)))) = []"
  by (simp_all add: List_MergeSlice_def)

lemma li_items_RemoveAt [go_map]:
  assumes "n < length (sl (li_items l))"
  shows "sl (li_items (the (fst (List_RemoveAt (Some l) (int n)))))
         = take n (sl (li_items l)) @ drop (Suc n) (sl (li_items l))"
  using assms go_copy_remove [OF assms, of 0] by (simp add: Let_def)

lemma List_Values_items [simp]: "List_Values (Some l) = sl (li_items l)"
  by simp

lemma NewList_ok: "\<exists>l. NewList xs = Some l \<and> sl (li_items l) = xs \<and> li_inv marshal (Some l)"
  by (auto simp: NewList_def NewListWithCapacity_def li_zero_def li_inv_def
      List_invalidateSerializationCache_def)

lemma li_ToJSON_ser:
  "List_ToJSON marshal (Some l)
   = (case ser_to_json (marshalListJSON marshal (li_items l) ''list'') (li_ser l) of
        (c, r) \<Rightarrow> (Some (l\<lparr>li_ser := c\<rparr>), r))"
  by (cases "jsonDirty (li_ser l)"; cases "jsonCache (li_ser l)";
      cases "marshalListJSON marshal (li_items l) ''list''")
    (simp_all add: ser_to_json_def List_cacheSerializationData_def del: marshalListJSON_Inr)

lemma li_ToJSON_inv:
  assumes "li_inv marshal (Some l)"
  shows "li_inv marshal (fst (List_ToJSON marshal (Some l)))"
    and "li_abs (fst (List_ToJSON marshal (Some l))) = sl (li_items l)"
    and "snd (List_ToJSON marshal (Some l)) = marshalListJSON marshal (li_items l) ''list''"
  using assms ser_to_json_fresh [of "marshalListJSON marshal (li_items l) ''list''" "li_ser l"]
  unfolding li_ToJSON_ser by (auto simp: li_inv_def split: prod.splits)

lemma li_String_inv:
  assumes "li_inv marshal (Some l)"
  shows "li_inv marshal (fst (List_String marshal (Some l)))"
    and "li_abs (fst (List_String marshal (Some l))) = sl (li_items l)"
    and "snd (List_String marshal (Some l))
         = (case marshal (li_items l) of Inl _ \<Rightarrow> ''[]'' | Inr d \<Rightarrow> d)"
proof -
  note j = li_ToJSON_inv [OF assms]
  have "marshal (li_items l) = Inr (stringCache (li_ser l))"
    if "\<not> jsonDirty (li_ser l)" "stringCache (li_ser l) \<noteq> []"
    using assms that by (auto simp: li_inv_def ser_coherent_def)
  then show "li_inv marshal (fst (List_String marshal (Some l)))"
    and "li_abs (fst (List_String marshal (Some l))) = sl (li_items l)"
    and "snd (List_String marshal (Some l))
         = (case marshal (li_items l) of Inl _ \<Rightarrow> ''[]'' | Inr d \<Rightarrow> d)"
    using j assms
    by (auto simp: List_String_def simp del: List_ToJSON.simps split: prod.splits)
qed

lemma li_RemoveIf_sim:
  assumes "li_inv marshal (Some l)"
  shows "li_inv marshal (fst (List_RemoveIf (Some l) (Some P)))
    \<and> li_spec (LiRemoveIf P) (sl (li_items l))
      = (li_abs (fst (List_RemoveIf (Some l) (Some P))), LiNat (snd (List_RemoveIf (Some l) (Some P))))"
proof (cases "sl (li_items l) = []")
  case True
  then show ?thesis using assms by simp
next
  case False
  let ?xs = "sl (li_items l)"
  have some: "li_items l = Some ?xs" using False by (cases "li_items l") auto
  obtain ys w where r: "removeIfLoop P [0 ..< length ?xs] ?xs 0 = (ys, w)" by fastforce
  note f = removeIfLoop_filter [OF r]
  have cnt: "length ys - w = length (filter P ?xs)"
    using f(1,2) sum_length_filter_compl [of P ?xs] by simp
  show ?thesis
  proof (cases "length ys - w = 0")
    case True
    then have "ys = ?xs" using f by (metis diff_is_0_eq le_antisym length_filter_le)
    moreover have "filter (\<lambda>x. \<not> P x) ?xs = ?xs"
      using True cnt by (metis (no_types, lifting) filter_empty_conv filter_id_conv length_0_conv)
    ultimately show ?thesis using r False True cnt assms some by (simp add: li_inv_def)
  next
    case ne: False
    then have "\<not> length ys \<le> w" by simp
    with r False cnt f(3) show ?thesis by (simp add: take_zero_loop Let_def)
  qed
qed

lemma li_edits_sim:
  assumes "li_inv marshal (Some l)"
  shows "li_inv marshal (fst (List_AddAllAt (Some l) i ys))
      \<and> list_insert i ys (sl (li_items l))
        = (li_abs (fst (List_AddAllAt (Some l) i ys)), LiBool (snd (List_AddAllAt (Some l) i ys)))"
    and "li_inv marshal (fst (List_RemoveAt (Some l) i))
      \<and> li_spec (LiRemoveAt i) (sl (li_items l))
        = (li_abs (fst (List_RemoveAt (Some l) i)), LiItem (snd (List_RemoveAt (Some l) i)))"
    and "li_inv marshal (fst (List_SetAllIndexed (Some l) (Some f)))
      \<and> li_spec (LiSetAllIndexed f) (sl (li_items l))
        = (li_abs (fst (List_SetAllIndexed (Some l) (Some f))),
           LiNat (snd (List_SetAllIndexed (Some l) (Some f))))"
proof -
  let ?xs = "sl (li_items l)"
  show "li_inv marshal (fst (List_AddAllAt (Some l) i ys))
      \<and> list_insert i ys ?xs
        = (li_abs (fst (List_AddAllAt (Some l) i ys)), LiBool (snd (List_AddAllAt (Some l) i ys)))"
    using assms go_copy_insert [of "nat i" ?xs ys] by (auto simp: list_insert_def Let_def)
  show "li_inv marshal (fst (List_RemoveAt (Some l) i))
      \<and> li_spec (LiRemoveAt i) ?xs
        = (li_abs (fst (List_RemoveAt (Some l) i)), LiItem (snd (List_RemoveAt (Some l) i)))"
    using assms go_copy_remove [of "nat i" ?xs 0] by (auto simp: in_range_def Let_def nat_less_iff)
  have "length (foldl (\<lambda>ys i. ys[i := f i (ys ! i)]) xs is) = length xs" for xs and "is"
    by (induction "is" arbitrary: xs) auto
  then show "li_inv marshal (fst (List_SetAllIndexed (Some l) (Some f)))
      \<and> li_spec (LiSetAllIndexed f) ?xs
        = (li_abs (fst (List_SetAllIndexed (Some l) (Some f))),
           LiNat (snd (List_SetAllIndexed (Some l) (Some f))))"
    using assms map_loop [of "length ?xs" ?xs f] by (auto simp: Let_def)
qed

interpretation li_ref: data_refinement "li_step marshal" "li_inv marshal" li_spec li_abs
  for marshal :: "'a::zero slice json_marshal"
proof unfold_locales
  fix p :: "'a glist option" and c :: "'a li_op"
  assume inv: "li_inv marshal p"
  then obtain l where p: "p = Some l" by (auto simp: li_inv_def)
  note i = inv [unfolded p]
  note edits = li_edits_sim [OF i] li_RemoveIf_sim [OF i] li_ToJSON_inv [OF i] li_String_inv [OF i] i
  note del = List_AddAllAt.simps List_RemoveAt.simps List_SetAllIndexed.simps List_RemoveIf.simps
    List_ToJSON.simps
  have mrg: "li_inv marshal (List_Merge (Some l) o')
      \<and> li_abs (List_Merge (Some l) o') = sl (li_items l) @ List_Values o'" for o'
    using i by (cases o') auto
  have all: "map (\<lambda>(i, x). f x) (enumerate 0 xs) = map f xs" for f :: "'a \<Rightarrow> 'a" and xs
    by (rule nth_equalityI) (simp_all add: nth_enumerate_eq)
  have pred: "nat (int n - 1) = n - Suc 0" for n by linarith
  have idx: "List_GetFirst (Some l) = (if sl (li_items l) = [] then None else Some (hd (sl (li_items l))))"
      "List_GetLast (Some l) = (if sl (li_items l) = [] then None else Some (last (sl (li_items l))))"
    by (auto simp: List_GetFirst_def List_GetLast_def hd_conv_nth last_conv_nth pred)
  show "li_inv marshal (fst (li_step marshal c p))"
    using edits mrg
    by (cases c) (auto simp: p List_MergeSlice_def List_AddAt_def List_SetAll_def li_inv_def
        List_invalidateSerializationCache_def simp del: del)
  have setall: "map f (sl (li_items l)) = li_abs (fst (List_SetAllIndexed (Some l) (Some (\<lambda>_. f))))
      \<and> length (sl (li_items l)) = snd (List_SetAllIndexed (Some l) (Some (\<lambda>_. f)))" for f
    using li_edits_sim(3) [OF i, of "\<lambda>_. f"] all by simp
  show "li_spec c (li_abs p) = (li_abs (fst (li_step marshal c p)), snd (li_step marshal c p))"
  proof (cases c)
    case (LiSetAll f)
    then show ?thesis using setall [of f] by (simp add: p List_SetAll_def del: del)
  qed (use edits mrg in \<open>simp_all add: p List_MergeSlice_def List_AddAt_def idx in_range_def
        List_IsEmpty_def range_until_collect nat_less_iff del: del One_nat_def\<close>)
qed

text \<open>
  C16. Over any history of calls on a list made with \<open>NewList\<close>, every call answers as a mathematical
  list would: appending, inserting and removing at an index, replacing, mapping in place, filtering
  in place with the number of items removed, reads at valid and invalid indices, and traversals.
\<close>

theorem list_refines_list:
  "snd (run (li_step marshal) cs (NewList xs)) = snd (run li_spec cs xs)"
proof -
  obtain l where l: "NewList xs = Some l" "sl (li_items l) = xs" "li_inv marshal (Some l)"
    using NewList_ok by blast
  from li_ref.run_results [OF l(3), of cs] show ?thesis by (simp add: l)
qed

text \<open>
  After any history, \<open>ToJSON\<close> and \<open>String\<close> give what marshalling the current items gives: no
  operation leaves a stale serialization behind.
\<close>

theorem list_json_fresh:
  "\<exists>l. fst (run (li_step marshal) cs (NewList xs)) = Some l
     \<and> snd (List_ToJSON marshal (Some l)) = marshalListJSON marshal (li_items l) ''list''
     \<and> snd (List_String marshal (Some l)) = (case marshal (li_items l) of Inl _ \<Rightarrow> ''[]'' | Inr d \<Rightarrow> d)"
proof -
  obtain l where l: "NewList xs = Some l" "li_inv marshal (Some l)" using NewList_ok by blast
  from li_ref.run_inv [OF l(2), of cs]
  obtain m where m: "fst (run (li_step marshal) cs (Some l)) = Some m" "li_inv marshal (Some m)"
    by (auto simp: li_inv_def)
  then show ?thesis using li_ToJSON_inv(3) [OF m(2)] li_String_inv(3) [OF m(2)] by (simp add: l)
qed

subsection \<open>Chain operations\<close>

text \<open>Adding the items that pass a test, one by one, to a growing list.\<close>

lemma foldl_collect:
  "li_abs (foldl (\<lambda>out (i, x). if P i x then List_Add out [x] else out) (Some l) ixs)
   = sl (li_items l) @ map snd (filter (\<lambda>(i, x). P i x) ixs)"
proof (induction ixs arbitrary: l)
  case (Cons ix ixs)
  then show ?case by (cases ix) simp
qed simp

lemma firstWhereLoop_find:
  "firstWhereLoop P ixs = map_option snd (List.find (\<lambda>(i, x). P i x) ixs)"
  by (induction P ixs rule: firstWhereLoop.induct) auto

lemma allMatch_loop:
  "range_until (\<lambda>ok (i, x). if P i x then (ok, True) else (False, False)) b ixs
   \<longleftrightarrow> (if \<forall>(i, x)\<in>set ixs. P i x then b else False)"
proof (induction ixs arbitrary: b)
  case (Cons ix ixs)
  obtain i x where "ix = (i, x)" by fastforce
  with Cons.IH show ?case by (cases "P i x") simp_all
qed simp

text \<open>
  The chain operations of a non-nil list with a predicate: \<open>Where\<close> and \<open>Reject\<close> split the items by
  an index-aware predicate without changing their order, \<open>Take\<close> and \<open>Drop\<close> split them at an index,
  \<open>FirstWhere\<close> finds the first match, \<open>AnyMatch\<close> and \<open>AllMatch\<close> are the two quantifiers, except
  that \<open>AllMatch\<close> is false on an empty list.
\<close>

theorem list_chain_ops:
  fixes l :: "'a glist"
  defines "xs \<equiv> sl (li_items l)"
  shows "li_abs (List_Where (Some l) (Some P)) = map snd (filter (\<lambda>(i, x). P i x) (enumerate 0 xs))
       \<and> li_abs (List_Reject (Some l) (Some P)) = map snd (filter (\<lambda>(i, x). \<not> P i x) (enumerate 0 xs))
       \<and> li_abs (List_Take (Some l) n) = take (nat n) xs
       \<and> li_abs (List_Drop (Some l) n) = drop (nat n) xs
       \<and> List_FirstWhere (Some l) (Some P)
         = map_option snd (List.find (\<lambda>(i, x). P i x) (enumerate 0 xs))
       \<and> List_AnyMatch (Some l) (Some P) = (\<exists>i < length xs. P i (xs ! i))
       \<and> List_AllMatch (Some l) (Some P) = (xs \<noteq> [] \<and> \<not> (\<exists>i < length xs. \<not> P i (xs ! i)))"
proof -
  have new: "li_abs (NewList ys) = ys" for ys :: "'a list"
    using NewList_ok [of ys "\<lambda>_. Inr []"] by auto
  have cap: "\<exists>k. NewListWithCapacity (int n) [] = Some k \<and> sl (li_items k) = ([] :: 'a list)" for n
    by (auto simp: NewListWithCapacity_def li_zero_def)
  obtain k :: "'a glist" where k: "NewListWithCapacity (int (length xs)) [] = Some k" "sl (li_items k) = []"
    using cap by blast
  have wh: "li_abs (List_Where (Some l) (Some P)) = map snd (filter (\<lambda>(i, x). P i x) (enumerate 0 xs))"
    using foldl_collect [of P k "enumerate 0 xs"] k new by (auto simp: xs_def [symmetric])
  have rj: "li_abs (List_Reject (Some l) (Some P)) = map snd (filter (\<lambda>(i, x). \<not> P i x) (enumerate 0 xs))"
    using foldl_collect [of "\<lambda>i x. \<not> P i x" k "enumerate 0 xs"] k new by (auto simp: xs_def [symmetric])
  have tk: "li_abs (List_Take (Some l) n) = take (nat n) xs"
    and dr: "li_abs (List_Drop (Some l) n) = drop (nat n) xs"
    by (auto simp: xs_def new li_zero_def)
  have fw: "List_FirstWhere (Some l) (Some P)
         = map_option snd (List.find (\<lambda>(i, x). P i x) (enumerate 0 xs))"
    by (simp add: xs_def firstWhereLoop_find)
  have set: "(i, x) \<in> set (enumerate 0 xs) \<longleftrightarrow> i < length xs \<and> xs ! i = x" for i x
    by (auto simp: in_set_enumerate_eq)
  have am: "List_AnyMatch (Some l) (Some P) = (\<exists>i < length xs. P i (xs ! i))"
  proof -
    have "List.find (\<lambda>(i, x). P i x) (enumerate 0 xs) = None \<longleftrightarrow> \<not> (\<exists>i < length xs. P i (xs ! i))"
      using set by (auto simp: find_None_iff)
    then show ?thesis
      unfolding List_AnyMatch_def fw
      by (cases "List.find (\<lambda>(i, x). P i x) (enumerate 0 xs)") auto
  qed
  have "List_AllMatch (Some l) (Some P) = (xs \<noteq> [] \<and> \<not> (\<exists>i < length xs. \<not> P i (xs ! i)))"
  proof -
    have "(\<forall>(i, x)\<in>set (enumerate 0 xs). P i x) \<longleftrightarrow> \<not> (\<exists>i < length xs. \<not> P i (xs ! i))"
      using set by fastforce
    then show ?thesis by (simp add: xs_def [symmetric] allMatch_loop)
  qed
  with wh rj tk dr fw am show ?thesis by blast
qed

end
