(* ===== verification/Go_Strings.thy ===== *)
theory Go_Strings
  imports Go_Prelude
begin

text \<open>
  The part of Go's \<open>strings\<close>, \<open>unicode\<close> and \<open>utf8\<close> packages that the modelled code calls. A Go string is
  its sequence of bytes (a \<open>char list\<close>). White space is the set of UTF-8 encodings of the runes of
  \<open>unicode.IsSpace\<close>: no such encoding starts with a continuation byte, so scanning byte by byte finds
  the same spaces as decoding rune by rune. Letters, digits and letter case of the whole of Unicode
  are tables; they are the parameter \<open>unicode\<close> of the functions that consult them.
\<close>

subsection \<open>Search and prefixes\<close>

definition HasPrefix :: "string \<Rightarrow> string \<Rightarrow> bool" where
  "HasPrefix s p \<longleftrightarrow> take (length p) s = p"

definition TrimPrefix :: "string \<Rightarrow> string \<Rightarrow> string" where
  "TrimPrefix s p = (if HasPrefix s p then drop (length p) s else s)"

text \<open>\<open>strings.Index\<close>, with \<open>None\<close> for \<open>-1\<close>.\<close>

fun go_index :: "string \<Rightarrow> string \<Rightarrow> nat option" where
  "go_index [] sub = (if sub = [] then Some 0 else None)"
| "go_index (c # s) sub = (if HasPrefix (c # s) sub then Some 0 else map_option Suc (go_index s sub))"

text \<open>\<open>strings.Cut\<close>: before, after, found.\<close>

definition go_cut :: "string \<Rightarrow> string \<Rightarrow> string \<times> string \<times> bool" where
  "go_cut s sep =
     (case go_index s sep of None \<Rightarrow> (s, [], False)
      | Some i \<Rightarrow> (take i s, drop (i + length sep) s, True))"

lemma HasPrefix_append [simp]: "HasPrefix (p @ s) p"
  by (simp add: HasPrefix_def)

lemma HasPrefix_iff: "HasPrefix s p \<longleftrightarrow> (\<exists>t. s = p @ t)"
  by (metis HasPrefix_def HasPrefix_append append_take_drop_id)

lemma go_index_Some:
  assumes "go_index s sub = Some i"
  shows "s = take i s @ sub @ drop (i + length sub) s" and "i + length sub \<le> length s"
    and "\<And>j. j < i \<Longrightarrow> \<not> HasPrefix (drop j s) sub"
proof -
  have "s = take i s @ sub @ drop (i + length sub) s \<and> i + length sub \<le> length s
      \<and> (\<forall>j<i. \<not> HasPrefix (drop j s) sub)"
    using assms
  proof (induction s arbitrary: i)
    case Nil
    then show ?case by (simp split: if_splits)
  next
    case (Cons c s)
    show ?case
    proof (cases "HasPrefix (c # s) sub")
      case True
      then obtain t where "c # s = sub @ t" by (auto simp: HasPrefix_iff)
      moreover from this have "length sub + length t = Suc (length s)"
        by (metis length_append length_Cons)
      moreover have "i = 0" using True Cons.prems by simp
      ultimately show ?thesis by simp
    next
      case False
      with Cons.prems obtain k where k: "go_index s sub = Some k" "i = Suc k" by auto
      from Cons.IH [OF k(1)] False k(2) show ?thesis
        by (auto simp: less_Suc_eq_0_disj)
    qed
  qed
  then show "s = take i s @ sub @ drop (i + length sub) s" and "i + length sub \<le> length s"
    and "\<And>j. j < i \<Longrightarrow> \<not> HasPrefix (drop j s) sub" by blast+
qed

lemma go_index_None: "go_index s sub = None \<Longrightarrow> \<not> HasPrefix (drop j s) sub"
proof (induction s arbitrary: j)
  case (Cons c s)
  then show ?case by (cases j) (auto split: if_splits)
qed (auto simp: HasPrefix_def split: if_splits)

lemma go_index_None_iff: "go_index s sub = None \<longleftrightarrow> (\<forall>j. \<not> HasPrefix (drop j s) sub)"
proof
  assume none: "\<forall>j. \<not> HasPrefix (drop j s) sub"
  show "go_index s sub = None"
  proof (rule ccontr)
    assume "go_index s sub \<noteq> None"
    then obtain i where i: "go_index s sub = Some i" by blast
    have "drop i s = sub @ drop (i + length sub) s"
      using go_index_Some(1,2) [OF i] by (metis append_eq_conv_conj length_take min.absorb2 add_leD1)
    then show False using none by (metis HasPrefix_append)
  qed
qed (use go_index_None in blast)

lemma go_indexI:
  assumes "\<And>j. j < length a \<Longrightarrow> \<not> HasPrefix (drop j (a @ sub @ b)) sub"
  shows "go_index (a @ sub @ b) sub = Some (length a)"
  using assms
proof (induction a)
  case Nil
  have "HasPrefix (sub @ b) sub" by simp
  then show ?case by (cases "sub @ b") (auto simp: HasPrefix_def)
next
  case (Cons c a)
  from Cons.prems [of 0] have "\<not> HasPrefix (c # a @ sub @ b) sub" by simp
  moreover have "\<not> HasPrefix (drop j (a @ sub @ b)) sub" if "j < length a" for j
    using Cons.prems [of "Suc j"] that by simp
  ultimately show ?case using Cons.IH by simp
qed

text \<open>A two-byte marker is found where it starts when the text before does not contain it.\<close>

lemma HasPrefix_two: "HasPrefix s [a, b] \<longleftrightarrow> (\<exists>t. s = a # b # t)"
  by (auto simp: HasPrefix_iff)

lemma go_index_marker:
  assumes clean: "go_index pre [a, b] = None" and ab: "a \<noteq> b" and rest: "HasPrefix rest [a, b]"
  shows "go_index (pre @ rest) [a, b] = Some (length pre)"
proof -
  obtain t where t: "rest = [a, b] @ t" using rest by (auto simp: HasPrefix_two)
  have "\<not> HasPrefix (drop j (pre @ [a, b] @ t)) [a, b]" if j: "j < length pre" for j
  proof
    assume "HasPrefix (drop j (pre @ [a, b] @ t)) [a, b]"
    then obtain u where u: "drop j pre @ [a, b] @ t = a # b # u" using j by (auto simp: HasPrefix_two)
    obtain x y where xy: "drop j pre = x # y" using j by (cases "drop j pre") auto
    show False
    proof (cases y)
      case Nil
      then show False using u xy ab by simp
    next
      case (Cons z zs)
      then have "HasPrefix (drop j pre) [a, b]" using u xy by (simp add: HasPrefix_two)
      then show False using clean by (simp add: go_index_None_iff)
    qed
  qed
  then show ?thesis unfolding t by (rule go_indexI)
qed

lemma go_index_take_None:
  assumes i: "go_index s sub = Some i" and ne: "sub \<noteq> []"
  shows "go_index (take i s) sub = None"
proof -
  have "\<not> HasPrefix (drop j (take i s)) sub" for j
  proof
    assume p: "HasPrefix (drop j (take i s)) sub"
    then have "HasPrefix (drop j s) sub"
      by (auto simp: HasPrefix_iff drop_take) (metis append_take_drop_id append.assoc)
    moreover have "j < i"
    proof (rule ccontr)
      assume "\<not> j < i"
      then have "drop j (take i s) = []" by simp
      then show False using p ne by (simp add: HasPrefix_def)
    qed
    ultimately show False using go_index_Some(3) [OF i] by blast
  qed
  then show ?thesis by (simp add: go_index_None_iff)
qed

subsection \<open>White space\<close>

definition space_encodings :: "string list" where
  "space_encodings =
     [[CHR 0x09], [CHR 0x0A], [CHR 0x0B], [CHR 0x0C], [CHR 0x0D], [CHR 0x20], [CHR 0xC2, CHR 0x85],
      [CHR 0xC2, CHR 0xA0], [CHR 0xE1, CHR 0x9A, CHR 0x80], [CHR 0xE2, CHR 0x80, CHR 0x80], [CHR
      0xE2, CHR 0x80, CHR 0x81], [CHR 0xE2, CHR 0x80, CHR 0x82], [CHR 0xE2, CHR 0x80, CHR 0x83],
      [CHR 0xE2, CHR 0x80, CHR 0x84], [CHR 0xE2, CHR 0x80, CHR 0x85], [CHR 0xE2, CHR 0x80, CHR
      0x86], [CHR 0xE2, CHR 0x80, CHR 0x87], [CHR 0xE2, CHR 0x80, CHR 0x88], [CHR 0xE2, CHR 0x80,
      CHR 0x89], [CHR 0xE2, CHR 0x80, CHR 0x8A], [CHR 0xE2, CHR 0x80, CHR 0xA8], [CHR 0xE2, CHR
      0x80, CHR 0xA9], [CHR 0xE2, CHR 0x80, CHR 0xAF], [CHR 0xE2, CHR 0x81, CHR 0x9F], [CHR 0xE3,
      CHR 0x80, CHR 0x80]]"

text \<open>The length of the white-space rune a string starts with, 0 if it starts with another.\<close>

definition spaceLen :: "string \<Rightarrow> nat" where
  "spaceLen s = (case List.find (HasPrefix s) space_encodings of None \<Rightarrow> 0 | Some e \<Rightarrow> length e)"

definition spaceLenLast :: "string \<Rightarrow> nat" where
  "spaceLenLast s =
     (case List.find (\<lambda>e. HasPrefix (rev s) (rev e)) space_encodings of None \<Rightarrow> 0 | Some e \<Rightarrow> length e)"

lemma space_encodings_nonempty: "e \<in> set space_encodings \<Longrightarrow> 0 < length e"
  by (auto simp: space_encodings_def)

lemma spaceLen_pos: "0 < spaceLen s \<Longrightarrow> \<exists>e \<in> set space_encodings. s = e @ drop (spaceLen s) s \<and> length e = spaceLen s"
proof -
  assume pos: "0 < spaceLen s"
  then obtain e where e: "List.find (HasPrefix s) space_encodings = Some e"
    by (auto simp: spaceLen_def split: option.splits)
  then have "e \<in> set space_encodings" "HasPrefix s e" by (auto simp: find_Some_iff)
  then show ?thesis using e by (auto simp: spaceLen_def HasPrefix_iff)
qed

lemma spaceLen_le: "spaceLen s \<le> length s"
  using spaceLen_pos [of s] by (cases "spaceLen s = 0") (auto, metis le_add1 length_append)

lemma spaceLen_nil [simp]: "spaceLen [] = 0"
  using spaceLen_le [of "[]"] by simp

function TrimLeftSpace :: "string \<Rightarrow> string" where
  "TrimLeftSpace s = (if spaceLen s = 0 then s else TrimLeftSpace (drop (spaceLen s) s))"
  by pat_completeness auto
termination
proof (relation "measure length")
  fix s :: string
  assume "spaceLen s \<noteq> 0"
  then show "(drop (spaceLen s) s, s) \<in> measure length" using spaceLen_le [of s] by simp
qed simp

declare TrimLeftSpace.simps [simp del]

lemma spaceLenLast_pos:
  "0 < spaceLenLast s \<Longrightarrow>
     \<exists>e \<in> set space_encodings. s = take (length s - spaceLenLast s) s @ e \<and> length e = spaceLenLast s"
proof -
  assume pos: "0 < spaceLenLast s"
  then obtain e where e: "List.find (\<lambda>e. HasPrefix (rev s) (rev e)) space_encodings = Some e"
    by (auto simp: spaceLenLast_def split: option.splits)
  then have mem: "e \<in> set space_encodings" and "HasPrefix (rev s) (rev e)" by (auto simp: find_Some_iff)
  then obtain t where "rev s = rev e @ t" by (auto simp: HasPrefix_iff)
  then have "s = rev t @ e" by (metis rev_append rev_rev_ident)
  then show ?thesis using e mem by (auto simp: spaceLenLast_def)
qed

lemma spaceLenLast_le: "spaceLenLast s \<le> length s"
  using spaceLenLast_pos [of s] by (cases "spaceLenLast s = 0") (auto, metis le_add2 length_append)

function TrimRightSpace :: "string \<Rightarrow> string" where
  "TrimRightSpace s =
     (if spaceLenLast s = 0 then s else TrimRightSpace (take (length s - spaceLenLast s) s))"
  by pat_completeness auto
termination
proof (relation "measure length")
  fix s :: string
  assume "spaceLenLast s \<noteq> 0"
  then show "(take (length s - spaceLenLast s) s, s) \<in> measure length"
    using spaceLenLast_le [of s] by simp
qed simp

declare TrimRightSpace.simps [simp del]

definition TrimSpace :: "string \<Rightarrow> string" where
  "TrimSpace s = TrimRightSpace (TrimLeftSpace s)"

text \<open>What trimming keeps: a factor of the string, with no white space left at either end.\<close>

lemma TrimLeftSpace_suffix: "\<exists>ws. s = ws @ TrimLeftSpace s"
proof (induction s rule: TrimLeftSpace.induct)
  case (1 s)
  show ?case
  proof (cases "spaceLen s = 0")
    case False
    with 1 obtain ws where "drop (spaceLen s) s = ws @ TrimLeftSpace s" by (metis TrimLeftSpace.simps)
    then have "s = (take (spaceLen s) s @ ws) @ TrimLeftSpace s" by (metis append_take_drop_id append.assoc)
    then show ?thesis by blast
  qed (simp add: TrimLeftSpace.simps)
qed

lemma TrimRightSpace_prefix: "\<exists>ws. s = TrimRightSpace s @ ws"
proof (induction s rule: TrimRightSpace.induct)
  case (1 s)
  show ?case
  proof (cases "spaceLenLast s = 0")
    case False
    with 1 obtain ws where "take (length s - spaceLenLast s) s = TrimRightSpace s @ ws"
      by (metis TrimRightSpace.simps)
    then have "s = TrimRightSpace s @ ws @ drop (length s - spaceLenLast s) s"
      by (metis append_take_drop_id append.assoc)
    then show ?thesis by blast
  qed (simp add: TrimRightSpace.simps)
qed

lemma TrimSpace_factor: "\<exists>u v. s = u @ TrimSpace s @ v"
  unfolding TrimSpace_def using TrimLeftSpace_suffix [of s] TrimRightSpace_prefix [of "TrimLeftSpace s"] by metis

lemma spaceLen_TrimLeftSpace [simp]: "spaceLen (TrimLeftSpace s) = 0"
proof (induction s rule: TrimLeftSpace.induct)
  case (1 s)
  then show ?case by (cases "spaceLen s = 0") (simp_all add: TrimLeftSpace.simps [of s])
qed

lemma spaceLenLast_TrimRightSpace [simp]: "spaceLenLast (TrimRightSpace s) = 0"
proof (induction s rule: TrimRightSpace.induct)
  case (1 s)
  then show ?case by (cases "spaceLenLast s = 0") (simp_all add: TrimRightSpace.simps [of s])
qed

lemma spaceLen_zero_iff: "spaceLen s = 0 \<longleftrightarrow> (\<forall>e \<in> set space_encodings. \<not> HasPrefix s e)"
proof (cases "List.find (HasPrefix s) space_encodings")
  case None
  moreover from this have "\<forall>e \<in> set space_encodings. \<not> HasPrefix s e" by (auto simp: find_None_iff)
  ultimately show ?thesis by (simp add: spaceLen_def)
next
  case (Some e)
  then have "e \<in> set space_encodings" "HasPrefix s e" by (auto simp: find_Some_iff)
  then show ?thesis using Some space_encodings_nonempty [of e] by (auto simp: spaceLen_def)
qed

lemma spaceLen_prefix: "spaceLen (p @ s) = 0 \<Longrightarrow> spaceLen p = 0"
  by (auto simp: spaceLen_zero_iff HasPrefix_iff)

lemma TrimSpace_ends: "spaceLen (TrimSpace s) = 0" "spaceLenLast (TrimSpace s) = 0"
proof -
  obtain ws where "TrimLeftSpace s = TrimSpace s @ ws"
    using TrimRightSpace_prefix [of "TrimLeftSpace s"] by (auto simp: TrimSpace_def)
  then show "spaceLen (TrimSpace s) = 0" by (metis spaceLen_TrimLeftSpace spaceLen_prefix)
  show "spaceLenLast (TrimSpace s) = 0" by (simp add: TrimSpace_def)
qed

lemma TrimSpace_fixed: "spaceLen s = 0 \<Longrightarrow> spaceLenLast s = 0 \<Longrightarrow> TrimSpace s = s"
  by (simp add: TrimSpace_def TrimLeftSpace.simps [of s] TrimRightSpace.simps [of s])

lemma TrimSpace_idem [simp]: "TrimSpace (TrimSpace s) = TrimSpace s"
  by (simp add: TrimSpace_fixed TrimSpace_ends)

text \<open>\<open>strings.Fields\<close> and \<open>strings.Join\<close>. \<open>word\<close> is the field under construction.\<close>

function fieldsLoop :: "string \<Rightarrow> string \<Rightarrow> string list" where
  "fieldsLoop word [] = (if word = [] then [] else [word])"
| "fieldsLoop word (c # s) =
     (if spaceLen (c # s) = 0 then fieldsLoop (word @ [c]) s
      else (if word = [] then [] else [word]) @ fieldsLoop [] (drop (spaceLen (c # s)) (c # s)))"
  by pat_completeness auto
termination by (relation "measure (\<lambda>(w, s). length s)") auto

definition Fields :: "string \<Rightarrow> string list" where
  "Fields s = fieldsLoop [] s"

fun Join :: "string list \<Rightarrow> string \<Rightarrow> string" where
  "Join [] sep = []"
| "Join [x] sep = x"
| "Join (x # y # xs) sep = x @ sep @ Join (y # xs) sep"

subsection \<open>Runes\<close>

record unicode =
  IsLetter :: "nat \<Rightarrow> bool"
  IsDigit :: "nat \<Rightarrow> bool"
  ToLower :: "string \<Rightarrow> string"
  ToUpper :: "string \<Rightarrow> string"

text \<open>The tables cut down to ASCII, an instance of the parameter for the witnesses.\<close>

definition ascii_unicode :: unicode where
  "ascii_unicode =
     \<lparr>IsLetter = (\<lambda>r. 65 \<le> r \<and> r \<le> 90 \<or> 97 \<le> r \<and> r \<le> 122), IsDigit = (\<lambda>r. 48 \<le> r \<and> r \<le> 57),
      ToLower = map (\<lambda>c. let n = of_char c :: nat in if 65 \<le> n \<and> n \<le> 90 then char_of (n + 32) else c),
      ToUpper = map (\<lambda>c. let n = of_char c :: nat in if 97 \<le> n \<and> n \<le> 122 then char_of (n - 32) else c)\<rparr>"

text \<open>\<open>unicode.IsSpace(rune(b))\<close> for a byte.\<close>

definition isSpaceByte :: "char \<Rightarrow> bool" where
  "isSpaceByte c \<longleftrightarrow> (of_char c :: nat) \<in> {9, 10, 11, 12, 13, 32, 133, 160}"

text \<open>UTF-8 decoding of the first rune: rune and width, \<open>RuneError\<close> (65533) with width 1 on a byte
  sequence that is not the shortest encoding of a scalar value.\<close>

definition isCont :: "nat \<Rightarrow> bool" where
  "isCont b \<longleftrightarrow> 128 \<le> b \<and> b < 192"

fun decodeBytes :: "nat list \<Rightarrow> nat \<times> nat" where
  "decodeBytes bs =
     (case bs of
        [] \<Rightarrow> (65533, 0)
      | b0 # r0 \<Rightarrow>
          if b0 < 128 then (b0, 1)
          else case r0 of
            [] \<Rightarrow> (65533, 1)
          | b1 # r1 \<Rightarrow>
             if 194 \<le> b0 \<and> b0 < 224 \<and> isCont b1 then ((b0 - 192) * 64 + (b1 - 128), 2)
             else case r1 of
               [] \<Rightarrow> (65533, 1)
             | b2 # r2 \<Rightarrow>
                if 224 \<le> b0 \<and> b0 < 240 \<and> isCont b1 \<and> isCont b2 \<and> (b0 = 224 \<longrightarrow> 160 \<le> b1) \<and> (b0 = 237 \<longrightarrow> b1 < 160)
                then ((b0 - 224) * 4096 + (b1 - 128) * 64 + (b2 - 128), 3)
                else case r2 of
                  [] \<Rightarrow> (65533, 1)
                | b3 # r3 \<Rightarrow>
                   if 240 \<le> b0 \<and> b0 < 245 \<and> isCont b1 \<and> isCont b2 \<and> isCont b3
                      \<and> (b0 = 240 \<longrightarrow> 144 \<le> b1) \<and> (b0 = 244 \<longrightarrow> b1 < 144)
                   then ((b0 - 240) * 262144 + (b1 - 128) * 4096 + (b2 - 128) * 64 + (b3 - 128), 4)
                   else (65533, 1))"

lemma decodeBytes_width: "bs \<noteq> [] \<Longrightarrow> 0 < snd (decodeBytes bs)"
  by (auto split: list.splits)

declare decodeBytes.simps [simp del]

text \<open>\<open>for i, r := range s\<close>: the runes with the index they start at.\<close>

function rangeRunes :: "nat \<Rightarrow> nat list \<Rightarrow> (nat \<times> nat) list" where
  "rangeRunes i bs =
     (if bs = [] then []
      else (i, fst (decodeBytes bs)) # rangeRunes (i + snd (decodeBytes bs)) (drop (snd (decodeBytes bs)) bs))"
  by pat_completeness auto
termination
proof (relation "measure (\<lambda>(i, bs). length bs)")
  fix i :: nat and bs :: "nat list"
  assume "bs \<noteq> []"
  then show "((i + snd (decodeBytes bs), drop (snd (decodeBytes bs)) bs), i, bs) \<in> measure (\<lambda>(i, bs). length bs)"
    using decodeBytes_width [of bs] by simp
qed simp

declare rangeRunes.simps [simp del]

definition go_runes :: "string \<Rightarrow> (nat \<times> nat) list" where
  "go_runes s = rangeRunes 0 (map of_char s)"

end
