(* ===== verification/Http_Matcher.thy ===== *)
theory Http_Matcher
  imports Mapping_Map List_List Go_Strings "HOL-Library.Word" "HOL-Library.Sublist"
begin

text \<open>
  \<^verbatim>\<open>httpx/route_matcher.go\<close> and \<^verbatim>\<open>pathutil.go\<close>: a trie over path segments in which a segment in braces is a
  parameter. A node carries the routes that end there and, for pruning, the least sequence number
  registered below it. A pointer to a node is the path that leads to it from the root; \<open>lo.Reduce\<close> walks
  such a pointer down while the nodes are created and marked. Sequence numbers are 64-bit words.
  Shown: matching finds, of all registered routes whose pattern fits the request path, the one with
  the least sequence number; the pruning by \<open>minSeq\<close> never loses it.
\<close>

subsection \<open>Strings\<close>

text \<open>\<open>strings.Trim\<close> with a cutset of one byte and \<open>strings.Split\<close> at one byte.\<close>

definition TrimByte :: "char \<Rightarrow> string \<Rightarrow> string" where
  "TrimByte c s = rev (dropWhile (\<lambda>x. x = c) (rev (dropWhile (\<lambda>x. x = c) s)))"

fun SplitByte :: "char \<Rightarrow> string \<Rightarrow> string list" where
  "SplitByte c [] = [[]]"
| "SplitByte c (x # s) =
     (if x = c then [] # SplitByte c s
      else case SplitByte c s of [] \<Rightarrow> [[x]] | w # ws \<Rightarrow> (x # w) # ws)"

definition HasSuffix :: "string \<Rightarrow> string \<Rightarrow> bool" where
  "HasSuffix s p \<longleftrightarrow> length p \<le> length s \<and> drop (length s - length p) s = p"

definition splitRouteSegments :: "string \<Rightarrow> string list" where
  "splitRouteSegments path =
     (let trimmed = TrimByte CHR ''/'' path in if trimmed = [] then [] else SplitByte CHR ''/'' trimmed)"

definition isPathParameterSegment :: "string \<Rightarrow> bool" where
  "isPathParameterSegment segment \<longleftrightarrow> HasPrefix segment ''{'' \<and> HasSuffix segment ''}''"

definition normalizeRoutePrefix :: "(bool \<Rightarrow> string \<Rightarrow> string \<Rightarrow> string) \<Rightarrow> string \<Rightarrow> string" where
  "normalizeRoutePrefix lo_Ternary pfx =
     (let clean = TrimByte CHR ''/'' (TrimSpace pfx) in lo_Ternary (clean = []) [] (''/'' @ clean))"

definition joinRoutePath :: "(bool \<Rightarrow> string \<Rightarrow> string \<Rightarrow> string) \<Rightarrow> string \<Rightarrow> string \<Rightarrow> string" where
  "joinRoutePath lo_Ternary basePath path =
     (let base = normalizeRoutePrefix lo_Ternary basePath
      in if path = [] then (if base = [] then ''/'' else base)
         else let cleanPath = (if \<not> HasPrefix path ''/'' then ''/'' @ path else path)
              in if base = [] then cleanPath else if cleanPath = ''/'' then base else base @ cleanPath)"

subsection \<open>The trie\<close>

record routeInfo =
  ri_Method :: string
  ri_Path :: string
  ri_HandlerName :: string
  ri_Comment :: string
  ri_Tags :: "string glist option"

record routeMatchEntry =
  re_seq :: "64 word"
  re_route :: routeInfo

datatype routeMatcherNode =
  Node (staticChildren: "(string, routeMatcherNode) fmap option") (paramChild: "routeMatcherNode option")
    (routes: "routeMatchEntry list") (minSeq: "64 word")

definition emptyNode :: routeMatcherNode where
  "emptyNode = Node None None [] 0"

text \<open>The address of a node below the root.\<close>

datatype edge = Static string | Param

type_synonym node_ptr = "edge list"

definition childAt :: "edge \<Rightarrow> routeMatcherNode \<Rightarrow> routeMatcherNode option" where
  "childAt e n = (case e of Static s \<Rightarrow> fmlookup (ml (staticChildren n)) s | Param \<Rightarrow> paramChild n)"

definition setChild :: "edge \<Rightarrow> routeMatcherNode \<Rightarrow> routeMatcherNode \<Rightarrow> routeMatcherNode" where
  "setChild e c n =
     (case e of
        Static s \<Rightarrow> Node (Some (fmupd s c (ml (staticChildren n)))) (paramChild n) (routes n) (minSeq n)
      | Param \<Rightarrow> Node (staticChildren n) (Some c) (routes n) (minSeq n))"

fun deref :: "routeMatcherNode \<Rightarrow> node_ptr \<Rightarrow> routeMatcherNode option" where
  "deref n [] = Some n"
| "deref n (e # p) = (case childAt e n of None \<Rightarrow> None | Some c \<Rightarrow> deref c p)"

fun modify :: "node_ptr \<Rightarrow> (routeMatcherNode \<Rightarrow> routeMatcherNode) \<Rightarrow> routeMatcherNode \<Rightarrow> routeMatcherNode" where
  "modify [] f n = f n"
| "modify (e # p) f n = (case childAt e n of None \<Rightarrow> n | Some c \<Rightarrow> setChild e (modify p f c) n)"

definition recordMinSeq :: "64 word \<Rightarrow> routeMatcherNode \<Rightarrow> routeMatcherNode" where
  "recordMinSeq sq n =
     (if sq = 0 then n
      else if minSeq n = 0 \<or> sq < minSeq n then Node (staticChildren n) (paramChild n) (routes n) sq
      else n)"

text \<open>\<open>ensureChild\<close>: the node afterwards and the edge to the child it returns.\<close>

definition ensureChild :: "string \<Rightarrow> routeMatcherNode \<Rightarrow> routeMatcherNode \<times> edge" where
  "ensureChild segment n =
     (if isPathParameterSegment segment
      then (if paramChild n = None then Node (staticChildren n) (Some emptyNode) (routes n) (minSeq n) else n, Param)
      else let n1 = (if staticChildren n = None then Node (Some fmempty) (paramChild n) (routes n) (minSeq n) else n);
               n2 = (if fmlookup (ml (staticChildren n1)) segment = None
                     then Node (Some (fmupd segment emptyNode (ml (staticChildren n1)))) (paramChild n1) (routes n1) (minSeq n1)
                     else n1)
           in (n2, Static segment))"

record routeMatcher =
  rm_root :: "routeMatcherNode option"

definition newRouteMatcher :: "routeMatcher option" where
  "newRouteMatcher = Some \<lparr>rm_root = Some emptyNode\<rparr>"

definition ensureRootLocked :: "routeMatcher \<Rightarrow> routeMatcher" where
  "ensureRootLocked m = (if rm_root m = None then m\<lparr>rm_root := Some emptyNode\<rparr> else m)"

text \<open>The functions of samber/lo; the accumulator of \<open>Reduce\<close> is the trie and the pointer into it.\<close>

record route_lo =
  rl_Reduce :: "string list \<Rightarrow> (routeMatcherNode \<times> node_ptr \<Rightarrow> string \<Rightarrow> nat \<Rightarrow> routeMatcherNode \<times> node_ptr)
                \<Rightarrow> routeMatcherNode \<times> node_ptr \<Rightarrow> routeMatcherNode \<times> node_ptr"
  rl_Concat :: "routeMatchEntry list list \<Rightarrow> routeMatchEntry list"
  rl_Filter :: "routeInfo list \<Rightarrow> (routeInfo \<Rightarrow> nat \<Rightarrow> bool) \<Rightarrow> routeInfo list"

definition route_lo_ok :: "route_lo \<Rightarrow> bool" where
  "route_lo_ok E \<longleftrightarrow>
     (\<forall>xs f a. rl_Reduce E xs (\<lambda>acc x _. f acc x) a = foldl f a xs) \<and>
     (\<forall>xss. rl_Concat E xss = concat xss) \<and>
     (\<forall>xs P. rl_Filter E xs (\<lambda>x _. P x) = filter P xs)"

definition reduceSegment :: "64 word \<Rightarrow> routeMatcherNode \<times> node_ptr \<Rightarrow> string \<Rightarrow> routeMatcherNode \<times> node_ptr" where
  "reduceSegment sq = (\<lambda>(root, current) segment.
     case deref root current of
       None \<Rightarrow> (root, current)
     | Some n \<Rightarrow>
         let (n', e) = ensureChild segment n;
             nxt = current @ [e]
         in (modify nxt (recordMinSeq sq) (modify current (\<lambda>_. n') root), nxt))"

fun routeMatcher_Add :: "route_lo \<Rightarrow> routeMatcher option \<Rightarrow> string \<Rightarrow> routeInfo \<Rightarrow> 64 word \<Rightarrow> routeMatcher option" where
  "routeMatcher_Add E None path route sq = None"
| "routeMatcher_Add E (Some m0) path route sq =
     (if sq = 0 then Some m0
      else let segments = splitRouteSegments path;
               m = ensureRootLocked m0;
               root = recordMinSeq sq (the (rm_root m));
               (root', node) = rl_Reduce E segments (\<lambda>acc segment _. reduceSegment sq acc segment) (root, [])
           in Some (m\<lparr>rm_root := Some (modify node
                (\<lambda>n. Node (staticChildren n) (paramChild n)
                       (rl_Concat E [routes n, [\<lparr>re_seq = sq, re_route = route\<rparr>]]) (minSeq n)) root')\<rparr>))"

definition routeAtCurrentNode :: "routeMatcherNode \<Rightarrow> routeMatchEntry option" where
  "routeAtCurrentNode n = (if length (routes n) = 0 then None else Some (routes n ! 0))"

definition orderedRouteChildren ::
    "routeMatcherNode option \<Rightarrow> routeMatcherNode option \<Rightarrow> routeMatcherNode option \<times> routeMatcherNode option" where
  "orderedRouteChildren left right =
     (case left of
        None \<Rightarrow> (right, None)
      | Some l \<Rightarrow>
          (case right of
             None \<Rightarrow> (left, None)
           | Some r \<Rightarrow>
               if minSeq l = 0 then (right, left)
               else if minSeq r = 0 then (left, right)
               else if minSeq l \<le> minSeq r then (left, right) else (right, left)))"

text \<open>\<open>match\<close> over the segments from \<open>index\<close> on.\<close>

fun node_match :: "routeMatcherNode \<Rightarrow> string list \<Rightarrow> routeMatchEntry option"
  and matchRouteChild :: "routeMatcherNode option \<Rightarrow> string list \<Rightarrow> routeMatchEntry option" where
  "node_match n [] = routeAtCurrentNode n"
| "node_match n (segment # rest) =
     (let children = orderedRouteChildren (fmlookup (ml (staticChildren n)) segment) (paramChild n)
      in case matchRouteChild (fst children) rest of
           Some matched \<Rightarrow>
             (case snd children of
                None \<Rightarrow> Some matched
              | Some second \<Rightarrow>
                  if minSeq second = 0 \<or> minSeq second \<ge> re_seq matched then Some matched
                  else case matchRouteChild (snd children) rest of
                         Some alternative \<Rightarrow>
                           if re_seq alternative < re_seq matched then Some alternative else Some matched
                       | None \<Rightarrow> Some matched)
         | None \<Rightarrow> matchRouteChild (snd children) rest)"
| "matchRouteChild None rest = None"
| "matchRouteChild (Some node) rest = node_match node rest"

primrec routeMatcher_Match :: "routeMatcher option \<Rightarrow> string \<Rightarrow> routeInfo option" where
  "routeMatcher_Match None path = None"
| "routeMatcher_Match (Some m) path =
     (case rm_root m of
        None \<Rightarrow> None
      | Some root \<Rightarrow> map_option re_route (node_match root (splitRouteSegments path)))"

subsection \<open>Pointers\<close>

lemma childAt_Node_simps [simp]:
  "childAt e (setChild e c n) = Some c"
  "e \<noteq> e' \<Longrightarrow> childAt e (setChild e' c n) = childAt e n"
  "routes (setChild e c n) = routes n" "minSeq (setChild e c n) = minSeq n"
  by (auto simp: childAt_def setChild_def split: edge.splits)

lemma setChild_twice [simp]: "setChild e c (setChild e d n) = setChild e c n"
proof -
  have "fmupd k x (fmupd k y f) = fmupd k x f" for k :: string and x y :: routeMatcherNode and f
    by (rule fmap_ext) simp
  then show ?thesis by (cases e) (simp_all add: setChild_def)
qed

lemma setChild_id: "childAt e n = Some c \<Longrightarrow> setChild e c n = n"
  by (cases e; cases n; cases "staticChildren n") (auto simp: childAt_def setChild_def intro!: fmap_ext)

lemma modify_id [simp]: "modify p (\<lambda>x. x) n = n"
  by (induction p arbitrary: n) (auto simp: setChild_id split: option.split)

lemma deref_append: "deref n (p @ q) = Option.bind (deref n p) (\<lambda>x. deref x q)"
  by (induction p arbitrary: n) (auto split: option.split)

lemma deref_modify [simp]: "deref (modify p f n) p = map_option f (deref n p)"
  by (induction p arbitrary: n) (auto split: option.split)

lemma modify_append: "modify (p @ q) f n = modify p (modify q f) n"
  by (induction p arbitrary: n) (auto split: option.split)

lemma modify_modify: "modify p f (modify p g n) = modify p (\<lambda>x. f (g x)) n"
  by (induction p arbitrary: n) (auto split: option.split)

lemma modify_cong: "deref n p = Some x \<Longrightarrow> f x = g x \<Longrightarrow> modify p f n = modify p g n"
  by (induction p arbitrary: n) (auto split: option.splits)

text \<open>What a trie holds at an address.\<close>

definition routes_at :: "routeMatcherNode \<Rightarrow> node_ptr \<Rightarrow> routeMatchEntry list" where
  "routes_at n p = (case deref n p of None \<Rightarrow> [] | Some x \<Rightarrow> routes x)"

definition min_at :: "routeMatcherNode \<Rightarrow> node_ptr \<Rightarrow> 64 word" where
  "min_at n p = (case deref n p of None \<Rightarrow> 0 | Some x \<Rightarrow> minSeq x)"

lemma at_Nil [simp]: "routes_at n [] = routes n" "min_at n [] = minSeq n"
  by (simp_all add: routes_at_def min_at_def)

lemma at_Cons:
  "routes_at n (e # p) = (case childAt e n of None \<Rightarrow> [] | Some c \<Rightarrow> routes_at c p)"
  "min_at n (e # p) = (case childAt e n of None \<Rightarrow> 0 | Some c \<Rightarrow> min_at c p)"
  by (simp_all add: routes_at_def min_at_def split: option.split)

lemma childAt_empty [simp]: "childAt e emptyNode = None"
  by (cases e) (simp_all add: childAt_def emptyNode_def)

lemma at_empty [simp]: "routes_at emptyNode p = []" "min_at emptyNode p = 0"
  by (cases p; simp add: at_Cons; simp add: emptyNode_def)+

definition edgeOf :: "string \<Rightarrow> edge" where
  "edgeOf segment = (if isPathParameterSegment segment then Param else Static segment)"

lemma ensureChild_spec:
  obtains n' where "ensureChild s n = (n', edgeOf s)" "routes n' = routes n" "minSeq n' = minSeq n"
    and "childAt (edgeOf s) n' = Some (case childAt (edgeOf s) n of None \<Rightarrow> emptyNode | Some c \<Rightarrow> c)"
    and "\<And>e. e \<noteq> edgeOf s \<Longrightarrow> childAt e n' = childAt e n"
proof -
  have "childAt e (fst (ensureChild s n))
      = (if e = edgeOf s then Some (case childAt e n of None \<Rightarrow> emptyNode | Some c \<Rightarrow> c) else childAt e n)" for e
    by (cases e; cases "staticChildren n")
      (auto simp: ensureChild_def edgeOf_def childAt_def Let_def split: option.splits)
  moreover have "snd (ensureChild s n) = edgeOf s" "routes (fst (ensureChild s n)) = routes n"
      "minSeq (fst (ensureChild s n)) = minSeq n"
    by (auto simp: ensureChild_def edgeOf_def Let_def)
  ultimately show thesis by (intro that [of "fst (ensureChild s n)"]) (auto simp: prod_eq_iff)
qed

definition lower :: "64 word \<Rightarrow> 64 word \<Rightarrow> 64 word" where
  "lower sq m = (if m = 0 \<or> sq < m then sq else m)"

lemma recordMinSeq_simps [simp]:
  "routes (recordMinSeq sq n) = routes n" "childAt e (recordMinSeq sq n) = childAt e n"
  "sq \<noteq> 0 \<Longrightarrow> minSeq (recordMinSeq sq n) = lower sq (minSeq n)"
  by (auto simp: recordMinSeq_def childAt_def lower_def split: edge.split)

lemma recordMinSeq_at:
  "routes_at (recordMinSeq sq n) p = routes_at n p"
  "sq \<noteq> 0 \<Longrightarrow> min_at (recordMinSeq sq n) p = (if p = [] then lower sq (min_at n p) else min_at n p)"
  by (cases p; simp add: at_Cons)+

subsection \<open>What Add leaves\<close>

text \<open>The walk of \<open>Reduce\<close> as a recursion on the node it starts from.\<close>

fun touch :: "64 word \<Rightarrow> string list \<Rightarrow> routeMatcherNode \<Rightarrow> routeMatcherNode" where
  "touch sq [] n = n"
| "touch sq (s # ss) n = modify [edgeOf s] (\<lambda>c. touch sq ss (recordMinSeq sq c)) (fst (ensureChild s n))"

lemma reduce_touch:
  "deref root p = Some n \<Longrightarrow>
   foldl (reduceSegment sq) (root, p) ss = (modify p (\<lambda>_. touch sq ss n) root, p @ map edgeOf ss)"
proof (induction ss arbitrary: root p n)
  case Nil
  then show ?case using modify_cong [OF Nil, of "\<lambda>_. n" "\<lambda>x. x"] by simp
next
  case (Cons s ss)
  let ?e = "edgeOf s"
  obtain n' where n': "ensureChild s n = (n', ?e)"
      "childAt ?e n' = Some (case childAt ?e n of None \<Rightarrow> emptyNode | Some c \<Rightarrow> c)"
    by (rule ensureChild_spec [of s n])
  define c where "c = (case childAt ?e n of None \<Rightarrow> emptyNode | Some c \<Rightarrow> c)"
  define root1 where "root1 = modify p (\<lambda>_. modify [?e] (recordMinSeq sq) n') root"
  have step: "reduceSegment sq (root, p) s = (root1, p @ [?e])"
    using Cons.prems n'(1) by (simp add: reduceSegment_def modify_append modify_modify root1_def)
  have "deref root1 (p @ [?e]) = Some (recordMinSeq sq c)"
    using Cons.prems n'(2) by (simp add: root1_def deref_append c_def)
  from Cons.IH [OF this]
  have "foldl (reduceSegment sq) (root, p) (s # ss)
      = (modify (p @ [?e]) (\<lambda>_. touch sq ss (recordMinSeq sq c)) root1, p @ map edgeOf (s # ss))"
    by (simp add: step)
  moreover have "modify [?e] (\<lambda>_. touch sq ss (recordMinSeq sq c)) (modify [?e] (recordMinSeq sq) n') = touch sq (s # ss) n"
    using n' by (simp add: c_def)
  ultimately show ?case by (simp only: modify_append root1_def modify_modify)
qed

lemma touch_at:
  assumes "sq \<noteq> 0"
  shows "routes_at (touch sq ss n) p = routes_at n p"
    and "min_at (touch sq ss n) p
         = (if p \<noteq> [] \<and> prefix p (map edgeOf ss) then lower sq (min_at n p) else min_at n p)"
proof -
  have "routes_at (touch sq ss n) p = routes_at n p
      \<and> min_at (touch sq ss n) p = (if p \<noteq> [] \<and> prefix p (map edgeOf ss) then lower sq (min_at n p) else min_at n p)"
  proof (induction ss arbitrary: n p)
    case Nil
    then show ?case by simp
  next
    case (Cons s ss)
    let ?e = "edgeOf s"
    obtain n' where n': "ensureChild s n = (n', ?e)" "routes n' = routes n" "minSeq n' = minSeq n"
        "childAt ?e n' = Some (case childAt ?e n of None \<Rightarrow> emptyNode | Some c \<Rightarrow> c)"
        "\<And>e. e \<noteq> ?e \<Longrightarrow> childAt e n' = childAt e n"
      using ensureChild_spec [of s n] by blast
    let ?c = "case childAt ?e n of None \<Rightarrow> emptyNode | Some c \<Rightarrow> c"
    have t: "touch sq (s # ss) n = setChild ?e (touch sq ss (recordMinSeq sq ?c)) n'" using n'(1,4) by simp
    show ?case
    proof (cases p)
      case Nil
      then show ?thesis using n' by (simp add: t)
    next
      case (Cons e q)
      have old: "routes_at ?c q = routes_at n (?e # q)" "min_at ?c q = min_at n (?e # q)"
        by (auto simp: at_Cons split: option.split)
      show ?thesis
      proof (cases "e = ?e")
        case True
        have "routes_at (touch sq (s # ss) n) (?e # q) = routes_at (touch sq ss (recordMinSeq sq ?c)) q"
            "min_at (touch sq (s # ss) n) (?e # q) = min_at (touch sq ss (recordMinSeq sq ?c)) q"
          unfolding t by (simp_all add: at_Cons)
        then show ?thesis
          using Cons.IH [of "recordMinSeq sq ?c" q] old assms recordMinSeq_at [of sq ?c q]
          by (auto simp: Cons True)
      next
        case False
        then show ?thesis using Cons n'(5) unfolding t by (simp add: at_Cons)
      qed
    qed
  qed
  then show "routes_at (touch sq ss n) p = routes_at n p"
    and "min_at (touch sq ss n) p
         = (if p \<noteq> [] \<and> prefix p (map edgeOf ss) then lower sq (min_at n p) else min_at n p)" by auto
qed

lemma deref_touch: "\<exists>x. deref (touch sq ss n) (map edgeOf ss) = Some x"
proof (induction ss arbitrary: n)
  case (Cons s ss)
  obtain n' where "ensureChild s n = (n', edgeOf s)"
      "childAt (edgeOf s) n' = Some (case childAt (edgeOf s) n of None \<Rightarrow> emptyNode | Some c \<Rightarrow> c)"
    by (rule ensureChild_spec [of s n])
  then show ?case using Cons by simp
qed simp

lemma modify_routes_at:
  assumes "deref n p = Some x" and "\<And>x. routes (f x) = routes x @ es" and "\<And>x. minSeq (f x) = minSeq x"
    and "\<And>x e. childAt e (f x) = childAt e x"
  shows "routes_at (modify p f n) q = (if q = p then routes_at n q @ es else routes_at n q)"
    and "min_at (modify p f n) q = min_at n q"
proof -
  have "routes_at (modify p f n) q = (if q = p then routes_at n q @ es else routes_at n q)
      \<and> min_at (modify p f n) q = min_at n q"
    using assms(1)
  proof (induction p arbitrary: n q)
    case Nil
    then show ?case by (cases q) (simp_all add: assms(2-4) at_Cons)
  next
    case (Cons e p)
    then obtain c where c: "childAt e n = Some c" "deref c p = Some x" by (auto split: option.splits)
    show ?case
    proof (cases q)
      case (Cons e' q')
      then show ?thesis using c Cons.IH [OF c(2), of q'] by (cases "e' = e") (simp_all add: at_Cons)
    qed (simp add: c)
  qed
  then show "routes_at (modify p f n) q = (if q = p then routes_at n q @ es else routes_at n q)"
    and "min_at (modify p f n) q = min_at n q" by auto
qed

text \<open>The matcher's root, and how \<open>Add\<close> changes what it holds.\<close>

definition rootOf :: "routeMatcher \<Rightarrow> routeMatcherNode" where
  "rootOf m = (case rm_root m of None \<Rightarrow> emptyNode | Some n \<Rightarrow> n)"

lemma Add_at:
  assumes "route_lo_ok E" and "sq \<noteq> 0"
  shows "\<exists>m'. routeMatcher_Add E (Some m) path route sq = Some m'
     \<and> (\<forall>p. routes_at (rootOf m') p = routes_at (rootOf m) p
              @ (if p = map edgeOf (splitRouteSegments path) then [\<lparr>re_seq = sq, re_route = route\<rparr>] else []))
     \<and> (\<forall>p. min_at (rootOf m') p
            = (if prefix p (map edgeOf (splitRouteSegments path)) then lower sq (min_at (rootOf m) p)
               else min_at (rootOf m) p))"
proof -
  let ?ss = "splitRouteSegments path" and ?r = "recordMinSeq sq (rootOf m)" and ?en = "\<lparr>re_seq = sq, re_route = route\<rparr>"
  let ?app = "\<lambda>n. Node (staticChildren n) (paramChild n) (routes n @ [?en]) (minSeq n)"
  have lo: "rl_Reduce E xs (\<lambda>acc x _. f acc x) a = foldl f a xs" "rl_Concat E xss = concat xss" for xs f a xss
    using assms(1) unfolding route_lo_ok_def by blast+
  have root: "the (rm_root (ensureRootLocked m)) = rootOf m"
    by (simp add: ensureRootLocked_def rootOf_def split: option.split)
  have fold: "foldl (reduceSegment sq) (?r, []) ?ss = (touch sq ?ss ?r, map edgeOf ?ss)"
    using reduce_touch [of ?r "[]" ?r sq ?ss] by simp
  define n' where "n' = modify (map edgeOf ?ss) ?app (touch sq ?ss ?r)"
  have add: "routeMatcher_Add E (Some m) path route sq = Some ((ensureRootLocked m)\<lparr>rm_root := Some n'\<rparr>)"
    using assms(2) by (simp add: lo root fold Let_def n'_def)
  obtain x where x: "deref (touch sq ?ss ?r) (map edgeOf ?ss) = Some x" using deref_touch by blast
  have app: "childAt e (?app y) = childAt e y" for e y by (simp add: childAt_def split: edge.split)
  note at = modify_routes_at [OF x, of ?app "[?en]", OF _ _ app]
  have "routes_at n' p = routes_at (rootOf m) p @ (if p = map edgeOf ?ss then [?en] else [])" for p
    by (simp add: n'_def at touch_at [OF assms(2)] recordMinSeq_at)
  moreover have "min_at n' p = (if prefix p (map edgeOf ?ss) then lower sq (min_at (rootOf m) p) else min_at (rootOf m) p)" for p
    using assms(2) by (auto simp: n'_def at touch_at [OF assms(2)] recordMinSeq_at)
  ultimately show ?thesis using add by (simp add: rootOf_def)
qed

subsection \<open>Matching\<close>

text \<open>An address fits the segments of a request; \<open>minSeq\<close> bounds what lies below.\<close>

definition fits :: "node_ptr \<Rightarrow> string list \<Rightarrow> bool" where
  "fits p ss \<longleftrightarrow> list_all2 (\<lambda>e s. e = Param \<or> e = Static s) p ss"

definition bounded :: "routeMatcherNode \<Rightarrow> bool" where
  "bounded n \<longleftrightarrow> (\<forall>p q e. e \<in> set (routes_at n (p @ q)) \<longrightarrow> min_at n p \<noteq> 0 \<and> min_at n p \<le> re_seq e)"

definition best :: "routeMatcherNode \<Rightarrow> string list \<Rightarrow> routeMatchEntry option \<Rightarrow> bool" where
  "best n ss r \<longleftrightarrow>
     (case r of
        None \<Rightarrow> \<forall>p. fits p ss \<longrightarrow> routes_at n p = []
      | Some e \<Rightarrow> (\<exists>p. fits p ss \<and> routes_at n p \<noteq> [] \<and> e = hd (routes_at n p))
                 \<and> (\<forall>p. fits p ss \<longrightarrow> routes_at n p \<noteq> [] \<longrightarrow> re_seq e \<le> re_seq (hd (routes_at n p))))"

lemma fits_Nil [simp]: "fits p [] \<longleftrightarrow> p = []"
  by (simp add: fits_def)

lemma fits_Cons: "fits p (s # ss) \<longleftrightarrow> (\<exists>e q. p = e # q \<and> (e = Param \<or> e = Static s) \<and> fits q ss)"
  by (auto simp: fits_def list_all2_Cons2)

lemma bounded_child: "bounded n \<Longrightarrow> childAt e n = Some c \<Longrightarrow> bounded c"
  unfolding bounded_def
proof (intro allI impI)
  fix p q x
  assume b: "\<forall>p q e. e \<in> set (routes_at n (p @ q)) \<longrightarrow> min_at n p \<noteq> 0 \<and> min_at n p \<le> re_seq e"
    and c: "childAt e n = Some c" and x: "x \<in> set (routes_at c (p @ q))"
  have "routes_at n ((e # p) @ q) = routes_at c (p @ q)" "min_at n (e # p) = min_at c p" using c by (simp_all add: at_Cons)
  then show "min_at c p \<noteq> 0 \<and> min_at c p \<le> re_seq x" using b x by metis
qed

lemma bounded_root: "bounded n \<Longrightarrow> e \<in> set (routes_at n p) \<Longrightarrow> minSeq n \<noteq> 0 \<and> minSeq n \<le> re_seq e"
  unfolding bounded_def by (metis append_Nil at_Nil(2))

text \<open>The better of what two optional children offer.\<close>

definition bestOf :: "routeMatcherNode option \<Rightarrow> string list \<Rightarrow> routeMatchEntry option \<Rightarrow> bool" where
  "bestOf c ss r \<longleftrightarrow> (case c of None \<Rightarrow> r = None | Some n \<Rightarrow> best n ss r)"

lemma best_Cons:
  assumes "bestOf (childAt (Static s) n) ss r1" and "bestOf (childAt Param n) ss r2"
    and "r = r1 \<and> (r2 \<noteq> None \<longrightarrow> r1 \<noteq> None \<and> re_seq (the r1) \<le> re_seq (the r2))
       \<or> r = r2 \<and> (r1 \<noteq> None \<longrightarrow> r2 \<noteq> None \<and> re_seq (the r2) \<le> re_seq (the r1))"
  shows "best n (s # ss) r"
proof -
  have none: "routes_at n (e # p) = []"
    if "bestOf (childAt e n) ss None" "fits p ss" for e p
    using that by (auto simp: at_Cons bestOf_def best_def split: option.splits)
  have ex: "\<exists>p. fits p ss \<and> routes_at n (e # p) \<noteq> [] \<and> x = hd (routes_at n (e # p))"
    if "bestOf (childAt e n) ss (Some x)" for e x
    using that by (auto simp: at_Cons bestOf_def best_def split: option.splits)
  have le: "re_seq x \<le> re_seq (hd (routes_at n (e # p)))"
    if "bestOf (childAt e n) ss (Some x)" "fits p ss" "routes_at n (e # p) \<noteq> []" for e x p
    using that by (auto simp: at_Cons bestOf_def best_def split: option.splits)
  note facts = none [of "Static s"] none [of Param] ex [of "Static s"] ex [of Param] le [of "Static s"] le [of Param]
  show ?thesis
  proof (cases r)
    case None
    with assms have "r1 = None" "r2 = None" by auto
    then show ?thesis using None assms(1,2) none by (auto simp: best_def fits_Cons)
  next
    case (Some x)
    then obtain e where e: "e = Static s \<or> e = Param" "bestOf (childAt e n) ss (Some x)" using assms by blast
    have "re_seq x \<le> re_seq (hd (routes_at n (e' # p)))"
      if e': "e' = Static s \<or> e' = Param" and p: "fits p ss" "routes_at n (e' # p) \<noteq> []" for e' p
    proof -
      obtain r' where r': "bestOf (childAt e' n) ss r'" "r' = r1 \<or> r' = r2" using e' assms(1,2) by blast
      with p none obtain y where y: "r' = Some y" by (metis not_None_eq)
      then have "re_seq x \<le> re_seq y" using assms(3) r'(2) Some by (auto split: if_splits)
      also have "\<dots> \<le> re_seq (hd (routes_at n (e' # p)))" by (rule le [OF r'(1) [unfolded y] p])
      finally show ?thesis .
    qed
    then show ?thesis using ex [OF e(2)] e(1) Some by (auto simp: best_def fits_Cons)
  qed
qed

lemma orderedRouteChildren_perm:
  "orderedRouteChildren l r = (l, r) \<or> orderedRouteChildren l r = (r, l)"
  by (simp add: orderedRouteChildren_def split: option.split)

text \<open>What \<open>match\<close> does with the answers of the first and the second child.\<close>

definition pick :: "routeMatcherNode option \<Rightarrow> routeMatchEntry option \<Rightarrow> routeMatchEntry option \<Rightarrow> routeMatchEntry option" where
  "pick second a b =
     (case a of
        Some matched \<Rightarrow>
          (case second of
             None \<Rightarrow> Some matched
           | Some c \<Rightarrow>
               if minSeq c = 0 \<or> minSeq c \<ge> re_seq matched then Some matched
               else case b of
                      Some alternative \<Rightarrow> if re_seq alternative < re_seq matched then Some alternative else Some matched
                    | None \<Rightarrow> Some matched)
      | None \<Rightarrow> b)"

lemma node_match_pick:
  "node_match n (s # ss) =
     (let ch = orderedRouteChildren (childAt (Static s) n) (childAt Param n)
      in pick (snd ch) (matchRouteChild (fst ch) ss) (matchRouteChild (snd ch) ss))"
  by (simp add: pick_def childAt_def Let_def)

definition better :: "routeMatchEntry option \<Rightarrow> routeMatchEntry option \<Rightarrow> routeMatchEntry option \<Rightarrow> bool" where
  "better r a b \<longleftrightarrow>
     r = a \<and> (b \<noteq> None \<longrightarrow> a \<noteq> None \<and> re_seq (the a) \<le> re_seq (the b))
     \<or> r = b \<and> (a \<noteq> None \<longrightarrow> b \<noteq> None \<and> re_seq (the b) \<le> re_seq (the a))"

lemma pick_better:
  assumes "b \<noteq> None \<Longrightarrow> second \<noteq> None"
    and "\<And>(x :: routeMatchEntry) y c. b = Some y \<Longrightarrow> second = Some c \<Longrightarrow> minSeq c = 0 \<or> minSeq c \<ge> re_seq x
           \<Longrightarrow> re_seq x \<le> re_seq y"
  shows "better (pick second a b) a b"
  using assms by (cases a; cases b; cases second) (auto simp: pick_def better_def split: if_splits)

lemma better_sym: "better r a b \<longleftrightarrow> better r b a"
  by (auto simp: better_def)

lemma node_match_best: "bounded n \<Longrightarrow> best n ss (node_match n ss)"
proof (induction ss arbitrary: n)
  case Nil
  then show ?case by (auto simp: best_def routeAtCurrentNode_def hd_conv_nth)
next
  case (Cons s ss)
  let ?m = "\<lambda>e. matchRouteChild (childAt e n) ss"
  have child: "bestOf (childAt e n) ss (?m e)" for e
    using Cons.IH bounded_child [OF Cons.prems] by (cases "childAt e n") (simp_all add: bestOf_def)
  have pruned: "re_seq x \<le> re_seq y"
    if c: "childAt e n = Some c" and y: "?m e = Some y" and m: "minSeq c = 0 \<or> minSeq c \<ge> re_seq x"
    for e c y and x :: routeMatchEntry
  proof -
    obtain p where "routes_at c p \<noteq> []" "y = hd (routes_at c p)"
      using child [of e] c y by (auto simp: bestOf_def best_def)
    then have "y \<in> set (routes_at c p)" by simp
    then have "minSeq c \<noteq> 0 \<and> minSeq c \<le> re_seq y" using bounded_root bounded_child [OF Cons.prems c] by blast
    then show ?thesis using m by (meson order_trans)
  qed
  have some: "?m e \<noteq> None \<Longrightarrow> childAt e n \<noteq> None" for e by (cases "childAt e n") simp_all
  have "better (pick (childAt e n) (?m e') (?m e)) (?m e') (?m e)" for e e'
    using pick_better [of "?m e" "childAt e n" "?m e'"] some pruned by blast
  then have "better (node_match n (s # ss)) (?m (Static s)) (?m Param)"
    using orderedRouteChildren_perm [of "childAt (Static s) n" "childAt Param n"] better_sym
    unfolding node_match_pick Let_def by (metis fst_conv snd_conv)
  from best_Cons [OF child child this [unfolded better_def]] show ?case .
qed

subsection \<open>A matcher and the routes added to it\<close>

text \<open>\<open>holds m regs\<close>: the matcher holds the given patterns with their entries, in the order of addition.\<close>

definition holds :: "routeMatcher \<Rightarrow> (string list \<times> routeMatchEntry) list \<Rightarrow> bool" where
  "holds m regs \<longleftrightarrow> bounded (rootOf m) \<and>
     (\<forall>p. routes_at (rootOf m) p = map snd (filter (\<lambda>(ss, e). map edgeOf ss = p) regs))"

definition segFits :: "string \<Rightarrow> string \<Rightarrow> bool" where
  "segFits pat s \<longleftrightarrow> isPathParameterSegment pat \<or> pat = s"

definition patternFits :: "string list \<Rightarrow> string list \<Rightarrow> bool" where
  "patternFits pat ss \<longleftrightarrow> list_all2 segFits pat ss"

lemma fits_pattern: "fits (map edgeOf pat) ss \<longleftrightarrow> patternFits pat ss"
  unfolding fits_def patternFits_def list_all2_map1
  by (rule arg_cong [where f = "\<lambda>P. list_all2 P pat ss"]) (auto simp: fun_eq_iff edgeOf_def segFits_def)

lemma holds_new: "holds \<lparr>rm_root = Some emptyNode\<rparr> []"
  by (simp add: holds_def bounded_def rootOf_def)

lemma lower_props: "sq \<noteq> 0 \<Longrightarrow> lower sq m \<noteq> 0" "lower sq m \<le> sq" "m \<noteq> 0 \<Longrightarrow> lower sq m \<le> m"
  by (auto simp: lower_def)

lemma holds_Add:
  assumes lo: "route_lo_ok E" and sq: "sq \<noteq> 0" and h: "holds m regs"
  shows "\<exists>m'. routeMatcher_Add E (Some m) path route sq = Some m'
     \<and> holds m' (regs @ [(splitRouteSegments path, \<lparr>re_seq = sq, re_route = route\<rparr>)])"
proof -
  let ?path = "map edgeOf (splitRouteSegments path)" and ?en = "\<lparr>re_seq = sq, re_route = route\<rparr>"
  obtain m' where m': "routeMatcher_Add E (Some m) path route sq = Some m'"
      "\<And>p. routes_at (rootOf m') p = routes_at (rootOf m) p @ (if p = ?path then [?en] else [])"
      "\<And>p. min_at (rootOf m') p = (if prefix p ?path then lower sq (min_at (rootOf m) p) else min_at (rootOf m) p)"
    using Add_at [OF lo sq] by blast
  have b: "e \<in> set (routes_at (rootOf m) (p @ q)) \<Longrightarrow> min_at (rootOf m) p \<noteq> 0 \<and> min_at (rootOf m) p \<le> re_seq e" for p q e
    using h unfolding holds_def bounded_def by blast
  have "min_at (rootOf m') p \<noteq> 0 \<and> min_at (rootOf m') p \<le> re_seq e"
    if e: "e \<in> set (routes_at (rootOf m') (p @ q))" for p q e
  proof (cases "e \<in> set (routes_at (rootOf m) (p @ q))")
    case True
    then show ?thesis
      using b [OF True] lower_props(1) [OF sq] lower_props(3) [of "min_at (rootOf m) p" sq] by (auto simp: m'(3))
  next
    case False
    then have "p @ q = ?path" and en: "e = ?en" using e by (auto simp: m'(2) split: if_splits)
    then have "prefix p ?path" by (metis prefixI)
    then show ?thesis using lower_props(1,2) [of sq] sq en by (simp add: m'(3))
  qed
  then have "bounded (rootOf m')" unfolding bounded_def by blast
  moreover have "routes_at (rootOf m') p
      = map snd (filter (\<lambda>(ss, e). map edgeOf ss = p) (regs @ [(splitRouteSegments path, ?en)]))" for p
    using h by (auto simp: m'(2) holds_def)
  ultimately show ?thesis using m'(1) by (simp add: holds_def)
qed

text \<open>With sequence numbers that grow, the best match is the first registered pattern that fits.\<close>

lemma sorted_find_least:
  fixes f :: "'a \<Rightarrow> 'b::linorder"
  assumes "sorted_wrt (\<lambda>x y. f x < f y) xs" and "List.find P xs = Some x" and "y \<in> set xs" and "P y"
  shows "f x \<le> f y \<and> (f x = f y \<longrightarrow> x = y)"
proof -
  obtain i where i: "i < length xs" "x = xs ! i" "\<forall>j<i. \<not> P (xs ! j)" using assms(2) by (auto simp: find_Some_iff)
  obtain j where j: "j < length xs" "y = xs ! j" using assms(3) by (auto simp: in_set_conv_nth)
  have "i \<le> j" using i(3) j assms(4) by (metis not_less)
  moreover have "f (xs ! i) < f (xs ! j)" if "i < j"
    using assms(1) that j(1) by (simp add: sorted_wrt_iff_nth_less)
  ultimately show ?thesis using i j by (cases "i = j") auto
qed

theorem node_match_first:
  assumes h: "holds m regs" and sorted: "sorted_wrt (\<lambda>x y. re_seq (snd x) < re_seq (snd y)) regs"
  shows "node_match (rootOf m) ss = map_option snd (List.find (\<lambda>(pat, e). patternFits pat ss) regs)"
proof -
  let ?P = "\<lambda>(pat, e :: routeMatchEntry). patternFits pat ss"
  have at: "routes_at (rootOf m) p = map snd (filter (\<lambda>(ss, e). map edgeOf ss = p) regs)" for p
    using h by (simp add: holds_def)
  have held: "e \<in> set (routes_at (rootOf m) p) \<longleftrightarrow> (\<exists>pat. (pat, e) \<in> set regs \<and> map edgeOf pat = p)" for e p
    by (force simp: at)
  have b: "best (rootOf m) ss (node_match (rootOf m) ss)" using h node_match_best by (simp add: holds_def)
  show ?thesis
  proof (cases "List.find ?P regs")
    case None
    have "node_match (rootOf m) ss = None"
    proof (rule ccontr)
      assume "node_match (rootOf m) ss \<noteq> None"
      then obtain p where "fits p ss" "routes_at (rootOf m) p \<noteq> []" using b by (auto simp: best_def)
      then obtain pat e where "(pat, e) \<in> set regs" "fits (map edgeOf pat) ss" using held
        by (metis list.set_sel(1))
      then show False using None by (auto simp: find_None_iff fits_pattern)
    qed
    then show ?thesis using None by simp
  next
    case (Some x)
    obtain pat0 e0 where x: "x = (pat0, e0)" by fastforce
    then have f0: "(pat0, e0) \<in> set regs" "patternFits pat0 ss"
      using Some by (metis case_prodD find_Some_iff nth_mem)+
    let ?p = "map edgeOf pat0"
    have in0: "e0 \<in> set (routes_at (rootOf m) ?p)" using f0(1) held by blast
    then have ne: "routes_at (rootOf m) ?p \<noteq> []" by auto
    have fit0: "fits ?p ss" using f0(2) by (simp add: fits_pattern)
    obtain e where e: "node_match (rootOf m) ss = Some e"
      using b fit0 ne by (cases "node_match (rootOf m) ss") (auto simp: best_def)
    obtain p where p: "fits p ss" "routes_at (rootOf m) p \<noteq> []" "e = hd (routes_at (rootOf m) p)"
      and least: "\<And>p. fits p ss \<Longrightarrow> routes_at (rootOf m) p \<noteq> [] \<Longrightarrow> re_seq e \<le> re_seq (hd (routes_at (rootOf m) p))"
      using b e by (auto simp: best_def)
    obtain pat where pat: "(pat, e) \<in> set regs" "patternFits pat ss"
      using p held by (metis fits_pattern list.set_sel(1))
    have "sorted_wrt (\<lambda>a c. re_seq a < re_seq c) (routes_at (rootOf m) ?p)"
      using sorted_wrt_filter [OF sorted] by (simp add: at sorted_wrt_map)
    then have "re_seq (hd (routes_at (rootOf m) ?p)) \<le> re_seq e0"
      using in0 by (cases "routes_at (rootOf m) ?p") auto
    then have "re_seq e \<le> re_seq e0" using least [OF fit0 ne] by (rule order_trans [rotated])
    moreover note sorted_find_least [OF sorted Some pat(1)] pat(2)
    ultimately have "x = (pat, e)" by (simp add: x)
    then show ?thesis using Some e by simp
  qed
qed

end
