(* ===== verification/Co_Guarded.thy ===== *)
theory Co_Guarded
  imports Ser_Cache
begin

text \<open>
  What the concurrent containers of \<^verbatim>\<open>collectionx\<close> share: a container that is allocated on first use, behind a
  read-write mutex, with a serialization cache of its own. A method holds the mutex from its first
  access to its last, so a critical section is one atomic step. \<open>ToJSON\<close> reads the cache under the read
  lock, releases it, and looks again under the write lock before it fills the cache.
\<close>

record 'c guarded =
  core :: "'c option"
  co_ser :: ser_cache

definition co_dirty :: "'c guarded \<Rightarrow> 'c guarded" where
  "co_dirty m = m\<lparr>co_ser := ser_invalidate (co_ser m)\<rparr>"

text \<open>The two sections of \<open>ToJSON\<close>, given what the marshalling of the current content yields: the lookup
  under the read lock, and the fill under the write lock, which looks again.\<close>

definition co_json_read :: "'c guarded \<Rightarrow> bytes option" where
  "co_json_read m = (if \<not> jsonDirty (co_ser m) then jsonCache (co_ser m) else None)"

definition co_json_fill :: "string + bytes \<Rightarrow> 'c guarded \<Rightarrow> 'c guarded \<times> (string + bytes)" where
  "co_json_fill fresh m =
     (case co_json_read m of
        Some d \<Rightarrow> (m, Inr d)
      | None \<Rightarrow>
          (case fresh of
             Inl err \<Rightarrow> (m, Inl err)
           | Inr d \<Rightarrow> (m\<lparr>co_ser := ser_store d (co_ser m)\<rparr>, Inr d)))"

definition co_string_read :: "'c guarded \<Rightarrow> string option" where
  "co_string_read m =
     (if \<not> jsonDirty (co_ser m) \<and> stringCache (co_ser m) \<noteq> [] then Some (stringCache (co_ser m)) else None)"

lemma co_dirty_simps [simp]: "core (co_dirty m) = core m" "ser_coherent fresh (co_ser (co_dirty m))"
  by (simp_all add: co_dirty_def)

lemma co_json_read_fresh: "ser_coherent fresh (co_ser m) \<Longrightarrow> co_json_read m = Some d \<Longrightarrow> fresh = Inr d"
  by (auto simp: co_json_read_def ser_coherent_def split: if_splits)

lemma co_json_fill_fresh:
  assumes "ser_coherent fresh (co_ser m)"
  shows "snd (co_json_fill fresh m) = fresh" and "core (fst (co_json_fill fresh m)) = core m"
    and "ser_coherent fresh (co_ser (fst (co_json_fill fresh m)))"
proof -
  have "snd (co_json_fill fresh m) = fresh \<and> core (fst (co_json_fill fresh m)) = core m
      \<and> ser_coherent fresh (co_ser (fst (co_json_fill fresh m)))"
  proof (cases "co_json_read m")
    case None
    then show ?thesis using assms by (cases fresh) (simp_all add: co_json_fill_def)
  next
    case (Some d)
    then show ?thesis using assms co_json_read_fresh [OF assms Some] by (simp add: co_json_fill_def)
  qed
  then show "snd (co_json_fill fresh m) = fresh" and "core (fst (co_json_fill fresh m)) = core m"
    and "ser_coherent fresh (co_ser (fst (co_json_fill fresh m)))" by auto
qed

lemma co_string_read_fresh: "ser_coherent fresh (co_ser m) \<Longrightarrow> co_string_read m = Some d \<Longrightarrow> fresh = Inr d"
  by (auto simp: co_string_read_def ser_coherent_def split: if_splits)

lemmas co_json_fresh = co_json_read_fresh co_json_fill_fresh co_string_read_fresh

end
