(* ===== verification/List_Concurrent.thy ===== *)
theory List_Concurrent
  imports Co_Guarded List_List
begin

text \<open>
  \<^verbatim>\<open>collectionx/list/concurrent_list.go\<close>, \<^verbatim>\<open>concurrent_list_access.go\<close> and the ConcurrentList part of \<^verbatim>\<open>json.go\<close>: a
  \<open>List\<close> behind a read-write mutex. Every critical section is one atomic step, so a history is the order
  in which goroutines enter their sections. A nil receiver dereferences and is outside the model except
  where the code tests for it. Shown: in every such order each section answers as a list would and the
  serialization cache is never stale.
\<close>

type_synonym 'a clist = "'a glist guarded"

definition NewConcurrentListWithCapacity :: "int \<Rightarrow> 'a list \<Rightarrow> 'a clist" where
  "NewConcurrentListWithCapacity capacity xs =
     (let cap = (if capacity < int (length xs) then int (length xs) else capacity)
      in if cap \<le> 0 then \<lparr>core = None, co_ser = ser_zero\<rparr>
         else \<lparr>core = NewListWithCapacity cap xs, co_ser = ser_zero\<rparr>)"

definition NewConcurrentList :: "'a list \<Rightarrow> 'a clist" where
  "NewConcurrentList xs = NewConcurrentListWithCapacity (int (length xs)) xs"

definition ConcurrentList_ensureInitLocked :: "'a clist \<Rightarrow> 'a clist" where
  "ConcurrentList_ensureInitLocked l = (if core l = None then l\<lparr>core := NewList []\<rparr> else l)"

definition ConcurrentList_Add :: "'a clist \<Rightarrow> 'a list \<Rightarrow> 'a clist" where
  "ConcurrentList_Add l0 xs =
     (if length xs = 0 then l0
      else let l = ConcurrentList_ensureInitLocked l0 in co_dirty (l\<lparr>core := List_Add (core l) xs\<rparr>))"

definition ConcurrentList_Values :: "'a clist \<Rightarrow> 'a list" where
  "ConcurrentList_Values l = (case core l of None \<Rightarrow> [] | Some g \<Rightarrow> List_Values (Some g))"

text \<open>\<open>Merge\<close> and \<open>MergeConcurrent\<close> read the other list first, in its own critical section.\<close>

definition ConcurrentList_Merge :: "'a clist \<Rightarrow> 'a glist option \<Rightarrow> 'a clist" where
  "ConcurrentList_Merge l other = (case other of None \<Rightarrow> l | Some g \<Rightarrow> ConcurrentList_Add l (List_Values (Some g)))"

definition ConcurrentList_MergeConcurrent :: "'a clist \<Rightarrow> 'a clist option \<Rightarrow> 'a clist" where
  "ConcurrentList_MergeConcurrent l other =
     (case other of None \<Rightarrow> l | Some g \<Rightarrow> ConcurrentList_Add l (ConcurrentList_Values g))"

definition ConcurrentList_MergeSlice :: "'a clist \<Rightarrow> 'a list \<Rightarrow> 'a clist" where
  "ConcurrentList_MergeSlice l xs = ConcurrentList_Add l xs"

definition ConcurrentList_AddAllAt :: "'a clist \<Rightarrow> int \<Rightarrow> 'a list \<Rightarrow> 'a clist \<times> bool" where
  "ConcurrentList_AddAllAt l0 index xs =
     (let l = ConcurrentList_ensureInitLocked l0
      in case List_AddAllAt (core l) index xs of
           (g, added) \<Rightarrow>
             let l1 = l\<lparr>core := g\<rparr> in (if added \<and> length xs > 0 then co_dirty l1 else l1, added))"

definition ConcurrentList_AddAt :: "'a clist \<Rightarrow> int \<Rightarrow> 'a \<Rightarrow> 'a clist \<times> bool" where
  "ConcurrentList_AddAt l index x = ConcurrentList_AddAllAt l index [x]"

text \<open>The common shape of the remaining mutations: nothing on an unallocated list, else the list's own
  operation, and the cache is dropped when it reports a change.\<close>

definition co_edit :: "('c option \<Rightarrow> 'c option \<times> 'r) \<Rightarrow> 'r \<Rightarrow> ('r \<Rightarrow> bool) \<Rightarrow> 'c guarded \<Rightarrow> 'c guarded \<times> 'r" where
  "co_edit f none changed l =
     (case core l of
        None \<Rightarrow> (l, none)
      | Some g \<Rightarrow> (case f (Some g) of (g', r) \<Rightarrow> let l1 = l\<lparr>core := g'\<rparr> in (if changed r then co_dirty l1 else l1, r)))"

definition ConcurrentList_Set :: "'a clist \<Rightarrow> int \<Rightarrow> 'a \<Rightarrow> 'a clist \<times> bool" where
  "ConcurrentList_Set l index x = co_edit (\<lambda>g. List_Set g index x) False (\<lambda>updated. updated) l"

definition ConcurrentList_SetAll :: "'a clist \<Rightarrow> ('a \<Rightarrow> 'a) option \<Rightarrow> 'a clist \<times> nat" where
  "ConcurrentList_SetAll l mapper =
     (case mapper of None \<Rightarrow> (l, 0)
      | Some f \<Rightarrow> co_edit (\<lambda>g. List_SetAll g (Some f)) 0 (\<lambda>updated. updated > 0) l)"

definition ConcurrentList_SetAllIndexed :: "'a clist \<Rightarrow> (nat \<Rightarrow> 'a \<Rightarrow> 'a) option \<Rightarrow> 'a clist \<times> nat" where
  "ConcurrentList_SetAllIndexed l mapper =
     (case mapper of None \<Rightarrow> (l, 0)
      | Some f \<Rightarrow> co_edit (\<lambda>g. List_SetAllIndexed g (Some f)) 0 (\<lambda>updated. updated > 0) l)"

definition ConcurrentList_RemoveAt :: "'a::zero clist \<Rightarrow> int \<Rightarrow> 'a clist \<times> 'a option" where
  "ConcurrentList_RemoveAt l index = co_edit (\<lambda>g. List_RemoveAt g index) None (\<lambda>r. r \<noteq> None) l"

definition ConcurrentList_RemoveAtOption :: "'a::zero clist \<Rightarrow> int \<Rightarrow> 'a clist \<times> 'a option" where
  "ConcurrentList_RemoveAtOption l index =
     (case ConcurrentList_RemoveAt l index of (q, None) \<Rightarrow> (q, None) | (q, Some v) \<Rightarrow> (q, Some v))"

definition ConcurrentList_RemoveIf :: "'a::zero clist \<Rightarrow> ('a \<Rightarrow> bool) option \<Rightarrow> 'a clist \<times> nat" where
  "ConcurrentList_RemoveIf l predicate =
     (case predicate of None \<Rightarrow> (l, 0)
      | Some P \<Rightarrow> co_edit (\<lambda>g. List_RemoveIf g (Some P)) 0 (\<lambda>removed. removed > 0) l)"

definition ConcurrentList_Len :: "'a clist \<Rightarrow> nat" where
  "ConcurrentList_Len l = (case core l of None \<Rightarrow> 0 | Some g \<Rightarrow> List_Len (Some g))"

definition ConcurrentList_IsEmpty :: "'a clist \<Rightarrow> bool" where
  "ConcurrentList_IsEmpty l \<longleftrightarrow> ConcurrentList_Len l = 0"

definition ConcurrentList_Clear :: "'a clist \<Rightarrow> 'a clist" where
  "ConcurrentList_Clear l =
     (case core l of None \<Rightarrow> l | Some g \<Rightarrow> l\<lparr>core := List_Clear (Some g), co_ser := ser_zero\<rparr>)"

definition ConcurrentList_Get :: "'a clist \<Rightarrow> int \<Rightarrow> 'a option" where
  "ConcurrentList_Get l index = (case core l of None \<Rightarrow> None | Some g \<Rightarrow> List_Get (Some g) index)"

definition ConcurrentList_GetFirst :: "'a clist \<Rightarrow> 'a option" where
  "ConcurrentList_GetFirst l = ConcurrentList_Get l 0"

definition ConcurrentList_GetOption :: "'a clist \<Rightarrow> int \<Rightarrow> 'a option" where
  "ConcurrentList_GetOption l index = (case ConcurrentList_Get l index of None \<Rightarrow> None | Some v \<Rightarrow> Some v)"

definition ConcurrentList_GetFirstOption :: "'a clist \<Rightarrow> 'a option" where
  "ConcurrentList_GetFirstOption l = ConcurrentList_GetOption l 0"

definition ConcurrentList_GetLast :: "'a clist \<Rightarrow> 'a option" where
  "ConcurrentList_GetLast l = (case core l of None \<Rightarrow> None | Some g \<Rightarrow> List_GetLast (Some g))"

definition ConcurrentList_GetLastOption :: "'a clist \<Rightarrow> 'a option" where
  "ConcurrentList_GetLastOption l = (case ConcurrentList_GetLast l of None \<Rightarrow> None | Some v \<Rightarrow> Some v)"

text \<open>The callback of \<open>Range\<close> runs under the read lock, so it cannot change this list.\<close>

definition ConcurrentList_Range :: "'a clist \<Rightarrow> ('st \<Rightarrow> nat \<times> 'a \<Rightarrow> 'st \<times> bool) option \<Rightarrow> 'st \<Rightarrow> 'st" where
  "ConcurrentList_Range l fn st =
     (case fn of None \<Rightarrow> st | Some f \<Rightarrow> (case core l of None \<Rightarrow> st | Some g \<Rightarrow> List_Range (Some g) (Some f) st))"

definition ConcurrentList_Snapshot :: "'a clist \<Rightarrow> 'a glist option" where
  "ConcurrentList_Snapshot l = (case core l of None \<Rightarrow> NewList [] | Some g \<Rightarrow> List_Clone (Some g))"

definition ConcurrentList_Where :: "'a clist \<Rightarrow> (nat \<Rightarrow> 'a \<Rightarrow> bool) option \<Rightarrow> 'a glist option" where
  "ConcurrentList_Where l P = List_Where (ConcurrentList_Snapshot l) P"

definition ConcurrentList_Reject :: "'a clist \<Rightarrow> (nat \<Rightarrow> 'a \<Rightarrow> bool) option \<Rightarrow> 'a glist option" where
  "ConcurrentList_Reject l P = List_Reject (ConcurrentList_Snapshot l) P"

definition ConcurrentList_Take :: "'a clist \<Rightarrow> int \<Rightarrow> 'a glist option" where
  "ConcurrentList_Take l n = List_Take (ConcurrentList_Snapshot l) n"

definition ConcurrentList_Drop :: "'a clist \<Rightarrow> int \<Rightarrow> 'a glist option" where
  "ConcurrentList_Drop l n = List_Drop (ConcurrentList_Snapshot l) n"

definition ConcurrentList_Each :: "'a clist \<Rightarrow> ('st \<Rightarrow> nat \<times> 'a \<Rightarrow> 'st) option \<Rightarrow> 'st \<Rightarrow> 'st \<times> 'a glist option" where
  "ConcurrentList_Each l fn st = List_Each (ConcurrentList_Snapshot l) fn st"

definition ConcurrentList_FirstWhere :: "'a clist \<Rightarrow> (nat \<Rightarrow> 'a \<Rightarrow> bool) option \<Rightarrow> 'a option" where
  "ConcurrentList_FirstWhere l P = List_FirstWhere (ConcurrentList_Snapshot l) P"

definition ConcurrentList_AnyMatch :: "'a clist \<Rightarrow> (nat \<Rightarrow> 'a \<Rightarrow> bool) option \<Rightarrow> bool" where
  "ConcurrentList_AnyMatch l P = List_AnyMatch (ConcurrentList_Snapshot l) P"

definition ConcurrentList_AllMatch :: "'a clist \<Rightarrow> (nat \<Rightarrow> 'a \<Rightarrow> bool) option \<Rightarrow> bool" where
  "ConcurrentList_AllMatch l P = List_AllMatch (ConcurrentList_Snapshot l) P"

text \<open>The backing slice, nil when the list is not allocated, and what \<open>ToJSON\<close> marshals of it.\<close>

definition cl_slice :: "'a clist \<Rightarrow> 'a slice" where
  "cl_slice l = (case core l of None \<Rightarrow> None | Some g \<Rightarrow> li_items g)"

definition cl_fresh :: "'a slice json_marshal \<Rightarrow> 'a clist \<Rightarrow> string + bytes" where
  "cl_fresh marshal l = marshalListJSON marshal (cl_slice l) ''concurrent list''"

primrec ConcurrentList_ToJSON ::
    "'a slice json_marshal \<Rightarrow> 'a clist option \<Rightarrow> 'a clist option \<times> (string + bytes)" where
  "ConcurrentList_ToJSON marshal None = (None, marshalListJSON marshal None ''concurrent list'')"
| "ConcurrentList_ToJSON marshal (Some l) =
     (case co_json_read l of
        Some d \<Rightarrow> (Some l, Inr d)
      | None \<Rightarrow> map_prod Some id (co_json_fill (cl_fresh marshal l) l))"

definition ConcurrentList_MarshalJSON ::
    "string + bytes \<Rightarrow> 'a slice json_marshal \<Rightarrow> 'a clist option \<Rightarrow> 'a clist option \<times> (string + bytes)" where
  "ConcurrentList_MarshalJSON n marshal p =
     (case ConcurrentList_ToJSON marshal p of (q, r) \<Rightarrow> (q, forwardListJSON n (\<lambda>_. r) ''concurrent list''))"

primrec ConcurrentList_String :: "'a slice json_marshal \<Rightarrow> 'a clist option \<Rightarrow> 'a clist option \<times> string" where
  "ConcurrentList_String marshal None = (None, ''[]'')"
| "ConcurrentList_String marshal (Some l) =
     (case co_string_read l of
        Some v \<Rightarrow> (Some l, v)
      | None \<Rightarrow> (case ConcurrentList_ToJSON marshal (Some l) of (q, r) \<Rightarrow> (q, JSONResultString r ''[]'')))"

subsection \<open>In every order of critical sections a list\<close>

text \<open>The sections that have a sequential counterpart, and the three that deal with the cache (they stand for
  \<open>LiToJSON\<close> and \<open>LiString\<close>, which do nothing here).\<close>

datatype (dead 'a) cl_op = ClSeq "'a li_op" | ClJSONRead | ClJSONFill | ClStringRead

datatype (dead 'a) cl_res = ClRes "'a li_res" | ClCached "bytes option" | ClBytes "string + bytes"

primrec cl_seq_step :: "'a::zero li_op \<Rightarrow> 'a clist \<Rightarrow> 'a clist \<times> 'a li_res" where
  "cl_seq_step (LiAdd xs) l = (ConcurrentList_Add l xs, LiUnit)"
| "cl_seq_step (LiMerge other) l = (ConcurrentList_Merge l other, LiUnit)"
| "cl_seq_step (LiMergeSlice xs) l = (ConcurrentList_MergeSlice l xs, LiUnit)"
| "cl_seq_step (LiAddAt i x) l = map_prod id LiBool (ConcurrentList_AddAt l i x)"
| "cl_seq_step (LiAddAllAt i xs) l = map_prod id LiBool (ConcurrentList_AddAllAt l i xs)"
| "cl_seq_step (LiGet i) l = (l, LiItem (ConcurrentList_Get l i))"
| "cl_seq_step LiGetFirst l = (l, LiItem (ConcurrentList_GetFirst l))"
| "cl_seq_step LiGetLast l = (l, LiItem (ConcurrentList_GetLast l))"
| "cl_seq_step (LiSet i x) l = map_prod id LiBool (ConcurrentList_Set l i x)"
| "cl_seq_step (LiSetAll f) l = map_prod id LiNat (ConcurrentList_SetAll l (Some f))"
| "cl_seq_step (LiSetAllIndexed f) l = map_prod id LiNat (ConcurrentList_SetAllIndexed l (Some f))"
| "cl_seq_step (LiRemoveAt i) l = map_prod id LiItem (ConcurrentList_RemoveAt l i)"
| "cl_seq_step (LiRemoveIf P) l = map_prod id LiNat (ConcurrentList_RemoveIf l (Some P))"
| "cl_seq_step LiLen l = (l, LiNat (ConcurrentList_Len l))"
| "cl_seq_step LiIsEmpty l = (l, LiBool (ConcurrentList_IsEmpty l))"
| "cl_seq_step LiClear l = (ConcurrentList_Clear l, LiUnit)"
| "cl_seq_step LiValues l = (l, LiItems (ConcurrentList_Values l))"
| "cl_seq_step (LiRange P) l = (l, LiSeen (ConcurrentList_Range l (Some (\<lambda>acc x. (acc @ [x], P x))) []))"
| "cl_seq_step LiToJSON l = (l, LiUnit)"
| "cl_seq_step LiString l = (l, LiUnit)"

primrec cl_step :: "'a::zero slice json_marshal \<Rightarrow> 'a cl_op \<Rightarrow> 'a clist \<Rightarrow> 'a clist \<times> 'a cl_res" where
  "cl_step marshal (ClSeq c) l = map_prod id ClRes (cl_seq_step c l)"
| "cl_step marshal ClJSONRead l = (l, ClCached (co_json_read l))"
| "cl_step marshal ClJSONFill l = map_prod id ClBytes (co_json_fill (cl_fresh marshal l) l)"
| "cl_step marshal ClStringRead l = (l, ClCached (co_string_read l))"

text \<open>The abstract state is the slice, because a nil slice marshals differently from an empty one; \<open>sl\<close>
  reads it as a list.\<close>

fun cl_spec :: "'a::zero slice json_marshal \<Rightarrow> 'a cl_op \<Rightarrow> 'a slice \<Rightarrow> 'a cl_res \<Rightarrow> 'a slice \<Rightarrow> bool" where
  "cl_spec marshal (ClSeq c) s r s' \<longleftrightarrow> (\<exists>x. r = ClRes x \<and> li_spec c (sl s) = (sl s', x))"
| "cl_spec marshal ClJSONFill s r s' \<longleftrightarrow> s' = s \<and> r = ClBytes (marshalListJSON marshal s ''concurrent list'')"
| "cl_spec marshal _ s r s' \<longleftrightarrow> s' = s \<and> (r = ClCached None \<or> (\<exists>d. r = ClCached (Some d) \<and> marshal s = Inr d))"

definition cl_inv :: "'a slice json_marshal \<Rightarrow> 'a clist \<Rightarrow> bool" where
  "cl_inv marshal l \<longleftrightarrow>
     ser_coherent (cl_fresh marshal l) (co_ser l) \<and> (\<forall>g. core l = Some g \<longrightarrow> li_inv (\<lambda>_. Inl []) (Some g))"

lemma cl_slice_simps [simp]:
  "cl_slice (co_dirty l) = cl_slice l" "cl_slice (l\<lparr>core := Some g\<rparr>) = li_items g"
  "cl_slice (l\<lparr>core := Some g, co_ser := c\<rparr>) = li_items g" "cl_slice (l\<lparr>co_ser := c\<rparr>) = cl_slice l"
  by (simp_all add: cl_slice_def)

text \<open>A section that ran a sequential operation on the list: right if the cache was dropped or the slice
  did not change.\<close>

lemma cl_ran:
  fixes g :: "'a::zero glist"
  assumes "li_inv (\<lambda>_. Inl []) (Some g)" and "fst (li_step (\<lambda>_. Inl []) c (Some g)) = Some g'"
  shows "li_inv (\<lambda>_. Inl []) (Some g')"
    and "li_spec c (sl (li_items g)) = (sl (li_items g'), snd (li_step (\<lambda>_. Inl []) c (Some g)))"
  using li_ref.step_inv [OF assms(1), of c] li_ref.step_sim [OF assms(1), of c] assms(2) by simp_all

lemma cl_ensureInit:
  assumes "cl_inv marshal l"
  shows "\<exists>g. core (ConcurrentList_ensureInitLocked l) = Some g \<and> li_items g = cl_slice l
     \<and> li_inv (\<lambda>_. Inl []) (Some g) \<and> co_ser (ConcurrentList_ensureInitLocked l) = co_ser l"
  using assms
  by (cases "core l") (auto simp: ConcurrentList_ensureInitLocked_def cl_slice_def cl_inv_def NewList_def
      NewListWithCapacity_def li_zero_def li_inv_def)

lemma cl_edit:
  fixes l :: "'a::zero clist"
  assumes inv: "cl_inv marshal l"
    and run: "\<And>g. li_step (\<lambda>_. Inl []) c (Some g) = map_prod id R (f (Some g))"
    and none: "li_spec c [] = ([], R z)"
    and same: "\<And>g g' r. f (Some g) = (Some g', r) \<Longrightarrow> \<not> changed r \<Longrightarrow> li_items g' = li_items g"
    and some: "\<And>g. \<exists>g'. fst (f (Some g)) = Some g'"
  shows "cl_inv marshal (fst (co_edit f z changed l))
       \<and> li_spec c (sl (cl_slice l)) = (sl (cl_slice (fst (co_edit f z changed l))), R (snd (co_edit f z changed l)))"
proof (cases "core l")
  case None
  then show ?thesis using inv none by (simp add: co_edit_def cl_slice_def)
next
  case (Some g)
  obtain g' r where fg: "f (Some g) = (Some g', r)" using some [of g] by (metis prod.collapse)
  have g: "li_inv (\<lambda>_. Inl []) (Some g)" using inv Some by (simp add: cl_inv_def)
  note ran = cl_ran [OF g, of c g']
  have step: "li_step (\<lambda>_. Inl []) c (Some g) = (Some g', R r)" by (simp add: run fg)
  have "ser_coherent (cl_fresh marshal (l\<lparr>core := Some g'\<rparr>)) (co_ser l)" if "\<not> changed r"
    using inv same [OF fg that] Some by (simp add: cl_inv_def cl_fresh_def cl_slice_def)
  then show ?thesis
    using ran step Some by (auto simp: co_edit_def fg cl_inv_def cl_slice_def Let_def)
qed

lemma removeIf_same: "List_RemoveIf (Some g) (Some P) = (Some g', r) \<Longrightarrow> \<not> 0 < r \<Longrightarrow> li_items g' = li_items g"
proof (cases "sl (li_items g) = []")
  case False
  assume r: "List_RemoveIf (Some g) (Some P) = (Some g', r)" "\<not> 0 < r"
  let ?xs = "sl (li_items g)"
  have some: "li_items g = Some ?xs" using False by (cases "li_items g") auto
  obtain ys w where loop: "removeIfLoop P [0 ..< length ?xs] ?xs 0 = (ys, w)" by fastforce
  note f = removeIfLoop_filter [OF loop]
  have "length ys - w = 0" using r loop False by (auto simp: Let_def split: if_splits)
  then have "ys = ?xs" using f by (metis diff_is_0_eq le_antisym length_filter_le)
  then show "li_items g' = li_items g"
    using r loop False some \<open>length ys - w = 0\<close> by (auto simp: Let_def split: if_splits)
qed auto

lemma set_all_loop_nil [simp]:
  "foldl (\<lambda>ys i. ys[i := f i (ys ! i)]) xs [0 ..< length xs] = [] \<longleftrightarrow> xs = []"
  "foldl (\<lambda>ys i. ys[i := h (ys ! i)]) xs [0 ..< length xs] = [] \<longleftrightarrow> xs = []"
  using map_loop [of "length xs" xs f] map_loop [of "length xs" xs "\<lambda>_. h"] length_enumerate [of 0 xs]
  by (auto simp del: length_enumerate)

lemma cl_seq_refines:
  fixes l :: "'a::zero clist"
  assumes inv: "cl_inv marshal l"
  shows "cl_inv marshal (fst (cl_seq_step c l))
       \<and> li_spec c (sl (cl_slice l)) = (sl (cl_slice (fst (cl_seq_step c l))), snd (cl_seq_step c l))"
proof -
  obtain g where g: "core (ConcurrentList_ensureInitLocked l) = Some g" "li_items g = cl_slice l"
      "li_inv (\<lambda>_. Inl []) (Some g)" "co_ser (ConcurrentList_ensureInitLocked l) = co_ser l"
    using cl_ensureInit [OF inv] by blast
  have add: "cl_inv marshal (ConcurrentList_Add l xs) \<and> sl (cl_slice (ConcurrentList_Add l xs)) = sl (cl_slice l) @ xs" for xs
    using inv g by (auto simp: ConcurrentList_Add_def Let_def cl_inv_def)
  have insert: "cl_inv marshal (fst (ConcurrentList_AddAllAt l i xs))
      \<and> list_insert i xs (sl (cl_slice l))
        = (sl (cl_slice (fst (ConcurrentList_AddAllAt l i xs))), LiBool (snd (ConcurrentList_AddAllAt l i xs)))" for i xs
  proof -
    have "\<exists>g'. fst (List_AddAllAt (Some g) i xs) = Some g'" by (simp add: Let_def)
    then obtain g' b where ga: "List_AddAllAt (Some g) i xs = (Some g', b)" by (metis prod.collapse)
    have "li_items g' = li_items g" if "\<not> (b \<and> length xs > 0)"
      using ga that by (auto simp: Let_def split: if_splits)
    then have "ser_coherent (cl_fresh marshal ((ConcurrentList_ensureInitLocked l)\<lparr>core := Some g'\<rparr>)) (co_ser l)"
      if "\<not> (b \<and> length xs > 0)"
      using inv that g by (simp add: cl_inv_def cl_fresh_def)
    then show ?thesis
      using li_edits_sim(1) [OF g(3), of i xs] g ga
      by (auto simp: ConcurrentList_AddAllAt_def Let_def cl_inv_def simp del: List_AddAllAt.simps)
  qed
  have core: "core l = None \<and> cl_slice l = None \<or> (\<exists>h. core l = Some h \<and> cl_slice l = li_items h)"
    by (cases "core l") (simp_all add: cl_slice_def)
  have reads: "ConcurrentList_Get l i = (if in_range i (sl (cl_slice l)) then Some (sl (cl_slice l) ! nat i) else None)" for i
    using core by (auto simp: ConcurrentList_Get_def in_range_def)
  have h: "core l = Some h \<Longrightarrow> li_inv (\<lambda>_. Inl []) (Some h)" for h using inv by (simp add: cl_inv_def)
  note edit = cl_edit [OF inv]
  show ?thesis
  proof (cases c)
    case (LiAdd xs)
    then show ?thesis using add by simp
  next
    case (LiMerge other)
    then show ?thesis using add [of "List_Values other"] inv by (cases other) (simp_all add: ConcurrentList_Merge_def)
  next
    case (LiMergeSlice xs)
    then show ?thesis using add by (simp add: ConcurrentList_MergeSlice_def)
  next
    case (LiAddAt i x)
    then show ?thesis using insert by (simp add: ConcurrentList_AddAt_def)
  next
    case (LiAddAllAt i xs)
    then show ?thesis using insert by simp
  next
    case (LiSet i x)
    have "cl_inv marshal (fst (co_edit (\<lambda>g. List_Set g i x) False (\<lambda>u. u) l))
        \<and> li_spec c (sl (cl_slice l)) = (sl (cl_slice (fst (co_edit (\<lambda>g. List_Set g i x) False (\<lambda>u. u) l))), LiBool (snd (co_edit (\<lambda>g. List_Set g i x) False (\<lambda>u. u) l)))"
      by (rule edit) (auto simp: LiSet in_range_def split: if_splits)
    then show ?thesis by (simp add: LiSet ConcurrentList_Set_def)
  next
    case (LiSetAllIndexed f)
    have "cl_inv marshal (fst (co_edit (\<lambda>g. List_SetAllIndexed g (Some f)) 0 (\<lambda>u. 0 < u) l))
        \<and> li_spec c (sl (cl_slice l)) = (sl (cl_slice (fst (co_edit (\<lambda>g. List_SetAllIndexed g (Some f)) 0 (\<lambda>u. 0 < u) l))), LiNat (snd (co_edit (\<lambda>g. List_SetAllIndexed g (Some f)) 0 (\<lambda>u. 0 < u) l)))"
      by (rule edit) (auto simp: LiSetAllIndexed Let_def split: if_splits)
    then show ?thesis by (simp add: LiSetAllIndexed ConcurrentList_SetAllIndexed_def)
  next
    case (LiSetAll f)
    have "cl_inv marshal (fst (co_edit (\<lambda>g. List_SetAll g (Some f)) 0 (\<lambda>u. 0 < u) l))
        \<and> li_spec c (sl (cl_slice l)) = (sl (cl_slice (fst (co_edit (\<lambda>g. List_SetAll g (Some f)) 0 (\<lambda>u. 0 < u) l))), LiNat (snd (co_edit (\<lambda>g. List_SetAll g (Some f)) 0 (\<lambda>u. 0 < u) l)))"
      by (rule edit) (auto simp: LiSetAll List_SetAll_def Let_def split: if_splits)
    then show ?thesis by (simp add: LiSetAll ConcurrentList_SetAll_def)
  next
    case (LiRemoveAt i)
    have "cl_inv marshal (fst (co_edit (\<lambda>g. List_RemoveAt g i) None (\<lambda>r. r \<noteq> None) l))
        \<and> li_spec c (sl (cl_slice l)) = (sl (cl_slice (fst (co_edit (\<lambda>g. List_RemoveAt g i) None (\<lambda>r. r \<noteq> None) l))), LiItem (snd (co_edit (\<lambda>g. List_RemoveAt g i) None (\<lambda>r. r \<noteq> None) l)))"
      by (rule edit) (auto simp: LiRemoveAt in_range_def Let_def split: if_splits)
    then show ?thesis by (simp add: LiRemoveAt ConcurrentList_RemoveAt_def)
  next
    case (LiRemoveIf P)
    have "\<exists>g'. fst (List_RemoveIf (Some g) (Some P)) = Some g'" for g :: "'a glist"
      by (auto simp: Let_def split: prod.split)
    then have "cl_inv marshal (fst (co_edit (\<lambda>g. List_RemoveIf g (Some P)) 0 (\<lambda>u. 0 < u) l))
        \<and> li_spec c (sl (cl_slice l)) = (sl (cl_slice (fst (co_edit (\<lambda>g. List_RemoveIf g (Some P)) 0 (\<lambda>u. 0 < u) l))),
            LiNat (snd (co_edit (\<lambda>g. List_RemoveIf g (Some P)) 0 (\<lambda>u. 0 < u) l)))"
      by (intro edit removeIf_same) (simp_all add: LiRemoveIf del: List_RemoveIf.simps)
    then show ?thesis by (simp add: LiRemoveIf ConcurrentList_RemoveIf_def)
  next
    case LiClear
    then show ?thesis using core inv by (auto simp: ConcurrentList_Clear_def cl_inv_def li_inv_def)
  next
    case (LiGet i)
    then show ?thesis using inv reads by simp
  next
    case LiGetFirst
    then show ?thesis using inv reads [of 0] by (auto simp: ConcurrentList_GetFirst_def in_range_def hd_conv_nth)
  next
    case LiGetLast
    have pred: "nat (int n - 1) = n - Suc 0" for n by linarith
    show ?thesis
      using LiGetLast inv core by (auto simp: ConcurrentList_GetLast_def List_GetLast_def last_conv_nth pred)
  next
    case (LiRange P)
    then show ?thesis using inv core by (auto simp: ConcurrentList_Range_def range_until_collect)
  qed (use inv core in \<open>auto simp: ConcurrentList_Len_def ConcurrentList_IsEmpty_def ConcurrentList_Values_def\<close>)
qed

lemma cl_step_refines:
  assumes inv: "cl_inv marshal l"
  shows "cl_inv marshal (fst (cl_step marshal c l))
       \<and> cl_spec marshal c (cl_slice l) (snd (cl_step marshal c l)) (cl_slice (fst (cl_step marshal c l)))"
proof -
  have coh: "ser_coherent (cl_fresh marshal l) (co_ser l)" using inv by (simp add: cl_inv_def)
  have marshalled: "cl_fresh marshal l = Inr d \<longleftrightarrow> marshal (cl_slice l) = Inr d" for d
    by (auto simp: cl_fresh_def marshalListJSON_def split: sum.splits)
  show ?thesis
  proof (cases c)
    case (ClSeq d)
    then show ?thesis using cl_seq_refines [OF inv, of d] by simp
  next
    case ClJSONRead
    then show ?thesis
      using inv co_json_read_fresh [OF coh] marshalled by (cases "co_json_read l") auto
  next
    case ClStringRead
    then show ?thesis
      using inv co_string_read_fresh [OF coh] marshalled by (cases "co_string_read l") auto
  next
    case ClJSONFill
    note fill = co_json_fill_fresh [OF coh]
    have "cl_slice (fst (co_json_fill (cl_fresh marshal l) l)) = cl_slice l" using fill(2) by (simp add: cl_slice_def)
    then show ?thesis using ClJSONFill fill inv by (simp add: cl_inv_def cl_fresh_def)
  qed
qed

interpretation cl_ref: loose_refinement "cl_step marshal" "cl_inv marshal" "cl_spec marshal" cl_slice
  for marshal :: "'a::zero slice json_marshal"
  by unfold_locales (use cl_step_refines in blast)+

text \<open>
  C39. In whatever order goroutines enter the critical sections of one \<open>ConcurrentList\<close>, each section answers as
  a list would, index errors included, and a serialization found in or filled into the cache is that of
  the content at that moment.
\<close>

theorem concurrent_list_linearizes:
  "\<exists>s. sl s = xs \<and> admits (cl_spec marshal) cs s (snd (run (cl_step marshal) cs (NewConcurrentList xs)))
       (cl_slice (fst (run (cl_step marshal) cs (NewConcurrentList xs))))"
proof -
  let ?l = "NewConcurrentList xs"
  have "cl_inv marshal ?l \<and> sl (cl_slice ?l) = xs"
    by (auto simp: NewConcurrentList_def NewConcurrentListWithCapacity_def NewListWithCapacity_def li_zero_def
        cl_inv_def cl_slice_def li_inv_def List_invalidateSerializationCache_def Let_def)
  then show ?thesis using cl_ref.run_admits [of marshal ?l cs] by blast
qed

end
