(* ===== verification/Mapping_MultiMap.thy ===== *)
theory Mapping_MultiMap
  imports Mapping_Map List_List
begin

text \<open>
  \<^verbatim>\<open>collectionx/mapping/multimap.go\<close>, \<^verbatim>\<open>multimap_chain.go\<close> and the MultiMap part of \<^verbatim>\<open>mapping/json.go\<close>: an
  embedded \<open>Map\<close> from keys to slices, a running count of the values and a serialization cache. As in
  \<^verbatim>\<open>Mapping_Map\<close> the order of iteration is an argument. The functions of samber/lo are the fields of
  \<open>mm_lo\<close>, with what is relied on in \<open>mm_lo_ok\<close>. Shown: over any history every operation, the chain
  operations included, answers as a finite map to non-empty lists would; the count is exact.
\<close>

record ('k, 'v) multimap =
  mm_items :: "('k, 'v list) gmap"
  mm_count :: int
  mm_ser :: ser_cache

record ('v, 'st) mm_lo =
  ml_Filter :: "'v list \<Rightarrow> ('v \<Rightarrow> nat \<Rightarrow> bool) \<Rightarrow> 'v list"
  ml_Reject :: "'v list \<Rightarrow> ('v \<Rightarrow> nat \<Rightarrow> bool) \<Rightarrow> 'v list"
  ml_Find :: "'v list \<Rightarrow> ('v \<Rightarrow> bool) \<Rightarrow> 'v option"
  ml_EveryBy :: "'v list \<Rightarrow> ('v \<Rightarrow> bool) \<Rightarrow> bool"
  ml_ForEach :: "'v list \<Rightarrow> ('st \<Rightarrow> 'v \<Rightarrow> nat \<Rightarrow> 'st) \<Rightarrow> 'st \<Rightarrow> 'st"

definition mm_lo_ok :: "('v, 'st) mm_lo \<Rightarrow> bool" where
  "mm_lo_ok E \<longleftrightarrow>
     (\<forall>xs P. ml_Filter E xs (\<lambda>v _. P v) = filter P xs) \<and>
     (\<forall>xs P. ml_Reject E xs (\<lambda>v _. P v) = filter (\<lambda>v. \<not> P v) xs) \<and>
     (\<forall>xs P. ml_Find E xs P = List.find P xs) \<and>
     (\<forall>xs P. ml_EveryBy E xs P = list_all P xs) \<and>
     (\<forall>xs f st. ml_ForEach E xs (\<lambda>s v _. f s v) st = foldl f st xs)"

definition mm_zero :: "('k, 'v) multimap" where
  "mm_zero = \<lparr>mm_items = gm_zero, mm_count = 0, mm_ser = ser_zero\<rparr>"

definition NewMultiMapWithCapacity :: "int \<Rightarrow> ('k, 'v) multimap option" where
  "NewMultiMapWithCapacity capacity =
     (if capacity \<le> 0 then Some mm_zero
      else Some (mm_zero\<lparr>mm_items := the (NewMapWithCapacity capacity)\<rparr>))"

definition NewMultiMap :: "('k, 'v) multimap option" where
  "NewMultiMap = NewMultiMapWithCapacity 0"

definition MultiMap_ensureInit :: "('k, 'v) multimap \<Rightarrow> ('k, 'v) multimap" where
  "MultiMap_ensureInit m = m\<lparr>mm_items := Map_ensureInit (mm_items m)\<rparr>"

definition MultiMap_invalidateSerializationCache :: "('k, 'v) multimap \<Rightarrow> ('k, 'v) multimap" where
  "MultiMap_invalidateSerializationCache m = m\<lparr>mm_ser := ser_invalidate (mm_ser m)\<rparr>"

definition MultiMap_cacheSerializationData :: "('k, 'v) multimap \<Rightarrow> bytes \<Rightarrow> ('k, 'v) multimap" where
  "MultiMap_cacheSerializationData m data = m\<lparr>mm_ser := ser_store data (mm_ser m)\<rparr>"

text \<open>A missing key reads as the nil slice.\<close>

definition or_nil :: "'v list option \<Rightarrow> 'v list" where
  "or_nil v = (case v of None \<Rightarrow> [] | Some vs \<Rightarrow> vs)"

lemma or_nil_simps [simp]: "or_nil None = []" "or_nil (Some vs) = vs"
  by (simp_all add: or_nil_def)

primrec MultiMap_PutAll :: "('k, 'v) multimap option \<Rightarrow> 'k \<Rightarrow> 'v list \<Rightarrow> ('k, 'v) multimap option" where
  "MultiMap_PutAll None k vs = None"
| "MultiMap_PutAll (Some m0) k vs =
     (if length vs = 0 then Some m0
      else let m = MultiMap_ensureInit m0;
               current = or_nil (Map_Get (Some (mm_items m)) k)
           in Some (MultiMap_invalidateSerializationCache
                      (m\<lparr>mm_items := the (Map_Set (Some (mm_items m)) k (current @ vs)),
                         mm_count := mm_count m + int (length vs)\<rparr>)))"

definition MultiMap_Put :: "('k, 'v) multimap option \<Rightarrow> 'k \<Rightarrow> 'v \<Rightarrow> ('k, 'v) multimap option" where
  "MultiMap_Put p k v = MultiMap_PutAll p k [v]"

primrec MultiMap_Set :: "('k, 'v) multimap option \<Rightarrow> 'k \<Rightarrow> 'v list \<Rightarrow> ('k, 'v) multimap option" where
  "MultiMap_Set None k vs = None"
| "MultiMap_Set (Some m0) k vs =
     (let m = MultiMap_ensureInit m0;
          oldCount = length (or_nil (Map_Get (Some (mm_items m)) k))
      in if length vs = 0
         then let m1 = m\<lparr>mm_items := the (fst (Map_Delete (Some (mm_items m)) k)),
                         mm_count := mm_count m - int oldCount\<rparr>
              in Some (if oldCount > 0 then MultiMap_invalidateSerializationCache m1 else m1)
         else Some (MultiMap_invalidateSerializationCache
                      (m\<lparr>mm_items := the (Map_Set (Some (mm_items m)) k vs),
                         mm_count := mm_count m + (int (length vs) - int oldCount)\<rparr>)))"

primrec MultiMap_Get :: "('k, 'v) multimap option \<Rightarrow> 'k \<Rightarrow> 'v list" where
  "MultiMap_Get None k = []"
| "MultiMap_Get (Some m) k =
     (case Map_Get (Some (mm_items m)) k of
        None \<Rightarrow> [] | Some vs \<Rightarrow> if length vs = 0 then [] else vs)"

definition MultiMap_GetCopy :: "('k, 'v) multimap option \<Rightarrow> 'k \<Rightarrow> 'v list" where
  "MultiMap_GetCopy p k = (let vs = MultiMap_Get p k in if length vs = 0 then [] else vs)"

definition MultiMap_GetOption :: "('k, 'v) multimap option \<Rightarrow> 'k \<Rightarrow> 'v list option" where
  "MultiMap_GetOption p k = (let vs = MultiMap_Get p k in if length vs = 0 then None else Some vs)"

primrec MultiMap_Delete :: "('k, 'v) multimap option \<Rightarrow> 'k \<Rightarrow> ('k, 'v) multimap option \<times> bool" where
  "MultiMap_Delete None k = (None, False)"
| "MultiMap_Delete (Some m) k =
     (case Map_Get (Some (mm_items m)) k of
        None \<Rightarrow> (Some m, False)
      | Some vs \<Rightarrow>
          (Some (MultiMap_invalidateSerializationCache
                   (m\<lparr>mm_items := the (fst (Map_Delete (Some (mm_items m)) k)),
                      mm_count := mm_count m - int (length vs)\<rparr>)), True))"

text \<open>The loop that keeps the values the predicate does not match.\<close>

fun keepUnmatched :: "('v \<Rightarrow> bool) \<Rightarrow> 'v list \<Rightarrow> 'v list \<Rightarrow> 'v list" where
  "keepUnmatched P [] acc = acc"
| "keepUnmatched P (v # vs) acc = keepUnmatched P vs (if P v then acc else acc @ [v])"

fun MultiMap_DeleteValueIf ::
    "('k, 'v) multimap option \<Rightarrow> 'k \<Rightarrow> ('v \<Rightarrow> bool) option \<Rightarrow> ('k, 'v) multimap option \<times> int" where
  "MultiMap_DeleteValueIf (Some m) k (Some P) =
     (case Map_Get (Some (mm_items m)) k of
        None \<Rightarrow> (Some m, 0)
      | Some vs \<Rightarrow>
          if length vs = 0 then (Some m, 0)
          else let nxt = keepUnmatched P vs [];
                   removed = int (length vs) - int (length nxt)
               in if removed = 0 then (Some m, 0)
                  else let its = (if length nxt = 0 then fst (Map_Delete (Some (mm_items m)) k)
                                  else Map_Set (Some (mm_items m)) k nxt)
                       in (Some (MultiMap_invalidateSerializationCache
                                   (m\<lparr>mm_items := the its, mm_count := mm_count m - removed\<rparr>)), removed))"
| "MultiMap_DeleteValueIf p k _ = (p, 0)"

primrec MultiMap_ContainsKey :: "('k, 'v) multimap option \<Rightarrow> 'k \<Rightarrow> bool" where
  "MultiMap_ContainsKey None k = False"
| "MultiMap_ContainsKey (Some m) k = (Map_Get (Some (mm_items m)) k \<noteq> None)"

primrec MultiMap_Len :: "('k, 'v) multimap option \<Rightarrow> nat" where
  "MultiMap_Len None = 0"
| "MultiMap_Len (Some m) = Map_Len (Some (mm_items m))"

primrec MultiMap_ValueCount :: "('k, 'v) multimap option \<Rightarrow> int" where
  "MultiMap_ValueCount None = 0"
| "MultiMap_ValueCount (Some m) = mm_count m"

definition MultiMap_IsEmpty :: "('k, 'v) multimap option \<Rightarrow> bool" where
  "MultiMap_IsEmpty p \<longleftrightarrow> MultiMap_Len p = 0"

primrec MultiMap_Clear :: "('k, 'v) multimap option \<Rightarrow> ('k, 'v) multimap option" where
  "MultiMap_Clear None = None"
| "MultiMap_Clear (Some m) =
     Some (m\<lparr>mm_items := the (Map_Clear (Some (mm_items m))), mm_count := 0, mm_ser := ser_zero\<rparr>)"

primrec MultiMap_Keys :: "'k list \<Rightarrow> ('k, 'v) multimap option \<Rightarrow> 'k list" where
  "MultiMap_Keys ks None = []"
| "MultiMap_Keys ks (Some m) =
     (if Map_Len (Some (mm_items m)) = 0 then [] else Map_Keys ks (Some (mm_items m)))"

primrec MultiMap_All :: "'k list \<Rightarrow> ('k, 'v) multimap option \<Rightarrow> ('k, 'v list) fmap" where
  "MultiMap_All ks None = fmempty"
| "MultiMap_All ks (Some m) =
     (if Map_Len (Some (mm_items m)) = 0 then fmempty
      else Map_Range ks (Some (mm_items m)) (Some (\<lambda>out (k, vs). (fmupd k vs out, True))) fmempty)"

primrec MultiMap_Clone :: "'k list \<Rightarrow> ('k, 'v) multimap option \<Rightarrow> ('k, 'v) multimap option" where
  "MultiMap_Clone ks None = NewMultiMap"
| "MultiMap_Clone ks (Some m) =
     Map_Range ks (Some (mm_items m)) (Some (\<lambda>out (k, vs). (MultiMap_Set out k vs, True)))
       (NewMultiMapWithCapacity (int (Map_Len (Some (mm_items m)))))"

fun MultiMap_Range ::
    "'k list \<Rightarrow> ('k, 'v) multimap option \<Rightarrow> ('st \<Rightarrow> 'k \<times> 'v list \<Rightarrow> 'st \<times> bool) option \<Rightarrow> 'st \<Rightarrow> 'st" where
  "MultiMap_Range ks (Some m) (Some fn) st =
     Map_Range ks (Some (mm_items m)) (Some (\<lambda>s (k, vs). fn s (k, vs))) st"
| "MultiMap_Range ks _ _ st = st"

text \<open>\<open>source\<close> is iterated in the order \<open>ks\<close>.\<close>

definition NewMultiMapFromAll :: "'k list \<Rightarrow> ('k, 'v list) fmap \<Rightarrow> ('k, 'v) multimap option" where
  "NewMultiMapFromAll ks source =
     foldl (\<lambda>out (k, vs). MultiMap_Set out k vs) (NewMultiMapWithCapacity (int (fm_size source)))
       (fm_entries ks source)"

subsection \<open>Chain operations\<close>

text \<open>The two lines that put a key's slice into the result of a chain operation.\<close>

definition mm_keep :: "('k, 'v) multimap option \<Rightarrow> 'k \<Rightarrow> 'v list \<Rightarrow> ('k, 'v) multimap option" where
  "mm_keep p k vs =
     map_option (\<lambda>m. m\<lparr>mm_items := the (Map_Set (Some (mm_items m)) k vs),
                       mm_count := mm_count m + int (length vs)\<rparr>) p"

fun MultiMap_WhereKeys ::
    "'k list \<Rightarrow> ('k, 'v) multimap option \<Rightarrow> ('k \<Rightarrow> 'v list \<Rightarrow> bool) option \<Rightarrow> ('k, 'v) multimap option" where
  "MultiMap_WhereKeys ks (Some m) (Some P) =
     (if Map_Len (Some (mm_items m)) = 0 then NewMultiMap
      else Map_Range ks (Some (mm_items m))
             (Some (\<lambda>filtered (k, vs). (if P k vs then mm_keep filtered k vs else filtered, True)))
             (NewMultiMapWithCapacity (int (Map_Len (Some (mm_items m))))))"
| "MultiMap_WhereKeys ks _ _ = NewMultiMap"

fun MultiMap_RejectKeys ::
    "'k list \<Rightarrow> ('k, 'v) multimap option \<Rightarrow> ('k \<Rightarrow> 'v list \<Rightarrow> bool) option \<Rightarrow> ('k, 'v) multimap option" where
  "MultiMap_RejectKeys ks (Some m) (Some P) =
     (if Map_Len (Some (mm_items m)) = 0 then NewMultiMap
      else Map_Range ks (Some (mm_items m))
             (Some (\<lambda>rejected (k, vs). (if \<not> P k vs then mm_keep rejected k vs else rejected, True)))
             (NewMultiMapWithCapacity (int (Map_Len (Some (mm_items m))))))"
| "MultiMap_RejectKeys ks _ _ = NewMultiMap"

fun MultiMap_WhereValues ::
    "('v, 'st) mm_lo \<Rightarrow> 'k list \<Rightarrow> ('k, 'v) multimap option \<Rightarrow> ('k \<Rightarrow> 'v \<Rightarrow> bool) option
     \<Rightarrow> ('k, 'v) multimap option" where
  "MultiMap_WhereValues E ks (Some m) (Some P) =
     (if Map_Len (Some (mm_items m)) = 0 then NewMultiMap
      else Map_Range ks (Some (mm_items m))
             (Some (\<lambda>filtered (k, vs).
                let matching = ml_Filter E vs (\<lambda>v _. P k v)
                in (if length matching > 0 then mm_keep filtered k matching else filtered, True)))
             (NewMultiMapWithCapacity (int (Map_Len (Some (mm_items m))))))"
| "MultiMap_WhereValues E ks _ _ = NewMultiMap"

fun MultiMap_RejectValues ::
    "('v, 'st) mm_lo \<Rightarrow> 'k list \<Rightarrow> ('k, 'v) multimap option \<Rightarrow> ('k \<Rightarrow> 'v \<Rightarrow> bool) option
     \<Rightarrow> ('k, 'v) multimap option" where
  "MultiMap_RejectValues E ks (Some m) (Some P) =
     (if Map_Len (Some (mm_items m)) = 0 then NewMultiMap
      else Map_Range ks (Some (mm_items m))
             (Some (\<lambda>rejected (k, vs).
                let remaining = ml_Reject E vs (\<lambda>v _. P k v)
                in (if length remaining > 0 then mm_keep rejected k remaining else rejected, True)))
             (NewMultiMapWithCapacity (int (Map_Len (Some (mm_items m))))))"
| "MultiMap_RejectValues E ks _ _ = NewMultiMap"

fun MultiMap_EachKey ::
    "'k list \<Rightarrow> ('k, 'v) multimap option \<Rightarrow> ('st \<Rightarrow> 'k \<Rightarrow> 'v list \<Rightarrow> 'st) option \<Rightarrow> 'st
     \<Rightarrow> 'st \<times> ('k, 'v) multimap option" where
  "MultiMap_EachKey ks None fn st = (st, NewMultiMap)"
| "MultiMap_EachKey ks (Some m) None st = (st, Some m)"
| "MultiMap_EachKey ks (Some m) (Some fn) st =
     (Map_Range ks (Some (mm_items m)) (Some (\<lambda>s (k, vs). (fn s k vs, True))) st, Some m)"

fun MultiMap_EachValue ::
    "('v, 'st) mm_lo \<Rightarrow> 'k list \<Rightarrow> ('k, 'v) multimap option \<Rightarrow> ('st \<Rightarrow> 'k \<Rightarrow> 'v \<Rightarrow> 'st) option \<Rightarrow> 'st
     \<Rightarrow> 'st \<times> ('k, 'v) multimap option" where
  "MultiMap_EachValue E ks None fn st = (st, NewMultiMap)"
| "MultiMap_EachValue E ks (Some m) None st = (st, Some m)"
| "MultiMap_EachValue E ks (Some m) (Some fn) st =
     (Map_Range ks (Some (mm_items m)) (Some (\<lambda>s (k, vs). (ml_ForEach E vs (\<lambda>s' v _. fn s' k v) s, True))) st, Some m)"

fun MultiMap_FirstValueWhere ::
    "('v, 'st) mm_lo \<Rightarrow> 'k list \<Rightarrow> ('k, 'v) multimap option \<Rightarrow> ('k \<Rightarrow> 'v \<Rightarrow> bool) option \<Rightarrow> ('k \<times> 'v) option" where
  "MultiMap_FirstValueWhere E ks (Some m) (Some P) =
     (if Map_Len (Some (mm_items m)) = 0 then None
      else Map_Range ks (Some (mm_items m))
             (Some (\<lambda>found (k, vs). (case ml_Find E vs (P k) of
                                       Some v \<Rightarrow> (Some (k, v), False) | None \<Rightarrow> (found, True)))) None)"
| "MultiMap_FirstValueWhere E ks _ _ = None"

definition MultiMap_AnyValueMatch ::
    "('v, 'st) mm_lo \<Rightarrow> 'k list \<Rightarrow> ('k, 'v) multimap option \<Rightarrow> ('k \<Rightarrow> 'v \<Rightarrow> bool) option \<Rightarrow> bool" where
  "MultiMap_AnyValueMatch E ks p P = (case MultiMap_FirstValueWhere E ks p P of None \<Rightarrow> False | Some _ \<Rightarrow> True)"

fun MultiMap_AllValuesMatch ::
    "('v, 'st) mm_lo \<Rightarrow> 'k list \<Rightarrow> ('k, 'v) multimap option \<Rightarrow> ('k \<Rightarrow> 'v \<Rightarrow> bool) option \<Rightarrow> bool" where
  "MultiMap_AllValuesMatch E ks (Some m) (Some P) =
     (if mm_count m = 0 then False
      else Map_Range ks (Some (mm_items m))
             (Some (\<lambda>matched (k, vs). if ml_EveryBy E vs (P k) then (matched, True) else (False, False))) True)"
| "MultiMap_AllValuesMatch E ks _ _ = False"

primrec MultiMap_FlattenValues :: "'k list \<Rightarrow> ('k, 'v) multimap option \<Rightarrow> 'v glist option" where
  "MultiMap_FlattenValues ks None = NewList []"
| "MultiMap_FlattenValues ks (Some m) =
     (if mm_count m = 0 then NewList []
      else Map_Range ks (Some (mm_items m)) (Some (\<lambda>flattened (k, vs). (List_MergeSlice flattened vs, True)))
             (NewListWithCapacity (mm_count m) []))"

subsection \<open>JSON\<close>

primrec MultiMap_ToJSON ::
    "('k, 'v list) fmap json_marshal \<Rightarrow> 'k list \<Rightarrow> ('k, 'v) multimap option
     \<Rightarrow> ('k, 'v) multimap option \<times> (string + bytes)" where
  "MultiMap_ToJSON marshal ks None = (None, marshalMappingJSON marshal (MultiMap_All ks None) ''multimap'')"
| "MultiMap_ToJSON marshal ks (Some m) =
     (case (jsonDirty (mm_ser m), jsonCache (mm_ser m)) of
        (False, Some d) \<Rightarrow> (Some m, Inr d)
      | _ \<Rightarrow>
         (case marshalMappingJSON marshal (MultiMap_All ks (Some m)) ''multimap'' of
            Inl err \<Rightarrow> (Some m, Inl err)
          | Inr d \<Rightarrow> (Some (MultiMap_cacheSerializationData m d), Inr d)))"

definition MultiMap_MarshalJSON ::
    "string + bytes \<Rightarrow> ('k, 'v list) fmap json_marshal \<Rightarrow> 'k list \<Rightarrow> ('k, 'v) multimap option
     \<Rightarrow> ('k, 'v) multimap option \<times> (string + bytes)" where
  "MultiMap_MarshalJSON n marshal ks p =
     (case MultiMap_ToJSON marshal ks p of (q, r) \<Rightarrow> (q, forwardMappingJSON n (\<lambda>_. r) ''multimap''))"

definition MultiMap_String ::
    "('k, 'v list) fmap json_marshal \<Rightarrow> 'k list \<Rightarrow> ('k, 'v) multimap option
     \<Rightarrow> ('k, 'v) multimap option \<times> string" where
  "MultiMap_String marshal ks p =
     (case p of
        Some m \<Rightarrow>
          if \<not> jsonDirty (mm_ser m) \<and> stringCache (mm_ser m) \<noteq> [] then (p, stringCache (mm_ser m))
          else (case MultiMap_ToJSON marshal ks p of (q, r) \<Rightarrow> (q, JSONResultString r ''{}''))
      | None \<Rightarrow> (case MultiMap_ToJSON marshal ks p of (q, r) \<Rightarrow> (q, JSONResultString r ''{}'')))"

subsection \<open>Content and count\<close>

text \<open>The content of a multimap is a finite map to non-empty lists; \<open>mm_total\<close> counts its values.\<close>

definition mm_map :: "('k, 'v) multimap \<Rightarrow> ('k, 'v list) fmap" where
  "mm_map m = gm_map (mm_items m)"

definition mm_total :: "('k, 'v list) fmap \<Rightarrow> nat" where
  "mm_total f = (\<Sum>k\<in>fmdom' f. length (or_nil (fmlookup f k)))"

definition mm_proper :: "('k, 'v list) fmap \<Rightarrow> bool" where
  "mm_proper f \<longleftrightarrow> (\<forall>k. fmlookup f k \<noteq> Some [])"

definition mm_counted :: "('k, 'v) multimap \<Rightarrow> bool" where
  "mm_counted m \<longleftrightarrow> mm_proper (mm_map m) \<and> mm_count m = int (mm_total (mm_map m))"

lemma mm_total_remove:
  "mm_total f = length (or_nil (fmlookup f k)) + mm_total (fmdrop k f)"
proof (cases "fmlookup f k")
  case None
  then show ?thesis by (simp add: fmdrop_idle fmlookup_dom_iff)
next
  case (Some vs)
  then have k: "k \<in> fmdom' f" by (simp add: fmlookup_dom'_iff)
  have "(\<Sum>j\<in>fmdom' f - {k}. length (or_nil (fmlookup f j)))
      = (\<Sum>j\<in>fmdom' f - {k}. length (or_nil (fmlookup (fmdrop k f) j)))"
    by (rule sum.cong) auto
  with sum.remove [OF finite_fmdom' k, of "\<lambda>j. length (or_nil (fmlookup f j))"] show ?thesis
    by (simp only: mm_total_def fmdom'_drop)
qed

lemma fmdrop_fmupd_same_key: "fmdrop k (fmupd k v f) = fmdrop k f"
  by (rule fmap_ext) simp

lemma mm_total_simps [simp]:
  "mm_total fmempty = 0"
  "mm_total (fmupd k vs f) = length vs + mm_total (fmdrop k f)"
  by (simp add: mm_total_def)
    (simp add: mm_total_remove [of "fmupd k vs f" k] fmdrop_fmupd_same_key)

lemma mm_total_drop: "int (mm_total (fmdrop k f)) = int (mm_total f) - int (length (or_nil (fmlookup f k)))"
  using mm_total_remove [of f k] by linarith

lemma mm_proper_simps [simp]:
  "mm_proper fmempty" "vs \<noteq> [] \<Longrightarrow> mm_proper f \<Longrightarrow> mm_proper (fmupd k vs f)"
  "mm_proper f \<Longrightarrow> mm_proper (fmdrop k f)" "mm_proper f \<Longrightarrow> mm_proper (fmfilter P f)"
  by (simp_all add: mm_proper_def)

lemma mm_map_simps [simp]:
  "mm_map (MultiMap_invalidateSerializationCache m) = mm_map m"
  "mm_map (MultiMap_ensureInit m) = mm_map m"
  "mm_count (MultiMap_invalidateSerializationCache m) = mm_count m"
  "mm_count (MultiMap_ensureInit m) = mm_count m"
  "mm_map (m\<lparr>mm_items := g\<rparr>) = gm_map g"
  "mm_map (m\<lparr>mm_count := c\<rparr>) = mm_map m"
  "mm_map (m\<lparr>mm_ser := r\<rparr>) = mm_map m"
  "gm_map (mm_items m) = mm_map m"
  by (simp_all add: mm_map_def MultiMap_invalidateSerializationCache_def MultiMap_ensureInit_def)

lemma mm_total_zero: "mm_proper f \<Longrightarrow> mm_total f = 0 \<longleftrightarrow> f = fmempty"
proof
  assume p: "mm_proper f" and z: "mm_total f = 0"
  have "fmlookup f k = None" for k
    using p mm_total_remove [of f k] z by (cases "fmlookup f k") (auto simp: mm_proper_def)
  then show "f = fmempty" by (intro fmap_ext) simp
qed simp

text \<open>What a chain operation selects: each key's list through \<open>g\<close>, empty lists dropped.\<close>

definition mm_select :: "('k \<Rightarrow> 'v list \<Rightarrow> 'v list) \<Rightarrow> ('k, 'v list) fmap \<Rightarrow> ('k, 'v list) fmap" where
  "mm_select g f = fmfilter (\<lambda>k. g k (or_nil (fmlookup f k)) \<noteq> []) (fmmap_keys g f)"

lemma mm_select_lookup:
  "fmlookup (mm_select g f) x
   = (case fmlookup f x of None \<Rightarrow> None | Some vs \<Rightarrow> if g x vs = [] then None else Some (g x vs))"
  by (simp add: mm_select_def split: option.split)

lemma mm_select_proper [simp]: "mm_proper (mm_select g f)"
  by (simp add: mm_proper_def mm_select_lookup split: option.splits)

lemma map_of_map_keys: "map_of (map (\<lambda>(k, v). (k, g k v)) es) x = map_option (g x) (map_of es x)"
  by (induction es) auto

text \<open>The values in the order of iteration, with their keys.\<close>

definition mm_pairs :: "'k list \<Rightarrow> ('k, 'v list) fmap \<Rightarrow> ('k \<times> 'v) list" where
  "mm_pairs ks f = concat (map (\<lambda>(k, vs). map (Pair k) vs) (fm_entries ks f))"

lemma mm_keep_fold:
  fixes m :: "('k, 'v) multimap"
  assumes "distinct (map fst es)" and "\<And>k. k \<in> fst ` set es \<Longrightarrow> fmlookup (mm_map m) k = None" and "mm_counted m"
  shows "\<exists>m'. foldl (\<lambda>out (k, w). if w \<noteq> [] then mm_keep out k w else out) (Some m) es = Some m' \<and> mm_counted m'
           \<and> mm_map m' = foldl (\<lambda>f (k, w). if w \<noteq> [] then fmupd k w f else f) (mm_map m) es"
  using assms
proof (induction es arbitrary: m)
  case (Cons e es)
  obtain k w where e: "e = (k, w)" by fastforce
  let ?m = "if w \<noteq> [] then the (mm_keep (Some m) k w) else m"
  have new: "fmlookup (mm_map m) k = None" using Cons.prems(2) e by simp
  then have drp: "fmdrop k (mm_map m) = mm_map m" by (simp add: fmdrop_idle fmlookup_dom_iff)
  have "mm_counted ?m" using Cons.prems(3) drp by (auto simp: mm_counted_def mm_keep_def)
  moreover have "mm_map ?m = (if w \<noteq> [] then fmupd k w (mm_map m) else mm_map m)"
    by (simp add: mm_keep_def)
  moreover have "fmlookup (mm_map ?m) j = None" if "j \<in> fst ` set es" for j
    using that Cons.prems(1,2) e calculation(2) by auto
  moreover have "(if w \<noteq> [] then mm_keep (Some m) k w else Some m) = Some ?m"
    by (simp add: mm_keep_def)
  ultimately show ?case using Cons.IH [of ?m] Cons.prems(1) e by simp
qed simp

lemma mm_new: "\<exists>m. NewMultiMapWithCapacity n = Some m \<and> mm_counted m \<and> mm_map m = fmempty \<and> mm_ser m = ser_zero"
  by (simp add: NewMultiMapWithCapacity_def mm_counted_def mm_zero_def mm_map_def NewMapWithCapacity_def gm_map_def gm_zero_def)

lemma mm_range_split:
  "Map_Range ks (Some g) (Some (\<lambda>out (k, vs). (F out k vs, True))) st
   = foldl (\<lambda>out (k, vs). F out k vs) st (fm_entries ks (gm_map g))"
proof -
  have "(\<lambda>out (k, vs). (F out k vs, True)) = (\<lambda>out e. ((\<lambda>out (k, vs). F out k vs) out e, True))"
    by (auto simp: fun_eq_iff)
  then show ?thesis by (simp add: gm_map_def)
qed

lemma mm_select_fold:
  fixes f :: "('k, 'v list) fmap"
  assumes it: "iterates ks f"
  shows "\<exists>m'. foldl (\<lambda>out (k, vs). if g k vs \<noteq> [] then mm_keep out k (g k vs) else out)
             (NewMultiMapWithCapacity n) (fm_entries ks f) = Some m'
           \<and> mm_counted m' \<and> mm_map m' = mm_select g f"
proof -
  let ?es = "map (\<lambda>(k, vs). (k, g k vs)) (fm_entries ks f)"
  obtain m :: "('k, 'v) multimap" where m: "NewMultiMapWithCapacity n = Some m" "mm_counted m" "mm_map m = fmempty"
    using mm_new by blast
  have keys: "map fst ?es = ks" using fm_entries_iterates(1) [OF it] by (simp add: case_prod_beta comp_def)
  then have d: "distinct (map fst ?es)" using it by (simp add: iterates_def)
  have fold: "foldl (\<lambda>out (k, vs). if g k vs \<noteq> [] then mm_keep out k (g k vs) else out) z (fm_entries ks f)
      = foldl (\<lambda>out (k, w). if w \<noteq> [] then mm_keep out k w else out) z ?es" for z
    by (simp add: foldl_map case_prod_unfold cong: if_cong)
  obtain m' where m': "foldl (\<lambda>out (k, w). if w \<noteq> [] then mm_keep out k w else out) (Some m) ?es = Some m'"
      "mm_counted m'" "mm_map m' = foldl (\<lambda>f (k, w). if w \<noteq> [] then fmupd k w f else f) fmempty ?es"
    using mm_keep_fold [OF d _ m(2)] m(3) by auto
  have look: "fmlookup (mm_map m') x
      = (case map_of ?es x of None \<Rightarrow> None | Some w \<Rightarrow> if w \<noteq> [] then Some w else None)" for x
    using foldl_fmupd_lookup [OF d, of "\<lambda>k w. w \<noteq> []" fmempty x] unfolding m'(3) fmempty_lookup .
  have "mm_map m' = mm_select g f"
    by (rule fmap_ext)
      (simp add: look map_of_map_keys map_of_fm_entries [OF it] mm_select_lookup split: option.split)
  then show ?thesis using m(1) m'(1,2) fold [of "Some m"] by auto
qed

lemma mm_all_fold:
  assumes it: "iterates ks f"
  shows "foldl (\<lambda>out (k, vs). fmupd k vs out) fmempty (fm_entries ks f) = f"
proof (rule fmap_ext)
  fix x
  have "distinct (map fst (fm_entries ks f))" using it fm_entries_iterates(1) [OF it] by (simp add: iterates_def)
  then show "fmlookup (foldl (\<lambda>out (k, vs). fmupd k vs out) fmempty (fm_entries ks f)) x = fmlookup f x"
    using foldl_fmupd_lookup [of "fm_entries ks f" "\<lambda>_ _. True" fmempty x] map_of_fm_entries [OF it]
    by (simp split: option.splits)
qed

lemma MultiMap_All_eq: "iterates ks (mm_map m) \<Longrightarrow> MultiMap_All ks (Some m) = mm_map m"
  by (simp add: mm_range_split mm_all_fold del: Map_Range.simps)

subsection \<open>The state after each operation\<close>

lemma MultiMap_Set_map:
  assumes "mm_counted m"
  shows "\<exists>m'. MultiMap_Set (Some m) k vs = Some m' \<and> mm_counted m'
           \<and> mm_map m' = (if vs = [] then fmdrop k (mm_map m) else fmupd k vs (mm_map m))
           \<and> (mm_ser m' = ser_invalidate (mm_ser m) \<or> mm_ser m' = mm_ser m \<and> mm_map m' = mm_map m)"
proof (cases "vs = []")
  case True
  have "fmdrop k (mm_map m) = mm_map m" if "length (or_nil (fmlookup (mm_map m) k)) = 0"
    using that assms by (cases "fmlookup (mm_map m) k") (auto simp: mm_counted_def mm_proper_def fmdrop_idle fmlookup_dom_iff)
  with True assms show ?thesis
    by (auto simp: Let_def mm_counted_def mm_total_drop MultiMap_invalidateSerializationCache_def MultiMap_ensureInit_def)
next
  case False
  with assms show ?thesis
    by (auto simp: Let_def mm_counted_def mm_total_drop MultiMap_invalidateSerializationCache_def MultiMap_ensureInit_def)
qed

lemma MultiMap_PutAll_map:
  assumes "mm_counted m"
  shows "\<exists>m'. MultiMap_PutAll (Some m) k vs = Some m' \<and> mm_counted m'
           \<and> mm_map m' = (if vs = [] then mm_map m else fmupd k (or_nil (fmlookup (mm_map m) k) @ vs) (mm_map m))
           \<and> (mm_ser m' = ser_invalidate (mm_ser m) \<or> mm_ser m' = mm_ser m \<and> mm_map m' = mm_map m)"
  using assms
  by (auto simp: Let_def mm_counted_def mm_total_drop MultiMap_invalidateSerializationCache_def MultiMap_ensureInit_def)

lemma MultiMap_Delete_map:
  assumes "mm_counted m"
  shows "\<exists>m'. MultiMap_Delete (Some m) k = (Some m', fmlookup (mm_map m) k \<noteq> None) \<and> mm_counted m'
           \<and> mm_map m' = fmdrop k (mm_map m)
           \<and> (mm_ser m' = ser_invalidate (mm_ser m) \<or> mm_ser m' = mm_ser m \<and> mm_map m' = mm_map m)"
  using assms
  by (cases "fmlookup (mm_map m) k")
    (auto simp: mm_counted_def mm_total_drop MultiMap_invalidateSerializationCache_def fmdrop_idle fmlookup_dom_iff)

lemma keepUnmatched_filter: "keepUnmatched P vs acc = acc @ filter (\<lambda>v. \<not> P v) vs"
  by (induction vs arbitrary: acc) auto

lemma filter_none_matched: "length (filter (\<lambda>v. \<not> P v) vs) = length vs \<longleftrightarrow> filter (\<lambda>v. \<not> P v) vs = vs"
  by (metis filter_True length_filter_less less_irrefl)

lemma MultiMap_DeleteValueIf_map:
  fixes m :: "('k, 'v) multimap" and k :: 'k and P :: "'v \<Rightarrow> bool"
  assumes "mm_counted m"
  defines "old \<equiv> or_nil (fmlookup (mm_map m) k)"
  defines "new \<equiv> filter (\<lambda>v. \<not> P v) old"
  shows "\<exists>m'. MultiMap_DeleteValueIf (Some m) k (Some P) = (Some m', int (length old) - int (length new)) \<and> mm_counted m'
           \<and> mm_map m' = (if new = [] then fmdrop k (mm_map m) else fmupd k new (mm_map m))
           \<and> (mm_ser m' = ser_invalidate (mm_ser m) \<or> mm_ser m' = mm_ser m \<and> mm_map m' = mm_map m)"
proof (cases "fmlookup (mm_map m) k")
  case None
  then show ?thesis using assms(1) by (auto simp: old_def new_def fmdrop_idle fmlookup_dom_iff)
next
  case (Some vs)
  then have ne: "vs \<noteq> []" using assms(1) by (auto simp: mm_counted_def mm_proper_def)
  have old: "old = vs" by (simp add: old_def Some)
  show ?thesis
  proof (cases "length new = length vs")
    case True
    then have "new = vs" by (simp add: new_def old filter_none_matched)
    then have "fmupd k new (mm_map m) = mm_map m" using Some by (intro fmap_ext) auto
    with True \<open>new = vs\<close> ne assms(1) Some show ?thesis
      by (simp add: keepUnmatched_filter old new_def)
  next
    case False
    with ne assms(1) Some show ?thesis
      by (auto simp: keepUnmatched_filter old new_def Let_def mm_counted_def mm_total_drop
          MultiMap_invalidateSerializationCache_def)
  qed
qed

subsection \<open>Over any history a finite map to non-empty lists\<close>

text \<open>Calls that iterate carry the order in which the language visits the map they meet.\<close>

type_synonym ('k, 'v) visit = "('k, 'v list) fmap \<Rightarrow> 'k list"

definition visit_ok :: "('k, 'v) visit \<Rightarrow> bool" where
  "visit_ok ord \<longleftrightarrow> (\<forall>f. iterates (ord f) f)"

datatype (dead 'k, dead 'v, dead 'st) mm_op =
    MmPut 'k 'v | MmPutAll 'k "'v list" | MmSet 'k "'v list" | MmGet 'k | MmGetCopy 'k | MmGetOption 'k
  | MmDelete 'k | MmDeleteValueIf 'k "('v \<Rightarrow> bool) option" | MmContainsKey 'k | MmLen | MmValueCount
  | MmIsEmpty | MmClear | MmKeys "('k, 'v) visit" | MmAll "('k, 'v) visit" | MmClone "('k, 'v) visit"
  | MmRange "('k, 'v) visit" "'st \<Rightarrow> 'k \<times> 'v list \<Rightarrow> 'st \<times> bool" 'st
  | MmWhereKeys "('k, 'v) visit" "'k \<Rightarrow> 'v list \<Rightarrow> bool" | MmRejectKeys "('k, 'v) visit" "'k \<Rightarrow> 'v list \<Rightarrow> bool"
  | MmWhereValues "('k, 'v) visit" "'k \<Rightarrow> 'v \<Rightarrow> bool" | MmRejectValues "('k, 'v) visit" "'k \<Rightarrow> 'v \<Rightarrow> bool"
  | MmEachKey "('k, 'v) visit" "'st \<Rightarrow> 'k \<Rightarrow> 'v list \<Rightarrow> 'st" 'st
  | MmEachValue "('k, 'v) visit" "'st \<Rightarrow> 'k \<Rightarrow> 'v \<Rightarrow> 'st" 'st
  | MmFirstValueWhere "('k, 'v) visit" "'k \<Rightarrow> 'v \<Rightarrow> bool" | MmAnyValueMatch "('k, 'v) visit" "'k \<Rightarrow> 'v \<Rightarrow> bool"
  | MmAllValuesMatch "('k, 'v) visit" "'k \<Rightarrow> 'v \<Rightarrow> bool" | MmFlattenValues "('k, 'v) visit"
  | MmToJSON "('k, 'v) visit" | MmString "('k, 'v) visit"

datatype (dead 'k, dead 'v, dead 'st) mm_res =
    MmUnit | MmVals "'v list" | MmOpt "'v list option" | MmBool bool | MmInt int | MmKeyList "'k list"
  | MmMap "('k, 'v list) fmap" | MmMulti "('k, 'v list) fmap \<times> int" | MmState 'st | MmPair "('k \<times> 'v) option"
  | MmBytes "string + bytes" | MmText string

fun mm_ok :: "('k, 'v, 'st) mm_op \<Rightarrow> bool" where
  "mm_ok (MmKeys ord) = visit_ok ord"
| "mm_ok (MmAll ord) = visit_ok ord"
| "mm_ok (MmClone ord) = visit_ok ord"
| "mm_ok (MmRange ord fn st) = visit_ok ord"
| "mm_ok (MmWhereKeys ord P) = visit_ok ord"
| "mm_ok (MmRejectKeys ord P) = visit_ok ord"
| "mm_ok (MmWhereValues ord Q) = visit_ok ord"
| "mm_ok (MmRejectValues ord Q) = visit_ok ord"
| "mm_ok (MmEachKey ord fn st) = visit_ok ord"
| "mm_ok (MmEachValue ord gn st) = visit_ok ord"
| "mm_ok (MmFirstValueWhere ord Q) = visit_ok ord"
| "mm_ok (MmAnyValueMatch ord Q) = visit_ok ord"
| "mm_ok (MmAllValuesMatch ord Q) = visit_ok ord"
| "mm_ok (MmFlattenValues ord) = visit_ok ord"
| "mm_ok (MmToJSON ord) = visit_ok ord"
| "mm_ok (MmString ord) = visit_ok ord"
| "mm_ok _ = True"

definition mm_abs :: "('k, 'v) multimap option \<Rightarrow> ('k, 'v list) fmap" where
  "mm_abs p = (case p of None \<Rightarrow> fmempty | Some m \<Rightarrow> mm_map m)"

text \<open>What the caller sees of a returned multimap: its content and its value count.\<close>

definition mm_view :: "('k, 'v) multimap option \<Rightarrow> ('k, 'v list) fmap \<times> int" where
  "mm_view p = (mm_abs p, MultiMap_ValueCount p)"

primrec mm_step ::
    "('v, 'st) mm_lo \<Rightarrow> ('k, 'v list) fmap json_marshal \<Rightarrow> ('k, 'v, 'st) mm_op \<Rightarrow> ('k, 'v) multimap option
     \<Rightarrow> ('k, 'v) multimap option \<times> ('k, 'v, 'st) mm_res" where
  "mm_step E marshal (MmPut k v) p = (MultiMap_Put p k v, MmUnit)"
| "mm_step E marshal (MmPutAll k vs) p = (MultiMap_PutAll p k vs, MmUnit)"
| "mm_step E marshal (MmSet k vs) p = (MultiMap_Set p k vs, MmUnit)"
| "mm_step E marshal (MmGet k) p = (p, MmVals (MultiMap_Get p k))"
| "mm_step E marshal (MmGetCopy k) p = (p, MmVals (MultiMap_GetCopy p k))"
| "mm_step E marshal (MmGetOption k) p = (p, MmOpt (MultiMap_GetOption p k))"
| "mm_step E marshal (MmDelete k) p = map_prod id MmBool (MultiMap_Delete p k)"
| "mm_step E marshal (MmDeleteValueIf k pr) p = map_prod id MmInt (MultiMap_DeleteValueIf p k pr)"
| "mm_step E marshal (MmContainsKey k) p = (p, MmBool (MultiMap_ContainsKey p k))"
| "mm_step E marshal MmLen p = (p, MmInt (int (MultiMap_Len p)))"
| "mm_step E marshal MmValueCount p = (p, MmInt (MultiMap_ValueCount p))"
| "mm_step E marshal MmIsEmpty p = (p, MmBool (MultiMap_IsEmpty p))"
| "mm_step E marshal MmClear p = (MultiMap_Clear p, MmUnit)"
| "mm_step E marshal (MmKeys ord) p = (p, MmKeyList (MultiMap_Keys (ord (mm_abs p)) p))"
| "mm_step E marshal (MmAll ord) p = (p, MmMap (MultiMap_All (ord (mm_abs p)) p))"
| "mm_step E marshal (MmClone ord) p = (p, MmMulti (mm_view (MultiMap_Clone (ord (mm_abs p)) p)))"
| "mm_step E marshal (MmRange ord fn st) p = (p, MmState (MultiMap_Range (ord (mm_abs p)) p (Some fn) st))"
| "mm_step E marshal (MmWhereKeys ord P) p = (p, MmMulti (mm_view (MultiMap_WhereKeys (ord (mm_abs p)) p (Some P))))"
| "mm_step E marshal (MmRejectKeys ord P) p = (p, MmMulti (mm_view (MultiMap_RejectKeys (ord (mm_abs p)) p (Some P))))"
| "mm_step E marshal (MmWhereValues ord Q) p = (p, MmMulti (mm_view (MultiMap_WhereValues E (ord (mm_abs p)) p (Some Q))))"
| "mm_step E marshal (MmRejectValues ord Q) p = (p, MmMulti (mm_view (MultiMap_RejectValues E (ord (mm_abs p)) p (Some Q))))"
| "mm_step E marshal (MmEachKey ord fn st) p =
     (case MultiMap_EachKey (ord (mm_abs p)) p (Some fn) st of (st', q) \<Rightarrow> (q, MmState st'))"
| "mm_step E marshal (MmEachValue ord gn st) p =
     (case MultiMap_EachValue E (ord (mm_abs p)) p (Some gn) st of (st', q) \<Rightarrow> (q, MmState st'))"
| "mm_step E marshal (MmFirstValueWhere ord Q) p = (p, MmPair (MultiMap_FirstValueWhere E (ord (mm_abs p)) p (Some Q)))"
| "mm_step E marshal (MmAnyValueMatch ord Q) p = (p, MmBool (MultiMap_AnyValueMatch E (ord (mm_abs p)) p (Some Q)))"
| "mm_step E marshal (MmAllValuesMatch ord Q) p = (p, MmBool (MultiMap_AllValuesMatch E (ord (mm_abs p)) p (Some Q)))"
| "mm_step E marshal (MmFlattenValues ord) p = (p, MmVals (List_Values (MultiMap_FlattenValues (ord (mm_abs p)) p)))"
| "mm_step E marshal (MmToJSON ord) p = map_prod id MmBytes (MultiMap_ToJSON marshal (ord (mm_abs p)) p)"
| "mm_step E marshal (MmString ord) p = map_prod id MmText (MultiMap_String marshal (ord (mm_abs p)) p)"

definition mm_multi :: "('k, 'v list) fmap \<Rightarrow> ('k, 'v, 'st) mm_res" where
  "mm_multi f = MmMulti (f, int (mm_total f))"

definition mm_write :: "'k \<Rightarrow> 'v list \<Rightarrow> ('k, 'v list) fmap \<Rightarrow> ('k, 'v list) fmap" where
  "mm_write k vs f = (if vs = [] then fmdrop k f else fmupd k vs f)"

primrec mm_spec ::
    "('k, 'v list) fmap json_marshal \<Rightarrow> ('k, 'v, 'st) mm_op \<Rightarrow> ('k, 'v list) fmap
     \<Rightarrow> ('k, 'v list) fmap \<times> ('k, 'v, 'st) mm_res" where
  "mm_spec marshal (MmPut k v) f = (mm_write k (or_nil (fmlookup f k) @ [v]) f, MmUnit)"
| "mm_spec marshal (MmPutAll k vs) f = (if vs = [] then f else mm_write k (or_nil (fmlookup f k) @ vs) f, MmUnit)"
| "mm_spec marshal (MmSet k vs) f = (mm_write k vs f, MmUnit)"
| "mm_spec marshal (MmGet k) f = (f, MmVals (or_nil (fmlookup f k)))"
| "mm_spec marshal (MmGetCopy k) f = (f, MmVals (or_nil (fmlookup f k)))"
| "mm_spec marshal (MmGetOption k) f = (f, MmOpt (fmlookup f k))"
| "mm_spec marshal (MmDelete k) f = (fmdrop k f, MmBool (fmlookup f k \<noteq> None))"
| "mm_spec marshal (MmDeleteValueIf k pr) f = (case pr of
     None \<Rightarrow> (f, MmInt 0)
   | Some Q \<Rightarrow> (mm_write k (filter (\<lambda>v. \<not> Q v) (or_nil (fmlookup f k))) f,
       MmInt (int (length (filter Q (or_nil (fmlookup f k)))))))"
| "mm_spec marshal (MmContainsKey k) f = (f, MmBool (fmlookup f k \<noteq> None))"
| "mm_spec marshal MmLen f = (f, MmInt (int (fm_size f)))"
| "mm_spec marshal MmValueCount f = (f, MmInt (int (mm_total f)))"
| "mm_spec marshal MmIsEmpty f = (f, MmBool (f = fmempty))"
| "mm_spec marshal MmClear f = (fmempty, MmUnit)"
| "mm_spec marshal (MmKeys ord) f = (f, MmKeyList (ord f))"
| "mm_spec marshal (MmAll ord) f = (f, MmMap f)"
| "mm_spec marshal (MmClone ord) f = (f, mm_multi f)"
| "mm_spec marshal (MmRange ord fn st) f = (f, MmState (range_until fn st (fm_entries (ord f) f)))"
| "mm_spec marshal (MmWhereKeys ord P) f = (f, mm_multi (mm_select (\<lambda>k vs. if P k vs then vs else []) f))"
| "mm_spec marshal (MmRejectKeys ord P) f = (f, mm_multi (mm_select (\<lambda>k vs. if P k vs then [] else vs) f))"
| "mm_spec marshal (MmWhereValues ord Q) f = (f, mm_multi (mm_select (\<lambda>k. filter (Q k)) f))"
| "mm_spec marshal (MmRejectValues ord Q) f = (f, mm_multi (mm_select (\<lambda>k. filter (\<lambda>v. \<not> Q k v)) f))"
| "mm_spec marshal (MmEachKey ord fn st) f =
     (f, MmState (foldl (\<lambda>s (k, vs). fn s k vs) st (fm_entries (ord f) f)))"
| "mm_spec marshal (MmEachValue ord gn st) f = (f, MmState (foldl (\<lambda>s (k, v). gn s k v) st (mm_pairs (ord f) f)))"
| "mm_spec marshal (MmFirstValueWhere ord Q) f = (f, MmPair (List.find (\<lambda>(k, v). Q k v) (mm_pairs (ord f) f)))"
| "mm_spec marshal (MmAnyValueMatch ord Q) f = (f, MmBool (\<exists>k v. v \<in> set (or_nil (fmlookup f k)) \<and> Q k v))"
| "mm_spec marshal (MmAllValuesMatch ord Q) f =
     (f, MmBool (f \<noteq> fmempty \<and> (\<forall>k v. v \<in> set (or_nil (fmlookup f k)) \<longrightarrow> Q k v)))"
| "mm_spec marshal (MmFlattenValues ord) f = (f, MmVals (map snd (mm_pairs (ord f) f)))"
| "mm_spec marshal (MmToJSON ord) f = (f, MmBytes (marshalMappingJSON marshal f ''multimap''))"
| "mm_spec marshal (MmString ord) f = (f, MmText (case marshal f of Inl _ \<Rightarrow> ''{}'' | Inr d \<Rightarrow> d))"

definition mm_inv :: "('k, 'v list) fmap json_marshal \<Rightarrow> ('k, 'v) multimap option \<Rightarrow> bool" where
  "mm_inv marshal p \<longleftrightarrow>
     (\<exists>m. p = Some m \<and> mm_counted m \<and> ser_coherent (marshalMappingJSON marshal (mm_map m) ''multimap'') (mm_ser m))"

subsection \<open>The iterating operations\<close>

lemma Map_Keys_eq: "iterates ks (gm_map g) \<Longrightarrow> Map_Keys ks (Some g) = ks"
  using fm_entries_iterates(1) [of ks "gm_map g"] foldl_snoc [of "\<lambda>k v. k" "[]" "fm_entries ks (gm_map g)"]
    length_iterates [of ks "gm_map g"]
  by (auto simp: gm_map_def case_prod_beta')

lemma MultiMap_Keys_eq: "iterates ks (mm_map m) \<Longrightarrow> MultiMap_Keys ks (Some m) = ks"
  using length_iterates [of ks "mm_map m"] by (auto simp: Map_Keys_eq simp del: Map_Keys.simps)

lemma mm_empty_iterates: "iterates ks f \<Longrightarrow> f = fmempty \<longleftrightarrow> ks = []"
  by (metis length_iterates fm_size_zero length_0_conv)

lemma mm_select_empty [simp]: "mm_select g fmempty = fmempty"
  by (rule fmap_ext) (simp add: mm_select_lookup)

lemma mm_select_view:
  fixes m :: "('k, 'v) multimap"
  assumes "iterates ks (mm_map m)" and "\<And>k vs. vs \<noteq> [] \<Longrightarrow> F k vs = (\<lambda>out. if g k vs \<noteq> [] then mm_keep out k (g k vs) else out)"
    and "mm_counted m"
  shows "mm_view (if Map_Len (Some (mm_items m)) = 0 then NewMultiMap
           else Map_Range ks (Some (mm_items m)) (Some (\<lambda>out (k, vs). (F k vs out, True)))
                  (NewMultiMapWithCapacity n))
         = (mm_select g (mm_map m), int (mm_total (mm_select g (mm_map m))))"
proof (cases "mm_map m = fmempty")
  case True
  have "mm_view (NewMultiMap :: ('k, 'v) multimap option) = (fmempty, 0)"
    using mm_new [of 0, where ?'a = 'k and ?'b = 'v]
    by (auto simp: NewMultiMap_def mm_view_def mm_abs_def mm_counted_def)
  then show ?thesis using True by simp
next
  case False
  have "foldl (\<lambda>out (k, vs). F k vs out) z (fm_entries ks (mm_map m))
      = foldl (\<lambda>out (k, vs). if g k vs \<noteq> [] then mm_keep out k (g k vs) else out) z (fm_entries ks (mm_map m))" for z
  proof (rule foldl_cong [OF refl refl])
    fix out e assume e: "e \<in> set (fm_entries ks (mm_map m))"
    obtain k vs where kv: "e = (k, vs)" by fastforce
    then have "vs \<noteq> []"
      using e fm_entries_iterates(2) [OF assms(1)] assms(3) by (auto simp: mm_counted_def mm_proper_def)
    then show "(case e of (k, vs) \<Rightarrow> F k vs out)
        = (case e of (k, vs) \<Rightarrow> if g k vs \<noteq> [] then mm_keep out k (g k vs) else out)"
      using assms(2) by (simp add: kv)
  qed
  moreover obtain m' where "foldl (\<lambda>out (k, vs). if g k vs \<noteq> [] then mm_keep out k (g k vs) else out)
      (NewMultiMapWithCapacity n) (fm_entries ks (mm_map m)) = Some m'" "mm_counted m'" "mm_map m' = mm_select g (mm_map m)"
    using mm_select_fold [OF assms(1)] by blast
  ultimately show ?thesis
    using False by (simp add: mm_range_split mm_view_def mm_abs_def mm_counted_def del: Map_Range.simps)
qed

lemma mm_chain_views:
  assumes it: "iterates ks (mm_map m)" and c: "mm_counted m" and E: "mm_lo_ok E"
  shows "MmMulti (mm_view (MultiMap_WhereKeys ks (Some m) (Some P))) = mm_multi (mm_select (\<lambda>k vs. if P k vs then vs else []) (mm_map m))"
    and "MmMulti (mm_view (MultiMap_RejectKeys ks (Some m) (Some P))) = mm_multi (mm_select (\<lambda>k vs. if P k vs then [] else vs) (mm_map m))"
    and "MmMulti (mm_view (MultiMap_WhereValues E ks (Some m) (Some Q))) = mm_multi (mm_select (\<lambda>k. filter (Q k)) (mm_map m))"
    and "MmMulti (mm_view (MultiMap_RejectValues E ks (Some m) (Some Q)))
         = mm_multi (mm_select (\<lambda>k. filter (\<lambda>v. \<not> Q k v)) (mm_map m))"
proof -
  have E': "ml_Filter E xs (\<lambda>v _. R v) = filter R xs" "ml_Reject E xs (\<lambda>v _. R v) = filter (\<lambda>v. \<not> R v) xs" for xs R
    using E by (simp_all add: mm_lo_ok_def)
  note view = mm_select_view [OF it _ c, where n = "int (fm_size (mm_map m))"]
  show "MmMulti (mm_view (MultiMap_WhereKeys ks (Some m) (Some P))) = mm_multi (mm_select (\<lambda>k vs. if P k vs then vs else []) (mm_map m))"
    using view [where F = "\<lambda>k vs out. if P k vs then mm_keep out k vs else out" and g = "\<lambda>k vs. if P k vs then vs else []"]
    by (cases "mm_map m = fmempty") (simp_all add: mm_multi_def fun_eq_iff del: Map_Range.simps)
  show "MmMulti (mm_view (MultiMap_RejectKeys ks (Some m) (Some P))) = mm_multi (mm_select (\<lambda>k vs. if P k vs then [] else vs) (mm_map m))"
    using view [where F = "\<lambda>k vs out. if \<not> P k vs then mm_keep out k vs else out" and g = "\<lambda>k vs. if P k vs then [] else vs"]
    by (cases "mm_map m = fmempty") (simp_all add: mm_multi_def fun_eq_iff del: Map_Range.simps)
  show "MmMulti (mm_view (MultiMap_WhereValues E ks (Some m) (Some Q))) = mm_multi (mm_select (\<lambda>k. filter (Q k)) (mm_map m))"
    using view [where g = "\<lambda>k. filter (Q k)", OF refl]
    by (cases "mm_map m = fmempty") (simp_all add: mm_multi_def E' Let_def del: Map_Range.simps)
  show "MmMulti (mm_view (MultiMap_RejectValues E ks (Some m) (Some Q)))
      = mm_multi (mm_select (\<lambda>k. filter (\<lambda>v. \<not> Q k v)) (mm_map m))"
    using view [where g = "\<lambda>k. filter (\<lambda>v. \<not> Q k v)", OF refl]
    by (cases "mm_map m = fmempty") (simp_all add: mm_multi_def E' Let_def del: Map_Range.simps)
qed

lemma mm_clone_fold:
  fixes m :: "('k, 'v) multimap"
  assumes "mm_counted m" and "\<forall>(k, vs) \<in> set es. vs \<noteq> []"
  shows "\<exists>m'. foldl (\<lambda>out (k, vs). MultiMap_Set out k vs) (Some m) es = Some m' \<and> mm_counted m'
           \<and> mm_map m' = foldl (\<lambda>f (k, vs). fmupd k vs f) (mm_map m) es"
  using assms
proof (induction es arbitrary: m)
  case (Cons e es)
  obtain k vs where e: "e = (k, vs)" by fastforce
  then obtain m1 where m1: "MultiMap_Set (Some m) k vs = Some m1" "mm_counted m1" "mm_map m1 = fmupd k vs (mm_map m)"
    using MultiMap_Set_map [OF Cons.prems(1), of k vs] Cons.prems(2) by auto
  from Cons.IH [OF m1(2)] Cons.prems(2) m1 show ?case by (simp add: e del: MultiMap_Set.simps)
qed simp

lemma mm_clone_view:
  fixes m :: "('k, 'v) multimap"
  assumes it: "iterates ks (mm_map m)" and c: "mm_counted m"
  shows "MmMulti (mm_view (MultiMap_Clone ks (Some m))) = mm_multi (mm_map m)"
proof -
  obtain n :: "('k, 'v) multimap"
    where n: "NewMultiMapWithCapacity (int (fm_size (mm_map m))) = Some n" "mm_counted n" "mm_map n = fmempty"
    using mm_new by blast
  have ne: "\<forall>(k, vs) \<in> set (fm_entries ks (mm_map m)). vs \<noteq> []"
    using fm_entries_iterates(2) [OF it] c by (auto simp: mm_counted_def mm_proper_def)
  obtain m' where "foldl (\<lambda>out (k, vs). MultiMap_Set out k vs) (Some n) (fm_entries ks (mm_map m)) = Some m'"
      "mm_counted m'" "mm_map m' = mm_map m"
    using mm_clone_fold [OF n(2) ne] unfolding n(3) mm_all_fold [OF it] by blast
  then show ?thesis
    using n(1) by (simp add: mm_range_split mm_view_def mm_abs_def mm_counted_def mm_multi_def del: Map_Range.simps MultiMap_Set.simps)
qed

lemma mm_find_range:
  "range_until (\<lambda>found (k, vs). case List.find (Q k) vs of Some v \<Rightarrow> (Some (k, v), False) | None \<Rightarrow> (found, True)) acc es
   = (case List.find (\<lambda>(k, v). Q k v) (concat (map (\<lambda>(k, vs). map (Pair k) vs) es)) of None \<Rightarrow> acc | Some kv \<Rightarrow> Some kv)"
proof (induction es)
  case (Cons e es)
  obtain k vs where e: "e = (k, vs)" by fastforce
  have "List.find (\<lambda>(k, v). Q k v) (map (Pair k) vs @ rest)
      = (case List.find (Q k) vs of Some v \<Rightarrow> Some (k, v) | None \<Rightarrow> List.find (\<lambda>(k, v). Q k v) rest)" for rest
    by (induction vs) auto
  with Cons.IH show ?case by (simp add: e split: option.split)
qed simp

lemma mm_pairs_set:
  assumes "iterates ks f"
  shows "set (mm_pairs ks f) = {(k, v). v \<in> set (or_nil (fmlookup f k))}"
proof -
  have "(k, v) \<in> set (mm_pairs ks f) \<longleftrightarrow> v \<in> set (or_nil (fmlookup f k))" for k v
    using fm_entries_iterates(2) [OF assms] by (cases "fmlookup f k") (auto simp: mm_pairs_def)
  then show ?thesis by auto
qed

lemma List_Values_sl: "List_Values (Some l) = sl (li_items l)"
  by simp

lemma mm_flatten_fold:
  "\<exists>l'. foldl (\<lambda>out (k, vs). List_MergeSlice out vs) (Some l) es = Some l'
      \<and> sl (li_items l') = sl (li_items l) @ concat (map snd es)"
proof (induction es arbitrary: l)
  case (Cons e es)
  obtain k vs where e: "e = (k, vs)" by fastforce
  let ?l = "if vs = [] then l else List_invalidateSerializationCache (l\<lparr>li_items := Some (sl (li_items l) @ vs)\<rparr>)"
  have "List_MergeSlice (Some l) vs = Some ?l" by (simp add: List_MergeSlice_def)
  moreover have "sl (li_items ?l) = sl (li_items l) @ vs"
    by (simp add: List_invalidateSerializationCache_def)
  ultimately show ?case using Cons.IH [of ?l] by (simp add: e)
qed simp

lemma mm_flatten:
  fixes m :: "('k, 'v) multimap"
  assumes it: "iterates ks (mm_map m)" and c: "mm_counted m"
  shows "List_Values (MultiMap_FlattenValues ks (Some m)) = map snd (mm_pairs ks (mm_map m))"
proof -
  have new: "\<exists>l. NewListWithCapacity n [] = Some l \<and> sl (li_items (l :: 'v glist)) = []" for n
    by (simp add: NewListWithCapacity_def li_zero_def)
  have flat: "map snd (mm_pairs ks (mm_map m)) = concat (map snd (fm_entries ks (mm_map m)))"
    by (simp add: mm_pairs_def map_concat comp_def case_prod_unfold)
  show ?thesis
  proof (cases "mm_count m = 0")
    case True
    then have "mm_map m = fmempty" using c mm_total_zero [of "mm_map m"] by (simp add: mm_counted_def)
    then have "fm_entries ks (mm_map m) = []" using mm_empty_iterates [OF it] by simp
    then show ?thesis using True new [of 0] flat by (auto simp: NewList_def)
  next
    case False
    obtain l :: "'v glist" where l: "NewListWithCapacity (mm_count m) [] = Some l" "sl (li_items l) = []"
      using new by blast
    then show ?thesis
      using False flat mm_flatten_fold [of l "fm_entries ks (mm_map m)"]
      by (auto simp: mm_range_split List_Values_sl simp del: Map_Range.simps List_Values.simps)
  qed
qed

lemma mm_each_value:
  assumes "mm_lo_ok E"
  shows "fst (MultiMap_EachValue E ks (Some m) (Some gn) st) = foldl (\<lambda>s (k, v). gn s k v) st (mm_pairs ks (mm_map m))"
proof -
  have for_each: "ml_ForEach E vs (\<lambda>s' v _. gn s' k v) s = foldl (\<lambda>s' v. gn s' k v) s vs" for k s vs
    using assms by (simp add: mm_lo_ok_def)
  have "foldl (\<lambda>s (k, vs). foldl (\<lambda>s' v. gn s' k v) s vs) st es
      = foldl (\<lambda>s (k, v). gn s k v) st (concat (map (\<lambda>(k, vs). map (Pair k) vs) es))" for es st
  proof (induction es arbitrary: st)
    case (Cons e es)
    obtain k vs where e: "e = (k, vs)" by fastforce
    have "foldl (\<lambda>s (k, v). gn s k v) st (map (Pair k) vs) = foldl (\<lambda>s' v. gn s' k v) st vs" for st
      by (simp add: foldl_map)
    then show ?case using Cons.IH by (simp add: e)
  qed simp
  then show ?thesis by (simp add: mm_range_split for_each mm_pairs_def del: Map_Range.simps)
qed

lemma mm_value_queries:
  assumes it: "iterates ks (mm_map m)" and c: "mm_counted m" and E: "mm_lo_ok E"
  shows "MultiMap_FirstValueWhere E ks (Some m) (Some Q) = List.find (\<lambda>(k, v). Q k v) (mm_pairs ks (mm_map m))"
    and "MultiMap_AnyValueMatch E ks (Some m) (Some Q) \<longleftrightarrow> (\<exists>k v. v \<in> set (or_nil (fmlookup (mm_map m) k)) \<and> Q k v)"
    and "MultiMap_AllValuesMatch E ks (Some m) (Some Q)
         \<longleftrightarrow> mm_map m \<noteq> fmempty \<and> (\<forall>k v. v \<in> set (or_nil (fmlookup (mm_map m) k)) \<longrightarrow> Q k v)"
proof -
  have E': "ml_Find E xs R = List.find R xs" "ml_EveryBy E xs R = list_all R xs" for xs R
    using E by (simp_all add: mm_lo_ok_def)
  have nil: "mm_pairs ks fmempty = []" if "mm_map m = fmempty"
    using that mm_empty_iterates [OF it] by (simp add: mm_pairs_def)
  show first: "MultiMap_FirstValueWhere E ks (Some m) (Some Q) = List.find (\<lambda>(k, v). Q k v) (mm_pairs ks (mm_map m))"
  proof (cases "mm_map m = fmempty")
    case False
    then show ?thesis
      using mm_find_range [of Q None "fm_entries ks (mm_map m)"]
      by (simp add: E' mm_pairs_def gm_map_def [symmetric] split: option.splits)
  qed (simp add: nil)
  show "MultiMap_AnyValueMatch E ks (Some m) (Some Q) \<longleftrightarrow> (\<exists>k v. v \<in> set (or_nil (fmlookup (mm_map m) k)) \<and> Q k v)"
    unfolding MultiMap_AnyValueMatch_def first find_case_ex mm_pairs_set [OF it] by auto
  show "MultiMap_AllValuesMatch E ks (Some m) (Some Q)
      \<longleftrightarrow> mm_map m \<noteq> fmempty \<and> (\<forall>k v. v \<in> set (or_nil (fmlookup (mm_map m) k)) \<longrightarrow> Q k v)"
  proof -
    have "(\<forall>(k, vs) \<in> set (fm_entries ks (mm_map m)). list_all (Q k) vs)
        \<longleftrightarrow> (\<forall>k v. v \<in> set (or_nil (fmlookup (mm_map m) k)) \<longrightarrow> Q k v)"
      unfolding fm_entries_iterates(2) [OF it] list_all_iff
      by (rule iffI; clarsimp simp: or_nil_def split: option.splits) (metis option.inject)+
    moreover have "mm_count m = 0 \<longleftrightarrow> mm_map m = fmempty"
      using c mm_total_zero [of "mm_map m"] by (simp add: mm_counted_def)
    ultimately show ?thesis
      using range_all [of "\<lambda>k. list_all (Q k)" True "fm_entries ks (mm_map m)"]
      by (simp add: E' gm_map_def [symmetric])
  qed
qed

lemma mm_ToJSON_ser:
  "iterates ks (mm_map m) \<Longrightarrow>
   MultiMap_ToJSON marshal ks (Some m)
   = (case ser_to_json (marshalMappingJSON marshal (mm_map m) ''multimap'') (mm_ser m) of
        (c, r) \<Rightarrow> (Some (m\<lparr>mm_ser := c\<rparr>), r))"
  by (cases "jsonDirty (mm_ser m)"; cases "jsonCache (mm_ser m)";
      cases "marshalMappingJSON marshal (mm_map m) ''multimap''")
    (auto simp: ser_to_json_def MultiMap_cacheSerializationData_def MultiMap_All_eq simp del: MultiMap_All.simps)

lemma mm_ToJSON_inv:
  assumes inv: "mm_inv marshal (Some m)" and it: "iterates ks (mm_map m)"
  shows "mm_inv marshal (fst (MultiMap_ToJSON marshal ks (Some m)))"
    and "mm_abs (fst (MultiMap_ToJSON marshal ks (Some m))) = mm_map m"
    and "snd (MultiMap_ToJSON marshal ks (Some m)) = marshalMappingJSON marshal (mm_map m) ''multimap''"
  using inv ser_to_json_fresh [of "marshalMappingJSON marshal (mm_map m) ''multimap''" "mm_ser m"]
  unfolding mm_ToJSON_ser [OF it] by (auto simp: mm_inv_def mm_abs_def mm_counted_def split: prod.splits)

lemma mm_String_inv:
  assumes inv: "mm_inv marshal (Some m)" and it: "iterates ks (mm_map m)"
  shows "mm_inv marshal (fst (MultiMap_String marshal ks (Some m)))"
    and "mm_abs (fst (MultiMap_String marshal ks (Some m))) = mm_map m"
    and "snd (MultiMap_String marshal ks (Some m)) = (case marshal (mm_map m) of Inl _ \<Rightarrow> ''{}'' | Inr d \<Rightarrow> d)"
proof -
  note j = mm_ToJSON_inv [OF assms]
  have "marshal (mm_map m) = Inr (stringCache (mm_ser m))"
    if "\<not> jsonDirty (mm_ser m)" "stringCache (mm_ser m) \<noteq> []"
    using inv that by (auto simp: mm_inv_def ser_coherent_def marshalMappingJSON_list)
  then show "mm_inv marshal (fst (MultiMap_String marshal ks (Some m)))"
    and "mm_abs (fst (MultiMap_String marshal ks (Some m))) = mm_map m"
    and "snd (MultiMap_String marshal ks (Some m)) = (case marshal (mm_map m) of Inl _ \<Rightarrow> ''{}'' | Inr d \<Rightarrow> d)"
    using j inv by (auto simp: MultiMap_String_def mm_abs_def simp del: MultiMap_ToJSON.simps split: prod.splits)
qed

text \<open>A mutation keeps the cache coherent: it invalidates it, or it leaves content and cache alone.\<close>

lemma mm_mutated:
  assumes "mm_inv marshal (Some m)" and "mm_counted m'"
    and "mm_ser m' = ser_invalidate (mm_ser m) \<or> mm_ser m' = mm_ser m \<and> mm_map m' = mm_map m"
  shows "mm_inv marshal (Some m')"
  using assms by (auto simp: mm_inv_def)

lemma mm_mutations:
  assumes inv: "mm_inv marshal (Some m)"
  shows "\<exists>m'. MultiMap_Put (Some m) k v = Some m' \<and> mm_inv marshal (Some m')
            \<and> mm_map m' = mm_write k (or_nil (fmlookup (mm_map m) k) @ [v]) (mm_map m)"
    and "\<exists>m'. MultiMap_PutAll (Some m) k vs = Some m' \<and> mm_inv marshal (Some m')
            \<and> mm_map m' = (if vs = [] then mm_map m else mm_write k (or_nil (fmlookup (mm_map m) k) @ vs) (mm_map m))"
    and "\<exists>m'. MultiMap_Set (Some m) k vs = Some m' \<and> mm_inv marshal (Some m') \<and> mm_map m' = mm_write k vs (mm_map m)"
    and "\<exists>m'. MultiMap_Delete (Some m) k = (Some m', fmlookup (mm_map m) k \<noteq> None) \<and> mm_inv marshal (Some m')
            \<and> mm_map m' = fmdrop k (mm_map m)"
    and "\<exists>m'. MultiMap_DeleteValueIf (Some m) k (Some Q)
              = (Some m', int (length (filter Q (or_nil (fmlookup (mm_map m) k))))) \<and> mm_inv marshal (Some m')
            \<and> mm_map m' = mm_write k (filter (\<lambda>v. \<not> Q v) (or_nil (fmlookup (mm_map m) k))) (mm_map m)"
    and "\<exists>m'. MultiMap_Clear (Some m) = Some m' \<and> mm_inv marshal (Some m') \<and> mm_map m' = fmempty"
proof -
  note c = inv [unfolded mm_inv_def] and mut = mm_mutated [OF inv]
  have counted: "mm_counted m" using inv by (auto simp: mm_inv_def)
  have len: "int (length old) - int (length (filter (\<lambda>v. \<not> Q v) old)) = int (length (filter Q old))" for old
    using sum_length_filter_compl [of Q old] by linarith
  show "\<exists>m'. MultiMap_Put (Some m) k v = Some m' \<and> mm_inv marshal (Some m')
            \<and> mm_map m' = mm_write k (or_nil (fmlookup (mm_map m) k) @ [v]) (mm_map m)"
    using MultiMap_PutAll_map [OF counted, of k "[v]"] mut by (auto simp: MultiMap_Put_def mm_write_def simp del: MultiMap_PutAll.simps)
  show "\<exists>m'. MultiMap_PutAll (Some m) k vs = Some m' \<and> mm_inv marshal (Some m')
            \<and> mm_map m' = (if vs = [] then mm_map m else mm_write k (or_nil (fmlookup (mm_map m) k) @ vs) (mm_map m))"
    using MultiMap_PutAll_map [OF counted, of k vs] mut by (auto simp: mm_write_def simp del: MultiMap_PutAll.simps)
  show "\<exists>m'. MultiMap_Set (Some m) k vs = Some m' \<and> mm_inv marshal (Some m') \<and> mm_map m' = mm_write k vs (mm_map m)"
    using MultiMap_Set_map [OF counted, of k vs] mut by (auto simp: mm_write_def simp del: MultiMap_Set.simps)
  show "\<exists>m'. MultiMap_Delete (Some m) k = (Some m', fmlookup (mm_map m) k \<noteq> None) \<and> mm_inv marshal (Some m')
            \<and> mm_map m' = fmdrop k (mm_map m)"
    using MultiMap_Delete_map [OF counted, of k] mut by (auto simp del: MultiMap_Delete.simps)
  show "\<exists>m'. MultiMap_DeleteValueIf (Some m) k (Some Q)
              = (Some m', int (length (filter Q (or_nil (fmlookup (mm_map m) k))))) \<and> mm_inv marshal (Some m')
            \<and> mm_map m' = mm_write k (filter (\<lambda>v. \<not> Q v) (or_nil (fmlookup (mm_map m) k))) (mm_map m)"
    using MultiMap_DeleteValueIf_map [OF counted, of k Q] mut unfolding len mm_write_def by blast
  show "\<exists>m'. MultiMap_Clear (Some m) = Some m' \<and> mm_inv marshal (Some m') \<and> mm_map m' = fmempty"
    by (simp add: mm_inv_def mm_counted_def)
qed

lemma mm_reads:
  assumes "mm_counted m"
  shows "MultiMap_Get (Some m) k = or_nil (fmlookup (mm_map m) k)"
    and "MultiMap_GetCopy (Some m) k = or_nil (fmlookup (mm_map m) k)"
    and "MultiMap_GetOption (Some m) k = fmlookup (mm_map m) k"
    and "MultiMap_ContainsKey (Some m) k \<longleftrightarrow> fmlookup (mm_map m) k \<noteq> None"
    and "MultiMap_Len (Some m) = fm_size (mm_map m)"
    and "MultiMap_IsEmpty (Some m) \<longleftrightarrow> mm_map m = fmempty"
    and "MultiMap_ValueCount (Some m) = int (mm_total (mm_map m))"
  using assms
  by (auto simp: MultiMap_GetCopy_def MultiMap_GetOption_def MultiMap_IsEmpty_def mm_counted_def mm_proper_def
      or_nil_def Let_def split: option.splits)

lemmas mm_op_simps_del = MultiMap_PutAll.simps MultiMap_Set.simps MultiMap_Get.simps MultiMap_Delete.simps
  MultiMap_DeleteValueIf.simps MultiMap_ContainsKey.simps MultiMap_Len.simps MultiMap_ValueCount.simps
  MultiMap_Clear.simps MultiMap_Keys.simps MultiMap_All.simps MultiMap_Clone.simps MultiMap_WhereKeys.simps
  MultiMap_RejectKeys.simps MultiMap_WhereValues.simps MultiMap_RejectValues.simps
  MultiMap_FirstValueWhere.simps MultiMap_AllValuesMatch.simps MultiMap_FlattenValues.simps MultiMap_ToJSON.simps

lemma mm_step_refines:
  fixes p :: "('k, 'v) multimap option" and E :: "('v, 'st) mm_lo"
  assumes E: "mm_lo_ok E" and ok: "mm_ok c" and inv: "mm_inv marshal p"
  shows "mm_inv marshal (fst (mm_step E marshal c p))
       \<and> mm_spec marshal c (mm_abs p) = (mm_abs (fst (mm_step E marshal c p)), snd (mm_step E marshal c p))"
proof -
  obtain m where p: "p = Some m" and counted: "mm_counted m" using inv by (auto simp: mm_inv_def)
  note i = inv [unfolded p]
  have abs: "mm_abs (Some x) = mm_map x" for x :: "('k, 'v) multimap" by (simp add: mm_abs_def)
  have it: "iterates (ord (mm_map m)) (mm_map m)" if "visit_ok ord" for ord
    using that by (simp add: visit_ok_def)
  have entries: "ml (gm_items (mm_items m)) = mm_map m" by (simp add: mm_map_def gm_map_def del: mm_map_simps)
  have pair: "(\<lambda>s (k, vs). fn s (k, vs)) = fn" for fn :: "'st \<Rightarrow> 'k \<times> 'v list \<Rightarrow> 'st \<times> bool" by (simp add: fun_eq_iff)
  note mut = mm_mutations [OF i]
  show ?thesis
  proof (cases c)
    case (MmDeleteValueIf k pr)
    show ?thesis
    proof (cases pr)
      case (Some Q)
      then show ?thesis using mut(5) [of k Q] by (auto simp: MmDeleteValueIf p abs simp del: mm_op_simps_del)
    qed (use i in \<open>simp add: MmDeleteValueIf p abs\<close>)
  next
    case (MmEachValue ord gn st)
    then show ?thesis using i mm_each_value [OF E, of "ord (mm_map m)" m gn st] by (simp add: p abs)
  next
    case (MmEachKey ord fn st)
    then show ?thesis using i by (auto simp: p abs mm_range_split simp del: Map_Range.simps)
  next
    case (MmRange ord fn st)
    then show ?thesis using i by (simp add: p abs entries pair)
  next
    case (MmPut k v)
    then show ?thesis using mut(1) [of k v] by (auto simp: p abs)
  next
    case (MmPutAll k vs)
    then show ?thesis using mut(2) [of k vs] by (auto simp: p abs simp del: mm_op_simps_del)
  next
    case (MmSet k vs)
    then show ?thesis using mut(3) [of k vs] by (auto simp: p abs simp del: mm_op_simps_del)
  next
    case (MmDelete k)
    then show ?thesis using mut(4) [of k] by (auto simp: p abs simp del: mm_op_simps_del)
  next
    case MmClear
    then show ?thesis using mut(6) by (auto simp: p abs simp del: mm_op_simps_del)
  next
    case (MmToJSON ord)
    then show ?thesis using ok mm_ToJSON_inv [OF i it [of ord]] by (simp add: p abs del: mm_op_simps_del)
  next
    case (MmString ord)
    then show ?thesis using ok mm_String_inv [OF i it [of ord]] by (simp add: p abs del: mm_op_simps_del)
  qed (use ok i in \<open>simp_all add: p abs mm_reads [OF counted] mm_chain_views [OF it counted E] mm_clone_view [OF it counted]
      mm_value_queries [OF it counted E] MultiMap_Keys_eq [OF it] MultiMap_All_eq [OF it] mm_flatten [OF it counted]
      del: mm_op_simps_del\<close>)
qed

interpretation mm_ref: guarded_refinement "\<lambda>c. mm_lo_ok E \<and> mm_ok c" "mm_step E marshal" "mm_inv marshal" "mm_spec marshal" mm_abs
  for E :: "('v, 'st) mm_lo" and marshal :: "('k, 'v list) fmap json_marshal"
  by unfold_locales (use mm_step_refines in blast)+

lemma mm_inv_new:
  "mm_inv marshal NewMultiMap" "mm_abs (NewMultiMap :: ('k, 'v) multimap option) = fmempty"
proof -
  show "mm_inv marshal NewMultiMap" using mm_new [of 0] by (auto simp: mm_inv_def NewMultiMap_def)
  show "mm_abs (NewMultiMap :: ('k, 'v) multimap option) = fmempty"
    using mm_new [of 0, where ?'a = 'k and ?'b = 'v] by (auto simp: NewMultiMap_def mm_abs_def)
qed

text \<open>
  C37. Over any history of calls on a fresh \<open>MultiMap\<close>, every call answers what it would answer on a
  finite map to non-empty lists, whatever the order in which Go visits the map: the reads and the
  counts of keys and values, the deletions, the copies and chain operations with their own counts,
  and \<open>ToJSON\<close> and \<open>String\<close>, which serialize the current content.
\<close>

theorem multimap_refines_fmap:
  assumes "mm_lo_ok E" and "list_all mm_ok cs"
  shows "snd (run (mm_step E marshal) cs NewMultiMap) = snd (run (mm_spec marshal) cs fmempty)"
proof -
  have "list_all (\<lambda>c. mm_lo_ok E \<and> mm_ok c) cs" using assms by (simp add: list_all_iff)
  from mm_ref.guarded_results [OF this mm_inv_new(1), of marshal] show ?thesis by (simp only: mm_inv_new(2))
qed

text \<open>samber/lo as documented, and the ascending order of visit.\<close>

definition plain_mm_lo :: "('v, 'st) mm_lo" where
  "plain_mm_lo = \<lparr>ml_Filter = \<lambda>xs P. map fst (filter (\<lambda>(v, i). P v i) (zip xs [0..<length xs])),
     ml_Reject = \<lambda>xs P. map fst (filter (\<lambda>(v, i). \<not> P v i) (zip xs [0..<length xs])),
     ml_Find = \<lambda>xs P. List.find P xs, ml_EveryBy = \<lambda>xs P. list_all P xs,
     ml_ForEach = \<lambda>xs f st. foldl (\<lambda>s (v, i). f s v i) st (zip xs [0..<length xs])\<rparr>"

lemma filter_zip_fst: "length xs = length ys \<Longrightarrow> map fst (filter (\<lambda>(v, i). P v) (zip xs ys)) = filter P xs"
  by (induction xs ys rule: list_induct2) auto

lemma foldl_zip_fst: "length xs = length ys \<Longrightarrow> foldl (\<lambda>s (v, i). f s v) st (zip xs ys) = foldl f st xs"
  by (induction xs ys arbitrary: st rule: list_induct2) auto

lemma plain_mm_lo_ok: "mm_lo_ok plain_mm_lo"
  by (simp add: mm_lo_ok_def plain_mm_lo_def filter_zip_fst foldl_zip_fst)

lemma sorted_visit_ok: "visit_ok (\<lambda>f :: ('k::linorder, 'v list) fmap. sorted_list_of_set (fmdom' f))"
  by (simp add: visit_ok_def iterates_def)

definition mm_sample :: "(nat, nat, nat) mm_op list" where
  "mm_sample = [MmPutAll 2 [5, 6], MmPut 1 7, MmDeleteValueIf 2 (Some (\<lambda>v. v = 5)), MmValueCount,
     MmFlattenValues (\<lambda>f. sorted_list_of_set (fmdom' f)), MmSet 1 [], MmContainsKey 1]"

theorem multimap_refines_fmap_witness:
  "mm_lo_ok (plain_mm_lo :: (nat, nat) mm_lo) \<and> list_all mm_ok mm_sample
   \<and> snd (run (mm_step plain_mm_lo (\<lambda>_. Inr [])) mm_sample NewMultiMap)
     = [MmUnit, MmUnit, MmInt 1, MmInt 2, MmVals [7, 6], MmUnit, MmBool False]"
proof -
  have ok: "list_all mm_ok mm_sample" by (simp add: mm_sample_def sorted_visit_ok)
  have set12: "sorted_list_of_set {Suc 0, 2} = [1, 2 :: nat]" by code_simp
  have "snd (run (mm_spec (\<lambda>_. Inr [])) mm_sample fmempty)
      = [MmUnit, MmUnit, MmInt 1, MmInt 2, MmVals [7, 6], MmUnit, MmBool False]"
    by (simp add: mm_sample_def mm_write_def mm_pairs_def set12 mm_total_def insert_commute)
  with multimap_refines_fmap [OF plain_mm_lo_ok ok, of "\<lambda>_. Inr []"] ok plain_mm_lo_ok show ?thesis by simp
qed

end
