(* ===== verification/Mapping_Concurrent.thy ===== *)
theory Mapping_Concurrent
  imports Co_Guarded Mapping_MultiMap
begin

text \<open>
  \<^verbatim>\<open>collectionx/mapping/concurrent_map.go\<close>, \<^verbatim>\<open>concurrent_multimap.go\<close> and their parts of \<^verbatim>\<open>mapping/json.go\<close>: a
  read-write mutex around a \<open>Map\<close> or a \<open>MultiMap\<close> that is allocated on first use, with a serialization
  cache of its own. A method holds the mutex from its first access to its last, so each of its
  critical sections is one atomic step; \<open>ToJSON\<close> and \<open>String\<close> release it in between and are split
  accordingly. A history is the order in which goroutines enter their sections. Shown: in every such
  order each section answers as a finite map would, and the cache is never stale.
\<close>

subsection \<open>ConcurrentMap\<close>

type_synonym ('k, 'v) cmap = "('k, 'v) gmap guarded"

definition NewConcurrentMapWithCapacity :: "int \<Rightarrow> ('k, 'v) cmap option" where
  "NewConcurrentMapWithCapacity capacity = Some \<lparr>core = NewMapWithCapacity capacity, co_ser = ser_zero\<rparr>"

definition NewConcurrentMap :: "('k, 'v) cmap option" where
  "NewConcurrentMap = NewConcurrentMapWithCapacity 0"

definition ConcurrentMap_ensureInitLocked :: "('k, 'v) cmap \<Rightarrow> ('k, 'v) cmap" where
  "ConcurrentMap_ensureInitLocked m = (if core m = None then m\<lparr>core := NewMap\<rparr> else m)"

primrec ConcurrentMap_Set :: "('k, 'v) cmap option \<Rightarrow> 'k \<Rightarrow> 'v \<Rightarrow> ('k, 'v) cmap option" where
  "ConcurrentMap_Set None k v = None"
| "ConcurrentMap_Set (Some m0) k v =
     (let m = ConcurrentMap_ensureInitLocked m0 in Some (co_dirty (m\<lparr>core := Map_Set (core m) k v\<rparr>)))"

primrec ConcurrentMap_SetAll :: "('k, 'v) cmap option \<Rightarrow> ('k, 'v) go_map \<Rightarrow> ('k, 'v) cmap option" where
  "ConcurrentMap_SetAll None source = None"
| "ConcurrentMap_SetAll (Some m0) source =
     (if fm_size (ml source) = 0 then Some m0
      else let m = ConcurrentMap_ensureInitLocked m0 in Some (co_dirty (m\<lparr>core := Map_SetAll (core m) source\<rparr>)))"

primrec ConcurrentMap_Get :: "('k, 'v) cmap option \<Rightarrow> 'k \<Rightarrow> 'v option" where
  "ConcurrentMap_Get None k = None"
| "ConcurrentMap_Get (Some m) k = (case core m of None \<Rightarrow> None | Some g \<Rightarrow> Map_Get (Some g) k)"

definition ConcurrentMap_GetOption :: "('k, 'v) cmap option \<Rightarrow> 'k \<Rightarrow> 'v option" where
  "ConcurrentMap_GetOption p k = (case ConcurrentMap_Get p k of None \<Rightarrow> None | Some v \<Rightarrow> Some v)"

definition ConcurrentMap_GetOrDefault :: "('k, 'v) cmap option \<Rightarrow> 'k \<Rightarrow> 'v \<Rightarrow> 'v" where
  "ConcurrentMap_GetOrDefault p k fallback = (case ConcurrentMap_Get p k of None \<Rightarrow> fallback | Some v \<Rightarrow> v)"

primrec ConcurrentMap_GetOrStore :: "('k, 'v) cmap option \<Rightarrow> 'k \<Rightarrow> 'v \<Rightarrow> ('k, 'v) cmap option \<times> 'v \<times> bool" where
  "ConcurrentMap_GetOrStore None k v = (None, v, False)"
| "ConcurrentMap_GetOrStore (Some m0) k v =
     (let m = ConcurrentMap_ensureInitLocked m0
      in case Map_Get (core m) k of
           Some existing \<Rightarrow> (Some m, existing, True)
         | None \<Rightarrow> (Some (co_dirty (m\<lparr>core := Map_Set (core m) k v\<rparr>)), v, False))"

primrec ConcurrentMap_Delete :: "('k, 'v) cmap option \<Rightarrow> 'k \<Rightarrow> ('k, 'v) cmap option \<times> bool" where
  "ConcurrentMap_Delete None k = (None, False)"
| "ConcurrentMap_Delete (Some m) k =
     (case core m of
        None \<Rightarrow> (Some m, False)
      | Some g \<Rightarrow>
          (case Map_Delete (Some g) k of
             (g', removed) \<Rightarrow> let m1 = m\<lparr>core := g'\<rparr> in (Some (if removed then co_dirty m1 else m1), removed)))"

primrec ConcurrentMap_LoadAndDelete :: "('k, 'v) cmap option \<Rightarrow> 'k \<Rightarrow> ('k, 'v) cmap option \<times> 'v option" where
  "ConcurrentMap_LoadAndDelete None k = (None, None)"
| "ConcurrentMap_LoadAndDelete (Some m) k =
     (case core m of
        None \<Rightarrow> (Some m, None)
      | Some g \<Rightarrow>
          (case Map_Get (Some g) k of
             None \<Rightarrow> (Some m, None)
           | Some v \<Rightarrow> (Some (co_dirty (m\<lparr>core := fst (Map_Delete (Some g) k)\<rparr>)), Some v)))"

definition ConcurrentMap_LoadAndDeleteOption :: "('k, 'v) cmap option \<Rightarrow> 'k \<Rightarrow> ('k, 'v) cmap option \<times> 'v option" where
  "ConcurrentMap_LoadAndDeleteOption p k =
     (case ConcurrentMap_LoadAndDelete p k of (q, None) \<Rightarrow> (q, None) | (q, Some v) \<Rightarrow> (q, Some v))"

primrec ConcurrentMap_Len :: "('k, 'v) cmap option \<Rightarrow> nat" where
  "ConcurrentMap_Len None = 0"
| "ConcurrentMap_Len (Some m) = (case core m of None \<Rightarrow> 0 | Some g \<Rightarrow> Map_Len (Some g))"

definition ConcurrentMap_IsEmpty :: "('k, 'v) cmap option \<Rightarrow> bool" where
  "ConcurrentMap_IsEmpty p \<longleftrightarrow> ConcurrentMap_Len p = 0"

primrec ConcurrentMap_Clear :: "('k, 'v) cmap option \<Rightarrow> ('k, 'v) cmap option" where
  "ConcurrentMap_Clear None = None"
| "ConcurrentMap_Clear (Some m) =
     (case core m of
        None \<Rightarrow> Some m
      | Some g \<Rightarrow> Some (m\<lparr>core := Map_Clear (Some g), co_ser := ser_zero\<rparr>))"

primrec ConcurrentMap_Keys :: "'k list \<Rightarrow> ('k, 'v) cmap option \<Rightarrow> 'k list" where
  "ConcurrentMap_Keys ks None = []"
| "ConcurrentMap_Keys ks (Some m) = (case core m of None \<Rightarrow> [] | Some g \<Rightarrow> Map_Keys ks (Some g))"

primrec ConcurrentMap_Values :: "'k list \<Rightarrow> ('k, 'v) cmap option \<Rightarrow> 'v list" where
  "ConcurrentMap_Values ks None = []"
| "ConcurrentMap_Values ks (Some m) = (case core m of None \<Rightarrow> [] | Some g \<Rightarrow> Map_Values ks (Some g))"

primrec ConcurrentMap_All :: "('k, 'v) cmap option \<Rightarrow> ('k, 'v) go_map" where
  "ConcurrentMap_All None = Some fmempty"
| "ConcurrentMap_All (Some m) = (case core m of None \<Rightarrow> Some fmempty | Some g \<Rightarrow> Map_All (Some g))"

text \<open>The iterating methods work on the copy that \<open>All\<close> takes under the lock.\<close>

fun ConcurrentMap_Range ::
    "'k list \<Rightarrow> ('k, 'v) cmap option \<Rightarrow> ('st \<Rightarrow> 'k \<times> 'v \<Rightarrow> 'st \<times> bool) option \<Rightarrow> 'st \<Rightarrow> 'st" where
  "ConcurrentMap_Range ks (Some m) (Some fn) st = range_until fn st (fm_entries ks (ml (ConcurrentMap_All (Some m))))"
| "ConcurrentMap_Range ks _ _ st = st"

definition ConcurrentMap_WhereEntries ::
    "'k list \<Rightarrow> ('k, 'v) cmap option \<Rightarrow> ('k \<Rightarrow> 'v \<Rightarrow> bool) option \<Rightarrow> ('k, 'v) gmap option" where
  "ConcurrentMap_WhereEntries ks p P = Map_WhereEntries ks (NewMapFrom (ConcurrentMap_All p)) P"

definition ConcurrentMap_RejectEntries ::
    "'k list \<Rightarrow> ('k, 'v) cmap option \<Rightarrow> ('k \<Rightarrow> 'v \<Rightarrow> bool) option \<Rightarrow> ('k, 'v) gmap option" where
  "ConcurrentMap_RejectEntries ks p P = Map_RejectEntries ks (NewMapFrom (ConcurrentMap_All p)) P"

definition ConcurrentMap_EachEntry ::
    "'k list \<Rightarrow> ('k, 'v) cmap option \<Rightarrow> ('st \<Rightarrow> 'k \<times> 'v \<Rightarrow> 'st) option \<Rightarrow> 'st \<Rightarrow> 'st \<times> ('k, 'v) gmap option" where
  "ConcurrentMap_EachEntry ks p fn st = Map_EachEntry ks (NewMapFrom (ConcurrentMap_All p)) fn st"

definition ConcurrentMap_FirstEntryWhere ::
    "'k list \<Rightarrow> ('k, 'v) cmap option \<Rightarrow> ('k \<Rightarrow> 'v \<Rightarrow> bool) option \<Rightarrow> ('k \<times> 'v) option" where
  "ConcurrentMap_FirstEntryWhere ks p P = Map_FirstEntryWhere ks (NewMapFrom (ConcurrentMap_All p)) P"

definition ConcurrentMap_AnyEntryMatch ::
    "'k list \<Rightarrow> ('k, 'v) cmap option \<Rightarrow> ('k \<Rightarrow> 'v \<Rightarrow> bool) option \<Rightarrow> bool" where
  "ConcurrentMap_AnyEntryMatch ks p P = Map_AnyEntryMatch ks (NewMapFrom (ConcurrentMap_All p)) P"

definition ConcurrentMap_AllEntryMatch ::
    "'k list \<Rightarrow> ('k, 'v) cmap option \<Rightarrow> ('k \<Rightarrow> 'v \<Rightarrow> bool) option \<Rightarrow> bool" where
  "ConcurrentMap_AllEntryMatch ks p P = Map_AllEntryMatch ks (NewMapFrom (ConcurrentMap_All p)) P"

text \<open>What the write section of \<open>ToJSON\<close> marshals.\<close>

definition cm_fresh :: "('k, 'v) fmap json_marshal \<Rightarrow> ('k, 'v) cmap \<Rightarrow> string + bytes" where
  "cm_fresh marshal m =
     (case core m of
        None \<Rightarrow> marshalMappingJSON marshal fmempty ''concurrent map''
      | Some g \<Rightarrow>
          if fm_size (ml (gm_items g)) = 0 then marshalMappingJSON marshal fmempty ''concurrent map''
          else marshalMappingJSON marshal (ml (gm_items g)) ''concurrent map'')"

text \<open>\<open>ToJSON\<close> and \<open>String\<close> of a goroutine that no other one interrupts.\<close>

primrec ConcurrentMap_ToJSON ::
    "('k, 'v) fmap json_marshal \<Rightarrow> ('k, 'v) cmap option \<Rightarrow> ('k, 'v) cmap option \<times> (string + bytes)" where
  "ConcurrentMap_ToJSON marshal None = (None, marshalMappingJSON marshal fmempty ''concurrent map'')"
| "ConcurrentMap_ToJSON marshal (Some m) =
     (case co_json_read m of
        Some d \<Rightarrow> (Some m, Inr d)
      | None \<Rightarrow> map_prod Some id (co_json_fill (cm_fresh marshal m) m))"

primrec ConcurrentMap_String ::
    "('k, 'v) fmap json_marshal \<Rightarrow> ('k, 'v) cmap option \<Rightarrow> ('k, 'v) cmap option \<times> string" where
  "ConcurrentMap_String marshal None = (None, ''{}'')"
| "ConcurrentMap_String marshal (Some m) =
     (case co_string_read m of
        Some v \<Rightarrow> (Some m, v)
      | None \<Rightarrow> (case ConcurrentMap_ToJSON marshal (Some m) of (q, r) \<Rightarrow> (q, JSONResultString r ''{}'')))"

definition ConcurrentMap_MarshalJSON ::
    "string + bytes \<Rightarrow> ('k, 'v) fmap json_marshal \<Rightarrow> ('k, 'v) cmap option \<Rightarrow> ('k, 'v) cmap option \<times> (string + bytes)" where
  "ConcurrentMap_MarshalJSON n marshal p =
     (case ConcurrentMap_ToJSON marshal p of (q, r) \<Rightarrow> (q, forwardMappingJSON n (\<lambda>_. r) ''concurrent map''))"

subsection \<open>ConcurrentMultiMap\<close>

type_synonym ('k, 'v) cmultimap = "('k, 'v) multimap guarded"

definition NewConcurrentMultiMapWithCapacity :: "int \<Rightarrow> ('k, 'v) cmultimap option" where
  "NewConcurrentMultiMapWithCapacity capacity = Some \<lparr>core = NewMultiMapWithCapacity capacity, co_ser = ser_zero\<rparr>"

definition NewConcurrentMultiMap :: "('k, 'v) cmultimap option" where
  "NewConcurrentMultiMap = NewConcurrentMultiMapWithCapacity 0"

definition ConcurrentMultiMap_ensureInitLocked :: "('k, 'v) cmultimap \<Rightarrow> ('k, 'v) cmultimap" where
  "ConcurrentMultiMap_ensureInitLocked m = (if core m = None then m\<lparr>core := NewMultiMap\<rparr> else m)"

primrec ConcurrentMultiMap_PutAll :: "('k, 'v) cmultimap option \<Rightarrow> 'k \<Rightarrow> 'v list \<Rightarrow> ('k, 'v) cmultimap option" where
  "ConcurrentMultiMap_PutAll None k vs = None"
| "ConcurrentMultiMap_PutAll (Some m0) k vs =
     (if length vs = 0 then Some m0
      else let m = ConcurrentMultiMap_ensureInitLocked m0
           in Some (co_dirty (m\<lparr>core := MultiMap_PutAll (core m) k vs\<rparr>)))"

definition ConcurrentMultiMap_Put :: "('k, 'v) cmultimap option \<Rightarrow> 'k \<Rightarrow> 'v \<Rightarrow> ('k, 'v) cmultimap option" where
  "ConcurrentMultiMap_Put p k v = ConcurrentMultiMap_PutAll p k [v]"

primrec ConcurrentMultiMap_Set :: "('k, 'v) cmultimap option \<Rightarrow> 'k \<Rightarrow> 'v list \<Rightarrow> ('k, 'v) cmultimap option" where
  "ConcurrentMultiMap_Set None k vs = None"
| "ConcurrentMultiMap_Set (Some m0) k vs =
     (let m = ConcurrentMultiMap_ensureInitLocked m0 in Some (co_dirty (m\<lparr>core := MultiMap_Set (core m) k vs\<rparr>)))"

primrec ConcurrentMultiMap_Get :: "('k, 'v) cmultimap option \<Rightarrow> 'k \<Rightarrow> 'v list" where
  "ConcurrentMultiMap_Get None k = []"
| "ConcurrentMultiMap_Get (Some m) k = (case core m of None \<Rightarrow> [] | Some g \<Rightarrow> MultiMap_Get (Some g) k)"

primrec ConcurrentMultiMap_GetCopy :: "('k, 'v) cmultimap option \<Rightarrow> 'k \<Rightarrow> 'v list" where
  "ConcurrentMultiMap_GetCopy None k = []"
| "ConcurrentMultiMap_GetCopy (Some m) k = (case core m of None \<Rightarrow> [] | Some g \<Rightarrow> MultiMap_GetCopy (Some g) k)"

definition ConcurrentMultiMap_GetOption :: "('k, 'v) cmultimap option \<Rightarrow> 'k \<Rightarrow> 'v list option" where
  "ConcurrentMultiMap_GetOption p k =
     (let vs = ConcurrentMultiMap_Get p k in if length vs = 0 then None else Some vs)"

primrec ConcurrentMultiMap_Delete :: "('k, 'v) cmultimap option \<Rightarrow> 'k \<Rightarrow> ('k, 'v) cmultimap option \<times> bool" where
  "ConcurrentMultiMap_Delete None k = (None, False)"
| "ConcurrentMultiMap_Delete (Some m) k =
     (case core m of
        None \<Rightarrow> (Some m, False)
      | Some g \<Rightarrow>
          (case MultiMap_Delete (Some g) k of
             (g', removed) \<Rightarrow> let m1 = m\<lparr>core := g'\<rparr> in (Some (if removed then co_dirty m1 else m1), removed)))"

fun ConcurrentMultiMap_DeleteValueIf ::
    "('k, 'v) cmultimap option \<Rightarrow> 'k \<Rightarrow> ('v \<Rightarrow> bool) option \<Rightarrow> ('k, 'v) cmultimap option \<times> int" where
  "ConcurrentMultiMap_DeleteValueIf (Some m) k (Some P) =
     (case core m of
        None \<Rightarrow> (Some m, 0)
      | Some g \<Rightarrow>
          (case MultiMap_DeleteValueIf (Some g) k (Some P) of
             (g', removed) \<Rightarrow> let m1 = m\<lparr>core := g'\<rparr> in (Some (if removed > 0 then co_dirty m1 else m1), removed)))"
| "ConcurrentMultiMap_DeleteValueIf p k _ = (p, 0)"

primrec ConcurrentMultiMap_ContainsKey :: "('k, 'v) cmultimap option \<Rightarrow> 'k \<Rightarrow> bool" where
  "ConcurrentMultiMap_ContainsKey None k = False"
| "ConcurrentMultiMap_ContainsKey (Some m) k =
     (case core m of None \<Rightarrow> False | Some g \<Rightarrow> MultiMap_ContainsKey (Some g) k)"

primrec ConcurrentMultiMap_Len :: "('k, 'v) cmultimap option \<Rightarrow> nat" where
  "ConcurrentMultiMap_Len None = 0"
| "ConcurrentMultiMap_Len (Some m) = (case core m of None \<Rightarrow> 0 | Some g \<Rightarrow> MultiMap_Len (Some g))"

primrec ConcurrentMultiMap_ValueCount :: "('k, 'v) cmultimap option \<Rightarrow> int" where
  "ConcurrentMultiMap_ValueCount None = 0"
| "ConcurrentMultiMap_ValueCount (Some m) = (case core m of None \<Rightarrow> 0 | Some g \<Rightarrow> MultiMap_ValueCount (Some g))"

definition ConcurrentMultiMap_IsEmpty :: "('k, 'v) cmultimap option \<Rightarrow> bool" where
  "ConcurrentMultiMap_IsEmpty p \<longleftrightarrow> ConcurrentMultiMap_Len p = 0"

primrec ConcurrentMultiMap_Clear :: "('k, 'v) cmultimap option \<Rightarrow> ('k, 'v) cmultimap option" where
  "ConcurrentMultiMap_Clear None = None"
| "ConcurrentMultiMap_Clear (Some m) =
     (case core m of
        None \<Rightarrow> Some m
      | Some g \<Rightarrow> Some (m\<lparr>core := MultiMap_Clear (Some g), co_ser := ser_zero\<rparr>))"

primrec ConcurrentMultiMap_Keys :: "'k list \<Rightarrow> ('k, 'v) cmultimap option \<Rightarrow> 'k list" where
  "ConcurrentMultiMap_Keys ks None = []"
| "ConcurrentMultiMap_Keys ks (Some m) = (case core m of None \<Rightarrow> [] | Some g \<Rightarrow> MultiMap_Keys ks (Some g))"

primrec ConcurrentMultiMap_All :: "'k list \<Rightarrow> ('k, 'v) cmultimap option \<Rightarrow> ('k, 'v list) fmap" where
  "ConcurrentMultiMap_All ks None = fmempty"
| "ConcurrentMultiMap_All ks (Some m) = (case core m of None \<Rightarrow> fmempty | Some g \<Rightarrow> MultiMap_All ks (Some g))"

primrec ConcurrentMultiMap_Snapshot :: "'k list \<Rightarrow> ('k, 'v) cmultimap option \<Rightarrow> ('k, 'v) multimap option" where
  "ConcurrentMultiMap_Snapshot ks None = NewMultiMap"
| "ConcurrentMultiMap_Snapshot ks (Some m) =
     (case core m of None \<Rightarrow> NewMultiMap | Some g \<Rightarrow> MultiMap_Clone ks (Some g))"

text \<open>The chain methods run on a snapshot; \<open>ks\<close> is the order in which the snapshot is taken, \<open>js\<close> the one
  in which it is visited.\<close>

definition ConcurrentMultiMap_WhereKeys ::
    "'k list \<Rightarrow> 'k list \<Rightarrow> ('k, 'v) cmultimap option \<Rightarrow> ('k \<Rightarrow> 'v list \<Rightarrow> bool) option \<Rightarrow> ('k, 'v) multimap option" where
  "ConcurrentMultiMap_WhereKeys ks js p P = MultiMap_WhereKeys js (ConcurrentMultiMap_Snapshot ks p) P"

definition ConcurrentMultiMap_RejectKeys ::
    "'k list \<Rightarrow> 'k list \<Rightarrow> ('k, 'v) cmultimap option \<Rightarrow> ('k \<Rightarrow> 'v list \<Rightarrow> bool) option \<Rightarrow> ('k, 'v) multimap option" where
  "ConcurrentMultiMap_RejectKeys ks js p P = MultiMap_RejectKeys js (ConcurrentMultiMap_Snapshot ks p) P"

definition ConcurrentMultiMap_WhereValues ::
    "('v, 'st) mm_lo \<Rightarrow> 'k list \<Rightarrow> 'k list \<Rightarrow> ('k, 'v) cmultimap option \<Rightarrow> ('k \<Rightarrow> 'v \<Rightarrow> bool) option
     \<Rightarrow> ('k, 'v) multimap option" where
  "ConcurrentMultiMap_WhereValues E ks js p Q = MultiMap_WhereValues E js (ConcurrentMultiMap_Snapshot ks p) Q"

definition ConcurrentMultiMap_RejectValues ::
    "('v, 'st) mm_lo \<Rightarrow> 'k list \<Rightarrow> 'k list \<Rightarrow> ('k, 'v) cmultimap option \<Rightarrow> ('k \<Rightarrow> 'v \<Rightarrow> bool) option
     \<Rightarrow> ('k, 'v) multimap option" where
  "ConcurrentMultiMap_RejectValues E ks js p Q = MultiMap_RejectValues E js (ConcurrentMultiMap_Snapshot ks p) Q"

definition ConcurrentMultiMap_FirstValueWhere ::
    "('v, 'st) mm_lo \<Rightarrow> 'k list \<Rightarrow> 'k list \<Rightarrow> ('k, 'v) cmultimap option \<Rightarrow> ('k \<Rightarrow> 'v \<Rightarrow> bool) option \<Rightarrow> ('k \<times> 'v) option" where
  "ConcurrentMultiMap_FirstValueWhere E ks js p Q = MultiMap_FirstValueWhere E js (ConcurrentMultiMap_Snapshot ks p) Q"

definition ConcurrentMultiMap_AnyValueMatch ::
    "('v, 'st) mm_lo \<Rightarrow> 'k list \<Rightarrow> 'k list \<Rightarrow> ('k, 'v) cmultimap option \<Rightarrow> ('k \<Rightarrow> 'v \<Rightarrow> bool) option \<Rightarrow> bool" where
  "ConcurrentMultiMap_AnyValueMatch E ks js p Q = MultiMap_AnyValueMatch E js (ConcurrentMultiMap_Snapshot ks p) Q"

definition ConcurrentMultiMap_AllValuesMatch ::
    "('v, 'st) mm_lo \<Rightarrow> 'k list \<Rightarrow> 'k list \<Rightarrow> ('k, 'v) cmultimap option \<Rightarrow> ('k \<Rightarrow> 'v \<Rightarrow> bool) option \<Rightarrow> bool" where
  "ConcurrentMultiMap_AllValuesMatch E ks js p Q = MultiMap_AllValuesMatch E js (ConcurrentMultiMap_Snapshot ks p) Q"

definition ConcurrentMultiMap_FlattenValues :: "'k list \<Rightarrow> 'k list \<Rightarrow> ('k, 'v) cmultimap option \<Rightarrow> 'v glist option" where
  "ConcurrentMultiMap_FlattenValues ks js p = MultiMap_FlattenValues js (ConcurrentMultiMap_Snapshot ks p)"

definition ConcurrentMultiMap_EachKey ::
    "'k list \<Rightarrow> 'k list \<Rightarrow> ('k, 'v) cmultimap option \<Rightarrow> ('st \<Rightarrow> 'k \<Rightarrow> 'v list \<Rightarrow> 'st) option \<Rightarrow> 'st
     \<Rightarrow> 'st \<times> ('k, 'v) multimap option" where
  "ConcurrentMultiMap_EachKey ks js p fn st = MultiMap_EachKey js (ConcurrentMultiMap_Snapshot ks p) fn st"

definition ConcurrentMultiMap_EachValue ::
    "('v, 'st) mm_lo \<Rightarrow> 'k list \<Rightarrow> 'k list \<Rightarrow> ('k, 'v) cmultimap option \<Rightarrow> ('st \<Rightarrow> 'k \<Rightarrow> 'v \<Rightarrow> 'st) option \<Rightarrow> 'st
     \<Rightarrow> 'st \<times> ('k, 'v) multimap option" where
  "ConcurrentMultiMap_EachValue E ks js p fn st = MultiMap_EachValue E js (ConcurrentMultiMap_Snapshot ks p) fn st"

fun ConcurrentMultiMap_Range ::
    "'k list \<Rightarrow> 'k list \<Rightarrow> ('k, 'v) cmultimap option \<Rightarrow> ('st \<Rightarrow> 'k \<times> 'v list \<Rightarrow> 'st \<times> bool) option \<Rightarrow> 'st \<Rightarrow> 'st" where
  "ConcurrentMultiMap_Range ks js (Some m) (Some fn) st =
     range_until fn st (fm_entries js (ConcurrentMultiMap_All ks (Some m)))"
| "ConcurrentMultiMap_Range ks js _ _ st = st"

definition cmm_fresh :: "('k, 'v list) fmap json_marshal \<Rightarrow> 'k list \<Rightarrow> ('k, 'v) cmultimap \<Rightarrow> string + bytes" where
  "cmm_fresh marshal ks m =
     (case core m of
        None \<Rightarrow> marshalMappingJSON marshal fmempty ''concurrent multimap''
      | Some g \<Rightarrow>
          if Map_Len (Some (mm_items g)) = 0 then marshalMappingJSON marshal fmempty ''concurrent multimap''
          else marshalMappingJSON marshal (MultiMap_All ks (Some g)) ''concurrent multimap'')"

primrec ConcurrentMultiMap_ToJSON ::
    "('k, 'v list) fmap json_marshal \<Rightarrow> 'k list \<Rightarrow> ('k, 'v) cmultimap option
     \<Rightarrow> ('k, 'v) cmultimap option \<times> (string + bytes)" where
  "ConcurrentMultiMap_ToJSON marshal ks None = (None, marshalMappingJSON marshal fmempty ''concurrent multimap'')"
| "ConcurrentMultiMap_ToJSON marshal ks (Some m) =
     (case co_json_read m of
        Some d \<Rightarrow> (Some m, Inr d)
      | None \<Rightarrow> map_prod Some id (co_json_fill (cmm_fresh marshal ks m) m))"

definition ConcurrentMultiMap_MarshalJSON ::
    "string + bytes \<Rightarrow> ('k, 'v list) fmap json_marshal \<Rightarrow> 'k list \<Rightarrow> ('k, 'v) cmultimap option
     \<Rightarrow> ('k, 'v) cmultimap option \<times> (string + bytes)" where
  "ConcurrentMultiMap_MarshalJSON n marshal ks p =
     (case ConcurrentMultiMap_ToJSON marshal ks p of
        (q, r) \<Rightarrow> (q, forwardMappingJSON n (\<lambda>_. r) ''concurrent multimap''))"

primrec ConcurrentMultiMap_String ::
    "('k, 'v list) fmap json_marshal \<Rightarrow> 'k list \<Rightarrow> ('k, 'v) cmultimap option \<Rightarrow> ('k, 'v) cmultimap option \<times> string" where
  "ConcurrentMultiMap_String marshal ks None = (None, ''{}'')"
| "ConcurrentMultiMap_String marshal ks (Some m) =
     (case co_string_read m of
        Some v \<Rightarrow> (Some m, v)
      | None \<Rightarrow> (case ConcurrentMultiMap_ToJSON marshal ks (Some m) of (q, r) \<Rightarrow> (q, JSONResultString r ''{}'')))"

subsection \<open>In every order of critical sections a finite map\<close>

datatype (dead 'k, dead 'v) cm_op =
    CmSet 'k 'v | CmSetAll "('k, 'v) go_map" | CmGet 'k | CmGetOption 'k | CmGetOrDefault 'k 'v | CmGetOrStore 'k 'v
  | CmDelete 'k | CmLoadAndDelete 'k | CmLoadAndDeleteOption 'k | CmLen | CmIsEmpty | CmClear | CmAll
  | CmJSONRead | CmJSONFill | CmStringRead

datatype (dead 'k, dead 'v) cm_res =
    CmUnit | CmVal "'v option" | CmPlain 'v | CmLoaded 'v bool | CmBool bool | CmNat nat | CmMap "('k, 'v) fmap"
  | CmCached "bytes option" | CmBytes "string + bytes"

primrec cm_step ::
    "('k, 'v) fmap json_marshal \<Rightarrow> ('k, 'v) cm_op \<Rightarrow> ('k, 'v) cmap option \<Rightarrow> ('k, 'v) cmap option \<times> ('k, 'v) cm_res" where
  "cm_step marshal (CmSet k v) p = (ConcurrentMap_Set p k v, CmUnit)"
| "cm_step marshal (CmSetAll src) p = (ConcurrentMap_SetAll p src, CmUnit)"
| "cm_step marshal (CmGet k) p = (p, CmVal (ConcurrentMap_Get p k))"
| "cm_step marshal (CmGetOption k) p = (p, CmVal (ConcurrentMap_GetOption p k))"
| "cm_step marshal (CmGetOrDefault k v) p = (p, CmPlain (ConcurrentMap_GetOrDefault p k v))"
| "cm_step marshal (CmGetOrStore k v) p =
     (case ConcurrentMap_GetOrStore p k v of (q, actual, loaded) \<Rightarrow> (q, CmLoaded actual loaded))"
| "cm_step marshal (CmDelete k) p = map_prod id CmBool (ConcurrentMap_Delete p k)"
| "cm_step marshal (CmLoadAndDelete k) p = map_prod id CmVal (ConcurrentMap_LoadAndDelete p k)"
| "cm_step marshal (CmLoadAndDeleteOption k) p = map_prod id CmVal (ConcurrentMap_LoadAndDeleteOption p k)"
| "cm_step marshal CmLen p = (p, CmNat (ConcurrentMap_Len p))"
| "cm_step marshal CmIsEmpty p = (p, CmBool (ConcurrentMap_IsEmpty p))"
| "cm_step marshal CmClear p = (ConcurrentMap_Clear p, CmUnit)"
| "cm_step marshal CmAll p = (p, CmMap (ml (ConcurrentMap_All p)))"
| "cm_step marshal CmJSONRead p = (p, CmCached (case p of None \<Rightarrow> None | Some m \<Rightarrow> co_json_read m))"
| "cm_step marshal CmJSONFill p =
     (case p of
        None \<Rightarrow> (None, CmBytes (snd (ConcurrentMap_ToJSON marshal None)))
      | Some m \<Rightarrow> map_prod Some CmBytes (co_json_fill (cm_fresh marshal m) m))"
| "cm_step marshal CmStringRead p = (p, CmCached (case p of None \<Rightarrow> None | Some m \<Rightarrow> co_string_read m))"

text \<open>The specification leaves open whether a section finds the cache filled; what it finds is current.\<close>

primrec cm_spec ::
    "('k, 'v) fmap json_marshal \<Rightarrow> ('k, 'v) cm_op \<Rightarrow> ('k, 'v) fmap \<Rightarrow> ('k, 'v) cm_res \<Rightarrow> ('k, 'v) fmap \<Rightarrow> bool" where
  "cm_spec marshal (CmSet k v) f r f' \<longleftrightarrow> f' = fmupd k v f \<and> r = CmUnit"
| "cm_spec marshal (CmSetAll src) f r f' \<longleftrightarrow> f' = fmadd f (ml src) \<and> r = CmUnit"
| "cm_spec marshal (CmGet k) f r f' \<longleftrightarrow> f' = f \<and> r = CmVal (fmlookup f k)"
| "cm_spec marshal (CmGetOption k) f r f' \<longleftrightarrow> f' = f \<and> r = CmVal (fmlookup f k)"
| "cm_spec marshal (CmGetOrDefault k v) f r f' \<longleftrightarrow>
     f' = f \<and> r = CmPlain (case fmlookup f k of None \<Rightarrow> v | Some x \<Rightarrow> x)"
| "cm_spec marshal (CmGetOrStore k v) f r f' \<longleftrightarrow>
     (case fmlookup f k of
        None \<Rightarrow> f' = fmupd k v f \<and> r = CmLoaded v False
      | Some x \<Rightarrow> f' = f \<and> r = CmLoaded x True)"
| "cm_spec marshal (CmDelete k) f r f' \<longleftrightarrow> f' = fmdrop k f \<and> r = CmBool (fmlookup f k \<noteq> None)"
| "cm_spec marshal (CmLoadAndDelete k) f r f' \<longleftrightarrow> f' = fmdrop k f \<and> r = CmVal (fmlookup f k)"
| "cm_spec marshal (CmLoadAndDeleteOption k) f r f' \<longleftrightarrow> f' = fmdrop k f \<and> r = CmVal (fmlookup f k)"
| "cm_spec marshal CmLen f r f' \<longleftrightarrow> f' = f \<and> r = CmNat (fm_size f)"
| "cm_spec marshal CmIsEmpty f r f' \<longleftrightarrow> f' = f \<and> r = CmBool (f = fmempty)"
| "cm_spec marshal CmClear f r f' \<longleftrightarrow> f' = fmempty \<and> r = CmUnit"
| "cm_spec marshal CmAll f r f' \<longleftrightarrow> f' = f \<and> r = CmMap f"
| "cm_spec marshal CmJSONRead f r f' \<longleftrightarrow>
     f' = f \<and> (r = CmCached None \<or> (\<exists>d. r = CmCached (Some d) \<and> marshal f = Inr d))"
| "cm_spec marshal CmJSONFill f r f' \<longleftrightarrow> f' = f \<and> r = CmBytes (marshalMappingJSON marshal f ''concurrent map'')"
| "cm_spec marshal CmStringRead f r f' \<longleftrightarrow>
     f' = f \<and> (r = CmCached None \<or> (\<exists>d. r = CmCached (Some d) \<and> marshal f = Inr d))"

definition cm_content :: "('k, 'v) cmap \<Rightarrow> ('k, 'v) fmap" where
  "cm_content m = (case core m of None \<Rightarrow> fmempty | Some g \<Rightarrow> gm_map g)"

definition cm_abs :: "('k, 'v) cmap option \<Rightarrow> ('k, 'v) fmap" where
  "cm_abs p = (case p of None \<Rightarrow> fmempty | Some m \<Rightarrow> cm_content m)"

definition cm_inv :: "('k, 'v) fmap json_marshal \<Rightarrow> ('k, 'v) cmap option \<Rightarrow> bool" where
  "cm_inv marshal p \<longleftrightarrow>
     (\<exists>m. p = Some m \<and> ser_coherent (marshalMappingJSON marshal (cm_content m) ''concurrent map'') (co_ser m))"

lemma cm_content_simps [simp]:
  "cm_content (co_dirty m) = cm_content m"
  "cm_content (m\<lparr>core := Some g\<rparr>) = gm_map g"
  "cm_content (m\<lparr>core := Some g, co_ser := c\<rparr>) = gm_map g"
  "cm_content (m\<lparr>co_ser := c\<rparr>) = cm_content m"
  by (simp_all add: cm_content_def)

lemma cm_ensureInit:
  "\<exists>g. core (ConcurrentMap_ensureInitLocked m) = Some g \<and> gm_map g = cm_content m
     \<and> co_ser (ConcurrentMap_ensureInitLocked m) = co_ser m"
  using NewMap_map by (cases "core m") (auto simp: ConcurrentMap_ensureInitLocked_def cm_content_def)

lemma cm_fresh_content: "cm_fresh marshal m = marshalMappingJSON marshal (cm_content m) ''concurrent map''"
  by (cases "core m") (auto simp: cm_fresh_def cm_content_def gm_map_def)

lemma cm_Set_content: "\<exists>m'. ConcurrentMap_Set (Some m) k v = Some m' \<and> cm_inv marshal (Some m') \<and> cm_content m' = fmupd k v (cm_content m)"
proof -
  obtain g where g: "core (ConcurrentMap_ensureInitLocked m) = Some g" "gm_map g = cm_content m"
    using cm_ensureInit by blast
  then show ?thesis using Map_Set_map [of g k v] by (auto simp: cm_inv_def)
qed

lemma cm_SetAll_content:
  assumes "cm_inv marshal (Some m)"
  shows "\<exists>m'. ConcurrentMap_SetAll (Some m) src = Some m' \<and> cm_inv marshal (Some m')
     \<and> cm_content m' = fmadd (cm_content m) (ml src)"
proof -
  obtain g where g: "core (ConcurrentMap_ensureInitLocked m) = Some g" "gm_map g = cm_content m"
    using cm_ensureInit by blast
  then show ?thesis using assms Map_SetAll_map [of g src] by (cases "ml src = fmempty") (auto simp: cm_inv_def)
qed

lemma cm_GetOrStore_content:
  assumes "cm_inv marshal (Some m)"
  shows "case fmlookup (cm_content m) k of
      None \<Rightarrow> \<exists>m'. ConcurrentMap_GetOrStore (Some m) k v = (Some m', v, False) \<and> cm_inv marshal (Some m')
                 \<and> cm_content m' = fmupd k v (cm_content m)
    | Some x \<Rightarrow> \<exists>m'. ConcurrentMap_GetOrStore (Some m) k v = (Some m', x, True) \<and> cm_inv marshal (Some m')
                 \<and> cm_content m' = cm_content m"
proof -
  let ?n = "ConcurrentMap_ensureInitLocked m"
  obtain g where g: "core ?n = Some g" "gm_map g = cm_content m" "co_ser ?n = co_ser m"
    using cm_ensureInit by blast
  moreover have "cm_content ?n = cm_content m" using g by (simp add: cm_content_def)
  ultimately show ?thesis
    using assms Map_Set_map [of g k v] by (auto simp: cm_inv_def split: option.split)
qed

lemma cm_Delete_content:
  assumes "cm_inv marshal (Some m)"
  shows "\<exists>m'. ConcurrentMap_Delete (Some m) k = (Some m', fmlookup (cm_content m) k \<noteq> None) \<and> cm_inv marshal (Some m')
      \<and> cm_content m' = fmdrop k (cm_content m)"
    and "\<exists>m'. ConcurrentMap_LoadAndDelete (Some m) k = (Some m', fmlookup (cm_content m) k) \<and> cm_inv marshal (Some m')
      \<and> cm_content m' = fmdrop k (cm_content m)"
proof -
  have idle: "fmdrop k f = f" if "fmlookup f k = None" for f :: "('a, 'b) fmap"
    using that by (simp add: fmdrop_idle fmlookup_dom_iff)
  have "(\<exists>m'. ConcurrentMap_Delete (Some m) k = (Some m', fmlookup (cm_content m) k \<noteq> None) \<and> cm_inv marshal (Some m')
      \<and> cm_content m' = fmdrop k (cm_content m))
    \<and> (\<exists>m'. ConcurrentMap_LoadAndDelete (Some m) k = (Some m', fmlookup (cm_content m) k) \<and> cm_inv marshal (Some m')
      \<and> cm_content m' = fmdrop k (cm_content m))"
  proof (cases "core m")
    case None
    then show ?thesis using assms by (simp add: cm_content_def)
  next
    case (Some g)
    then have c: "cm_content m = gm_map g" by (simp add: cm_content_def)
    show ?thesis
      using Some c assms Map_Delete_map [of g k] idle [of "gm_map g"]
      by (cases "fmlookup (gm_map g) k") (auto simp: cm_inv_def Let_def)
  qed
  then show "\<exists>m'. ConcurrentMap_Delete (Some m) k = (Some m', fmlookup (cm_content m) k \<noteq> None) \<and> cm_inv marshal (Some m')
      \<and> cm_content m' = fmdrop k (cm_content m)"
    and "\<exists>m'. ConcurrentMap_LoadAndDelete (Some m) k = (Some m', fmlookup (cm_content m) k) \<and> cm_inv marshal (Some m')
      \<and> cm_content m' = fmdrop k (cm_content m)" by blast+
qed

lemma cm_reads:
  "ConcurrentMap_Get (Some m) k = fmlookup (cm_content m) k"
  "ConcurrentMap_GetOption (Some m) k = fmlookup (cm_content m) k"
  "ConcurrentMap_GetOrDefault (Some m) k v = (case fmlookup (cm_content m) k of None \<Rightarrow> v | Some x \<Rightarrow> x)"
  "ConcurrentMap_Len (Some m) = fm_size (cm_content m)"
  "ConcurrentMap_IsEmpty (Some m) \<longleftrightarrow> cm_content m = fmempty"
  "ConcurrentMap_All (Some m) = Some (cm_content m)"
  by (cases "core m"; auto simp: cm_content_def ConcurrentMap_GetOption_def ConcurrentMap_GetOrDefault_def
      ConcurrentMap_IsEmpty_def split: option.split)+

lemma cm_Clear_content:
  assumes "cm_inv marshal (Some m)"
  shows "\<exists>m'. ConcurrentMap_Clear (Some m) = Some m' \<and> cm_inv marshal (Some m') \<and> cm_content m' = fmempty"
proof (cases "core m")
  case None
  then show ?thesis using assms by (simp add: cm_content_def)
next
  case (Some g)
  then show ?thesis using Map_Clear_map [of g] by (auto simp: cm_inv_def)
qed

lemma cm_step_refines:
  fixes p :: "('k, 'v) cmap option"
  assumes inv: "cm_inv marshal p"
  shows "cm_inv marshal (fst (cm_step marshal c p))
       \<and> cm_spec marshal c (cm_abs p) (snd (cm_step marshal c p)) (cm_abs (fst (cm_step marshal c p)))"
proof -
  obtain m where p: "p = Some m" using inv by (auto simp: cm_inv_def)
  note i = inv [unfolded p]
  have coh: "ser_coherent (marshalMappingJSON marshal (cm_content m) ''concurrent map'') (co_ser m)"
    using i by (simp add: cm_inv_def)
  have abs: "cm_abs (Some x) = cm_content x" for x :: "('k, 'v) cmap" by (simp add: cm_abs_def)
  have marshalled: "marshalMappingJSON marshal f ''concurrent map'' = Inr d \<longleftrightarrow> marshal f = Inr d" for f d
    by (auto simp: marshalMappingJSON_def split: sum.splits)
  note del = ConcurrentMap_Set.simps ConcurrentMap_SetAll.simps ConcurrentMap_Get.simps ConcurrentMap_GetOrStore.simps
    ConcurrentMap_Delete.simps ConcurrentMap_LoadAndDelete.simps ConcurrentMap_Len.simps ConcurrentMap_Clear.simps
    ConcurrentMap_All.simps
  show ?thesis
  proof (cases c)
    case (CmSet k v)
    then show ?thesis using cm_Set_content [of m k v marshal] by (auto simp: p abs simp del: del)
  next
    case (CmSetAll src)
    then show ?thesis using cm_SetAll_content [OF i, of src] by (auto simp: p abs simp del: del)
  next
    case (CmGetOrStore k v)
    then show ?thesis
      using cm_GetOrStore_content [OF i, of k v] by (auto simp: p abs simp del: del split: option.splits)
  next
    case (CmDelete k)
    then show ?thesis using cm_Delete_content(1) [OF i, of k] by (auto simp: p abs simp del: del)
  next
    case (CmLoadAndDelete k)
    then show ?thesis using cm_Delete_content(2) [OF i, of k] by (auto simp: p abs simp del: del)
  next
    case (CmLoadAndDeleteOption k)
    then show ?thesis
      using cm_Delete_content(2) [OF i, of k]
      by (auto simp: p abs ConcurrentMap_LoadAndDeleteOption_def simp del: del split: option.splits)
  next
    case CmClear
    then show ?thesis using cm_Clear_content [OF i] by (auto simp: p abs simp del: del)
  next
    case CmJSONRead
    then show ?thesis
      using i co_json_read_fresh [OF coh] marshalled by (cases "co_json_read m") (auto simp: p abs)
  next
    case CmStringRead
    then show ?thesis
      using i co_string_read_fresh [OF coh] marshalled by (cases "co_string_read m") (auto simp: p abs)
  next
    case CmJSONFill
    have same: "cm_content (fst (co_json_fill f m)) = cm_content m" for f
      by (auto simp: co_json_fill_def split: option.split sum.split)
    show ?thesis
      using co_json_fill_fresh [OF coh] same
      by (simp add: CmJSONFill p abs cm_fresh_content cm_inv_def)
  qed (use i in \<open>simp_all add: p abs cm_reads del: del\<close>)
qed

interpretation cm_ref: loose_refinement "cm_step marshal" "cm_inv marshal" "cm_spec marshal" cm_abs
  for marshal :: "('k, 'v) fmap json_marshal"
  by unfold_locales (use cm_step_refines in blast)+

lemma cm_inv_new: "cm_inv marshal NewConcurrentMap" "cm_abs (NewConcurrentMap :: ('k, 'v) cmap option) = fmempty"
  by (simp_all add: cm_inv_def cm_abs_def cm_content_def NewConcurrentMap_def NewConcurrentMapWithCapacity_def
      NewMapWithCapacity_def gm_map_def gm_zero_def)

text \<open>
  C38. In whatever order goroutines enter the critical sections of one \<open>ConcurrentMap\<close>, each section answers
  as a finite map would: \<open>GetOrStore\<close> stores only if the key is absent and otherwise answers the stored
  value, \<open>LoadAndDelete\<close> takes it away, and a serialization that \<open>ToJSON\<close> or \<open>String\<close> finds in the cache or
  fills in is that of the content at that moment.
\<close>

theorem concurrent_map_linearizes:
  "admits (cm_spec marshal) cs fmempty (snd (run (cm_step marshal) cs NewConcurrentMap))
     (cm_abs (fst (run (cm_step marshal) cs NewConcurrentMap)))"
  using cm_ref.run_admits [OF cm_inv_new(1), of marshal cs] by (simp only: cm_inv_new(2))

subsection \<open>ConcurrentMultiMap in every order\<close>

datatype (dead 'k, dead 'v, dead 'st) cmm_op =
    CmmPut 'k 'v | CmmPutAll 'k "'v list" | CmmSet 'k "'v list" | CmmGet 'k | CmmGetCopy 'k | CmmGetOption 'k
  | CmmDelete 'k | CmmDeleteValueIf 'k "'v \<Rightarrow> bool" | CmmContainsKey 'k | CmmLen | CmmValueCount | CmmIsEmpty
  | CmmClear | CmmAll "('k, 'v) visit" | CmmSnapshot "('k, 'v) visit"
  | CmmJSONRead | CmmJSONFill "('k, 'v) visit" | CmmStringRead

fun cmm_ok :: "('k, 'v, 'st) cmm_op \<Rightarrow> bool" where
  "cmm_ok (CmmAll ord) = visit_ok ord"
| "cmm_ok (CmmSnapshot ord) = visit_ok ord"
| "cmm_ok (CmmJSONFill ord) = visit_ok ord"
| "cmm_ok _ = True"

definition cmm_content :: "('k, 'v) cmultimap \<Rightarrow> ('k, 'v list) fmap" where
  "cmm_content m = mm_abs (core m)"

definition cmm_abs :: "('k, 'v) cmultimap option \<Rightarrow> ('k, 'v list) fmap" where
  "cmm_abs p = (case p of None \<Rightarrow> fmempty | Some m \<Rightarrow> cmm_content m)"

text \<open>Whether a section finds the cache filled is left open: \<open>seen\<close> says it may answer \<open>None\<close>.\<close>

definition seen :: "(string + bytes) \<Rightarrow> bytes option \<Rightarrow> bool" where
  "seen fresh r \<longleftrightarrow> (case r of None \<Rightarrow> True | Some d \<Rightarrow> fresh = Inr d)"

datatype (dead 'k, dead 'v, dead 'st) cmm_res = CmmRes "('k, 'v, 'st) mm_res" | CmmCached "bytes option"

primrec cmm_step ::
    "('k, 'v list) fmap json_marshal \<Rightarrow> ('k, 'v, 'st) cmm_op \<Rightarrow> ('k, 'v) cmultimap option
     \<Rightarrow> ('k, 'v) cmultimap option \<times> ('k, 'v, 'st) cmm_res" where
  "cmm_step marshal (CmmPut k v) p = (ConcurrentMultiMap_Put p k v, CmmRes MmUnit)"
| "cmm_step marshal (CmmPutAll k vs) p = (ConcurrentMultiMap_PutAll p k vs, CmmRes MmUnit)"
| "cmm_step marshal (CmmSet k vs) p = (ConcurrentMultiMap_Set p k vs, CmmRes MmUnit)"
| "cmm_step marshal (CmmGet k) p = (p, CmmRes (MmVals (ConcurrentMultiMap_Get p k)))"
| "cmm_step marshal (CmmGetCopy k) p = (p, CmmRes (MmVals (ConcurrentMultiMap_GetCopy p k)))"
| "cmm_step marshal (CmmGetOption k) p = (p, CmmRes (MmOpt (ConcurrentMultiMap_GetOption p k)))"
| "cmm_step marshal (CmmDelete k) p = map_prod id (\<lambda>b. CmmRes (MmBool b)) (ConcurrentMultiMap_Delete p k)"
| "cmm_step marshal (CmmDeleteValueIf k Q) p =
     map_prod id (\<lambda>n. CmmRes (MmInt n)) (ConcurrentMultiMap_DeleteValueIf p k (Some Q))"
| "cmm_step marshal (CmmContainsKey k) p = (p, CmmRes (MmBool (ConcurrentMultiMap_ContainsKey p k)))"
| "cmm_step marshal CmmLen p = (p, CmmRes (MmInt (int (ConcurrentMultiMap_Len p))))"
| "cmm_step marshal CmmValueCount p = (p, CmmRes (MmInt (ConcurrentMultiMap_ValueCount p)))"
| "cmm_step marshal CmmIsEmpty p = (p, CmmRes (MmBool (ConcurrentMultiMap_IsEmpty p)))"
| "cmm_step marshal CmmClear p = (ConcurrentMultiMap_Clear p, CmmRes MmUnit)"
| "cmm_step marshal (CmmAll ord) p = (p, CmmRes (MmMap (ConcurrentMultiMap_All (ord (cmm_abs p)) p)))"
| "cmm_step marshal (CmmSnapshot ord) p =
     (p, CmmRes (MmMulti (mm_view (ConcurrentMultiMap_Snapshot (ord (cmm_abs p)) p))))"
| "cmm_step marshal CmmJSONRead p = (p, CmmCached (case p of None \<Rightarrow> None | Some m \<Rightarrow> co_json_read m))"
| "cmm_step marshal (CmmJSONFill ord) p =
     (case p of
        None \<Rightarrow> (None, CmmRes (MmBytes (snd (ConcurrentMultiMap_ToJSON marshal [] None))))
      | Some m \<Rightarrow> map_prod Some (\<lambda>r. CmmRes (MmBytes r)) (co_json_fill (cmm_fresh marshal (ord (cmm_abs p)) m) m))"
| "cmm_step marshal CmmStringRead p = (p, CmmCached (case p of None \<Rightarrow> None | Some m \<Rightarrow> co_string_read m))"

text \<open>Each section as the sequential multimap's specification has it.\<close>

fun cmm_seq :: "('k, 'v, 'st) cmm_op \<Rightarrow> ('k, 'v, 'st) mm_op option" where
  "cmm_seq (CmmPut k v) = Some (MmPut k v)"
| "cmm_seq (CmmPutAll k vs) = Some (MmPutAll k vs)"
| "cmm_seq (CmmSet k vs) = Some (MmSet k vs)"
| "cmm_seq (CmmGet k) = Some (MmGet k)"
| "cmm_seq (CmmGetCopy k) = Some (MmGetCopy k)"
| "cmm_seq (CmmGetOption k) = Some (MmGetOption k)"
| "cmm_seq (CmmDelete k) = Some (MmDelete k)"
| "cmm_seq (CmmDeleteValueIf k Q) = Some (MmDeleteValueIf k (Some Q))"
| "cmm_seq (CmmContainsKey k) = Some (MmContainsKey k)"
| "cmm_seq CmmLen = Some MmLen"
| "cmm_seq CmmValueCount = Some MmValueCount"
| "cmm_seq CmmIsEmpty = Some MmIsEmpty"
| "cmm_seq CmmClear = Some MmClear"
| "cmm_seq (CmmAll ord) = Some (MmAll ord)"
| "cmm_seq (CmmSnapshot ord) = Some (MmClone ord)"
| "cmm_seq _ = None"

definition cmm_spec ::
    "('k, 'v list) fmap json_marshal \<Rightarrow> ('k, 'v, 'st) cmm_op \<Rightarrow> ('k, 'v list) fmap
     \<Rightarrow> ('k, 'v, 'st) cmm_res \<Rightarrow> ('k, 'v list) fmap \<Rightarrow> bool" where
  "cmm_spec marshal c f r f' \<longleftrightarrow>
     (case cmm_seq c of
        Some d \<Rightarrow> (f', r) = map_prod id CmmRes (mm_spec marshal d f)
      | None \<Rightarrow> f' = f \<and>
          (case r of
             CmmRes x \<Rightarrow> x = MmBytes (marshalMappingJSON marshal f ''concurrent multimap'')
           | CmmCached d \<Rightarrow> seen (marshalMappingJSON marshal f ''concurrent multimap'') d))"

definition cmm_inv :: "('k, 'v list) fmap json_marshal \<Rightarrow> ('k, 'v) cmultimap option \<Rightarrow> bool" where
  "cmm_inv marshal p \<longleftrightarrow>
     (\<exists>m. p = Some m \<and> (\<forall>g. core m = Some g \<longrightarrow> mm_counted g)
        \<and> ser_coherent (marshalMappingJSON marshal (cmm_content m) ''concurrent multimap'') (co_ser m))"

lemma cmm_content_simps [simp]:
  "cmm_content (co_dirty m) = cmm_content m"
  "cmm_content (m\<lparr>core := Some g\<rparr>) = mm_map g"
  "cmm_content (m\<lparr>core := Some g, co_ser := c\<rparr>) = mm_map g"
  "cmm_content (m\<lparr>co_ser := c\<rparr>) = cmm_content m"
  by (simp_all add: cmm_content_def mm_abs_def)

lemma cmm_core:
  assumes "cmm_inv marshal (Some m)"
  obtains "core m = None" "cmm_content m = fmempty"
  | g where "core m = Some g" "mm_counted g" "cmm_content m = mm_map g"
  using assms by (cases "core m") (auto simp: cmm_inv_def cmm_content_def mm_abs_def)

lemma cmm_ensureInit:
  assumes "cmm_inv marshal (Some m)"
  shows "\<exists>g. core (ConcurrentMultiMap_ensureInitLocked m) = Some g \<and> mm_counted g \<and> mm_map g = cmm_content m"
  using assms mm_new [of 0, where ?'a = 'a and ?'b = 'b]
  by (elim cmm_core) (auto simp: ConcurrentMultiMap_ensureInitLocked_def NewMultiMap_def)

lemma cmm_invI: "mm_counted g \<Longrightarrow> cmm_inv marshal (Some (co_dirty (m\<lparr>core := Some g\<rparr>)))"
  by (simp add: cmm_inv_def)

lemma cmm_mutations:
  assumes inv: "cmm_inv marshal (Some m)"
  shows "\<exists>m'. ConcurrentMultiMap_PutAll (Some m) k vs = Some m' \<and> cmm_inv marshal (Some m') \<and> cmm_content m'
       = (if vs = [] then cmm_content m else mm_write k (or_nil (fmlookup (cmm_content m) k) @ vs) (cmm_content m))"
    and "\<exists>m'. ConcurrentMultiMap_Set (Some m) k vs = Some m' \<and> cmm_inv marshal (Some m')
       \<and> cmm_content m' = mm_write k vs (cmm_content m)"
    and "\<exists>m'. ConcurrentMultiMap_Clear (Some m) = Some m' \<and> cmm_inv marshal (Some m') \<and> cmm_content m' = fmempty"
proof -
  obtain g where g: "core (ConcurrentMultiMap_ensureInitLocked m) = Some g" "mm_counted g" "mm_map g = cmm_content m"
    using cmm_ensureInit [OF inv] by blast
  show "\<exists>m'. ConcurrentMultiMap_PutAll (Some m) k vs = Some m' \<and> cmm_inv marshal (Some m') \<and> cmm_content m'
      = (if vs = [] then cmm_content m else mm_write k (or_nil (fmlookup (cmm_content m) k) @ vs) (cmm_content m))"
  proof (cases "vs = []")
    case False
    then obtain g' where "MultiMap_PutAll (Some g) k vs = Some g'" "mm_counted g'"
        "mm_map g' = mm_write k (or_nil (fmlookup (cmm_content m) k) @ vs) (cmm_content m)"
      using MultiMap_PutAll_map [OF g(2), of k vs] g(3) by (auto simp: mm_write_def simp del: MultiMap_PutAll.simps)
    then show ?thesis using False g(1) cmm_invI by (simp add: Let_def del: MultiMap_PutAll.simps)
  qed (use inv in simp)
  obtain g' where "MultiMap_Set (Some g) k vs = Some g'" "mm_counted g'" "mm_map g' = mm_write k vs (cmm_content m)"
    using MultiMap_Set_map [OF g(2), of k vs] unfolding g(3) mm_write_def by blast
  then show "\<exists>m'. ConcurrentMultiMap_Set (Some m) k vs = Some m' \<and> cmm_inv marshal (Some m')
      \<and> cmm_content m' = mm_write k vs (cmm_content m)"
    using g(1) cmm_invI by (simp add: Let_def del: MultiMap_Set.simps)
  show "\<exists>m'. ConcurrentMultiMap_Clear (Some m) = Some m' \<and> cmm_inv marshal (Some m') \<and> cmm_content m' = fmempty"
    using inv
  proof (cases rule: cmm_core)
    case 2
    then show ?thesis by (simp add: cmm_inv_def mm_counted_def)
  qed (use inv in simp)
qed

lemma cmm_deletions:
  assumes inv: "cmm_inv marshal (Some m)"
  shows "\<exists>m'. ConcurrentMultiMap_Delete (Some m) k = (Some m', fmlookup (cmm_content m) k \<noteq> None)
       \<and> cmm_inv marshal (Some m') \<and> cmm_content m' = fmdrop k (cmm_content m)" (is ?D)
    and "\<exists>m'. ConcurrentMultiMap_DeleteValueIf (Some m) k (Some Q)
         = (Some m', int (length (filter Q (or_nil (fmlookup (cmm_content m) k)))))
       \<and> cmm_inv marshal (Some m')
       \<and> cmm_content m' = mm_write k (filter (\<lambda>v. \<not> Q v) (or_nil (fmlookup (cmm_content m) k))) (cmm_content m)" (is ?V)
proof -
  have "?D \<and> ?V" using inv
  proof (cases rule: cmm_core)
    case 1
    then show ?thesis using inv by (simp add: mm_write_def)
  next
    case (2 g)
    have g: "mm_inv (\<lambda>_. Inl []) (Some (g\<lparr>mm_ser := ser_zero\<rparr>))" using 2(2) by (simp add: mm_inv_def mm_counted_def)
    have kept: "cmm_inv marshal (Some (m\<lparr>core := Some h\<rparr>))" if "mm_counted h" "mm_map h = mm_map g" for h
      using that inv 2(3) by (simp add: cmm_inv_def)
    obtain g1 where g1: "MultiMap_Delete (Some g) k = (Some g1, fmlookup (mm_map g) k \<noteq> None)" "mm_counted g1"
        "mm_map g1 = fmdrop k (mm_map g)"
      using MultiMap_Delete_map [OF 2(2)] by blast
    have idle: "fmlookup (mm_map g) k = None \<Longrightarrow> fmdrop k (mm_map g) = mm_map g"
      by (simp add: fmdrop_idle fmlookup_dom_iff)
    have D: ?D
    proof (cases "fmlookup (mm_map g) k")
      case None
      then show ?thesis using 2 g1 idle kept by (simp del: MultiMap_Delete.simps)
    next
      case (Some vs)
      then show ?thesis using 2 g1 cmm_invI by (simp add: Let_def del: MultiMap_Delete.simps)
    qed
    let ?old = "or_nil (fmlookup (mm_map g) k)"
    have len: "int (length ?old) - int (length (filter (\<lambda>v. \<not> Q v) ?old)) = int (length (filter Q ?old))"
      using sum_length_filter_compl [of Q ?old] by linarith
    obtain g2 where g2: "MultiMap_DeleteValueIf (Some g) k (Some Q) = (Some g2, int (length (filter Q ?old)))"
        "mm_counted g2" "mm_map g2 = mm_write k (filter (\<lambda>v. \<not> Q v) ?old) (mm_map g)"
      using MultiMap_DeleteValueIf_map [OF 2(2), of k Q] unfolding len mm_write_def by blast
    have V: ?V
    proof (cases "filter Q ?old = []")
      case True
      then have "filter (\<lambda>v. \<not> Q v) ?old = ?old" by (simp add: filter_empty_conv filter_id_conv)
      moreover have "mm_write k ?old (mm_map g) = mm_map g"
        using idle 2(2) by (cases "fmlookup (mm_map g) k")
          (auto simp: mm_write_def mm_counted_def mm_proper_def intro!: fmap_ext)
      ultimately show ?thesis using True 2 g2 kept by (simp del: MultiMap_DeleteValueIf.simps)
    next
      case False
      then show ?thesis using 2 g2 cmm_invI by (simp add: Let_def del: MultiMap_DeleteValueIf.simps)
    qed
    from D V show ?thesis by blast
  qed
  then show ?D ?V by blast+
qed

lemma cmm_reads:
  assumes "cmm_inv marshal (Some m)"
  shows "ConcurrentMultiMap_Get (Some m) k = or_nil (fmlookup (cmm_content m) k)"
    and "ConcurrentMultiMap_GetCopy (Some m) k = or_nil (fmlookup (cmm_content m) k)"
    and "ConcurrentMultiMap_GetOption (Some m) k = fmlookup (cmm_content m) k"
    and "ConcurrentMultiMap_ContainsKey (Some m) k \<longleftrightarrow> fmlookup (cmm_content m) k \<noteq> None"
    and "ConcurrentMultiMap_Len (Some m) = fm_size (cmm_content m)"
    and "ConcurrentMultiMap_ValueCount (Some m) = int (mm_total (cmm_content m))"
    and "ConcurrentMultiMap_IsEmpty (Some m) \<longleftrightarrow> cmm_content m = fmempty"
proof -
  note del = MultiMap_Get.simps MultiMap_ContainsKey.simps MultiMap_Len.simps MultiMap_ValueCount.simps
  have "ConcurrentMultiMap_Get (Some m) k = or_nil (fmlookup (cmm_content m) k)
    \<and> ConcurrentMultiMap_GetCopy (Some m) k = or_nil (fmlookup (cmm_content m) k)
    \<and> ConcurrentMultiMap_GetOption (Some m) k = fmlookup (cmm_content m) k
    \<and> (ConcurrentMultiMap_ContainsKey (Some m) k \<longleftrightarrow> fmlookup (cmm_content m) k \<noteq> None)
    \<and> ConcurrentMultiMap_Len (Some m) = fm_size (cmm_content m)
    \<and> ConcurrentMultiMap_ValueCount (Some m) = int (mm_total (cmm_content m))
    \<and> (ConcurrentMultiMap_IsEmpty (Some m) \<longleftrightarrow> cmm_content m = fmempty)"
    using assms
  proof (cases rule: cmm_core)
    case 1
    then show ?thesis by (simp add: ConcurrentMultiMap_GetOption_def ConcurrentMultiMap_IsEmpty_def)
  next
    case (2 g)
    then have "fmlookup (mm_map g) k \<noteq> Some []" by (simp add: mm_counted_def mm_proper_def)
    then show ?thesis using 2 mm_reads [OF 2(2)]
      by (cases "fmlookup (mm_map g) k")
        (simp_all add: ConcurrentMultiMap_GetOption_def ConcurrentMultiMap_IsEmpty_def del: del)
  qed
  then show "ConcurrentMultiMap_Get (Some m) k = or_nil (fmlookup (cmm_content m) k)"
    and "ConcurrentMultiMap_GetCopy (Some m) k = or_nil (fmlookup (cmm_content m) k)"
    and "ConcurrentMultiMap_GetOption (Some m) k = fmlookup (cmm_content m) k"
    and "ConcurrentMultiMap_ContainsKey (Some m) k \<longleftrightarrow> fmlookup (cmm_content m) k \<noteq> None"
    and "ConcurrentMultiMap_Len (Some m) = fm_size (cmm_content m)"
    and "ConcurrentMultiMap_ValueCount (Some m) = int (mm_total (cmm_content m))"
    and "ConcurrentMultiMap_IsEmpty (Some m) \<longleftrightarrow> cmm_content m = fmempty" by blast+
qed

lemma cmm_copies:
  fixes m :: "('k, 'v) cmultimap"
  assumes inv: "cmm_inv marshal (Some m)" and it: "iterates ks (cmm_content m)"
  shows "ConcurrentMultiMap_All ks (Some m) = cmm_content m"
    and "MmMulti (mm_view (ConcurrentMultiMap_Snapshot ks (Some m))) = mm_multi (cmm_content m)"
    and "cmm_fresh marshal ks m = marshalMappingJSON marshal (cmm_content m) ''concurrent multimap''"
proof -
  have new: "mm_view (NewMultiMap :: ('k, 'v) multimap option) = (fmempty, 0)"
    using mm_new [of 0, where ?'a = 'k and ?'b = 'v]
    by (auto simp: NewMultiMap_def mm_view_def mm_abs_def mm_counted_def)
  have "ConcurrentMultiMap_All ks (Some m) = cmm_content m
      \<and> mm_view (ConcurrentMultiMap_Snapshot ks (Some m)) = (cmm_content m, int (mm_total (cmm_content m)))
      \<and> cmm_fresh marshal ks m = marshalMappingJSON marshal (cmm_content m) ''concurrent multimap''"
    using inv
  proof (cases rule: cmm_core)
    case 1
    then show ?thesis by (simp add: new cmm_fresh_def)
  next
    case (2 g)
    have itg: "iterates ks (mm_map g)" using it 2(3) by simp
    have "mm_view (MultiMap_Clone ks (Some g)) = (mm_map g, int (mm_total (mm_map g)))"
      using mm_clone_view [OF itg 2(2)] by (simp add: mm_multi_def)
    then show ?thesis
      using 2 MultiMap_All_eq [OF itg] by (auto simp: cmm_fresh_def simp del: MultiMap_All.simps MultiMap_Clone.simps)
  qed
  then show "ConcurrentMultiMap_All ks (Some m) = cmm_content m"
    and "MmMulti (mm_view (ConcurrentMultiMap_Snapshot ks (Some m))) = mm_multi (cmm_content m)"
    and "cmm_fresh marshal ks m = marshalMappingJSON marshal (cmm_content m) ''concurrent multimap''"
    by (simp_all add: mm_multi_def)
qed

lemma cmm_step_refines:
  fixes p :: "('k, 'v) cmultimap option" and c :: "('k, 'v, 'st) cmm_op"
  assumes ok: "cmm_ok c" and inv: "cmm_inv marshal p"
  shows "cmm_inv marshal (fst (cmm_step marshal c p))
       \<and> cmm_spec marshal c (cmm_abs p) (snd (cmm_step marshal c p)) (cmm_abs (fst (cmm_step marshal c p)))"
proof -
  obtain m where p: "p = Some m" using inv by (auto simp: cmm_inv_def)
  note i = inv [unfolded p]
  have coh: "ser_coherent (marshalMappingJSON marshal (cmm_content m) ''concurrent multimap'') (co_ser m)"
    using i by (simp add: cmm_inv_def)
  have abs: "cmm_abs (Some x) = cmm_content x" for x :: "('k, 'v) cmultimap" by (simp add: cmm_abs_def)
  have it: "iterates (ord (cmm_content m)) (cmm_content m)" if "visit_ok ord" for ord
    using that by (simp add: visit_ok_def)
  note del = ConcurrentMultiMap_PutAll.simps ConcurrentMultiMap_Set.simps ConcurrentMultiMap_Get.simps
    ConcurrentMultiMap_GetCopy.simps ConcurrentMultiMap_Delete.simps ConcurrentMultiMap_DeleteValueIf.simps
    ConcurrentMultiMap_ContainsKey.simps ConcurrentMultiMap_Len.simps ConcurrentMultiMap_ValueCount.simps
    ConcurrentMultiMap_Clear.simps ConcurrentMultiMap_All.simps ConcurrentMultiMap_Snapshot.simps
  note ops = p abs cmm_spec_def
  show ?thesis
  proof (cases c)
    case (CmmPut k v)
    then show ?thesis
      using cmm_mutations(1) [OF i, of k "[v]"] by (auto simp: ops ConcurrentMultiMap_Put_def simp del: del)
  next
    case (CmmPutAll k vs)
    then show ?thesis using cmm_mutations(1) [OF i, of k vs] by (auto simp: ops simp del: del)
  next
    case (CmmSet k vs)
    then show ?thesis using cmm_mutations(2) [OF i, of k vs] by (auto simp: ops simp del: del)
  next
    case (CmmDelete k)
    then show ?thesis using cmm_deletions(1) [OF i, of k] by (auto simp: ops simp del: del)
  next
    case (CmmDeleteValueIf k Q)
    then show ?thesis using cmm_deletions(2) [OF i, of k Q] by (auto simp: ops simp del: del)
  next
    case CmmClear
    then show ?thesis using cmm_mutations(3) [OF i] by (auto simp: ops simp del: del)
  next
    case CmmJSONRead
    then show ?thesis using i co_json_read_fresh [OF coh] by (auto simp: ops seen_def split: option.split)
  next
    case CmmStringRead
    then show ?thesis using i co_string_read_fresh [OF coh] by (auto simp: ops seen_def split: option.split)
  next
    case (CmmJSONFill ord)
    have same: "cmm_content (fst (co_json_fill f m)) = cmm_content m" "core (fst (co_json_fill f m)) = core m" for f
      by (auto simp: co_json_fill_def split: option.split sum.split)
    show ?thesis
      using ok i co_json_fill_fresh [OF coh] same cmm_copies(3) [OF i it [of ord]]
      by (simp add: CmmJSONFill ops cmm_inv_def)
  qed (use ok i in \<open>simp_all add: ops cmm_reads [OF i] cmm_copies [OF i it] del: del\<close>)
qed

interpretation cmm_ref: guarded_loose_refinement cmm_ok "cmm_step marshal" "cmm_inv marshal" "cmm_spec marshal" cmm_abs
  for marshal :: "('k, 'v list) fmap json_marshal"
  by unfold_locales (use cmm_step_refines in blast)+

lemma cmm_inv_new:
  "cmm_inv marshal NewConcurrentMultiMap" "cmm_abs (NewConcurrentMultiMap :: ('k, 'v) cmultimap option) = fmempty"
  using mm_new [of 0]
  by (auto simp: cmm_inv_def cmm_abs_def cmm_content_def mm_abs_def NewConcurrentMultiMap_def
      NewConcurrentMultiMapWithCapacity_def NewMultiMapWithCapacity_def mm_zero_def)

text \<open>
  In whatever order goroutines enter the critical sections of one \<open>ConcurrentMultiMap\<close>, each section answers as
  the sequential specification does, and what \<open>ToJSON\<close> and \<open>String\<close> find or fill is current.
\<close>

theorem concurrent_multimap_linearizes:
  assumes "list_all cmm_ok cs"
  shows "admits (cmm_spec marshal) cs fmempty (snd (run (cmm_step marshal) cs NewConcurrentMultiMap))
     (cmm_abs (fst (run (cmm_step marshal) cs NewConcurrentMultiMap)))"
  using cmm_ref.guarded_admits [OF assms cmm_inv_new(1), of marshal] by (simp only: cmm_inv_new(2))

text \<open>
  Of any number of goroutines that call \<open>GetOrStore\<close> with one key that is absent, the first stores its value
  and all of them get that value.
\<close>

lemma get_or_store_agree:
  assumes inv: "cm_inv marshal (Some m)" and absent: "fmlookup (cm_content m) k = None"
  shows "snd (run (cm_step marshal) (map (CmGetOrStore k) (v # vs)) (Some m))
         = CmLoaded v False # replicate (length vs) (CmLoaded v True)"
proof -
  have rest: "snd (run (cm_step marshal) (map (CmGetOrStore k) ws) (Some n)) = replicate (length ws) (CmLoaded v True)"
    if "cm_inv marshal (Some n)" "fmlookup (cm_content n) k = Some v" for ws n
    using that
  proof (induction ws arbitrary: n)
    case (Cons w ws)
    obtain n' where "ConcurrentMap_GetOrStore (Some n) k w = (Some n', v, True)" "cm_inv marshal (Some n')"
        "cm_content n' = cm_content n"
      using cm_GetOrStore_content [OF Cons.prems(1), of k w] Cons.prems(2) by auto
    then show ?case using Cons.IH [of n'] Cons.prems(2) by (auto simp del: ConcurrentMap_GetOrStore.simps split: prod.splits)
  qed simp
  obtain n where "ConcurrentMap_GetOrStore (Some m) k v = (Some n, v, False)" "cm_inv marshal (Some n)"
      "cm_content n = fmupd k v (cm_content m)"
    using cm_GetOrStore_content [OF inv, of k v] absent by auto
  then show ?thesis using rest [of n vs] by (auto simp del: ConcurrentMap_GetOrStore.simps split: prod.splits)
qed

end
