(* ===== verification/Client_Error.thy ===== *)
theory Client_Error
  imports Go_Strings
begin

text \<open>
  \<^verbatim>\<open>clientx/error.go\<close>: client errors and their classification. \<open>gerror\<close> is an error value as the code sees
  it: sentinel values by name, \<open>*clientx.Error\<close>, the network and system errors of the standard library
  that the classifiers ask for, errors that wrap one other error, and joined errors. \<open>errors.Is\<close> and
  \<open>errors.AsType\<close> search the tree of unwrapped errors in pre-order. Names of protocols and kinds are the
  strings of the source. Shown: wrapping happens at most once, keeps what \<open>errors.Is\<close> finds and gives
  the kind asked for or inferred; the classifier's precedence.
\<close>

type_synonym Protocol = string
type_synonym ErrorKind = string

definition ProtocolUnknown :: Protocol where "ProtocolUnknown = ''unknown''"

definition ErrorKindUnknown :: ErrorKind where "ErrorKindUnknown = ''unknown''"
definition ErrorKindCanceled :: ErrorKind where "ErrorKindCanceled = ''canceled''"
definition ErrorKindTimeout :: ErrorKind where "ErrorKindTimeout = ''timeout''"
definition ErrorKindTemporary :: ErrorKind where "ErrorKindTemporary = ''temporary''"
definition ErrorKindConnRefused :: ErrorKind where "ErrorKindConnRefused = ''conn_refused''"
definition ErrorKindDNS :: ErrorKind where "ErrorKindDNS = ''dns''"
definition ErrorKindTLS :: ErrorKind where "ErrorKindTLS = ''tls''"
definition ErrorKindClosed :: ErrorKind where "ErrorKindClosed = ''closed''"
definition ErrorKindNetwork :: ErrorKind where "ErrorKindNetwork = ''network''"
definition ErrorKindCodec :: ErrorKind where "ErrorKindCodec = ''codec''"

lemmas error_kinds = ErrorKindUnknown_def ErrorKindCanceled_def ErrorKindTimeout_def ErrorKindTemporary_def
  ErrorKindConnRefused_def ErrorKindDNS_def ErrorKindTLS_def ErrorKindClosed_def ErrorKindNetwork_def ErrorKindCodec_def

text \<open>\<open>Sentinel name timeout\<close>: a package-level error value. \<open>NetError\<close>: any other implementation of
  \<open>net.Error\<close>. The flag is what \<open>Timeout()\<close> returns. \<open>Wrapped msg e\<close>: an error with an \<open>Unwrap\<close> method
  (\<open>fmt.Errorf\<close> with \<open>%w\<close>, samber/oops).\<close>

datatype gerror =
    Sentinel string
  | ClientError Protocol string string ErrorKind "gerror option"
  | DNSError bool "gerror option"
  | OpError bool "gerror option"
  | SyscallError "gerror option"
  | Errno nat
  | NetError bool string
  | Wrapped string gerror
  | Joined "gerror list"

definition Canceled :: gerror where "Canceled = Sentinel ''context canceled''"
definition DeadlineExceeded :: gerror where "DeadlineExceeded = Sentinel ''context deadline exceeded''"
definition netErrClosed :: gerror where "netErrClosed = Sentinel ''use of closed network connection''"
definition osErrClosed :: gerror where "osErrClosed = Sentinel ''file already closed''"

text \<open>The error and everything it wraps, in the order \<open>errors.Is\<close> and \<open>errors.As\<close> visit them.\<close>

fun chain :: "gerror \<Rightarrow> gerror list" where
  "chain (ClientError p oper a k (Some e)) = ClientError p oper a k (Some e) # chain e"
| "chain (DNSError t (Some e)) = DNSError t (Some e) # chain e"
| "chain (OpError t (Some e)) = OpError t (Some e) # chain e"
| "chain (SyscallError (Some e)) = SyscallError (Some e) # chain e"
| "chain (Wrapped m e) = Wrapped m e # chain e"
| "chain (Joined es) = Joined es # concat (map chain es)"
| "chain e = [e]"

definition errors_Is :: "gerror \<Rightarrow> gerror \<Rightarrow> bool" where
  "errors_Is err target \<longleftrightarrow> target \<in> set (chain err)"

fun is_client :: "gerror \<Rightarrow> bool" where
  "is_client (ClientError _ _ _ _ _) = True" | "is_client _ = False"

definition AsClientError :: "gerror \<Rightarrow> gerror option" where
  "AsClientError err = List.find is_client (chain err)"

text \<open>What implements \<open>net.Error\<close>: the network errors, \<open>syscall.Errno\<close>, the value of
  \<open>context.DeadlineExceeded\<close>, and \<open>*clientx.Error\<close> itself.\<close>

fun is_net :: "gerror \<Rightarrow> bool" where
  "is_net (ClientError _ _ _ _ _) = True"
| "is_net (DNSError _ _) = True"
| "is_net (OpError _ _) = True"
| "is_net (Errno _) = True"
| "is_net (NetError _ _) = True"
| "is_net (Sentinel s) \<longleftrightarrow> Sentinel s = DeadlineExceeded"
| "is_net _ = False"

definition AsNetError :: "gerror \<Rightarrow> gerror option" where
  "AsNetError err = List.find is_net (chain err)"

text \<open>\<open>EAGAIN\<close> and \<open>ETIMEDOUT\<close> on Linux.\<close>

definition errno_timeout :: "nat \<Rightarrow> bool" where
  "errno_timeout n \<longleftrightarrow> n = 11 \<or> n = 110"

definition ECONNREFUSED :: nat where "ECONNREFUSED = 111"

lemma chain_self: "err \<in> set (chain err)"
  by (cases err rule: chain.cases) simp_all

lemma chain_size: "e \<in> set (chain err) \<Longrightarrow> size e \<le> size err"
proof (induction err rule: chain.induct)
  case (6 es)
  show ?case
  proof (cases "e = Joined es")
    case False
    then obtain x where x: "x \<in> set es" "e \<in> set (chain x)" using "6.prems" by auto
    then have "size e \<le> size_list size es" using "6.IH" by (intro size_list_estimation')
    then show ?thesis by simp
  qed simp
qed auto

text \<open>\<open>(*Error).Timeout\<close>, through whatever implements \<open>net.Error\<close> below.\<close>

function Error_Timeout :: "gerror \<Rightarrow> bool" where
  "Error_Timeout err =
     (case err of
        ClientError p oper a k inner \<Rightarrow>
          k = ErrorKindTimeout \<or>
          (case inner of None \<Rightarrow> False
           | Some e \<Rightarrow> (case AsNetError e of None \<Rightarrow> False | Some n \<Rightarrow> Error_Timeout n))
      | DNSError t _ \<Rightarrow> t
      | OpError t _ \<Rightarrow> t
      | NetError t _ \<Rightarrow> t
      | Errno n \<Rightarrow> errno_timeout n
      | Sentinel s \<Rightarrow> Sentinel s = DeadlineExceeded
      | _ \<Rightarrow> False)"
  by pat_completeness auto
termination
proof (relation "measure size")
  fix err p oper a k inner e n
  assume "err = ClientError p oper a k inner" "inner = Some e" "AsNetError e = Some n"
  moreover from this(3) have "n \<in> set (chain e)" by (auto simp: AsNetError_def find_Some_iff)
  ultimately show "(n, err) \<in> measure size" using chain_size [of n e] by simp
qed simp

declare Error_Timeout.simps [simp del]

primrec Error_Temporary :: "gerror option \<Rightarrow> bool" where
  "Error_Temporary None = False"
| "Error_Temporary (Some err) = (case err of ClientError p oper a k e \<Rightarrow> k = ErrorKindTemporary | _ \<Rightarrow> False)"

primrec Error_Unwrap :: "gerror option \<Rightarrow> gerror option" where
  "Error_Unwrap None = None"
| "Error_Unwrap (Some err) = (case err of ClientError p oper a k e \<Rightarrow> e | _ \<Rightarrow> None)"

text \<open>\<open>message\<close> is what \<open>%v\<close> prints for the wrapped error.\<close>

fun Error_Error :: "(gerror \<Rightarrow> string) \<Rightarrow> gerror option \<Rightarrow> string" where
  "Error_Error message (Some (ClientError p oper a k None)) = p @ '' '' @ oper @ '' '' @ a @ '' ('' @ k @ '')''"
| "Error_Error message (Some (ClientError p oper a k (Some e))) =
     (if a \<noteq> [] then p @ '' '' @ oper @ '' '' @ a @ '' ('' @ k @ ''): '' @ message e
      else p @ '' '' @ oper @ '' ('' @ k @ ''): '' @ message e)"
| "Error_Error message _ = []"

subsection \<open>Classification\<close>

type_synonym classifier = "gerror \<Rightarrow> ErrorKind option"

definition classifyContextError :: classifier where
  "classifyContextError err =
     (if errors_Is err Canceled then Some ErrorKindCanceled
      else if errors_Is err DeadlineExceeded then Some ErrorKindTimeout else None)"

definition classifyClosedError :: classifier where
  "classifyClosedError err =
     (if errors_Is err netErrClosed \<or> errors_Is err osErrClosed then Some ErrorKindClosed else None)"

definition classifyDNSError :: classifier where
  "classifyDNSError err =
     (if list_ex (\<lambda>e. case e of DNSError _ _ \<Rightarrow> True | _ \<Rightarrow> False) (chain err) then Some ErrorKindDNS else None)"

definition classifyTimeoutNetworkError :: classifier where
  "classifyTimeoutNetworkError err =
     (case AsNetError err of
        None \<Rightarrow> None | Some n \<Rightarrow> if Error_Timeout n then Some ErrorKindTimeout else None)"

definition AsSyscallError :: "gerror \<Rightarrow> gerror option" where
  "AsSyscallError err = List.find (\<lambda>e. case e of SyscallError _ \<Rightarrow> True | _ \<Rightarrow> False) (chain err)"

definition AsErrno :: "gerror \<Rightarrow> gerror option" where
  "AsErrno err = List.find (\<lambda>e. case e of Errno _ \<Rightarrow> True | _ \<Rightarrow> False) (chain err)"

lemma AsSyscallError_smaller:
  assumes "AsSyscallError err = Some (SyscallError (Some inner))"
  shows "size inner < size err"
proof -
  have "SyscallError (Some inner) \<in> set (chain err)" using assms by (auto simp: AsSyscallError_def find_Some_iff)
  from chain_size [OF this] show ?thesis by simp
qed

function isConnRefused :: "gerror \<Rightarrow> bool" where
  "isConnRefused err =
     (if errors_Is err (Errno ECONNREFUSED) then True
      else case AsErrno err of
        Some (Errno n) \<Rightarrow> n \<in> {ECONNREFUSED, 10061}
      | _ \<Rightarrow>
         (case AsSyscallError err of
            Some (SyscallError (Some inner)) \<Rightarrow> isConnRefused inner
          | _ \<Rightarrow> False))"
  by pat_completeness auto
termination by (relation "measure size") (auto dest: AsSyscallError_smaller)

declare isConnRefused.simps [simp del]

definition AsOpError :: "gerror \<Rightarrow> gerror option" where
  "AsOpError err = List.find (\<lambda>e. case e of OpError _ _ \<Rightarrow> True | _ \<Rightarrow> False) (chain err)"

definition classifyOpNetworkError :: classifier where
  "classifyOpNetworkError err =
     (case AsOpError err of
        Some (OpError _ inner) \<Rightarrow>
          if (case inner of None \<Rightarrow> False | Some e \<Rightarrow> isConnRefused e) then Some ErrorKindConnRefused
          else Some ErrorKindNetwork
      | _ \<Rightarrow> None)"

definition classifyConnRefusedError :: classifier where
  "classifyConnRefusedError err = (if isConnRefused err then Some ErrorKindConnRefused else None)"

definition classifyGenericNetworkError :: classifier where
  "classifyGenericNetworkError err = (case AsNetError err of None \<Rightarrow> None | Some _ \<Rightarrow> Some ErrorKindNetwork)"

text \<open>\<open>lo.Find\<close> over the classifiers is the parameter \<open>lo_Find\<close>; the kind the last tried classifier
  returned is what remains, as in the source.\<close>

definition networkClassifiers :: "classifier list" where
  "networkClassifiers =
     [classifyDNSError, classifyTimeoutNetworkError, classifyOpNetworkError, classifyConnRefusedError,
      classifyGenericNetworkError]"

type_synonym lo_find = "classifier list \<Rightarrow> (classifier \<Rightarrow> bool) \<Rightarrow> classifier option"

definition classifyTypedNetworkError :: "lo_find \<Rightarrow> classifier" where
  "classifyTypedNetworkError lo_Find err =
     (case lo_Find networkClassifiers (\<lambda>classify. classify err \<noteq> None) of
        None \<Rightarrow> None | Some classify \<Rightarrow> classify err)"

definition containsStr :: "string \<Rightarrow> string \<Rightarrow> bool" where
  "containsStr s sub \<longleftrightarrow> go_index s sub \<noteq> None"

text \<open>\<open>message\<close> is \<open>err.Error()\<close>, lowered by the Unicode tables.\<close>

definition classifyMessageError :: "unicode \<Rightarrow> (gerror \<Rightarrow> string) \<Rightarrow> gerror \<Rightarrow> ErrorKind" where
  "classifyMessageError u message err =
     (let msg = ToLower u (message err)
      in if containsStr msg ''tls'' \<or> containsStr msg ''x509'' \<or> containsStr msg ''certificate'' then ErrorKindTLS
         else if containsStr msg ''use of closed network connection'' \<or> containsStr msg ''file already closed'' then ErrorKindClosed
         else if containsStr msg ''network'' then ErrorKindNetwork
         else ErrorKindUnknown)"

record error_env =
  env_unicode :: unicode
  env_message :: "gerror \<Rightarrow> string"
  env_Find :: lo_find

definition classifyErrorKind :: "error_env \<Rightarrow> gerror option \<Rightarrow> ErrorKind" where
  "classifyErrorKind E err0 =
     (case err0 of
        None \<Rightarrow> ErrorKindUnknown
      | Some err \<Rightarrow>
         (case classifyContextError err of
            Some kind \<Rightarrow> kind
          | None \<Rightarrow>
            (case classifyClosedError err of
               Some kind \<Rightarrow> kind
             | None \<Rightarrow>
               (case classifyTypedNetworkError (env_Find E) err of
                  Some kind \<Rightarrow> kind
                | None \<Rightarrow> classifyMessageError (env_unicode E) (env_message E) err))))"

subsection \<open>Wrapping\<close>

definition WrapErrorWithKind :: "error_env \<Rightarrow> Protocol \<Rightarrow> string \<Rightarrow> string \<Rightarrow> ErrorKind \<Rightarrow> gerror option \<Rightarrow> gerror option" where
  "WrapErrorWithKind E protocol oper addr kind err0 =
     (case err0 of
        None \<Rightarrow> None
      | Some err \<Rightarrow>
          if AsClientError err \<noteq> None then Some err
          else Some (ClientError (if protocol = [] then ProtocolUnknown else protocol) oper addr
                       (if kind \<noteq> [] then kind else classifyErrorKind E (Some err)) (Some err)))"

definition WrapError :: "error_env \<Rightarrow> Protocol \<Rightarrow> string \<Rightarrow> string \<Rightarrow> gerror option \<Rightarrow> gerror option" where
  "WrapError E protocol oper addr err = WrapErrorWithKind E protocol oper addr [] err"

definition KindOf :: "gerror \<Rightarrow> ErrorKind" where
  "KindOf err = (case AsClientError err of Some (ClientError _ _ _ k _) \<Rightarrow> k | _ \<Rightarrow> ErrorKindUnknown)"

definition IsKind :: "gerror \<Rightarrow> ErrorKind \<Rightarrow> bool" where
  "IsKind err kind = (case AsClientError err of Some (ClientError _ _ _ k _) \<Rightarrow> k = kind | _ \<Rightarrow> False)"

subsection \<open>What wrapping does\<close>

lemma chain_Cons: "\<exists>rest. chain err = err # rest"
  by (cases err rule: chain.cases) auto

lemma AsClientError_wrap: "AsClientError (ClientError p oper a k (Some e)) = Some (ClientError p oper a k (Some e))"
  by (simp add: AsClientError_def)

text \<open>
  Wrapping an error classifies it exactly once: the result carries a client error, wrapping it
  again changes nothing, \<open>errors.Is\<close> finds in it what it found before (and the wrapper itself), and its
  kind is the kind it already had, else the kind asked for, else the inferred one.
\<close>

theorem wrap_error_once:
  "\<exists>w. WrapErrorWithKind E protocol oper addr kind (Some err) = Some w
     \<and> AsClientError w \<noteq> None
     \<and> WrapErrorWithKind E' protocol' oper' addr' kind' (Some w) = Some w
     \<and> (errors_Is w target \<longleftrightarrow> target = w \<or> errors_Is err target)
     \<and> KindOf w = (if AsClientError err \<noteq> None then KindOf err
                   else if kind \<noteq> [] then kind else classifyErrorKind E (Some err))"
proof (cases "AsClientError err")
  case None
  define w where "w = ClientError (if protocol = [] then ProtocolUnknown else protocol) oper addr
    (if kind \<noteq> [] then kind else classifyErrorKind E (Some err)) (Some err)"
  have "WrapErrorWithKind E protocol oper addr kind (Some err) = Some w"
    using None by (simp add: WrapErrorWithKind_def w_def)
  moreover have client: "AsClientError w = Some w" by (simp add: w_def AsClientError_wrap)
  moreover have "errors_Is w target \<longleftrightarrow> target = w \<or> errors_Is err target" by (simp add: w_def errors_Is_def)
  moreover have "KindOf w = (if kind \<noteq> [] then kind else classifyErrorKind E (Some err))"
    using client by (simp add: KindOf_def) (simp add: w_def)
  ultimately show ?thesis using None by (simp add: WrapErrorWithKind_def [of E'])
next
  case (Some c)
  then show ?thesis using chain_self [of err] by (auto simp: WrapErrorWithKind_def errors_Is_def)
qed

end
