(* ===== verification/Http_Routes.thy ===== *)
theory Http_Routes
  imports Http_Matcher List_Concurrent Mapping_Concurrent Client_Error
begin

text \<open>
  The route registry of \<^verbatim>\<open>httpx\<close>: \<^verbatim>\<open>server_routes.go\<close> and the frozen flag of \<^verbatim>\<open>server_state.go\<close>, over the
  concurrent containers and the route matcher. The record keeps the fields of \<open>Server\<close> that routing
  uses; matchers are allocated in a store and the map from methods holds their addresses, as the
  code's map holds pointers. \<open>slog\<close> output is left out; \<open>strings.ToUpper\<close> comes with the Unicode tables.
  Shown: over any history of registrations and queries the server answers as an ordered list of
  routes without duplicates would, an exact path first and otherwise the first pattern that fits.
\<close>

record httpServer =
  hs_routes :: "routeInfo clist"
  hs_routesByMethod :: "(string, routeInfo) cmultimap option"
  hs_routeExact :: "(string, routeInfo) cmap option"
  hs_routeMatchers :: "(string, nat) cmap option"
  hs_heap :: "routeMatcher list"
  hs_routeSequence :: "64 word"
  hs_frozen :: bool

text \<open>The fields that \<open>newServer\<close> gives the registry.\<close>

definition newServer :: httpServer where
  "newServer =
     \<lparr>hs_routes = NewConcurrentList [], hs_routesByMethod = NewConcurrentMultiMap,
      hs_routeExact = NewConcurrentMap, hs_routeMatchers = NewConcurrentMap, hs_heap = [],
      hs_routeSequence = 0, hs_frozen = False\<rparr>"

definition ErrRouteAlreadyExists :: gerror where "ErrRouteAlreadyExists = Sentinel ''httpx: route already registered''"
definition ErrRouteNotRegistered :: gerror where "ErrRouteNotRegistered = Sentinel ''httpx: route not registered''"
definition ErrServerFrozen :: gerror where "ErrServerFrozen = Sentinel ''httpx: server configuration is frozen''"

text \<open>The Unicode tables, samber/lo and the wrapping of samber/oops.\<close>

record http_env =
  he_unicode :: unicode
  he_lo :: route_lo
  he_Wrapf :: "string \<Rightarrow> gerror \<Rightarrow> gerror"

definition routeKey :: "string \<Rightarrow> string \<Rightarrow> string" where
  "routeKey meth path = meth @ '' '' @ path"

definition isParameterizedRoute :: "string \<Rightarrow> bool" where
  "isParameterizedRoute path \<longleftrightarrow> go_index path ''{'' \<noteq> None \<and> go_index path ''}'' \<noteq> None"

definition routesSnapshot :: "httpServer \<Rightarrow> routeInfo list" where
  "routesSnapshot s = ConcurrentList_Values (hs_routes s)"

primrec Server_GetRoutes :: "httpServer option \<Rightarrow> routeInfo glist option" where
  "Server_GetRoutes None = NewList []"
| "Server_GetRoutes (Some s) = NewList (routesSnapshot s)"

definition Server_GetRoutesByMethod :: "http_env \<Rightarrow> httpServer option \<Rightarrow> string \<Rightarrow> routeInfo glist option" where
  "Server_GetRoutesByMethod E p meth0 =
     (let meth = ToUpper (he_unicode E) meth0
      in case p of
           None \<Rightarrow> NewList []
         | Some s \<Rightarrow> if meth = [] then NewList [] else NewList (ConcurrentMultiMap_GetCopy (hs_routesByMethod s) meth))"

definition Server_GetRoutesGroupedByMethod :: "string list \<Rightarrow> httpServer option \<Rightarrow> (string, routeInfo) multimap option" where
  "Server_GetRoutesGroupedByMethod ks p =
     (case p of None \<Rightarrow> NewMultiMap | Some s \<Rightarrow> ConcurrentMultiMap_Snapshot ks (hs_routesByMethod s))"

definition Server_GetRoutesByPath :: "http_env \<Rightarrow> httpServer option \<Rightarrow> string \<Rightarrow> routeInfo glist option" where
  "Server_GetRoutesByPath E p pfx =
     (case p of
        None \<Rightarrow> NewList []
      | Some s \<Rightarrow>
          if pfx = [] then Server_GetRoutes p
          else NewList (rl_Filter (he_lo E) (routesSnapshot s) (\<lambda>route _. HasPrefix (ri_Path route) pfx)))"

fun Server_HasRoute :: "http_env \<Rightarrow> httpServer option \<Rightarrow> string \<Rightarrow> string \<Rightarrow> bool" where
  "Server_HasRoute E None meth path = False"
| "Server_HasRoute E (Some s) meth path =
     (ConcurrentMap_Get (hs_routeExact s) (routeKey (ToUpper (he_unicode E) meth) path) \<noteq> None)"

primrec Server_RouteCount :: "httpServer option \<Rightarrow> nat" where
  "Server_RouteCount None = 0"
| "Server_RouteCount (Some s) = ConcurrentList_Len (hs_routes s)"

definition Server_IsFrozen :: "httpServer option \<Rightarrow> bool" where
  "Server_IsFrozen p = (case p of None \<Rightarrow> False | Some s \<Rightarrow> hs_frozen s)"

definition freezeConfiguration :: "httpServer option \<Rightarrow> httpServer option" where
  "freezeConfiguration p = map_option (\<lambda>s. s\<lparr>hs_frozen := True\<rparr>) p"

definition allowConfigMutation :: "httpServer option \<Rightarrow> bool" where
  "allowConfigMutation p = (case p of None \<Rightarrow> False | Some s \<Rightarrow> \<not> Server_IsFrozen p)"

definition validateRouteRegistration :: "http_env \<Rightarrow> httpServer option \<Rightarrow> string \<Rightarrow> string \<Rightarrow> gerror option" where
  "validateRouteRegistration E p meth0 path =
     (let meth = ToUpper (he_unicode E) meth0
      in case p of
           None \<Rightarrow> Some (he_Wrapf E ''validate server'' ErrRouteNotRegistered)
         | Some s \<Rightarrow>
             if Server_IsFrozen p then Some (he_Wrapf E ''server is frozen'' ErrServerFrozen)
             else if Server_HasRoute E p meth path then Some (he_Wrapf E ''route already registered'' ErrRouteAlreadyExists)
             else None)"

text \<open>The address of the method's matcher; a fresh one is allocated before the map decides.\<close>

primrec parameterizedRouteMatcher :: "httpServer option \<Rightarrow> string \<Rightarrow> httpServer option \<times> nat option" where
  "parameterizedRouteMatcher None meth = (None, None)"
| "parameterizedRouteMatcher (Some s) meth =
     (let matcher = length (hs_heap s)
      in case ConcurrentMap_GetOrStore (hs_routeMatchers s) meth matcher of
           (q, actual, loaded) \<Rightarrow>
             (Some (s\<lparr>hs_routeMatchers := q, hs_heap := hs_heap s @ [the newRouteMatcher]\<rparr>), Some actual))"

fun addRoute :: "http_env \<Rightarrow> httpServer option \<Rightarrow> routeInfo \<Rightarrow> httpServer option" where
  "addRoute E None route0 = None"
| "addRoute E (Some s0) route0 =
     (let route = route0\<lparr>ri_Method := ToUpper (he_unicode E) (ri_Method route0)\<rparr>;
          key = routeKey (ri_Method route) (ri_Path route)
      in case ConcurrentMap_GetOrStore (hs_routeExact s0) key route of
           (exact, actual, loaded) \<Rightarrow>
             if loaded then Some (s0\<lparr>hs_routeExact := exact\<rparr>)
             else let s1 = s0\<lparr>hs_routeExact := exact,
                              hs_routesByMethod := ConcurrentMultiMap_Put (hs_routesByMethod s0) (ri_Method route) route\<rparr>;
                      s2 = (if isParameterizedRoute (ri_Path route)
                            then (case parameterizedRouteMatcher (Some s1) (ri_Method route) of
                                    (Some s, Some a) \<Rightarrow>
                                      let sq = hs_routeSequence s + 1;
                                          m = routeMatcher_Add (he_lo E) (Some (hs_heap s ! a)) (ri_Path route) route sq
                                      in s\<lparr>hs_routeSequence := sq, hs_heap := (hs_heap s)[a := the m]\<rparr>
                                  | _ \<Rightarrow> s1)
                            else s1)
                  in Some (s2\<lparr>hs_routes := ConcurrentList_Add (hs_routes s2) [route]\<rparr>))"

fun matchRoute :: "http_env \<Rightarrow> httpServer option \<Rightarrow> string \<Rightarrow> string \<Rightarrow> routeInfo option" where
  "matchRoute E None meth0 path = None"
| "matchRoute E (Some s) meth0 path =
     (let meth = ToUpper (he_unicode E) meth0;
          key = routeKey meth path
      in case ConcurrentMap_Get (hs_routeExact s) key of
           Some route \<Rightarrow> Some route
         | None \<Rightarrow>
             (case ConcurrentMap_Get (hs_routeMatchers s) meth of
                None \<Rightarrow> None
              | Some a \<Rightarrow> routeMatcher_Match (Some (hs_heap s ! a)) path))"

definition Server_MatchRoute :: "http_env \<Rightarrow> httpServer option \<Rightarrow> string \<Rightarrow> string \<Rightarrow> routeInfo option" where
  "Server_MatchRoute E p meth path = matchRoute E p meth path"

subsection \<open>The ordered list of routes\<close>

datatype hr_op =
    HrAdd routeInfo | HrMatch string string | HrHas string string | HrCount | HrRoutes | HrByMethod string
  | HrByPath string | HrGrouped "(string, routeInfo) visit" | HrValidate string string | HrFreeze

datatype hr_res =
    HrUnit | HrRoute "routeInfo option" | HrBool bool | HrNat nat | HrList "routeInfo list"
  | HrGroups "(string, routeInfo list) fmap" | HrErr "gerror option"

primrec hr_step :: "http_env \<Rightarrow> hr_op \<Rightarrow> httpServer option \<Rightarrow> httpServer option \<times> hr_res" where
  "hr_step E (HrAdd r) p = (addRoute E p r, HrUnit)"
| "hr_step E (HrMatch meth path) p = (p, HrRoute (Server_MatchRoute E p meth path))"
| "hr_step E (HrHas meth path) p = (p, HrBool (Server_HasRoute E p meth path))"
| "hr_step E HrCount p = (p, HrNat (Server_RouteCount p))"
| "hr_step E HrRoutes p = (p, HrList (li_abs (Server_GetRoutes p)))"
| "hr_step E (HrByMethod meth) p = (p, HrList (li_abs (Server_GetRoutesByMethod E p meth)))"
| "hr_step E (HrByPath pfx) p = (p, HrList (li_abs (Server_GetRoutesByPath E p pfx)))"
| "hr_step E (HrGrouped ord) p =
     (p, HrGroups (mm_abs (Server_GetRoutesGroupedByMethod
            (case p of None \<Rightarrow> [] | Some s \<Rightarrow> ord (cmm_abs (hs_routesByMethod s))) p)))"
| "hr_step E (HrValidate meth path) p = (p, HrErr (validateRouteRegistration E p meth path))"
| "hr_step E HrFreeze p = (freezeConfiguration p, HrUnit)"

definition rkey :: "routeInfo \<Rightarrow> string" where
  "rkey r = routeKey (ri_Method r) (ri_Path r)"

definition normalized :: "http_env \<Rightarrow> routeInfo \<Rightarrow> routeInfo" where
  "normalized E r = r\<lparr>ri_Method := ToUpper (he_unicode E) (ri_Method r)\<rparr>"

definition servesPattern :: "string \<Rightarrow> string \<Rightarrow> routeInfo \<Rightarrow> bool" where
  "servesPattern meth path r \<longleftrightarrow>
     isParameterizedRoute (ri_Path r) \<and> ri_Method r = meth
     \<and> patternFits (splitRouteSegments (ri_Path r)) (splitRouteSegments path)"

definition lookupRoute :: "http_env \<Rightarrow> routeInfo list \<Rightarrow> string \<Rightarrow> string \<Rightarrow> routeInfo option" where
  "lookupRoute E rs meth0 path =
     (let meth = ToUpper (he_unicode E) meth0
      in case List.find (\<lambda>r. rkey r = routeKey meth path) rs of
           Some r \<Rightarrow> Some r
         | None \<Rightarrow> List.find (servesPattern meth path) rs)"

definition groupsOf :: "routeInfo list \<Rightarrow> (string, routeInfo list) fmap" where
  "groupsOf rs = fold (\<lambda>r f. fmupd (ri_Method r) (or_nil (fmlookup f (ri_Method r)) @ [r]) f) rs fmempty"

fun hr_spec :: "http_env \<Rightarrow> hr_op \<Rightarrow> routeInfo list \<times> bool \<Rightarrow> (routeInfo list \<times> bool) \<times> hr_res" where
  "hr_spec E (HrAdd r) (rs, fz) =
     ((if rkey (normalized E r) \<in> rkey ` set rs then rs else rs @ [normalized E r], fz), HrUnit)"
| "hr_spec E (HrMatch meth path) (rs, fz) = ((rs, fz), HrRoute (lookupRoute E rs meth path))"
| "hr_spec E (HrHas meth path) (rs, fz) =
     ((rs, fz), HrBool (routeKey (ToUpper (he_unicode E) meth) path \<in> rkey ` set rs))"
| "hr_spec E HrCount (rs, fz) = ((rs, fz), HrNat (length rs))"
| "hr_spec E HrRoutes (rs, fz) = ((rs, fz), HrList rs)"
| "hr_spec E (HrByMethod meth) (rs, fz) =
     ((rs, fz), HrList (let m = ToUpper (he_unicode E) meth in if m = [] then [] else filter (\<lambda>r. ri_Method r = m) rs))"
| "hr_spec E (HrByPath pfx) (rs, fz) = ((rs, fz), HrList (filter (\<lambda>r. HasPrefix (ri_Path r) pfx) rs))"
| "hr_spec E (HrGrouped ord) (rs, fz) = ((rs, fz), HrGroups (groupsOf rs))"
| "hr_spec E (HrValidate meth path) (rs, fz) =
     ((rs, fz), HrErr (if fz then Some (he_Wrapf E ''server is frozen'' ErrServerFrozen)
        else if routeKey (ToUpper (he_unicode E) (ToUpper (he_unicode E) meth)) path \<in> rkey ` set rs
             then Some (he_Wrapf E ''route already registered'' ErrRouteAlreadyExists) else None))"
| "hr_spec E HrFreeze (rs, fz) = ((rs, True), HrUnit)"

fun hr_ok :: "hr_op \<Rightarrow> bool" where
  "hr_ok (HrGrouped ord) = visit_ok ord"
| "hr_ok _ = True"

subsection \<open>The invariant of the registry\<close>

definition isPattern :: "routeInfo \<Rightarrow> bool" where
  "isPattern r \<longleftrightarrow> isParameterizedRoute (ri_Path r)"

text \<open>The patterns get the sequence numbers 1, 2, ... in the order of registration.\<close>

definition entries :: "routeInfo list \<Rightarrow> routeMatchEntry list" where
  "entries rs = map (\<lambda>(i, r). \<lparr>re_seq = of_nat (Suc i), re_route = r\<rparr>) (enumerate 0 (filter isPattern rs))"

definition registered :: "string \<Rightarrow> routeInfo list \<Rightarrow> (string list \<times> routeMatchEntry) list" where
  "registered meth rs =
     map (\<lambda>e. (splitRouteSegments (ri_Path (re_route e)), e)) (filter (\<lambda>e. ri_Method (re_route e) = meth) (entries rs))"

abbreviation no_json :: "'x json_marshal" where
  "no_json \<equiv> (\<lambda>_. Inl [])"

text \<open>A method's patterns are served by the matcher at its address; a method without one has no patterns.\<close>

definition served :: "routeMatcher list \<Rightarrow> (string list \<times> routeMatchEntry) list \<Rightarrow> nat option \<Rightarrow> bool" where
  "served heap regs x \<longleftrightarrow> (case x of None \<Rightarrow> regs = [] | Some a \<Rightarrow> a < length heap \<and> holds (heap ! a) regs)"

lemma served_simps [simp]:
  "served heap regs None \<longleftrightarrow> regs = []"
  "served heap regs (Some a) \<longleftrightarrow> a < length heap \<and> holds (heap ! a) regs"
  by (simp_all add: served_def)

definition matchers_inv :: "httpServer \<Rightarrow> routeInfo list \<Rightarrow> bool" where
  "matchers_inv s rs \<longleftrightarrow> cm_inv no_json (hs_routeMatchers s)
     \<and> (\<forall>meth. served (hs_heap s) (registered meth rs) (fmlookup (cm_abs (hs_routeMatchers s)) meth))
     \<and> (\<forall>m1 m2 a. fmlookup (cm_abs (hs_routeMatchers s)) m1 = Some a \<longrightarrow>
            fmlookup (cm_abs (hs_routeMatchers s)) m2 = Some a \<longrightarrow> m1 = m2)
     \<and> hs_routeSequence s = of_nat (length (filter isPattern rs))"

definition hs_inv :: "httpServer \<Rightarrow> routeInfo list \<Rightarrow> bool" where
  "hs_inv s rs \<longleftrightarrow> sl (cl_slice (hs_routes s)) = rs
     \<and> cmm_inv no_json (hs_routesByMethod s) \<and> cmm_abs (hs_routesByMethod s) = groupsOf rs
     \<and> cm_inv no_json (hs_routeExact s)
     \<and> (\<forall>k. fmlookup (cm_abs (hs_routeExact s)) k = List.find (\<lambda>r. rkey r = k) rs)
     \<and> matchers_inv s rs"

lemma groupsOf_snoc:
  "groupsOf (rs @ [r]) = fmupd (ri_Method r) (or_nil (fmlookup (groupsOf rs) (ri_Method r)) @ [r]) (groupsOf rs)"
  by (simp add: groupsOf_def)

lemma groupsOf_lookup: "or_nil (fmlookup (groupsOf rs) m) = filter (\<lambda>r. ri_Method r = m) rs"
  by (induction rs rule: rev_induct) (simp_all add: groupsOf_snoc, simp add: groupsOf_def)

lemma cl_content:
  "ConcurrentList_Values l = sl (cl_slice l)" "ConcurrentList_Len l = length (sl (cl_slice l))"
  "sl (cl_slice (ConcurrentList_Add l xs)) = sl (cl_slice l) @ xs"
proof -
  show "ConcurrentList_Values l = sl (cl_slice l)" "ConcurrentList_Len l = length (sl (cl_slice l))"
    by (cases "core l"; simp add: ConcurrentList_Values_def ConcurrentList_Len_def cl_slice_def)+
  show "sl (cl_slice (ConcurrentList_Add l xs)) = sl (cl_slice l) @ xs"
    by (cases "core l") (auto simp: ConcurrentList_Add_def ConcurrentList_ensureInitLocked_def cl_slice_def Let_def
        NewList_def NewListWithCapacity_def li_zero_def)
qed

lemma NewList_abs [simp]: "li_abs (NewList xs) = xs"
  using NewList_ok [of xs no_json] by (auto simp: li_abs_def)

lemma cm_parts:
  assumes "cm_inv marshal p"
  obtains m where "p = Some m" "cm_abs p = cm_content m"
  using assms by (auto simp: cm_inv_def cm_abs_def)

lemma ConcurrentMap_Get_abs: "cm_inv marshal p \<Longrightarrow> ConcurrentMap_Get p k = fmlookup (cm_abs p) k"
  by (elim cm_parts) (simp add: cm_reads del: ConcurrentMap_Get.simps)

lemma GetOrStore_abs:
  assumes inv: "cm_inv marshal p"
  obtains q where "fmlookup (cm_abs p) k = None" "ConcurrentMap_GetOrStore p k v = (q, v, False)" "cm_inv marshal q"
      "cm_abs q = fmupd k v (cm_abs p)"
  | q x where "fmlookup (cm_abs p) k = Some x" "ConcurrentMap_GetOrStore p k v = (q, x, True)" "cm_inv marshal q"
      "cm_abs q = cm_abs p"
proof -
  obtain m where m: "p = Some m" "cm_abs p = cm_content m" using cm_parts [OF inv] by metis
  note gos = cm_GetOrStore_content [OF inv [unfolded m(1)], of k v]
  show thesis
  proof (cases "fmlookup (cm_abs p) k")
    case None
    then show thesis using gos m that(1) by (auto simp: cm_abs_def)
  next
    case (Some x)
    then show thesis using gos m that(2) by (auto simp: cm_abs_def)
  qed
qed

lemma Put_abs:
  assumes inv: "cmm_inv marshal p"
  shows "cmm_inv marshal (ConcurrentMultiMap_Put p k v)
       \<and> cmm_abs (ConcurrentMultiMap_Put p k v) = fmupd k (or_nil (fmlookup (cmm_abs p) k) @ [v]) (cmm_abs p)"
proof -
  obtain m where m: "p = Some m" using inv by (auto simp: cmm_inv_def)
  show ?thesis
    using cmm_mutations(1) [OF inv [unfolded m], of k "[v]"]
    by (auto simp: m ConcurrentMultiMap_Put_def cmm_abs_def mm_write_def simp del: ConcurrentMultiMap_PutAll.simps)
qed

lemma entries_snoc:
  "entries (rs @ [r]) = entries rs
     @ (if isPattern r then [\<lparr>re_seq = of_nat (Suc (length (filter isPattern rs))), re_route = r\<rparr>] else [])"
  by (simp add: entries_def enumerate_append_eq)

lemma registered_snoc:
  "registered meth (rs @ [r]) = registered meth rs
     @ (if isPattern r \<and> ri_Method r = meth
        then [(splitRouteSegments (ri_Path r), \<lparr>re_seq = of_nat (Suc (length (filter isPattern rs))), re_route = r\<rparr>)]
        else [])"
  by (simp add: registered_def entries_snoc)

lemma registered_sorted:
  assumes "length rs < 2 ^ 64 - 1"
  shows "sorted_wrt (\<lambda>x y. re_seq (snd x) < re_seq (snd y)) (registered meth rs)"
proof -
  have len: "length (filter isPattern rs) < 2 ^ 64 - 1"
    using assms length_filter_le [of isPattern rs] by linarith
  have "sorted_wrt (\<lambda>x y. re_seq x < re_seq y) (entries rs)"
    unfolding entries_def sorted_wrt_map
  proof (rule sorted_wrt_iff_nth_less [THEN iffD2], intro allI impI)
    fix i j assume ij: "i < j" "j < length (enumerate 0 (filter isPattern rs))"
    then have "Suc j < 2 ^ LENGTH(64)" using len by simp
    moreover from this have "Suc i < 2 ^ LENGTH(64)" using ij(1) by linarith
    ultimately have "(of_nat (Suc i) :: 64 word) < of_nat (Suc j)"
      using ij(1) by (simp add: word_less_nat_alt unat_of_nat del: of_nat_Suc)
    then show "re_seq (case enumerate 0 (filter isPattern rs) ! i of (i, r) \<Rightarrow> \<lparr>re_seq = of_nat (Suc i), re_route = r\<rparr>)
        < re_seq (case enumerate 0 (filter isPattern rs) ! j of (i, r) \<Rightarrow> \<lparr>re_seq = of_nat (Suc i), re_route = r\<rparr>)"
      using ij by (simp add: nth_enumerate_eq)
  qed
  then show ?thesis by (simp add: registered_def sorted_wrt_map sorted_wrt_filter)
qed

lemma find_registered:
  "map_option (\<lambda>x. re_route (snd x)) (List.find (\<lambda>(pat, e). patternFits pat (splitRouteSegments path)) (registered meth rs))
   = List.find (servesPattern meth path) rs"
proof (induction rs rule: rev_induct)
  case Nil
  then show ?case by (simp add: registered_def entries_def)
next
  case (snoc r rs)
  have app: "List.find P (xs @ ys) = (case List.find P xs of None \<Rightarrow> List.find P ys | Some x \<Rightarrow> Some x)" for P and xs ys :: "'x list"
    by (induction xs) auto
  show ?case
    using snoc by (auto simp: registered_snoc app servesPattern_def isPattern_def split: option.splits)
qed

subsection \<open>Registration keeps it\<close>

lemma matchers_inv_other:
  assumes "matchers_inv s rs" and "\<not> isPattern r" and "hs_routeMatchers s' = hs_routeMatchers s"
    and "hs_heap s' = hs_heap s" and "hs_routeSequence s' = hs_routeSequence s"
  shows "matchers_inv s' (rs @ [r])"
proof -
  have "registered meth (rs @ [r]) = registered meth rs" for meth using assms(2) by (simp add: registered_snoc)
  then show ?thesis using assms by (simp add: matchers_inv_def)
qed

text \<open>The address that the map of matchers answers, and what lies there.\<close>

lemma parameterized_matcher:
  assumes inv: "matchers_inv s rs"
  obtains s' a where "parameterizedRouteMatcher (Some s) meth = (Some s', Some a)" "matchers_inv s' rs"
    "fmlookup (cm_abs (hs_routeMatchers s')) meth = Some a" "hs_routes s' = hs_routes s"
    "hs_routesByMethod s' = hs_routesByMethod s" "hs_routeExact s' = hs_routeExact s" "hs_frozen s' = hs_frozen s"
proof -
  let ?f = "cm_abs (hs_routeMatchers s)" and ?n = "length (hs_heap s)"
  have cm: "cm_inv no_json (hs_routeMatchers s)" using inv by (simp add: matchers_inv_def)
  have old: "served (hs_heap s) (registered m rs) (fmlookup ?f m)" for m
    using inv by (simp add: matchers_inv_def)
  have lt: "a < ?n" if "fmlookup ?f m = Some a" for m a using old [of m] that by simp
  have inj: "fmlookup ?f m1 = Some a \<Longrightarrow> fmlookup ?f m2 = Some a \<Longrightarrow> m1 = m2" for m1 m2 a
    using inv by (auto simp: matchers_inv_def)
  have new: "the newRouteMatcher = \<lparr>rm_root = Some emptyNode\<rparr>" by (simp add: newRouteMatcher_def)
  show thesis using cm
  proof (cases rule: GetOrStore_abs [where k = meth and v = ?n])
    case (1 q)
    let ?s = "s\<lparr>hs_routeMatchers := q, hs_heap := hs_heap s @ [the newRouteMatcher]\<rparr>"
    have look: "fmlookup (cm_abs q) m = (if m = meth then Some ?n else fmlookup ?f m)" for m using 1(4) by simp
    have "registered meth rs = []" using old [of meth] 1(1) by simp
    then have "served (hs_heap ?s) (registered m rs) (fmlookup (cm_abs q) m)" for m
      using old [of m] holds_new by (cases "fmlookup ?f m") (auto simp: look nth_append new)
    moreover have "m1 = m2" if "fmlookup (cm_abs q) m1 = Some a" "fmlookup (cm_abs q) m2 = Some a" for m1 m2 a
      using that inj lt [of m1 a] lt [of m2 a] by (auto simp: look split: if_splits)
    ultimately have "matchers_inv ?s rs"
      using inv 1(3) unfolding matchers_inv_def by simp
    then show thesis using that [of ?s ?n] 1 by (simp add: Let_def)
  next
    case (2 q x)
    let ?s = "s\<lparr>hs_routeMatchers := q, hs_heap := hs_heap s @ [the newRouteMatcher]\<rparr>"
    have "served (hs_heap ?s) (registered m rs) (fmlookup ?f m)" for m
      using old [of m] by (cases "fmlookup ?f m") (auto simp: nth_append)
    then have "matchers_inv ?s rs" using inv 2(3,4) unfolding matchers_inv_def by simp
    then show thesis using that [of ?s x] 2 by (simp add: Let_def)
  qed
qed

lemma matchers_inv_add:
  assumes inv: "matchers_inv s rs" and lo: "route_lo_ok (he_lo E)" and pat: "isPattern r" and len: "length rs < 2 ^ 64 - 1"
    and a: "fmlookup (cm_abs (hs_routeMatchers s)) (ri_Method r) = Some a"
  defines "sq \<equiv> hs_routeSequence s + 1"
  shows "matchers_inv (s\<lparr>hs_routeSequence := sq,
           hs_heap := (hs_heap s)[a := the (routeMatcher_Add (he_lo E) (Some (hs_heap s ! a)) (ri_Path r) r sq)]\<rparr>) (rs @ [r])"
proof -
  let ?f = "cm_abs (hs_routeMatchers s)" and ?n = "length (filter isPattern rs)"
  have sq: "sq = of_nat (Suc ?n)" using inv by (simp add: sq_def matchers_inv_def)
  have "?n < 2 ^ 64 - 1" using len length_filter_le [of isPattern rs] by linarith
  then have "Suc ?n < 2 ^ LENGTH(64)" by simp
  then have nz: "sq \<noteq> 0" unfolding sq by (simp add: unat_eq_zero unat_of_nat flip: unat_eq_zero del: of_nat_Suc)
  have old: "served (hs_heap s) (registered m rs) (fmlookup ?f m)" for m
    using inv by (simp add: matchers_inv_def)
  have inj: "fmlookup ?f m1 = Some b \<Longrightarrow> fmlookup ?f m2 = Some b \<Longrightarrow> m1 = m2" for m1 m2 b
    using inv by (auto simp: matchers_inv_def)
  have ha: "a < length (hs_heap s)" "holds (hs_heap s ! a) (registered (ri_Method r) rs)" using old [of "ri_Method r"] a by simp_all
  obtain m' where m': "routeMatcher_Add (he_lo E) (Some (hs_heap s ! a)) (ri_Path r) r sq = Some m'"
      "holds m' (registered (ri_Method r) (rs @ [r]))"
    using holds_Add [OF lo nz ha(2), of "ri_Path r" r] pat by (auto simp: registered_snoc sq simp del: of_nat_Suc routeMatcher_Add.simps)
  let ?s = "s\<lparr>hs_routeSequence := sq, hs_heap := (hs_heap s)[a := m']\<rparr>"
  have "served (hs_heap ?s) (registered m (rs @ [r])) (fmlookup ?f m)" for m
  proof (cases "m = ri_Method r")
    case True
    then show ?thesis using a ha m'(2) by simp
  next
    case False
    then have "registered m (rs @ [r]) = registered m rs" by (simp add: registered_snoc)
    moreover have "fmlookup ?f m \<noteq> Some a" using inj [of m a "ri_Method r"] a False by blast
    ultimately show ?thesis using old [of m] by (cases "fmlookup ?f m") auto
  qed
  then have "matchers_inv ?s (rs @ [r])"
    using inv pat sq unfolding matchers_inv_def by simp
  then show ?thesis by (simp only: m'(1) option.sel)
qed

lemma find_snoc_new:
  assumes "rkey r \<notin> rkey ` set rs"
  shows "List.find (\<lambda>x. rkey x = k) (rs @ [r]) = (if k = rkey r then Some r else List.find (\<lambda>x. rkey x = k) rs)"
  using assms by (induction rs) auto

lemma find_rkey_None: "List.find (\<lambda>x. rkey x = k) rs = None \<longleftrightarrow> k \<notin> rkey ` set rs"
  by (auto simp: find_None_iff)

lemma addRoute_inv:
  assumes inv: "hs_inv s rs" and lo: "route_lo_ok (he_lo E)" and len: "length rs < 2 ^ 64 - 1"
  shows "\<exists>s'. addRoute E (Some s) r0 = Some s' \<and> hs_frozen s' = hs_frozen s
     \<and> hs_inv s' (if rkey (normalized E r0) \<in> rkey ` set rs then rs else rs @ [normalized E r0])"
proof -
  define r where "r = normalized E r0"
  have r: "r0\<lparr>ri_Method := ToUpper (he_unicode E) (ri_Method r0)\<rparr> = r" by (simp add: r_def normalized_def)
  have ex: "cm_inv no_json (hs_routeExact s)" "\<And>k. fmlookup (cm_abs (hs_routeExact s)) k = List.find (\<lambda>x. rkey x = k) rs"
    using inv by (auto simp: hs_inv_def)
  have mm: "matchers_inv s rs" using inv by (simp add: hs_inv_def)
  show ?thesis using ex(1)
  proof (cases rule: GetOrStore_abs [where k = "rkey r" and v = r])
    case (2 q x)
    then have "rkey r \<in> rkey ` set rs" using ex(2) by (metis find_rkey_None option.distinct(1))
    moreover have "matchers_inv (s\<lparr>hs_routeExact := q\<rparr>) rs" using mm by (simp add: matchers_inv_def)
    ultimately show ?thesis
      using 2 inv by (simp add: r r_def [symmetric] Let_def rkey_def [symmetric] hs_inv_def)
  next
    case (1 q)
    then have fresh: "rkey r \<notin> rkey ` set rs" using ex(2) by (metis find_rkey_None)
    let ?s1 = "s\<lparr>hs_routeExact := q, hs_routesByMethod := ConcurrentMultiMap_Put (hs_routesByMethod s) (ri_Method r) r\<rparr>"
    have put: "cmm_inv no_json (hs_routesByMethod ?s1)" "cmm_abs (hs_routesByMethod ?s1) = groupsOf (rs @ [r])"
      using inv Put_abs [of no_json "hs_routesByMethod s" "ri_Method r" r] by (simp_all add: hs_inv_def groupsOf_snoc)
    have exact: "fmlookup (cm_abs q) k = List.find (\<lambda>x. rkey x = k) (rs @ [r])" for k
      using 1(4) ex(2) find_snoc_new [OF fresh] by auto
    have mm1: "matchers_inv ?s1 rs" using mm by (simp add: matchers_inv_def)
    have kept: "hs_inv (s2\<lparr>hs_routes := ConcurrentList_Add (hs_routes s2) [r]\<rparr>) (rs @ [r])"
      if "matchers_inv s2 (rs @ [r])" "hs_routes s2 = hs_routes s" "hs_routesByMethod s2 = hs_routesByMethod ?s1"
        "hs_routeExact s2 = q" for s2
    proof -
      have "matchers_inv (s2\<lparr>hs_routes := ConcurrentList_Add (hs_routes s2) [r]\<rparr>) (rs @ [r])"
        using that(1) by (simp add: matchers_inv_def)
      then show ?thesis using that(2-4) put exact 1(3) inv by (simp add: hs_inv_def cl_content)
    qed
    show ?thesis
    proof (cases "isPattern r")
      case False
      then have "matchers_inv ?s1 (rs @ [r])" using matchers_inv_other [OF mm1] by simp
      from kept [OF this] show ?thesis
        using 1 fresh False by (simp add: r r_def [symmetric] Let_def rkey_def [symmetric] isPattern_def)
    next
      case True
      obtain s' a where pm: "parameterizedRouteMatcher (Some ?s1) (ri_Method r) = (Some s', Some a)" "matchers_inv s' rs"
          "fmlookup (cm_abs (hs_routeMatchers s')) (ri_Method r) = Some a" "hs_routes s' = hs_routes ?s1"
          "hs_routesByMethod s' = hs_routesByMethod ?s1" "hs_routeExact s' = hs_routeExact ?s1" "hs_frozen s' = hs_frozen ?s1"
        by (rule parameterized_matcher [OF mm1])
      from kept [OF matchers_inv_add [OF pm(2) lo True len pm(3)]] pm(4-6)
      show ?thesis
        using 1 fresh True pm(1,7)
        by (simp add: r r_def [symmetric] Let_def rkey_def [symmetric] isPattern_def del: parameterizedRouteMatcher.simps routeMatcher_Add.simps)
    qed
  qed
qed

subsection \<open>Queries\<close>

lemma exact_lookup:
  "hs_inv s rs \<Longrightarrow> ConcurrentMap_Get (hs_routeExact s) k = List.find (\<lambda>r. rkey r = k) rs"
  using ConcurrentMap_Get_abs [of no_json "hs_routeExact s" k] by (simp add: hs_inv_def)

lemma matchRoute_lookup:
  assumes inv: "hs_inv s rs" and len: "length rs < 2 ^ 64 - 1"
  shows "matchRoute E (Some s) meth path = lookupRoute E rs meth path"
proof -
  let ?m = "ToUpper (he_unicode E) meth" and ?ss = "splitRouteSegments path"
  have ex: "ConcurrentMap_Get (hs_routeExact s) k = List.find (\<lambda>r. rkey r = k) rs" for k
    by (rule exact_lookup [OF inv])
  have ms: "ConcurrentMap_Get (hs_routeMatchers s) ?m = fmlookup (cm_abs (hs_routeMatchers s)) ?m"
    and sv: "served (hs_heap s) (registered ?m rs) (fmlookup (cm_abs (hs_routeMatchers s)) ?m)"
    using inv ConcurrentMap_Get_abs [of no_json "hs_routeMatchers s"] by (simp_all add: hs_inv_def matchers_inv_def)
  have "(case fmlookup (cm_abs (hs_routeMatchers s)) ?m of
      None \<Rightarrow> None | Some a \<Rightarrow> routeMatcher_Match (Some (hs_heap s ! a)) path) = List.find (servesPattern ?m path) rs"
  proof (cases "fmlookup (cm_abs (hs_routeMatchers s)) ?m")
    case None
    then show ?thesis using sv find_registered [of path ?m rs] by simp
  next
    case (Some a)
    then have "holds (hs_heap s ! a) (registered ?m rs)" using sv by simp
    note first = node_match_first [OF this registered_sorted [OF len], of ?ss]
    have "routeMatcher_Match (Some (hs_heap s ! a)) path = map_option re_route (node_match (rootOf (hs_heap s ! a)) ?ss)"
      by (cases "rm_root (hs_heap s ! a)"; cases ?ss)
        (simp_all add: rootOf_def emptyNode_def routeAtCurrentNode_def Let_def orderedRouteChildren_def)
    then show ?thesis using Some find_registered [of path ?m rs]
      by (simp add: first option.map_comp comp_def)
  qed
  then show ?thesis by (simp add: ex ms lookupRoute_def Let_def split: option.split)
qed

lemma hr_step_refines:
  assumes inv: "hs_inv s rs" and lo: "route_lo_ok (he_lo E)" and len: "length rs < 2 ^ 64 - 1" and ok: "hr_ok c"
  shows "\<exists>s' rs'. hr_step E c (Some s) = (Some s', snd (hr_spec E c (rs, hs_frozen s)))
     \<and> hs_inv s' rs' \<and> fst (hr_spec E c (rs, hs_frozen s)) = (rs', hs_frozen s') \<and> length rs' \<le> Suc (length rs)"
proof -
  have ex: "ConcurrentMap_Get (hs_routeExact s) k = List.find (\<lambda>r. rkey r = k) rs" for k
    by (rule exact_lookup [OF inv])
  have has: "Server_HasRoute E (Some s) meth path \<longleftrightarrow> routeKey (ToUpper (he_unicode E) meth) path \<in> rkey ` set rs" for meth path
    using find_rkey_None [of "routeKey (ToUpper (he_unicode E) meth) path" rs] by (simp add: ex)
  have rts: "sl (cl_slice (hs_routes s)) = rs" using inv by (simp add: hs_inv_def)
  obtain m where m: "hs_routesByMethod s = Some m" "cmm_inv no_json (Some m)" "cmm_content m = groupsOf rs"
    using inv by (auto simp: hs_inv_def cmm_inv_def cmm_abs_def)
  have flt: "rl_Filter (he_lo E) xs (\<lambda>x _. P x) = filter P xs" for xs P
    using lo unfolding route_lo_ok_def by blast
  show ?thesis
  proof (cases c)
    case (HrAdd r)
    show ?thesis using addRoute_inv [OF inv lo len, of r] by (auto simp: HrAdd simp del: addRoute.simps)
  next
    case (HrMatch meth path)
    then show ?thesis using inv matchRoute_lookup [OF inv len] by (simp add: Server_MatchRoute_def)
  next
    case (HrByMethod meth)
    then show ?thesis
      using inv cmm_reads(2) [OF m(2)] m(1,3)
      by (simp add: Server_GetRoutesByMethod_def groupsOf_lookup Let_def del: ConcurrentMultiMap_GetCopy.simps)
  next
    case (HrByPath pfx)
    then show ?thesis
      using inv rts by (auto simp: Server_GetRoutesByPath_def routesSnapshot_def cl_content flt HasPrefix_def)
  next
    case (HrGrouped ord)
    then have "iterates (ord (cmm_content m)) (cmm_content m)" using ok by (simp add: visit_ok_def)
    note snap = cmm_copies(2) [OF m(2) this]
    show ?thesis
      using HrGrouped inv m snap
      by (simp add: Server_GetRoutesGroupedByMethod_def cmm_abs_def mm_view_def mm_multi_def
          del: ConcurrentMultiMap_Snapshot.simps)
  next
    case (HrValidate meth path)
    then show ?thesis
      using inv has by (simp add: validateRouteRegistration_def Server_IsFrozen_def Let_def del: Server_HasRoute.simps)
  next
    case HrFreeze
    have "hs_inv (s\<lparr>hs_frozen := True\<rparr>) rs" using inv by (simp add: hs_inv_def matchers_inv_def)
    then show ?thesis using HrFreeze by (simp add: freezeConfiguration_def)
  qed (use inv has rts in \<open>simp_all add: routesSnapshot_def cl_content del: Server_HasRoute.simps\<close>)
qed

lemma hs_inv_new: "hs_inv newServer []"
  by (simp add: hs_inv_def matchers_inv_def newServer_def cm_inv_new cmm_inv_new groupsOf_def registered_def entries_def
      NewConcurrentList_def NewConcurrentListWithCapacity_def cl_slice_def)

text \<open>
  C13. Over any history of fewer than \<open>2 ^ 64 - 1\<close> calls on a new server, the registry answers as an ordered
  list of routes without duplicates would: a route whose method and path are taken is not added again;
  a request finds the route registered under exactly its path and otherwise, of all parameterized
  routes of its method whose pattern fits the path segment by segment, the one registered first; and
  the listings, counts, groups by method and validation errors are those of that list.
\<close>

theorem routes_refine_list:
  assumes "route_lo_ok (he_lo E)" and "list_all hr_ok cs" and "length cs < 2 ^ 64 - 1"
  shows "snd (run (hr_step E) cs (Some newServer)) = snd (run (hr_spec E) cs ([], False))"
proof -
  have "snd (run (hr_step E) cs (Some s)) = snd (run (hr_spec E) cs (rs, hs_frozen s))"
    if "hs_inv s rs" "list_all hr_ok cs" "length rs + length cs < 2 ^ 64 - 1" for s rs
    using that
  proof (induction cs arbitrary: s rs)
    case (Cons c cs)
    have "length rs < 2 ^ 64 - 1" "hr_ok c" using Cons.prems(2,3) by auto
    from hr_step_refines [OF Cons.prems(1) assms(1) this]
    obtain s' rs' where st: "hr_step E c (Some s) = (Some s', snd (hr_spec E c (rs, hs_frozen s)))" "hs_inv s' rs'"
        "fst (hr_spec E c (rs, hs_frozen s)) = (rs', hs_frozen s')" "length rs' \<le> Suc (length rs)" by blast
    obtain r where sp: "hr_spec E c (rs, hs_frozen s) = ((rs', hs_frozen s'), r)" using st(3) by (metis prod.collapse)
    have "length rs' + length cs < 2 ^ 64 - 1" using Cons.prems(3) st(4) by simp
    from Cons.IH [OF st(2) _ this] Cons.prems(2) show ?case
      by (auto simp: st(1) sp split: prod.splits)
  qed simp
  from this [OF hs_inv_new assms(2)] assms(3) show ?thesis by (simp add: newServer_def)
qed

text \<open>The parameters as documented, and a small history.\<close>

definition plain_route_lo :: route_lo where
  "plain_route_lo =
     \<lparr>rl_Reduce = \<lambda>xs f a. foldl (\<lambda>acc (x, i). f acc x i) a (zip xs [0 ..< length xs]), rl_Concat = concat,
      rl_Filter = \<lambda>xs P. map fst (filter (\<lambda>(x, i). P x i) (zip xs [0 ..< length xs]))\<rparr>"

lemma plain_route_lo_ok: "route_lo_ok plain_route_lo"
  unfolding route_lo_ok_def plain_route_lo_def by (simp add: filter_zip_fst foldl_zip_fst del: split_paired_All)

definition sample_env :: http_env where
  "sample_env = \<lparr>he_unicode = ascii_unicode, he_lo = plain_route_lo, he_Wrapf = Wrapped\<rparr>"

definition sample_route :: "string \<Rightarrow> string \<Rightarrow> routeInfo" where
  "sample_route meth path = \<lparr>ri_Method = meth, ri_Path = path, ri_HandlerName = [], ri_Comment = [], ri_Tags = None\<rparr>"

definition sample_calls :: "hr_op list" where
  "sample_calls = [HrAdd (sample_route ''get'' ''/{x}''), HrAdd (sample_route ''GET'' ''/a''),
     HrMatch ''GET'' ''/a/'', HrMatch ''PUT'' ''/a'', HrCount]"

theorem routes_refine_list_witness:
  "route_lo_ok (he_lo sample_env) \<and> list_all hr_ok sample_calls \<and> length sample_calls < 2 ^ 64 - 1
   \<and> snd (run (hr_step sample_env) sample_calls (Some newServer))
     = [HrUnit, HrUnit, HrRoute (Some (sample_route ''GET'' ''/{x}'')), HrRoute None, HrNat 2]"
proof -
  have lo: "route_lo_ok (he_lo sample_env)" using plain_route_lo_ok by (simp add: sample_env_def)
  have ok: "list_all hr_ok sample_calls" and len: "length sample_calls < 2 ^ 64 - 1" by (simp_all add: sample_calls_def)
  have "snd (run (hr_spec sample_env) sample_calls ([], False))
     = [HrUnit, HrUnit, HrRoute (Some (sample_route ''GET'' ''/{x}'')), HrRoute None, HrNat 2]"
    by code_simp
  with routes_refine_list [OF lo ok len] lo ok len show ?thesis by simp
qed

end
