(* ===== verification/Mapping_OrderedMap.thy ===== *)
theory Mapping_OrderedMap
  imports Mapping_Map List_List "HOL-Library.AList"
begin

text \<open>
  \<^verbatim>\<open>collectionx/mapping/ordered_map.go\<close> and its part of \<^verbatim>\<open>mapping/json.go\<close>: a list of keys in insertion
  order, a map of values and a map from each key to its position, embedded by value and called
  through their addresses. The invariant \<open>om_inv\<close> ties the three together and keeps the two caches
  fresh. Shown: over any history the map answers as an association list with distinct keys, in
  insertion order.
\<close>

record ('k, 'v) omap =
  om_order :: "'k glist"
  om_items :: "('k, 'v) gmap"
  om_index :: "('k, int) gmap"
  valuesCache :: "'v list"
  valuesDirty :: bool
  om_ser :: ser_cache

definition om_zero :: "('k, 'v) omap" where
  "om_zero = \<lparr>om_order = li_zero, om_items = gm_zero, om_index = gm_zero, valuesCache = [],
     valuesDirty = False, om_ser = ser_zero\<rparr>"

definition NewOrderedMapWithCapacity :: "int \<Rightarrow> ('k, 'v) omap" where
  "NewOrderedMapWithCapacity capacity =
     (if capacity \<le> 0 then om_zero
      else om_zero\<lparr>om_order := the (List_List.NewListWithCapacity capacity []),
                   om_items := the (NewMapWithCapacity capacity),
                   om_index := the (NewMapWithCapacity capacity)\<rparr>)"

definition NewOrderedMap :: "('k, 'v) omap" where
  "NewOrderedMap = NewOrderedMapWithCapacity 0"

definition OrderedMap_ensureInit :: "('k, 'v) omap \<Rightarrow> ('k, 'v) omap" where
  "OrderedMap_ensureInit m =
     m\<lparr>om_items := Map_ensureInit (om_items m), om_index := Map_ensureInit (om_index m)\<rparr>"

definition OrderedMap_invalidateValuesCache :: "('k, 'v) omap \<Rightarrow> ('k, 'v) omap" where
  "OrderedMap_invalidateValuesCache m = m\<lparr>valuesCache := [], valuesDirty := True\<rparr>"

definition OrderedMap_invalidateSerializationCache :: "('k, 'v) omap \<Rightarrow> ('k, 'v) omap" where
  "OrderedMap_invalidateSerializationCache m = m\<lparr>om_ser := ser_invalidate (om_ser m)\<rparr>"

definition OrderedMap_cacheSerializationData :: "('k, 'v) omap \<Rightarrow> bytes \<Rightarrow> ('k, 'v) omap" where
  "OrderedMap_cacheSerializationData m data = m\<lparr>om_ser := ser_store data (om_ser m)\<rparr>"

primrec OrderedMap_Set :: "('k, 'v) omap option \<Rightarrow> 'k \<Rightarrow> 'v \<Rightarrow> ('k, 'v) omap option" where
  "OrderedMap_Set None k v = None"
| "OrderedMap_Set (Some m0) k v =
     (let m1 = OrderedMap_ensureInit m0;
          m2 = (if Map_Get (Some (om_items m1)) k = None
                then let m = m1\<lparr>om_order := the (List_Add (Some (om_order m1)) [k])\<rparr>
                     in m\<lparr>om_index := the (Map_Set (Some (om_index m)) k
                                           (int (List_Len (Some (om_order m))) - 1))\<rparr>
                else m1);
          m3 = m2\<lparr>om_items := the (Map_Set (Some (om_items m2)) k v)\<rparr>
      in Some (OrderedMap_invalidateSerializationCache (OrderedMap_invalidateValuesCache m3)))"

primrec OrderedMap_Get :: "('k, 'v) omap option \<Rightarrow> 'k \<Rightarrow> 'v option" where
  "OrderedMap_Get None k = None"
| "OrderedMap_Get (Some m) k = Map_Get (Some (om_items m)) k"

definition OrderedMap_GetOption :: "('k, 'v) omap option \<Rightarrow> 'k \<Rightarrow> 'v option" where
  "OrderedMap_GetOption p k = (case OrderedMap_Get p k of None \<Rightarrow> None | Some v \<Rightarrow> Some v)"

text \<open>\<open>value, _ := m.items.Get(key)\<close>: the zero value when the key is missing.\<close>

definition om_value :: "('k, 'v::zero) omap \<Rightarrow> 'k \<Rightarrow> 'v" where
  "om_value m k = (case Map_Get (Some (om_items m)) k of None \<Rightarrow> 0 | Some v \<Rightarrow> v)"

primrec OrderedMap_At :: "('k, 'v::zero) omap option \<Rightarrow> int \<Rightarrow> ('k \<times> 'v) option" where
  "OrderedMap_At None pos = None"
| "OrderedMap_At (Some m) pos =
     (case List_Get (Some (om_order m)) pos of
        None \<Rightarrow> None | Some k \<Rightarrow> Some (k, om_value m k))"

text \<open>The reindexing loop of \<open>Delete\<close>: \<open>for i := pos; i < m.order.Len(); i++\<close>.\<close>

definition reindex :: "'k::zero glist \<Rightarrow> ('k, int) gmap \<Rightarrow> nat \<Rightarrow> ('k, int) gmap" where
  "reindex ord idx pos =
     foldl (\<lambda>ix i. let nextKey = (case List_Get (Some ord) (int i) of None \<Rightarrow> 0 | Some k \<Rightarrow> k)
                   in the (Map_Set (Some ix) nextKey (int i)))
       idx [pos ..< List_Len (Some ord)]"

primrec OrderedMap_Delete :: "('k::zero, 'v) omap option \<Rightarrow> 'k \<Rightarrow> ('k, 'v) omap option \<times> bool" where
  "OrderedMap_Delete None k = (None, False)"
| "OrderedMap_Delete (Some m) k =
     (case Map_Get (Some (om_index m)) k of
        None \<Rightarrow> (Some m, False)
      | Some pos \<Rightarrow>
          let m1 = m\<lparr>om_items := the (fst (Map_Delete (Some (om_items m)) k)),
                     om_index := the (fst (Map_Delete (Some (om_index m)) k)),
                     om_order := the (fst (List_RemoveAt (Some (om_order m)) pos))\<rparr>;
              m2 = m1\<lparr>om_index := reindex (om_order m1) (om_index m1) (nat pos)\<rparr>
          in (Some (OrderedMap_invalidateSerializationCache (OrderedMap_invalidateValuesCache m2)), True))"

primrec OrderedMap_Len :: "('k, 'v) omap option \<Rightarrow> nat" where
  "OrderedMap_Len None = 0"
| "OrderedMap_Len (Some m) = List_Len (Some (om_order m))"

definition OrderedMap_IsEmpty :: "('k, 'v) omap option \<Rightarrow> bool" where
  "OrderedMap_IsEmpty p \<longleftrightarrow> OrderedMap_Len p = 0"

primrec OrderedMap_Clear :: "('k, 'v) omap option \<Rightarrow> ('k, 'v) omap option" where
  "OrderedMap_Clear None = None"
| "OrderedMap_Clear (Some m) =
     Some (m\<lparr>om_order := the (List_Clear (Some (om_order m))),
             om_items := the (Map_Clear (Some (om_items m))),
             om_index := the (Map_Clear (Some (om_index m))),
             valuesCache := [], valuesDirty := False, om_ser := ser_zero\<rparr>)"

primrec OrderedMap_Keys :: "('k, 'v) omap option \<Rightarrow> 'k list" where
  "OrderedMap_Keys None = []"
| "OrderedMap_Keys (Some m) =
     (let ks = List_Values (Some (om_order m)) in if length ks = 0 then [] else ks)"

primrec OrderedMap_Values ::
    "('k, 'v::zero) omap option \<Rightarrow> ('k, 'v) omap option \<times> 'v list" where
  "OrderedMap_Values None = (None, [])"
| "OrderedMap_Values (Some m) =
     (if List_Len (Some (om_order m)) = 0 then (Some m, [])
      else if \<not> valuesDirty m \<and> length (valuesCache m) > 0 then (Some m, valuesCache m)
      else let vs = List_Range (Some (om_order m))
                      (Some (\<lambda>acc (_, k). (acc @ [om_value m k], True))) []
           in (Some (m\<lparr>valuesCache := vs, valuesDirty := False\<rparr>), vs))"

primrec OrderedMap_All :: "('k, 'v) omap option \<Rightarrow> ('k, 'v) go_map" where
  "OrderedMap_All None = Some fmempty"
| "OrderedMap_All (Some m) =
     (if Map_Len (Some (om_items m)) = 0 then Some fmempty else Map_All (Some (om_items m)))"

fun OrderedMap_Range ::
    "('k, 'v::zero) omap option \<Rightarrow> ('st \<Rightarrow> 'k \<times> 'v \<Rightarrow> 'st \<times> bool) option \<Rightarrow> 'st \<Rightarrow> 'st" where
  "OrderedMap_Range (Some m) (Some fn) st =
     List_Range (Some (om_order m)) (Some (\<lambda>s (_, k). fn s (k, om_value m k))) st"
| "OrderedMap_Range _ _ st = st"

primrec OrderedMap_Clone :: "('k, 'v) omap option \<Rightarrow> ('k, 'v) omap option" where
  "OrderedMap_Clone None = Some NewOrderedMap"
| "OrderedMap_Clone (Some m) =
     (let out = NewOrderedMapWithCapacity (int (List_Len (Some (om_order m))))
      in Some (out\<lparr>om_order := the (List_MergeSlice (Some (om_order out)) (List_Values (Some (om_order m)))),
                   om_items := the (Map_SetAll (Some (om_items out)) (Map_All (Some (om_items m)))),
                   om_index := the (Map_SetAll (Some (om_index out)) (Map_All (Some (om_index m))))\<rparr>))"

fun OrderedMap_WhereEntries ::
    "('k, 'v::zero) omap option \<Rightarrow> ('k \<Rightarrow> 'v \<Rightarrow> bool) option \<Rightarrow> ('k, 'v) omap option" where
  "OrderedMap_WhereEntries (Some m) (Some P) =
     (if List_Len (Some (om_order m)) = 0 then Some NewOrderedMap
      else OrderedMap_Range (Some m)
             (Some (\<lambda>filtered (k, v). (if P k v then OrderedMap_Set filtered k v else filtered, True)))
             (Some (NewOrderedMapWithCapacity (int (List_Len (Some (om_order m)))))))"
| "OrderedMap_WhereEntries _ _ = Some NewOrderedMap"

fun OrderedMap_RejectEntries ::
    "('k, 'v::zero) omap option \<Rightarrow> ('k \<Rightarrow> 'v \<Rightarrow> bool) option \<Rightarrow> ('k, 'v) omap option" where
  "OrderedMap_RejectEntries (Some m) (Some P) =
     (if List_Len (Some (om_order m)) = 0 then Some NewOrderedMap
      else OrderedMap_Range (Some m)
             (Some (\<lambda>rejected (k, v). (if \<not> P k v then OrderedMap_Set rejected k v else rejected, True)))
             (Some (NewOrderedMapWithCapacity (int (List_Len (Some (om_order m)))))))"
| "OrderedMap_RejectEntries _ _ = Some NewOrderedMap"

text \<open>\<open>key, value, _ := m.At(i); out.Set(key, value)\<close> for the given positions.\<close>

definition copyEntries ::
    "('k::zero, 'v::zero) omap \<Rightarrow> nat list \<Rightarrow> ('k, 'v) omap option \<Rightarrow> ('k, 'v) omap option" where
  "copyEntries m is out =
     foldl (\<lambda>o' i. case OrderedMap_At (Some m) (int i) of
                     None \<Rightarrow> OrderedMap_Set o' 0 0 | Some (k, v) \<Rightarrow> OrderedMap_Set o' k v) out is"

primrec OrderedMap_Take :: "('k::zero, 'v::zero) omap option \<Rightarrow> int \<Rightarrow> ('k, 'v) omap option" where
  "OrderedMap_Take None n = Some NewOrderedMap"
| "OrderedMap_Take (Some m) n =
     (if n \<le> 0 \<or> List_Len (Some (om_order m)) = 0 then Some NewOrderedMap
      else if n \<ge> int (List_Len (Some (om_order m))) then OrderedMap_Clone (Some m)
      else copyEntries m [0 ..< nat n] (Some (NewOrderedMapWithCapacity n)))"

primrec OrderedMap_Drop :: "('k::zero, 'v::zero) omap option \<Rightarrow> int \<Rightarrow> ('k, 'v) omap option" where
  "OrderedMap_Drop None n = Some NewOrderedMap"
| "OrderedMap_Drop (Some m) n =
     (if List_Len (Some (om_order m)) = 0 then Some NewOrderedMap
      else if n \<le> 0 then OrderedMap_Clone (Some m)
      else if n \<ge> int (List_Len (Some (om_order m))) then Some NewOrderedMap
      else copyEntries m [nat n ..< List_Len (Some (om_order m))]
             (Some (NewOrderedMapWithCapacity (int (List_Len (Some (om_order m))) - n))))"

fun OrderedMap_EachEntry ::
    "('k, 'v::zero) omap option \<Rightarrow> ('st \<Rightarrow> 'k \<times> 'v \<Rightarrow> 'st) option \<Rightarrow> 'st
     \<Rightarrow> 'st \<times> ('k, 'v) omap option" where
  "OrderedMap_EachEntry None fn st = (st, Some NewOrderedMap)"
| "OrderedMap_EachEntry (Some m) None st = (st, Some m)"
| "OrderedMap_EachEntry (Some m) (Some fn) st =
     (OrderedMap_Range (Some m) (Some (\<lambda>s kv. (fn s kv, True))) st, Some m)"

text \<open>\<open>for i := range m.order.Len()\<close> with \<open>At(i)\<close>, returning the first entry that matches.\<close>

fun firstEntryLoop ::
    "('k::zero, 'v::zero) omap \<Rightarrow> ('k \<Rightarrow> 'v \<Rightarrow> bool) \<Rightarrow> nat list \<Rightarrow> ('k \<times> 'v) option" where
  "firstEntryLoop m P [] = None"
| "firstEntryLoop m P (i # is) =
     (case (case OrderedMap_At (Some m) (int i) of None \<Rightarrow> (0, 0) | Some kv \<Rightarrow> kv) of
        (k, v) \<Rightarrow> if P k v then Some (k, v) else firstEntryLoop m P is)"

fun OrderedMap_FirstEntryWhere ::
    "('k::zero, 'v::zero) omap option \<Rightarrow> ('k \<Rightarrow> 'v \<Rightarrow> bool) option \<Rightarrow> ('k \<times> 'v) option" where
  "OrderedMap_FirstEntryWhere (Some m) (Some P) =
     (if List_Len (Some (om_order m)) = 0 then None
      else firstEntryLoop m P [0 ..< List_Len (Some (om_order m))])"
| "OrderedMap_FirstEntryWhere _ _ = None"

definition OrderedMap_AnyEntryMatch ::
    "('k::zero, 'v::zero) omap option \<Rightarrow> ('k \<Rightarrow> 'v \<Rightarrow> bool) option \<Rightarrow> bool" where
  "OrderedMap_AnyEntryMatch p P =
     (case OrderedMap_FirstEntryWhere p P of None \<Rightarrow> False | Some _ \<Rightarrow> True)"

fun OrderedMap_AllEntryMatch ::
    "('k::zero, 'v::zero) omap option \<Rightarrow> ('k \<Rightarrow> 'v \<Rightarrow> bool) option \<Rightarrow> bool" where
  "OrderedMap_AllEntryMatch (Some m) (Some P) =
     (if List_Len (Some (om_order m)) = 0 then False
      else firstEntryLoop m (\<lambda>k v. \<not> P k v) [0 ..< List_Len (Some (om_order m))] = None)"
| "OrderedMap_AllEntryMatch _ _ = False"

primrec OrderedMap_ToJSON ::
    "('k, 'v) fmap json_marshal \<Rightarrow> ('k, 'v) omap option \<Rightarrow> ('k, 'v) omap option \<times> (string + bytes)" where
  "OrderedMap_ToJSON marshal None = (None, marshalMappingJSON marshal fmempty ''ordered map'')"
| "OrderedMap_ToJSON marshal (Some m) =
     (case (jsonDirty (om_ser m), jsonCache (om_ser m)) of
        (False, Some d) \<Rightarrow> (Some m, Inr d)
      | _ \<Rightarrow>
         (case (if fm_size (ml (gm_items (om_items m))) = 0
                then marshalMappingJSON marshal fmempty ''ordered map''
                else marshalMappingJSON marshal (ml (gm_items (om_items m))) ''ordered map'') of
            Inl err \<Rightarrow> (Some m, Inl err)
          | Inr d \<Rightarrow> (Some (OrderedMap_cacheSerializationData m d), Inr d)))"

definition OrderedMap_MarshalJSON ::
    "string + bytes \<Rightarrow> ('k, 'v) fmap json_marshal \<Rightarrow> ('k, 'v) omap option
     \<Rightarrow> ('k, 'v) omap option \<times> (string + bytes)" where
  "OrderedMap_MarshalJSON n marshal p =
     (case OrderedMap_ToJSON marshal p of (q, r) \<Rightarrow> (q, forwardMappingJSON n (\<lambda>_. r) ''ordered map''))"

definition OrderedMap_String ::
    "('k, 'v) fmap json_marshal \<Rightarrow> ('k, 'v) omap option \<Rightarrow> ('k, 'v) omap option \<times> string" where
  "OrderedMap_String marshal p =
     (case p of
        Some m \<Rightarrow>
          if \<not> jsonDirty (om_ser m) \<and> stringCache (om_ser m) \<noteq> [] then (p, stringCache (om_ser m))
          else (case OrderedMap_ToJSON marshal p of (q, r) \<Rightarrow> (q, JSONResultString r ''{}''))
      | None \<Rightarrow> (case OrderedMap_ToJSON marshal p of (q, r) \<Rightarrow> (q, JSONResultString r ''{}'')))"

subsection \<open>Invariant and content\<close>

definition om_keys :: "('k, 'v) omap \<Rightarrow> 'k list" where
  "om_keys m = sl (li_items (om_order m))"

definition om_pairs :: "('k, 'v::zero) omap \<Rightarrow> ('k \<times> 'v) list" where
  "om_pairs m = map (\<lambda>k. (k, om_value m k)) (om_keys m)"

definition om_wf :: "('k, 'v) omap \<Rightarrow> bool" where
  "om_wf m \<longleftrightarrow> distinct (om_keys m) \<and> fmdom' (gm_map (om_items m)) = set (om_keys m)
     \<and> (\<forall>k i. fmlookup (gm_map (om_index m)) k = Some i
              \<longleftrightarrow> (\<exists>n < length (om_keys m). i = int n \<and> om_keys m ! n = k))"

definition om_fresh :: "('k, 'v::zero) fmap json_marshal \<Rightarrow> ('k, 'v) omap \<Rightarrow> bool" where
  "om_fresh marshal m \<longleftrightarrow>
     (\<not> valuesDirty m \<longrightarrow> valuesCache m = [] \<or> valuesCache m = map snd (om_pairs m))
     \<and> ser_coherent (marshalMappingJSON marshal (gm_map (om_items m)) ''ordered map'') (om_ser m)"

lemma om_value_lookup: "om_value m k = (case fmlookup (gm_map (om_items m)) k of None \<Rightarrow> 0 | Some v \<Rightarrow> v)"
  by (simp add: om_value_def)

lemma om_wf_lookup:
  assumes "om_wf m"
  shows "fmlookup (gm_map (om_items m)) k = (if k \<in> set (om_keys m) then Some (om_value m k) else None)"
proof -
  have "k \<in> set (om_keys m) \<longleftrightarrow> fmlookup (gm_map (om_items m)) k \<noteq> None"
    using assms unfolding om_wf_def by (metis fmdom'_notD fmdom'_notI)
  then show ?thesis by (auto simp: om_value_lookup)
qed

lemma map_of_om_pairs: "om_wf m \<Longrightarrow> map_of (om_pairs m) = fmlookup (gm_map (om_items m))"
  by (auto simp: om_pairs_def om_wf_lookup map_of_map_keys restrict_map_def fun_eq_iff
      map_of_map_restrict)

lemma fst_om_pairs [simp]: "map fst (om_pairs m) = om_keys m" "length (om_pairs m) = length (om_keys m)"
  by (simp_all add: om_pairs_def comp_def)

lemma fst_set_om_pairs [simp]: "fst ` set (om_pairs m) = set (om_keys m)"
  by (metis fst_om_pairs(1) list.set_map)

lemma om_pairs_nil: "om_pairs m = [] \<longleftrightarrow> om_keys m = []"
  by (simp add: om_pairs_def)

subsection \<open>Set and Delete on association lists\<close>

lemma AList_update_map:
  "distinct ks \<Longrightarrow> AList.update k v (map (\<lambda>x. (x, f x)) ks)
     = (if k \<in> set ks then map (\<lambda>x. (x, if x = k then v else f x)) ks
        else map (\<lambda>x. (x, f x)) ks @ [(k, v)])"
  by (induction ks) auto

lemma AList_update_new: "k \<notin> fst ` set xs \<Longrightarrow> AList.update k v xs = xs @ [(k, v)]"
  by (induction xs) auto

lemma OrderedMap_Set_spec:
  fixes m :: "('k, 'v::zero) omap" and k :: 'k and v :: 'v
  assumes wf: "om_wf m"
  defines "m' \<equiv> the (OrderedMap_Set (Some m) k v)"
  shows "om_wf m' \<and> om_pairs m' = AList.update k v (om_pairs m) \<and> om_fresh marshal m'"
proof -
  have d: "distinct (om_keys m)" using wf by (simp add: om_wf_def)
  let ?new = "k \<notin> set (om_keys m)"
  have keys: "om_keys m' = (if ?new then om_keys m @ [k] else om_keys m)"
    and items: "gm_map (om_items m') = fmupd k v (gm_map (om_items m))"
    and index: "gm_map (om_index m') = (if ?new then fmupd k (int (length (om_keys m))) (gm_map (om_index m))
                                        else gm_map (om_index m))"
    and cache: "om_fresh marshal m'"
    using om_wf_lookup [OF wf, of k]
    by (auto simp: m'_def om_keys_def OrderedMap_ensureInit_def Let_def om_fresh_def
        OrderedMap_invalidateSerializationCache_def OrderedMap_invalidateValuesCache_def li_items_the
        simp del: List_Add.simps Map_Set.simps)
  have val: "om_value m' x = (if x = k then v else om_value m x)" for x
    by (simp add: om_value_lookup items)
  have "om_pairs m' = AList.update k v (om_pairs m)"
    using AList_update_map [OF d, of k v "om_value m"] by (simp add: om_pairs_def keys val)
  moreover have "om_wf m'"
  proof (cases ?new)
    case True
    have "fmlookup (gm_map (om_index m')) x = Some i
        \<longleftrightarrow> (\<exists>n < length (om_keys m'). i = int n \<and> om_keys m' ! n = x)" for x i
      using wf True by (auto simp: om_wf_def keys index nth_append less_Suc_eq)
    with wf True show ?thesis by (simp add: om_wf_def keys items)
  next
    case False
    with wf show ?thesis by (auto simp: om_wf_def keys items index)
  qed
  ultimately show ?thesis using cache by blast
qed

lemma reindex_lookup:
  assumes "distinct (sl (li_items ord))" "pos \<le> length (sl (li_items ord))"
  shows "fmlookup (gm_map (reindex ord idx pos)) x
         = (case map_of (map (\<lambda>i. (sl (li_items ord) ! i, int i)) [pos ..< length (sl (li_items ord))]) x of
              None \<Rightarrow> fmlookup (gm_map idx) x | Some i \<Rightarrow> Some i)"
proof -
  let ?ks = "sl (li_items ord)"
  have "fmlookup (gm_map (foldl (\<lambda>ix i. let nextKey = (case List_Get (Some ord) (int i) of None \<Rightarrow> 0 | Some k \<Rightarrow> k)
                   in the (Map_Set (Some ix) nextKey (int i))) idx is)) x
      = (case map_of (map (\<lambda>i. (?ks ! i, int i)) is) x of None \<Rightarrow> fmlookup (gm_map idx) x | Some i \<Rightarrow> Some i)"
    if "distinct is" "\<forall>i\<in>set is. i < length ?ks" for "is"
    using that
  proof (induction "is" arbitrary: idx)
    case (Cons i "is")
    have get: "List_Get (Some ord) (int i) = Some (?ks ! i)" using Cons.prems by simp
    have "map_of (map (\<lambda>i. (?ks ! i, int i)) is) (?ks ! i) = None"
      using Cons.prems assms(1) by (auto simp: map_of_eq_None_iff nth_eq_iff_index_eq)
    with Cons show ?case by (auto simp: get simp del: Map_Set.simps List_Get.simps split: option.split)
  qed simp
  then show ?thesis by (simp add: reindex_def)
qed

lemma OrderedMap_Delete_spec:
  fixes m :: "('k::zero, 'v::zero) omap"
  assumes wf: "om_wf m" and fr: "om_fresh marshal m"
  shows "\<exists>m'. OrderedMap_Delete (Some m) k = (Some m', k \<in> set (om_keys m))
       \<and> om_wf m' \<and> om_pairs m' = AList.delete k (om_pairs m) \<and> om_fresh marshal m'"
proof (cases "k \<in> set (om_keys m)")
  case False
  then have "fmlookup (gm_map (om_index m)) k = None"
    using wf by (metis (no_types, lifting) nth_mem om_wf_def option.exhaust)
  moreover have "AList.delete k (om_pairs m) = om_pairs m"
    using False by (intro AList.delete_id) (auto simp: om_pairs_def)
  ultimately show ?thesis using False wf fr by (simp del: Map_Get.simps)
next
  case True
  then obtain n where n: "n < length (om_keys m)" "om_keys m ! n = k" by (auto simp: in_set_conv_nth)
  then have idx: "fmlookup (gm_map (om_index m)) k = Some (int n)" using wf by (auto simp: om_wf_def)
  have d: "distinct (om_keys m)" using wf by (simp add: om_wf_def)
  define m' where "m' = the (fst (OrderedMap_Delete (Some m) k))"
  let ?ks = "take n (om_keys m) @ drop (Suc n) (om_keys m)"
  have split: "om_keys m = take n (om_keys m) @ k # drop (Suc n) (om_keys m)"
    using n by (metis id_take_nth_drop)
  have ks: "?ks = filter (\<lambda>x. x \<noteq> k) (om_keys m)"
  proof -
    have "k \<notin> set (take n (om_keys m))" "k \<notin> set (drop (Suc n) (om_keys m))"
      using d unfolding arg_cong [OF split, of distinct] by auto
    moreover have f: "filter (\<lambda>x. x \<noteq> k) ys = ys" if "k \<notin> set ys" for ys
      using that by (induction ys) auto
    ultimately have "filter (\<lambda>x. x \<noteq> k) (take n (om_keys m) @ k # drop (Suc n) (om_keys m)) = ?ks"
      using f by simp
    then show ?thesis using split by simp
  qed
  have keys: "om_keys m' = ?ks"
    and items: "gm_map (om_items m') = fmdrop k (gm_map (om_items m))"
    and index: "om_index m' = reindex (om_order m') (the (fst (Map_Delete (Some (om_index m)) k))) n"
    and cache: "om_fresh marshal m'"
    using li_items_RemoveAt [of n "om_order m"] n(1)
    by (auto simp: m'_def idx om_keys_def Let_def om_fresh_def OrderedMap_invalidateSerializationCache_def
        OrderedMap_invalidateValuesCache_def simp del: Map_Delete.simps List_RemoveAt.simps)
  have res: "OrderedMap_Delete (Some m) k = (Some m', k \<in> set (om_keys m))"
    using True by (simp add: m'_def idx Let_def del: Map_Delete.simps List_RemoveAt.simps)
  have dk: "distinct (om_keys m')" unfolding keys ks using d by simp
  have len: "length (om_keys m') = length (om_keys m) - 1" "n \<le> length (om_keys m')"
    using n(1) by (simp_all add: keys)
  have at: "om_keys m' ! j = (if j < n then om_keys m ! j else om_keys m ! Suc j)"
    if "j < length (om_keys m')" for j
    using that n(1) by (auto simp: keys nth_append)
  have old: "fmlookup (gm_map (om_index m)) x = Some i
      \<longleftrightarrow> (\<exists>j < length (om_keys m). i = int j \<and> om_keys m ! j = x)" for x i
    using wf by (simp add: om_wf_def)
  have ix: "fmlookup (gm_map (om_index m')) x = Some i
      \<longleftrightarrow> (\<exists>j < length (om_keys m'). i = int j \<and> om_keys m' ! j = x)" for x i
  proof -
    let ?mo = "map_of (map (\<lambda>i. (om_keys m' ! i, int i)) [n ..< length (om_keys m')])"
    have look: "fmlookup (gm_map (om_index m')) x
        = (case ?mo x of None \<Rightarrow> if x = k then None else fmlookup (gm_map (om_index m)) x | Some i \<Rightarrow> Some i)"
      using reindex_lookup [of "om_order m'" n] dk len(2) index by (simp add: om_keys_def split: option.split)
    have mo: "?mo x = Some i \<longleftrightarrow> (\<exists>j < length (om_keys m'). n \<le> j \<and> i = int j \<and> om_keys m' ! j = x)" for i
    proof -
      have "distinct (map fst (map (\<lambda>i. (om_keys m' ! i, int i)) [n ..< length (om_keys m')]))"
        using dk by (auto simp: comp_def distinct_map inj_on_def nth_eq_iff_index_eq)
      then show ?thesis by (subst map_of_eq_Some_iff) auto
    qed
    show ?thesis
    proof (cases "?mo x")
      case (Some i0)
      then obtain j0 where j0: "j0 < length (om_keys m')" "i0 = int j0" "om_keys m' ! j0 = x"
        using mo by blast
      have "j = j0" if "j < length (om_keys m')" "om_keys m' ! j = x" for j
        using nth_eq_iff_index_eq [OF dk that(1) j0(1)] that(2) j0(3) by simp
      moreover have "fmlookup (gm_map (om_index m')) x = Some i \<longleftrightarrow> i = i0"
        unfolding look Some by auto
      ultimately show ?thesis using j0 by blast
    next
      case None
      then have none: "\<not> (n \<le> j \<and> om_keys m' ! j = x)" if "j < length (om_keys m')" for j
        using mo [of "int j"] that None by auto
      have "(x \<noteq> k \<and> (\<exists>j < length (om_keys m). i = int j \<and> om_keys m ! j = x))
          \<longleftrightarrow> (\<exists>j < length (om_keys m'). i = int j \<and> om_keys m' ! j = x)" (is "?l \<longleftrightarrow> ?r")
      proof
        assume ?l
        then obtain j where j: "x \<noteq> k" "j < length (om_keys m)" "i = int j" "om_keys m ! j = x" by blast
        then have "j \<noteq> n" using n(2) by blast
        moreover have "\<not> n < j"
        proof
          assume "n < j"
          then have "om_keys m' ! (j - 1) = x" "j - 1 < length (om_keys m')" "n \<le> j - 1"
            using at [of "j - 1"] j len by auto
          then show False using none by blast
        qed
        ultimately have "j < n" by simp
        then show ?r using at [of j] j len by auto
      next
        assume ?r
        then obtain j where j: "j < length (om_keys m')" "i = int j" "om_keys m' ! j = x" by blast
        then have "j < n" using none [of j] by auto
        then have "om_keys m ! j = x" "j < length (om_keys m)" "x \<noteq> k"
          using at [of j] j n d nth_eq_iff_index_eq [of "om_keys m" j n] by auto
        with j show ?l by blast
      qed
      then show ?thesis using None old by (auto simp: look)
    qed
  qed
  have "om_wf m'"
    unfolding om_wf_def using dk ix wf ks by (auto simp: items om_wf_def keys)
  moreover have "om_pairs m' = AList.delete k (om_pairs m)"
  proof -
    have "om_value m' x = om_value m x" if "x \<noteq> k" for x
      using that by (simp add: om_value_lookup items)
    then have "map (\<lambda>x. (x, om_value m' x)) (filter (\<lambda>x. x \<noteq> k) (om_keys m))
        = map (\<lambda>x. (x, om_value m x)) (filter (\<lambda>x. x \<noteq> k) (om_keys m))"
      by (intro map_cong) auto
    moreover have "filter ((\<noteq>) k) (om_keys m) = filter (\<lambda>x. x \<noteq> k) (om_keys m)" by (metis (full_types))
    ultimately show ?thesis by (simp add: om_pairs_def keys ks AList.delete_eq filter_map comp_def)
  qed
  ultimately show ?thesis using res cache by blast
qed

subsection \<open>Traversals and copies\<close>

lemma OrderedMap_Range_pairs:
  "OrderedMap_Range (Some m) (Some f) st = range_until f st (om_pairs m)"
proof -
  have "range_until (\<lambda>s (i, k). f s (k, om_value m k)) st (enumerate n ks)
      = range_until f st (map (\<lambda>k. (k, om_value m k)) ks)" for n ks
    by (induction ks arbitrary: n st) (auto split: prod.split)
  then show ?thesis by (simp add: om_pairs_def om_keys_def)
qed

lemma OrderedMap_Values_spec:
  assumes fr: "om_fresh marshal m" and wf: "om_wf m"
  shows "\<exists>m'. OrderedMap_Values (Some m) = (Some m', map snd (om_pairs m))
       \<and> om_pairs m' = om_pairs m \<and> om_wf m' \<and> om_fresh marshal m'"
proof -
  have "List_Range (Some (om_order m)) (Some (\<lambda>acc (_, k). (acc @ [om_value m k], True))) acc
      = acc @ map snd (om_pairs m)" for acc
  proof -
    have "range_until (\<lambda>acc (i, k). (acc @ [om_value m k], True)) acc (enumerate n ks)
        = acc @ map (om_value m) ks" for n ks
      by (induction ks arbitrary: n acc) auto
    then show ?thesis by (simp add: om_pairs_def om_keys_def comp_def)
  qed
  then have vs: "List_Range (Some (om_order m)) (Some (\<lambda>acc (_, k). (acc @ [om_value m k], True))) []
      = map snd (om_pairs m)" by simp
  let ?m = "m\<lparr>valuesCache := map snd (om_pairs m), valuesDirty := False\<rparr>"
  have upd: "om_pairs ?m = om_pairs m" "om_wf ?m = om_wf m" "om_fresh marshal ?m"
    using fr by (simp_all add: om_pairs_def om_keys_def om_value_def om_wf_def om_fresh_def)
  show ?thesis
    using fr wf vs upd
    by (cases "sl (li_items (om_order m)) = []")
      (auto simp: om_fresh_def om_pairs_def om_keys_def Let_def simp del: List_Range.simps)
qed

lemma new_omap:
  "om_wf (NewOrderedMapWithCapacity c)" "om_pairs (NewOrderedMapWithCapacity c) = []"
  "om_fresh marshal (NewOrderedMapWithCapacity c)"
  "om_keys (NewOrderedMapWithCapacity c) = []"
  "gm_map (om_items (NewOrderedMapWithCapacity c)) = fmempty"
  "gm_map (om_index (NewOrderedMapWithCapacity c)) = fmempty"
  by (auto simp: NewOrderedMapWithCapacity_def om_zero_def om_wf_def om_pairs_def om_keys_def om_fresh_def
      li_zero_def NewMapWithCapacity_def List_List.NewListWithCapacity_def gm_map_def gm_zero_def)

lemma OrderedMap_Clone_spec:
  assumes "om_wf m"
  shows "\<exists>c. OrderedMap_Clone (Some m) = Some c \<and> om_pairs c = om_pairs m \<and> om_wf c"
proof -
  define c where "c = the (OrderedMap_Clone (Some m))"
  let ?o = "NewOrderedMapWithCapacity (int (List_Len (Some (om_order m)))) :: ('a, 'b) omap"
  have keys: "om_keys c = om_keys m" and items: "gm_map (om_items c) = gm_map (om_items m)"
    and index: "gm_map (om_index c) = gm_map (om_index m)"
    by (simp_all add: c_def Let_def li_items_the om_keys_def new_omap(5,6) new_omap(4) [unfolded om_keys_def])
  then have "om_pairs c = om_pairs m" by (simp add: om_pairs_def om_value_lookup)
  moreover have "om_wf c" using assms by (simp add: om_wf_def keys items index)
  ultimately show ?thesis by (simp add: c_def Let_def)
qed

text \<open>Copying entries one by one with \<open>Set\<close>.\<close>

lemma foldl_Set_pairs:
  assumes "om_wf m" "distinct (map fst (om_pairs m @ es))"
  shows "\<exists>m'. foldl (\<lambda>o' (k, v). OrderedMap_Set o' k v) (Some m) es = Some m' \<and> om_wf m'
       \<and> om_pairs m' = om_pairs m @ es"
  using assms
proof (induction es arbitrary: m)
  case (Cons e es)
  obtain k v where e: "e = (k, v)" by fastforce
  obtain m1 where m1: "OrderedMap_Set (Some m) k v = Some m1" by (simp add: Let_def)
  have upd: "AList.update k v (om_pairs m) = om_pairs m @ [(k, v)]"
    by (rule AList_update_new) (use Cons.prems(2) e in simp)
  have s: "om_wf m1" "om_pairs m1 = om_pairs m @ [(k, v)]"
    using OrderedMap_Set_spec [OF Cons.prems(1), of k v] m1 upd by simp_all
  have "distinct (map fst (om_pairs m1 @ es))" using Cons.prems(2) by (simp add: s(2) e)
  from Cons.IH [OF s(1) this] show ?case using m1 s(2) by (simp add: e del: OrderedMap_Set.simps)
qed simp

lemma filter_loop:
  "range_until (\<lambda>out (k, v). (if P k v then OrderedMap_Set out k v else out, True)) o' es
   = foldl (\<lambda>out (k, v). OrderedMap_Set out k v) o' (filter (\<lambda>(k, v). P k v) es)"
proof (induction es arbitrary: o')
  case (Cons e es)
  obtain k v where "e = (k, v)" by fastforce
  with Cons show ?case by simp
qed simp

lemma om_pairs_distinct: "om_wf m \<Longrightarrow> distinct (map fst (om_pairs m))"
  by (simp add: om_wf_def)

lemma distinct_filter_fst: "distinct (map fst es) \<Longrightarrow> distinct (map fst (filter P es))"
  by (induction es) auto

lemma copy_to_new:
  assumes "distinct (map fst es)"
  shows "\<exists>m'. foldl (\<lambda>o' (k, v). OrderedMap_Set o' k v) (Some (NewOrderedMapWithCapacity c)) es = Some m'
       \<and> om_wf m' \<and> om_pairs m' = es"
  using foldl_Set_pairs [of "NewOrderedMapWithCapacity c" es] assms by (simp add: new_omap)

lemma OrderedMap_At_pairs:
  "OrderedMap_At (Some m) i = (if in_range i (om_pairs m) then Some (om_pairs m ! nat i) else None)"
  by (auto simp: in_range_def om_pairs_def om_keys_def)

lemma copyEntries_pairs:
  assumes "\<forall>i\<in>set is. i < length (om_pairs m)"
  shows "copyEntries m is o' = foldl (\<lambda>o' (k, v). OrderedMap_Set o' k v) o' (map (\<lambda>i. om_pairs m ! i) is)"
  using assms unfolding copyEntries_def
proof (induction "is" arbitrary: o')
  case (Cons i "is")
  then show ?case by (simp add: OrderedMap_At_pairs in_range_def del: OrderedMap_At.simps split: prod.split)
qed simp

lemma firstEntryLoop_find:
  assumes "\<forall>i\<in>set is. i < length (om_pairs m)"
  shows "firstEntryLoop m P is = List.find (\<lambda>(k, v). P k v) (map (\<lambda>i. om_pairs m ! i) is)"
  using assms
proof (induction "is")
  case (Cons i "is")
  obtain k v where kv: "om_pairs m ! i = (k, v)" by fastforce
  with Cons show ?case by (simp add: OrderedMap_At_pairs in_range_def del: OrderedMap_At.simps)
qed simp

lemma map_nth_upt: "a \<le> length xs \<Longrightarrow> map (\<lambda>i. xs ! i) [a ..< length xs] = drop a xs"
  "n \<le> length xs \<Longrightarrow> map (\<lambda>i. xs ! i) [0 ..< n] = take n xs"
  by (auto intro!: nth_equalityI)

lemma OrderedMap_chain_spec:
  fixes m :: "('k::zero, 'v::zero) omap"
  assumes wf: "om_wf m"
  shows "\<exists>c. OrderedMap_WhereEntries (Some m) (Some P) = Some c \<and> om_pairs c = filter (\<lambda>(k, v). P k v) (om_pairs m)"
    and "\<exists>c. OrderedMap_RejectEntries (Some m) (Some P) = Some c \<and> om_pairs c = filter (\<lambda>(k, v). \<not> P k v) (om_pairs m)"
    and "\<exists>c. OrderedMap_Take (Some m) n = Some c \<and> om_pairs c = take (nat n) (om_pairs m)"
    and "\<exists>c. OrderedMap_Drop (Some m) n = Some c \<and> om_pairs c = drop (nat n) (om_pairs m)"
    and "OrderedMap_FirstEntryWhere (Some m) (Some P) = List.find (\<lambda>(k, v). P k v) (om_pairs m)"
proof -
  note d = om_pairs_distinct [OF wf]
  have len: "List_Len (Some (om_order m)) = length (om_pairs m)" by (simp add: om_keys_def)
  have nil: "om_pairs (NewOrderedMap :: ('k, 'v) omap) = []" by (simp add: NewOrderedMap_def new_omap)
  have w: "\<exists>c. range_until (\<lambda>out (k, v). (if Q k v then OrderedMap_Set out k v else out, True))
        (Some (NewOrderedMapWithCapacity c')) (om_pairs m) = Some c
      \<and> om_pairs c = filter (\<lambda>(k, v). Q k v) (om_pairs m)" for Q c'
    unfolding filter_loop using copy_to_new [OF distinct_filter_fst [OF d], of c'] by blast
  show "\<exists>c. OrderedMap_WhereEntries (Some m) (Some P) = Some c \<and> om_pairs c = filter (\<lambda>(k, v). P k v) (om_pairs m)"
    using w [of P] nil len
    by (cases "om_pairs m = []") (simp_all add: OrderedMap_Range_pairs del: OrderedMap_Range.simps List_Len.simps fst_om_pairs)
  show "\<exists>c. OrderedMap_RejectEntries (Some m) (Some P) = Some c \<and> om_pairs c = filter (\<lambda>(k, v). \<not> P k v) (om_pairs m)"
    using w [of "\<lambda>k v. \<not> P k v"] nil len
    by (cases "om_pairs m = []") (simp_all add: OrderedMap_Range_pairs del: OrderedMap_Range.simps List_Len.simps fst_om_pairs)
  have cp: "\<exists>c. copyEntries m is (Some (NewOrderedMapWithCapacity c')) = Some c
      \<and> om_pairs c = map (\<lambda>i. om_pairs m ! i) is"
    if "\<forall>i\<in>set is. i < length (om_pairs m)" "distinct (map fst (map (\<lambda>i. om_pairs m ! i) is))" for "is" c'
    using copyEntries_pairs [OF that(1)] copy_to_new [OF that(2), of c'] by auto
  have dt: "distinct (map fst (take j (om_pairs m)))" "distinct (map fst (drop j (om_pairs m)))" for j
    using d by (metis distinct_take take_map, metis distinct_drop drop_map)
  have take: "\<exists>c. copyEntries m [0 ..< nat n] (Some (NewOrderedMapWithCapacity c')) = Some c
      \<and> om_pairs c = take (nat n) (om_pairs m)" if n: "n < int (length (om_pairs m))" for c'
  proof -
    have le: "nat n \<le> length (om_pairs m)" using n by linarith
    from cp [of "[0 ..< nat n]" c'] show ?thesis unfolding map_nth_upt(2) [OF le] using le dt by auto
  qed
  have drop: "\<exists>c. copyEntries m [nat n ..< length (om_pairs m)] (Some (NewOrderedMapWithCapacity c')) = Some c
      \<and> om_pairs c = drop (nat n) (om_pairs m)" if n: "n < int (length (om_pairs m))" for c'
  proof -
    have le: "nat n \<le> length (om_pairs m)" using n by linarith
    from cp [of "[nat n ..< length (om_pairs m)]" c'] show ?thesis
      unfolding map_nth_upt(1) [OF le] using dt by auto
  qed
  note clone = OrderedMap_Clone_spec [OF wf]
  show "\<exists>c. OrderedMap_Take (Some m) n = Some c \<and> om_pairs c = take (nat n) (om_pairs m)"
    using take [of n] clone nil len by (auto simp del: List_Len.simps OrderedMap_Clone.simps fst_om_pairs)
  show "\<exists>c. OrderedMap_Drop (Some m) n = Some c \<and> om_pairs c = drop (nat n) (om_pairs m)"
    using drop [of "int (length (om_pairs m)) - n"] clone nil len
    by (auto simp del: List_Len.simps OrderedMap_Clone.simps fst_om_pairs)
  show "OrderedMap_FirstEntryWhere (Some m) (Some P) = List.find (\<lambda>(k, v). P k v) (om_pairs m)"
    using firstEntryLoop_find [of "[0 ..< length (om_pairs m)]" m P] map_nth_upt(1) [of 0 "om_pairs m"] len
    by (auto simp del: List_Len.simps)
qed

subsection \<open>Over any history an association list\<close>

datatype (dead 'k, dead 'v) om_op =
    OmSet 'k 'v | OmGet 'k | OmGetOption 'k | OmAt int | OmDelete 'k | OmLen | OmIsEmpty | OmClear
  | OmKeys | OmValues | OmAll | OmRange "'k \<times> 'v \<Rightarrow> bool" | OmClone | OmTake int | OmDrop int
  | OmWhereEntries "'k \<Rightarrow> 'v \<Rightarrow> bool" | OmRejectEntries "'k \<Rightarrow> 'v \<Rightarrow> bool"
  | OmFirstEntryWhere "'k \<Rightarrow> 'v \<Rightarrow> bool" | OmAnyEntryMatch "'k \<Rightarrow> 'v \<Rightarrow> bool"
  | OmAllEntryMatch "'k \<Rightarrow> 'v \<Rightarrow> bool" | OmToJSON | OmString

datatype (dead 'k, dead 'v) om_res =
    OmUnit | OmVal "'v option" | OmPair "('k \<times> 'v) option" | OmBool bool | OmNat nat
  | OmKeyList "'k list" | OmValueList "'v list" | OmMap "('k, 'v) fmap" | OmPairs "('k \<times> 'v) list"
  | OmBytes "string + bytes" | OmText string

definition om_abs :: "('k, 'v::zero) omap option \<Rightarrow> ('k \<times> 'v) list" where
  "om_abs p = (case p of None \<Rightarrow> [] | Some m \<Rightarrow> om_pairs m)"

lemma om_abs_Some [simp]: "om_abs (Some m) = om_pairs m"
  by (simp add: om_abs_def)

text \<open>One call; a new map that an operation returns is observed through its entries.\<close>

primrec om_step ::
    "('k, 'v) fmap json_marshal \<Rightarrow> ('k::zero, 'v::zero) om_op \<Rightarrow> ('k, 'v) omap option
     \<Rightarrow> ('k, 'v) omap option \<times> ('k, 'v) om_res" where
  "om_step marshal (OmSet k v) p = (OrderedMap_Set p k v, OmUnit)"
| "om_step marshal (OmGet k) p = (p, OmVal (OrderedMap_Get p k))"
| "om_step marshal (OmGetOption k) p = (p, OmVal (OrderedMap_GetOption p k))"
| "om_step marshal (OmAt i) p = (p, OmPair (OrderedMap_At p i))"
| "om_step marshal (OmDelete k) p = map_prod id OmBool (OrderedMap_Delete p k)"
| "om_step marshal OmLen p = (p, OmNat (OrderedMap_Len p))"
| "om_step marshal OmIsEmpty p = (p, OmBool (OrderedMap_IsEmpty p))"
| "om_step marshal OmClear p = (OrderedMap_Clear p, OmUnit)"
| "om_step marshal OmKeys p = (p, OmKeyList (OrderedMap_Keys p))"
| "om_step marshal OmValues p = map_prod id OmValueList (OrderedMap_Values p)"
| "om_step marshal OmAll p = (p, OmMap (ml (OrderedMap_All p)))"
| "om_step marshal (OmRange P) p =
     (p, OmPairs (OrderedMap_Range p (Some (\<lambda>acc kv. (acc @ [kv], P kv))) []))"
| "om_step marshal OmClone p = (p, OmPairs (om_abs (OrderedMap_Clone p)))"
| "om_step marshal (OmTake n) p = (p, OmPairs (om_abs (OrderedMap_Take p n)))"
| "om_step marshal (OmDrop n) p = (p, OmPairs (om_abs (OrderedMap_Drop p n)))"
| "om_step marshal (OmWhereEntries P) p = (p, OmPairs (om_abs (OrderedMap_WhereEntries p (Some P))))"
| "om_step marshal (OmRejectEntries P) p = (p, OmPairs (om_abs (OrderedMap_RejectEntries p (Some P))))"
| "om_step marshal (OmFirstEntryWhere P) p = (p, OmPair (OrderedMap_FirstEntryWhere p (Some P)))"
| "om_step marshal (OmAnyEntryMatch P) p = (p, OmBool (OrderedMap_AnyEntryMatch p (Some P)))"
| "om_step marshal (OmAllEntryMatch P) p = (p, OmBool (OrderedMap_AllEntryMatch p (Some P)))"
| "om_step marshal OmToJSON p = map_prod id OmBytes (OrderedMap_ToJSON marshal p)"
| "om_step marshal OmString p = map_prod id OmText (OrderedMap_String marshal p)"

primrec om_spec ::
    "('k, 'v) fmap json_marshal \<Rightarrow> ('k, 'v) om_op \<Rightarrow> ('k \<times> 'v) list
     \<Rightarrow> ('k \<times> 'v) list \<times> ('k, 'v) om_res" where
  "om_spec marshal (OmSet k v) xs = (AList.update k v xs, OmUnit)"
| "om_spec marshal (OmGet k) xs = (xs, OmVal (map_of xs k))"
| "om_spec marshal (OmGetOption k) xs = (xs, OmVal (map_of xs k))"
| "om_spec marshal (OmAt i) xs = (xs, OmPair (if in_range i xs then Some (xs ! nat i) else None))"
| "om_spec marshal (OmDelete k) xs = (AList.delete k xs, OmBool (k \<in> fst ` set xs))"
| "om_spec marshal OmLen xs = (xs, OmNat (length xs))"
| "om_spec marshal OmIsEmpty xs = (xs, OmBool (xs = []))"
| "om_spec marshal OmClear xs = ([], OmUnit)"
| "om_spec marshal OmKeys xs = (xs, OmKeyList (map fst xs))"
| "om_spec marshal OmValues xs = (xs, OmValueList (map snd xs))"
| "om_spec marshal OmAll xs = (xs, OmMap (fmap_of_list xs))"
| "om_spec marshal (OmRange P) xs = (xs, OmPairs (takeWhile P xs @ take 1 (dropWhile P xs)))"
| "om_spec marshal OmClone xs = (xs, OmPairs xs)"
| "om_spec marshal (OmTake n) xs = (xs, OmPairs (take (nat n) xs))"
| "om_spec marshal (OmDrop n) xs = (xs, OmPairs (drop (nat n) xs))"
| "om_spec marshal (OmWhereEntries P) xs = (xs, OmPairs (filter (\<lambda>(k, v). P k v) xs))"
| "om_spec marshal (OmRejectEntries P) xs = (xs, OmPairs (filter (\<lambda>(k, v). \<not> P k v) xs))"
| "om_spec marshal (OmFirstEntryWhere P) xs = (xs, OmPair (List.find (\<lambda>(k, v). P k v) xs))"
| "om_spec marshal (OmAnyEntryMatch P) xs = (xs, OmBool (\<exists>(k, v)\<in>set xs. P k v))"
| "om_spec marshal (OmAllEntryMatch P) xs = (xs, OmBool (xs \<noteq> [] \<and> (\<forall>(k, v)\<in>set xs. P k v)))"
| "om_spec marshal OmToJSON xs =
     (xs, OmBytes (marshalMappingJSON marshal (fmap_of_list xs) ''ordered map''))"
| "om_spec marshal OmString xs =
     (xs, OmText (case marshal (fmap_of_list xs) of Inl _ \<Rightarrow> ''{}'' | Inr d \<Rightarrow> d))"

definition om_inv :: "('k, 'v::zero) fmap json_marshal \<Rightarrow> ('k, 'v) omap option \<Rightarrow> bool" where
  "om_inv marshal p \<longleftrightarrow> (\<exists>m. p = Some m \<and> om_wf m \<and> om_fresh marshal m)"

lemma om_pairs_fmap: "om_wf m \<Longrightarrow> fmap_of_list (om_pairs m) = gm_map (om_items m)"
  by (rule fmap_ext) (simp add: fmlookup_of_list map_of_om_pairs)

lemma om_ToJSON_ser:
  "OrderedMap_ToJSON marshal (Some m)
   = (case ser_to_json (marshalMappingJSON marshal (gm_map (om_items m)) ''ordered map'') (om_ser m) of
        (c, r) \<Rightarrow> (Some (m\<lparr>om_ser := c\<rparr>), r))"
  by (cases "jsonDirty (om_ser m)"; cases "jsonCache (om_ser m)";
      cases "marshalMappingJSON marshal (gm_map (om_items m)) ''ordered map''")
    (auto simp: ser_to_json_def OrderedMap_cacheSerializationData_def gm_map_def)

lemma om_update_ser [simp]:
  "om_pairs (m\<lparr>om_ser := c\<rparr>) = om_pairs m" "om_wf (m\<lparr>om_ser := c\<rparr>) = om_wf m"
  by (simp_all add: om_pairs_def om_keys_def om_value_def om_wf_def)

lemma om_ToJSON_inv:
  assumes "om_wf m" "om_fresh marshal m"
  shows "\<exists>m'. OrderedMap_ToJSON marshal (Some m)
           = (Some m', marshalMappingJSON marshal (gm_map (om_items m)) ''ordered map'')
         \<and> om_wf m' \<and> om_fresh marshal m' \<and> om_pairs m' = om_pairs m"
  using assms ser_to_json_fresh [of "marshalMappingJSON marshal (gm_map (om_items m)) ''ordered map''" "om_ser m"]
  unfolding om_ToJSON_ser by (auto simp: om_fresh_def split: prod.splits)

lemma om_String_inv:
  assumes "om_wf m" "om_fresh marshal m"
  shows "\<exists>m'. OrderedMap_String marshal (Some m)
           = (Some m', case marshal (gm_map (om_items m)) of Inl _ \<Rightarrow> ''{}'' | Inr d \<Rightarrow> d)
         \<and> om_wf m' \<and> om_fresh marshal m' \<and> om_pairs m' = om_pairs m"
proof -
  have "marshal (gm_map (om_items m)) = Inr (stringCache (om_ser m))"
    if "\<not> jsonDirty (om_ser m)" "stringCache (om_ser m) \<noteq> []"
    using assms(2) that by (auto simp: om_fresh_def ser_coherent_def marshalMappingJSON_list)
  then show ?thesis
    using om_ToJSON_inv [OF assms] assms
    by (auto simp: OrderedMap_String_def simp del: OrderedMap_ToJSON.simps)
qed

interpretation om_ref: data_refinement "om_step marshal" "om_inv marshal" "om_spec marshal" om_abs
  for marshal :: "('k::zero, 'v::zero) fmap json_marshal"
proof unfold_locales
  fix p :: "('k, 'v) omap option" and c :: "('k, 'v) om_op"
  assume "om_inv marshal p"
  then obtain m where p: "p = Some m" and wf: "om_wf m" and fr: "om_fresh marshal m"
    by (auto simp: om_inv_def)
  note get = om_wf_lookup [OF wf] map_of_om_pairs [OF wf] and fm = om_pairs_fmap [OF wf]
  have set: "\<exists>m'. OrderedMap_Set (Some m) k v = Some m' \<and> om_wf m'
      \<and> om_pairs m' = AList.update k v (om_pairs m) \<and> om_fresh marshal m'" for k v
    using OrderedMap_Set_spec [OF wf, of k v marshal] by (simp add: Let_def)
  have clear: "\<exists>m'. OrderedMap_Clear (Some m) = Some m' \<and> om_wf m' \<and> om_pairs m' = [] \<and> om_fresh marshal m'"
    by (auto simp: om_wf_def om_pairs_def om_keys_def om_fresh_def)
  note vals = OrderedMap_Values_spec [OF fr wf] and del = OrderedMap_Delete_spec [OF wf fr]
  note chain = OrderedMap_chain_spec [OF wf] and clone = OrderedMap_Clone_spec [OF wf]
  note json = om_ToJSON_inv [OF wf fr] om_String_inv [OF wf fr]
  have first: "firstEntryLoop m P [0 ..< length (om_pairs m)] = List.find (\<lambda>(k, v). P k v) (om_pairs m)" for P
    using firstEntryLoop_find [of "[0 ..< length (om_pairs m)]" m P] map_nth_upt(1) [of 0 "om_pairs m"] by simp
  have len: "List_Len (Some (om_order m)) = length (om_pairs m)" by (simp add: om_keys_def)
  have "om_inv marshal (fst (om_step marshal c p))
      \<and> om_spec marshal c (om_abs p) = (om_abs (fst (om_step marshal c p)), snd (om_step marshal c p))"
  proof (cases c)
    case (OmSet k v)
    then show ?thesis using set [of k v] by (auto simp: p om_inv_def simp del: OrderedMap_Set.simps)
  next
    case (OmDelete k)
    then show ?thesis using del [of k] by (auto simp: p om_inv_def simp del: OrderedMap_Delete.simps)
  next
    case OmValues
    then show ?thesis using vals by (auto simp: p om_inv_def simp del: OrderedMap_Values.simps)
  next
    case OmClear
    then show ?thesis using clear by (auto simp: p om_inv_def simp del: OrderedMap_Clear.simps)
  next
    case OmToJSON
    then show ?thesis using json(1) by (auto simp: p om_inv_def fm simp del: OrderedMap_ToJSON.simps)
  next
    case OmString
    then show ?thesis using json(2) by (auto simp: p om_inv_def fm)
  next
    case (OmRange P)
    then show ?thesis using wf fr
      by (simp add: p om_inv_def OrderedMap_Range_pairs range_until_collect del: OrderedMap_Range.simps One_nat_def)
  next
    case (OmAt i)
    then show ?thesis using wf fr by (simp add: p om_inv_def OrderedMap_At_pairs del: OrderedMap_At.simps)
  next
    case (OmTake n)
    then show ?thesis using wf fr chain(3) [of n] by (auto simp: p om_inv_def simp del: OrderedMap_Take.simps)
  next
    case (OmDrop n)
    then show ?thesis using wf fr chain(4) [of n] by (auto simp: p om_inv_def simp del: OrderedMap_Drop.simps)
  next
    case (OmWhereEntries P)
    then show ?thesis using wf fr chain(1) [of P] by (auto simp: p om_inv_def simp del: OrderedMap_WhereEntries.simps)
  next
    case (OmRejectEntries P)
    then show ?thesis using wf fr chain(2) [of P] by (auto simp: p om_inv_def simp del: OrderedMap_RejectEntries.simps)
  next
    case OmClone
    then show ?thesis using wf fr clone by (auto simp: p om_inv_def simp del: OrderedMap_Clone.simps)
  next
    case (OmFirstEntryWhere P)
    then show ?thesis using wf fr chain(5) [of P] by (simp add: p om_inv_def del: OrderedMap_FirstEntryWhere.simps)
  next
    case (OmAnyEntryMatch P)
    then show ?thesis using wf fr chain(5) [of P]
      by (simp add: p om_inv_def OrderedMap_AnyEntryMatch_def find_case_ex del: OrderedMap_FirstEntryWhere.simps)
  next
    case (OmAllEntryMatch P)
    have "List.find (\<lambda>(k, v). \<not> P k v) (om_pairs m) = None \<longleftrightarrow> (\<forall>(k, v)\<in>set (om_pairs m). P k v)"
      by (auto simp: find_None_iff)
    then show ?thesis using OmAllEntryMatch wf fr len
      by (simp add: p om_inv_def first del: List_Len.simps fst_om_pairs)
  qed (use wf fr get fm len in \<open>auto simp: p om_inv_def OrderedMap_GetOption_def OrderedMap_IsEmpty_def
      om_keys_def om_pairs_nil split: option.splits\<close>)
  then show "om_inv marshal (fst (om_step marshal c p))"
    and "om_spec marshal c (om_abs p) = (om_abs (fst (om_step marshal c p)), snd (om_step marshal c p))"
    by blast+
qed

text \<open>
  C22. Over any history of calls on a fresh \<open>OrderedMap\<close>, every call answers what it would answer on
  an association list with distinct keys: \<open>Set\<close> on a known key keeps its place and on a new key
  appends, \<open>Delete\<close> closes the gap, positions, keys, values and traversals follow insertion order,
  the chain operations filter and cut that list, and the serialization is that of the current entries.
\<close>

theorem ordered_map_refines_alist:
  "snd (run (om_step marshal) cs (Some NewOrderedMap)) = snd (run (om_spec marshal) cs [])"
proof -
  have "om_inv marshal (Some NewOrderedMap)" "om_abs (Some (NewOrderedMap :: ('a, 'b) omap)) = []"
    by (simp_all add: om_inv_def NewOrderedMap_def new_omap)
  then show ?thesis using om_ref.run_results [of marshal "Some NewOrderedMap" cs] by simp
qed

text \<open>
  In every reachable state the position index agrees with the key order: \<open>index\<close> maps a key to
  \<open>i\<close> exactly when the key stands at position \<open>i\<close>, no key stands twice, and exactly the listed keys
  have values.
\<close>

theorem ordered_map_index_agrees:
  "\<exists>m. fst (run (om_step marshal) cs (Some NewOrderedMap)) = Some m \<and> om_wf m"
proof -
  have "om_inv marshal (Some NewOrderedMap)"
    by (simp add: om_inv_def NewOrderedMap_def new_omap)
  from om_ref.run_inv [OF this] show ?thesis by (auto simp: om_inv_def)
qed

end
