(* ===== verification/Mapping_BiMap.thy ===== *)
theory Mapping_BiMap
  imports Mapping_Map
begin

text \<open>
  \<^verbatim>\<open>collectionx/mapping/bimap.go\<close> and its part of \<^verbatim>\<open>mapping/json.go\<close>: a one-to-one map kept as two maps,
  forward and backward. The invariant is that each is the inverse of the other. Shown: over any
  history the bimap answers as a one-to-one relation between keys and values.
\<close>

record ('k, 'v) bimap =
  bm_kv :: "('k, 'v) gmap"
  bm_vk :: "('v, 'k) gmap"

definition NewBiMap :: "('k, 'v) bimap" where
  "NewBiMap = \<lparr>bm_kv = gm_zero, bm_vk = gm_zero\<rparr>"

definition BiMap_ensureInit :: "('k, 'v) bimap \<Rightarrow> ('k, 'v) bimap" where
  "BiMap_ensureInit m =
     m\<lparr>bm_kv := Map_ensureInit (bm_kv m), bm_vk := Map_ensureInit (bm_vk m)\<rparr>"

primrec BiMap_Put :: "('k, 'v) bimap option \<Rightarrow> 'k \<Rightarrow> 'v \<Rightarrow> ('k, 'v) bimap option" where
  "BiMap_Put None k v = None"
| "BiMap_Put (Some m0) k v =
     (let m1 = BiMap_ensureInit m0;
          m2 = (case Map_Get (Some (bm_kv m1)) k of
                  None \<Rightarrow> m1
                | Some oldValue \<Rightarrow> m1\<lparr>bm_vk := the (fst (Map_Delete (Some (bm_vk m1)) oldValue))\<rparr>);
          m3 = (case Map_Get (Some (bm_vk m2)) v of
                  None \<Rightarrow> m2
                | Some oldKey \<Rightarrow> m2\<lparr>bm_kv := the (fst (Map_Delete (Some (bm_kv m2)) oldKey))\<rparr>)
      in Some (m3\<lparr>bm_kv := the (Map_Set (Some (bm_kv m3)) k v),
                  bm_vk := the (Map_Set (Some (bm_vk m3)) v k)\<rparr>))"

primrec BiMap_GetByKey :: "('k, 'v) bimap option \<Rightarrow> 'k \<Rightarrow> 'v option" where
  "BiMap_GetByKey None k = None"
| "BiMap_GetByKey (Some m) k = Map_Get (Some (bm_kv m)) k"

primrec BiMap_GetByValue :: "('k, 'v) bimap option \<Rightarrow> 'v \<Rightarrow> 'k option" where
  "BiMap_GetByValue None v = None"
| "BiMap_GetByValue (Some m) v = Map_Get (Some (bm_vk m)) v"

definition BiMap_GetValueOption :: "('k, 'v) bimap option \<Rightarrow> 'k \<Rightarrow> 'v option" where
  "BiMap_GetValueOption p k = (case BiMap_GetByKey p k of None \<Rightarrow> None | Some v \<Rightarrow> Some v)"

definition BiMap_GetKeyOption :: "('k, 'v) bimap option \<Rightarrow> 'v \<Rightarrow> 'k option" where
  "BiMap_GetKeyOption p v = (case BiMap_GetByValue p v of None \<Rightarrow> None | Some k \<Rightarrow> Some k)"

primrec BiMap_DeleteByKey :: "('k, 'v) bimap option \<Rightarrow> 'k \<Rightarrow> ('k, 'v) bimap option \<times> bool" where
  "BiMap_DeleteByKey None k = (None, False)"
| "BiMap_DeleteByKey (Some m) k =
     (case Map_Get (Some (bm_kv m)) k of
        None \<Rightarrow> (Some m, False)
      | Some v \<Rightarrow> (Some (m\<lparr>bm_kv := the (fst (Map_Delete (Some (bm_kv m)) k)),
                           bm_vk := the (fst (Map_Delete (Some (bm_vk m)) v))\<rparr>), True))"

primrec BiMap_DeleteByValue :: "('k, 'v) bimap option \<Rightarrow> 'v \<Rightarrow> ('k, 'v) bimap option \<times> bool" where
  "BiMap_DeleteByValue None v = (None, False)"
| "BiMap_DeleteByValue (Some m) v =
     (case Map_Get (Some (bm_vk m)) v of
        None \<Rightarrow> (Some m, False)
      | Some k \<Rightarrow> (Some (m\<lparr>bm_vk := the (fst (Map_Delete (Some (bm_vk m)) v)),
                           bm_kv := the (fst (Map_Delete (Some (bm_kv m)) k))\<rparr>), True))"

definition BiMap_ContainsKey :: "('k, 'v) bimap option \<Rightarrow> 'k \<Rightarrow> bool" where
  "BiMap_ContainsKey p k \<longleftrightarrow> BiMap_GetByKey p k \<noteq> None"

definition BiMap_ContainsValue :: "('k, 'v) bimap option \<Rightarrow> 'v \<Rightarrow> bool" where
  "BiMap_ContainsValue p v \<longleftrightarrow> BiMap_GetByValue p v \<noteq> None"

primrec BiMap_Len :: "('k, 'v) bimap option \<Rightarrow> nat" where
  "BiMap_Len None = 0"
| "BiMap_Len (Some m) = Map_Len (Some (bm_kv m))"

definition BiMap_IsEmpty :: "('k, 'v) bimap option \<Rightarrow> bool" where
  "BiMap_IsEmpty p \<longleftrightarrow> BiMap_Len p = 0"

primrec BiMap_Clear :: "('k, 'v) bimap option \<Rightarrow> ('k, 'v) bimap option" where
  "BiMap_Clear None = None"
| "BiMap_Clear (Some m) =
     Some (m\<lparr>bm_kv := the (Map_Clear (Some (bm_kv m))), bm_vk := the (Map_Clear (Some (bm_vk m)))\<rparr>)"

primrec BiMap_Keys :: "'k list \<Rightarrow> ('k, 'v) bimap option \<Rightarrow> 'k list" where
  "BiMap_Keys ks None = []"
| "BiMap_Keys ks (Some m) =
     (if Map_Len (Some (bm_kv m)) = 0 then [] else Map_Keys ks (Some (bm_kv m)))"

primrec BiMap_Values :: "'k list \<Rightarrow> ('k, 'v) bimap option \<Rightarrow> 'v list" where
  "BiMap_Values ks None = []"
| "BiMap_Values ks (Some m) =
     (if Map_Len (Some (bm_kv m)) = 0 then [] else Map_Values ks (Some (bm_kv m)))"

primrec BiMap_All :: "('k, 'v) bimap option \<Rightarrow> ('k, 'v) go_map" where
  "BiMap_All None = Some fmempty"
| "BiMap_All (Some m) =
     (if Map_Len (Some (bm_kv m)) = 0 then Some fmempty else Map_All (Some (bm_kv m)))"

primrec BiMap_Inverse :: "('k, 'v) bimap option \<Rightarrow> ('v, 'k) go_map" where
  "BiMap_Inverse None = Some fmempty"
| "BiMap_Inverse (Some m) =
     (if Map_Len (Some (bm_vk m)) = 0 then Some fmempty else Map_All (Some (bm_vk m)))"

fun BiMap_Range ::
    "'k list \<Rightarrow> ('k, 'v) bimap option \<Rightarrow> ('st \<Rightarrow> 'k \<times> 'v \<Rightarrow> 'st \<times> bool) option \<Rightarrow> 'st \<Rightarrow> 'st" where
  "BiMap_Range ks (Some m) (Some fn) st = Map_Range ks (Some (bm_kv m)) (Some fn) st"
| "BiMap_Range ks _ _ st = st"

primrec BiMap_ToJSON :: "('k, 'v) fmap json_marshal \<Rightarrow> ('k, 'v) bimap option \<Rightarrow> string + bytes" where
  "BiMap_ToJSON marshal None = marshalMappingJSON marshal fmempty ''bimap''"
| "BiMap_ToJSON marshal (Some m) =
     (if fm_size (ml (gm_items (bm_kv m))) = 0 then marshalMappingJSON marshal fmempty ''bimap''
      else marshalMappingJSON marshal (ml (gm_items (bm_kv m))) ''bimap'')"

definition BiMap_MarshalJSON ::
    "string + bytes \<Rightarrow> ('k, 'v) fmap json_marshal \<Rightarrow> ('k, 'v) bimap option \<Rightarrow> string + bytes" where
  "BiMap_MarshalJSON n marshal p = forwardMappingJSON n (\<lambda>_. BiMap_ToJSON marshal p) ''bimap''"

definition BiMap_String :: "('k, 'v) fmap json_marshal \<Rightarrow> ('k, 'v) bimap option \<Rightarrow> string" where
  "BiMap_String marshal p = StringFromToJSON (Some (\<lambda>_. BiMap_ToJSON marshal p)) ''{}''"

subsection \<open>Over any history a one-to-one relation\<close>

datatype (dead 'k, dead 'v) bm_op =
    BmPut 'k 'v | BmGetByKey 'k | BmGetByValue 'v | BmGetValueOption 'k | BmGetKeyOption 'v
  | BmDeleteByKey 'k | BmDeleteByValue 'v | BmContainsKey 'k | BmContainsValue 'v | BmLen | BmIsEmpty
  | BmClear | BmAll | BmInverse

datatype (dead 'k, dead 'v) bm_res =
    BmUnit | BmVal "'v option" | BmKey "'k option" | BmBool bool | BmNat nat | BmPairs "('k \<times> 'v) set"

text \<open>One call; \<open>All\<close> and \<open>Inverse\<close> are observed as the pairs they hold.\<close>

definition fm_pairs :: "('k, 'v) fmap \<Rightarrow> ('k \<times> 'v) set" where
  "fm_pairs f = {(k, v). fmlookup f k = Some v}"

primrec bm_step ::
    "('k, 'v) bm_op \<Rightarrow> ('k, 'v) bimap option \<Rightarrow> ('k, 'v) bimap option \<times> ('k, 'v) bm_res" where
  "bm_step (BmPut k v) p = (BiMap_Put p k v, BmUnit)"
| "bm_step (BmGetByKey k) p = (p, BmVal (BiMap_GetByKey p k))"
| "bm_step (BmGetByValue v) p = (p, BmKey (BiMap_GetByValue p v))"
| "bm_step (BmGetValueOption k) p = (p, BmVal (BiMap_GetValueOption p k))"
| "bm_step (BmGetKeyOption v) p = (p, BmKey (BiMap_GetKeyOption p v))"
| "bm_step (BmDeleteByKey k) p = map_prod id BmBool (BiMap_DeleteByKey p k)"
| "bm_step (BmDeleteByValue v) p = map_prod id BmBool (BiMap_DeleteByValue p v)"
| "bm_step (BmContainsKey k) p = (p, BmBool (BiMap_ContainsKey p k))"
| "bm_step (BmContainsValue v) p = (p, BmBool (BiMap_ContainsValue p v))"
| "bm_step BmLen p = (p, BmNat (BiMap_Len p))"
| "bm_step BmIsEmpty p = (p, BmBool (BiMap_IsEmpty p))"
| "bm_step BmClear p = (BiMap_Clear p, BmUnit)"
| "bm_step BmAll p = (p, BmPairs (fm_pairs (ml (BiMap_All p))))"
| "bm_step BmInverse p = (p, BmPairs ((fm_pairs (ml (BiMap_Inverse p)))\<inverse>))"

text \<open>The relation of key-value pairs: at most one partner each.\<close>

definition one_to_one :: "('k \<times> 'v) set \<Rightarrow> bool" where
  "one_to_one R \<longleftrightarrow> finite R \<and> (\<forall>k v w. (k, v) \<in> R \<and> (k, w) \<in> R \<longrightarrow> v = w)
     \<and> (\<forall>k l v. (k, v) \<in> R \<and> (l, v) \<in> R \<longrightarrow> k = l)"

definition partner :: "('a \<times> 'b) set \<Rightarrow> 'a \<Rightarrow> 'b option" where
  "partner R a = (if \<exists>b. (a, b) \<in> R then Some (THE b. (a, b) \<in> R) else None)"

primrec bm_spec ::
    "('k, 'v) bm_op \<Rightarrow> ('k \<times> 'v) set \<Rightarrow> ('k \<times> 'v) set \<times> ('k, 'v) bm_res" where
  "bm_spec (BmPut k v) R = ({(a, b) \<in> R. a \<noteq> k \<and> b \<noteq> v} \<union> {(k, v)}, BmUnit)"
| "bm_spec (BmGetByKey k) R = (R, BmVal (partner R k))"
| "bm_spec (BmGetByValue v) R = (R, BmKey (partner (R\<inverse>) v))"
| "bm_spec (BmGetValueOption k) R = (R, BmVal (partner R k))"
| "bm_spec (BmGetKeyOption v) R = (R, BmKey (partner (R\<inverse>) v))"
| "bm_spec (BmDeleteByKey k) R = ({(a, b) \<in> R. a \<noteq> k}, BmBool (k \<in> Domain R))"
| "bm_spec (BmDeleteByValue v) R = ({(a, b) \<in> R. b \<noteq> v}, BmBool (v \<in> Range R))"
| "bm_spec (BmContainsKey k) R = (R, BmBool (k \<in> Domain R))"
| "bm_spec (BmContainsValue v) R = (R, BmBool (v \<in> Range R))"
| "bm_spec BmLen R = (R, BmNat (card R))"
| "bm_spec BmIsEmpty R = (R, BmBool (R = {}))"
| "bm_spec BmClear R = ({}, BmUnit)"
| "bm_spec BmAll R = (R, BmPairs R)"
| "bm_spec BmInverse R = (R, BmPairs R)"

definition bm_wf :: "('k, 'v) bimap \<Rightarrow> bool" where
  "bm_wf m \<longleftrightarrow> (\<forall>k v. fmlookup (gm_map (bm_kv m)) k = Some v \<longleftrightarrow> fmlookup (gm_map (bm_vk m)) v = Some k)"

definition bm_inv :: "('k, 'v) bimap option \<Rightarrow> bool" where
  "bm_inv p \<longleftrightarrow> (\<exists>m. p = Some m \<and> bm_wf m)"

definition bm_abs :: "('k, 'v) bimap option \<Rightarrow> ('k \<times> 'v) set" where
  "bm_abs p = (case p of None \<Rightarrow> {} | Some m \<Rightarrow> fm_pairs (gm_map (bm_kv m)))"

lemma bm_abs_Some [simp]: "bm_abs (Some m) = fm_pairs (gm_map (bm_kv m))"
  by (simp add: bm_abs_def)

lemma fm_pairs_iff [simp]: "(k, v) \<in> fm_pairs f \<longleftrightarrow> fmlookup f k = Some v"
  by (simp add: fm_pairs_def)

lemma fm_pairs_partner: "partner (fm_pairs f) k = fmlookup f k"
  by (cases "fmlookup f k") (auto simp: partner_def)

lemma fm_pairs_converse: "bm_wf m \<Longrightarrow> (fm_pairs (gm_map (bm_vk m)))\<inverse> = fm_pairs (gm_map (bm_kv m))"
  by (auto simp: bm_wf_def fm_pairs_def)

lemma card_fm_pairs: "card (fm_pairs f) = fm_size f"
proof -
  have "fm_pairs f = (\<lambda>k. (k, the (fmlookup f k))) ` fmdom' f"
    by (auto simp: fm_pairs_def fmlookup_dom'_iff image_iff)
  moreover have "inj_on (\<lambda>k. (k, the (fmlookup f k))) (fmdom' f)" by (auto simp: inj_on_def)
  ultimately show ?thesis by (simp add: card_image fm_size_card)
qed

lemma BiMap_Put_spec:
  assumes wf: "bm_wf m"
  shows "\<exists>m'. BiMap_Put (Some m) k v = Some m' \<and> bm_wf m'
    \<and> fm_pairs (gm_map (bm_kv m')) = {(a, b) \<in> fm_pairs (gm_map (bm_kv m)). a \<noteq> k \<and> b \<noteq> v} \<union> {(k, v)}"
proof -
  define m' where "m' = the (BiMap_Put (Some m) k v)"
  let ?f = "gm_map (bm_kv m)" and ?g = "gm_map (bm_vk m)"
  have inv: "fmlookup ?f a = Some b \<longleftrightarrow> fmlookup ?g b = Some a" for a b using wf by (simp add: bm_wf_def)
  define g where "g = (case fmlookup ?f k of None \<Rightarrow> ?g | Some w \<Rightarrow> fmdrop w ?g)"
  define f where "f = (case fmlookup g v of None \<Rightarrow> ?f | Some l \<Rightarrow> fmdrop l ?f)"
  have kv: "gm_map (bm_kv m') = fmupd k v f" and vk: "gm_map (bm_vk m') = fmupd v k g"
    by (auto simp: m'_def BiMap_ensureInit_def Let_def f_def g_def split: option.splits)
  have g: "fmlookup g b = Some a \<longleftrightarrow> fmlookup ?f a = Some b \<and> a \<noteq> k" for a b
  proof (cases "fmlookup ?f k")
    case None
    then have "g = ?g" by (simp add: g_def)
    then show ?thesis using inv [of a b] None by auto
  next
    case (Some w)
    then have "g = fmdrop w ?g" by (simp add: g_def)
    moreover have "a = k \<longleftrightarrow> b = w" if "fmlookup ?f a = Some b"
      using that Some inv by (metis option.inject)
    ultimately show ?thesis using inv [of a b] Some by (cases "b = w") auto
  qed
  have f: "fmlookup f a = Some b \<longleftrightarrow> fmlookup ?f a = Some b \<and> (a = k \<or> b \<noteq> v)" for a b
  proof (cases "fmlookup g v")
    case None
    then have "\<not> (fmlookup ?f a = Some v \<and> a \<noteq> k)" using g by (metis option.simps(3))
    then show ?thesis using None by (auto simp: f_def)
  next
    case (Some l)
    then have l: "fmlookup ?f l = Some v" "l \<noteq> k" using g by auto
    have "a = l" if "fmlookup ?f a = Some v" using that l inv by (metis option.inject)
    moreover have "f = fmdrop l ?f" using Some by (simp add: f_def)
    ultimately show ?thesis using l by (cases "a = l") auto
  qed
  have "fmlookup (fmupd k v f) a = Some b \<longleftrightarrow> fmlookup (fmupd v k g) b = Some a" for a b
  proof (cases "a = k \<or> b = v")
    case True
    then show ?thesis using f [of a v] g [of v k] g [of b k] by auto
  next
    case False
    then show ?thesis using f [of a b] g [of b a] by auto
  qed
  then have "bm_wf m'" unfolding bm_wf_def kv vk by blast
  moreover have "fm_pairs (gm_map (bm_kv m')) = {(a, b) \<in> fm_pairs ?f. a \<noteq> k \<and> b \<noteq> v} \<union> {(k, v)}"
    unfolding kv using f by (auto simp: fm_pairs_def split: if_splits)
  ultimately show ?thesis by (simp add: m'_def Let_def)
qed

lemma bm_wf_drop:
  assumes wf: "bm_wf m" and kw: "fmlookup (gm_map (bm_kv m)) k = Some w"
  shows "fmlookup (fmdrop k (gm_map (bm_kv m))) a = Some b \<longleftrightarrow> fmlookup (fmdrop w (gm_map (bm_vk m))) b = Some a"
    and "fm_pairs (fmdrop k (gm_map (bm_kv m))) = {(a, b) \<in> fm_pairs (gm_map (bm_kv m)). a \<noteq> k}"
    and "fm_pairs (fmdrop k (gm_map (bm_kv m))) = {(a, b) \<in> fm_pairs (gm_map (bm_kv m)). b \<noteq> w}"
proof -
  have inv: "fmlookup (gm_map (bm_kv m)) a = Some b \<longleftrightarrow> fmlookup (gm_map (bm_vk m)) b = Some a" for a b
    using wf by (simp add: bm_wf_def)
  have uniq: "a = k \<longleftrightarrow> b = w" if "fmlookup (gm_map (bm_kv m)) a = Some b" for a b
    using that kw inv by (metis option.inject)
  show "fmlookup (fmdrop k (gm_map (bm_kv m))) a = Some b \<longleftrightarrow> fmlookup (fmdrop w (gm_map (bm_vk m))) b = Some a"
    using inv [of a b] uniq [of a b] by (cases "a = k"; cases "b = w") auto
  show drop: "fm_pairs (fmdrop k (gm_map (bm_kv m))) = {(a, b) \<in> fm_pairs (gm_map (bm_kv m)). a \<noteq> k}"
    by (auto simp: fm_pairs_def split: if_splits)
  show "fm_pairs (fmdrop k (gm_map (bm_kv m))) = {(a, b) \<in> fm_pairs (gm_map (bm_kv m)). b \<noteq> w}"
    unfolding drop using uniq by (auto simp: fm_pairs_def)
qed

lemma BiMap_DeleteByKey_spec:
  assumes wf: "bm_wf m"
  shows "\<exists>m'. BiMap_DeleteByKey (Some m) k = (Some m', fmlookup (gm_map (bm_kv m)) k \<noteq> None) \<and> bm_wf m'
      \<and> fm_pairs (gm_map (bm_kv m')) = {(a, b) \<in> fm_pairs (gm_map (bm_kv m)). a \<noteq> k}"
proof (cases "fmlookup (gm_map (bm_kv m)) k")
  case None
  then have "fm_pairs (gm_map (bm_kv m)) = {(a, b) \<in> fm_pairs (gm_map (bm_kv m)). a \<noteq> k}"
    by (auto simp: fm_pairs_def)
  with None wf show ?thesis by simp
next
  case (Some w)
  have "bm_wf (the (fst (BiMap_DeleteByKey (Some m) k)))"
    unfolding bm_wf_def using Some bm_wf_drop(1) [OF wf Some] by simp
  with Some bm_wf_drop(2) [OF wf Some] show ?thesis by simp
qed

lemma BiMap_DeleteByValue_spec:
  assumes wf: "bm_wf m"
  shows "\<exists>m'. BiMap_DeleteByValue (Some m) v = (Some m', fmlookup (gm_map (bm_vk m)) v \<noteq> None) \<and> bm_wf m'
      \<and> fm_pairs (gm_map (bm_kv m')) = {(a, b) \<in> fm_pairs (gm_map (bm_kv m)). b \<noteq> v}"
proof (cases "fmlookup (gm_map (bm_vk m)) v")
  case None
  then have "fmlookup (gm_map (bm_kv m)) a \<noteq> Some v" for a using wf by (simp add: bm_wf_def)
  then have "fm_pairs (gm_map (bm_kv m)) = {(a, b) \<in> fm_pairs (gm_map (bm_kv m)). b \<noteq> v}"
    by (auto simp: fm_pairs_def)
  with None wf show ?thesis by simp
next
  case (Some k)
  then have k: "fmlookup (gm_map (bm_kv m)) k = Some v" using wf by (simp add: bm_wf_def)
  have "bm_wf (the (fst (BiMap_DeleteByValue (Some m) v)))"
    unfolding bm_wf_def using Some bm_wf_drop(1) [OF wf k] by simp
  with Some bm_wf_drop(3) [OF wf k] show ?thesis by simp
qed

interpretation bm_ref: data_refinement bm_step bm_inv bm_spec bm_abs
proof unfold_locales
  fix p :: "('k, 'v) bimap option" and c :: "('k, 'v) bm_op"
  assume "bm_inv p"
  then obtain m where p: "p = Some m" and wf: "bm_wf m" by (auto simp: bm_inv_def)
  let ?R = "fm_pairs (gm_map (bm_kv m))"
  note dk = BiMap_DeleteByKey_spec [OF wf] and dv = BiMap_DeleteByValue_spec [OF wf] and put = BiMap_Put_spec [OF wf]
  have conv: "?R\<inverse> = fm_pairs (gm_map (bm_vk m))" using fm_pairs_converse [OF wf] by (metis converse_converse)
  have dom: "k \<in> Domain ?R \<longleftrightarrow> fmlookup (gm_map (bm_kv m)) k \<noteq> None" for k by auto
  have ran: "v \<in> Range ?R \<longleftrightarrow> fmlookup (gm_map (bm_vk m)) v \<noteq> None" for v
    using wf by (auto simp: bm_wf_def)
  have empty: "?R = {} \<longleftrightarrow> gm_map (bm_kv m) = fmempty"
    by (auto simp: fm_pairs_def intro!: fmap_ext)
  have clear: "\<exists>m'. BiMap_Clear (Some m) = Some m' \<and> bm_wf m' \<and> fm_pairs (gm_map (bm_kv m')) = {}"
    by (simp add: bm_wf_def fm_pairs_def)
  have opt: "(case x of None \<Rightarrow> None | Some y \<Rightarrow> Some y) = x" for x :: "'c option" by (cases x) auto
  have "bm_inv (fst (bm_step c p)) \<and> bm_spec c (bm_abs p) = (bm_abs (fst (bm_step c p)), snd (bm_step c p))"
  proof (cases c)
    case (BmPut k v)
    obtain m' where "BiMap_Put (Some m) k v = Some m'" "bm_wf m'"
        "fm_pairs (gm_map (bm_kv m')) = {(a, b) \<in> ?R. a \<noteq> k \<and> b \<noteq> v} \<union> {(k, v)}"
      using put [of k v] by blast
    then show ?thesis by (simp add: BmPut p bm_inv_def del: BiMap_Put.simps)
  next
    case (BmDeleteByKey k)
    obtain m' where "BiMap_DeleteByKey (Some m) k = (Some m', fmlookup (gm_map (bm_kv m)) k \<noteq> None)" "bm_wf m'"
        "fm_pairs (gm_map (bm_kv m')) = {(a, b) \<in> ?R. a \<noteq> k}" using dk [of k] by blast
    then show ?thesis using dom by (simp add: BmDeleteByKey p bm_inv_def del: BiMap_DeleteByKey.simps)
  next
    case (BmDeleteByValue v)
    obtain m' where "BiMap_DeleteByValue (Some m) v = (Some m', fmlookup (gm_map (bm_vk m)) v \<noteq> None)" "bm_wf m'"
        "fm_pairs (gm_map (bm_kv m')) = {(a, b) \<in> ?R. b \<noteq> v}" using dv [of v] by blast
    then show ?thesis using ran by (simp add: BmDeleteByValue p bm_inv_def del: BiMap_DeleteByValue.simps)
  next
    case BmClear
    then show ?thesis using clear by (auto simp: p bm_inv_def simp del: BiMap_Clear.simps)
  next
    case BmIsEmpty
    then show ?thesis using wf empty by (auto simp: p bm_inv_def BiMap_IsEmpty_def)
  next
    case BmInverse
    then show ?thesis using wf fm_pairs_converse [OF wf] by (auto simp: p bm_inv_def)
  qed (use wf in \<open>simp_all add: p bm_inv_def fm_pairs_partner conv dom ran card_fm_pairs opt
      BiMap_GetValueOption_def BiMap_GetKeyOption_def BiMap_ContainsKey_def BiMap_ContainsValue_def\<close>)
  then show "bm_inv (fst (bm_step c p))"
    and "bm_spec c (bm_abs p) = (bm_abs (fst (bm_step c p)), snd (bm_step c p))" by blast+
qed

lemma bm_inv_new: "bm_inv (Some NewBiMap)" "bm_abs (Some NewBiMap) = {}"
  by (simp_all add: bm_inv_def bm_wf_def NewBiMap_def fm_pairs_def)

text \<open>
  C23. Over any history of calls on a fresh \<open>BiMap\<close>, every call answers what it would answer on a
  relation of key-value pairs: \<open>Put\<close> first drops whatever shares the key or the value, lookups and
  deletions work from either side, and \<open>Len\<close> counts the pairs.
\<close>

theorem bimap_refines_relation:
  "snd (run bm_step cs (Some NewBiMap)) = snd (run bm_spec cs {})"
  using bm_ref.run_results [OF bm_inv_new(1), of cs] by (simp only: bm_inv_new(2))

text \<open>
  After any history the two directions are inverse to each other and the relation is one-to-one:
  no key has two values and no value two keys.
\<close>

theorem bimap_one_to_one:
  "\<exists>m. fst (run bm_step cs (Some NewBiMap)) = Some m
     \<and> (fm_pairs (gm_map (bm_vk m)))\<inverse> = fm_pairs (gm_map (bm_kv m))
     \<and> one_to_one (fm_pairs (gm_map (bm_kv m)))"
proof -
  obtain m where m: "fst (run bm_step cs (Some NewBiMap)) = Some m" "bm_wf m"
    using bm_ref.run_inv [OF bm_inv_new(1), of cs] by (auto simp: bm_inv_def)
  have "finite (fm_pairs (gm_map (bm_kv m)))"
    by (rule finite_subset [of _ "(\<lambda>k. (k, the (fmlookup (gm_map (bm_kv m)) k))) ` fmdom' (gm_map (bm_kv m))"])
      (auto simp: fmlookup_dom'_iff image_iff)
  then have "one_to_one (fm_pairs (gm_map (bm_kv m)))"
    using m(2) unfolding one_to_one_def bm_wf_def fm_pairs_iff by (metis option.inject)
  with m fm_pairs_converse [OF m(2)] show ?thesis by blast
qed

end
