(* ===== verification/List_Rope.thy ===== *)
theory List_Rope
  imports List_List
begin

text \<open>
  \<^verbatim>\<open>collectionx/list/rope.go\<close> and \<^verbatim>\<open>rope_node.go\<close>: a list kept as a binary tree of chunks. A node
  pointer is nil (\<open>RNil\<close>), a leaf (\<open>RLeaf\<close>, its \<open>leaf\<close> slice non-nil) or an inner node (\<open>RNode\<close>), the
  last two with their cached \<open>length\<close>. Nodes are never shared between trees, so the in-place updates
  are functional ones. An access through a nil pointer or outside a slice panics in Go and is
  \<open>None\<close> here. Shown: over any history no call panics and the rope answers as a plain list; every
  node above 128 items keeps its children within a factor of four, so the depth is logarithmic.
\<close>

definition ropeLeafSize :: nat where
  "ropeLeafSize = 64"

datatype 'a rope =
    RNil
  | RLeaf "'a list" nat
  | RNode "'a rope" "'a rope" nat

definition newRopeLeaf :: "'a list \<Rightarrow> 'a rope" where
  "newRopeLeaf xs = RLeaf xs (length xs)"

fun ropeNode_isLeaf :: "'a rope \<Rightarrow> bool" where
  "ropeNode_isLeaf (RLeaf xs n) = True"
| "ropeNode_isLeaf _ = False"

primrec ropeNode_nodeLen :: "'a rope \<Rightarrow> nat" where
  "ropeNode_nodeLen RNil = 0"
| "ropeNode_nodeLen (RLeaf xs n) = n"
| "ropeNode_nodeLen (RNode l r n) = n"

fun ropeNode_at :: "'a rope \<Rightarrow> nat \<Rightarrow> 'a option" where
  "ropeNode_at RNil i = None"
| "ropeNode_at (RLeaf xs n) i = (if i < length xs then Some (xs ! i) else None)"
| "ropeNode_at (RNode l r n) i =
     (if i < ropeNode_nodeLen l then ropeNode_at l i else ropeNode_at r (i - ropeNode_nodeLen l))"

fun ropeNode_setAt :: "'a rope \<Rightarrow> nat \<Rightarrow> 'a \<Rightarrow> 'a rope option" where
  "ropeNode_setAt RNil i v = None"
| "ropeNode_setAt (RLeaf xs n) i v = (if i < length xs then Some (RLeaf (xs[i := v]) n) else None)"
| "ropeNode_setAt (RNode l r n) i v =
     (if i < ropeNode_nodeLen l
      then map_option (\<lambda>l'. RNode l' r n) (ropeNode_setAt l i v)
      else map_option (\<lambda>r'. RNode l r' n) (ropeNode_setAt r (i - ropeNode_nodeLen l) v))"

fun ropeNode_appendTo :: "'a rope \<Rightarrow> 'a list \<Rightarrow> 'a list" where
  "ropeNode_appendTo RNil dst = dst"
| "ropeNode_appendTo (RLeaf xs n) dst = dst @ xs"
| "ropeNode_appendTo (RNode l r n) dst = ropeNode_appendTo r (ropeNode_appendTo l dst)"

definition ropeNode_flatten :: "'a rope \<Rightarrow> 'a list" where
  "ropeNode_flatten t = (if t = RNil then [] else ropeNode_appendTo t [])"

function buildRope :: "'a list \<Rightarrow> 'a rope" where
  "buildRope xs =
     (if length xs = 0 then RNil
      else if length xs \<le> ropeLeafSize then newRopeLeaf xs
      else let mid = length xs div 2; l = buildRope (take mid xs); r = buildRope (drop mid xs)
           in RNode l r (ropeNode_nodeLen l + ropeNode_nodeLen r))"
  by pat_completeness auto
termination
  by (relation "measure length") (auto simp: ropeLeafSize_def)

declare buildRope.simps [simp del]

primrec ropeNode_recomputeLength :: "'a rope \<Rightarrow> 'a rope" where
  "ropeNode_recomputeLength RNil = RNil"
| "ropeNode_recomputeLength (RLeaf xs n) = RLeaf xs (length xs)"
| "ropeNode_recomputeLength (RNode l r n) = RNode l r (ropeNode_nodeLen l + ropeNode_nodeLen r)"

text \<open>On a leaf, whose children are nil, \<open>compact\<close> would return the nil right child; it is only
  called on inner nodes.\<close>

primrec ropeNode_compact :: "'a rope \<Rightarrow> 'a rope" where
  "ropeNode_compact RNil = RNil"
| "ropeNode_compact (RLeaf xs n) = RNil"
| "ropeNode_compact (RNode l r n) =
     (if l = RNil then r
      else if r = RNil then l
      else case (l, r) of
             (RLeaf xs m, RLeaf ys k) \<Rightarrow>
               if length xs + length ys \<le> ropeLeafSize then newRopeLeaf (([] @ xs) @ ys)
               else RNode l r n
           | _ \<Rightarrow> RNode l r n)"

primrec ropeNode_rebalanceIfNeeded :: "'a rope \<Rightarrow> 'a rope" where
  "ropeNode_rebalanceIfNeeded RNil = RNil"
| "ropeNode_rebalanceIfNeeded (RLeaf xs n) = RLeaf xs n"
| "ropeNode_rebalanceIfNeeded (RNode l r n) =
     (let leftLen = ropeNode_nodeLen l; rightLen = ropeNode_nodeLen r
      in if min leftLen rightLen = 0 then ropeNode_compact (RNode l r n)
         else if n \<le> ropeLeafSize * 2 then RNode l r n
         else if leftLen \<le> rightLen * 4 \<and> rightLen \<le> leftLen * 4 then RNode l r n
         else buildRope (ropeNode_flatten (RNode l r n)))"

text \<open>\<open>insertIntoLeaf\<close> on the leaf slice; an index beyond its length panics in both branches.\<close>

definition ropeNode_insertIntoLeaf :: "'a::zero list \<Rightarrow> nat \<Rightarrow> 'a \<Rightarrow> 'a rope option" where
  "ropeNode_insertIntoLeaf xs i item =
     (if i > length xs then None
      else if length xs < ropeLeafSize
      then let s1 = xs @ [0]; s2 = go_copy s1 (i + 1) (drop i s1); s3 = s2[i := item]
           in Some (RLeaf s3 (length s3))
      else let m1 = go_copy (replicate (length xs + 1) 0) 0 (take i xs);
               m2 = m1[i := item];
               merged = go_copy m2 (i + 1) (drop i xs);
               mid = length merged div 2;
               l = newRopeLeaf (take mid merged);
               r = newRopeLeaf (drop mid merged)
           in Some (ropeNode_recomputeLength (RNode l r 0)))"

fun ropeNode_insertAt :: "'a::zero rope \<Rightarrow> nat \<Rightarrow> 'a \<Rightarrow> 'a rope option" where
  "ropeNode_insertAt RNil i item = Some (newRopeLeaf [item])"
| "ropeNode_insertAt (RLeaf xs n) i item = ropeNode_insertIntoLeaf xs i item"
| "ropeNode_insertAt (RNode l r n) i item =
     (let leftLen = ropeNode_nodeLen l
      in if i \<le> leftLen
         then map_option (\<lambda>l'. ropeNode_rebalanceIfNeeded (ropeNode_recomputeLength (RNode l' r n)))
                (ropeNode_insertAt l i item)
         else map_option (\<lambda>r'. ropeNode_rebalanceIfNeeded (ropeNode_recomputeLength (RNode l r' n)))
                (ropeNode_insertAt r (i - leftLen) item))"

text \<open>\<open>removeAt\<close> returns the node, the item removed and whether it did; the outer option is a panic.\<close>

definition removeAtRest :: "'a rope \<Rightarrow> 'a rope" where
  "removeAtRest t =
     (let c = ropeNode_compact t
      in if c \<noteq> RNil then ropeNode_rebalanceIfNeeded (ropeNode_recomputeLength c) else c)"

fun ropeNode_removeAt :: "'a::zero rope \<Rightarrow> nat \<Rightarrow> ('a rope \<times> 'a option) option" where
  "ropeNode_removeAt RNil i = Some (RNil, None)"
| "ropeNode_removeAt (RLeaf xs n) i =
     (if i < length xs
      then let removed = xs ! i; s1 = go_copy xs i (drop (i + 1) xs); lst = length s1 - 1;
               s2 = s1[lst := 0]; s3 = take lst s2
           in if length s3 = 0 then Some (RNil, Some removed)
              else Some (RLeaf s3 (length s3), Some removed)
      else None)"
| "ropeNode_removeAt (RNode l r n) i =
     (let leftLen = ropeNode_nodeLen l
      in case (if i < leftLen
               then map_option (map_prod (\<lambda>l'. RNode l' r n) id) (ropeNode_removeAt l i)
               else map_option (map_prod (\<lambda>r'. RNode l r' n) id) (ropeNode_removeAt r (i - leftLen))) of
           None \<Rightarrow> None
         | Some (t, None) \<Rightarrow> Some (t, None)
         | Some (t, Some removed) \<Rightarrow> Some (removeAtRest t, Some removed))"

fun ropeNode_clone :: "'a rope \<Rightarrow> 'a rope" where
  "ropeNode_clone RNil = RNil"
| "ropeNode_clone (RLeaf xs n) = newRopeLeaf xs"
| "ropeNode_clone (RNode l r n) = RNode (ropeNode_clone l) (ropeNode_clone r) n"

subsection \<open>RopeList\<close>

record 'a ropelist =
  rp_root :: "'a rope"
  rp_len :: nat

definition NewRopeList :: "'a list \<Rightarrow> 'a ropelist" where
  "NewRopeList xs =
     (if length xs > 0 then \<lparr>rp_root = buildRope xs, rp_len = length xs\<rparr>
      else \<lparr>rp_root = RNil, rp_len = 0\<rparr>)"

definition NewRopeListWithCapacity :: "int \<Rightarrow> 'a list \<Rightarrow> 'a ropelist" where
  "NewRopeListWithCapacity capacity xs = NewRopeList xs"

text \<open>\<open>for offset, item := range items { r.root = r.root.insertAt(index+offset, item); r.len++ }\<close>; the
  option is a panic.\<close>

fun rope_insert_loop :: "'a::zero ropelist \<Rightarrow> nat \<Rightarrow> 'a list \<Rightarrow> 'a ropelist option" where
  "rope_insert_loop r i [] = Some r"
| "rope_insert_loop r i (x # xs) =
     (case ropeNode_insertAt (rp_root r) i x of
        None \<Rightarrow> None
      | Some t \<Rightarrow> rope_insert_loop (r\<lparr>rp_root := t, rp_len := rp_len r + 1\<rparr>) (i + 1) xs)"

text \<open>\<open>Add\<close> inserts at \<open>r.len\<close>, which grows with each item.\<close>

fun rope_add_loop :: "'a::zero ropelist \<Rightarrow> 'a list \<Rightarrow> 'a ropelist option" where
  "rope_add_loop r [] = Some r"
| "rope_add_loop r (x # xs) =
     (case ropeNode_insertAt (rp_root r) (rp_len r) x of
        None \<Rightarrow> None
      | Some t \<Rightarrow> rope_add_loop (r\<lparr>rp_root := t, rp_len := rp_len r + 1\<rparr>) xs)"

text \<open>The operations on a non-nil receiver \<open>r\<close>; what their opening \<open>r == nil\<close> guards answer is
  \<open>rp_nil\<close> below. The option around a result is a panic.\<close>

definition RopeList_Add :: "'a::zero ropelist \<Rightarrow> 'a list \<Rightarrow> 'a ropelist option" where
  "RopeList_Add r xs =
     (if length xs = 0 then Some r
      else if rp_root r = RNil then Some (r\<lparr>rp_root := buildRope xs, rp_len := length xs\<rparr>)
      else rope_add_loop r xs)"

definition RopeList_InsertAt ::
    "'a::zero ropelist \<Rightarrow> int \<Rightarrow> 'a list \<Rightarrow> ('a ropelist \<times> bool) option" where
  "RopeList_InsertAt r index xs =
     (if index < 0 \<or> index > int (rp_len r) then Some (r, False)
      else if length xs = 0 then Some (r, True)
      else if rp_root r = RNil then Some (r\<lparr>rp_root := newRopeLeaf xs, rp_len := length xs\<rparr>, True)
      else map_option (\<lambda>r'. (r', True)) (rope_insert_loop r (nat index) xs))"

definition RopeList_AddAt :: "'a::zero ropelist \<Rightarrow> int \<Rightarrow> 'a \<Rightarrow> ('a ropelist \<times> bool) option" where
  "RopeList_AddAt r index x = RopeList_InsertAt r index [x]"

definition RopeList_AddAllAt ::
    "'a::zero ropelist \<Rightarrow> int \<Rightarrow> 'a list \<Rightarrow> ('a ropelist \<times> bool) option" where
  "RopeList_AddAllAt r index xs = RopeList_InsertAt r index xs"

definition RopeList_Get :: "'a ropelist \<Rightarrow> int \<Rightarrow> 'a option option" where
  "RopeList_Get r index =
     (if rp_root r = RNil \<or> index < 0 \<or> index \<ge> int (rp_len r) then Some None
      else map_option Some (ropeNode_at (rp_root r) (nat index)))"

definition RopeList_GetOption :: "'a ropelist \<Rightarrow> int \<Rightarrow> 'a option option" where
  "RopeList_GetOption r index =
     (case RopeList_Get r index of
        None \<Rightarrow> None | Some None \<Rightarrow> Some None | Some (Some v) \<Rightarrow> Some (Some v))"

definition RopeList_Set :: "'a ropelist \<Rightarrow> int \<Rightarrow> 'a \<Rightarrow> ('a ropelist \<times> bool) option" where
  "RopeList_Set r index x =
     (if rp_root r = RNil \<or> index < 0 \<or> index \<ge> int (rp_len r) then Some (r, False)
      else map_option (\<lambda>t. (r\<lparr>rp_root := t\<rparr>, True)) (ropeNode_setAt (rp_root r) (nat index) x))"

definition RopeList_RemoveAt :: "'a::zero ropelist \<Rightarrow> int \<Rightarrow> ('a ropelist \<times> 'a option) option" where
  "RopeList_RemoveAt r index =
     (if rp_root r = RNil \<or> index < 0 \<or> index \<ge> int (rp_len r) then Some (r, None)
      else case ropeNode_removeAt (rp_root r) (nat index) of
             None \<Rightarrow> None
           | Some (nextRoot, None) \<Rightarrow> Some (r, None)
           | Some (nextRoot, Some removed) \<Rightarrow>
               Some (r\<lparr>rp_root := nextRoot, rp_len := rp_len r - 1\<rparr>, Some removed))"

definition RopeList_RemoveAtOption ::
    "'a::zero ropelist \<Rightarrow> int \<Rightarrow> ('a ropelist \<times> 'a option) option" where
  "RopeList_RemoveAtOption r index =
     (case RopeList_RemoveAt r index of
        None \<Rightarrow> None | Some (q, None) \<Rightarrow> Some (q, None) | Some (q, Some v) \<Rightarrow> Some (q, Some v))"

definition RopeList_Values :: "'a ropelist \<Rightarrow> 'a list" where
  "RopeList_Values r = (if rp_root r = RNil then [] else ropeNode_flatten (rp_root r))"

definition RopeList_RemoveIf :: "'a ropelist \<Rightarrow> ('a \<Rightarrow> bool) option \<Rightarrow> 'a ropelist \<times> nat" where
  "RopeList_RemoveIf r predicate =
     (case predicate of
        None \<Rightarrow> (r, 0)
      | Some P \<Rightarrow>
          if rp_root r = RNil then (r, 0)
          else let xs = RopeList_Values r;
                   nxt = foldl (\<lambda>acc x. if P x then acc else acc @ [x]) [] xs;
                   removed = length xs - length nxt
               in if removed = 0 then (r, 0)
                  else (r\<lparr>rp_root := buildRope nxt, rp_len := length nxt\<rparr>, removed))"

definition RopeList_Len :: "'a ropelist \<Rightarrow> nat" where
  "RopeList_Len r = rp_len r"

definition RopeList_IsEmpty :: "'a ropelist \<Rightarrow> bool" where
  "RopeList_IsEmpty r \<longleftrightarrow> RopeList_Len r = 0"

definition RopeList_Clear :: "'a ropelist \<Rightarrow> 'a ropelist" where
  "RopeList_Clear r = r\<lparr>rp_root := RNil, rp_len := 0\<rparr>"

text \<open>\<open>Range\<close> reads each index with \<open>Get\<close>; when that found nothing the callback would get the zero
  value.\<close>

definition RopeList_Range ::
    "'a::zero ropelist \<Rightarrow> ('st \<Rightarrow> nat \<times> 'a \<Rightarrow> 'st \<times> bool) option \<Rightarrow> 'st \<Rightarrow> 'st option" where
  "RopeList_Range r fn st =
     (case fn of
        None \<Rightarrow> Some st
      | Some f \<Rightarrow>
          range_until
            (\<lambda>acc i. case acc of
                       None \<Rightarrow> (None, False)
                     | Some s \<Rightarrow>
                         (case RopeList_Get r (int i) of
                            None \<Rightarrow> (None, False)
                          | Some v \<Rightarrow> map_prod Some id (f s (i, case v of None \<Rightarrow> 0 | Some x \<Rightarrow> x))))
            (Some st) [0 ..< rp_len r])"

definition RopeList_Clone :: "'a ropelist \<Rightarrow> 'a ropelist" where
  "RopeList_Clone r =
     (if rp_root r = RNil then \<lparr>rp_root = RNil, rp_len = 0\<rparr>
      else \<lparr>rp_root = ropeNode_clone (rp_root r), rp_len = rp_len r\<rparr>)"

definition RopeList_Merge :: "'a::zero ropelist \<Rightarrow> 'a glist option \<Rightarrow> 'a ropelist option" where
  "RopeList_Merge r other =
     (if other = None \<or> List_Len other = 0 then Some r else RopeList_Add r (List_Values other))"

definition RopeList_MergeRope :: "'a::zero ropelist \<Rightarrow> 'a ropelist option \<Rightarrow> 'a ropelist option" where
  "RopeList_MergeRope r other =
     (case other of
        None \<Rightarrow> Some r
      | Some q \<Rightarrow> if rp_root q = RNil then Some r else RopeList_Add r (RopeList_Values q))"

definition RopeList_MergeSlice :: "'a::zero ropelist \<Rightarrow> 'a list \<Rightarrow> 'a ropelist option" where
  "RopeList_MergeSlice r xs = RopeList_Add r xs"

definition RopeList_SetAllIndexed ::
    "'a ropelist \<Rightarrow> (nat \<Rightarrow> 'a \<Rightarrow> 'a) option \<Rightarrow> 'a ropelist \<times> nat" where
  "RopeList_SetAllIndexed r mapper =
     (case mapper of
        None \<Rightarrow> (r, 0)
      | Some f \<Rightarrow>
          if rp_root r = RNil then (r, 0)
          else let xs = RopeList_Values r;
                   ys = foldl (\<lambda>zs i. zs[i := f i (zs ! i)]) xs [0 ..< length xs]
               in (r\<lparr>rp_root := buildRope ys\<rparr>, length ys))"

text \<open>\<open>SetAll\<close> hands a closure around \<open>mapper\<close> on, which is never nil: with a nil \<open>mapper\<close> the first item panics
  (\<open>None\<close>), and a rope without items returns before.\<close>

definition RopeList_SetAll :: "'a ropelist \<Rightarrow> ('a \<Rightarrow> 'a) option \<Rightarrow> ('a ropelist \<times> nat) option" where
  "RopeList_SetAll r mapper =
     (case mapper of
        Some f \<Rightarrow> Some (RopeList_SetAllIndexed r (Some (\<lambda>_ x. f x)))
      | None \<Rightarrow> if rp_root r = RNil \<or> RopeList_Values r = [] then Some (RopeList_SetAllIndexed r (Some (\<lambda>_ x. x))) else None)"

definition RopeList_ToJSON :: "'a list json_marshal \<Rightarrow> 'a ropelist \<Rightarrow> string + bytes" where
  "RopeList_ToJSON marshal r = marshalListJSON marshal (RopeList_Values r) ''rope list''"

definition RopeList_MarshalJSON ::
    "string + bytes \<Rightarrow> 'a list json_marshal \<Rightarrow> 'a ropelist \<Rightarrow> string + bytes" where
  "RopeList_MarshalJSON n marshal r =
     forwardListJSON n (\<lambda>_. RopeList_ToJSON marshal r) ''rope list''"

definition RopeList_String :: "'a list json_marshal \<Rightarrow> 'a ropelist \<Rightarrow> string" where
  "RopeList_String marshal r = StringFromToJSON (Some (\<lambda>_. RopeList_ToJSON marshal r)) ''[]''"

subsection \<open>Invariant, content and balance\<close>

fun ritems :: "'a rope \<Rightarrow> 'a list" where
  "ritems RNil = []"
| "ritems (RLeaf xs n) = xs"
| "ritems (RNode l r n) = ritems l @ ritems r"

fun rope_ok :: "'a rope \<Rightarrow> bool" where
  "rope_ok RNil = True"
| "rope_ok (RLeaf xs n) \<longleftrightarrow> n = length xs \<and> xs \<noteq> []"
| "rope_ok (RNode l r n) \<longleftrightarrow> rope_ok l \<and> rope_ok r \<and> l \<noteq> RNil \<and> r \<noteq> RNil
     \<and> n = ropeNode_nodeLen l + ropeNode_nodeLen r"

fun rope_balanced :: "'a rope \<Rightarrow> bool" where
  "rope_balanced RNil = True"
| "rope_balanced (RLeaf xs n) = True"
| "rope_balanced (RNode l r n) \<longleftrightarrow> rope_balanced l \<and> rope_balanced r
     \<and> (128 < n \<longrightarrow> ropeNode_nodeLen l \<le> 4 * ropeNode_nodeLen r
                   \<and> ropeNode_nodeLen r \<le> 4 * ropeNode_nodeLen l)"

definition rope_good :: "'a rope \<Rightarrow> bool" where
  "rope_good t \<longleftrightarrow> rope_ok t \<and> rope_balanced t"

lemma nodeLen_ritems [simp]: "rope_ok t \<Longrightarrow> ropeNode_nodeLen t = length (ritems t)"
  by (induction t) auto

lemma ritems_empty [simp]: "rope_ok t \<Longrightarrow> ritems t = [] \<longleftrightarrow> t = RNil"
  by (induction t) auto

lemma appendTo_ritems [simp]: "ropeNode_appendTo t dst = dst @ ritems t"
  by (induction t arbitrary: dst) auto

lemma flatten_ritems [simp]: "ropeNode_flatten t = ritems t"
  by (simp add: ropeNode_flatten_def)

lemma buildRope_spec:
  "rope_good (buildRope xs) \<and> ritems (buildRope xs) = xs"
proof (induction xs rule: buildRope.induct)
  case (1 xs)
  consider "xs = []" | "xs \<noteq> []" "length xs \<le> ropeLeafSize" | "length xs > ropeLeafSize" by force
  then show ?case
  proof cases
    case 3
    let ?m = "length xs div 2"
    have c: "\<not> length xs = 0" "\<not> length xs \<le> ropeLeafSize" "64 < length xs"
      using 3 by (auto simp: ropeLeafSize_def)
    note l = "1.IH"(1) [OF c(1,2) refl] and r = "1.IH"(2) [OF c(1,2) refl]
    have "take ?m xs \<noteq> []" "drop ?m xs \<noteq> []" using c(3) by auto
    with l r have ne: "buildRope (take ?m xs) \<noteq> RNil" "buildRope (drop ?m xs) \<noteq> RNil"
      by (metis ritems.simps(1))+
    show ?thesis using l r ne c
      by (subst (1 2) buildRope.simps) (auto simp: rope_good_def Let_def)
  qed (simp_all add: buildRope.simps newRopeLeaf_def rope_good_def)
qed

lemma rebalance_spec:
  fixes l r :: "'a rope" and n :: nat
  assumes "rope_good l" "rope_good r" "l \<noteq> RNil" "r \<noteq> RNil"
  defines "t \<equiv> ropeNode_rebalanceIfNeeded (ropeNode_recomputeLength (RNode l r n))"
  shows "rope_good t \<and> ritems t = ritems l @ ritems r \<and> t \<noteq> RNil"
proof -
  have ok: "rope_ok l" "rope_ok r" "rope_balanced l" "rope_balanced r"
    using assms by (auto simp: rope_good_def)
  have len: "length (ritems l) > 0" "length (ritems r) > 0" using ok assms by auto
  note b = buildRope_spec [of "ritems l @ ritems r"]
  then have "buildRope (ritems l @ ritems r) \<noteq> RNil"
    using len by (metis append_is_Nil_conv length_greater_0_conv ritems.simps(1))
  then show ?thesis
    using ok len b assms(3,4)
    by (auto simp: t_def rope_good_def Let_def ropeLeafSize_def min_def)
qed

lemma rope_good_two_leaves:
  assumes "xs \<noteq> []" "ys \<noteq> []" "length xs \<le> 4 * length ys" "length ys \<le> 4 * length xs"
  shows "rope_good (ropeNode_recomputeLength (RNode (newRopeLeaf xs) (newRopeLeaf ys) n))"
  using assms by (simp add: rope_good_def newRopeLeaf_def)

lemma insertIntoLeaf_spec:
  assumes "i \<le> length xs"
  shows "\<exists>t. ropeNode_insertIntoLeaf xs i x = Some t \<and> rope_good t \<and> t \<noteq> RNil
       \<and> ritems t = take i xs @ x # drop i xs"
proof (cases "length xs < ropeLeafSize")
  case True
  have "go_copy (xs @ [0]) (i + 1) (drop i (xs @ [0])) = take (i + 1) (xs @ [0]) @ drop i xs"
    using assms by (simp add: go_copy_def)
  then have "(go_copy (xs @ [0]) (i + 1) (drop i (xs @ [0])))[i := x] = take i xs @ x # drop i xs"
    using assms by (cases "i = length xs") (auto simp: list_update_append take_Suc_conv_app_nth)
  then show ?thesis using True assms by (simp add: ropeNode_insertIntoLeaf_def rope_good_def Let_def)
next
  case False
  let ?ys = "take i xs @ x # drop i xs"
  have "go_copy (replicate (length xs + 1) 0) 0 (take i xs) = take i xs @ drop i (replicate (Suc (length xs)) 0)"
    using assms by (simp add: go_copy_def min_absorb2 del: drop_replicate)
  also have "drop i (replicate (Suc (length xs)) (0 :: 'a)) = 0 # replicate (length xs - i) 0"
    unfolding drop_replicate Suc_diff_le [OF assms] by (rule replicate_Suc)
  finally have "go_copy (replicate (length xs + 1) 0) 0 (take i xs) = take i xs @ 0 # replicate (length xs - i) 0" .
  then have m: "go_copy ((go_copy (replicate (length xs + 1) 0) 0 (take i xs))[i := x]) (i + 1) (drop i xs) = ?ys"
    using assms by (simp add: list_update_append go_copy_def)
  have len: "length ?ys = Suc (length xs)" using assms by simp
  let ?m = "Suc (length xs) div 2"
  have lr: "take ?m ?ys \<noteq> []" "drop ?m ?ys \<noteq> []" "64 \<le> length xs"
    using False len by (auto simp: ropeLeafSize_def)
  let ?l = "newRopeLeaf (take ?m ?ys)" and ?r = "newRopeLeaf (drop ?m ?ys)"
  have "ropeNode_insertIntoLeaf xs i x = Some (ropeNode_recomputeLength (RNode ?l ?r 0))"
    using False assms unfolding ropeNode_insertIntoLeaf_def Let_def m len by simp
  moreover have "rope_good (ropeNode_recomputeLength (RNode ?l ?r 0))"
  proof (rule rope_good_two_leaves [OF lr(1,2)])
    have "length (take ?m ?ys) = ?m" "length (drop ?m ?ys) = Suc (length xs) - ?m"
      using len by (simp_all only: length_take length_drop)
    then show "length (take ?m ?ys) \<le> 4 * length (drop ?m ?ys)"
      and "length (drop ?m ?ys) \<le> 4 * length (take ?m ?ys)" using lr(3) by linarith+
  qed
  moreover have "ritems (ropeNode_recomputeLength (RNode ?l ?r 0)) = ?ys"
    unfolding newRopeLeaf_def by (simp only: ropeNode_recomputeLength.simps ritems.simps append_take_drop_id)
  ultimately show ?thesis by auto
qed

declare ropeNode_rebalanceIfNeeded.simps [simp del] ropeNode_recomputeLength.simps [simp del]

lemma insertAt_spec:
  assumes "rope_good t" "i \<le> length (ritems t)"
  shows "\<exists>t'. ropeNode_insertAt t i x = Some t' \<and> rope_good t' \<and> t' \<noteq> RNil
       \<and> ritems t' = take i (ritems t) @ x # drop i (ritems t)"
  using assms
proof (induction t arbitrary: i)
  case RNil
  then show ?case by (simp add: newRopeLeaf_def rope_good_def)
next
  case (RLeaf xs n)
  then show ?case using insertIntoLeaf_spec [of i xs x] by auto
next
  case (RNode l r n)
  have g: "rope_good l" "rope_good r" "l \<noteq> RNil" "r \<noteq> RNil" "rope_ok l"
    using RNode.prems by (auto simp: rope_good_def)
  show ?case
  proof (cases "i \<le> ropeNode_nodeLen l")
    case True
    then obtain l' where l': "ropeNode_insertAt l i x = Some l'" "rope_good l'" "l' \<noteq> RNil"
        "ritems l' = take i (ritems l) @ x # drop i (ritems l)"
      using RNode.IH(1) [OF g(1), of i] g(5) by auto
    with True g rebalance_spec [OF l'(2) g(2) l'(3) g(4), of n] show ?thesis
      by (simp add: Let_def)
  next
    case False
    have "i - ropeNode_nodeLen l \<le> length (ritems r)" using RNode.prems(2) g(5) by simp
    then obtain r' where r': "ropeNode_insertAt r (i - ropeNode_nodeLen l) x = Some r'"
        "rope_good r'" "r' \<noteq> RNil"
        "ritems r' = take (i - length (ritems l)) (ritems r) @ x # drop (i - length (ritems l)) (ritems r)"
      using RNode.IH(2) [OF g(2), of "i - ropeNode_nodeLen l"] g(5) RNode.prems by auto
    with False g rebalance_spec [OF g(1) r'(2) g(3) r'(3), of n] show ?thesis
      by (simp add: Let_def)
  qed
qed

lemma compact_cases:
  assumes "l \<noteq> RNil" "r \<noteq> RNil"
  shows "ropeNode_compact (RNode l r n) = RNode l r n
       \<or> ropeNode_compact (RNode l r n) = newRopeLeaf (ritems l @ ritems r)"
  using assms by (cases l; cases r) simp_all

lemma rebalance_good:
  assumes "rope_good t"
  shows "rope_good (ropeNode_rebalanceIfNeeded (ropeNode_recomputeLength t))"
    and "ritems (ropeNode_rebalanceIfNeeded (ropeNode_recomputeLength t)) = ritems t"
proof -
  have "rope_good (ropeNode_rebalanceIfNeeded (ropeNode_recomputeLength t))
      \<and> ritems (ropeNode_rebalanceIfNeeded (ropeNode_recomputeLength t)) = ritems t"
  proof (cases t)
    case (RNode l r n)
    with assms have "rope_good l" "rope_good r" "l \<noteq> RNil" "r \<noteq> RNil" by (simp_all add: rope_good_def)
    from rebalance_spec [OF this, of n] show ?thesis unfolding RNode ritems.simps(3) by blast
  qed (use assms in \<open>simp_all add: rope_good_def ropeNode_rebalanceIfNeeded.simps
      ropeNode_recomputeLength.simps\<close>)
  then show "rope_good (ropeNode_rebalanceIfNeeded (ropeNode_recomputeLength t))"
    and "ritems (ropeNode_rebalanceIfNeeded (ropeNode_recomputeLength t)) = ritems t" by blast+
qed

lemma removeAtRest_spec:
  assumes good: "rope_good l" "rope_good r" and "l \<noteq> RNil \<or> r \<noteq> RNil"
  shows "rope_good (removeAtRest (RNode l r n)) \<and> ritems (removeAtRest (RNode l r n)) = ritems l @ ritems r"
proof -
  consider (one) t where "ropeNode_compact (RNode l r n) = t" "t \<noteq> RNil" "rope_good t"
      "ritems t = ritems l @ ritems r"
    | (two) "ropeNode_compact (RNode l r n) = RNode l r n" "l \<noteq> RNil" "r \<noteq> RNil"
  proof (cases "l = RNil \<or> r = RNil")
    case True
    then show ?thesis using assms by (intro one [OF refl]) auto
  next
    case False
    then have "l \<noteq> RNil" "r \<noteq> RNil" "ritems l \<noteq> []" using good(1) by (auto simp: rope_good_def)
    with compact_cases [of l r n] show ?thesis
      using two one [of "newRopeLeaf (ritems l @ ritems r)"] by (auto simp: newRopeLeaf_def rope_good_def)
  qed
  then show ?thesis
  proof cases
    case (one t)
    then show ?thesis using rebalance_good [OF one(3)] by (simp add: removeAtRest_def Let_def)
  next
    case two
    then show ?thesis using rebalance_spec [OF good two(2,3), of n]
      by (simp add: removeAtRest_def Let_def)
  qed
qed

lemma removeAt_spec:
  assumes "rope_good t" "i < length (ritems t)"
  shows "\<exists>t'. ropeNode_removeAt t i = Some (t', Some (ritems t ! i)) \<and> rope_good t'
       \<and> ritems t' = take i (ritems t) @ drop (Suc i) (ritems t)"
  using assms
proof (induction t arbitrary: i)
  case (RLeaf xs n)
  then have i: "i < length xs" by simp
  have cut: "take (length xs - 1) ((go_copy xs i (drop (i + 1) xs))[length xs - 1 := 0])
      = take i xs @ drop (i + 1) xs"
    by (rule go_copy_remove [OF i])
  have len: "length (go_copy xs i (drop (i + 1) xs)) = length xs" using i by simp
  show ?case
    using i cut len by (auto simp: Let_def rope_good_def)
next
  case (RNode l r n)
  have g: "rope_good l" "rope_good r" "l \<noteq> RNil" "r \<noteq> RNil" "rope_ok l"
    using RNode.prems by (auto simp: rope_good_def)
  show ?case
  proof (cases "i < ropeNode_nodeLen l")
    case True
    then obtain l' where l': "ropeNode_removeAt l i = Some (l', Some (ritems l ! i))" "rope_good l'"
        "ritems l' = take i (ritems l) @ drop (Suc i) (ritems l)"
      using RNode.IH(1) [OF g(1), of i] g(5) by auto
    with True g removeAtRest_spec [OF l'(2) g(2), of n] show ?thesis
      by (simp add: nth_append Let_def)
  next
    case False
    let ?j = "i - length (ritems l)"
    have "?j < length (ritems r)" using RNode.prems(2) False g(5) by simp
    then obtain r' where r': "ropeNode_removeAt r ?j = Some (r', Some (ritems r ! ?j))" "rope_good r'"
        "ritems r' = take ?j (ritems r) @ drop (Suc ?j) (ritems r)"
      using RNode.IH(2) [OF g(2), of ?j] by auto
    have "Suc i - length (ritems l) = Suc ?j" using False g(5) by simp
    with r' False g removeAtRest_spec [OF g(1) r'(2), of n] show ?thesis
      by (simp add: nth_append Let_def)
  qed
qed simp

lemma at_spec: "rope_ok t \<Longrightarrow> i < length (ritems t) \<Longrightarrow> ropeNode_at t i = Some (ritems t ! i)"
  by (induction t arbitrary: i) (auto simp: nth_append)

lemma setAt_spec:
  assumes "rope_good t" "i < length (ritems t)"
  shows "\<exists>t'. ropeNode_setAt t i v = Some t' \<and> rope_good t' \<and> ritems t' = (ritems t)[i := v]
       \<and> t' \<noteq> RNil \<and> ropeNode_nodeLen t' = ropeNode_nodeLen t"
  using assms
proof (induction t arbitrary: i)
  case (RNode l r n)
  have g: "rope_good l" "rope_good r" "rope_ok l" using RNode.prems by (auto simp: rope_good_def)
  show ?case
  proof (cases "i < ropeNode_nodeLen l")
    case True
    then show ?thesis using RNode.IH(1) [OF g(1), of i] RNode.prems g
      by (auto simp: rope_good_def list_update_append)
  next
    case False
    have "i - length (ritems l) < length (ritems r)" using RNode.prems(2) False g(3) by simp
    with RNode.IH(2) [OF g(2), of "i - length (ritems l)"] show ?thesis using RNode.prems False g
      by (auto simp: rope_good_def list_update_append)
  qed
qed (auto simp: rope_good_def)

lemma clone_id: "rope_ok t \<Longrightarrow> ropeNode_clone t = t"
  by (induction t) (auto simp: newRopeLeaf_def)

subsection \<open>Depth\<close>

fun rope_depth :: "'a rope \<Rightarrow> nat" where
  "rope_depth (RNode l r n) = Suc (max (rope_depth l) (rope_depth r))"
| "rope_depth _ = 0"

lemma depth_lt_length: "rope_ok t \<Longrightarrow> t \<noteq> RNil \<Longrightarrow> rope_depth t < length (ritems t)"
proof (induction t)
  case (RNode l r n)
  then have "rope_depth l < length (ritems l)" "rope_depth r < length (ritems r)" by auto
  then show ?case by simp
qed simp_all

lemma depth_log:
  assumes "rope_good t" and "length (ritems t) * 4 ^ k \<le> 128 * 5 ^ k"
  shows "rope_depth t \<le> 127 + k"
  using assms
proof (induction t arbitrary: k)
  case (RNode l r n)
  have ok: "rope_ok (RNode l r n)" "rope_good l" "rope_good r" using RNode.prems by (auto simp: rope_good_def)
  let ?a = "length (ritems l)" and ?b = "length (ritems r)"
  show ?case
  proof (cases "?a + ?b \<le> 128")
    case True
    then show ?thesis using depth_lt_length [OF ok(1)] by (simp del: rope_depth.simps)
  next
    case False
    have bal: "?a \<le> 4 * ?b" "?b \<le> 4 * ?a" using RNode.prems(1) False by (auto simp: rope_good_def)
    obtain j where k: "k = Suc j" using False RNode.prems(2) by (cases k) auto
    have sub: "m * 4 ^ j \<le> 128 * 5 ^ j" if m: "5 * m \<le> 4 * (?a + ?b)" for m
    proof -
      have "5 * m * 4 ^ j \<le> 4 * (?a + ?b) * 4 ^ j" using m by (rule mult_le_mono1)
      also have "\<dots> = (?a + ?b) * 4 ^ k" by (simp add: k)
      also have "\<dots> \<le> 128 * 5 ^ k" using RNode.prems(2) by simp
      finally show ?thesis by (simp add: k)
    qed
    have "rope_depth l \<le> 127 + j" "rope_depth r \<le> 127 + j"
      using RNode.IH(1) [OF ok(2) sub] RNode.IH(2) [OF ok(3) sub] bal by auto
    then show ?thesis by (simp add: k)
  qed
qed simp_all

subsection \<open>Over any history a list\<close>

datatype (dead 'a) rp_op =
    RpAdd "'a list" | RpAddAt int 'a | RpInsertAt int "'a list" | RpGet int | RpSet int 'a
  | RpRemoveAt int | RpRemoveIf "('a \<Rightarrow> bool) option" | RpLen | RpIsEmpty | RpClear | RpValues
  | RpRange "(nat \<times> 'a \<Rightarrow> bool) option" | RpClone | RpMerge "'a glist option" | RpMergeSlice "'a list"
  | RpSetAll "('a \<Rightarrow> 'a) option" | RpSetAllIndexed "(nat \<Rightarrow> 'a \<Rightarrow> 'a) option" | RpToJSON

datatype (dead 'a) rp_res =
    RpUnit | RpBool bool | RpNat nat | RpItem "'a option" | RpItems "'a list"
  | RpSeen "(nat \<times> 'a) list" | RpBytes "string + bytes" | RpPanic

definition rp_call :: "'a ropelist \<Rightarrow> ('a ropelist \<times> 'b) option \<Rightarrow> ('b \<Rightarrow> 'a rp_res)
    \<Rightarrow> 'a ropelist \<times> 'a rp_res" where
  "rp_call r res f = (case res of None \<Rightarrow> (r, RpPanic) | Some (r', v) \<Rightarrow> (r', f v))"

definition rp_unit :: "'a ropelist \<Rightarrow> 'a ropelist option \<Rightarrow> 'a ropelist \<times> 'a rp_res" where
  "rp_unit r res = rp_call r (map_option (\<lambda>r'. (r', ())) res) (\<lambda>_. RpUnit)"

text \<open>What the guards answer for a nil receiver, which stays nil.\<close>

fun rp_nil :: "'a list json_marshal \<Rightarrow> 'a rp_op \<Rightarrow> 'a rp_res" where
  "rp_nil marshal (RpAddAt i x) = RpBool False"
| "rp_nil marshal (RpInsertAt i xs) = RpBool False"
| "rp_nil marshal (RpGet i) = RpItem None"
| "rp_nil marshal (RpSet i x) = RpBool False"
| "rp_nil marshal (RpRemoveAt i) = RpItem None"
| "rp_nil marshal (RpRemoveIf P) = RpNat 0"
| "rp_nil marshal RpLen = RpNat 0"
| "rp_nil marshal RpIsEmpty = RpBool True"
| "rp_nil marshal RpValues = RpItems []"
| "rp_nil marshal (RpRange P) = RpSeen []"
| "rp_nil marshal RpClone = RpItems []"
| "rp_nil marshal (RpSetAll f) = RpNat 0"
| "rp_nil marshal (RpSetAllIndexed f) = RpNat 0"
| "rp_nil marshal RpToJSON = RpBytes (marshalListJSON marshal [] ''rope list'')"
| "rp_nil marshal _ = RpUnit"

text \<open>One call on a non-nil receiver; \<open>Clone\<close> is observed through the content of the copy.\<close>

primrec rp_step ::
    "'a::zero list json_marshal \<Rightarrow> 'a rp_op \<Rightarrow> 'a ropelist \<Rightarrow> 'a ropelist \<times> 'a rp_res" where
  "rp_step marshal (RpAdd xs) r = rp_unit r (RopeList_Add r xs)"
| "rp_step marshal (RpAddAt i x) r = rp_call r (RopeList_AddAt r i x) RpBool"
| "rp_step marshal (RpInsertAt i xs) r = rp_call r (RopeList_AddAllAt r i xs) RpBool"
| "rp_step marshal (RpGet i) r = rp_call r (map_option (Pair r) (RopeList_GetOption r i)) RpItem"
| "rp_step marshal (RpSet i x) r = rp_call r (RopeList_Set r i x) RpBool"
| "rp_step marshal (RpRemoveAt i) r = rp_call r (RopeList_RemoveAtOption r i) RpItem"
| "rp_step marshal (RpRemoveIf P) r = rp_call r (Some (RopeList_RemoveIf r P)) RpNat"
| "rp_step marshal RpLen r = (r, RpNat (RopeList_Len r))"
| "rp_step marshal RpIsEmpty r = (r, RpBool (RopeList_IsEmpty r))"
| "rp_step marshal RpClear r = (RopeList_Clear r, RpUnit)"
| "rp_step marshal RpValues r = (r, RpItems (RopeList_Values r))"
| "rp_step marshal (RpRange P) r =
     rp_call r (map_option (Pair r) (RopeList_Range r (map_option (\<lambda>Q acc x. (acc @ [x], Q x)) P) [])) RpSeen"
| "rp_step marshal RpClone r = (r, RpItems (RopeList_Values (RopeList_Clone r)))"
| "rp_step marshal (RpMerge other) r = rp_unit r (RopeList_Merge r other)"
| "rp_step marshal (RpMergeSlice xs) r = rp_unit r (RopeList_MergeSlice r xs)"
| "rp_step marshal (RpSetAll f) r = rp_call r (RopeList_SetAll r f) RpNat"
| "rp_step marshal (RpSetAllIndexed f) r = rp_call r (Some (RopeList_SetAllIndexed r f)) RpNat"
| "rp_step marshal RpToJSON r = (r, RpBytes (RopeList_ToJSON marshal r))"

primrec rp_spec :: "'a list json_marshal \<Rightarrow> 'a rp_op \<Rightarrow> 'a list \<Rightarrow> 'a list \<times> 'a rp_res" where
  "rp_spec marshal (RpAdd ys) xs = (xs @ ys, RpUnit)"
| "rp_spec marshal (RpAddAt i y) xs =
     (if 0 \<le> i \<and> i \<le> int (length xs) then (take (nat i) xs @ y # drop (nat i) xs, RpBool True)
      else (xs, RpBool False))"
| "rp_spec marshal (RpInsertAt i ys) xs =
     (if 0 \<le> i \<and> i \<le> int (length xs) then (take (nat i) xs @ ys @ drop (nat i) xs, RpBool True)
      else (xs, RpBool False))"
| "rp_spec marshal (RpGet i) xs = (xs, RpItem (if in_range i xs then Some (xs ! nat i) else None))"
| "rp_spec marshal (RpSet i x) xs =
     (if in_range i xs then (xs[nat i := x], RpBool True) else (xs, RpBool False))"
| "rp_spec marshal (RpRemoveAt i) xs =
     (if in_range i xs then (take (nat i) xs @ drop (Suc (nat i)) xs, RpItem (Some (xs ! nat i)))
      else (xs, RpItem None))"
| "rp_spec marshal (RpRemoveIf P) xs =
     (case P of None \<Rightarrow> (xs, RpNat 0) | Some Q \<Rightarrow> (filter (\<lambda>x. \<not> Q x) xs, RpNat (length (filter Q xs))))"
| "rp_spec marshal RpLen xs = (xs, RpNat (length xs))"
| "rp_spec marshal RpIsEmpty xs = (xs, RpBool (xs = []))"
| "rp_spec marshal RpClear xs = ([], RpUnit)"
| "rp_spec marshal RpValues xs = (xs, RpItems xs)"
| "rp_spec marshal (RpRange P) xs =
     (xs, RpSeen (case P of None \<Rightarrow> [] | Some Q \<Rightarrow> takeWhile Q (enumerate 0 xs) @ take 1 (dropWhile Q (enumerate 0 xs))))"
| "rp_spec marshal RpClone xs = (xs, RpItems xs)"
| "rp_spec marshal (RpMerge other) xs = (xs @ List_Values other, RpUnit)"
| "rp_spec marshal (RpMergeSlice ys) xs = (xs @ ys, RpUnit)"
| "rp_spec marshal (RpSetAll f) xs =
     (case f of None \<Rightarrow> (xs, if xs = [] then RpNat 0 else RpPanic) | Some g \<Rightarrow> (map g xs, RpNat (length xs)))"
| "rp_spec marshal (RpSetAllIndexed f) xs =
     (case f of None \<Rightarrow> (xs, RpNat 0) | Some g \<Rightarrow> (map (\<lambda>(i, x). g i x) (enumerate 0 xs), RpNat (length xs)))"
| "rp_spec marshal RpToJSON xs = (xs, RpBytes (marshalListJSON marshal xs ''rope list''))"

definition rp_inv :: "'a ropelist \<Rightarrow> bool" where
  "rp_inv r \<longleftrightarrow> rope_good (rp_root r) \<and> rp_len r = length (ritems (rp_root r))"

definition rp_items :: "'a ropelist \<Rightarrow> 'a list" where
  "rp_items r = ritems (rp_root r)"

lemma rp_invD:
  assumes "rp_inv r"
  shows "rope_good (rp_root r)" "rope_ok (rp_root r)" "rp_len r = length (rp_items r)"
    "rp_root r = RNil \<longleftrightarrow> rp_items r = []"
  using assms by (auto simp: rp_inv_def rp_items_def rope_good_def)

lemma rope_insert_loop_spec:
  assumes "rp_inv r" "i \<le> length (rp_items r)"
  shows "\<exists>r'. rope_insert_loop r i xs = Some r' \<and> rp_inv r'
       \<and> rp_items r' = take i (rp_items r) @ xs @ drop i (rp_items r)"
  using assms
proof (induction xs arbitrary: r i)
  case (Cons x xs)
  obtain t where t: "ropeNode_insertAt (rp_root r) i x = Some t" "rope_good t"
      "ritems t = take i (rp_items r) @ x # drop i (rp_items r)"
    using insertAt_spec [of "rp_root r" i x] Cons.prems by (auto simp: rp_inv_def rp_items_def)
  let ?r = "r\<lparr>rp_root := t, rp_len := rp_len r + 1\<rparr>"
  have inv: "rp_inv ?r" "rp_items ?r = take i (rp_items r) @ x # drop i (rp_items r)"
    using t Cons.prems by (auto simp: rp_inv_def rp_items_def)
  have le: "i + 1 \<le> length (rp_items ?r)" using Cons.prems(2) inv(2) by simp
  from Cons.IH [OF inv(1) le] show ?case
    using t(1) inv(2) Cons.prems(2) by (auto simp: min_absorb2 Suc_diff_le)
qed simp

lemma rope_add_loop_insert:
  "rp_inv r \<Longrightarrow> rope_add_loop r xs = rope_insert_loop r (rp_len r) xs"
proof (induction xs arbitrary: r)
  case (Cons x xs)
  obtain t where t: "ropeNode_insertAt (rp_root r) (rp_len r) x = Some t" "rope_good t"
      "length (ritems t) = Suc (rp_len r)"
    using insertAt_spec [of "rp_root r" "rp_len r" x] Cons.prems by (auto simp: rp_inv_def)
  then have "rp_inv (r\<lparr>rp_root := t, rp_len := rp_len r + 1\<rparr>)" by (simp add: rp_inv_def)
  from Cons.IH [OF this] show ?case using t by simp
qed simp

lemma RopeList_Add_spec:
  assumes inv: "rp_inv r"
  shows "\<exists>r'. RopeList_Add r xs = Some r' \<and> rp_inv r' \<and> rp_items r' = rp_items r @ xs"
proof (cases "xs = [] \<or> rp_root r = RNil")
  case True
  then show ?thesis using inv buildRope_spec [of xs]
    by (auto simp: RopeList_Add_def rp_inv_def rp_items_def)
next
  case False
  then show ?thesis
    using rope_insert_loop_spec [OF inv, of "rp_len r" xs] rope_add_loop_insert [OF inv] rp_invD [OF inv]
    by (auto simp: RopeList_Add_def)
qed

lemma RopeList_InsertAt_spec:
  assumes inv: "rp_inv r" and i: "0 \<le> i" "i \<le> int (length (rp_items r))"
  shows "\<exists>r'. RopeList_InsertAt r i xs = Some (r', True) \<and> rp_inv r'
       \<and> rp_items r' = take (nat i) (rp_items r) @ xs @ drop (nat i) (rp_items r)"
proof (cases "xs = [] \<or> rp_root r = RNil")
  case True
  have len: "rp_len r = length (rp_items r)" by (rule rp_invD(3) [OF inv])
  show ?thesis
  proof (cases "xs = []")
    case True
    then show ?thesis using inv i len by (simp add: RopeList_InsertAt_def)
  next
    case False
    with True have root: "rp_root r = RNil" by blast
    then have "rp_items r = []" by (simp add: rp_items_def)
    with False root i len show ?thesis
      by (simp add: RopeList_InsertAt_def rp_inv_def rp_items_def newRopeLeaf_def rope_good_def)
  qed
next
  case False
  have "nat i \<le> length (rp_items r)" using i by simp
  from rope_insert_loop_spec [OF inv this, of xs] show ?thesis
    using False i rp_invD [OF inv] by (auto simp: RopeList_InsertAt_def)
qed

lemma RopeList_edits:
  assumes inv: "rp_inv r" and i: "in_range i (rp_items r)"
  shows "\<exists>r'. RopeList_Set r i x = Some (r', True) \<and> rp_inv r' \<and> rp_items r' = (rp_items r)[nat i := x]"
    and "\<exists>r'. RopeList_RemoveAt r i = Some (r', Some (rp_items r ! nat i)) \<and> rp_inv r'
       \<and> rp_items r' = take (nat i) (rp_items r) @ drop (Suc (nat i)) (rp_items r)"
    and "RopeList_Get r i = Some (Some (rp_items r ! nat i))"
proof -
  have n: "nat i < length (ritems (rp_root r))" "0 \<le> i" "i < int (rp_len r)" "rp_root r \<noteq> RNil"
    using i rp_invD [OF inv] by (auto simp: in_range_def rp_items_def)
  note good = rp_invD(1,2) [OF inv]
  show "\<exists>r'. RopeList_Set r i x = Some (r', True) \<and> rp_inv r' \<and> rp_items r' = (rp_items r)[nat i := x]"
    using setAt_spec [OF good(1) n(1), of x] n inv
    by (auto simp: RopeList_Set_def rp_inv_def rp_items_def)
  obtain t where t: "ropeNode_removeAt (rp_root r) (nat i) = Some (t, Some (rp_items r ! nat i))"
      "rope_good t" "ritems t = take (nat i) (rp_items r) @ drop (Suc (nat i)) (rp_items r)"
    using removeAt_spec [OF good(1) n(1)] by (auto simp: rp_items_def)
  have "length (ritems t) = rp_len r - 1"
    using t(3) n inv by (simp add: rp_inv_def rp_items_def)
  with t n show "\<exists>r'. RopeList_RemoveAt r i = Some (r', Some (rp_items r ! nat i)) \<and> rp_inv r'
       \<and> rp_items r' = take (nat i) (rp_items r) @ drop (Suc (nat i)) (rp_items r)"
    by (simp add: RopeList_RemoveAt_def rp_inv_def rp_items_def)
  show "RopeList_Get r i = Some (Some (rp_items r ! nat i))"
    using at_spec [OF good(2) n(1)] n by (simp add: RopeList_Get_def rp_items_def)
qed

lemma RopeList_out_of_range:
  assumes inv: "rp_inv r" and i: "\<not> in_range i (rp_items r)"
  shows "RopeList_Set r i x = Some (r, False)" "RopeList_RemoveAt r i = Some (r, None)"
    "RopeList_Get r i = Some None"
  using i rp_invD(3) [OF inv]
  by (auto simp: in_range_def RopeList_Set_def RopeList_RemoveAt_def RopeList_Get_def)

lemma RopeList_Values_items [simp]: "RopeList_Values r = rp_items r"
  by (simp add: RopeList_Values_def rp_items_def)

lemma foldl_filter: "foldl (\<lambda>acc x. if P x then acc else acc @ [x]) acc xs = acc @ filter (\<lambda>x. \<not> P x) xs"
  by (induction xs arbitrary: acc) auto

lemma RopeList_bulk:
  assumes inv: "rp_inv r"
  shows "rp_inv (fst (RopeList_RemoveIf r (Some P)))"
    and "rp_items (fst (RopeList_RemoveIf r (Some P))) = filter (\<lambda>x. \<not> P x) (rp_items r)"
    and "snd (RopeList_RemoveIf r (Some P)) = length (filter P (rp_items r))"
    and "rp_inv (fst (RopeList_SetAllIndexed r (Some f)))"
    and "rp_items (fst (RopeList_SetAllIndexed r (Some f))) = map (\<lambda>(i, x). f i x) (enumerate 0 (rp_items r))"
    and "snd (RopeList_SetAllIndexed r (Some f)) = length (rp_items r)"
proof -
  have nil: "rp_root r = RNil \<longleftrightarrow> rp_items r = []" using rp_invD(4) [OF inv] .
  have cnt: "length (rp_items r) - length (filter (\<lambda>x. \<not> P x) (rp_items r)) = length (filter P (rp_items r))"
    using sum_length_filter_compl [of P "rp_items r"] by simp
  have all: "filter (\<lambda>x. \<not> P x) (rp_items r) = rp_items r" if "length (filter P (rp_items r)) = 0"
    using that by (simp add: filter_empty_conv filter_id_conv)
  have build: "rp_inv (r\<lparr>rp_root := buildRope xs, rp_len := length xs\<rparr>)"
      "rp_items (r\<lparr>rp_root := buildRope xs, rp_len := n\<rparr>) = xs" for xs n
    using buildRope_spec [of xs] by (simp_all add: rp_inv_def rp_items_def)
  have "rp_inv (fst (RopeList_RemoveIf r (Some P)))
      \<and> rp_items (fst (RopeList_RemoveIf r (Some P))) = filter (\<lambda>x. \<not> P x) (rp_items r)
      \<and> snd (RopeList_RemoveIf r (Some P)) = length (filter P (rp_items r))"
  proof (cases "filter P (rp_items r) = []")
    case True
    then have "RopeList_RemoveIf r (Some P) = (r, 0)"
      using all by (simp add: RopeList_RemoveIf_def foldl_filter Let_def)
    with True all inv show ?thesis by simp
  next
    case False
    then have "\<not> length (rp_items r) - length (filter (\<lambda>x. \<not> P x) (rp_items r)) = 0" "rp_root r \<noteq> RNil"
      using cnt nil by auto
    then have "RopeList_RemoveIf r (Some P)
        = (r\<lparr>rp_root := buildRope (filter (\<lambda>x. \<not> P x) (rp_items r)),
             rp_len := length (filter (\<lambda>x. \<not> P x) (rp_items r))\<rparr>, length (filter P (rp_items r)))"
      unfolding cnt [symmetric] by (simp add: RopeList_RemoveIf_def foldl_filter Let_def)
    with build show ?thesis by simp
  qed
  then show "rp_inv (fst (RopeList_RemoveIf r (Some P)))"
    and "rp_items (fst (RopeList_RemoveIf r (Some P))) = filter (\<lambda>x. \<not> P x) (rp_items r)"
    and "snd (RopeList_RemoveIf r (Some P)) = length (filter P (rp_items r))" by blast+
  let ?ys = "map (\<lambda>(i, x). f i x) (enumerate 0 (rp_items r))"
  have loop: "foldl (\<lambda>zs i. zs[i := f i (zs ! i)]) (rp_items r) [0 ..< length (rp_items r)] = ?ys"
    using map_loop [of "length (rp_items r)" "rp_items r" f] by simp
  have "rp_inv (r\<lparr>rp_root := buildRope ?ys\<rparr>)" "rp_items (r\<lparr>rp_root := buildRope ?ys\<rparr>) = ?ys"
    using buildRope_spec [of ?ys] rp_invD(3) [OF inv] by (simp_all add: rp_inv_def rp_items_def)
  then show "rp_inv (fst (RopeList_SetAllIndexed r (Some f)))"
    and "rp_items (fst (RopeList_SetAllIndexed r (Some f))) = ?ys"
    and "snd (RopeList_SetAllIndexed r (Some f)) = length (rp_items r)"
    using nil inv by (simp_all add: RopeList_SetAllIndexed_def loop Let_def)
qed

lemma RopeList_Range_spec:
  assumes inv: "rp_inv r"
  shows "RopeList_Range r (Some f) st = Some (range_until f st (enumerate 0 (rp_items r)))"
proof -
  let ?g = "\<lambda>acc i. case acc of None \<Rightarrow> (None, False)
      | Some s \<Rightarrow> (case RopeList_Get r (int i) of None \<Rightarrow> (None, False)
                   | Some v \<Rightarrow> map_prod Some id (f s (i, case v of None \<Rightarrow> 0 | Some x \<Rightarrow> x)))"
  have "range_until ?g (Some st) is = Some (range_until f st (map (\<lambda>i. (i, rp_items r ! i)) is))"
    if "\<forall>i\<in>set is. i < length (rp_items r)" for "is"
    using that
  proof (induction "is" arbitrary: st)
    case (Cons i "is")
    have "RopeList_Get r (int i) = Some (Some (rp_items r ! i))"
      using RopeList_edits(3) [OF inv, of "int i"] Cons.prems by (simp add: in_range_def)
    with Cons show ?case by (simp split: prod.split)
  qed simp
  moreover have "map (\<lambda>i. (i, rp_items r ! i)) [0 ..< length (rp_items r)] = enumerate 0 (rp_items r)"
    by (rule nth_equalityI) (simp_all add: nth_enumerate_eq)
  ultimately show ?thesis using rp_invD(3) [OF inv] by (simp add: RopeList_Range_def)
qed

interpretation rp_ref: data_refinement "rp_step marshal" rp_inv "rp_spec marshal" rp_items
  for marshal :: "'a::zero list json_marshal"
proof unfold_locales
  fix r :: "'a ropelist" and c :: "'a rp_op"
  assume inv: "rp_inv r"
  note len = rp_invD(3) [OF inv] and bulk = RopeList_bulk [OF inv]
  have add: "\<exists>r'. RopeList_Add r xs = Some r' \<and> rp_inv r' \<and> rp_items r' = rp_items r @ xs" for xs
    by (rule RopeList_Add_spec [OF inv])
  have mrg: "\<exists>r'. RopeList_Merge r o' = Some r' \<and> rp_inv r' \<and> rp_items r' = rp_items r @ List_Values o'" for o'
    using add [of "List_Values o'"] inv by (cases o') (auto simp: RopeList_Merge_def)
  have clone: "RopeList_Values (RopeList_Clone r) = rp_items r"
    using rp_invD [OF inv] clone_id [of "rp_root r"] by (auto simp: RopeList_Clone_def rp_items_def)
  have clear: "rp_inv (RopeList_Clear r)" "rp_items (RopeList_Clear r) = []"
    by (simp_all add: RopeList_Clear_def rp_inv_def rp_items_def rope_good_def)
  have all: "map (\<lambda>(i, x). f x) (enumerate 0 xs) = map f xs" for f :: "'a \<Rightarrow> 'a" and xs
    by (rule nth_equalityI) (simp_all add: nth_enumerate_eq)
  have ins: "(\<exists>r'. RopeList_InsertAt r i xs = Some (r', True) \<and> rp_inv r'
       \<and> rp_items r' = take (nat i) (rp_items r) @ xs @ drop (nat i) (rp_items r))
      \<or> RopeList_InsertAt r i xs = Some (r, False) \<and> \<not> (0 \<le> i \<and> i \<le> int (length (rp_items r)))" for i xs
    using RopeList_InsertAt_spec [OF inv, of i xs] len by (auto simp: RopeList_InsertAt_def)
  have "rp_inv (fst (rp_step marshal c r))
      \<and> rp_spec marshal c (rp_items r) = (rp_items (fst (rp_step marshal c r)), snd (rp_step marshal c r))"
  proof (cases c)
    case (RpAdd xs)
    then show ?thesis using add [of xs] by (auto simp: rp_unit_def rp_call_def)
  next
    case (RpMerge o')
    then show ?thesis using mrg [of o'] by (auto simp: rp_unit_def rp_call_def)
  next
    case (RpMergeSlice xs)
    then show ?thesis using add [of xs] by (auto simp: rp_unit_def rp_call_def RopeList_MergeSlice_def)
  next
    case (RpAddAt i x)
    then show ?thesis using RopeList_InsertAt_spec [OF inv, of i "[x]"] inv len
      by (cases "0 \<le> i \<and> i \<le> int (length (rp_items r))")
        (auto simp: rp_call_def RopeList_AddAt_def RopeList_InsertAt_def)
  next
    case (RpInsertAt i xs)
    then show ?thesis using RopeList_InsertAt_spec [OF inv, of i xs] inv len
      by (cases "0 \<le> i \<and> i \<le> int (length (rp_items r))")
        (auto simp: rp_call_def RopeList_AddAllAt_def RopeList_InsertAt_def)
  next
    case (RpGet i)
    then show ?thesis using RopeList_edits(3) [OF inv, of i] RopeList_out_of_range(3) [OF inv, of i] inv
      by (cases "in_range i (rp_items r)") (auto simp: rp_call_def RopeList_GetOption_def)
  next
    case (RpSet i x)
    then show ?thesis using RopeList_edits(1) [OF inv, of i x] RopeList_out_of_range(1) [OF inv, of i x] inv
      by (cases "in_range i (rp_items r)") (auto simp: rp_call_def)
  next
    case (RpRemoveAt i)
    then show ?thesis using RopeList_edits(2) [OF inv, of i] RopeList_out_of_range(2) [OF inv, of i] inv
      by (cases "in_range i (rp_items r)") (auto simp: rp_call_def RopeList_RemoveAtOption_def)
  next
    case (RpRemoveIf P)
    then show ?thesis
    proof (cases P)
      case None
      then show ?thesis using RpRemoveIf inv by (simp add: rp_call_def RopeList_RemoveIf_def)
    next
      case (Some Q)
      then show ?thesis using RpRemoveIf bulk(1-3) [of Q]
        by (simp add: rp_call_def split: prod.split) (metis fst_conv snd_conv)
    qed
  next
    case (RpSetAllIndexed f)
    then show ?thesis
    proof (cases f)
      case None
      then show ?thesis using RpSetAllIndexed inv by (simp add: rp_call_def RopeList_SetAllIndexed_def)
    next
      case (Some g)
      then show ?thesis using RpSetAllIndexed bulk(4-6) [of g]
        by (simp add: rp_call_def split: prod.split) (metis fst_conv snd_conv)
    qed
  next
    case (RpSetAll f)
    then show ?thesis
    proof (cases f)
      case None
      then show ?thesis using RpSetAll inv rp_invD(4) [OF inv]
        by (auto simp: rp_call_def RopeList_SetAll_def RopeList_SetAllIndexed_def)
    next
      case (Some g)
      then show ?thesis using RpSetAll bulk(4-6) [of "\<lambda>_ x. g x"] all
        by (simp add: rp_call_def RopeList_SetAll_def split: prod.split) (metis fst_conv snd_conv)
    qed
  next
    case (RpRange P)
    then show ?thesis using RopeList_Range_spec [OF inv, of "\<lambda>acc x. (acc @ [x], the P x)" "[]"] inv
      by (cases P) (simp add: rp_call_def RopeList_Range_def, simp add: rp_call_def range_until_collect del: One_nat_def)
  qed (use inv len clone clear in \<open>auto simp: RopeList_Len_def RopeList_IsEmpty_def RopeList_ToJSON_def\<close>)
  then show "rp_inv (fst (rp_step marshal c r))"
    and "rp_spec marshal c (rp_items r) = (rp_items (fst (rp_step marshal c r)), snd (rp_step marshal c r))"
    by blast+
qed

lemma rp_inv_new: "rp_inv (NewRopeList xs) \<and> rp_items (NewRopeList xs) = xs"
  using buildRope_spec [of xs] by (auto simp: NewRopeList_def rp_inv_def rp_items_def rope_good_def)

text \<open>
  C5. Over any history of calls on a rope made with \<open>NewRopeList\<close>, every call answers what it would answer
  on a plain list: inserts of one or many items, removals, replacements, reads, traversals, bulk updates,
  merges, copies and JSON output. No nil node is followed and no leaf is indexed out of its bounds. An index
  out of range is refused with \<open>false\<close> and changes nothing, in \<open>InsertAt\<close> too, whose comment announces a panic;
  the one call that panics is \<open>SetAll\<close> with a nil function on a rope that is not empty.
\<close>

theorem rope_refines_list:
  "snd (run (rp_step marshal) cs (NewRopeList xs)) = snd (run (rp_spec marshal) cs xs)"
  using rp_ref.run_results [of "NewRopeList xs" marshal cs] rp_inv_new [of xs] by simp

text \<open>
  C20. After any history the depth of the rope is logarithmic in its length: it is at most \<open>127 + k\<close>
  when the length is at most \<open>128 * (5/4)^k\<close>, because a node of more than 128 items keeps each child
  at four fifths of its size or less.
\<close>

theorem rope_depth_logarithmic:
  assumes "rp_len (fst (run (rp_step marshal) cs (NewRopeList xs))) * 4 ^ k \<le> 128 * 5 ^ k"
  shows "rope_depth (rp_root (fst (run (rp_step marshal) cs (NewRopeList xs)))) \<le> 127 + k"
proof -
  let ?r = "fst (run (rp_step marshal) cs (NewRopeList xs))"
  have inv: "rp_inv ?r" using rp_ref.run_inv rp_inv_new by blast
  have "length (ritems (rp_root ?r)) * 4 ^ k \<le> 128 * 5 ^ k"
    using assms rp_invD(3) [OF inv] by (simp add: rp_items_def)
  then show ?thesis by (rule depth_log [OF rp_invD(1) [OF inv]])
qed

lemma rope_depth_logarithmic_witness:
  "rp_len (fst (run (rp_step (\<lambda>_. Inr [])) [RpAdd [1, 2], RpRemoveAt 0] (NewRopeList [0 :: nat]))) * 4 ^ 0 \<le> 128 * 5 ^ 0
   \<and> rope_depth (rp_root (fst (run (rp_step (\<lambda>_. Inr [])) [RpAdd [1, 2], RpRemoveAt 0] (NewRopeList [0 :: nat])))) \<le> 127 + 0"
proof -
  define r where "r = fst (run (rp_step (\<lambda>_. Inr [])) [RpAdd [1, 2], RpRemoveAt 0] (NewRopeList [0 :: nat]))"
  have inv: "rp_inv r" unfolding r_def using rp_ref.run_inv rp_inv_new by blast
  have "rp_items r = fst (run (rp_spec (\<lambda>_. Inr [])) [RpAdd [1, 2], RpRemoveAt 0] (rp_items (NewRopeList [0])))"
    unfolding r_def by (rule rp_ref.run_state) (simp add: rp_inv_new)
  then have "rp_items r = [1, 2]" by (simp add: rp_inv_new in_range_def)
  then have "rp_len r * 4 ^ 0 \<le> 128 * 5 ^ 0" using rp_invD(3) [OF inv] by simp
  then show ?thesis using rope_depth_logarithmic unfolding r_def by blast
qed

end
