(* ===== verification/Interval_RangeSet.thy ===== *)
theory Interval_RangeSet
  imports Ser_Cache
begin

text \<open>
  \<^verbatim>\<open>collectionx/interval\<close>: the half-open \<open>Range\<close> (\<^verbatim>\<open>range.go\<close>) and the normalized
  \<open>RangeSet\<close> (\<^verbatim>\<open>range_set.go\<close>, with the JSON methods of \<^verbatim>\<open>json.go\<close>). The element type is any
  linear order (Go's \<open>cmp.Ordered\<close>; the NaN values of floating point, which are not ordered, are
  outside the model). The invariant \<open>rs_wf\<close> says the stored ranges are valid, ascending and
  separated by a gap; \<open>rs_points\<close> is the set they denote. Shown: each operation keeps the
  invariant and acts on the points as set union, difference, membership and intersection test;
  the normal form is unique; the derived caches always agree with the ranges.
\<close>

subsection \<open>Range\<close>

record 'a grange =
  Start :: 'a
  End :: 'a

definition Range_IsValid :: "'a::linorder grange \<Rightarrow> bool" where
  "Range_IsValid r \<longleftrightarrow> Start r < End r"

definition NewRange :: "'a::linorder \<Rightarrow> 'a \<Rightarrow> 'a grange \<times> bool" where
  "NewRange start stop = (let r = \<lparr>Start = start, End = stop\<rparr> in (r, Range_IsValid r))"

definition Range_Contains :: "'a::linorder grange \<Rightarrow> 'a \<Rightarrow> bool" where
  "Range_Contains r v \<longleftrightarrow> Start r \<le> v \<and> v < End r"

definition Range_Overlaps :: "'a::linorder grange \<Rightarrow> 'a grange \<Rightarrow> bool" where
  "Range_Overlaps r other \<longleftrightarrow> Start r < End other \<and> Start other < End r"

definition Range_IsAdjacent :: "'a::linorder grange \<Rightarrow> 'a grange \<Rightarrow> bool" where
  "Range_IsAdjacent r other \<longleftrightarrow> End r = Start other \<or> End other = Start r"

definition Range_Merge :: "'a::linorder grange \<Rightarrow> 'a grange \<Rightarrow> 'a grange option" where
  "Range_Merge r other =
     (if \<not> Range_IsValid r \<or> \<not> Range_IsValid other then None
      else if \<not> Range_Overlaps r other \<and> \<not> Range_IsAdjacent r other then None
      else let start = (if Start other < Start r then Start other else Start r);
               stop = (if End other > End r then End other else End r)
           in Some \<lparr>Start = start, End = stop\<rparr>)"

definition rpoints :: "'a::linorder grange \<Rightarrow> 'a set" where
  "rpoints r = {Start r ..< End r}"

lemma Range_Contains_rpoints [simp]: "Range_Contains r v \<longleftrightarrow> v \<in> rpoints r"
  by (simp add: Range_Contains_def rpoints_def)

lemma rpoints_make [simp]: "rpoints \<lparr>Start = a, End = b\<rparr> = {a ..< b}"
  by (simp add: rpoints_def)

lemma rpoints_eq_empty [simp]: "rpoints r = {} \<longleftrightarrow> \<not> Range_IsValid r"
  by (simp add: rpoints_def Range_IsValid_def not_less)

lemma rpoints_invalid [simp]: "\<not> Range_IsValid r \<Longrightarrow> rpoints r = {}"
  by simp

text \<open>Overlapping half-open ranges share a point: the later of the two starts.\<close>

lemma ivl_Int_nonempty:
  fixes a b c d :: "'a::linorder"
  assumes "a < b" and "c < d"
  shows "{a ..< b} \<inter> {c ..< d} \<noteq> {} \<longleftrightarrow> a < d \<and> c < b"
proof
  assume "{a ..< b} \<inter> {c ..< d} \<noteq> {}"
  then show "a < d \<and> c < b" by fastforce
next
  assume "a < d \<and> c < b"
  with assms have "max a c \<in> {a ..< b} \<inter> {c ..< d}" by auto
  then show "{a ..< b} \<inter> {c ..< d} \<noteq> {}" by blast
qed

lemma Range_Overlaps_iff:
  "Range_IsValid r \<Longrightarrow> Range_IsValid s \<Longrightarrow> Range_Overlaps r s \<longleftrightarrow> rpoints r \<inter> rpoints s \<noteq> {}"
  using ivl_Int_nonempty [of "Start r" "End r" "Start s" "End s"]
  by (simp add: Range_Overlaps_def rpoints_def Range_IsValid_def)

lemma Range_Merge_points:
  assumes "Range_Merge r s = Some t"
  shows "Range_IsValid t" and "rpoints t = rpoints r \<union> rpoints s"
  using assms
  by (auto simp: Range_Merge_def Range_IsValid_def Range_Overlaps_def Range_IsAdjacent_def
      rpoints_def Let_def split: if_splits)

subsection \<open>RangeSet: state and operations\<close>

record 'a rangeset =
  ranges :: "'a grange list"
  rangesCache :: "'a grange list"
  rangesDirty :: bool
  rs_ser :: ser_cache

definition NewRangeSet :: "'a::linorder rangeset" where
  "NewRangeSet = \<lparr>ranges = [], rangesCache = [], rangesDirty = False, rs_ser = ser_zero\<rparr>"

definition rs_invalidateDerivedCaches :: "'a::linorder rangeset \<Rightarrow> 'a rangeset" where
  "rs_invalidateDerivedCaches s =
     s\<lparr>rangesCache := [], rangesDirty := True, rs_ser := ser_invalidate (rs_ser s)\<rparr>"

definition findFirstRangeEndingAtOrAfter :: "'a::linorder grange list \<Rightarrow> 'a \<Rightarrow> nat" where
  "findFirstRangeEndingAtOrAfter rs point = go_search (length rs) (\<lambda>i. End (rs ! i) \<ge> point)"

definition findFirstRangeEndingAfter :: "'a::linorder grange list \<Rightarrow> 'a \<Rightarrow> nat" where
  "findFirstRangeEndingAfter rs point = go_search (length rs) (\<lambda>i. End (rs ! i) > point)"

definition spliceRanges ::
    "'a::linorder grange list \<Rightarrow> nat \<Rightarrow> nat \<Rightarrow> 'a grange list \<Rightarrow> 'a grange list" where
  "spliceRanges rs start stop replacement = take start rs @ replacement @ drop stop rs"

function mergeSetRanges ::
    "'a::linorder grange list \<Rightarrow> nat \<Rightarrow> 'a grange \<Rightarrow> 'a grange \<times> nat" where
  "mergeSetRanges rs stop merged =
     (if stop < length rs
      then let current = rs ! stop
           in if Start current > End merged then (merged, stop)
              else let merged1 = (if Start current < Start merged
                                  then merged\<lparr>Start := Start current\<rparr> else merged);
                       merged2 = (if End current > End merged1
                                  then merged1\<lparr>End := End current\<rparr> else merged1)
                   in mergeSetRanges rs (stop + 1) merged2
      else (merged, stop))"
  by pat_completeness auto
termination
  by (relation "measure (\<lambda>(rs, stop, m). length rs - stop)") auto

declare mergeSetRanges.simps [simp del]

definition addRangeToSet :: "'a::linorder grange list \<Rightarrow> 'a grange \<Rightarrow> 'a grange list" where
  "addRangeToSet rs input =
     (if rs = [] then rs @ [input]
      else let first = findFirstRangeEndingAtOrAfter rs (Start input)
           in if first = length rs then rs @ [input]
              else if Start (rs ! first) > End input then spliceRanges rs first first [input]
              else case mergeSetRanges rs first input of
                     (merged, stop) \<Rightarrow> spliceRanges rs first stop [merged])"

definition trimSetRange ::
    "'a::linorder grange \<Rightarrow> 'a grange \<Rightarrow> 'a grange list \<times> bool" where
  "trimSetRange current cutr =
     (let fragments = (if Start current < Start cutr
                       then [\<lparr>Start = Start current, End = Start cutr\<rparr>] else [])
      in if End cutr < End current
         then (fragments @ [\<lparr>Start = End cutr, End = End current\<rparr>], True)
         else (fragments, False))"

function removeRangeLoop ::
    "'a::linorder grange list \<Rightarrow> 'a grange \<Rightarrow> nat \<Rightarrow> 'a grange list \<Rightarrow> bool
     \<Rightarrow> 'a grange list \<times> bool" where
  "removeRangeLoop rs cutr index acc changed =
     (if index < length rs
      then let current = rs ! index
           in if Start current \<ge> End cutr then (acc @ drop index rs, changed)
              else case trimSetRange current cutr of
                     (fragments, stop) \<Rightarrow>
                       if stop then (acc @ fragments @ drop (index + 1) rs, True)
                       else removeRangeLoop rs cutr (index + 1) (acc @ fragments) True
      else (acc, changed))"
  by pat_completeness auto
termination
  by (relation "measure (\<lambda>(rs, cutr, index, acc, changed). length rs - index)") auto

declare removeRangeLoop.simps [simp del]

definition removeRangeFromSet ::
    "'a::linorder grange list \<Rightarrow> 'a grange \<Rightarrow> 'a grange list \<times> bool" where
  "removeRangeFromSet rs cutr =
     (let first = findFirstRangeEndingAfter rs (Start cutr)
      in if first = length rs then (rs, False)
         else removeRangeLoop rs cutr first (take first rs) False)"

primrec RangeSet_AddRange ::
    "'a::linorder rangeset option \<Rightarrow> 'a grange \<Rightarrow> 'a rangeset option \<times> bool" where
  "RangeSet_AddRange None r = (None, False)"
| "RangeSet_AddRange (Some s) r =
     (if \<not> Range_IsValid r then (Some s, False)
      else (Some (rs_invalidateDerivedCaches (s\<lparr>ranges := addRangeToSet (ranges s) r\<rparr>)), True))"

definition RangeSet_Add ::
    "'a::linorder rangeset option \<Rightarrow> 'a \<Rightarrow> 'a \<Rightarrow> 'a rangeset option \<times> bool" where
  "RangeSet_Add p start stop = RangeSet_AddRange p \<lparr>Start = start, End = stop\<rparr>"

primrec RangeSet_Remove ::
    "'a::linorder rangeset option \<Rightarrow> 'a \<Rightarrow> 'a \<Rightarrow> 'a rangeset option \<times> bool" where
  "RangeSet_Remove None start stop = (None, False)"
| "RangeSet_Remove (Some s) start stop =
     (if ranges s = [] then (Some s, False)
      else let cutr = \<lparr>Start = start, End = stop\<rparr>
           in if \<not> Range_IsValid cutr then (Some s, False)
              else case removeRangeFromSet (ranges s) cutr of
                     (nxt, changed) \<Rightarrow>
                       if changed
                       then (Some (rs_invalidateDerivedCaches (s\<lparr>ranges := nxt\<rparr>)), changed)
                       else (Some s, changed))"

primrec RangeSet_Contains :: "'a::linorder rangeset option \<Rightarrow> 'a \<Rightarrow> bool" where
  "RangeSet_Contains None v = False"
| "RangeSet_Contains (Some s) v =
     (if ranges s = [] then False
      else let index = go_search (length (ranges s)) (\<lambda>i. End (ranges s ! i) > v)
           in index < length (ranges s) \<and> Range_Contains (ranges s ! index) v)"

primrec RangeSet_Overlaps :: "'a::linorder rangeset option \<Rightarrow> 'a \<Rightarrow> 'a \<Rightarrow> bool" where
  "RangeSet_Overlaps None start stop = False"
| "RangeSet_Overlaps (Some s) start stop =
     (if ranges s = [] then False
      else let input = \<lparr>Start = start, End = stop\<rparr>
           in if \<not> Range_IsValid input then False
              else let index = go_search (length (ranges s))
                                 (\<lambda>i. End (ranges s ! i) > Start input)
                   in index < length (ranges s) \<and> Start (ranges s ! index) < End input)"

primrec RangeSet_Ranges ::
    "'a::linorder rangeset option \<Rightarrow> 'a rangeset option \<times> 'a grange list" where
  "RangeSet_Ranges None = (None, [])"
| "RangeSet_Ranges (Some s) =
     (if ranges s = [] then (Some s, [])
      else if \<not> rangesDirty s \<and> rangesCache s \<noteq> [] then (Some s, rangesCache s)
      else (Some (s\<lparr>rangesCache := ranges s, rangesDirty := False\<rparr>), ranges s))"

primrec RangeSet_Len :: "'a::linorder rangeset option \<Rightarrow> nat" where
  "RangeSet_Len None = 0"
| "RangeSet_Len (Some s) = length (ranges s)"

definition RangeSet_IsEmpty :: "'a::linorder rangeset option \<Rightarrow> bool" where
  "RangeSet_IsEmpty p \<longleftrightarrow> RangeSet_Len p = 0"

primrec RangeSet_Clear :: "'a::linorder rangeset option \<Rightarrow> 'a rangeset option" where
  "RangeSet_Clear None = None"
| "RangeSet_Clear (Some s) =
     Some (s\<lparr>ranges := [], rangesCache := [], rangesDirty := False, rs_ser := ser_zero\<rparr>)"

fun RangeSet_Range ::
    "'a::linorder rangeset option \<Rightarrow> ('st \<Rightarrow> 'a grange \<Rightarrow> 'st \<times> bool) option \<Rightarrow> 'st \<Rightarrow> 'st" where
  "RangeSet_Range (Some s) (Some fn) st = range_until fn st (ranges s)"
| "RangeSet_Range _ _ st = st"

primrec RangeSet_ToJSON ::
    "('a::linorder grange list \<Rightarrow> 'e + bytes) \<Rightarrow> 'a rangeset option
     \<Rightarrow> 'a rangeset option \<times> ('e + bytes)" where
  "RangeSet_ToJSON marshal None = (None, marshal (snd (RangeSet_Ranges (None :: 'a rangeset option))))"
| "RangeSet_ToJSON marshal (Some s) =
     (case (jsonDirty (rs_ser s), jsonCache (rs_ser s)) of
        (False, Some d) \<Rightarrow> (Some s, Inr d)
      | _ \<Rightarrow>
         (case RangeSet_Ranges (Some s) of
            (p, rs) \<Rightarrow>
              (case marshal rs of
                 Inl e \<Rightarrow> (p, Inl e)
               | Inr d \<Rightarrow>
                   (map_option (\<lambda>t. t\<lparr>rs_ser := ser_store d (rs_ser t)\<rparr>) p, Inr d))))"

definition RangeSet_String ::
    "('a::linorder grange list \<Rightarrow> 'e + bytes) \<Rightarrow> 'a rangeset option
     \<Rightarrow> 'a rangeset option \<times> bytes" where
  "RangeSet_String marshal p =
     (case p of
        Some s \<Rightarrow>
          if \<not> jsonDirty (rs_ser s) \<and> stringCache (rs_ser s) \<noteq> [] then (p, stringCache (rs_ser s))
          else (case RangeSet_ToJSON marshal p of
                  (q, Inl _) \<Rightarrow> (q, ''[]'') | (q, Inr d) \<Rightarrow> (q, d))
      | None \<Rightarrow>
          (case RangeSet_ToJSON marshal p of
             (q, Inl _) \<Rightarrow> (q, ''[]'') | (q, Inr d) \<Rightarrow> (q, d)))"

subsection \<open>Invariant and denotation\<close>

definition rs_wf :: "'a::linorder grange list \<Rightarrow> bool" where
  "rs_wf rs \<longleftrightarrow> (\<forall>r\<in>set rs. Range_IsValid r) \<and> sorted_wrt (\<lambda>a b. End a < Start b) rs"

definition rs_points :: "'a::linorder grange list \<Rightarrow> 'a set" where
  "rs_points rs = (\<Union>r\<in>set rs. rpoints r)"

lemma rs_points_simps [simp]:
  "rs_points [] = {}"
  "rs_points (r # rs) = rpoints r \<union> rs_points rs"
  "rs_points (xs @ ys) = rs_points xs \<union> rs_points ys"
  by (auto simp: rs_points_def)

lemma rs_wf_simps [simp]:
  "rs_wf []"
  "rs_wf (r # rs) \<longleftrightarrow> Range_IsValid r \<and> (\<forall>x\<in>set rs. End r < Start x) \<and> rs_wf rs"
  "rs_wf (xs @ ys) \<longleftrightarrow> rs_wf xs \<and> rs_wf ys \<and> (\<forall>x\<in>set xs. \<forall>y\<in>set ys. End x < Start y)"
  by (auto simp: rs_wf_def sorted_wrt_append)

lemma rs_points_empty_iff: "rs_wf rs \<Longrightarrow> rs_points rs = {} \<longleftrightarrow> rs = []"
  by (cases rs) auto

lemma rs_wf_ends: "rs_wf rs \<Longrightarrow> sorted_wrt (\<lambda>a b. End a < End b) rs"
  by (induction rs) (fastforce simp: rs_wf_def Range_IsValid_def)+

lemma findFirst_at_or_after:
  assumes "rs_wf rs"
  shows "findFirstRangeEndingAtOrAfter rs p = length (takeWhile (\<lambda>r. End r < p) rs)"
proof -
  have "sorted_wrt (\<lambda>a b. End a \<ge> p \<longrightarrow> End b \<ge> p) rs"
    by (rule sorted_wrt_mono_rel [OF _ rs_wf_ends [OF assms]]) auto
  from go_search_takeWhile [OF this] show ?thesis
    by (simp add: findFirstRangeEndingAtOrAfter_def not_le)
qed

lemma search_end_after:
  assumes "rs_wf rs"
  shows "go_search (length rs) (\<lambda>i. End (rs ! i) > p) = length (takeWhile (\<lambda>r. End r \<le> p) rs)"
proof -
  have "sorted_wrt (\<lambda>a b. End a > p \<longrightarrow> End b > p) rs"
    by (rule sorted_wrt_mono_rel [OF _ rs_wf_ends [OF assms]]) auto
  from go_search_takeWhile [OF this] show ?thesis by (simp add: not_less)
qed

text \<open>A wf list split at a bound on the ends.\<close>

lemma rs_wf_split:
  assumes "rs_wf rs"
  shows "rs_wf (takeWhile P rs)" and "rs_wf (dropWhile P rs)"
    and "x \<in> set (takeWhile P rs) \<Longrightarrow> y \<in> set (dropWhile P rs) \<Longrightarrow> End x < Start y"
proof -
  have "rs_wf (takeWhile P rs @ dropWhile P rs)" using assms by simp
  then show "rs_wf (takeWhile P rs)" and "rs_wf (dropWhile P rs)"
    and "x \<in> set (takeWhile P rs) \<Longrightarrow> y \<in> set (dropWhile P rs) \<Longrightarrow> End x < Start y"
    by (simp_all only: rs_wf_simps)
qed

lemma dropWhile_ends:
  assumes "rs_wf rs" and "y \<in> set (dropWhile (\<lambda>r. End r < p) rs)"
  shows "p \<le> End y"
  using assms
proof (induction rs)
  case (Cons a rs)
  then show ?case
    by (auto simp: Range_IsValid_def rs_wf_def split: if_splits) fastforce
qed simp

lemma dropWhile_ends_le:
  assumes "rs_wf rs" and "y \<in> set (dropWhile (\<lambda>r. End r \<le> p) rs)"
  shows "p < End y"
  using assms
proof (induction rs)
  case (Cons a rs)
  then show ?case
    by (auto simp: Range_IsValid_def rs_wf_def split: if_splits) fastforce
qed simp

lemma rs_points_split: "rs_points rs = rs_points (takeWhile P rs) \<union> rs_points (dropWhile P rs)"
  by (metis rs_points_simps(3) takeWhile_dropWhile_id)

subsection \<open>Adding a range\<close>

text \<open>The merge loop on the suffix it walks: the merged range and the ranges it did not reach.\<close>

definition merge_step :: "'a::linorder grange \<Rightarrow> 'a grange \<Rightarrow> 'a grange" where
  "merge_step m c = \<lparr>Start = min (Start c) (Start m), End = max (End c) (End m)\<rparr>"

fun merge_run :: "'a::linorder grange list \<Rightarrow> 'a grange \<Rightarrow> 'a grange \<times> 'a grange list" where
  "merge_run [] m = (m, [])"
| "merge_run (c # cs) m =
     (if Start c > End m then (m, c # cs) else merge_run cs (merge_step m c))"

lemma mergeSetRanges_run:
  "i \<le> length rs \<Longrightarrow> mergeSetRanges rs i m
     = (case merge_run (drop i rs) m of (m', rest) \<Rightarrow> (m', length rs - length rest))"
proof (induction rs i m rule: mergeSetRanges.induct)
  case (1 rs i m)
  show ?case
  proof (cases "i < length rs")
    case True
    note d = Cons_nth_drop_Suc [OF True, symmetric]
    have ms: "(let m1 = (if Start (rs ! i) < Start m then m\<lparr>Start := Start (rs ! i)\<rparr> else m)
               in if End (rs ! i) > End m1 then m1\<lparr>End := End (rs ! i)\<rparr> else m1)
              = merge_step m (rs ! i)"
      by (cases m) (auto simp: merge_step_def min_def max_def Let_def)
    show ?thesis
    proof (cases "Start (rs ! i) > End m")
      case True
      then show ?thesis
        using \<open>i < length rs\<close> by (simp add: mergeSetRanges.simps [of rs i m] d)
    next
      case False
      then have "mergeSetRanges rs i m = mergeSetRanges rs (i + 1) (merge_step m (rs ! i))"
        using True ms by (simp add: mergeSetRanges.simps [of rs i m] Let_def)
      also have "\<dots> = (case merge_run (drop (i + 1) rs) (merge_step m (rs ! i)) of
                        (m', rest) \<Rightarrow> (m', length rs - length rest))"
        using "1.IH" [OF True refl False refl refl] True ms by (simp add: Let_def)
      finally show ?thesis using False by (simp add: d)
    qed
  next
    case False
    then have "i = length rs" using "1.prems" by simp
    then show ?thesis by (simp add: mergeSetRanges.simps)
  qed
qed

lemma merge_run_spec:
  assumes "merge_run cs m = (m', rest)" and "rs_wf cs" and "Range_IsValid m"
    and "\<forall>c\<in>set cs. Start m \<le> End c"
  shows "Range_IsValid m' \<and> rs_wf rest \<and> (\<forall>r\<in>set rest. End m' < Start r)
         \<and> rpoints m' \<union> rs_points rest = rpoints m \<union> rs_points cs
         \<and> set rest \<subseteq> set cs \<and> Start m' \<in> insert (Start m) (Start ` set cs)"
  using assms
proof (induction cs arbitrary: m)
  case (Cons c cs)
  show ?case
  proof (cases "Start c > End m")
    case True
    with Cons.prems have "m' = m" "rest = c # cs" by auto
    with Cons.prems True show ?thesis by (fastforce simp: Range_IsValid_def)
  next
    case False
    have v: "Range_IsValid (merge_step m c)"
      using Cons.prems by (auto simp: merge_step_def Range_IsValid_def min_def max_def)
    have e: "\<forall>x\<in>set cs. Start (merge_step m c) \<le> End x"
      using Cons.prems by (auto simp: merge_step_def min_def)
    have p: "rpoints (merge_step m c) = rpoints m \<union> rpoints c"
      using Cons.prems False
      by (auto simp: merge_step_def rpoints_def min_def max_def Range_IsValid_def not_less)
    have st: "Start (merge_step m c) \<in> {Start m, Start c}"
      by (auto simp: merge_step_def min_def)
    have "merge_run cs (merge_step m c) = (m', rest)" and "rs_wf cs"
      using Cons.prems False by auto
    from Cons.IH [OF this v e] st show ?thesis by (auto simp: p)
  qed
qed auto

lemma merge_run_suffix: "merge_run cs m = (m', rest) \<Longrightarrow> \<exists>pre. cs = pre @ rest"
proof (induction cs arbitrary: m)
  case (Cons c cs)
  then show ?case by (cases "Start c > End m") (auto, metis append_Cons)
qed auto

lemma addRangeToSet_split:
  assumes "rs_wf rs"
  shows "addRangeToSet rs input =
           takeWhile (\<lambda>r. End r < Start input) rs @
           (case merge_run (dropWhile (\<lambda>r. End r < Start input) rs) input of
              (m, rest) \<Rightarrow> m # rest)"
proof -
  let ?P = "\<lambda>r. End r < Start input"
  let ?n = "length (takeWhile ?P rs)"
  have n: "?n \<le> length rs" by (rule length_takeWhile_le)
  show ?thesis
  proof (cases "dropWhile ?P rs")
    case Nil
    then have "takeWhile ?P rs = rs" by (metis append_Nil2 takeWhile_dropWhile_id)
    with Nil show ?thesis
      by (simp add: addRangeToSet_def findFirst_at_or_after [OF assms])
  next
    case (Cons c cs)
    have "dropWhile ?P rs \<noteq> []" by (simp add: Cons)
    then have ne: "rs \<noteq> []" and nl: "?n \<noteq> length rs" and nth: "rs ! ?n = c"
      using nth_length_takeWhile_hd [of ?P rs] Cons by (auto)
    obtain m' rest where run: "merge_run (c # cs) input = (m', rest)" by fastforce
    then obtain pre where pre: "c # cs = pre @ rest" using merge_run_suffix by blast
    have rs: "rs = takeWhile ?P rs @ pre @ rest"
      using Cons pre by (metis takeWhile_dropWhile_id)
    have "drop (length rs - length rest) rs = rest"
      by (subst (2) rs, subst rs) simp
    then show ?thesis
      using ne nl nth run n Cons
      by (auto simp: addRangeToSet_def findFirst_at_or_after [OF assms] mergeSetRanges_run
          spliceRanges_def Let_def)
  qed
qed

lemma addRangeToSet_correct:
  assumes wf: "rs_wf rs" and v: "Range_IsValid input"
  shows "rs_wf (addRangeToSet rs input)"
    and "rs_points (addRangeToSet rs input) = rs_points rs \<union> rpoints input"
proof -
  let ?P = "\<lambda>r. End r < Start input"
  obtain m rest where run: "merge_run (dropWhile ?P rs) input = (m, rest)" by fastforce
  note spec = merge_run_spec [OF run rs_wf_split(2) [OF wf] v]
  have "\<forall>c\<in>set (dropWhile ?P rs). Start input \<le> End c"
    using dropWhile_ends [OF wf] by blast
  note spec = spec [OF this]
  have add: "addRangeToSet rs input = takeWhile ?P rs @ m # rest"
    using addRangeToSet_split [OF wf, of input] run by simp
  have "End x < Start m" if "x \<in> set (takeWhile ?P rs)" for x
    using spec that set_takeWhileD [OF that] rs_wf_split(3) [OF wf that] by auto
  moreover have "End x < Start y" if "x \<in> set (takeWhile ?P rs)" "y \<in> set rest" for x y
    using spec that(2) rs_wf_split(3) [OF wf that(1)] by blast
  ultimately show "rs_wf (addRangeToSet rs input)"
    using spec rs_wf_split(1) [OF wf, of ?P] by (simp add: add)
  show "rs_points (addRangeToSet rs input) = rs_points rs \<union> rpoints input"
    using spec rs_points_split [of rs ?P] by (simp add: add) blast
qed

subsection \<open>Removing a range\<close>

fun remove_run :: "'a::linorder grange list \<Rightarrow> 'a grange \<Rightarrow> 'a grange list \<times> bool" where
  "remove_run [] c = ([], False)"
| "remove_run (x # xs) c =
     (if Start x \<ge> End c then (x # xs, False)
      else case trimSetRange x c of
             (fr, stop) \<Rightarrow> if stop then (fr @ xs, True) else (fr @ fst (remove_run xs c), True))"

lemma removeRangeLoop_run:
  "i \<le> length rs \<Longrightarrow> removeRangeLoop rs c i acc ch
     = (acc @ fst (remove_run (drop i rs) c), ch \<or> snd (remove_run (drop i rs) c))"
proof (induction rs c i acc ch rule: removeRangeLoop.induct)
  case (1 rs c i acc ch)
  show ?case
  proof (cases "i < length rs")
    case True
    note d = Cons_nth_drop_Suc [OF True, symmetric]
    obtain fr stop where t: "trimSetRange (rs ! i) c = (fr, stop)" by fastforce
    consider "Start (rs ! i) \<ge> End c" | "\<not> Start (rs ! i) \<ge> End c" "stop"
      | "\<not> Start (rs ! i) \<ge> End c" "\<not> stop" by blast
    then show ?thesis
    proof cases
      case 3
      with "1.IH" [OF True refl 3(1) t [symmetric] 3(2)] True t show ?thesis
        by (simp add: removeRangeLoop.simps [of rs c i acc ch] d)
    qed (use True t in \<open>simp_all add: removeRangeLoop.simps [of rs c i acc ch] d\<close>)
  next
    case False
    then have "i = length rs" using "1.prems" by simp
    then show ?thesis by (simp add: removeRangeLoop.simps)
  qed
qed

lemma trimSetRange_spec:
  assumes "trimSetRange x c = (fr, stop)" and "Range_IsValid x" and "Range_IsValid c"
    and "Start c < End x" and "Start x < End c"
  shows "rs_wf fr" and "rs_points fr = rpoints x - rpoints c"
    and "\<And>f. f \<in> set fr \<Longrightarrow> Start x \<le> Start f \<and> End f \<le> End x"
    and "stop \<longleftrightarrow> End c < End x" and "\<not> stop \<Longrightarrow> f \<in> set fr \<Longrightarrow> End f \<le> Start c"
  using assms
  by (auto simp: trimSetRange_def Range_IsValid_def rpoints_def Let_def split: if_splits)

lemma remove_run_spec:
  assumes "rs_wf xs" and "Range_IsValid c" and "\<forall>x\<in>set xs. Start c < End x"
  shows "rs_wf (fst (remove_run xs c))
         \<and> rs_points (fst (remove_run xs c)) = rs_points xs - rpoints c
         \<and> (snd (remove_run xs c) \<longleftrightarrow> rs_points xs \<inter> rpoints c \<noteq> {})
         \<and> (\<forall>y\<in>set (fst (remove_run xs c)). \<exists>x\<in>set xs. Start x \<le> Start y \<and> End y \<le> End x)"
  using assms
proof (induction xs)
  case (Cons x xs)
  have v: "Range_IsValid x" and lt: "Start c < End x" and wf: "rs_wf xs"
    and gap: "\<forall>y\<in>set xs. End x < Start y" using Cons.prems by auto
  show ?case
  proof (cases "Start x \<ge> End c")
    case True
    have "\<forall>y\<in>set (x # xs). End c \<le> Start y"
      using True gap v by (auto simp: Range_IsValid_def intro: order.trans less_imp_le)
    then have "rs_points (x # xs) \<inter> rpoints c = {}"
      by (fastforce simp: rs_points_def rpoints_def)
    then show ?thesis using True Cons.prems by auto
  next
    case False
    then have lt2: "Start x < End c" by simp
    obtain fr stop where t: "trimSetRange x c = (fr, stop)" by fastforce
    note tr = trimSetRange_spec [OF t v Cons.prems(2) lt lt2]
    have hit: "rpoints x \<inter> rpoints c \<noteq> {}"
      using ivl_Int_nonempty v Cons.prems(2) lt lt2
      by (auto simp: rpoints_def Range_IsValid_def)
    have IH: "rs_wf (fst (remove_run xs c))"
      "rs_points (fst (remove_run xs c)) = rs_points xs - rpoints c"
      "\<forall>y\<in>set (fst (remove_run xs c)). \<exists>z\<in>set xs. Start z \<le> Start y \<and> End y \<le> End z"
      using Cons.IH [OF wf Cons.prems(2)] Cons.prems(3) by auto
    show ?thesis
    proof (cases stop)
      case True
      have far: "rs_points xs \<inter> rpoints c = {}"
        using gap True tr(4) by (fastforce simp: rs_points_def rpoints_def)
      have "\<forall>f\<in>set fr. \<forall>y\<in>set xs. End f < Start y"
        using tr(3) gap by (meson order.strict_trans1)
      then show ?thesis
        using True lt2 t tr(1,2,3) wf far hit by (auto simp: Let_def)
    next
      case False
      have "End f < Start y" if f: "f \<in> set fr" and y: "y \<in> set (fst (remove_run xs c))" for f y
      proof -
        obtain z where "z \<in> set xs" "Start z \<le> Start y" using IH(3) y by blast
        moreover have "End f \<le> End x" using tr(3) f by blast
        ultimately show ?thesis using gap by (meson order.strict_trans1 order.strict_trans2)
      qed
      then show ?thesis
        using False lt2 t tr(1,2,3) IH hit by (auto; blast)
    qed
  qed
qed simp

lemma removeRangeFromSet_correct:
  assumes wf: "rs_wf rs" and v: "Range_IsValid c"
  shows "rs_wf (fst (removeRangeFromSet rs c))"
    and "rs_points (fst (removeRangeFromSet rs c)) = rs_points rs - rpoints c"
    and "snd (removeRangeFromSet rs c) \<longleftrightarrow> rs_points rs \<inter> rpoints c \<noteq> {}"
proof -
  let ?P = "\<lambda>r. End r \<le> Start c"
  let ?d = "dropWhile ?P rs" and ?t = "takeWhile ?P rs"
  have spec: "rs_wf (fst (remove_run ?d c))
      \<and> rs_points (fst (remove_run ?d c)) = rs_points ?d - rpoints c
      \<and> (snd (remove_run ?d c) \<longleftrightarrow> rs_points ?d \<inter> rpoints c \<noteq> {})
      \<and> (\<forall>y\<in>set (fst (remove_run ?d c)). \<exists>x\<in>set ?d. Start x \<le> Start y \<and> End y \<le> End x)"
    using remove_run_spec [OF rs_wf_split(2) [OF wf] v] dropWhile_ends_le [OF wf] by blast
  have res: "removeRangeFromSet rs c = (?t @ fst (remove_run ?d c), snd (remove_run ?d c))"
  proof (cases "?d = []")
    case True
    then have "?t = rs" by (metis append_Nil2 takeWhile_dropWhile_id)
    with True show ?thesis
      by (simp add: removeRangeFromSet_def findFirstRangeEndingAfter_def search_end_after [OF wf])
  next
    case False
    then show ?thesis
      by (simp add: removeRangeFromSet_def findFirstRangeEndingAfter_def search_end_after [OF wf]
          removeRangeLoop_run length_takeWhile_le)
  qed
  have pre: "rs_points ?t \<inter> rpoints c = {}"
    by (auto simp: rs_points_def rpoints_def dest!: set_takeWhileD)
  have "End x < Start y" if "x \<in> set ?t" "y \<in> set (fst (remove_run ?d c))" for x y
    using spec that(2) rs_wf_split(3) [OF wf that(1)] by (meson order.strict_trans2)
  then show "rs_wf (fst (removeRangeFromSet rs c))"
    using spec rs_wf_split(1) [OF wf, of ?P] by (simp add: res)
  show "rs_points (fst (removeRangeFromSet rs c)) = rs_points rs - rpoints c"
    using spec pre rs_points_split [of rs ?P] by (simp add: res) blast
  show "snd (removeRangeFromSet rs c) \<longleftrightarrow> rs_points rs \<inter> rpoints c \<noteq> {}"
    using spec pre rs_points_split [of rs ?P] by (simp add: res) blast
qed

subsection \<open>Queries\<close>

lemma search_hit:
  fixes p :: "'a::linorder"
  assumes wf: "rs_wf rs"
  defines "i \<equiv> go_search (length rs) (\<lambda>i. End (rs ! i) > p)"
  shows "i < length rs \<and> Q (rs ! i)
         \<longleftrightarrow> (\<exists>c cs. dropWhile (\<lambda>r. End r \<le> p) rs = c # cs \<and> Q c)"
proof (cases "dropWhile (\<lambda>r. End r \<le> p) rs")
  case Nil
  then show ?thesis
    by (metis i_def length_takeWhile_eq_length_iff less_irrefl list.discI search_end_after wf)
next
  case (Cons c cs)
  have ne: "dropWhile (\<lambda>r. End r \<le> p) rs \<noteq> []" by (simp add: Cons)
  then have "i < length rs" and "rs ! i = c"
    using search_end_after [OF wf, of p] nth_length_takeWhile_hd [OF ne] Cons
      length_takeWhile_le [of "\<lambda>r. End r \<le> p" rs]
    by (auto simp: i_def order_le_less)
  with Cons show ?thesis by auto
qed

lemma RangeSet_Contains_points:
  assumes wf: "rs_wf (ranges s)"
  shows "RangeSet_Contains (Some s) v \<longleftrightarrow> v \<in> rs_points (ranges s)"
proof -
  let ?P = "\<lambda>r. End r \<le> v"
  have pre: "v \<notin> rs_points (takeWhile ?P (ranges s))"
    by (auto simp: rs_points_def rpoints_def dest!: set_takeWhileD)
  have "v \<in> rs_points (ranges s)
        \<longleftrightarrow> (\<exists>c cs. dropWhile ?P (ranges s) = c # cs \<and> Range_Contains c v)"
  proof (cases "dropWhile ?P (ranges s)")
    case Nil
    then show ?thesis using rs_points_split [of "ranges s" ?P] pre by auto
  next
    case (Cons c cs)
    have "v < End c" using dropWhile_ends_le [OF wf, of c v] Cons by simp
    moreover have "\<forall>y\<in>set cs. End c < Start y"
      using rs_wf_split(2) [OF wf, of ?P] Cons by simp
    ultimately have "v \<notin> rs_points cs" by (fastforce simp: rs_points_def rpoints_def)
    then show ?thesis using rs_points_split [of "ranges s" ?P] pre Cons by auto
  qed
  then show ?thesis using search_hit [OF wf, of v "\<lambda>c. Range_Contains c v"] by auto
qed

lemma RangeSet_Overlaps_points:
  assumes wf: "rs_wf (ranges s)"
  shows "RangeSet_Overlaps (Some s) a b \<longleftrightarrow> rs_points (ranges s) \<inter> {a ..< b} \<noteq> {}"
proof (cases "a < b")
  case True
  let ?P = "\<lambda>r. End r \<le> a"
  have pre: "rs_points (takeWhile ?P (ranges s)) \<inter> {a ..< b} = {}"
    by (auto simp: rs_points_def rpoints_def dest!: set_takeWhileD)
  have "rs_points (ranges s) \<inter> {a ..< b} \<noteq> {}
        \<longleftrightarrow> (\<exists>c cs. dropWhile ?P (ranges s) = c # cs \<and> Start c < b)"
  proof (cases "dropWhile ?P (ranges s)")
    case Nil
    then show ?thesis using rs_points_split [of "ranges s" ?P] pre by auto
  next
    case (Cons c cs)
    have lt: "a < End c" using dropWhile_ends_le [OF wf, of c a] Cons by simp
    have v: "Range_IsValid c" and gap: "\<forall>y\<in>set cs. End c < Start y"
      using rs_wf_split(2) [OF wf, of ?P] Cons by simp_all
    have hit: "rpoints c \<inter> {a ..< b} \<noteq> {} \<longleftrightarrow> Start c < b"
      using ivl_Int_nonempty [of "Start c" "End c" a b] v lt True
      by (auto simp: rpoints_def Range_IsValid_def)
    have "rs_points cs \<inter> {a ..< b} = {}" if "\<not> Start c < b"
      using that gap v by (fastforce simp: rs_points_def rpoints_def Range_IsValid_def)
    then show ?thesis using rs_points_split [of "ranges s" ?P] pre Cons hit by auto
  qed
  then show ?thesis
    using True search_hit [OF wf, of a "\<lambda>c. Start c < b"] by (auto simp: Range_IsValid_def)
qed (auto simp: Range_IsValid_def)

subsection \<open>The normal form is unique\<close>

lemma rs_wf_Start_least: "rs_wf (x # xs) \<Longrightarrow> v \<in> rs_points (x # xs) \<Longrightarrow> Start x \<le> v"
  by (fastforce simp: rs_points_def rpoints_def Range_IsValid_def)

lemma rs_wf_End_gap: "rs_wf (x # xs) \<Longrightarrow> End x \<notin> rs_points (x # xs)"
  by (fastforce simp: rs_points_def rpoints_def)

lemma rs_wf_head_eq:
  assumes "rs_wf (x # xs)" and "rs_wf (y # ys)" and "rs_points (x # xs) = rs_points (y # ys)"
  shows "x = y"
proof -
  have v: "Start x < End x" "Start y < End y" using assms by (auto simp: Range_IsValid_def)
  have sx: "Start x \<in> rs_points (x # xs)" and sy: "Start y \<in> rs_points (y # ys)"
    using v by (auto simp: rpoints_def)
  then have s: "Start x = Start y"
    using rs_wf_Start_least [OF assms(1)] rs_wf_Start_least [OF assms(2)] assms(3)
    by (metis order.antisym)
  have "End x \<notin> rpoints y" and "End y \<notin> rpoints x"
    using rs_wf_End_gap [OF assms(1)] rs_wf_End_gap [OF assms(2)] assms(3) by auto
  then have "End x = End y" using s v by (auto simp: rpoints_def)
  with s show ?thesis by simp
qed

lemma rs_wf_unique: "rs_wf xs \<Longrightarrow> rs_wf ys \<Longrightarrow> rs_points xs = rs_points ys \<Longrightarrow> xs = ys"
proof (induction xs arbitrary: ys)
  case Nil
  then show ?case using rs_points_empty_iff [of ys] by simp
next
  case (Cons x xs)
  then obtain y ys' where ys: "ys = y # ys'"
    using rs_points_empty_iff [of "x # xs"] by (cases ys) auto
  have xy: "x = y" using rs_wf_head_eq Cons.prems ys by blast
  have tail: "rs_points zs = rs_points (z # zs) - rpoints z" if "rs_wf (z # zs)" for z :: "'a grange" and zs
    using that by (fastforce simp: rs_points_def rpoints_def)
  have "rs_points xs = rs_points ys'"
    using tail [OF Cons.prems(1)] tail [of y ys'] Cons.prems ys xy by simp
  then show ?case using Cons ys xy by simp
qed

text \<open>The normal form of a set of points, by its uniqueness.\<close>

definition rs_normal :: "'a::linorder set \<Rightarrow> 'a grange list" where
  "rs_normal P = (THE rs. rs_wf rs \<and> rs_points rs = P)"

lemma rs_normal_points [simp]: "rs_wf rs \<Longrightarrow> rs_normal (rs_points rs) = rs"
  unfolding rs_normal_def by (rule the_equality) (auto intro: rs_wf_unique)

subsection \<open>The set of points as specification\<close>

datatype (dead 'a) rs_op =
    RsAdd 'a 'a | RsAddRange "'a grange" | RsRemove 'a 'a | RsContains 'a | RsOverlaps 'a 'a
  | RsRanges | RsLen | RsIsEmpty | RsClear | RsToJSON | RsString

datatype (dead 'a, dead 'e) rs_res =
    RsUnit | RsBool bool | RsNat nat | RsList "'a grange list" | RsBytes "'e + bytes" | RsText bytes

text \<open>One call on the receiver \<open>p\<close>.\<close>

primrec rs_step ::
    "('a::linorder grange list \<Rightarrow> 'e + bytes) \<Rightarrow> 'a rs_op \<Rightarrow> 'a rangeset option
     \<Rightarrow> 'a rangeset option \<times> ('a, 'e) rs_res" where
  "rs_step marshal (RsAdd a b) p = map_prod id RsBool (RangeSet_Add p a b)"
| "rs_step marshal (RsAddRange r) p = map_prod id RsBool (RangeSet_AddRange p r)"
| "rs_step marshal (RsRemove a b) p = map_prod id RsBool (RangeSet_Remove p a b)"
| "rs_step marshal (RsContains v) p = (p, RsBool (RangeSet_Contains p v))"
| "rs_step marshal (RsOverlaps a b) p = (p, RsBool (RangeSet_Overlaps p a b))"
| "rs_step marshal RsRanges p = map_prod id RsList (RangeSet_Ranges p)"
| "rs_step marshal RsLen p = (p, RsNat (RangeSet_Len p))"
| "rs_step marshal RsIsEmpty p = (p, RsBool (RangeSet_IsEmpty p))"
| "rs_step marshal RsClear p = (RangeSet_Clear p, RsUnit)"
| "rs_step marshal RsToJSON p = map_prod id RsBytes (RangeSet_ToJSON marshal p)"
| "rs_step marshal RsString p = map_prod id RsText (RangeSet_String marshal p)"

text \<open>The same calls on a set of points: no order, no representation, no cache.\<close>

primrec rs_spec ::
    "('a::linorder grange list \<Rightarrow> 'e + bytes) \<Rightarrow> 'a rs_op \<Rightarrow> 'a set
     \<Rightarrow> 'a set \<times> ('a, 'e) rs_res" where
  "rs_spec marshal (RsAdd a b) P = (P \<union> {a ..< b}, RsBool (a < b))"
| "rs_spec marshal (RsAddRange r) P = (P \<union> rpoints r, RsBool (Range_IsValid r))"
| "rs_spec marshal (RsRemove a b) P = (P - {a ..< b}, RsBool (P \<inter> {a ..< b} \<noteq> {}))"
| "rs_spec marshal (RsContains v) P = (P, RsBool (v \<in> P))"
| "rs_spec marshal (RsOverlaps a b) P = (P, RsBool (P \<inter> {a ..< b} \<noteq> {}))"
| "rs_spec marshal RsRanges P = (P, RsList (rs_normal P))"
| "rs_spec marshal RsLen P = (P, RsNat (length (rs_normal P)))"
| "rs_spec marshal RsIsEmpty P = (P, RsBool (P = {}))"
| "rs_spec marshal RsClear P = ({}, RsUnit)"
| "rs_spec marshal RsToJSON P = (P, RsBytes (marshal (rs_normal P)))"
| "rs_spec marshal RsString P =
     (P, RsText (case marshal (rs_normal P) of Inl _ \<Rightarrow> ''[]'' | Inr d \<Rightarrow> d))"

definition rs_inv ::
    "('a::linorder grange list \<Rightarrow> 'e + bytes) \<Rightarrow> 'a rangeset option \<Rightarrow> bool" where
  "rs_inv marshal p \<longleftrightarrow>
     (\<exists>s. p = Some s \<and> rs_wf (ranges s)
        \<and> (\<not> rangesDirty s \<longrightarrow> rangesCache s = [] \<or> rangesCache s = ranges s)
        \<and> ser_coherent (marshal (ranges s)) (rs_ser s))"

definition rs_abs :: "'a::linorder rangeset option \<Rightarrow> 'a set" where
  "rs_abs p = (case p of None \<Rightarrow> {} | Some s \<Rightarrow> rs_points (ranges s))"

lemma rs_abs_Some [simp]: "rs_abs (Some s) = rs_points (ranges s)"
  by (simp add: rs_abs_def)

lemma rs_inv_new: "rs_inv marshal (Some NewRangeSet)"
  by (simp add: rs_inv_def NewRangeSet_def)

lemma rs_inv_AddRange:
  assumes "rs_inv marshal (Some s)"
  shows "rs_inv marshal (fst (RangeSet_AddRange (Some s) r))
       \<and> rs_abs (fst (RangeSet_AddRange (Some s) r)) = rs_points (ranges s) \<union> rpoints r
       \<and> snd (RangeSet_AddRange (Some s) r) = Range_IsValid r"
  using assms addRangeToSet_correct [of "ranges s" r]
  by (cases "Range_IsValid r") (simp_all add: rs_inv_def rs_invalidateDerivedCaches_def)

lemma rs_inv_Remove:
  assumes "rs_inv marshal (Some s)"
  shows "rs_inv marshal (fst (RangeSet_Remove (Some s) a b))
       \<and> rs_abs (fst (RangeSet_Remove (Some s) a b)) = rs_points (ranges s) - {a ..< b}
       \<and> snd (RangeSet_Remove (Some s) a b) = (rs_points (ranges s) \<inter> {a ..< b} \<noteq> {})"
proof -
  obtain nxt ch where rm: "removeRangeFromSet (ranges s) \<lparr>Start = a, End = b\<rparr> = (nxt, ch)"
    by fastforce
  have wf: "rs_wf (ranges s)" using assms by (simp add: rs_inv_def)
  show ?thesis
  proof (cases "a < b \<and> ranges s \<noteq> []")
    case True
    then have c: "rs_wf nxt" "rs_points nxt = rs_points (ranges s) - {a ..< b}"
        "ch \<longleftrightarrow> rs_points (ranges s) \<inter> {a ..< b} \<noteq> {}"
      using removeRangeFromSet_correct [OF wf, of "\<lparr>Start = a, End = b\<rparr>"] rm
      by (simp_all add: Range_IsValid_def)
    have "RangeSet_Remove (Some s) a b
        = (if ch then (Some (rs_invalidateDerivedCaches (s\<lparr>ranges := nxt\<rparr>)), ch) else (Some s, ch))"
      using True rm by (simp add: Range_IsValid_def)
    with assms c show ?thesis
      by (cases ch) (auto simp: rs_inv_def rs_invalidateDerivedCaches_def)
  next
    case False
    then show ?thesis using assms by (auto simp: Range_IsValid_def)
  qed
qed

lemma rs_inv_Ranges:
  assumes "rs_inv marshal (Some s)"
  obtains t where "RangeSet_Ranges (Some s) = (Some t, ranges s)" and "ranges t = ranges s"
    and "rs_ser t = rs_ser s" and "rs_inv marshal (Some t)"
proof (cases "ranges s = [] \<or> \<not> rangesDirty s \<and> rangesCache s \<noteq> []")
  case True
  then show ?thesis using assms that [of s] by (auto simp: rs_inv_def)
next
  case False
  then show ?thesis
    using assms that [of "s\<lparr>rangesCache := ranges s, rangesDirty := False\<rparr>"]
    by (auto simp: rs_inv_def)
qed

lemma rs_inv_ToJSON:
  assumes "rs_inv marshal (Some s)"
  shows "rs_inv marshal (fst (RangeSet_ToJSON marshal (Some s)))
       \<and> rs_abs (fst (RangeSet_ToJSON marshal (Some s))) = rs_points (ranges s)
       \<and> snd (RangeSet_ToJSON marshal (Some s)) = marshal (ranges s)"
proof (cases "jsonDirty (rs_ser s) \<or> jsonCache (rs_ser s) = None")
  case True
  obtain t where t: "RangeSet_Ranges (Some s) = (Some t, ranges s)" "ranges t = ranges s"
      "rs_inv marshal (Some t)"
    using rs_inv_Ranges [OF assms] by metis
  then have tj: "RangeSet_ToJSON marshal (Some s)
      = (case marshal (ranges s) of Inl e \<Rightarrow> (Some t, Inl e)
         | Inr d \<Rightarrow> (Some (t\<lparr>rs_ser := ser_store d (rs_ser t)\<rparr>), Inr d))"
    using True by (cases "jsonDirty (rs_ser s)")
      (auto simp del: RangeSet_Ranges.simps split: sum.splits)
  show ?thesis
  proof (cases "marshal (ranges s)")
    case (Inl e)
    then show ?thesis using tj t by simp
  next
    case (Inr d)
    then show ?thesis using tj t by (auto simp: rs_inv_def)
  qed
next
  case False
  then show ?thesis using assms by (auto simp: rs_inv_def ser_coherent_def)
qed

lemma rs_inv_String:
  assumes "rs_inv marshal (Some s)"
  shows "rs_inv marshal (fst (RangeSet_String marshal (Some s)))
       \<and> rs_abs (fst (RangeSet_String marshal (Some s))) = rs_points (ranges s)
       \<and> snd (RangeSet_String marshal (Some s))
         = (case marshal (ranges s) of Inl _ \<Rightarrow> ''[]'' | Inr d \<Rightarrow> d)"
proof -
  have "marshal (ranges s) = Inr (stringCache (rs_ser s))"
    if "\<not> jsonDirty (rs_ser s)" "stringCache (rs_ser s) \<noteq> []"
    using assms that by (auto simp: rs_inv_def ser_coherent_def)
  then show ?thesis
    using assms rs_inv_ToJSON [OF assms]
    by (cases "RangeSet_ToJSON marshal (Some s)"; cases "marshal (ranges s)")
      (auto simp: RangeSet_String_def simp del: RangeSet_ToJSON.simps)
qed

interpretation rs_ref: data_refinement "rs_step marshal" "rs_inv marshal" "rs_spec marshal" rs_abs
  for marshal :: "'a::linorder grange list \<Rightarrow> 'e + bytes"
proof unfold_locales
  fix p :: "'a rangeset option" and c :: "'a rs_op"
  assume inv: "rs_inv marshal p"
  then obtain s where p: "p = Some s" and wf: "rs_wf (ranges s)" by (auto simp: rs_inv_def)
  note del = RangeSet_AddRange.simps RangeSet_Remove.simps RangeSet_ToJSON.simps
    RangeSet_Contains.simps RangeSet_Overlaps.simps RangeSet_Ranges.simps
  obtain t where t: "RangeSet_Ranges p = (Some t, ranges s)" "ranges t = ranges s"
      "rs_inv marshal (Some t)"
    using rs_inv_Ranges [OF inv [unfolded p]] p by metis
  note facts = inv [unfolded p] rs_inv_AddRange [OF inv [unfolded p]]
    rs_inv_Remove [OF inv [unfolded p]] rs_inv_ToJSON [OF inv [unfolded p]]
    rs_inv_String [OF inv [unfolded p]] RangeSet_Contains_points [OF wf]
    RangeSet_Overlaps_points [OF wf]
  show "rs_inv marshal (fst (rs_step marshal c p))"
    using facts t
    by (cases c) (auto simp: p RangeSet_Add_def rs_inv_def simp del: del)
  show "rs_spec marshal c (rs_abs p)
      = (rs_abs (fst (rs_step marshal c p)), snd (rs_step marshal c p))"
    using facts wf t rs_points_empty_iff [OF wf]
    by (cases c)
      (auto simp: p RangeSet_Add_def RangeSet_IsEmpty_def Range_IsValid_def rs_inv_def simp del: del)
qed

text \<open>
  C1. Over any history of calls on a fresh \<open>RangeSet\<close>, every call returns what it would return on
  a plain mathematical set of points: \<open>Add\<close> is union, \<open>Remove\<close> is difference and reports whether
  a point went away, \<open>Contains\<close> and \<open>Overlaps\<close> are membership and intersection, \<open>Ranges\<close> and
  \<open>Len\<close> give the one normal form of the set, and \<open>ToJSON\<close> and \<open>String\<close> marshal exactly that
  normal form, cached or not.
\<close>

theorem rangeset_refines_points:
  "snd (run (rs_step marshal) cs (Some NewRangeSet)) = snd (run (rs_spec marshal) cs {})"
  using rs_ref.run_results [OF rs_inv_new, of marshal cs] by (simp add: NewRangeSet_def)

text \<open>
  C19. Whatever was called before, the stored ranges are valid, ascending and pairwise separated by
  a gap, so two ranges never overlap or touch.
\<close>

theorem rangeset_normalized:
  "\<exists>s. fst (run (rs_step marshal) cs (Some NewRangeSet)) = Some s \<and> rs_wf (ranges s)"
  using rs_ref.run_inv [OF rs_inv_new, of marshal cs] by (auto simp: rs_inv_def)

end
