(* ===== verification/Interval_RangeMap.thy ===== *)
theory Interval_RangeMap
  imports Interval_RangeSet
begin

text \<open>
  \<^verbatim>\<open>collectionx/interval/range_map.go\<close>: a map from half-open ranges to values in which a later
  \<open>Put\<close> overrides what it overlaps. The invariant \<open>rm_wf\<close> keeps the entries valid, ascending and
  disjoint (touching entries stay separate, since their values may differ); \<open>rm_lookup\<close> is the
  partial function they denote. Shown: over any history the map behaves as a partial function on
  points, and the derived caches never serve stale entries.
\<close>

record ('a, 'v) rentry =
  erange :: "'a grange"
  evalue :: 'v

record ('a, 'v) rangemap =
  rm_entries :: "('a, 'v) rentry list"
  entriesCache :: "('a, 'v) rentry list"
  entriesDirty :: bool
  rm_ser :: ser_cache

definition NewRangeMap :: "('a::linorder, 'v) rangemap" where
  "NewRangeMap = \<lparr>rm_entries = [], entriesCache = [], entriesDirty = False, rm_ser = ser_zero\<rparr>"

definition rm_invalidateDerivedCaches ::
    "('a::linorder, 'v) rangemap \<Rightarrow> ('a, 'v) rangemap" where
  "rm_invalidateDerivedCaches m =
     m\<lparr>entriesCache := [], entriesDirty := True, rm_ser := ser_invalidate (rm_ser m)\<rparr>"

definition newRangeEntry :: "'a::linorder \<Rightarrow> 'a \<Rightarrow> 'v \<Rightarrow> ('a, 'v) rentry option" where
  "newRangeEntry start stop v =
     (let input = \<lparr>Start = start, End = stop\<rparr>
      in if \<not> Range_IsValid input then None else Some \<lparr>erange = input, evalue = v\<rparr>)"

definition findFirstRangeEntryEndingAfter :: "('a::linorder, 'v) rentry list \<Rightarrow> 'a \<Rightarrow> nat" where
  "findFirstRangeEntryEndingAfter es point =
     go_search (length es) (\<lambda>i. End (erange (es ! i)) > point)"

definition splitLeftRangeEntry ::
    "('a::linorder, 'v) rentry \<Rightarrow> 'a \<Rightarrow> ('a, 'v) rentry option" where
  "splitLeftRangeEntry e splitAt =
     (if Start (erange e) \<ge> splitAt then None
      else Some \<lparr>erange = \<lparr>Start = Start (erange e), End = splitAt\<rparr>, evalue = evalue e\<rparr>)"

text \<open>The loop of \<open>splitRightRangeEntry\<close>, from \<open>index\<close> on.\<close>

function splitRightRangeEntry ::
    "('a::linorder, 'v) rentry list \<Rightarrow> nat \<Rightarrow> 'a \<Rightarrow> nat \<times> ('a, 'v) rentry option" where
  "splitRightRangeEntry es index stop =
     (if index < length es
      then let e = es ! index
           in if Start (erange e) \<ge> stop then (index, None)
              else if End (erange e) > stop
              then (index + 1,
                    Some \<lparr>erange = \<lparr>Start = stop, End = End (erange e)\<rparr>, evalue = evalue e\<rparr>)
              else splitRightRangeEntry es (index + 1) stop
      else (length es, None))"
  by pat_completeness auto
termination
  by (relation "measure (\<lambda>(es, index, stop). length es - index)") auto

declare splitRightRangeEntry.simps [simp del]

definition buildPutRangeEntries ::
    "('a::linorder, 'v) rentry list \<Rightarrow> nat \<Rightarrow> ('a, 'v) rentry \<Rightarrow> ('a, 'v) rentry list \<times> nat" where
  "buildPutRangeEntries es first input =
     (let replacement = (case splitLeftRangeEntry (es ! first) (Start (erange input)) of
                           Some left \<Rightarrow> [left] | None \<Rightarrow> []) @ [input]
      in case splitRightRangeEntry es first (End (erange input)) of
           (stop, Some right) \<Rightarrow> (replacement @ [right], stop)
         | (stop, None) \<Rightarrow> (replacement, stop))"

definition spliceRangeEntries ::
    "('a::linorder, 'v) rentry list \<Rightarrow> nat \<Rightarrow> nat \<Rightarrow> ('a, 'v) rentry list
     \<Rightarrow> ('a, 'v) rentry list" where
  "spliceRangeEntries es start stop replacement = take start es @ replacement @ drop stop es"

definition putRangeEntry ::
    "('a::linorder, 'v) rentry list \<Rightarrow> ('a, 'v) rentry \<Rightarrow> ('a, 'v) rentry list" where
  "putRangeEntry es input =
     (if es = [] then es @ [input]
      else let first = findFirstRangeEntryEndingAfter es (Start (erange input))
           in if first = length es then es @ [input]
              else if Start (erange (es ! first)) \<ge> End (erange input)
              then spliceRangeEntries es first first [input]
              else case buildPutRangeEntries es first input of
                     (replacement, stop) \<Rightarrow> spliceRangeEntries es first stop replacement)"

definition trimRangeEntry ::
    "('a::linorder, 'v) rentry \<Rightarrow> 'a grange \<Rightarrow> ('a, 'v) rentry list \<times> bool" where
  "trimRangeEntry e cutr =
     (let fragments = (if Start (erange e) < Start cutr
                       then [\<lparr>erange = \<lparr>Start = Start (erange e), End = Start cutr\<rparr>,
                              evalue = evalue e\<rparr>] else [])
      in if End cutr < End (erange e)
         then (fragments @ [\<lparr>erange = \<lparr>Start = End cutr, End = End (erange e)\<rparr>,
                             evalue = evalue e\<rparr>], True)
         else (fragments, False))"

function deleteRangeLoop ::
    "('a::linorder, 'v) rentry list \<Rightarrow> 'a grange \<Rightarrow> nat \<Rightarrow> ('a, 'v) rentry list \<Rightarrow> bool
     \<Rightarrow> ('a, 'v) rentry list \<times> bool" where
  "deleteRangeLoop es cutr index acc changed =
     (if index < length es
      then let e = es ! index
           in if Start (erange e) \<ge> End cutr then (acc @ drop index es, changed)
              else case trimRangeEntry e cutr of
                     (fragments, stop) \<Rightarrow>
                       if stop then (acc @ fragments @ drop (index + 1) es, True)
                       else deleteRangeLoop es cutr (index + 1) (acc @ fragments) True
      else (acc, changed))"
  by pat_completeness auto
termination
  by (relation "measure (\<lambda>(es, cutr, index, acc, changed). length es - index)") auto

declare deleteRangeLoop.simps [simp del]

definition deleteRangeEntries ::
    "('a::linorder, 'v) rentry list \<Rightarrow> 'a grange \<Rightarrow> ('a, 'v) rentry list \<times> bool" where
  "deleteRangeEntries es cutr =
     (let first = findFirstRangeEntryEndingAfter es (Start cutr)
      in if first = length es then (es, False)
         else deleteRangeLoop es cutr first (take first es) False)"

primrec RangeMap_Put ::
    "('a::linorder, 'v) rangemap option \<Rightarrow> 'a \<Rightarrow> 'a \<Rightarrow> 'v \<Rightarrow> ('a, 'v) rangemap option \<times> bool" where
  "RangeMap_Put None start stop v = (None, False)"
| "RangeMap_Put (Some m) start stop v =
     (case newRangeEntry start stop v of
        None \<Rightarrow> (Some m, False)
      | Some input \<Rightarrow>
          (Some (rm_invalidateDerivedCaches
                   (m\<lparr>rm_entries := putRangeEntry (rm_entries m) input\<rparr>)), True))"

primrec RangeMap_Get :: "('a::linorder, 'v) rangemap option \<Rightarrow> 'a \<Rightarrow> 'v option" where
  "RangeMap_Get None point = None"
| "RangeMap_Get (Some m) point =
     (if rm_entries m = [] then None
      else let index = go_search (length (rm_entries m))
                         (\<lambda>i. End (erange (rm_entries m ! i)) > point)
           in if index < length (rm_entries m)
                 \<and> Range_Contains (erange (rm_entries m ! index)) point
              then Some (evalue (rm_entries m ! index)) else None)"

definition RangeMap_GetOption :: "('a::linorder, 'v) rangemap option \<Rightarrow> 'a \<Rightarrow> 'v option" where
  "RangeMap_GetOption p point =
     (case RangeMap_Get p point of None \<Rightarrow> None | Some v \<Rightarrow> Some v)"

primrec RangeMap_DeleteRange ::
    "('a::linorder, 'v) rangemap option \<Rightarrow> 'a \<Rightarrow> 'a \<Rightarrow> ('a, 'v) rangemap option \<times> bool" where
  "RangeMap_DeleteRange None start stop = (None, False)"
| "RangeMap_DeleteRange (Some m) start stop =
     (if rm_entries m = [] then (Some m, False)
      else let input = \<lparr>Start = start, End = stop\<rparr>
           in if \<not> Range_IsValid input then (Some m, False)
              else case deleteRangeEntries (rm_entries m) input of
                     (nxt, changed) \<Rightarrow>
                       if changed
                       then (Some (rm_invalidateDerivedCaches (m\<lparr>rm_entries := nxt\<rparr>)), changed)
                       else (Some m, changed))"

primrec RangeMap_Entries ::
    "('a::linorder, 'v) rangemap option \<Rightarrow> ('a, 'v) rangemap option \<times> ('a, 'v) rentry list" where
  "RangeMap_Entries None = (None, [])"
| "RangeMap_Entries (Some m) =
     (if rm_entries m = [] then (Some m, [])
      else if \<not> entriesDirty m \<and> entriesCache m \<noteq> [] then (Some m, entriesCache m)
      else (Some (m\<lparr>entriesCache := rm_entries m, entriesDirty := False\<rparr>), rm_entries m))"

primrec RangeMap_Len :: "('a::linorder, 'v) rangemap option \<Rightarrow> nat" where
  "RangeMap_Len None = 0"
| "RangeMap_Len (Some m) = length (rm_entries m)"

definition RangeMap_IsEmpty :: "('a::linorder, 'v) rangemap option \<Rightarrow> bool" where
  "RangeMap_IsEmpty p \<longleftrightarrow> RangeMap_Len p = 0"

primrec RangeMap_Clear :: "('a::linorder, 'v) rangemap option \<Rightarrow> ('a, 'v) rangemap option" where
  "RangeMap_Clear None = None"
| "RangeMap_Clear (Some m) =
     Some (m\<lparr>rm_entries := [], entriesCache := [], entriesDirty := False, rm_ser := ser_zero\<rparr>)"

fun RangeMap_Range ::
    "('a::linorder, 'v) rangemap option \<Rightarrow> ('st \<Rightarrow> ('a, 'v) rentry \<Rightarrow> 'st \<times> bool) option
     \<Rightarrow> 'st \<Rightarrow> 'st" where
  "RangeMap_Range (Some m) (Some fn) st = range_until fn st (rm_entries m)"
| "RangeMap_Range _ _ st = st"

primrec RangeMap_ToJSON ::
    "(('a::linorder, 'v) rentry list \<Rightarrow> 'e + bytes) \<Rightarrow> ('a, 'v) rangemap option
     \<Rightarrow> ('a, 'v) rangemap option \<times> ('e + bytes)" where
  "RangeMap_ToJSON marshal None =
     (None, marshal (snd (RangeMap_Entries (None :: ('a, 'v) rangemap option))))"
| "RangeMap_ToJSON marshal (Some m) =
     (case (jsonDirty (rm_ser m), jsonCache (rm_ser m)) of
        (False, Some d) \<Rightarrow> (Some m, Inr d)
      | _ \<Rightarrow>
         (case RangeMap_Entries (Some m) of
            (p, es) \<Rightarrow>
              (case marshal es of
                 Inl e \<Rightarrow> (p, Inl e)
               | Inr d \<Rightarrow>
                   (map_option (\<lambda>t. t\<lparr>rm_ser := ser_store d (rm_ser t)\<rparr>) p, Inr d))))"

definition RangeMap_String ::
    "(('a::linorder, 'v) rentry list \<Rightarrow> 'e + bytes) \<Rightarrow> ('a, 'v) rangemap option
     \<Rightarrow> ('a, 'v) rangemap option \<times> bytes" where
  "RangeMap_String marshal p =
     (case p of
        Some m \<Rightarrow>
          if \<not> jsonDirty (rm_ser m) \<and> stringCache (rm_ser m) \<noteq> [] then (p, stringCache (rm_ser m))
          else (case RangeMap_ToJSON marshal p of
                  (q, Inl _) \<Rightarrow> (q, ''[]'') | (q, Inr d) \<Rightarrow> (q, d))
      | None \<Rightarrow>
          (case RangeMap_ToJSON marshal p of
             (q, Inl _) \<Rightarrow> (q, ''[]'') | (q, Inr d) \<Rightarrow> (q, d)))"

subsection \<open>Invariant and denotation\<close>

definition rm_wf :: "('a::linorder, 'v) rentry list \<Rightarrow> bool" where
  "rm_wf es \<longleftrightarrow> (\<forall>e\<in>set es. Range_IsValid (erange e))
     \<and> sorted_wrt (\<lambda>x y. End (erange x) \<le> Start (erange y)) es"

fun rm_lookup :: "('a::linorder, 'v) rentry list \<Rightarrow> 'a \<Rightarrow> 'v option" where
  "rm_lookup [] x = None"
| "rm_lookup (e # es) x = (if x \<in> rpoints (erange e) then Some (evalue e) else rm_lookup es x)"

lemma rm_wf_simps [simp]:
  "rm_wf []"
  "rm_wf (e # es) \<longleftrightarrow> Range_IsValid (erange e)
     \<and> (\<forall>x\<in>set es. End (erange e) \<le> Start (erange x)) \<and> rm_wf es"
  "rm_wf (xs @ ys) \<longleftrightarrow> rm_wf xs \<and> rm_wf ys
     \<and> (\<forall>x\<in>set xs. \<forall>y\<in>set ys. End (erange x) \<le> Start (erange y))"
  by (auto simp: rm_wf_def sorted_wrt_append)

lemma rm_lookup_append:
  "rm_lookup (xs @ ys) x = (case rm_lookup xs x of None \<Rightarrow> rm_lookup ys x | Some v \<Rightarrow> Some v)"
  by (induction xs) auto

lemma rm_lookup_None: "rm_lookup es x = None \<longleftrightarrow> (\<forall>e\<in>set es. x \<notin> rpoints (erange e))"
  by (induction es) auto

lemma rm_wf_ends: "rm_wf es \<Longrightarrow> sorted_wrt (\<lambda>x y. End (erange x) < End (erange y)) es"
  by (induction es) (fastforce simp: rm_wf_def Range_IsValid_def)+

lemma rm_search:
  assumes "rm_wf es"
  shows "go_search (length es) (\<lambda>i. End (erange (es ! i)) > p)
         = length (takeWhile (\<lambda>e. End (erange e) \<le> p) es)"
proof -
  have "sorted_wrt (\<lambda>x y. End (erange x) > p \<longrightarrow> End (erange y) > p) es"
    by (rule sorted_wrt_mono_rel [OF _ rm_wf_ends [OF assms]]) auto
  from go_search_takeWhile [OF this] show ?thesis by (simp add: not_less)
qed

lemma rm_wf_split:
  assumes "rm_wf es"
  shows "rm_wf (takeWhile P es)" and "rm_wf (dropWhile P es)"
    and "x \<in> set (takeWhile P es) \<Longrightarrow> y \<in> set (dropWhile P es)
         \<Longrightarrow> End (erange x) \<le> Start (erange y)"
proof -
  have "rm_wf (takeWhile P es @ dropWhile P es)" using assms by simp
  then show "rm_wf (takeWhile P es)" and "rm_wf (dropWhile P es)"
    and "x \<in> set (takeWhile P es) \<Longrightarrow> y \<in> set (dropWhile P es)
         \<Longrightarrow> End (erange x) \<le> Start (erange y)"
    by (simp_all only: rm_wf_simps)
qed

lemma rm_dropWhile_ends:
  assumes "rm_wf es" and "e \<in> set (dropWhile (\<lambda>e. End (erange e) \<le> p) es)"
  shows "p < End (erange e)"
  using assms
proof (induction es)
  case (Cons a es)
  then show ?case
    by (auto simp: Range_IsValid_def rm_wf_def split: if_splits) fastforce
qed simp

lemma rm_lookup_split:
  assumes "p \<le> x"
  shows "rm_lookup es x = rm_lookup (dropWhile (\<lambda>e. End (erange e) \<le> p) es) x"
proof -
  have "rm_lookup (takeWhile (\<lambda>e. End (erange e) \<le> p) es) x = None"
    using assms by (auto simp: rm_lookup_None rpoints_def dest!: set_takeWhileD)
  then show ?thesis
    by (metis option.simps(4) rm_lookup_append takeWhile_dropWhile_id)
qed

subsection \<open>Put\<close>

fun right_run :: "('a::linorder, 'v) rentry list \<Rightarrow> 'a \<Rightarrow> ('a, 'v) rentry list" where
  "right_run [] b = []"
| "right_run (e # es) b =
     (if Start (erange e) \<ge> b then e # es
      else if End (erange e) > b
      then \<lparr>erange = \<lparr>Start = b, End = End (erange e)\<rparr>, evalue = evalue e\<rparr> # es
      else right_run es b)"

primrec left_of :: "('a::linorder, 'v) rentry list \<Rightarrow> 'a \<Rightarrow> ('a, 'v) rentry list" where
  "left_of [] a = []"
| "left_of (e # es) a = (case splitLeftRangeEntry e a of Some left \<Rightarrow> [left] | None \<Rightarrow> [])"

lemma splitRight_run:
  "i \<le> length es \<Longrightarrow>
     (case splitRightRangeEntry es i b of
        (stop, Some right) \<Rightarrow> right # drop stop es | (stop, None) \<Rightarrow> drop stop es)
     = right_run (drop i es) b"
proof (induction es i b rule: splitRightRangeEntry.induct)
  case (1 es i b)
  show ?case
  proof (cases "i < length es")
    case False
    with "1.prems" have "i = length es" by simp
    then show ?thesis by (simp add: splitRightRangeEntry.simps)
  next
    case True
    note d = Cons_nth_drop_Suc [OF True, symmetric]
    consider "Start (erange (es ! i)) \<ge> b"
      | "\<not> Start (erange (es ! i)) \<ge> b" "End (erange (es ! i)) > b"
      | "\<not> Start (erange (es ! i)) \<ge> b" "\<not> End (erange (es ! i)) > b" by blast
    then show ?thesis
    proof cases
      case 3
      with "1.IH" [OF True refl 3] True show ?thesis
        by (simp add: splitRightRangeEntry.simps [of es i b] d)
    qed (use True in \<open>simp_all add: splitRightRangeEntry.simps [of es i b] d Let_def\<close>)
  qed
qed

lemma right_run_spec:
  assumes "rm_wf d"
  shows "rm_wf (right_run d b) \<and> (\<forall>e\<in>set (right_run d b). b \<le> Start (erange e))
         \<and> (\<forall>x. rm_lookup (right_run d b) x = (if x < b then None else rm_lookup d x))"
  using assms
proof (induction d)
  case (Cons e es)
  have v: "Start (erange e) < End (erange e)" using Cons.prems by (simp add: Range_IsValid_def)
  consider (far) "Start (erange e) \<ge> b" | (split) "Start (erange e) < b" "End (erange e) > b"
    | (gone) "Start (erange e) < b" "End (erange e) \<le> b" by fastforce
  then show ?case
  proof cases
    case far
    then have all: "\<forall>y\<in>set (e # es). b \<le> Start (erange y)"
      using Cons.prems v by (auto intro: order.trans less_imp_le)
    then have "rm_lookup (e # es) x = None" if "x < b" for x
      using that by (fastforce simp: rm_lookup_None rpoints_def)
    with far all Cons.prems show ?thesis by auto
  next
    case split
    have all: "\<forall>y\<in>set es. b \<le> Start (erange y)"
      using Cons.prems split by (auto intro: order.trans less_imp_le)
    then have none: "rm_lookup es x = None" if "x < b" for x
      using that by (fastforce simp: rm_lookup_None rpoints_def)
    with split all Cons.prems v show ?thesis
      by (auto simp: Range_IsValid_def rpoints_def)
  next
    case gone
    then show ?thesis using Cons.IH Cons.prems by (auto simp: rpoints_def)
  qed
qed simp

lemma left_of_spec:
  assumes "rm_wf d" and "\<forall>e\<in>set d. a < End (erange e)"
  shows "rm_wf (left_of d a) \<and> (\<forall>e\<in>set (left_of d a). End (erange e) \<le> a)
         \<and> (\<forall>e\<in>set (left_of d a). \<exists>y\<in>set d. Start (erange y) \<le> Start (erange e))
         \<and> (\<forall>x. rm_lookup (left_of d a) x = (if x < a then rm_lookup d x else None))"
proof (cases d)
  case (Cons e es)
  have "rm_lookup es x = None" if "x < a" for x
    using assms that Cons by (fastforce simp: rm_lookup_None rpoints_def)
  then show ?thesis using assms Cons
    by (auto simp: splitLeftRangeEntry_def Range_IsValid_def rpoints_def)
qed simp

lemma putRangeEntry_split:
  assumes wf: "rm_wf es" and v: "Range_IsValid (erange input)"
  defines "P \<equiv> \<lambda>e. End (erange e) \<le> Start (erange input)"
  shows "putRangeEntry es input
         = takeWhile P es @ left_of (dropWhile P es) (Start (erange input)) @ [input]
           @ right_run (dropWhile P es) (End (erange input))"
proof -
  note srch = rm_search [OF wf, of "Start (erange input)"]
  show ?thesis
  proof (cases "dropWhile P es")
    case Nil
    then have "takeWhile P es = es" by (metis append_Nil2 takeWhile_dropWhile_id)
    with Nil show ?thesis
      by (simp add: putRangeEntry_def findFirstRangeEntryEndingAfter_def srch P_def)
  next
    case (Cons c cs)
    have ne: "dropWhile P es \<noteq> []" by (simp add: Cons)
    let ?n = "length (takeWhile P es)"
    have n: "es \<noteq> []" "?n \<noteq> length es" "es ! ?n = c" "drop ?n es = c # cs"
      using nth_length_takeWhile_hd [OF ne] ne Cons by auto
    have le: "?n \<le> length es" by (rule length_takeWhile_le)
    have sv: "Start (erange input) < End (erange input)" using v by (simp add: Range_IsValid_def)
    show ?thesis
    proof (cases "Start (erange c) \<ge> End (erange input)")
      case True
      then have "splitLeftRangeEntry c (Start (erange input)) = None"
        using sv by (auto simp: splitLeftRangeEntry_def)
      then show ?thesis
        using True n srch Cons
        by (simp add: putRangeEntry_def findFirstRangeEntryEndingAfter_def P_def [symmetric]
            spliceRangeEntries_def)
    next
      case False
      obtain stop r where sr: "splitRightRangeEntry es ?n (End (erange input)) = (stop, r)"
        by fastforce
      then have "(case r of Some right \<Rightarrow> right # drop stop es | None \<Rightarrow> drop stop es)
          = right_run (c # cs) (End (erange input))"
        using splitRight_run [OF le, of "End (erange input)"] n(4) by (simp split: option.splits)
      then show ?thesis
        using False n srch Cons sr
        by (cases r)
          (simp_all add: putRangeEntry_def findFirstRangeEntryEndingAfter_def P_def [symmetric]
            spliceRangeEntries_def buildPutRangeEntries_def)
    qed
  qed
qed

lemma rm_wf_join:
  assumes "rm_wf t" "rm_wf l" "rm_wf r" and v: "Range_IsValid (erange m)"
    and below: "\<forall>e\<in>set t \<union> set l. End (erange e) \<le> Start (erange m)"
    and above: "\<forall>e\<in>set r. End (erange m) \<le> Start (erange e)"
    and tl: "\<forall>x\<in>set t. \<forall>y\<in>set l. End (erange x) \<le> Start (erange y)"
  shows "rm_wf (t @ l @ [m] @ r)"
proof -
  have "Start (erange m) \<le> End (erange m)" using v by (simp add: Range_IsValid_def)
  then have "End (erange x) \<le> Start (erange y)" if "x \<in> set t \<union> set l" "y \<in> set r" for x y
    using below above that by (meson order.trans)
  then have "\<forall>x\<in>set t \<union> set l. \<forall>y\<in>set r. End (erange x) \<le> Start (erange y)" by blast
  with assms show ?thesis by (simp add: ball_Un)
qed

lemma rm_lookup_join:
  assumes "rm_lookup l x = (if x < Start (erange m) then rm_lookup d x else None)"
    and "rm_lookup r x = (if x < End (erange m) then None else rm_lookup d x)"
    and "Start (erange m) \<le> x \<Longrightarrow> rm_lookup t x = None"
    and "Start (erange m) < End (erange m)"
  shows "rm_lookup (t @ l @ [m] @ r) x
         = (if x \<in> rpoints (erange m) then Some (evalue m) else rm_lookup (t @ d) x)"
proof (cases "Start (erange m) \<le> x")
  case True
  then have "\<not> x < Start (erange m)" by simp
  with True assms show ?thesis by (simp add: rm_lookup_append rpoints_def)
next
  case False
  then have "x < Start (erange m)" "x < End (erange m)" using assms(4) by simp_all
  with False assms show ?thesis
    by (simp add: rm_lookup_append rpoints_def split: option.splits)
qed

lemma putRangeEntry_correct:
  assumes wf: "rm_wf es" and v: "Range_IsValid (erange input)"
  shows "rm_wf (putRangeEntry es input)"
    and "rm_lookup (putRangeEntry es input) x
         = (if x \<in> rpoints (erange input) then Some (evalue input) else rm_lookup es x)"
proof -
  let ?a = "Start (erange input)" and ?b = "End (erange input)"
  let ?P = "\<lambda>e. End (erange e) \<le> ?a"
  let ?t = "takeWhile ?P es" and ?d = "dropWhile ?P es"
  have ab: "?a < ?b" using v by (simp add: Range_IsValid_def)
  note R = right_run_spec [OF rm_wf_split(2) [OF wf, of ?P], of ?b]
  have ends: "\<forall>e\<in>set ?d. ?a < End (erange e)" using rm_dropWhile_ends [OF wf] by blast
  note L = left_of_spec [OF rm_wf_split(2) [OF wf, of ?P] ends]
  note split = putRangeEntry_split [OF wf v]
  have t_end: "\<forall>e\<in>set ?t. End (erange e) \<le> ?a" by (auto dest: set_takeWhileD)
  have tl: "End (erange x) \<le> Start (erange y)"
    if "x \<in> set ?t" "y \<in> set (left_of ?d ?a)" for x y
    using L that rm_wf_split(3) [OF wf, of x ?P] by (meson order.trans)
  show "rm_wf (putRangeEntry es input)"
    unfolding split
  proof (rule rm_wf_join [OF rm_wf_split(1) [OF wf]])
    show "\<forall>e\<in>set ?t \<union> set (left_of ?d ?a). End (erange e) \<le> ?a" using L t_end by blast
    show "\<forall>x\<in>set ?t. \<forall>y\<in>set (left_of ?d ?a). End (erange x) \<le> Start (erange y)" using tl by blast
  qed (use L R v in blast)+
  have t_none: "rm_lookup ?t x = None" if "?a \<le> x"
    using t_end that by (fastforce simp: rm_lookup_None rpoints_def)
  have l: "rm_lookup (left_of ?d ?a) x = (if x < ?a then rm_lookup ?d x else None)"
    and r: "rm_lookup (right_run ?d ?b) x = (if x < ?b then None else rm_lookup ?d x)"
    using L R by blast+
  show "rm_lookup (putRangeEntry es input) x
        = (if x \<in> rpoints (erange input) then Some (evalue input) else rm_lookup es x)"
    using rm_lookup_join [OF l r t_none ab] by (simp only: split takeWhile_dropWhile_id)
qed

subsection \<open>DeleteRange\<close>

fun del_run :: "('a::linorder, 'v) rentry list \<Rightarrow> 'a grange \<Rightarrow> ('a, 'v) rentry list \<times> bool" where
  "del_run [] c = ([], False)"
| "del_run (e # es) c =
     (if Start (erange e) \<ge> End c then (e # es, False)
      else case trimRangeEntry e c of
             (fr, stop) \<Rightarrow> if stop then (fr @ es, True) else (fr @ fst (del_run es c), True))"

lemma deleteRangeLoop_run:
  "i \<le> length es \<Longrightarrow> deleteRangeLoop es c i acc ch
     = (acc @ fst (del_run (drop i es) c), ch \<or> snd (del_run (drop i es) c))"
proof (induction es c i acc ch rule: deleteRangeLoop.induct)
  case (1 es c i acc ch)
  show ?case
  proof (cases "i < length es")
    case True
    note d = Cons_nth_drop_Suc [OF True, symmetric]
    obtain fr stop where t: "trimRangeEntry (es ! i) c = (fr, stop)" by fastforce
    consider "Start (erange (es ! i)) \<ge> End c" | "\<not> Start (erange (es ! i)) \<ge> End c" "stop"
      | "\<not> Start (erange (es ! i)) \<ge> End c" "\<not> stop" by blast
    then show ?thesis
    proof cases
      case 3
      with "1.IH" [OF True refl 3(1) t [symmetric] 3(2)] True t show ?thesis
        by (simp add: deleteRangeLoop.simps [of es c i acc ch] d)
    qed (use True t in \<open>simp_all add: deleteRangeLoop.simps [of es c i acc ch] d\<close>)
  next
    case False
    then have "i = length es" using "1.prems" by simp
    then show ?thesis by (simp add: deleteRangeLoop.simps)
  qed
qed

lemma trimRangeEntry_spec:
  assumes "trimRangeEntry e c = (fr, stop)" and "Range_IsValid (erange e)" and "Range_IsValid c"
    and "Start c < End (erange e)" and "Start (erange e) < End c"
  shows "rm_wf fr"
    and "rm_lookup fr x
         = (if x \<in> rpoints (erange e) - rpoints c then Some (evalue e) else None)"
    and "\<And>f. f \<in> set fr \<Longrightarrow> Start (erange e) \<le> Start (erange f) \<and> End (erange f) \<le> End (erange e)"
    and "stop \<longleftrightarrow> End c < End (erange e)"
  using assms
  by (auto simp: trimRangeEntry_def Range_IsValid_def rpoints_def Let_def split: if_splits)

definition del_spec :: "('a::linorder, 'v) rentry list \<Rightarrow> 'a grange
    \<Rightarrow> ('a, 'v) rentry list \<times> bool \<Rightarrow> bool" where
  "del_spec es c res \<longleftrightarrow> rm_wf (fst res)
     \<and> (\<forall>x. rm_lookup (fst res) x = (if x \<in> rpoints c then None else rm_lookup es x))
     \<and> (snd res \<longleftrightarrow> (\<exists>x\<in>rpoints c. rm_lookup es x \<noteq> None))
     \<and> (\<forall>y\<in>set (fst res). \<exists>z\<in>set es. Start (erange z) \<le> Start (erange y)
                                    \<and> End (erange y) \<le> End (erange z))"

lemma rm_lookup_far:
  assumes "\<forall>y\<in>set es. b \<le> Start (erange y)" and "x < b"
  shows "rm_lookup es x = None"
  using assms by (fastforce simp: rm_lookup_None rpoints_def)

lemma del_run_spec:
  assumes "rm_wf es" and "Range_IsValid c" and "\<forall>e\<in>set es. Start c < End (erange e)"
  shows "del_spec es c (del_run es c)"
  using assms
proof (induction es)
  case Nil
  then show ?case by (simp add: del_spec_def)
next
  case (Cons e es)
  have v: "Range_IsValid (erange e)" and lt: "Start c < End (erange e)" and wf: "rm_wf es"
    and gap: "\<forall>y\<in>set es. End (erange e) \<le> Start (erange y)" using Cons.prems by auto
  show ?case
  proof (cases "Start (erange e) \<ge> End c")
    case True
    have "\<forall>y\<in>set (e # es). End c \<le> Start (erange y)"
      using True gap v by (auto simp: Range_IsValid_def intro: order.trans less_imp_le)
    from rm_lookup_far [OF this] have "rm_lookup (e # es) x = None" if "x \<in> rpoints c" for x
      using that by (simp add: rpoints_def)
    then show ?thesis using True Cons.prems by (auto simp: del_spec_def simp del: rm_lookup.simps)
  next
    case False
    then have lt2: "Start (erange e) < End c" by simp
    obtain fr stop where t: "trimRangeEntry e c = (fr, stop)" by fastforce
    note tr = trimRangeEntry_spec [OF t v Cons.prems(2) lt lt2]
    have hit: "\<exists>x\<in>rpoints c. rm_lookup (e # es) x \<noteq> None"
      using ivl_Int_nonempty [of "Start (erange e)" "End (erange e)" "Start c" "End c"]
        v Cons.prems(2) lt lt2
      by (fastforce simp: rpoints_def Range_IsValid_def)
    have IH: "del_spec es c (del_run es c)"
      using Cons.IH [OF wf Cons.prems(2)] Cons.prems(3) by simp
    define rest where "rest = (if stop then es else fst (del_run es c))"
    have run: "del_run (e # es) c = (fr @ rest, True)" using lt2 t by (simp add: rest_def)
    have far: "rm_lookup es x = None" if "stop" "x \<in> rpoints c" for x
      using rm_lookup_far [OF gap] tr(4) that by (auto simp: rpoints_def)
    have rest: "rm_wf rest" "\<forall>x. rm_lookup rest x = (if x \<in> rpoints c then None else rm_lookup es x)"
      "\<forall>y\<in>set rest. \<exists>z\<in>set es. Start (erange z) \<le> Start (erange y) \<and> End (erange y) \<le> End (erange z)"
      using IH wf far by (auto simp: rest_def del_spec_def)
    have "End (erange f) \<le> Start (erange y)" if f: "f \<in> set fr" and y: "y \<in> set rest" for f y
      using tr(3) [OF f] rest(3) y gap by (meson order.trans)
    then have wf': "rm_wf (fr @ rest)" using tr(1) rest(1) by simp
    have look: "rm_lookup (fr @ rest) x = (if x \<in> rpoints c then None else rm_lookup (e # es) x)" for x
      by (simp add: rm_lookup_append tr(2) rest(2))
    have "\<forall>y\<in>set (fr @ rest). \<exists>z\<in>set (e # es). Start (erange z) \<le> Start (erange y)
        \<and> End (erange y) \<le> End (erange z)"
      using tr(3) rest(3) by auto
    with wf' look hit show ?thesis unfolding run del_spec_def by simp
  qed
qed

lemma deleteRangeEntries_correct:
  assumes wf: "rm_wf es" and v: "Range_IsValid c"
  shows "rm_wf (fst (deleteRangeEntries es c))"
    and "rm_lookup (fst (deleteRangeEntries es c)) x = (if x \<in> rpoints c then None else rm_lookup es x)"
    and "snd (deleteRangeEntries es c) \<longleftrightarrow> (\<exists>x\<in>rpoints c. rm_lookup es x \<noteq> None)"
proof -
  let ?P = "\<lambda>e. End (erange e) \<le> Start c"
  let ?d = "dropWhile ?P es" and ?t = "takeWhile ?P es"
  have spec: "del_spec ?d c (del_run ?d c)"
    using del_run_spec [OF rm_wf_split(2) [OF wf] v] rm_dropWhile_ends [OF wf] by blast
  have res: "deleteRangeEntries es c = (?t @ fst (del_run ?d c), snd (del_run ?d c))"
  proof (cases "?d = []")
    case True
    then have "?t = es" by (metis append_Nil2 takeWhile_dropWhile_id)
    with True show ?thesis
      by (simp add: deleteRangeEntries_def findFirstRangeEntryEndingAfter_def rm_search [OF wf])
  next
    case False
    then show ?thesis
      by (simp add: deleteRangeEntries_def findFirstRangeEntryEndingAfter_def rm_search [OF wf]
          deleteRangeLoop_run length_takeWhile_le)
  qed
  have pre: "rm_lookup ?t x = None" if "x \<in> rpoints c" for x
    using that by (auto simp: rm_lookup_None rpoints_def dest!: set_takeWhileD)
  have orig: "rm_lookup es x = (case rm_lookup ?t x of None \<Rightarrow> rm_lookup ?d x | Some v \<Rightarrow> Some v)" for x
    by (metis rm_lookup_append takeWhile_dropWhile_id)
  have "End (erange x) \<le> Start (erange y)" if "x \<in> set ?t" "y \<in> set (fst (del_run ?d c))" for x y
    using spec that(2) rm_wf_split(3) [OF wf that(1)] unfolding del_spec_def by (meson order.trans)
  then show "rm_wf (fst (deleteRangeEntries es c))"
    using spec rm_wf_split(1) [OF wf, of ?P] by (simp add: res del_spec_def)
  show "rm_lookup (fst (deleteRangeEntries es c)) x = (if x \<in> rpoints c then None else rm_lookup es x)"
    using spec pre [of x] unfolding orig [of x]
    by (simp add: res del_spec_def rm_lookup_append split: option.split)
  have "rm_lookup es x = rm_lookup ?d x" if "x \<in> rpoints c" for x
    unfolding orig [of x] using pre [OF that] by simp
  then show "snd (deleteRangeEntries es c) \<longleftrightarrow> (\<exists>x\<in>rpoints c. rm_lookup es x \<noteq> None)"
    using spec by (simp add: res del_spec_def)
qed

subsection \<open>Lookups, caches and the partial function as specification\<close>

lemma RangeMap_Get_lookup:
  assumes wf: "rm_wf (rm_entries m)"
  shows "RangeMap_Get (Some m) p = rm_lookup (rm_entries m) p"
proof (cases "dropWhile (\<lambda>e. End (erange e) \<le> p) (rm_entries m)")
  case Nil
  then have "takeWhile (\<lambda>e. End (erange e) \<le> p) (rm_entries m) = rm_entries m"
    by (metis append_Nil2 takeWhile_dropWhile_id)
  with Nil show ?thesis
    using rm_lookup_split [of p p "rm_entries m"] by (simp add: rm_search [OF wf] Let_def)
next
  case (Cons e es)
  have ne: "dropWhile (\<lambda>e. End (erange e) \<le> p) (rm_entries m) \<noteq> []" by (simp add: Cons)
  let ?n = "length (takeWhile (\<lambda>e. End (erange e) \<le> p) (rm_entries m))"
  have n: "rm_entries m \<noteq> []" "?n < length (rm_entries m)" "rm_entries m ! ?n = e"
    using nth_length_takeWhile_hd [OF ne] ne Cons
      length_takeWhile_le [of "\<lambda>e. End (erange e) \<le> p" "rm_entries m"]
    by (auto simp: order_le_less)
  have lt: "p < End (erange e)" using rm_dropWhile_ends [OF wf, of e p] Cons by simp
  have "\<forall>y\<in>set es. End (erange e) \<le> Start (erange y)"
    using rm_wf_split(2) [OF wf, of "\<lambda>e. End (erange e) \<le> p"] Cons by simp
  from rm_lookup_far [OF this lt] show ?thesis
    using n rm_lookup_split [of p p "rm_entries m"] Cons lt
    by (auto simp: rm_search [OF wf] Let_def Range_Contains_def rpoints_def)
qed

datatype (dead 'a, dead 'v) rm_op =
    RmPut 'a 'a 'v | RmGet 'a | RmGetOption 'a | RmDeleteRange 'a 'a | RmEntries | RmIsEmpty
  | RmClear | RmToJSON | RmString

datatype (dead 'a, dead 'v) rm_res =
    RmUnit | RmBool bool | RmVal "'v option" | RmMap "'a \<rightharpoonup> 'v"

text \<open>One call; what \<open>Entries\<close> returns is observed through the partial function it denotes, since
  the same function has several representations as touching entries.\<close>

primrec rm_step ::
    "(('a::linorder, 'v) rentry list \<Rightarrow> 'e + bytes) \<Rightarrow> ('a, 'v) rm_op \<Rightarrow> ('a, 'v) rangemap option
     \<Rightarrow> ('a, 'v) rangemap option \<times> ('a, 'v) rm_res" where
  "rm_step marshal (RmPut a b v) p = map_prod id RmBool (RangeMap_Put p a b v)"
| "rm_step marshal (RmGet x) p = (p, RmVal (RangeMap_Get p x))"
| "rm_step marshal (RmGetOption x) p = (p, RmVal (RangeMap_GetOption p x))"
| "rm_step marshal (RmDeleteRange a b) p = map_prod id RmBool (RangeMap_DeleteRange p a b)"
| "rm_step marshal RmEntries p = map_prod id (\<lambda>es. RmMap (rm_lookup es)) (RangeMap_Entries p)"
| "rm_step marshal RmIsEmpty p = (p, RmBool (RangeMap_IsEmpty p))"
| "rm_step marshal RmClear p = (RangeMap_Clear p, RmUnit)"
| "rm_step marshal RmToJSON p = (fst (RangeMap_ToJSON marshal p), RmUnit)"
| "rm_step marshal RmString p = (fst (RangeMap_String marshal p), RmUnit)"

text \<open>The same calls on a partial function.\<close>

primrec rm_spec ::
    "('a::linorder, 'v) rm_op \<Rightarrow> ('a \<rightharpoonup> 'v) \<Rightarrow> ('a \<rightharpoonup> 'v) \<times> ('a, 'v) rm_res" where
  "rm_spec (RmPut a b v) f = ((\<lambda>x. if a \<le> x \<and> x < b then Some v else f x), RmBool (a < b))"
| "rm_spec (RmGet x) f = (f, RmVal (f x))"
| "rm_spec (RmGetOption x) f = (f, RmVal (f x))"
| "rm_spec (RmDeleteRange a b) f =
     ((\<lambda>x. if a \<le> x \<and> x < b then None else f x), RmBool (\<exists>x. a \<le> x \<and> x < b \<and> f x \<noteq> None))"
| "rm_spec RmEntries f = (f, RmMap f)"
| "rm_spec RmIsEmpty f = (f, RmBool (\<forall>x. f x = None))"
| "rm_spec RmClear f = (Map.empty, RmUnit)"
| "rm_spec RmToJSON f = (f, RmUnit)"
| "rm_spec RmString f = (f, RmUnit)"

definition rm_inv ::
    "(('a::linorder, 'v) rentry list \<Rightarrow> 'e + bytes) \<Rightarrow> ('a, 'v) rangemap option \<Rightarrow> bool" where
  "rm_inv marshal p \<longleftrightarrow>
     (\<exists>m. p = Some m \<and> rm_wf (rm_entries m)
        \<and> (\<not> entriesDirty m \<longrightarrow> entriesCache m = [] \<or> entriesCache m = rm_entries m)
        \<and> ser_coherent (marshal (rm_entries m)) (rm_ser m))"

definition rm_abs :: "('a::linorder, 'v) rangemap option \<Rightarrow> ('a \<rightharpoonup> 'v)" where
  "rm_abs p = (case p of None \<Rightarrow> Map.empty | Some m \<Rightarrow> rm_lookup (rm_entries m))"

lemma rm_abs_Some [simp]: "rm_abs (Some m) = rm_lookup (rm_entries m)"
  by (simp add: rm_abs_def)

lemma rm_abs_new: "rm_abs (Some NewRangeMap) = Map.empty"
  by (simp add: NewRangeMap_def fun_eq_iff)

lemma rm_inv_new: "rm_inv marshal (Some NewRangeMap)"
  by (simp add: rm_inv_def NewRangeMap_def)

lemma rm_lookup_empty_iff: "rm_wf es \<Longrightarrow> (\<forall>x. rm_lookup es x = None) \<longleftrightarrow> es = []"
  by (cases es) (auto simp: Range_IsValid_def rpoints_def)

lemma rm_inv_Put:
  assumes "rm_inv marshal (Some m)"
  shows "rm_inv marshal (fst (RangeMap_Put (Some m) a b v))
       \<and> rm_spec (RmPut a b v) (rm_lookup (rm_entries m))
         = (rm_abs (fst (RangeMap_Put (Some m) a b v)), RmBool (snd (RangeMap_Put (Some m) a b v)))"
proof (cases "a < b")
  case True
  let ?e = "\<lparr>erange = \<lparr>Start = a, End = b\<rparr>, evalue = v\<rparr>"
  have "rm_wf (putRangeEntry (rm_entries m) ?e)"
    and "rm_lookup (putRangeEntry (rm_entries m) ?e) x
      = (if a \<le> x \<and> x < b then Some v else rm_lookup (rm_entries m) x)" for x
    using putRangeEntry_correct [of "rm_entries m" ?e] assms True
    by (auto simp: rm_inv_def Range_IsValid_def rpoints_def)
  then show ?thesis using True
    by (simp add: rm_inv_def newRangeEntry_def Range_IsValid_def rm_invalidateDerivedCaches_def
        fun_eq_iff)
next
  case False
  then show ?thesis using assms
    by (auto simp: newRangeEntry_def Range_IsValid_def fun_eq_iff)
qed

lemma rm_inv_DeleteRange:
  assumes "rm_inv marshal (Some m)"
  shows "rm_inv marshal (fst (RangeMap_DeleteRange (Some m) a b))
       \<and> rm_spec (RmDeleteRange a b) (rm_lookup (rm_entries m))
         = (rm_abs (fst (RangeMap_DeleteRange (Some m) a b)),
            RmBool (snd (RangeMap_DeleteRange (Some m) a b)))"
proof (cases "a < b \<and> rm_entries m \<noteq> []")
  case True
  let ?c = "\<lparr>Start = a, End = b\<rparr>"
  obtain nxt ch where d: "deleteRangeEntries (rm_entries m) ?c = (nxt, ch)" by fastforce
  have c: "rm_wf nxt"
    "rm_lookup nxt x = (if a \<le> x \<and> x < b then None else rm_lookup (rm_entries m) x)"
    "ch \<longleftrightarrow> (\<exists>x. a \<le> x \<and> x < b \<and> rm_lookup (rm_entries m) x \<noteq> None)" for x
    using deleteRangeEntries_correct [of "rm_entries m" ?c] assms True d
    by (auto simp: rm_inv_def Range_IsValid_def rpoints_def)
  have "RangeMap_DeleteRange (Some m) a b
      = (if ch then (Some (rm_invalidateDerivedCaches (m\<lparr>rm_entries := nxt\<rparr>)), ch) else (Some m, ch))"
    using True d by (simp add: Range_IsValid_def)
  with assms c show ?thesis
    by (cases ch) (auto simp: rm_inv_def rm_invalidateDerivedCaches_def fun_eq_iff)
next
  case False
  then show ?thesis using assms by (auto simp: Range_IsValid_def fun_eq_iff)
qed

lemma rm_inv_Entries:
  assumes "rm_inv marshal (Some m)"
  obtains t where "RangeMap_Entries (Some m) = (Some t, rm_entries m)"
    and "rm_entries t = rm_entries m" and "rm_ser t = rm_ser m" and "rm_inv marshal (Some t)"
proof (cases "rm_entries m = [] \<or> \<not> entriesDirty m \<and> entriesCache m \<noteq> []")
  case True
  then show ?thesis using assms that [of m] by (auto simp: rm_inv_def)
next
  case False
  then show ?thesis
    using assms that [of "m\<lparr>entriesCache := rm_entries m, entriesDirty := False\<rparr>"]
    by (auto simp: rm_inv_def)
qed

lemma rm_inv_ToJSON:
  assumes "rm_inv marshal (Some m)"
  shows "rm_inv marshal (fst (RangeMap_ToJSON marshal (Some m)))
       \<and> rm_abs (fst (RangeMap_ToJSON marshal (Some m))) = rm_lookup (rm_entries m)
       \<and> snd (RangeMap_ToJSON marshal (Some m)) = marshal (rm_entries m)"
proof (cases "jsonDirty (rm_ser m) \<or> jsonCache (rm_ser m) = None")
  case True
  obtain t where t: "RangeMap_Entries (Some m) = (Some t, rm_entries m)"
      "rm_entries t = rm_entries m" "rm_inv marshal (Some t)"
    using rm_inv_Entries [OF assms] by metis
  then have tj: "RangeMap_ToJSON marshal (Some m)
      = (case marshal (rm_entries m) of Inl e \<Rightarrow> (Some t, Inl e)
         | Inr d \<Rightarrow> (Some (t\<lparr>rm_ser := ser_store d (rm_ser t)\<rparr>), Inr d))"
    using True by (cases "jsonDirty (rm_ser m)")
      (auto simp del: RangeMap_Entries.simps split: sum.splits)
  show ?thesis
  proof (cases "marshal (rm_entries m)")
    case (Inl e)
    then show ?thesis using tj t by simp
  next
    case (Inr d)
    then show ?thesis using tj t by (auto simp: rm_inv_def)
  qed
next
  case False
  then show ?thesis using assms by (auto simp: rm_inv_def ser_coherent_def)
qed

lemma rm_inv_String:
  assumes "rm_inv marshal (Some m)"
  shows "rm_inv marshal (fst (RangeMap_String marshal (Some m)))
       \<and> rm_abs (fst (RangeMap_String marshal (Some m))) = rm_lookup (rm_entries m)
       \<and> snd (RangeMap_String marshal (Some m))
         = (case marshal (rm_entries m) of Inl _ \<Rightarrow> ''[]'' | Inr d \<Rightarrow> d)"
proof -
  have "marshal (rm_entries m) = Inr (stringCache (rm_ser m))"
    if "\<not> jsonDirty (rm_ser m)" "stringCache (rm_ser m) \<noteq> []"
    using assms that by (auto simp: rm_inv_def ser_coherent_def)
  then show ?thesis
    using assms rm_inv_ToJSON [OF assms]
    by (cases "RangeMap_ToJSON marshal (Some m)"; cases "marshal (rm_entries m)")
      (auto simp: RangeMap_String_def simp del: RangeMap_ToJSON.simps)
qed

interpretation rm_ref: data_refinement "rm_step marshal" "rm_inv marshal" rm_spec rm_abs
  for marshal :: "('a::linorder, 'v) rentry list \<Rightarrow> 'e + bytes"
proof unfold_locales
  fix p :: "('a, 'v) rangemap option" and c :: "('a, 'v) rm_op"
  assume inv: "rm_inv marshal p"
  then obtain m where p: "p = Some m" and wf: "rm_wf (rm_entries m)" by (auto simp: rm_inv_def)
  note del = RangeMap_Put.simps RangeMap_DeleteRange.simps RangeMap_ToJSON.simps
    RangeMap_Get.simps RangeMap_Entries.simps
  obtain t where t: "RangeMap_Entries p = (Some t, rm_entries m)" "rm_entries t = rm_entries m"
      "rm_inv marshal (Some t)"
    using rm_inv_Entries [OF inv [unfolded p]] p by metis
  note facts = inv [unfolded p] rm_inv_Put [OF inv [unfolded p]]
    rm_inv_DeleteRange [OF inv [unfolded p]] rm_inv_ToJSON [OF inv [unfolded p]]
    rm_inv_String [OF inv [unfolded p]]
  show "rm_inv marshal (fst (rm_step marshal c p))"
    using facts t by (cases c) (auto simp: p rm_inv_def simp del: del rm_spec.simps)
  show "rm_spec c (rm_abs p) = (rm_abs (fst (rm_step marshal c p)), snd (rm_step marshal c p))"
    using facts t rm_lookup_empty_iff [OF wf]
    by (cases c)
      (simp_all add: p RangeMap_IsEmpty_def RangeMap_GetOption_def RangeMap_Get_lookup [OF wf]
        fun_eq_iff del: del split: option.split)
qed

text \<open>
  C17. Over any history of calls on a fresh \<open>RangeMap\<close>, every call returns what it would return on
  a partial function from points to values: \<open>Put\<close> overrides on its half-open range, \<open>DeleteRange\<close>
  undefines it and reports whether some point lost its value, \<open>Get\<close> is application, and \<open>Entries\<close>
  always denotes the current function.
\<close>

theorem rangemap_refines_function:
  "snd (run (rm_step marshal) cs (Some NewRangeMap)) = snd (run rm_spec cs Map.empty)"
  using rm_ref.run_results [OF rm_inv_new, of marshal cs] by (simp only: rm_abs_new)

text \<open>
  After any history the entries are valid, ascending and disjoint, and \<open>ToJSON\<close> and \<open>String\<close>
  return the marshalled current entries: the caches that serve them are never stale.
\<close>

theorem rangemap_entries_fresh:
  "\<exists>m. fst (run (rm_step marshal) cs (Some NewRangeMap)) = Some m
     \<and> rm_wf (rm_entries m)
     \<and> snd (RangeMap_Entries (Some m)) = rm_entries m
     \<and> snd (RangeMap_ToJSON marshal (Some m)) = marshal (rm_entries m)
     \<and> snd (RangeMap_String marshal (Some m))
       = (case marshal (rm_entries m) of Inl _ \<Rightarrow> ''[]'' | Inr d \<Rightarrow> d)"
proof -
  have inv: "rm_inv marshal (fst (run (rm_step marshal) cs (Some NewRangeMap)))"
    by (rule rm_ref.run_inv [OF rm_inv_new])
  then obtain m where m: "fst (run (rm_step marshal) cs (Some NewRangeMap)) = Some m"
    by (auto simp: rm_inv_def)
  with inv have i: "rm_inv marshal (Some m)" by simp
  obtain t where "RangeMap_Entries (Some m) = (Some t, rm_entries m)"
    using rm_inv_Entries [OF i] by metis
  then show ?thesis
    using m i rm_inv_ToJSON [OF i] rm_inv_String [OF i]
    by (simp add: rm_inv_def del: RangeMap_Entries.simps RangeMap_ToJSON.simps)
qed

end
