(* ===== verification/List_Ring.thy ===== *)
theory List_Ring
  imports List_JSON
begin

text \<open>
  \<^verbatim>\<open>collectionx/list/deque.go\<close> and \<^verbatim>\<open>collectionx/list/ring_buffer.go\<close>: two containers over a circular
  array \<open>buf\<close> with a \<open>head\<close> index and a \<open>size\<close>. \<open>ring_view\<close> reads such an array as the list of its
  logical items and \<open>ring_ok\<close> is their common invariant. Shown: over any history the deque is a
  list with two ends, and the ring buffer a bounded queue that drops its oldest item when full.

  The deque's methods dereference their receiver without a nil check, so its state here is the
  struct itself; the ring buffer checks, so its receiver is an option.
\<close>

subsection \<open>Circular arrays\<close>

definition ring_view :: "'a list \<Rightarrow> nat \<Rightarrow> nat \<Rightarrow> 'a list" where
  "ring_view b h n = map (\<lambda>i. b ! ((h + i) mod length b)) [0 ..< n]"

definition ring_ok :: "'a list \<Rightarrow> nat \<Rightarrow> nat \<Rightarrow> bool" where
  "ring_ok b h n \<longleftrightarrow> n \<le> length b \<and> (b \<noteq> [] \<longrightarrow> h < length b)"

lemma ring_view_simps [simp]:
  "ring_view b h 0 = []" "length (ring_view b h n) = n"
  "i < n \<Longrightarrow> ring_view b h n ! i = b ! ((h + i) mod length b)"
  by (simp_all add: ring_view_def)

lemma ring_view_nil [simp]: "ring_view b h n = [] \<longleftrightarrow> n = 0"
  by (simp add: ring_view_def)

lemma ring_index_inj:
  fixes h i j n :: nat
  assumes "i < n" "j < n" "(h + i) mod n = (h + j) mod n"
  shows "i = j"
proof -
  have eq: "x = y" if le: "x \<le> y" and y: "y < n" and m: "(h + x) mod n = (h + y) mod n" for x y
  proof -
    have "n dvd (h + y) - (h + x)" using m le by (metis mod_eq_dvd_iff_nat add_le_cancel_left)
    moreover have "(h + y) - (h + x) = y - x" by simp
    moreover have "y - x < n" using y by simp
    ultimately have "y - x = 0" by (metis dvd_imp_le not_le neq0_conv)
    with le show ?thesis by simp
  qed
  show ?thesis using eq [of i j] eq [of j i] assms by (metis linear)
qed

lemma ring_index_back:
  fixes h n :: nat
  assumes "h < n"
  shows "((h + 1) mod n + (n - 1)) mod n = h"
proof -
  have "((h + 1) mod n + (n - 1)) mod n = (h + 1 + (n - 1)) mod n" by (rule mod_add_left_eq)
  also have "h + 1 + (n - 1) = h + n" using assms by simp
  finally show ?thesis using assms by simp
qed

lemma ring_view_update:
  assumes "j < length b" and "n \<le> j"
  shows "ring_view (b[(h + j) mod length b := x]) h n = ring_view b h n"
proof (rule nth_equalityI)
  fix i assume "i < length (ring_view (b[(h + j) mod length b := x]) h n)"
  then have i: "i < n" by simp
  then have "(h + i) mod length b \<noteq> (h + j) mod length b"
    using assms ring_index_inj [of i "length b" j h] by auto
  with i show "ring_view (b[(h + j) mod length b := x]) h n ! i = ring_view b h n ! i" by simp
qed simp

lemma ring_view_push_back:
  assumes "n < length b"
  shows "ring_view (b[(h + n) mod length b := x]) h (Suc n) = ring_view b h n @ [x]"
proof -
  have "(h + n) mod length b < length b" using assms by (metis mod_less_divisor not_less0 neq0_conv)
  moreover have "ring_view c h (Suc n) = ring_view c h n @ [c ! ((h + n) mod length c)]" for c :: "'a list"
    by (simp add: ring_view_def)
  ultimately show ?thesis using ring_view_update [OF assms order_refl, of h x] by simp
qed

lemma ring_view_Cons:
  "0 < n \<Longrightarrow> ring_view b h n = b ! (h mod length b) # ring_view b ((h + 1) mod length b) (n - 1)"
proof (rule nth_equalityI)
  fix i assume n: "0 < n" and "i < length (ring_view b h n)"
  then have i: "i < n" by simp
  show "ring_view b h n ! i
      = (b ! (h mod length b) # ring_view b ((h + 1) mod length b) (n - 1)) ! i"
  proof (cases i)
    case (Suc j)
    have "((h + 1) mod length b + j) mod length b = (h + 1 + j) mod length b"
      by (rule mod_add_left_eq)
    then show ?thesis using i Suc by simp
  qed (use i in simp)
qed simp

lemma ring_view_push_front:
  assumes "n < length b" and "h < length b"
  defines "h' \<equiv> (h + length b - 1) mod length b"
  shows "ring_view (b[h' := x]) h' (Suc n) = x # ring_view b h n"
proof -
  have h': "h' < length b" using assms(2) unfolding h'_def by (intro mod_less_divisor) auto
  have bk: "(h' + 1) mod length b = h"
    using assms(1,2) by (cases h) (auto simp: h'_def mod_Suc)
  have last: "h' = (h + (length b - 1)) mod length b" using assms(2) by (simp add: h'_def)
  have "ring_view (b[h' := x]) h n = ring_view b h n"
    unfolding last using assms(1) by (intro ring_view_update) auto
  moreover have "ring_view (b[h' := x]) h' (Suc n) = x # ring_view (b[h' := x]) h n"
    using ring_view_Cons [of "Suc n" "b[h' := x]" h'] h' bk by simp
  ultimately show ?thesis by simp
qed

lemma ring_view_pop_front:
  assumes "0 < n" "n \<le> length b" "h < length b"
  shows "ring_view b h n = b ! h # ring_view (b[h := z]) ((h + 1) mod length b) (n - 1)"
proof -
  let ?h' = "(h + 1) mod length b"
  have "(?h' + (length b - 1)) mod length b = h" by (rule ring_index_back [OF assms(3)])
  then have "ring_view (b[h := z]) ?h' (n - 1) = ring_view b ?h' (n - 1)"
    using ring_view_update [of "length b - 1" b "n - 1" ?h' z] assms by simp
  then show ?thesis using ring_view_Cons [OF assms(1), of b h] assms(3) by simp
qed

lemma ring_view_pop_back:
  assumes "0 < n" "n \<le> length b"
  shows "ring_view (b[(h + (n - 1)) mod length b := z]) h (n - 1) = butlast (ring_view b h n)"
    and "ring_view b h n = butlast (ring_view b h n) @ [b ! ((h + (n - 1)) mod length b)]"
proof -
  have s: "ring_view b h n = ring_view b h (n - 1) @ [b ! ((h + (n - 1)) mod length b)]"
    using assms(1) by (cases n) (simp_all add: ring_view_def)
  show "ring_view (b[(h + (n - 1)) mod length b := z]) h (n - 1) = butlast (ring_view b h n)"
    using ring_view_update [of "n - 1" b "n - 1" h z] assms by (simp add: s)
  show "ring_view b h n = butlast (ring_view b h n) @ [b ! ((h + (n - 1)) mod length b)]"
    by (simp add: s)
qed

lemma ring_view_rotate:
  assumes "h < length b"
  shows "ring_view (b[h := x]) ((h + 1) mod length b) (length b) = tl (ring_view b h (length b)) @ [x]"
proof -
  let ?h' = "(h + 1) mod length b" and ?n = "length b"
  have pos: "0 < ?n" using assms by auto
  have pop: "ring_view (b[h := x]) ?h' (?n - 1) = tl (ring_view b h ?n)"
    using ring_view_pop_front [OF pos order_refl assms, of x] by simp
  have last: "(?h' + (?n - 1)) mod ?n = h" by (rule ring_index_back [OF assms])
  have "ring_view (b[h := x]) ?h' ?n
      = ring_view (b[h := x]) ?h' (?n - 1) @ [(b[h := x]) ! ((?h' + (?n - 1)) mod ?n)]"
    using pos by (cases ?n) (simp_all add: ring_view_def)
  then show ?thesis using pop last assms by simp
qed

text \<open>The loop that zeroes the occupied slots.\<close>

definition ring_zero :: "'a::zero list \<Rightarrow> nat \<Rightarrow> nat \<Rightarrow> 'a list" where
  "ring_zero b h n = foldl (\<lambda>c i. c[(h + i) mod length c := 0]) b [0 ..< n]"

lemma length_ring_zero [simp]: "length (ring_zero b h n) = length b"
proof -
  have "length (foldl (\<lambda>c i. c[(h + i) mod length c := 0]) b xs) = length b" for xs
    by (induction xs arbitrary: b) auto
  then show ?thesis by (simp add: ring_zero_def)
qed

lemma ring_zero_nil [simp]: "ring_zero b h n = [] \<longleftrightarrow> b = []"
  by (metis length_0_conv length_ring_zero)

subsection \<open>Deque\<close>

record 'a deque =
  dq_buf :: "'a list option"
  dq_head :: nat
  dq_size :: nat

text \<open>\<open>d.buf\<close> read as a slice: a nil slice has no elements.\<close>

definition dq_slice :: "'a deque \<Rightarrow> 'a list" where
  "dq_slice d = (case dq_buf d of None \<Rightarrow> [] | Some b \<Rightarrow> b)"

definition Deque_physicalIndex :: "'a deque \<Rightarrow> nat \<Rightarrow> nat" where
  "Deque_physicalIndex d logicalIndex = (dq_head d + logicalIndex) mod length (dq_slice d)"

text \<open>\<open>for capacity < need { capacity *= 2 }\<close>; both callers start it at 4 or more, so the case of a
  zero capacity, where the Go loop would not end, does not arise.\<close>

function doubleUntil :: "nat \<Rightarrow> nat \<Rightarrow> nat" where
  "doubleUntil capacity need =
     (if capacity < need \<and> 0 < capacity then doubleUntil (capacity * 2) need else capacity)"
  by pat_completeness auto
termination
  by (relation "measure (\<lambda>(capacity, need). need - capacity)") auto

declare doubleUntil.simps [simp del]

definition Deque_ensureCapacity :: "'a::zero deque \<Rightarrow> nat \<Rightarrow> 'a deque" where
  "Deque_ensureCapacity d extra =
     (if dq_buf d = None then d\<lparr>dq_buf := Some (replicate (doubleUntil 4 extra) 0)\<rparr>
      else let need = dq_size d + extra
           in if need \<le> length (dq_slice d) then d
              else let newCap = doubleUntil (max (length (dq_slice d) * 2) 4) need;
                       newBuf = foldl (\<lambda>nb i. nb[i := dq_slice d ! Deque_physicalIndex d i])
                                  (replicate newCap 0) [0 ..< dq_size d]
                   in d\<lparr>dq_buf := Some newBuf, dq_head := 0\<rparr>)"

definition Deque_pushFrontOne :: "'a::zero deque \<Rightarrow> 'a \<Rightarrow> 'a deque" where
  "Deque_pushFrontOne d0 item =
     (let d = Deque_ensureCapacity d0 1
      in if dq_size d = 0
         then d\<lparr>dq_head := 0, dq_buf := Some ((dq_slice d)[0 := item]), dq_size := 1\<rparr>
         else let h = (dq_head d + length (dq_slice d) - 1) mod length (dq_slice d)
              in d\<lparr>dq_head := h, dq_buf := Some ((dq_slice d)[h := item]), dq_size := dq_size d + 1\<rparr>)"

definition Deque_pushBackOne :: "'a::zero deque \<Rightarrow> 'a \<Rightarrow> 'a deque" where
  "Deque_pushBackOne d0 item =
     (let d = Deque_ensureCapacity d0 1; idx = Deque_physicalIndex d (dq_size d)
      in d\<lparr>dq_buf := Some ((dq_slice d)[idx := item]), dq_size := dq_size d + 1\<rparr>)"

definition Deque_PushFront :: "'a::zero deque \<Rightarrow> 'a list \<Rightarrow> 'a deque" where
  "Deque_PushFront d items = (if items = [] then d else foldl Deque_pushFrontOne d items)"

definition Deque_PushBack :: "'a::zero deque \<Rightarrow> 'a list \<Rightarrow> 'a deque" where
  "Deque_PushBack d items = (if items = [] then d else foldl Deque_pushBackOne d items)"

definition NewDeque :: "'a::zero list \<Rightarrow> 'a deque" where
  "NewDeque items = Deque_PushBack \<lparr>dq_buf = None, dq_head = 0, dq_size = 0\<rparr> items"

definition Deque_PopFront :: "'a::zero deque \<Rightarrow> 'a deque \<times> 'a option" where
  "Deque_PopFront d =
     (if dq_size d = 0 then (d, None)
      else let v = dq_slice d ! dq_head d;
               d1 = d\<lparr>dq_buf := Some ((dq_slice d)[dq_head d := 0])\<rparr>;
               d2 = d1\<lparr>dq_head := (dq_head d1 + 1) mod length (dq_slice d1),
                       dq_size := dq_size d1 - 1\<rparr>
           in (if dq_size d2 = 0 then d2\<lparr>dq_head := 0\<rparr> else d2, Some v))"

definition Deque_PopBack :: "'a::zero deque \<Rightarrow> 'a deque \<times> 'a option" where
  "Deque_PopBack d =
     (if dq_size d = 0 then (d, None)
      else let idx = Deque_physicalIndex d (dq_size d - 1);
               v = dq_slice d ! idx;
               d1 = d\<lparr>dq_buf := Some ((dq_slice d)[idx := 0]), dq_size := dq_size d - 1\<rparr>
           in (if dq_size d1 = 0 then d1\<lparr>dq_head := 0\<rparr> else d1, Some v))"

definition Deque_Front :: "'a deque \<Rightarrow> 'a option" where
  "Deque_Front d = (if dq_size d = 0 then None else Some (dq_slice d ! dq_head d))"

definition Deque_Back :: "'a deque \<Rightarrow> 'a option" where
  "Deque_Back d = (if dq_size d = 0 then None
                   else Some (dq_slice d ! Deque_physicalIndex d (dq_size d - 1)))"

definition Deque_Get :: "'a deque \<Rightarrow> int \<Rightarrow> 'a option" where
  "Deque_Get d index =
     (if index < 0 \<or> index \<ge> int (dq_size d) then None
      else Some (dq_slice d ! Deque_physicalIndex d (nat index)))"

definition Deque_Len :: "'a deque \<Rightarrow> nat" where
  "Deque_Len d = dq_size d"

definition Deque_IsEmpty :: "'a deque \<Rightarrow> bool" where
  "Deque_IsEmpty d \<longleftrightarrow> Deque_Len d = 0"

definition Deque_Clear :: "'a::zero deque \<Rightarrow> 'a deque" where
  "Deque_Clear d =
     d\<lparr>dq_buf := map_option (\<lambda>b. ring_zero b (dq_head d) (dq_size d)) (dq_buf d),
       dq_head := 0, dq_size := 0\<rparr>"

definition Deque_Values :: "'a::zero deque \<Rightarrow> 'a list" where
  "Deque_Values d =
     (if dq_size d = 0 then []
      else foldl (\<lambda>out i. out[i := dq_slice d ! Deque_physicalIndex d i])
             (replicate (dq_size d) 0) [0 ..< dq_size d])"

definition Deque_Range ::
    "'a deque \<Rightarrow> ('st \<Rightarrow> nat \<times> 'a \<Rightarrow> 'st \<times> bool) option \<Rightarrow> 'st \<Rightarrow> 'st" where
  "Deque_Range d fn st =
     (case fn of
        None \<Rightarrow> st
      | Some f \<Rightarrow> range_until (\<lambda>s i. f s (i, dq_slice d ! Deque_physicalIndex d i)) st
                    [0 ..< dq_size d])"

definition Deque_ToJSON :: "'a::zero list json_marshal \<Rightarrow> 'a deque \<Rightarrow> string + bytes" where
  "Deque_ToJSON marshal d = marshalListJSON marshal (Deque_Values d) ''deque''"

definition Deque_MarshalJSON ::
    "string + bytes \<Rightarrow> 'a::zero list json_marshal \<Rightarrow> 'a deque \<Rightarrow> string + bytes" where
  "Deque_MarshalJSON n marshal d = forwardListJSON n (\<lambda>_. Deque_ToJSON marshal d) ''deque''"

definition Deque_String :: "'a::zero list json_marshal \<Rightarrow> 'a deque \<Rightarrow> string" where
  "Deque_String marshal d = StringFromToJSON (Some (\<lambda>_. Deque_ToJSON marshal d)) ''[]''"

subsection \<open>The deque is a list with two ends\<close>

definition dq_ok :: "'a deque \<Rightarrow> bool" where
  "dq_ok d \<longleftrightarrow> ring_ok (dq_slice d) (dq_head d) (dq_size d) \<and> dq_buf d \<noteq> Some []
     \<and> (dq_buf d = None \<longrightarrow> dq_head d = 0)"

definition dq_items :: "'a deque \<Rightarrow> 'a list" where
  "dq_items d = ring_view (dq_slice d) (dq_head d) (dq_size d)"

lemma length_dq_items [simp]: "length (dq_items d) = dq_size d"
  by (simp add: dq_items_def)

lemma dq_items_nil [simp]: "dq_items d = [] \<longleftrightarrow> dq_size d = 0"
  by (metis length_0_conv length_dq_items)

lemma dq_slice_update [simp]: "dq_slice (d\<lparr>dq_buf := Some b\<rparr>) = b"
  "dq_slice (d\<lparr>dq_head := h\<rparr>) = dq_slice d" "dq_slice (d\<lparr>dq_size := n\<rparr>) = dq_slice d"
  by (simp_all add: dq_slice_def)

lemma fill_loop:
  "n \<le> c \<Longrightarrow> foldl (\<lambda>out i. out[i := f i]) (replicate c z) [0 ..< n]
     = map f [0 ..< n] @ replicate (c - n) z"
proof (induction n)
  case (Suc n)
  then have "foldl (\<lambda>out i. out[i := f i]) (replicate c z) [0 ..< n]
      = map f [0 ..< n] @ z # replicate (c - Suc n) z"
    by (simp flip: replicate_Suc add: Suc_diff_Suc)
  then show ?case by (simp add: list_update_append)
qed simp

lemma doubleUntil_ge: "0 < capacity \<Longrightarrow> need \<le> doubleUntil capacity need \<and> capacity \<le> doubleUntil capacity need"
proof (induction capacity need rule: doubleUntil.induct)
  case (1 capacity need)
  then show ?case
    by (cases "capacity < need") (simp_all add: doubleUntil.simps [of capacity need])
qed

lemma dq_okD:
  assumes "dq_ok d"
  shows "dq_size d \<le> length (dq_slice d)" and "dq_buf d = None \<Longrightarrow> dq_size d = 0"
    and "0 < dq_size d \<Longrightarrow> dq_head d < length (dq_slice d)"
    and "dq_buf d = Some b \<Longrightarrow> dq_head d < length b"
  using assms by (auto simp: dq_ok_def ring_ok_def dq_slice_def split: option.splits)

lemma ensureCapacity_items:
  assumes ok: "dq_ok d"
  defines "e \<equiv> Deque_ensureCapacity d 1"
  shows "dq_ok e" and "dq_items e = dq_items d" and "dq_size e = dq_size d"
    and "dq_size d < length (dq_slice e)" and "dq_head e < length (dq_slice e)"
    and "\<exists>b. dq_buf e = Some b"
proof -
  have "dq_ok e \<and> dq_items e = dq_items d \<and> dq_size e = dq_size d
      \<and> dq_size d < length (dq_slice e) \<and> dq_head e < length (dq_slice e) \<and> (\<exists>b. dq_buf e = Some b)"
  proof (cases "dq_buf d")
    case None
    then have z: "dq_size d = 0" "dq_slice d = []" using dq_okD [OF ok] by (simp_all add: dq_slice_def)
    have "e = d\<lparr>dq_buf := Some (replicate (doubleUntil 4 1) 0)\<rparr>"
      using None by (simp add: e_def Deque_ensureCapacity_def)
    moreover have "doubleUntil 4 1 = 4" by (simp add: doubleUntil.simps)
    moreover have "dq_head d = 0" using ok None by (simp add: dq_ok_def)
    ultimately show ?thesis using z by (auto simp: dq_ok_def ring_ok_def dq_items_def)
  next
    case (Some b)
    show ?thesis
    proof (cases "dq_size d + 1 \<le> length b")
      case True
      then show ?thesis using Some ok dq_okD(4) [OF ok Some]
        by (simp add: e_def Deque_ensureCapacity_def dq_slice_def)
    next
      case False
      define c where "c = doubleUntil (max (length b * 2) 4) (dq_size d + 1)"
      have c: "dq_size d + 1 \<le> c" unfolding c_def using doubleUntil_ge by simp
      have sl: "dq_slice d = b" using Some by (simp add: dq_slice_def)
      let ?nb = "map (\<lambda>i. b ! Deque_physicalIndex d i) [0 ..< dq_size d] @ replicate (c - dq_size d) 0"
      have e: "e = d\<lparr>dq_buf := Some ?nb, dq_head := 0\<rparr>"
        using Some False c fill_loop [of "dq_size d" c "\<lambda>i. b ! Deque_physicalIndex d i" 0]
        by (simp add: e_def Deque_ensureCapacity_def sl c_def [symmetric, simplified] Let_def)
      have "ring_view ?nb 0 (dq_size d) = ring_view b (dq_head d) (dq_size d)"
        using c by (intro nth_equalityI) (auto simp: nth_append Deque_physicalIndex_def sl)
      then show ?thesis using c by (auto simp: e dq_ok_def ring_ok_def dq_items_def sl)
    qed
  qed
  then show "dq_ok e" and "dq_items e = dq_items d" and "dq_size e = dq_size d"
    and "dq_size d < length (dq_slice e)" and "dq_head e < length (dq_slice e)"
    and "\<exists>b. dq_buf e = Some b" by auto
qed

lemma pushBackOne_items:
  assumes "dq_ok d"
  shows "dq_ok (Deque_pushBackOne d x) \<and> dq_items (Deque_pushBackOne d x) = dq_items d @ [x]"
proof -
  note e = ensureCapacity_items [OF assms]
  let ?e = "Deque_ensureCapacity d 1"
  have "ring_view ((dq_slice ?e)[Deque_physicalIndex ?e (dq_size d) := x]) (dq_head ?e) (Suc (dq_size d))
      = dq_items d @ [x]"
    using ring_view_push_back [OF e(4), of "dq_head ?e" x] e(2,3)
    by (simp add: Deque_physicalIndex_def dq_items_def)
  moreover have "(dq_slice ?e)[i := x] \<noteq> []" for i using e(4) by auto
  ultimately show ?thesis using e
    by (simp add: Deque_pushBackOne_def dq_ok_def ring_ok_def dq_items_def Let_def)
qed

lemma pushFrontOne_items:
  assumes "dq_ok d"
  shows "dq_ok (Deque_pushFrontOne d x) \<and> dq_items (Deque_pushFrontOne d x) = x # dq_items d"
proof -
  note e = ensureCapacity_items [OF assms]
  let ?e = "Deque_ensureCapacity d 1"
  have ne: "(dq_slice ?e)[i := x] \<noteq> []" for i using e(4) by auto
  show ?thesis
  proof (cases "dq_size d = 0")
    case True
    then have "ring_view ((dq_slice ?e)[0 := x]) 0 1 = [x]"
      using ring_view_push_back [of 0 "dq_slice ?e" 0 x] e(4) by simp
    with True e ne show ?thesis
      by (auto simp: Deque_pushFrontOne_def dq_ok_def ring_ok_def dq_items_def Let_def)
  next
    case False
    let ?h = "(dq_head ?e + length (dq_slice ?e) - 1) mod length (dq_slice ?e)"
    have "?h < length (dq_slice ?e)" using e(5) by (intro mod_less_divisor) auto
    moreover have "ring_view ((dq_slice ?e)[?h := x]) ?h (Suc (dq_size d)) = x # dq_items d"
      using ring_view_push_front [OF e(4,5), of x] e(2,3) by (simp add: dq_items_def)
    ultimately show ?thesis using False e ne
      by (simp add: Deque_pushFrontOne_def dq_ok_def ring_ok_def dq_items_def Let_def)
  qed
qed

lemma PushBack_items:
  assumes "dq_ok d"
  shows "dq_ok (Deque_PushBack d xs) \<and> dq_items (Deque_PushBack d xs) = dq_items d @ xs"
proof -
  have "dq_ok (foldl Deque_pushBackOne d xs) \<and> dq_items (foldl Deque_pushBackOne d xs) = dq_items d @ xs"
    using assms by (induction xs arbitrary: d) (auto simp: pushBackOne_items)
  then show ?thesis using assms by (simp add: Deque_PushBack_def)
qed

lemma PushFront_items:
  assumes "dq_ok d"
  shows "dq_ok (Deque_PushFront d xs) \<and> dq_items (Deque_PushFront d xs) = rev xs @ dq_items d"
proof -
  have "dq_ok (foldl Deque_pushFrontOne d xs)
      \<and> dq_items (foldl Deque_pushFrontOne d xs) = rev xs @ dq_items d"
    using assms by (induction xs arbitrary: d) (auto simp: pushFrontOne_items)
  then show ?thesis using assms by (simp add: Deque_PushFront_def)
qed

lemma dq_nonempty_buf:
  assumes "dq_ok d" and "0 < dq_size d"
  obtains b where "dq_buf d = Some b" "dq_slice d = b" "dq_head d < length b" "dq_size d \<le> length b"
  using assms dq_okD [OF assms(1)] by (cases "dq_buf d") (auto simp: dq_slice_def)

lemma PopFront_items:
  assumes ok: "dq_ok d"
  shows "dq_ok (fst (Deque_PopFront d))"
    and "dq_items (fst (Deque_PopFront d)) = tl (dq_items d)"
    and "snd (Deque_PopFront d) = (if dq_items d = [] then None else Some (hd (dq_items d)))"
proof -
  have "dq_ok (fst (Deque_PopFront d)) \<and> dq_items (fst (Deque_PopFront d)) = tl (dq_items d)
      \<and> snd (Deque_PopFront d) = (if dq_items d = [] then None else Some (hd (dq_items d)))"
  proof (cases "dq_size d = 0")
    case True
    then show ?thesis using ok by (metis Deque_PopFront_def dq_items_nil fst_conv list.sel(2) snd_conv)
  next
    case False
    then obtain b where b: "dq_buf d = Some b" "dq_slice d = b" "dq_head d < length b"
        "dq_size d \<le> length b"
      using dq_nonempty_buf [OF ok] by blast
    have v: "dq_items d = b ! dq_head d
        # ring_view (b[dq_head d := 0]) ((dq_head d + 1) mod length b) (dq_size d - 1)"
      unfolding dq_items_def b(2) using ring_view_pop_front [of "dq_size d" b "dq_head d" 0] b False
      by simp
    have lt: "Suc (dq_head d) mod length b < length b" using b(3) by (intro mod_less_divisor) auto
    have "b \<noteq> []" using b(3) by auto
    then show ?thesis using False b(2,4) lt
      by (cases "dq_size d - 1 = 0")
        (auto simp: v [unfolded dq_items_def b(2)] Deque_PopFront_def dq_ok_def ring_ok_def dq_items_def Let_def)
  qed
  then show "dq_ok (fst (Deque_PopFront d))"
    and "dq_items (fst (Deque_PopFront d)) = tl (dq_items d)"
    and "snd (Deque_PopFront d) = (if dq_items d = [] then None else Some (hd (dq_items d)))"
    by blast+
qed

lemma PopBack_items:
  assumes ok: "dq_ok d"
  shows "dq_ok (fst (Deque_PopBack d))"
    and "dq_items (fst (Deque_PopBack d)) = butlast (dq_items d)"
    and "snd (Deque_PopBack d) = (if dq_items d = [] then None else Some (last (dq_items d)))"
proof -
  have "dq_ok (fst (Deque_PopBack d)) \<and> dq_items (fst (Deque_PopBack d)) = butlast (dq_items d)
      \<and> snd (Deque_PopBack d) = (if dq_items d = [] then None else Some (last (dq_items d)))"
  proof (cases "dq_size d = 0")
    case True
    then show ?thesis using ok
      by (metis Deque_PopBack_def dq_items_nil fst_conv butlast.simps(1) snd_conv)
  next
    case False
    then obtain b where b: "dq_buf d = Some b" "dq_slice d = b" "dq_head d < length b"
        "dq_size d \<le> length b"
      using dq_nonempty_buf [OF ok] by blast
    let ?i = "(dq_head d + (dq_size d - 1)) mod length b"
    have pos: "0 < dq_size d" using False by simp
    have items: "dq_items d = ring_view b (dq_head d) (dq_size d)" by (simp add: dq_items_def b(2))
    note pb = ring_view_pop_back [OF pos b(4), of "dq_head d"]
    have last: "last (dq_items d) = b ! ?i"
      unfolding items using pb(2) by (metis last_snoc)
    have "b \<noteq> []" using b(3) by auto
    then show ?thesis using False b(2,3,4) last pb(1) [of 0, folded items]
      by (cases "dq_size d - 1 = 0")
        (auto simp: Deque_PopBack_def Deque_physicalIndex_def dq_ok_def ring_ok_def dq_items_def Let_def)
  qed
  then show "dq_ok (fst (Deque_PopBack d))"
    and "dq_items (fst (Deque_PopBack d)) = butlast (dq_items d)"
    and "snd (Deque_PopBack d) = (if dq_items d = [] then None else Some (last (dq_items d)))"
    by blast+
qed

lemma dq_reads:
  assumes ok: "dq_ok d"
  shows "Deque_Front d = (if dq_items d = [] then None else Some (hd (dq_items d)))"
    and "Deque_Back d = (if dq_items d = [] then None else Some (last (dq_items d)))"
    and "Deque_Get d i = (if 0 \<le> i \<and> i < int (length (dq_items d)) then Some (dq_items d ! nat i) else None)"
    and "Deque_Values d = dq_items d"
    and "Deque_Range d (Some f) st = range_until f st (enumerate 0 (dq_items d))"
proof -
  show "Deque_Front d = (if dq_items d = [] then None else Some (hd (dq_items d)))"
    using dq_okD(3) [OF ok] by (auto simp: Deque_Front_def hd_conv_nth) (simp add: dq_items_def)
  show "Deque_Back d = (if dq_items d = [] then None else Some (last (dq_items d)))"
    by (auto simp: Deque_Back_def last_conv_nth) (simp add: dq_items_def Deque_physicalIndex_def)
  show "Deque_Get d i = (if 0 \<le> i \<and> i < int (length (dq_items d)) then Some (dq_items d ! nat i) else None)"
    by (auto simp: Deque_Get_def) (simp add: dq_items_def Deque_physicalIndex_def nat_less_iff)
  show "Deque_Values d = dq_items d"
    using fill_loop [of "dq_size d" "dq_size d" _ 0]
    by (auto simp: Deque_Values_def dq_items_def ring_view_def Deque_physicalIndex_def)
  have "range_until (\<lambda>s i. f s (i, g i)) st ns = range_until f st (map (\<lambda>i. (i, g i)) ns)"
    for g and ns :: "nat list"
    by (induction ns arbitrary: st) (auto split: prod.splits)
  moreover have "map (\<lambda>i. (i, dq_slice d ! Deque_physicalIndex d i)) [0 ..< dq_size d]
      = enumerate 0 (dq_items d)"
    by (intro nth_equalityI) (auto simp: nth_enumerate_eq dq_items_def Deque_physicalIndex_def)
  ultimately show "Deque_Range d (Some f) st = range_until f st (enumerate 0 (dq_items d))"
    by (simp add: Deque_Range_def)
qed

lemma Clear_items:
  assumes "dq_ok d"
  shows "dq_ok (Deque_Clear d) \<and> dq_items (Deque_Clear d) = []"
proof (cases "dq_buf d")
  case None
  then show ?thesis by (simp add: Deque_Clear_def dq_ok_def ring_ok_def dq_slice_def dq_items_def)
next
  case (Some b)
  then have "b \<noteq> []" using assms by (auto simp: dq_ok_def)
  then show ?thesis using Some
    by (simp add: Deque_Clear_def dq_ok_def ring_ok_def dq_slice_def dq_items_def)
qed

datatype (dead 'a) dq_op =
    DqPushFront "'a list" | DqPushBack "'a list" | DqPopFront | DqPopBack | DqFront | DqBack
  | DqGet int | DqLen | DqIsEmpty | DqClear | DqValues | DqRange "nat \<times> 'a \<Rightarrow> bool" | DqToJSON

datatype (dead 'a) dq_res =
    DqUnit | DqItem "'a option" | DqNat nat | DqBool bool | DqItems "'a list"
  | DqSeen "(nat \<times> 'a) list" | DqBytes "string + bytes"

text \<open>One call. A traversal with \<open>Range\<close> is observed through the index-item pairs that its callback
  saw, the callback asking to stop where \<open>P\<close> fails.\<close>

primrec dq_step ::
    "'a::zero list json_marshal \<Rightarrow> 'a dq_op \<Rightarrow> 'a deque \<Rightarrow> 'a deque \<times> 'a dq_res" where
  "dq_step marshal (DqPushFront xs) d = (Deque_PushFront d xs, DqUnit)"
| "dq_step marshal (DqPushBack xs) d = (Deque_PushBack d xs, DqUnit)"
| "dq_step marshal DqPopFront d = map_prod id DqItem (Deque_PopFront d)"
| "dq_step marshal DqPopBack d = map_prod id DqItem (Deque_PopBack d)"
| "dq_step marshal DqFront d = (d, DqItem (Deque_Front d))"
| "dq_step marshal DqBack d = (d, DqItem (Deque_Back d))"
| "dq_step marshal (DqGet i) d = (d, DqItem (Deque_Get d i))"
| "dq_step marshal DqLen d = (d, DqNat (Deque_Len d))"
| "dq_step marshal DqIsEmpty d = (d, DqBool (Deque_IsEmpty d))"
| "dq_step marshal DqClear d = (Deque_Clear d, DqUnit)"
| "dq_step marshal DqValues d = (d, DqItems (Deque_Values d))"
| "dq_step marshal (DqRange P) d =
     (d, DqSeen (Deque_Range d (Some (\<lambda>acc x. (acc @ [x], P x))) []))"
| "dq_step marshal DqToJSON d = (d, DqBytes (Deque_ToJSON marshal d))"

text \<open>The same calls on a list.\<close>

primrec dq_spec :: "'a list json_marshal \<Rightarrow> 'a dq_op \<Rightarrow> 'a list \<Rightarrow> 'a list \<times> 'a dq_res" where
  "dq_spec marshal (DqPushFront ys) xs = (rev ys @ xs, DqUnit)"
| "dq_spec marshal (DqPushBack ys) xs = (xs @ ys, DqUnit)"
| "dq_spec marshal DqPopFront xs = (tl xs, DqItem (if xs = [] then None else Some (hd xs)))"
| "dq_spec marshal DqPopBack xs = (butlast xs, DqItem (if xs = [] then None else Some (last xs)))"
| "dq_spec marshal DqFront xs = (xs, DqItem (if xs = [] then None else Some (hd xs)))"
| "dq_spec marshal DqBack xs = (xs, DqItem (if xs = [] then None else Some (last xs)))"
| "dq_spec marshal (DqGet i) xs =
     (xs, DqItem (if 0 \<le> i \<and> i < int (length xs) then Some (xs ! nat i) else None))"
| "dq_spec marshal DqLen xs = (xs, DqNat (length xs))"
| "dq_spec marshal DqIsEmpty xs = (xs, DqBool (xs = []))"
| "dq_spec marshal DqClear xs = ([], DqUnit)"
| "dq_spec marshal DqValues xs = (xs, DqItems xs)"
| "dq_spec marshal (DqRange P) xs =
     (xs, DqSeen (takeWhile P (enumerate 0 xs) @ take 1 (dropWhile P (enumerate 0 xs))))"
| "dq_spec marshal DqToJSON xs = (xs, DqBytes (marshalListJSON marshal xs ''deque''))"

interpretation dq_ref: data_refinement "dq_step marshal" dq_ok "dq_spec marshal" dq_items
  for marshal :: "'a::zero list json_marshal"
proof unfold_locales
  fix d :: "'a deque" and c :: "'a dq_op"
  assume ok: "dq_ok d"
  note facts = PushFront_items [OF ok] PushBack_items [OF ok] PopFront_items [OF ok]
    PopBack_items [OF ok] dq_reads [OF ok] Clear_items [OF ok] ok
  show "dq_ok (fst (dq_step marshal c d))"
    by (cases c) (simp_all add: facts)
  show "dq_spec marshal c (dq_items d) = (dq_items (fst (dq_step marshal c d)), snd (dq_step marshal c d))"
    by (cases c)
      (simp_all add: facts Deque_Len_def Deque_IsEmpty_def Deque_ToJSON_def range_until_collect del: One_nat_def)
qed

lemma dq_ok_new: "dq_ok (NewDeque xs) \<and> dq_items (NewDeque xs) = xs"
proof -
  have "dq_ok \<lparr>dq_buf = None, dq_head = 0, dq_size = 0\<rparr>"
    by (simp add: dq_ok_def ring_ok_def dq_slice_def)
  from PushBack_items [OF this, of xs] show ?thesis by (simp add: NewDeque_def dq_items_def)
qed

text \<open>
  C15. Over any history of calls, a deque made with \<open>NewDeque\<close> answers every call as a plain list
  of its items would: pushes and pops at both ends, indexed reads, traversals that may stop early
  and JSON output. The list of \<open>PushFront\<close> is the code's: it places its arguments one by one, so
  \<open>PushFront(1, 2)\<close> makes the front \<open>[2, 1, ...]\<close>, against its comment, which promises \<open>[1, 2, ...]\<close>.
\<close>

theorem deque_refines_list:
  "snd (run (dq_step marshal) cs (NewDeque xs)) = snd (run (dq_spec marshal) cs xs)"
  using dq_ref.run_results [of "NewDeque xs" marshal cs] dq_ok_new [of xs] by simp

text \<open>
  In every state a history can reach, each logical index below the size maps to a slot of the
  backing array, and distinct logical indices map to distinct slots: no access panics and no two
  items share a slot.
\<close>

theorem deque_slots_distinct:
  "let d = fst (run (dq_step marshal) cs (NewDeque xs))
   in Deque_physicalIndex d ` {..< dq_size d} \<subseteq> {..< length (dq_slice d)}
      \<and> card (Deque_physicalIndex d ` {..< dq_size d}) = dq_size d"
proof -
  define d where "d = fst (run (dq_step marshal) cs (NewDeque xs))"
  have ok: "dq_ok d" unfolding d_def using dq_ref.run_inv dq_ok_new by blast
  note le = dq_okD(1) [OF ok]
  have "inj_on (Deque_physicalIndex d) {..< dq_size d}"
    unfolding inj_on_def Deque_physicalIndex_def
    using le ring_index_inj [of _ "length (dq_slice d)" _ "dq_head d"]
    by (metis lessThan_iff order_less_le_trans)
  then have "card (Deque_physicalIndex d ` {..< dq_size d}) = dq_size d" by (simp add: card_image)
  moreover have "Deque_physicalIndex d ` {..< dq_size d} \<subseteq> {..< length (dq_slice d)}"
    using le by (auto simp: Deque_physicalIndex_def intro!: mod_less_divisor)
  ultimately show ?thesis by (simp add: Let_def flip: d_def)
qed

subsection \<open>RingBuffer\<close>

record 'a ringbuffer =
  rb_buf :: "'a list"
  rb_head :: nat
  rb_size :: nat

definition NewRingBuffer :: "int \<Rightarrow> 'a::zero ringbuffer" where
  "NewRingBuffer capacity =
     (let cap = (if capacity < 0 then 0 else capacity)
      in \<lparr>rb_buf = replicate (nat cap) 0, rb_head = 0, rb_size = 0\<rparr>)"

primrec RingBuffer_Capacity :: "'a ringbuffer option \<Rightarrow> nat" where
  "RingBuffer_Capacity None = 0"
| "RingBuffer_Capacity (Some r) = length (rb_buf r)"

primrec RingBuffer_Len :: "'a ringbuffer option \<Rightarrow> nat" where
  "RingBuffer_Len None = 0"
| "RingBuffer_Len (Some r) = rb_size r"

definition RingBuffer_IsEmpty :: "'a ringbuffer option \<Rightarrow> bool" where
  "RingBuffer_IsEmpty p \<longleftrightarrow> RingBuffer_Len p = 0"

primrec RingBuffer_IsFull :: "'a ringbuffer option \<Rightarrow> bool" where
  "RingBuffer_IsFull None = False"
| "RingBuffer_IsFull (Some r) \<longleftrightarrow> rb_size r = length (rb_buf r) \<and> length (rb_buf r) > 0"

primrec RingBuffer_Push :: "'a ringbuffer option \<Rightarrow> 'a \<Rightarrow> 'a ringbuffer option \<times> 'a option" where
  "RingBuffer_Push None v = (None, None)"
| "RingBuffer_Push (Some r) v =
     (if length (rb_buf r) = 0 then (Some r, None)
      else if rb_size r < length (rb_buf r)
      then let tail = (rb_head r + rb_size r) mod length (rb_buf r)
           in (Some (r\<lparr>rb_buf := (rb_buf r)[tail := v], rb_size := rb_size r + 1\<rparr>), None)
      else (Some (r\<lparr>rb_buf := (rb_buf r)[rb_head r := v],
                    rb_head := (rb_head r + 1) mod length (rb_buf r)\<rparr>),
            Some (rb_buf r ! rb_head r)))"

primrec RingBuffer_Pop :: "'a::zero ringbuffer option \<Rightarrow> 'a ringbuffer option \<times> 'a option" where
  "RingBuffer_Pop None = (None, None)"
| "RingBuffer_Pop (Some r) =
     (if rb_size r = 0 then (Some r, None)
      else let v = rb_buf r ! rb_head r;
               r1 = r\<lparr>rb_buf := (rb_buf r)[rb_head r := 0],
                      rb_head := (rb_head r + 1) mod length (rb_buf r),
                      rb_size := rb_size r - 1\<rparr>
           in (Some (if rb_size r1 = 0 then r1\<lparr>rb_head := 0\<rparr> else r1), Some v))"

primrec RingBuffer_Peek :: "'a ringbuffer option \<Rightarrow> 'a option" where
  "RingBuffer_Peek None = None"
| "RingBuffer_Peek (Some r) = (if rb_size r = 0 then None else Some (rb_buf r ! rb_head r))"

primrec RingBuffer_Values :: "'a::zero ringbuffer option \<Rightarrow> 'a list" where
  "RingBuffer_Values None = []"
| "RingBuffer_Values (Some r) =
     (if rb_size r = 0 then []
      else foldl (\<lambda>out i. out[i := rb_buf r ! ((rb_head r + i) mod length (rb_buf r))])
             (replicate (rb_size r) 0) [0 ..< rb_size r])"

primrec RingBuffer_Clear :: "'a::zero ringbuffer option \<Rightarrow> 'a ringbuffer option" where
  "RingBuffer_Clear None = None"
| "RingBuffer_Clear (Some r) =
     Some (r\<lparr>rb_buf := ring_zero (rb_buf r) (rb_head r) (rb_size r), rb_head := 0, rb_size := 0\<rparr>)"

definition RingBuffer_ToJSON ::
    "'a::zero list json_marshal \<Rightarrow> 'a ringbuffer option \<Rightarrow> string + bytes" where
  "RingBuffer_ToJSON marshal p = marshalListJSON marshal (RingBuffer_Values p) ''ring buffer''"

definition RingBuffer_MarshalJSON ::
    "string + bytes \<Rightarrow> 'a::zero list json_marshal \<Rightarrow> 'a ringbuffer option \<Rightarrow> string + bytes" where
  "RingBuffer_MarshalJSON n marshal p =
     forwardListJSON n (\<lambda>_. RingBuffer_ToJSON marshal p) ''ring buffer''"

definition RingBuffer_String ::
    "'a::zero list json_marshal \<Rightarrow> 'a ringbuffer option \<Rightarrow> string" where
  "RingBuffer_String marshal p = StringFromToJSON (Some (\<lambda>_. RingBuffer_ToJSON marshal p)) ''[]''"

datatype (dead 'a) rb_op =
    RbPush 'a | RbPop | RbPeek | RbCapacity | RbLen | RbIsEmpty | RbIsFull | RbValues | RbClear
  | RbToJSON | RbString

datatype (dead 'a) rb_res =
    RbUnit | RbItem "'a option" | RbNat nat | RbBool bool | RbItems "'a list"
  | RbBytes "string + bytes" | RbText string

primrec rb_step ::
    "'a::zero list json_marshal \<Rightarrow> 'a rb_op \<Rightarrow> 'a ringbuffer option
     \<Rightarrow> 'a ringbuffer option \<times> 'a rb_res" where
  "rb_step marshal (RbPush x) p = map_prod id RbItem (RingBuffer_Push p x)"
| "rb_step marshal RbPop p = map_prod id RbItem (RingBuffer_Pop p)"
| "rb_step marshal RbPeek p = (p, RbItem (RingBuffer_Peek p))"
| "rb_step marshal RbCapacity p = (p, RbNat (RingBuffer_Capacity p))"
| "rb_step marshal RbLen p = (p, RbNat (RingBuffer_Len p))"
| "rb_step marshal RbIsEmpty p = (p, RbBool (RingBuffer_IsEmpty p))"
| "rb_step marshal RbIsFull p = (p, RbBool (RingBuffer_IsFull p))"
| "rb_step marshal RbValues p = (p, RbItems (RingBuffer_Values p))"
| "rb_step marshal RbClear p = (RingBuffer_Clear p, RbUnit)"
| "rb_step marshal RbToJSON p = (p, RbBytes (RingBuffer_ToJSON marshal p))"
| "rb_step marshal RbString p = (p, RbText (RingBuffer_String marshal p))"

text \<open>The specification: a queue \<open>xs\<close> with a bound \<open>cap\<close>; a push onto a full queue drops the oldest
  item and answers it, and a queue without capacity refuses every push.\<close>

fun rb_spec ::
    "'a list json_marshal \<Rightarrow> 'a rb_op \<Rightarrow> nat \<times> 'a list \<Rightarrow> (nat \<times> 'a list) \<times> 'a rb_res" where
  "rb_spec marshal (RbPush x) (cap, xs) =
     (if cap = 0 then ((cap, xs), RbItem None)
      else if length xs < cap then ((cap, xs @ [x]), RbItem None)
      else ((cap, tl xs @ [x]), RbItem (Some (hd xs))))"
| "rb_spec marshal RbPop (cap, xs) =
     ((cap, tl xs), RbItem (if xs = [] then None else Some (hd xs)))"
| "rb_spec marshal RbPeek (cap, xs) = ((cap, xs), RbItem (if xs = [] then None else Some (hd xs)))"
| "rb_spec marshal RbCapacity (cap, xs) = ((cap, xs), RbNat cap)"
| "rb_spec marshal RbLen (cap, xs) = ((cap, xs), RbNat (length xs))"
| "rb_spec marshal RbIsEmpty (cap, xs) = ((cap, xs), RbBool (xs = []))"
| "rb_spec marshal RbIsFull (cap, xs) = ((cap, xs), RbBool (length xs = cap \<and> 0 < cap))"
| "rb_spec marshal RbValues (cap, xs) = ((cap, xs), RbItems xs)"
| "rb_spec marshal RbClear (cap, xs) = ((cap, []), RbUnit)"
| "rb_spec marshal RbToJSON (cap, xs) =
     ((cap, xs), RbBytes (marshalListJSON marshal xs ''ring buffer''))"
| "rb_spec marshal RbString (cap, xs) =
     ((cap, xs), RbText (case marshal xs of Inl _ \<Rightarrow> ''[]'' | Inr d \<Rightarrow> d))"

definition rb_ok :: "'a ringbuffer option \<Rightarrow> bool" where
  "rb_ok p \<longleftrightarrow> (\<exists>r. p = Some r \<and> ring_ok (rb_buf r) (rb_head r) (rb_size r))"

definition rb_abs :: "'a ringbuffer option \<Rightarrow> nat \<times> 'a list" where
  "rb_abs p = (case p of None \<Rightarrow> (0, [])
               | Some r \<Rightarrow> (length (rb_buf r), ring_view (rb_buf r) (rb_head r) (rb_size r)))"

lemma rb_abs_Some [simp]:
  "rb_abs (Some r) = (length (rb_buf r), ring_view (rb_buf r) (rb_head r) (rb_size r))"
  by (simp add: rb_abs_def)

lemma rb_Push_sim:
  assumes "rb_ok (Some r)"
  shows "rb_ok (fst (RingBuffer_Push (Some r) x))
    \<and> rb_spec marshal (RbPush x) (rb_abs (Some r))
      = (rb_abs (fst (RingBuffer_Push (Some r) x)), RbItem (snd (RingBuffer_Push (Some r) x)))"
proof -
  let ?b = "rb_buf r" and ?h = "rb_head r" and ?n = "rb_size r"
  have ok: "?n \<le> length ?b" "?b \<noteq> [] \<Longrightarrow> ?h < length ?b"
    using assms by (auto simp: rb_ok_def ring_ok_def)
  consider (none) "?b = []" | (room) "?b \<noteq> []" "?n < length ?b"
    | (full) "?b \<noteq> []" "?n = length ?b" using ok(1) by linarith
  then show ?thesis
  proof cases
    case room
    then show ?thesis using ok(2) ring_view_push_back [OF room(2), of ?h x]
      by (simp add: rb_ok_def ring_ok_def Let_def)
  next
    case full
    then have h: "?h < length ?b" using ok by blast
    have "Suc ?h mod length ?b < length ?b" using h by (intro mod_less_divisor) auto
    moreover have "hd (ring_view ?b ?h (length ?b)) = ?b ! ?h"
      using ring_view_Cons [of "length ?b" ?b ?h] h by (metis full(1) length_greater_0_conv list.sel(1) mod_less)
    ultimately show ?thesis using full h ring_view_rotate [OF h, of x]
      by (simp add: rb_ok_def ring_ok_def)
  qed (use assms in simp)
qed

lemma rb_Pop_sim:
  assumes "rb_ok (Some r)"
  shows "rb_ok (fst (RingBuffer_Pop (Some r)))
    \<and> rb_spec marshal RbPop (rb_abs (Some r))
      = (rb_abs (fst (RingBuffer_Pop (Some r))), RbItem (snd (RingBuffer_Pop (Some r))))"
proof (cases "rb_size r = 0")
  case True
  then show ?thesis using assms by simp
next
  case False
  let ?b = "rb_buf r" and ?h = "rb_head r" and ?n = "rb_size r"
  have ok: "?n \<le> length ?b" "?h < length ?b"
    using assms False by (auto simp: rb_ok_def ring_ok_def)
  have v: "ring_view ?b ?h ?n = ?b ! ?h # ring_view (?b[?h := 0]) ((?h + 1) mod length ?b) (?n - 1)"
    using ring_view_pop_front [of ?n ?b ?h 0] ok False by simp
  have "Suc ?h mod length ?b < length ?b" "0 < length ?b"
    using ok(2) by (auto intro!: mod_less_divisor)
  then show ?thesis using False ok v
    by (cases "?n - 1 = 0") (auto simp: rb_ok_def ring_ok_def Let_def)
qed

lemma rb_reads:
  assumes "rb_ok (Some r)"
  shows "RingBuffer_Values (Some r) = ring_view (rb_buf r) (rb_head r) (rb_size r)"
    and "RingBuffer_Peek (Some r) = (if rb_size r = 0 then None
           else Some (hd (ring_view (rb_buf r) (rb_head r) (rb_size r))))"
proof -
  show "RingBuffer_Values (Some r) = ring_view (rb_buf r) (rb_head r) (rb_size r)"
    using fill_loop [of "rb_size r" "rb_size r"
        "\<lambda>i. rb_buf r ! ((rb_head r + i) mod length (rb_buf r))" 0]
    by (simp add: ring_view_def)
  have "rb_head r < length (rb_buf r)" if "rb_size r \<noteq> 0"
    using assms that by (auto simp: rb_ok_def ring_ok_def)
  then show "RingBuffer_Peek (Some r) = (if rb_size r = 0 then None
           else Some (hd (ring_view (rb_buf r) (rb_head r) (rb_size r))))"
    by (simp add: hd_conv_nth)
qed

interpretation rb_ref: data_refinement "rb_step marshal" rb_ok "rb_spec marshal" rb_abs
  for marshal :: "'a::zero list json_marshal"
proof unfold_locales
  fix p :: "'a ringbuffer option" and c :: "'a rb_op"
  assume "rb_ok p"
  then obtain r where p: "p = Some r" and ok: "rb_ok (Some r)" by (auto simp: rb_ok_def)
  note facts = rb_Push_sim [OF ok, where marshal = marshal] rb_Pop_sim [OF ok, where marshal = marshal]
  note del = RingBuffer_Push.simps RingBuffer_Pop.simps RingBuffer_Values.simps RingBuffer_Peek.simps
  have clear: "rb_ok (RingBuffer_Clear (Some r))"
    using ok by (auto simp: rb_ok_def ring_ok_def)
  show "rb_ok (fst (rb_step marshal c p))"
    using facts clear ok by (cases c) (simp_all add: p del: del RingBuffer_Clear.simps)
  show "rb_spec marshal c (rb_abs p) = (rb_abs (fst (rb_step marshal c p)), snd (rb_step marshal c p))"
    using facts
    by (cases c)
      (simp_all add: p rb_reads [OF ok] RingBuffer_IsEmpty_def RingBuffer_ToJSON_def
        RingBuffer_String_def StringFromToJSON_def del: del)
qed

text \<open>
  C18. Over any history of calls, a ring buffer of the requested capacity (none when it is negative)
  answers as a bounded queue: a push onto a full buffer drops and answers the oldest item, pops
  come in arrival order, and a buffer without capacity takes nothing.
\<close>

theorem ringbuffer_refines_bounded_queue:
  "snd (run (rb_step marshal) cs (Some (NewRingBuffer capacity)))
   = snd (run (rb_spec marshal) cs (nat capacity, []))"
proof -
  have "rb_ok (Some (NewRingBuffer capacity))"
    by (auto simp: rb_ok_def ring_ok_def NewRingBuffer_def)
  moreover have "rb_abs (Some (NewRingBuffer capacity)) = (nat capacity, [])"
    by (simp add: NewRingBuffer_def)
  ultimately show ?thesis using rb_ref.run_results by metis
qed

end
