(* ===== verification/List_PriorityQueue.thy ===== *)
theory List_PriorityQueue
  imports List_JSON
begin

text \<open>
  \<^verbatim>\<open>collectionx/list/priority_queue.go\<close> over the standard library's \<^verbatim>\<open>container/heap\<close>, whose
  \<open>Init\<close>, \<open>Push\<close>, \<open>Pop\<close>, \<open>up\<close> and \<open>down\<close> are modelled on the slice that the queue's \<open>Swap\<close>, \<open>Less\<close>,
  \<open>Push\<close> and \<open>Pop\<close> methods act on. The element type is a concrete type, so that the assertions from
  \<open>any\<close> back to it succeed. Shown: for a comparator that is a strict weak order the slice is a heap
  after any history, every \<open>Pop\<close> and \<open>Peek\<close> answers an item that nothing in the queue precedes, and
  \<open>ValuesSorted\<close> is the sorted content.
\<close>

subsection \<open>The heap interface and container/heap\<close>

record 'a pqheap =
  items :: "'a list"
  less_fn :: "'a \<Rightarrow> 'a \<Rightarrow> bool"

definition priorityQueueHeap_Len :: "'a pqheap \<Rightarrow> nat" where
  "priorityQueueHeap_Len h = length (items h)"

definition priorityQueueHeap_Less :: "'a pqheap \<Rightarrow> nat \<Rightarrow> nat \<Rightarrow> bool" where
  "priorityQueueHeap_Less h i j = less_fn h (items h ! i) (items h ! j)"

definition priorityQueueHeap_Swap :: "'a pqheap \<Rightarrow> nat \<Rightarrow> nat \<Rightarrow> 'a pqheap" where
  "priorityQueueHeap_Swap h i j =
     h\<lparr>items := (items h)[i := items h ! j, j := items h ! i]\<rparr>"

definition priorityQueueHeap_Push :: "'a pqheap \<Rightarrow> 'a \<Rightarrow> 'a pqheap" where
  "priorityQueueHeap_Push h x = h\<lparr>items := items h @ [x]\<rparr>"

definition priorityQueueHeap_Pop :: "'a pqheap \<Rightarrow> 'a pqheap \<times> 'a" where
  "priorityQueueHeap_Pop h =
     (let n = length (items h)
      in (h\<lparr>items := take (n - 1) (items h)\<rparr>, items h ! (n - 1)))"

function heap_up :: "'a pqheap \<Rightarrow> nat \<Rightarrow> 'a pqheap" where
  "heap_up h j =
     (let i = (j - 1) div 2
      in if i = j \<or> \<not> priorityQueueHeap_Less h j i then h
         else heap_up (priorityQueueHeap_Swap h i j) i)"
  by pat_completeness auto
termination
  by (relation "measure (\<lambda>(h, j). j)") auto

function heap_down :: "'a pqheap \<Rightarrow> nat \<Rightarrow> nat \<Rightarrow> 'a pqheap" where
  "heap_down h i n =
     (let j1 = 2 * i + 1
      in if j1 \<ge> n then h
         else let j2 = j1 + 1; j = (if j2 < n \<and> priorityQueueHeap_Less h j2 j1 then j2 else j1)
              in if \<not> priorityQueueHeap_Less h j i then h
                 else heap_down (priorityQueueHeap_Swap h i j) j n)"
  by pat_completeness auto
termination
  by (relation "measure (\<lambda>(h, i, n). n - i)") (auto simp: Let_def split: if_splits)

declare heap_up.simps [simp del] heap_down.simps [simp del]

text \<open>\<open>for i := n/2 - 1; i >= 0; i-- { down(h, i, n) }\<close>, with the indices still to visit.\<close>

fun heap_init_from :: "nat \<Rightarrow> 'a pqheap \<Rightarrow> nat \<Rightarrow> 'a pqheap" where
  "heap_init_from 0 h n = h"
| "heap_init_from (Suc i) h n = heap_init_from i (heap_down h i n) n"

definition heap_Init :: "'a pqheap \<Rightarrow> 'a pqheap" where
  "heap_Init h =
     (let n = priorityQueueHeap_Len h in heap_init_from (n div 2) h n)"

definition heap_Push :: "'a pqheap \<Rightarrow> 'a \<Rightarrow> 'a pqheap" where
  "heap_Push h x =
     (let h1 = priorityQueueHeap_Push h x in heap_up h1 (priorityQueueHeap_Len h1 - 1))"

definition heap_Pop :: "'a pqheap \<Rightarrow> 'a pqheap \<times> 'a" where
  "heap_Pop h =
     (let n = priorityQueueHeap_Len h - 1; h1 = priorityQueueHeap_Swap h 0 n; h2 = heap_down h1 0 n
      in priorityQueueHeap_Pop h2)"

subsection \<open>PriorityQueue\<close>

record 'a priorityqueue =
  pq_h :: "'a pqheap option"

definition ErrNilPriorityQueueComparator :: string where
  "ErrNilPriorityQueueComparator = ''list: priority queue comparator cannot be nil''"

definition NewPriorityQueue ::
    "('a \<Rightarrow> 'a \<Rightarrow> bool) option \<Rightarrow> 'a list \<Rightarrow> string + 'a priorityqueue" where
  "NewPriorityQueue lessp xs =
     (case lessp of
        None \<Rightarrow> Inl ErrNilPriorityQueueComparator
      | Some lt \<Rightarrow> Inr \<lparr>pq_h = Some (heap_Init \<lparr>items = [] @ xs, less_fn = lt\<rparr>)\<rparr>)"

text \<open>\<open>pq == nil || pq.h == nil\<close> is decided by \<open>pq_heap\<close>.\<close>

definition pq_heap :: "'a priorityqueue option \<Rightarrow> 'a pqheap option" where
  "pq_heap p = (case p of None \<Rightarrow> None | Some q \<Rightarrow> pq_h q)"

definition pq_set :: "'a priorityqueue option \<Rightarrow> 'a pqheap \<Rightarrow> 'a priorityqueue option" where
  "pq_set p h = map_option (\<lambda>q. q\<lparr>pq_h := Some h\<rparr>) p"

definition PriorityQueue_Push :: "'a priorityqueue option \<Rightarrow> 'a \<Rightarrow> 'a priorityqueue option" where
  "PriorityQueue_Push p v =
     (case pq_heap p of None \<Rightarrow> p | Some h \<Rightarrow> pq_set p (heap_Push h v))"

definition PriorityQueue_Pop :: "'a priorityqueue option \<Rightarrow> 'a priorityqueue option \<times> 'a option" where
  "PriorityQueue_Pop p =
     (case pq_heap p of
        None \<Rightarrow> (p, None)
      | Some h \<Rightarrow>
          if priorityQueueHeap_Len h = 0 then (p, None)
          else case heap_Pop h of (h', v) \<Rightarrow> (pq_set p h', Some v))"

definition PriorityQueue_Peek :: "'a priorityqueue option \<Rightarrow> 'a option" where
  "PriorityQueue_Peek p =
     (case pq_heap p of
        None \<Rightarrow> None
      | Some h \<Rightarrow> if priorityQueueHeap_Len h = 0 then None else Some (items h ! 0))"

definition PriorityQueue_Len :: "'a priorityqueue option \<Rightarrow> nat" where
  "PriorityQueue_Len p = (case pq_heap p of None \<Rightarrow> 0 | Some h \<Rightarrow> priorityQueueHeap_Len h)"

definition PriorityQueue_IsEmpty :: "'a priorityqueue option \<Rightarrow> bool" where
  "PriorityQueue_IsEmpty p \<longleftrightarrow> PriorityQueue_Len p = 0"

definition PriorityQueue_Clear :: "'a priorityqueue option \<Rightarrow> 'a priorityqueue option" where
  "PriorityQueue_Clear p =
     (case pq_heap p of None \<Rightarrow> p | Some h \<Rightarrow> pq_set p (h\<lparr>items := []\<rparr>))"

definition PriorityQueue_Values :: "'a priorityqueue option \<Rightarrow> 'a list" where
  "PriorityQueue_Values p =
     (case pq_heap p of
        None \<Rightarrow> []
      | Some h \<Rightarrow> if priorityQueueHeap_Len h = 0 then [] else items h)"

text \<open>The draining loop of \<open>ValuesSorted\<close>, with the output so far; \<open>heap.Pop\<close> shortens the heap by
  one, so it ends.\<close>

lemma length_heap_up [simp]: "length (items (heap_up h j)) = length (items h)"
  by (induction h j rule: heap_up.induct)
    (subst heap_up.simps, simp add: Let_def priorityQueueHeap_Swap_def)

lemma length_heap_down [simp]: "length (items (heap_down h i n)) = length (items h)"
  by (induction h i n rule: heap_down.induct)
    (subst heap_down.simps, simp add: Let_def priorityQueueHeap_Swap_def)

lemma length_heap_Pop: "length (items (fst (heap_Pop h))) = length (items h) - 1"
  by (simp add: heap_Pop_def priorityQueueHeap_Pop_def priorityQueueHeap_Swap_def
      priorityQueueHeap_Len_def Let_def)

function drain :: "'a pqheap \<Rightarrow> 'a list \<Rightarrow> 'a list" where
  "drain h out =
     (if priorityQueueHeap_Len h > 0
      then drain (fst (heap_Pop h)) (out @ [snd (heap_Pop h)]) else out)"
  by pat_completeness auto
termination
  by (relation "measure (\<lambda>(h, out). length (items h))")
    (auto simp: length_heap_Pop priorityQueueHeap_Len_def)

declare drain.simps [simp del]

definition PriorityQueue_ValuesSorted :: "'a priorityqueue option \<Rightarrow> 'a list" where
  "PriorityQueue_ValuesSorted p =
     (case pq_heap p of
        None \<Rightarrow> []
      | Some h \<Rightarrow>
          if priorityQueueHeap_Len h = 0 then []
          else drain (heap_Init \<lparr>items = items h, less_fn = less_fn h\<rparr>) [])"

definition PriorityQueue_ToJSON :: "'a list json_marshal \<Rightarrow> 'a priorityqueue option \<Rightarrow> string + bytes" where
  "PriorityQueue_ToJSON marshal p =
     marshalListJSON marshal (PriorityQueue_ValuesSorted p) ''priority queue''"

definition PriorityQueue_MarshalJSON ::
    "string + bytes \<Rightarrow> 'a list json_marshal \<Rightarrow> 'a priorityqueue option \<Rightarrow> string + bytes" where
  "PriorityQueue_MarshalJSON n marshal p =
     forwardListJSON n (\<lambda>_. PriorityQueue_ToJSON marshal p) ''priority queue''"

definition PriorityQueue_String :: "'a list json_marshal \<Rightarrow> 'a priorityqueue option \<Rightarrow> string" where
  "PriorityQueue_String marshal p =
     StringFromToJSON (Some (\<lambda>_. PriorityQueue_ToJSON marshal p)) ''[]''"

subsection \<open>The heap order\<close>

text \<open>What the comparator has to satisfy: a strict weak order.\<close>

definition strict_weak :: "('a \<Rightarrow> 'a \<Rightarrow> bool) \<Rightarrow> bool" where
  "strict_weak lt \<longleftrightarrow> (\<forall>a b. lt a b \<longrightarrow> \<not> lt b a)
     \<and> (\<forall>a b c. \<not> lt a b \<longrightarrow> \<not> lt b c \<longrightarrow> \<not> lt a c)"

lemma strict_weakD:
  assumes "strict_weak lt"
  shows "\<not> lt a a" and "lt a b \<Longrightarrow> \<not> lt b a" and "\<not> lt a b \<Longrightarrow> \<not> lt b c \<Longrightarrow> \<not> lt a c"
  using assms unfolding strict_weak_def by blast+

text \<open>\<open>heap_ok\<close>: no item precedes its parent, for the parents at index \<open>lo\<close> or later. \<open>heap_but_down\<close>
  leaves out the children of \<open>i\<close>, \<open>heap_but_up\<close> the item \<open>j\<close> itself.\<close>

definition ordered_at :: "('a \<Rightarrow> 'a \<Rightarrow> bool) \<Rightarrow> 'a list \<Rightarrow> nat \<Rightarrow> bool" where
  "ordered_at lt xs k \<longleftrightarrow> \<not> lt (xs ! k) (xs ! ((k - 1) div 2))"

definition heap_ok :: "('a \<Rightarrow> 'a \<Rightarrow> bool) \<Rightarrow> 'a list \<Rightarrow> nat \<Rightarrow> nat \<Rightarrow> bool" where
  "heap_ok lt xs lo n \<longleftrightarrow> (\<forall>k<n. 0 < k \<longrightarrow> lo \<le> (k - 1) div 2 \<longrightarrow> ordered_at lt xs k)"

definition heap_but_down :: "('a \<Rightarrow> 'a \<Rightarrow> bool) \<Rightarrow> 'a list \<Rightarrow> nat \<Rightarrow> nat \<Rightarrow> nat \<Rightarrow> bool" where
  "heap_but_down lt xs lo i n \<longleftrightarrow>
     (\<forall>k<n. 0 < k \<longrightarrow> lo \<le> (k - 1) div 2 \<longrightarrow> (k - 1) div 2 \<noteq> i \<longrightarrow> ordered_at lt xs k)
     \<and> (\<forall>k<n. 0 < k \<longrightarrow> 0 < i \<longrightarrow> (k - 1) div 2 = i \<longrightarrow> lo \<le> (i - 1) div 2
          \<longrightarrow> \<not> lt (xs ! k) (xs ! ((i - 1) div 2)))"

definition heap_but_up :: "('a \<Rightarrow> 'a \<Rightarrow> bool) \<Rightarrow> 'a list \<Rightarrow> nat \<Rightarrow> nat \<Rightarrow> bool" where
  "heap_but_up lt xs j n \<longleftrightarrow>
     (\<forall>k<n. 0 < k \<longrightarrow> k \<noteq> j \<longrightarrow> ordered_at lt xs k)
     \<and> (\<forall>k<n. 0 < k \<longrightarrow> 0 < j \<longrightarrow> (k - 1) div 2 = j \<longrightarrow> \<not> lt (xs ! k) (xs ! ((j - 1) div 2)))"

lemma parent_lt: "0 < k \<Longrightarrow> (k - 1) div 2 < (k :: nat)"
  by auto

lemma child_cases: "0 < k \<Longrightarrow> (k - 1) div 2 = i \<longleftrightarrow> k = 2 * i + 1 \<or> k = 2 * i + (2 :: nat)"
  by auto

lemma swap_nth:
  "i < length xs \<Longrightarrow> j < length xs \<Longrightarrow>
   xs[i := xs ! j, j := xs ! i] ! k = (if k = i then xs ! j else if k = j then xs ! i else xs ! k)"
  by (auto simp: nth_list_update)

lemma heap_down_step:
  assumes sw: "strict_weak lt" and n: "n \<le> length xs" and hb: "heap_but_down lt xs lo i n"
    and lo: "lo \<le> i" and j: "j < n" "(j - 1) div 2 = i" "0 < j"
    and best: "\<And>k. k < n \<Longrightarrow> 0 < k \<Longrightarrow> (k - 1) div 2 = i \<Longrightarrow> \<not> lt (xs ! k) (xs ! j)"
    and lt: "lt (xs ! j) (xs ! i)"
  shows "heap_but_down lt (xs[i := xs ! j, j := xs ! i]) lo j n"
proof -
  let ?ys = "xs[i := xs ! j, j := xs ! i]"
  have ij: "i < j" using parent_lt j by blast
  have len: "i < length xs" "j < length xs" using ij j n by auto
  note nth = swap_nth [OF len]
  have asym: "\<not> lt (xs ! i) (xs ! j)" by (rule strict_weakD(2) [OF sw lt])
  show ?thesis
    unfolding heap_but_down_def
  proof (intro conjI allI impI)
    fix k assume k: "k < n" "0 < k" "lo \<le> (k - 1) div 2" "(k - 1) div 2 \<noteq> j"
    have kp: "(k - 1) div 2 < k" using k by auto
    consider "k = i" | "k = j" | "k \<noteq> i" "k \<noteq> j" "(k - 1) div 2 = i"
      | "k \<noteq> i" "k \<noteq> j" "(k - 1) div 2 \<noteq> i" by blast
    then show "ordered_at lt ?ys k"
    proof cases
      case 1
      then have "\<not> lt (xs ! j) (xs ! ((i - 1) div 2))"
        using hb k j by (auto simp: heap_but_down_def)
      with 1 k kp show ?thesis using ij by (simp add: ordered_at_def nth)
    next
      case 2
      then show ?thesis using asym j ij by (simp add: ordered_at_def nth)
    next
      case 3
      then show ?thesis using best [OF k(1,2)] by (simp add: ordered_at_def nth)
    next
      case 4
      then have "ordered_at lt xs k" using hb k by (simp add: heap_but_down_def)
      with 4 k show ?thesis by (simp add: ordered_at_def nth)
    qed
  next
    fix k assume k: "k < n" "0 < k" "0 < j" "(k - 1) div 2 = j" "lo \<le> (j - 1) div 2"
    then have "j < k" by auto
    moreover have "ordered_at lt xs k" using hb k ij lo by (simp add: heap_but_down_def)
    ultimately show "\<not> lt (?ys ! k) (?ys ! ((j - 1) div 2))"
      using k j ij by (simp add: ordered_at_def nth)
  qed
qed

lemma heap_down_spec:
  assumes "strict_weak (less_fn h)" "n \<le> length (items h)" "lo \<le> i"
    "heap_but_down (less_fn h) (items h) lo i n"
  shows "heap_ok (less_fn h) (items (heap_down h i n)) lo n
       \<and> mset (items (heap_down h i n)) = mset (items h)
       \<and> less_fn (heap_down h i n) = less_fn h
       \<and> (\<forall>k. n \<le> k \<longrightarrow> items (heap_down h i n) ! k = items h ! k)"
  using assms
proof (induction h i n rule: heap_down.induct)
  case (1 h i n)
  let ?xs = "items h" and ?lt = "less_fn h"
  define j where "j = (if 2 * i + 1 + 1 < n \<and> priorityQueueHeap_Less h (2 * i + 1 + 1) (2 * i + 1)
                       then 2 * i + 1 + 1 else 2 * i + 1)"
  note irr = strict_weakD(1) [OF "1.prems"(1)] and asym = strict_weakD(2) [OF "1.prems"(1)]
  have stop: "heap_ok ?lt ?xs lo n"
    if "\<And>k. k < n \<Longrightarrow> 0 < k \<Longrightarrow> (k - 1) div 2 = i \<Longrightarrow> \<not> ?lt (?xs ! k) (?xs ! i)"
    using that "1.prems"(4) by (fastforce simp: heap_ok_def heap_but_down_def ordered_at_def)
  show ?case
  proof (cases "2 * i + 1 \<ge> n")
    case True
    then show ?thesis using stop by (auto simp: heap_down.simps [of h i n])
  next
    case False
    have unfold: "heap_down h i n = (if \<not> priorityQueueHeap_Less h j i then h
        else heap_down (priorityQueueHeap_Swap h i j) j n)"
      using False by (simp add: heap_down.simps [of h i n] j_def Let_def)
    have best: "\<not> ?lt (?xs ! k) (?xs ! j)" if "k < n" "0 < k" "(k - 1) div 2 = i" for k
    proof -
      let ?right = "2 * i + 1 + 1"
      have "k = 2 * i + 1 \<or> k = ?right" using child_cases [OF that(2), of i] that(3) by simp
      moreover have "?right < n" if "k = ?right" using that \<open>k < n\<close> by simp
      ultimately show ?thesis
        using irr asym [of "?xs ! ?right" "?xs ! (2 * i + 1)"]
        by (cases "?lt (?xs ! ?right) (?xs ! (2 * i + 1))") (auto simp: j_def priorityQueueHeap_Less_def)
    qed
    have j: "j < n" "(j - 1) div 2 = i" "0 < j" using False by (auto simp: j_def)
    show ?thesis
    proof (cases "priorityQueueHeap_Less h j i")
      case False
      have "\<not> ?lt (?xs ! k) (?xs ! i)" if "k < n" "0 < k" "(k - 1) div 2 = i" for k
        using best [OF that] False strict_weakD(3) [OF "1.prems"(1)]
        unfolding priorityQueueHeap_Less_def by blast
      then show ?thesis using stop False by (simp add: unfold)
    next
      case True
      let ?h = "priorityQueueHeap_Swap h i j"
      have len: "i < length ?xs" "j < length ?xs" using j "1.prems"(2) by auto
      have "heap_but_down ?lt (items ?h) lo j n"
        using heap_down_step [OF "1.prems"(1,2,4,3) j best] True
        by (simp add: priorityQueueHeap_Swap_def priorityQueueHeap_Less_def)
      moreover have "less_fn ?h = ?lt" "length (items ?h) = length ?xs"
        by (simp_all add: priorityQueueHeap_Swap_def)
      ultimately have IH: "heap_ok ?lt (items (heap_down ?h j n)) lo n
          \<and> mset (items (heap_down ?h j n)) = mset (items ?h)
          \<and> less_fn (heap_down ?h j n) = ?lt
          \<and> (\<forall>k. n \<le> k \<longrightarrow> items (heap_down ?h j n) ! k = items ?h ! k)"
        using "1.IH" [OF refl False refl j_def] "1.prems"(1-3) True j by simp
      have "mset (items ?h) = mset ?xs"
        using len by (simp add: priorityQueueHeap_Swap_def mset_swap)
      moreover have "items ?h ! k = ?xs ! k" if "n \<le> k" for k
        using j that by (simp add: priorityQueueHeap_Swap_def)
      ultimately show ?thesis using IH True by (simp add: unfold)
    qed
  qed
qed

lemma heap_up_step:
  assumes sw: "strict_weak lt" and n: "n \<le> length xs" and hb: "heap_but_up lt xs j n"
    and j: "j < n" "0 < j" and lt: "lt (xs ! j) (xs ! ((j - 1) div 2))"
  defines "i \<equiv> (j - 1) div 2"
  shows "heap_but_up lt (xs[i := xs ! j, j := xs ! i]) i n"
proof -
  let ?ys = "xs[i := xs ! j, j := xs ! i]"
  have ij: "i < j" using parent_lt j by (simp add: i_def)
  have len: "i < length xs" "j < length xs" using ij j n by auto
  note nth = swap_nth [OF len]
  have ltj: "lt (xs ! j) (xs ! i)" using lt by (simp add: i_def)
  note asym = strict_weakD(2) [OF sw ltj]
  have ok: "ordered_at lt xs k" if "k < n" "0 < k" "k \<noteq> j" for k
    using hb that by (simp add: heap_but_up_def)
  show ?thesis
    unfolding heap_but_up_def
  proof (intro conjI allI impI)
    fix k assume k: "k < n" "0 < k" "k \<noteq> i"
    have kp: "(k - 1) div 2 < k" using k by auto
    consider "k = j" | "k \<noteq> j" "(k - 1) div 2 = j" | "k \<noteq> j" "(k - 1) div 2 = i"
      | "k \<noteq> j" "(k - 1) div 2 \<noteq> j" "(k - 1) div 2 \<noteq> i" by blast
    then show "ordered_at lt ?ys k"
    proof cases
      case 1
      then show ?thesis using asym ij i_def [symmetric] by (simp add: ordered_at_def nth)
    next
      case 2
      then have "\<not> lt (xs ! k) (xs ! i)" using hb k j by (simp add: heap_but_up_def i_def)
      with 2 k show ?thesis using ij by (simp add: ordered_at_def nth)
    next
      case 3
      have "\<not> lt (xs ! k) (xs ! i)" using ok [OF k(1,2) 3(1)] 3 by (simp add: ordered_at_def)
      then have "\<not> lt (xs ! k) (xs ! j)"
        using strict_weakD(3) [OF sw _ asym] by blast
      with 3 k show ?thesis by (simp add: ordered_at_def nth)
    next
      case 4
      with ok [OF k(1,2)] k show ?thesis by (simp add: ordered_at_def nth)
    qed
  next
    fix k assume k: "k < n" "0 < k" "0 < i" "(k - 1) div 2 = i"
    have par: "(i - 1) div 2 < i" using k by auto
    have oi: "\<not> lt (xs ! i) (xs ! ((i - 1) div 2))"
      using ok [of i] k(3) ij j(1) by (simp add: ordered_at_def)
    have "\<not> lt (xs ! k) (xs ! i)" if "k \<noteq> j" using ok [OF k(1,2) that] k by (simp add: ordered_at_def)
    then have "\<not> lt (xs ! k) (xs ! ((i - 1) div 2))" if "k \<noteq> j"
      using strict_weakD(3) [OF sw _ oi] that by blast
    then show "\<not> lt (?ys ! k) (?ys ! ((i - 1) div 2))"
      using k par ij oi parent_lt [OF k(2)] by (simp add: nth)
  qed
qed

lemma heap_up_spec:
  assumes "strict_weak (less_fn h)" "j < length (items h)"
    "heap_but_up (less_fn h) (items h) j (length (items h))"
  shows "heap_ok (less_fn h) (items (heap_up h j)) 0 (length (items h))
       \<and> mset (items (heap_up h j)) = mset (items h) \<and> less_fn (heap_up h j) = less_fn h"
  using assms
proof (induction h j rule: heap_up.induct)
  case (1 h j)
  let ?xs = "items h" and ?lt = "less_fn h" and ?i = "(j - 1) div 2"
  show ?case
  proof (cases "?i = j \<or> \<not> priorityQueueHeap_Less h j ?i")
    case True
    then have "ordered_at ?lt ?xs j" if "0 < j"
      using that parent_lt [OF that] by (auto simp: ordered_at_def priorityQueueHeap_Less_def)
    then show ?thesis using True "1.prems"(3)
      by (auto simp: heap_up.simps [of h j] heap_ok_def heap_but_up_def)
  next
    case False
    let ?h = "priorityQueueHeap_Swap h ?i j"
    have j: "0 < j" using False by (cases j) auto
    have "heap_but_up ?lt (items ?h) ?i (length ?xs)"
      using heap_up_step [OF "1.prems"(1) order_refl "1.prems"(3,2) j] False
      by (simp add: priorityQueueHeap_Swap_def priorityQueueHeap_Less_def)
    moreover have h: "less_fn ?h = ?lt" "length (items ?h) = length ?xs" "?i < length ?xs"
      using parent_lt [OF j] "1.prems"(2) by (simp_all add: priorityQueueHeap_Swap_def)
    ultimately have IH: "heap_ok ?lt (items (heap_up ?h ?i)) 0 (length ?xs)
        \<and> mset (items (heap_up ?h ?i)) = mset (items ?h) \<and> less_fn (heap_up ?h ?i) = ?lt"
      using "1.IH" [OF refl False] "1.prems"(1) by simp
    have "mset (items ?h) = mset ?xs"
      using h "1.prems"(2) by (simp add: priorityQueueHeap_Swap_def mset_swap)
    moreover have "heap_up h j = heap_up ?h ?i"
      using False by (simp add: heap_up.simps [of h j] Let_def)
    ultimately show ?thesis using IH by simp
  qed
qed

subsection \<open>Queue operations keep the heap and the multiset of items\<close>

definition heap_wf :: "'a pqheap \<Rightarrow> bool" where
  "heap_wf h \<longleftrightarrow> strict_weak (less_fn h) \<and> heap_ok (less_fn h) (items h) 0 (length (items h))"

lemma heap_Init_spec:
  assumes sw: "strict_weak (less_fn h)"
  shows "heap_wf (heap_Init h) \<and> mset (items (heap_Init h)) = mset (items h)
       \<and> less_fn (heap_Init h) = less_fn h"
proof -
  have "heap_ok (less_fn h) (items (heap_init_from m h n)) 0 n
      \<and> mset (items (heap_init_from m h n)) = mset (items h)
      \<and> less_fn (heap_init_from m h n) = less_fn h"
    if "heap_ok (less_fn h) (items h) m n" "strict_weak (less_fn h)" "n = length (items h)" for m n
    using that
  proof (induction m arbitrary: h)
    case (Suc m)
    have "heap_but_down (less_fn h) (items h) m m n"
      using Suc.prems(1) by (auto simp: heap_ok_def heap_but_down_def)
    with heap_down_spec [OF Suc.prems(2), of n m m] Suc.prems(3)
    have "heap_ok (less_fn h) (items (heap_down h m n)) m n
      \<and> mset (items (heap_down h m n)) = mset (items h) \<and> less_fn (heap_down h m n) = less_fn h"
      by simp
    with Suc.IH [of "heap_down h m n"] Suc.prems(2,3) show ?case by simp
  qed simp
  moreover have "heap_ok (less_fn h) (items h) (length (items h) div 2) (length (items h))"
    by (auto simp: heap_ok_def)
  ultimately have "heap_ok (less_fn h) (items (heap_Init h)) 0 (length (items h))
      \<and> mset (items (heap_Init h)) = mset (items h) \<and> less_fn (heap_Init h) = less_fn h"
    using sw by (simp add: heap_Init_def priorityQueueHeap_Len_def Let_def)
  then show ?thesis using sw by (metis heap_wf_def mset_eq_length)
qed

lemma heap_Push_spec:
  assumes "heap_wf h"
  shows "heap_wf (heap_Push h x) \<and> mset (items (heap_Push h x)) = add_mset x (mset (items h))
       \<and> less_fn (heap_Push h x) = less_fn h"
proof -
  let ?h = "priorityQueueHeap_Push h x" and ?n = "length (items h)"
  have h: "strict_weak (less_fn h)" "heap_ok (less_fn h) (items h) 0 ?n"
    using assms by (simp_all add: heap_wf_def)
  have p: "items ?h = items h @ [x]" "less_fn ?h = less_fn h"
    by (simp_all add: priorityQueueHeap_Push_def)
  have "heap_but_up (less_fn h) (items h @ [x]) ?n (Suc ?n)"
    using h(2) by (fastforce simp: heap_but_up_def heap_ok_def ordered_at_def nth_append)
  with heap_up_spec [of ?h ?n] h(1)
  have "heap_ok (less_fn h) (items (heap_up ?h ?n)) 0 (Suc ?n)
      \<and> mset (items (heap_up ?h ?n)) = add_mset x (mset (items h))
      \<and> less_fn (heap_up ?h ?n) = less_fn h"
    by (simp add: p)
  then show ?thesis using h(1)
    by (simp add: heap_wf_def heap_Push_def priorityQueueHeap_Len_def p)
qed

lemma heap_root_least:
  assumes "heap_wf h" and "k < length (items h)"
  shows "\<not> less_fn h (items h ! k) (items h ! 0)"
  using assms(2)
proof (induction k rule: less_induct)
  case (less k)
  have sw: "strict_weak (less_fn h)" using assms(1) by (simp add: heap_wf_def)
  show ?case
  proof (cases "k = 0")
    case True
    then show ?thesis using strict_weakD(1) [OF sw] by simp
  next
    case False
    then have p: "(k - 1) div 2 < k" by auto
    have "\<not> less_fn h (items h ! k) (items h ! ((k - 1) div 2))"
      using assms(1) less.prems False by (simp add: heap_wf_def heap_ok_def ordered_at_def)
    moreover have "\<not> less_fn h (items h ! ((k - 1) div 2)) (items h ! 0)"
      using less.IH [OF p] less.prems p by simp
    ultimately show ?thesis by (rule strict_weakD(3) [OF sw])
  qed
qed

lemma heap_Pop_spec:
  assumes "heap_wf h" and ne: "items h \<noteq> []"
  shows "heap_wf (fst (heap_Pop h))" and "less_fn (fst (heap_Pop h)) = less_fn h"
    and "snd (heap_Pop h) = items h ! 0"
    and "mset (items h) = add_mset (snd (heap_Pop h)) (mset (items (fst (heap_Pop h))))"
proof -
  let ?xs = "items h" and ?lt = "less_fn h"
  define n where "n = length ?xs - 1"
  define h1 where "h1 = priorityQueueHeap_Swap h 0 n"
  define h2 where "h2 = heap_down h1 0 n"
  have sw: "strict_weak ?lt" and ok: "heap_ok ?lt ?xs 0 (length ?xs)"
    using assms(1) by (simp_all add: heap_wf_def)
  have n: "n < length ?xs" "length ?xs = Suc n" using ne by (auto simp: n_def)
  have h1: "items h1 = ?xs[0 := ?xs ! n, n := ?xs ! 0]" "less_fn h1 = ?lt"
    by (simp_all add: h1_def priorityQueueHeap_Swap_def)
  have "heap_but_down ?lt (items h1) 0 0 n"
    using ok n by (auto simp: heap_but_down_def heap_ok_def ordered_at_def h1 nth_list_update)
  then have d: "heap_ok ?lt (items h2) 0 n \<and> mset (items h2) = mset (items h1)
      \<and> less_fn h2 = ?lt \<and> items h2 ! n = items h1 ! n"
    using heap_down_spec [of h1 n 0 0] sw n unfolding h2_def by (simp add: h1)
  have last: "items h2 ! n = ?xs ! 0" using d n by (simp add: h1)
  have len: "length (items h2) = Suc n" using n by (simp add: h2_def h1)
  have pop: "heap_Pop h = (h2\<lparr>items := take n (items h2)\<rparr>, ?xs ! 0)"
    using last len
    unfolding heap_Pop_def Let_def priorityQueueHeap_Len_def n_def [symmetric] h1_def [symmetric]
      h2_def [symmetric]
    by (simp add: priorityQueueHeap_Pop_def)
  have "heap_ok ?lt (take n (items h2)) 0 n"
    using d by (auto simp: heap_ok_def ordered_at_def)
  then show "heap_wf (fst (heap_Pop h))" using d sw len by (simp add: pop heap_wf_def)
  show "less_fn (fst (heap_Pop h)) = ?lt" "snd (heap_Pop h) = ?xs ! 0" using d by (simp_all add: pop)
  have "mset ?xs = mset (items h2)" using d n ne by (simp add: h1 mset_swap)
  also have "items h2 = take n (items h2) @ [?xs ! 0]"
    using len last by (metis lessI take_Suc_conv_app_nth take_all order_refl)
  finally show "mset ?xs = add_mset (snd (heap_Pop h)) (mset (items (fst (heap_Pop h))))"
    by (simp add: pop)
qed

lemma heap_Pop_least:
  assumes "heap_wf h" and "items h \<noteq> []" and "x \<in> set (items h)"
  shows "\<not> less_fn h x (snd (heap_Pop h))"
  using assms heap_root_least [OF assms(1)] heap_Pop_spec(3) [OF assms(1,2)]
  by (metis in_set_conv_nth)

lemma drain_spec:
  assumes "heap_wf h"
  shows "\<exists>ys. drain h out = out @ ys \<and> mset ys = mset (items h)
       \<and> sorted_wrt (\<lambda>a b. \<not> less_fn h b a) ys"
  using assms
proof (induction h out rule: drain.induct)
  case (1 h out)
  show ?case
  proof (cases "items h = []")
    case True
    then show ?thesis by (simp add: drain.simps [of h out] priorityQueueHeap_Len_def)
  next
    case False
    note pop = heap_Pop_spec [OF "1.prems" False]
    let ?h = "fst (heap_Pop h)" and ?v = "snd (heap_Pop h)"
    have len: "priorityQueueHeap_Len h > 0" using False by (simp add: priorityQueueHeap_Len_def)
    obtain ys where ys: "drain ?h (out @ [?v]) = (out @ [?v]) @ ys" "mset ys = mset (items ?h)"
        "sorted_wrt (\<lambda>a b. \<not> less_fn ?h b a) ys"
      using "1.IH" [OF len pop(1)] by blast
    have "set ys \<subseteq> set (items h)"
      using pop(4) ys(2) by (metis set_mset_mset set_mset_add_mset_insert subset_insertI)
    then have "\<forall>y\<in>set ys. \<not> less_fn h y ?v" using heap_Pop_least [OF "1.prems" False] by blast
    then have "sorted_wrt (\<lambda>a b. \<not> less_fn h b a) (?v # ys)" using ys(3) pop(2) by simp
    moreover have "drain h out = out @ (?v # ys)" using ys(1) len by (simp add: drain.simps [of h out])
    moreover have "mset (?v # ys) = mset (items h)" using pop(4) ys(2) by simp
    ultimately show ?thesis by blast
  qed
qed

subsection \<open>A multiset that hands out its first items\<close>

datatype (dead 'a) pq_op =
    PqPush 'a | PqPop | PqPeek | PqLen | PqIsEmpty | PqClear | PqValues | PqValuesSorted | PqToJSON

datatype (dead 'a) pq_res =
    PqUnit | PqItem "'a option" | PqNat nat | PqBool bool | PqItems "'a list" | PqBytes "string + bytes"

primrec pq_step ::
    "'a list json_marshal \<Rightarrow> 'a pq_op \<Rightarrow> 'a priorityqueue option
     \<Rightarrow> 'a priorityqueue option \<times> 'a pq_res" where
  "pq_step marshal (PqPush x) p = (PriorityQueue_Push p x, PqUnit)"
| "pq_step marshal PqPop p = map_prod id PqItem (PriorityQueue_Pop p)"
| "pq_step marshal PqPeek p = (p, PqItem (PriorityQueue_Peek p))"
| "pq_step marshal PqLen p = (p, PqNat (PriorityQueue_Len p))"
| "pq_step marshal PqIsEmpty p = (p, PqBool (PriorityQueue_IsEmpty p))"
| "pq_step marshal PqClear p = (PriorityQueue_Clear p, PqUnit)"
| "pq_step marshal PqValues p = (p, PqItems (PriorityQueue_Values p))"
| "pq_step marshal PqValuesSorted p = (p, PqItems (PriorityQueue_ValuesSorted p))"
| "pq_step marshal PqToJSON p = (p, PqBytes (PriorityQueue_ToJSON marshal p))"

text \<open>What each call may answer on a multiset \<open>M\<close> of items. Among items of equal priority the queue
  chooses freely.\<close>

definition first_in :: "('a \<Rightarrow> 'a \<Rightarrow> bool) \<Rightarrow> 'a multiset \<Rightarrow> 'a option \<Rightarrow> bool" where
  "first_in lt M r \<longleftrightarrow>
     (case r of None \<Rightarrow> M = {#} | Some v \<Rightarrow> v \<in># M \<and> (\<forall>x\<in>#M. \<not> lt x v))"

definition sorting_of :: "('a \<Rightarrow> 'a \<Rightarrow> bool) \<Rightarrow> 'a multiset \<Rightarrow> 'a list \<Rightarrow> bool" where
  "sorting_of lt M ys \<longleftrightarrow> mset ys = M \<and> sorted_wrt (\<lambda>a b. \<not> lt b a) ys"

primrec pq_spec ::
    "('a \<Rightarrow> 'a \<Rightarrow> bool) \<Rightarrow> 'a list json_marshal \<Rightarrow> 'a pq_op \<Rightarrow> 'a multiset \<Rightarrow> 'a pq_res
     \<Rightarrow> 'a multiset \<Rightarrow> bool" where
  "pq_spec lt marshal (PqPush x) M r M' \<longleftrightarrow> r = PqUnit \<and> M' = add_mset x M"
| "pq_spec lt marshal PqPop M r M' \<longleftrightarrow>
     (\<exists>v. r = PqItem v \<and> first_in lt M v \<and> M' = M - (case v of None \<Rightarrow> {#} | Some x \<Rightarrow> {#x#}))"
| "pq_spec lt marshal PqPeek M r M' \<longleftrightarrow> (\<exists>v. r = PqItem v \<and> first_in lt M v) \<and> M' = M"
| "pq_spec lt marshal PqLen M r M' \<longleftrightarrow> r = PqNat (size M) \<and> M' = M"
| "pq_spec lt marshal PqIsEmpty M r M' \<longleftrightarrow> r = PqBool (M = {#}) \<and> M' = M"
| "pq_spec lt marshal PqClear M r M' \<longleftrightarrow> r = PqUnit \<and> M' = {#}"
| "pq_spec lt marshal PqValues M r M' \<longleftrightarrow> (\<exists>ys. r = PqItems ys \<and> mset ys = M) \<and> M' = M"
| "pq_spec lt marshal PqValuesSorted M r M' \<longleftrightarrow>
     (\<exists>ys. r = PqItems ys \<and> sorting_of lt M ys) \<and> M' = M"
| "pq_spec lt marshal PqToJSON M r M' \<longleftrightarrow>
     (\<exists>ys. r = PqBytes (marshalListJSON marshal ys ''priority queue'') \<and> sorting_of lt M ys) \<and> M' = M"

definition pq_inv :: "('a \<Rightarrow> 'a \<Rightarrow> bool) \<Rightarrow> 'a priorityqueue option \<Rightarrow> bool" where
  "pq_inv lt p \<longleftrightarrow> (\<exists>h. p = Some \<lparr>pq_h = Some h\<rparr> \<and> heap_wf h \<and> less_fn h = lt)"

definition pq_abs :: "'a priorityqueue option \<Rightarrow> 'a multiset" where
  "pq_abs p = (case pq_heap p of None \<Rightarrow> {#} | Some h \<Rightarrow> mset (items h))"

lemma pq_heap_Some [simp]:
  "pq_heap (Some \<lparr>pq_h = Some h\<rparr>) = Some h" "pq_set (Some \<lparr>pq_h = Some h\<rparr>) h' = Some \<lparr>pq_h = Some h'\<rparr>"
  by (simp_all add: pq_heap_def pq_set_def)

lemma heap_first_in:
  assumes "heap_wf h"
  shows "first_in (less_fn h) (mset (items h)) (if items h = [] then None else Some (items h ! 0))"
  using heap_root_least [OF assms] by (auto simp: first_in_def in_set_conv_nth)

lemma pq_ValuesSorted_spec:
  assumes "heap_wf h"
  shows "sorting_of (less_fn h) (mset (items h)) (PriorityQueue_ValuesSorted (Some \<lparr>pq_h = Some h\<rparr>))"
proof (cases "items h = []")
  case True
  then show ?thesis
    by (simp add: PriorityQueue_ValuesSorted_def priorityQueueHeap_Len_def sorting_of_def)
next
  case False
  let ?t = "\<lparr>items = items h, less_fn = less_fn h\<rparr>"
  have init: "heap_wf (heap_Init ?t)" "mset (items (heap_Init ?t)) = mset (items h)"
      "less_fn (heap_Init ?t) = less_fn h"
    using heap_Init_spec [of ?t] assms unfolding heap_wf_def by auto
  obtain ys where "drain (heap_Init ?t) [] = ys" "mset ys = mset (items h)"
      "sorted_wrt (\<lambda>a b. \<not> less_fn h b a) ys"
    using drain_spec [OF init(1), of "[]"] init(2,3) by auto
  then show ?thesis using False
    by (simp add: PriorityQueue_ValuesSorted_def priorityQueueHeap_Len_def sorting_of_def)
qed

lemma pq_Pop_spec:
  assumes wf: "heap_wf h"
  defines "p \<equiv> Some \<lparr>pq_h = Some h\<rparr>"
  shows "pq_inv (less_fn h) (fst (PriorityQueue_Pop p))
       \<and> first_in (less_fn h) (mset (items h)) (snd (PriorityQueue_Pop p))
       \<and> pq_abs (fst (PriorityQueue_Pop p))
         = mset (items h) - (case snd (PriorityQueue_Pop p) of None \<Rightarrow> {#} | Some x \<Rightarrow> {#x#})"
proof (cases "items h = []")
  case True
  then show ?thesis using wf
    by (simp add: p_def PriorityQueue_Pop_def priorityQueueHeap_Len_def first_in_def pq_inv_def pq_abs_def)
next
  case False
  note pop = heap_Pop_spec [OF wf False]
  have "PriorityQueue_Pop p = (Some \<lparr>pq_h = Some (fst (heap_Pop h))\<rparr>, Some (snd (heap_Pop h)))"
    using False by (simp add: p_def PriorityQueue_Pop_def priorityQueueHeap_Len_def split: prod.split)
  then show ?thesis using pop heap_first_in [OF wf] False by (auto simp: pq_inv_def pq_abs_def)
qed

interpretation pq_ref: loose_refinement "pq_step marshal" "pq_inv lt" "pq_spec lt marshal" pq_abs
  for lt :: "'a \<Rightarrow> 'a \<Rightarrow> bool" and marshal :: "'a list json_marshal"
proof unfold_locales
  fix p :: "'a priorityqueue option" and c :: "'a pq_op"
  assume inv: "pq_inv lt p"
  then obtain h where p: "p = Some \<lparr>pq_h = Some h\<rparr>" and wf: "heap_wf h" and lt: "less_fn h = lt"
    by (auto simp: pq_inv_def)
  note push = heap_Push_spec [OF wf] and pop = pq_Pop_spec [OF wf, folded p, unfolded lt]
  have empty: "heap_wf (h\<lparr>items := []\<rparr>)" using wf by (simp add: heap_wf_def heap_ok_def)
  show "pq_inv lt (fst (pq_step marshal c p))"
    using inv pop
    by (cases c) (simp_all add: pq_inv_def p PriorityQueue_Push_def PriorityQueue_Clear_def push lt empty)
  have abs: "pq_abs p = mset (items h)" by (simp add: pq_abs_def p)
  have peek: "first_in lt (mset (items h)) (PriorityQueue_Peek p)"
    using heap_first_in [OF wf] lt by (simp add: PriorityQueue_Peek_def p priorityQueueHeap_Len_def split: if_splits)
  note sorted = pq_ValuesSorted_spec [OF wf, folded p, unfolded lt]
  show "pq_spec lt marshal c (pq_abs p) (snd (pq_step marshal c p)) (pq_abs (fst (pq_step marshal c p)))"
  proof (cases c)
    case PqToJSON
    then show ?thesis using sorted by (auto simp: abs PriorityQueue_ToJSON_def)
  qed (use pop peek sorted in \<open>simp_all add: abs p PriorityQueue_Push_def PriorityQueue_Clear_def push
      pq_abs_def PriorityQueue_Len_def PriorityQueue_IsEmpty_def PriorityQueue_Values_def
      priorityQueueHeap_Len_def\<close>)
qed

lemma NewPriorityQueue_inv:
  assumes "strict_weak lt" and "NewPriorityQueue (Some lt) xs = Inr q"
  shows "pq_inv lt (Some q) \<and> pq_abs (Some q) = mset xs"
  using assms heap_Init_spec [of "\<lparr>items = xs, less_fn = lt\<rparr>"]
  by (auto simp: NewPriorityQueue_def pq_inv_def pq_abs_def)

text \<open>
  C6. With a comparator that is a strict weak order, whatever is called on a priority queue made
  with initial items \<open>xs\<close> is a possible history of a multiset of items: \<open>Pop\<close> and \<open>Peek\<close> answer an
  item that no item of the queue precedes (and nothing exactly when it is empty), \<open>Pop\<close> removes one
  copy of it, \<open>Values\<close> has the content in some order, and \<open>ValuesSorted\<close> and \<open>ToJSON\<close> have it in
  priority order.
\<close>

theorem priority_queue_serves_first:
  assumes "strict_weak lt" and "NewPriorityQueue (Some lt) xs = Inr q"
  shows "\<exists>M. admits (pq_spec lt marshal) cs (mset xs) (snd (run (pq_step marshal) cs (Some q))) M"
  using pq_ref.run_admits [of lt "Some q" marshal cs] NewPriorityQueue_inv [OF assms] by auto

lemma priority_queue_serves_first_witness:
  "\<exists>q M. NewPriorityQueue (Some ((<) :: nat \<Rightarrow> nat \<Rightarrow> bool)) [3, 1, 2] = Inr q
     \<and> admits (pq_spec (<) (\<lambda>_. Inr ''[]'')) [PqPop, PqPush 0, PqPop] (mset [3, 1, 2])
         (snd (run (pq_step (\<lambda>_. Inr ''[]'')) [PqPop, PqPush 0, PqPop] (Some q))) M"
proof -
  have "strict_weak ((<) :: nat \<Rightarrow> nat \<Rightarrow> bool)" by (auto simp: strict_weak_def)
  moreover obtain q where q: "NewPriorityQueue (Some ((<) :: nat \<Rightarrow> nat \<Rightarrow> bool)) [3, 1, 2] = Inr q"
    by (simp add: NewPriorityQueue_def)
  ultimately show ?thesis using priority_queue_serves_first by blast
qed

text \<open>
  \<open>ValuesSorted\<close> of a queue over \<open>xs\<close> with a strict weak order returns the items of \<open>xs\<close>, each as
  often as it was given, in priority order, and leaves the queue as it is (heap sort).
\<close>

theorem priority_queue_sorts:
  assumes "strict_weak lt" and "NewPriorityQueue (Some lt) xs = Inr q"
  shows "mset (PriorityQueue_ValuesSorted (Some q)) = mset xs
       \<and> sorted_wrt (\<lambda>a b. \<not> lt b a) (PriorityQueue_ValuesSorted (Some q))"
proof -
  obtain h where "q = \<lparr>pq_h = Some h\<rparr>" "heap_wf h" "less_fn h = lt" "mset (items h) = mset xs"
    using NewPriorityQueue_inv [OF assms] by (auto simp: pq_inv_def pq_abs_def)
  then show ?thesis using pq_ValuesSorted_spec [of h] by (simp add: sorting_of_def)
qed

lemma priority_queue_sorts_witness:
  "\<exists>q. NewPriorityQueue (Some ((<) :: nat \<Rightarrow> nat \<Rightarrow> bool)) [3, 1, 2] = Inr q
     \<and> mset (PriorityQueue_ValuesSorted (Some q)) = mset [3, 1, 2]
     \<and> sorted (PriorityQueue_ValuesSorted (Some q))"
proof -
  have "strict_weak ((<) :: nat \<Rightarrow> nat \<Rightarrow> bool)" by (auto simp: strict_weak_def)
  moreover obtain q where q: "NewPriorityQueue (Some ((<) :: nat \<Rightarrow> nat \<Rightarrow> bool)) [3, 1, 2] = Inr q"
    by (simp add: NewPriorityQueue_def)
  ultimately show ?thesis using priority_queue_sorts [of "(<)" "[3, 1, 2]" q]
    unfolding not_less by blast
qed

end
