(* ===== verification/Tree_Node.thy ===== *)
theory Tree_Node
  imports List_List Mapping_Map
begin

text \<open>
  \<^verbatim>\<open>collectionx/tree\<close>: \<^verbatim>\<open>tree_types.go\<close>, \<^verbatim>\<open>tree_build.go\<close>, \<^verbatim>\<open>tree_mutation.go\<close>, \<^verbatim>\<open>tree_query.go\<close>,
  \<^verbatim>\<open>tree_clone.go\<close> and the Tree part of \<^verbatim>\<open>json.go\<close>. Nodes are shared and mutated through pointers, so
  they live in an explicit heap: a pointer is an index into it, allocation appends a node, and nil is
  \<open>None\<close>. The index of the nodes by id and the lists of roots and children are the Map and the List
  of the other components, called as the code calls them. Walks up the parent pointers and the loops
  over a stack of nodes need not end on a heap with a cycle: they are partial functions whose \<open>None\<close>
  is a loop that does not return. A slice used as a stack is the list of its items from the last to
  the first. This theory holds the operations; \<^verbatim>\<open>Tree_Forest\<close> shows what they do.
\<close>

subsection \<open>Types\<close>

text \<open>Ordered trees of any width: of pointers where the nodes of a heap are meant, of ids and values
  where their content is. A \<open>jsonNode\<close> is such a tree.\<close>

datatype 'a rose = Rose (label: 'a) (subs: "'a rose list")

type_synonym 'a forest = "'a rose list"

type_synonym ('k, 'v) jsonNode = "('k \<times> 'v) rose"

datatype tree_error = ErrNodeAlreadyExists | ErrNodeNotFound | ErrParentNotFound | ErrCycleDetected

record ('k, 'v) tree_entry =
  en_ID :: 'k
  en_ParentID :: "'k option"
  en_Value :: 'v

definition RootEntry :: "'k \<Rightarrow> 'v \<Rightarrow> ('k, 'v) tree_entry" where
  "RootEntry key v = \<lparr>en_ID = key, en_ParentID = None, en_Value = v\<rparr>"

definition ChildEntry :: "'k \<Rightarrow> 'k \<Rightarrow> 'v \<Rightarrow> ('k, 'v) tree_entry" where
  "ChildEntry key parentID v = \<lparr>en_ID = key, en_ParentID = Some parentID, en_Value = v\<rparr>"

type_synonym ptr = nat

record ('k, 'v) tnode =
  nd_id :: 'k
  nd_value :: 'v
  nd_parent :: "ptr option"
  nd_children :: "ptr glist"

type_synonym ('k, 'v) theap = "('k, 'v) tnode list"

definition newNode :: "('k, 'v) theap \<Rightarrow> 'k \<Rightarrow> 'v \<Rightarrow> ('k, 'v) theap \<times> ptr" where
  "newNode h key v = (h @ [\<lparr>nd_id = key, nd_value = v, nd_parent = None, nd_children = li_zero\<rparr>], length h)"

primrec Node_ID :: "('k::zero, 'v) theap \<Rightarrow> ptr option \<Rightarrow> 'k" where
  "Node_ID h None = 0"
| "Node_ID h (Some n) = nd_id (h ! n)"

primrec Node_Value :: "('k, 'v::zero) theap \<Rightarrow> ptr option \<Rightarrow> 'v" where
  "Node_Value h None = 0"
| "Node_Value h (Some n) = nd_value (h ! n)"

primrec Node_SetValue :: "('k, 'v) theap \<Rightarrow> ptr option \<Rightarrow> 'v \<Rightarrow> ('k, 'v) theap" where
  "Node_SetValue h None v = h"
| "Node_SetValue h (Some n) v = h[n := (h ! n)\<lparr>nd_value := v\<rparr>]"

primrec Node_Parent :: "('k, 'v) theap \<Rightarrow> ptr option \<Rightarrow> ptr option" where
  "Node_Parent h None = None"
| "Node_Parent h (Some n) = nd_parent (h ! n)"

primrec Node_Children :: "('k, 'v) theap \<Rightarrow> ptr option \<Rightarrow> ptr list" where
  "Node_Children h None = []"
| "Node_Children h (Some n) =
     (if List_Len (Some (nd_children (h ! n))) = 0 then [] else List_Values (Some (nd_children (h ! n))))"

primrec Node_ChildCount :: "('k, 'v) theap \<Rightarrow> ptr option \<Rightarrow> nat" where
  "Node_ChildCount h None = 0"
| "Node_ChildCount h (Some n) = List_Len (Some (nd_children (h ! n)))"

definition Node_IsRoot :: "('k, 'v) theap \<Rightarrow> ptr option \<Rightarrow> bool" where
  "Node_IsRoot h n \<longleftrightarrow> n \<noteq> None \<and> Node_Parent h n = None"

definition Node_IsLeaf :: "('k, 'v) theap \<Rightarrow> ptr option \<Rightarrow> bool" where
  "Node_IsLeaf h n \<longleftrightarrow> n \<noteq> None \<and> Node_ChildCount h n = 0"

record 'k gtree =
  tr_nodes :: "('k, ptr) gmap option"
  tr_roots :: "ptr glist option"

definition newTreeWithCapacity :: "int \<Rightarrow> int \<Rightarrow> 'k gtree option" where
  "newTreeWithCapacity nodeCapacity rootCapacity =
     Some \<lparr>tr_nodes = NewMapWithCapacity nodeCapacity, tr_roots = NewListWithCapacity rootCapacity []\<rparr>"

definition NewTree :: "'k gtree option" where
  "NewTree = newTreeWithCapacity 0 0"

text \<open>A method call on the child list of a node, which is a struct of the node.\<close>

definition with_children :: "(ptr glist option \<Rightarrow> ptr glist option) \<Rightarrow> ptr \<Rightarrow> ('k, 'v) theap \<Rightarrow> ('k, 'v) theap" where
  "with_children f n h =
     (case f (Some (nd_children (h ! n))) of None \<Rightarrow> h | Some c \<Rightarrow> h[n := (h ! n)\<lparr>nd_children := c\<rparr>])"

definition set_parent :: "ptr \<Rightarrow> ptr option \<Rightarrow> ('k, 'v) theap \<Rightarrow> ('k, 'v) theap" where
  "set_parent n p h = h[n := (h ! n)\<lparr>nd_parent := p\<rparr>]"

text \<open>\<open>children.Get(i)\<close> for the indices of the list.\<close>

definition child_at :: "('k, 'v) theap \<Rightarrow> ptr \<Rightarrow> nat \<Rightarrow> ptr" where
  "child_at h n i = (case List_Get (Some (nd_children (h ! n))) (int i) of Some c \<Rightarrow> c | None \<Rightarrow> 0)"

subsection \<open>Queries\<close>

primrec Tree_Get :: "'k gtree option \<Rightarrow> 'k \<Rightarrow> ptr option" where
  "Tree_Get None key = None"
| "Tree_Get (Some t) key = (if tr_nodes t = None then None else Map_Get (tr_nodes t) key)"

definition Tree_Has :: "'k gtree option \<Rightarrow> 'k \<Rightarrow> bool" where
  "Tree_Has p key \<longleftrightarrow> Tree_Get p key \<noteq> None"

definition Tree_Parent :: "('k, 'v) theap \<Rightarrow> 'k gtree option \<Rightarrow> 'k \<Rightarrow> ptr option" where
  "Tree_Parent h p key = (case Tree_Get p key of None \<Rightarrow> None | Some n \<Rightarrow> nd_parent (h ! n))"

definition Tree_Children :: "('k, 'v) theap \<Rightarrow> 'k gtree option \<Rightarrow> 'k \<Rightarrow> ptr list" where
  "Tree_Children h p key = (case Tree_Get p key of None \<Rightarrow> [] | Some n \<Rightarrow> Node_Children h (Some n))"

primrec Tree_Roots :: "'k gtree option \<Rightarrow> ptr list" where
  "Tree_Roots None = []"
| "Tree_Roots (Some t) = (if tr_roots t = None then [] else List_Values (tr_roots t))"

partial_function (option) parentDepth :: "('k, 'v) theap \<Rightarrow> ptr option \<Rightarrow> nat \<Rightarrow> nat option" where
  "parentDepth h current depth =
     (case current of None \<Rightarrow> Some depth | Some n \<Rightarrow> parentDepth h (nd_parent (h ! n)) (depth + 1))"

partial_function (option) parentChain :: "('k, 'v) theap \<Rightarrow> ptr option \<Rightarrow> ptr list \<Rightarrow> ptr list option" where
  "parentChain h current ancestors =
     (case current of None \<Rightarrow> Some ancestors | Some n \<Rightarrow> parentChain h (nd_parent (h ! n)) (ancestors @ [n]))"

definition Tree_Ancestors :: "('k, 'v) theap \<Rightarrow> 'k gtree option \<Rightarrow> 'k \<Rightarrow> ptr list option" where
  "Tree_Ancestors h p key =
     (case Tree_Get p key of
        None \<Rightarrow> Some []
      | Some n \<Rightarrow>
          (case parentDepth h (nd_parent (h ! n)) 0 of
             None \<Rightarrow> None
           | Some depth \<Rightarrow> if depth = 0 then Some [] else parentChain h (nd_parent (h ! n)) []))"

definition appendChildrenReverse :: "('k, 'v) theap \<Rightarrow> ptr list \<Rightarrow> ptr \<Rightarrow> ptr list" where
  "appendChildrenReverse h stack n =
     foldl (\<lambda>st i. child_at h n i # st) stack (rev [0 ..< List_Len (Some (nd_children (h ! n)))])"

partial_function (option) descendantsLoop :: "('k, 'v) theap \<Rightarrow> ptr list \<Rightarrow> ptr list \<Rightarrow> ptr list option" where
  "descendantsLoop h stack descendants =
     (case stack of
        [] \<Rightarrow> Some descendants
      | current # rest \<Rightarrow> descendantsLoop h (appendChildrenReverse h rest current) (descendants @ [current]))"

definition Tree_Descendants :: "('k, 'v) theap \<Rightarrow> 'k gtree option \<Rightarrow> 'k \<Rightarrow> ptr list option" where
  "Tree_Descendants h p key =
     (case Tree_Get p key of
        None \<Rightarrow> Some []
      | Some n \<Rightarrow>
          if List_Len (Some (nd_children (h ! n))) = 0 then Some []
          else descendantsLoop h (appendChildrenReverse h [] n) [])"

text \<open>The callback gets the node it is called with and answers whether to go on; it leaves the tree
  alone.\<close>

type_synonym ('k, 'v, 'st) visitor = "'st \<Rightarrow> ('k, 'v) tnode \<Rightarrow> 'st \<times> bool"

partial_function (option) rangeDFSLoop ::
    "('k, 'v) theap \<Rightarrow> ('k, 'v, 'st) visitor \<Rightarrow> ptr list \<Rightarrow> 'st \<Rightarrow> ('st \<times> bool) option" where
  "rangeDFSLoop h fn stack st =
     (case stack of
        [] \<Rightarrow> Some (st, True)
      | current # rest \<Rightarrow>
          (case fn st (h ! current) of
             (st', go) \<Rightarrow> if \<not> go then Some (st', False)
                          else rangeDFSLoop h fn (appendChildrenReverse h rest current) st'))"

definition rangeDFSFromRoot ::
    "('k, 'v) theap \<Rightarrow> ('k, 'v, 'st) visitor \<Rightarrow> ptr \<Rightarrow> 'st \<Rightarrow> ('st \<times> bool) option" where
  "rangeDFSFromRoot h fn root st = rangeDFSLoop h fn [root] st"

primrec rangeDFSRoots :: "('k, 'v) theap \<Rightarrow> ptr list \<Rightarrow> ('k, 'v, 'st) visitor \<Rightarrow> 'st \<Rightarrow> 'st option" where
  "rangeDFSRoots h [] fn st = Some st"
| "rangeDFSRoots h (root # roots) fn st =
     (case rangeDFSFromRoot h fn root st of
        None \<Rightarrow> None | Some (st', go) \<Rightarrow> if go then rangeDFSRoots h roots fn st' else Some st')"

definition Tree_RangeDFS ::
    "('k, 'v) theap \<Rightarrow> 'k gtree option \<Rightarrow> ('k, 'v, 'st) visitor option \<Rightarrow> 'st \<Rightarrow> 'st option" where
  "Tree_RangeDFS h p fn st =
     (case (p, fn) of (Some t, Some f) \<Rightarrow> rangeDFSRoots h (Tree_Roots p) f st | _ \<Rightarrow> Some st)"

primrec Tree_Len :: "'k gtree option \<Rightarrow> nat" where
  "Tree_Len None = 0"
| "Tree_Len (Some t) = (if tr_nodes t = None then 0 else Map_Len (tr_nodes t))"

definition Tree_IsEmpty :: "'k gtree option \<Rightarrow> bool" where
  "Tree_IsEmpty p \<longleftrightarrow> Tree_Len p = 0"

subsection \<open>Mutation\<close>

definition Tree_ensureInit :: "'k gtree \<Rightarrow> 'k gtree" where
  "Tree_ensureInit t0 =
     (let t = (if tr_nodes t0 = None then t0\<lparr>tr_nodes := NewMap\<rparr> else t0)
      in if tr_roots t = None then t\<lparr>tr_roots := NewList []\<rparr> else t)"

type_synonym ('k, 'v) tstate = "('k, 'v) theap \<times> 'k gtree option"

definition Tree_AddRoot :: "('k, 'v) tstate \<Rightarrow> 'k \<Rightarrow> 'v \<Rightarrow> ('k, 'v) tstate \<times> tree_error option" where
  "Tree_AddRoot s key v =
     (case s of
        (h, None) \<Rightarrow> (s, Some ErrNodeNotFound)
      | (h, Some t0) \<Rightarrow>
          let t = Tree_ensureInit t0
          in if Tree_Has (Some t) key then ((h, Some t), Some ErrNodeAlreadyExists)
             else case newNode h key v of
                    (h1, n) \<Rightarrow> ((h1, Some (t\<lparr>tr_nodes := Map_Set (tr_nodes t) key n,
                                            tr_roots := List_Add (tr_roots t) [n]\<rparr>)), None))"

definition Tree_AddChild :: "('k, 'v) tstate \<Rightarrow> 'k \<Rightarrow> 'k \<Rightarrow> 'v \<Rightarrow> ('k, 'v) tstate \<times> tree_error option" where
  "Tree_AddChild s parentID key v =
     (case s of
        (h, None) \<Rightarrow> (s, Some ErrNodeNotFound)
      | (h, Some t0) \<Rightarrow>
          let t = Tree_ensureInit t0
          in if Tree_Has (Some t) key then ((h, Some t), Some ErrNodeAlreadyExists)
             else case Map_Get (tr_nodes t) parentID of
                    None \<Rightarrow> ((h, Some t), Some ErrParentNotFound)
                  | Some parent \<Rightarrow>
                      (case newNode h key v of
                         (h1, n) \<Rightarrow>
                           let h2 = set_parent n (Some parent) h1;
                               h3 = with_children (\<lambda>c. List_Add c [n]) parent h2
                           in ((h3, Some (t\<lparr>tr_nodes := Map_Set (tr_nodes t) key n\<rparr>)), None)))"

definition Tree_detach :: "('k, 'v) theap \<Rightarrow> 'k gtree \<Rightarrow> ptr \<Rightarrow> ('k, 'v) theap \<times> 'k gtree" where
  "Tree_detach h t n =
     (case nd_parent (h ! n) of
        Some parent \<Rightarrow>
          (set_parent n None (with_children (\<lambda>c. fst (List_RemoveIf c (Some (\<lambda>item. item = n)))) parent h), t)
      | None \<Rightarrow>
          (h, if tr_roots t = None then t
              else t\<lparr>tr_roots := fst (List_RemoveIf (tr_roots t) (Some (\<lambda>item. item = n)))\<rparr>))"

text \<open>The walk of \<open>Move\<close> from the new parent to its root: whether it meets the node.\<close>

partial_function (option) meetsNode :: "('k, 'v) theap \<Rightarrow> ptr \<Rightarrow> ptr option \<Rightarrow> bool option" where
  "meetsNode h n current =
     (case current of
        None \<Rightarrow> Some False
      | Some c \<Rightarrow> if c = n then Some True else meetsNode h n (nd_parent (h ! c)))"

definition Tree_Move :: "('k, 'v) tstate \<Rightarrow> 'k \<Rightarrow> 'k \<Rightarrow> (('k, 'v) tstate \<times> tree_error option) option" where
  "Tree_Move s key newParentID =
     (case s of
        (h, None) \<Rightarrow> Some (s, Some ErrNodeNotFound)
      | (h, Some t) \<Rightarrow>
          if tr_nodes t = None then Some (s, Some ErrNodeNotFound)
          else case Map_Get (tr_nodes t) key of
                 None \<Rightarrow> Some (s, Some ErrNodeNotFound)
               | Some n \<Rightarrow>
                   (case Map_Get (tr_nodes t) newParentID of
                      None \<Rightarrow> Some (s, Some ErrParentNotFound)
                    | Some newParent \<Rightarrow>
                        if n = newParent then Some (s, Some ErrCycleDetected)
                        else case meetsNode h n (Some newParent) of
                               None \<Rightarrow> None
                             | Some True \<Rightarrow> Some (s, Some ErrCycleDetected)
                             | Some False \<Rightarrow>
                                 (case Tree_detach h t n of
                                    (h1, t1) \<Rightarrow>
                                      Some ((with_children (\<lambda>c. List_Add c [n]) newParent
                                               (set_parent n (Some newParent) h1), Some t1), None))))"

partial_function (option) removeLoop ::
    "('k, 'v) theap \<Rightarrow> ('k, ptr) gmap option \<Rightarrow> (ptr \<times> bool) list
     \<Rightarrow> (('k, 'v) theap \<times> ('k, ptr) gmap option) option" where
  "removeLoop h nodes stack =
     (case stack of
        [] \<Rightarrow> Some (h, nodes)
      | (n, visited) # rest \<Rightarrow>
          if \<not> visited then
            removeLoop h nodes
              (foldl (\<lambda>st i. (child_at h n i, False) # st) ((n, True) # rest)
                 (rev [0 ..< List_Len (Some (nd_children (h ! n)))]))
          else removeLoop (with_children List_Clear n (set_parent n None h))
                 (fst (Map_Delete nodes (nd_id (h ! n)))) rest)"

definition Tree_removeSubtree ::
    "('k, 'v) theap \<Rightarrow> 'k gtree \<Rightarrow> ptr option \<Rightarrow> (('k, 'v) theap \<times> 'k gtree) option" where
  "Tree_removeSubtree h t node =
     (case node of
        None \<Rightarrow> Some (h, t)
      | Some n \<Rightarrow>
          (case removeLoop h (tr_nodes t) [(n, False)] of
             None \<Rightarrow> None | Some (h', nodes) \<Rightarrow> Some (h', t\<lparr>tr_nodes := nodes\<rparr>)))"

definition Tree_Remove :: "('k, 'v) tstate \<Rightarrow> 'k \<Rightarrow> (('k, 'v) tstate \<times> bool) option" where
  "Tree_Remove s key =
     (case s of
        (h, None) \<Rightarrow> Some (s, False)
      | (h, Some t) \<Rightarrow>
          if tr_nodes t = None then Some (s, False)
          else case Map_Get (tr_nodes t) key of
                 None \<Rightarrow> Some (s, False)
               | Some n \<Rightarrow>
                   (case Tree_detach h t n of
                      (h1, t1) \<Rightarrow>
                        (case Tree_removeSubtree h1 t1 (Some n) of
                           None \<Rightarrow> None | Some (h2, t2) \<Rightarrow> Some ((h2, Some t2), True))))"

definition Tree_SetValue :: "('k, 'v) tstate \<Rightarrow> 'k \<Rightarrow> 'v \<Rightarrow> ('k, 'v) tstate \<times> bool" where
  "Tree_SetValue s key v =
     (case s of
        (h, p) \<Rightarrow> (case Tree_Get p key of
                     None \<Rightarrow> (s, False)
                   | Some n \<Rightarrow> ((h[n := (h ! n)\<lparr>nd_value := v\<rparr>], p), True)))"

definition Tree_Clear :: "('k, 'v) tstate \<Rightarrow> ('k, 'v) tstate" where
  "Tree_Clear s =
     (case s of
        (h, None) \<Rightarrow> s
      | (h, Some t) \<Rightarrow>
          (h, Some (t\<lparr>tr_nodes := (if tr_nodes t = None then None else Map_Clear (tr_nodes t)),
                       tr_roots := (if tr_roots t = None then None else List_Clear (tr_roots t))\<rparr>)))"

subsection \<open>Clones\<close>

text \<open>One step of the clone loops: a copy of the node \<open>child\<close> below the node \<open>target\<close>.\<close>

definition cloneChild :: "('k, 'v) theap \<Rightarrow> ptr \<Rightarrow> ptr \<Rightarrow> ('k, 'v) theap \<times> ptr" where
  "cloneChild h target child =
     (case newNode h (nd_id (h ! child)) (nd_value (h ! child)) of
        (h1, c) \<Rightarrow> (with_children (\<lambda>l. List_Add l [c]) target (set_parent c (Some target) h1), c))"

primrec cloneChildren ::
    "ptr \<Rightarrow> ptr list \<Rightarrow> ('k, 'v) theap \<Rightarrow> ('k, ptr) gmap option \<Rightarrow> (ptr \<times> ptr) list
     \<Rightarrow> ('k, 'v) theap \<times> ('k, ptr) gmap option \<times> (ptr \<times> ptr) list" where
  "cloneChildren target [] h nodes stack = (h, nodes, stack)"
| "cloneChildren target (child # children) h nodes stack =
     (case cloneChild h target child of
        (h1, c) \<Rightarrow> cloneChildren target children h1 (Map_Set nodes (nd_id (h1 ! c)) c) ((child, c) # stack))"

partial_function (option) cloneLoop ::
    "('k, 'v) theap \<Rightarrow> ('k, ptr) gmap option \<Rightarrow> (ptr \<times> ptr) list
     \<Rightarrow> (('k, 'v) theap \<times> ('k, ptr) gmap option) option" where
  "cloneLoop h nodes stack =
     (case stack of
        [] \<Rightarrow> Some (h, nodes)
      | (source, target) # rest \<Rightarrow>
          (case cloneChildren target
                  (map (child_at h source) [0 ..< List_Len (Some (nd_children (h ! source)))]) h nodes rest of
             (h', nodes', stack') \<Rightarrow> cloneLoop h' nodes' stack'))"

primrec cloneRoots ::
    "ptr list \<Rightarrow> ('k, 'v) theap \<Rightarrow> 'k gtree \<Rightarrow> (ptr \<times> ptr) list
     \<Rightarrow> ('k, 'v) theap \<times> 'k gtree \<times> (ptr \<times> ptr) list" where
  "cloneRoots [] h cloned stack = (h, cloned, stack)"
| "cloneRoots (root # roots) h cloned stack =
     (case newNode h (nd_id (h ! root)) (nd_value (h ! root)) of
        (h1, c) \<Rightarrow>
          cloneRoots roots h1
            (cloned\<lparr>tr_roots := List_Add (tr_roots cloned) [c], tr_nodes := Map_Set (tr_nodes cloned) (nd_id (h1 ! c)) c\<rparr>)
            ((root, c) # stack))"

definition Tree_Clone :: "('k, 'v) theap \<Rightarrow> 'k gtree option \<Rightarrow> ('k, 'v) tstate option" where
  "Tree_Clone h p =
     (case p of
        None \<Rightarrow> Some (h, NewTree)
      | Some t \<Rightarrow>
          if tr_nodes t = None \<or> Map_IsEmpty (tr_nodes t) then Some (h, NewTree)
          else let rootCount = (if tr_roots t = None then 0 else List_Len (tr_roots t));
                   roots = map (\<lambda>i. case List_Get (tr_roots t) (int i) of Some r \<Rightarrow> r | None \<Rightarrow> 0) [0 ..< rootCount]
               in case newTreeWithCapacity (int (Map_Len (tr_nodes t))) (int rootCount) of
                    None \<Rightarrow> None
                  | Some cloned \<Rightarrow>
                      (case cloneRoots roots h cloned [] of
                         (h1, cloned1, stack) \<Rightarrow>
                           (case cloneLoop h1 (tr_nodes cloned1) stack of
                              None \<Rightarrow> None
                            | Some (h2, nodes) \<Rightarrow> Some (h2, Some (cloned1\<lparr>tr_nodes := nodes\<rparr>)))))"

text \<open>The copy of a subtree that the concurrent tree hands out: its loop goes through the children
  from the last to the first.\<close>

primrec detachedChildren ::
    "ptr \<Rightarrow> ptr list \<Rightarrow> ('k, 'v) theap \<Rightarrow> (ptr \<times> ptr) list \<Rightarrow> ('k, 'v) theap \<times> (ptr \<times> ptr) list" where
  "detachedChildren target [] h stack = (h, stack)"
| "detachedChildren target (child # children) h stack =
     (case cloneChild h target child of (h1, c) \<Rightarrow> detachedChildren target children h1 ((child, c) # stack))"

partial_function (option) detachedLoop ::
    "ptr \<Rightarrow> bool \<Rightarrow> ('k, 'v) theap \<Rightarrow> (ptr \<times> ptr) list \<Rightarrow> ptr list \<Rightarrow> (('k, 'v) theap \<times> ptr list) option" where
  "detachedLoop root collect h stack descendants =
     (case stack of
        [] \<Rightarrow> Some (h, descendants)
      | (source, target) # rest \<Rightarrow>
          (case detachedChildren target
                  (map (child_at h source) (rev [0 ..< List_Len (Some (nd_children (h ! source)))])) h rest of
             (h', stack') \<Rightarrow>
               detachedLoop root collect h' stack'
                 (if collect \<and> source \<noteq> root then descendants @ [target] else descendants)))"

definition cloneSubtreeDetachedWithDescendants ::
    "('k, 'v) theap \<Rightarrow> ptr option \<Rightarrow> bool \<Rightarrow> (('k, 'v) theap \<times> ptr option \<times> ptr list) option" where
  "cloneSubtreeDetachedWithDescendants h root collect =
     (case root of
        None \<Rightarrow> Some (h, None, [])
      | Some r \<Rightarrow>
          (case newNode h (nd_id (h ! r)) (nd_value (h ! r)) of
             (h1, rootClone) \<Rightarrow>
               (case detachedLoop r collect h1 [(r, rootClone)] [] of
                  None \<Rightarrow> None | Some (h2, descendants) \<Rightarrow> Some (h2, Some rootClone, descendants))))"

definition cloneSubtreeDetached :: "('k, 'v) theap \<Rightarrow> ptr option \<Rightarrow> (('k, 'v) theap \<times> ptr option) option" where
  "cloneSubtreeDetached h root =
     map_option (\<lambda>(h', rootClone, _). (h', rootClone)) (cloneSubtreeDetachedWithDescendants h root False)"

subsection \<open>JSON\<close>

text \<open>The recursion of \<open>toJSONNode\<close> follows the heap, so it has fuel; \<open>None\<close> is running out of it.\<close>

primrec toJSONNode :: "nat \<Rightarrow> ('k, 'v) theap \<Rightarrow> ptr \<Rightarrow> ('k, 'v) jsonNode option" where
  "toJSONNode 0 h n = None"
| "toJSONNode (Suc fuel) h n =
     (if List_Len (Some (nd_children (h ! n))) = 0 then Some (Rose (nd_id (h ! n), nd_value (h ! n)) [])
      else map_option (Rose (nd_id (h ! n), nd_value (h ! n)))
             (those (map (\<lambda>i. toJSONNode fuel h (child_at h n i)) [0 ..< List_Len (Some (nd_children (h ! n)))])))"

definition Tree_toJSONNodes :: "nat \<Rightarrow> ('k, 'v) theap \<Rightarrow> 'k gtree option \<Rightarrow> ('k, 'v) jsonNode slice option" where
  "Tree_toJSONNodes fuel h p =
     (case p of
        None \<Rightarrow> Some None
      | Some t \<Rightarrow>
          if Tree_IsEmpty p then Some None
          else map_option Some
                 (those (map (\<lambda>i. case List_Get (tr_roots t) (int i) of None \<Rightarrow> None | Some r \<Rightarrow> toJSONNode fuel h r)
                           [0 ..< List_Len (tr_roots t)])))"

definition marshalTreeJSON :: "'x json_marshal \<Rightarrow> string \<Rightarrow> 'x \<Rightarrow> string + bytes" where
  "marshalTreeJSON marshal kind v =
     (case marshal v of
        Inl err \<Rightarrow> Inl (''marshal '' @ kind @ '' JSON: marshal json value: '' @ err) | Inr d \<Rightarrow> Inr d)"

definition forwardTreeJSON :: "string + bytes \<Rightarrow> string \<Rightarrow> (unit \<Rightarrow> string + bytes) \<Rightarrow> string + bytes" where
  "forwardTreeJSON marshal_nil kind fn =
     (case ForwardToJSON marshal_nil (Some fn) of
        Inl err \<Rightarrow> Inl (''marshal '' @ kind @ '' JSON: '' @ err) | Inr d \<Rightarrow> Inr d)"

definition Tree_ToJSON ::
    "('k, 'v) jsonNode slice json_marshal \<Rightarrow> nat \<Rightarrow> ('k, 'v) theap \<Rightarrow> 'k gtree option \<Rightarrow> (string + bytes) option" where
  "Tree_ToJSON marshal fuel h p = map_option (marshalTreeJSON marshal ''tree'') (Tree_toJSONNodes fuel h p)"

definition Tree_MarshalJSON ::
    "string + bytes \<Rightarrow> ('k, 'v) jsonNode slice json_marshal \<Rightarrow> nat \<Rightarrow> ('k, 'v) theap \<Rightarrow> 'k gtree option
     \<Rightarrow> (string + bytes) option" where
  "Tree_MarshalJSON n marshal fuel h p =
     map_option (\<lambda>r. forwardTreeJSON n ''tree'' (\<lambda>_. r)) (Tree_ToJSON marshal fuel h p)"

definition Tree_String ::
    "('k, 'v) jsonNode slice json_marshal \<Rightarrow> nat \<Rightarrow> ('k, 'v) theap \<Rightarrow> 'k gtree option \<Rightarrow> string option" where
  "Tree_String marshal fuel h p =
     map_option (\<lambda>r. StringFromToJSON (Some (\<lambda>_. r)) ''[]'') (Tree_ToJSON marshal fuel h p)"

end
