(* ===== verification/Tree_Forest.thy ===== *)
theory Tree_Forest
  imports Tree_Node
begin

text \<open>
  What the operations of \<^verbatim>\<open>Tree_Node\<close> do. The abstract value of a tree is a forest of ordered rose
  trees labelled with ids and values; a forest of pointers of the same form says where its nodes
  are. A heap agrees with a pointer forest when every node of it has the parent and the children the
  forest gives it. Shown: over any history of calls on a zero tree every call returns, and answers
  as the forest does, with the structure intact (\<open>Move\<close> never makes a cycle, \<open>Remove\<close> takes exactly
  the subtree).
\<close>

subsection \<open>Forests\<close>

text \<open>Depth first, parents before children.\<close>

fun preorder :: "'a forest \<Rightarrow> 'a list" where
  "preorder [] = []"
| "preorder (Rose a ts # us) = a # preorder ts @ preorder us"

text \<open>Every subtree, with the labels above it from the nearest to the root.\<close>

fun places :: "'a list \<Rightarrow> 'a forest \<Rightarrow> ('a list \<times> 'a rose) list" where
  "places anc [] = []"
| "places anc (Rose a ts # us) = (anc, Rose a ts) # places (a # anc) ts @ places anc us"

fun prune :: "('a \<Rightarrow> bool) \<Rightarrow> 'a forest \<Rightarrow> 'a forest" where
  "prune P [] = []"
| "prune P (Rose a ts # us) = (if P a then prune P us else Rose a (prune P ts) # prune P us)"

fun graft :: "('a \<Rightarrow> bool) \<Rightarrow> 'a rose \<Rightarrow> 'a forest \<Rightarrow> 'a forest" where
  "graft P t [] = []"
| "graft P t (Rose a ts # us) = Rose a (graft P t ts @ (if P a then [t] else [])) # graft P t us"

abbreviation relabel :: "('a \<Rightarrow> 'b) \<Rightarrow> 'a forest \<Rightarrow> 'b forest" where
  "relabel f \<equiv> map (map_rose f)"

lemma forest_induct [case_names Nil Rose]:
  assumes "P []" and "\<And>a ts us. P ts \<Longrightarrow> P us \<Longrightarrow> P (Rose a ts # us)"
  shows "P F"
  using assms by (induction F rule: preorder.induct) simp_all

lemma forest_append [simp]:
  "preorder (F @ G) = preorder F @ preorder G"
  "places anc (F @ G) = places anc F @ places anc G"
  "prune P (F @ G) = prune P F @ prune P G"
  "graft P t (F @ G) = graft P t F @ graft P t G"
  by (induction F rule: forest_induct) simp_all

lemma preorder_relabel [simp]: "preorder (relabel f F) = map f (preorder F)"
  by (induction F rule: forest_induct) simp_all

lemma places_relabel:
  "places (map f anc) (relabel f F) = map (\<lambda>(p, t). (map f p, map_rose f t)) (places anc F)"
proof (induction F arbitrary: anc rule: forest_induct)
  case (Rose a ts us)
  from Rose(1) [of "a # anc"] Rose(2) show ?case by simp
qed simp

lemma map_label_relabel [simp]: "map label (relabel f F) = map f (map label F)"
  by (simp add: rose.map_sel)

lemma relabel_cong: "(\<And>a. a \<in> set (preorder F) \<Longrightarrow> f a = g a) \<Longrightarrow> relabel f F = relabel g F"
  by (induction F rule: forest_induct) simp_all

lemma prune_relabel:
  "(\<And>a. a \<in> set (preorder F) \<Longrightarrow> Q (f a) = P a) \<Longrightarrow> relabel f (prune P F) = prune Q (relabel f F)"
  by (induction F rule: forest_induct) simp_all

lemma graft_relabel:
  "(\<And>a. a \<in> set (preorder F) \<Longrightarrow> Q (f a) = P a) \<Longrightarrow>
   relabel f (graft P t F) = graft Q (map_rose f t) (relabel f F)"
  by (induction F rule: forest_induct) simp_all

lemma map_label_prune [simp]: "map label (prune P F) = filter (\<lambda>a. \<not> P a) (map label F)"
  by (induction F rule: forest_induct) simp_all

lemma map_label_graft [simp]: "map label (graft P t F) = map label F"
  by (induction F rule: forest_induct) simp_all

lemma preorder_prune_subset: "set (preorder (prune P F)) \<subseteq> set (preorder F)"
  by (induction F rule: forest_induct) auto

lemma prune_drops: "a \<in> set (preorder (prune P F)) \<Longrightarrow> \<not> P a"
  by (induction F rule: forest_induct) (auto split: if_splits)

lemma prune_idle: "(\<And>a. a \<in> set (preorder F) \<Longrightarrow> \<not> P a) \<Longrightarrow> prune P F = F"
  by (induction F rule: forest_induct) simp_all

lemma graft_idle: "(\<And>a. a \<in> set (preorder F) \<Longrightarrow> \<not> P a) \<Longrightarrow> graft P t F = F"
  by (induction F rule: forest_induct) simp_all

lemma labels_subset: "set (map label F) \<subseteq> set (preorder F)"
  by (induction F rule: forest_induct) auto

lemma places_preorder: "map (label \<circ> snd) (places anc F) = preorder F"
  by (induction F arbitrary: anc rule: forest_induct) simp_all

lemma places_inside: "(p, t) \<in> set (places anc F) \<Longrightarrow> set (preorder [t]) \<subseteq> set (preorder F)"
  by (induction F arbitrary: anc rule: forest_induct) fastforce+

lemma place_label: "(p, t) \<in> set (places anc F) \<Longrightarrow> label t \<in> set (preorder F)"
  using places_inside [of p t anc F] by (cases t) auto

lemma place_ancestors: "(p, t) \<in> set (places anc F) \<Longrightarrow> set p \<subseteq> set anc \<union> set (preorder F)"
  by (induction F arbitrary: anc rule: forest_induct) fastforce+

lemma place_of:
  assumes "a \<in> set (preorder F)"
  obtains p ts where "(p, Rose a ts) \<in> set (places anc F)"
proof -
  obtain p t where "(p, t) \<in> set (places anc F)" "label t = a"
    using assms by (auto simp flip: places_preorder [of anc])
  then show ?thesis using that by (cases t) auto
qed

lemma place_unique:
  assumes "distinct (preorder F)" "(p, t) \<in> set (places anc F)" "(q, u) \<in> set (places anc F)" "label t = label u"
  shows "p = q \<and> t = u"
proof -
  have "inj_on (label \<circ> snd) (set (places anc F))"
    using assms(1) unfolding places_preorder [of anc, symmetric] by (simp add: distinct_map)
  from inj_onD [OF this _ assms(2,3)] assms(4) show ?thesis by simp
qed

text \<open>A subtree and what is left when it is pruned share out the labels.\<close>

lemma prune_split:
  assumes "(p, Rose n ts) \<in> set (places anc F)" and "distinct (preorder F)"
  shows "mset (preorder F) = mset (preorder [Rose n ts]) + mset (preorder (prune (\<lambda>a. a = n) F))"
  using assms
proof (induction F arbitrary: anc rule: forest_induct)
  case (Rose a us vs)
  have out: "prune (\<lambda>a. a = n) G = G" if "n \<notin> set (preorder G)" for G using that by (intro prune_idle) auto
  have "n \<in> set (preorder G)" if "(p, Rose n ts) \<in> set (places anc' G)" for anc' G
    using places_inside [OF that] by auto
  with Rose.prems consider "a = n" "us = ts" "n \<notin> set (preorder vs)"
    | "a \<noteq> n" "(p, Rose n ts) \<in> set (places (a # anc) us)" "n \<notin> set (preorder vs)"
    | "a \<noteq> n" "(p, Rose n ts) \<in> set (places anc vs)" "n \<notin> set (preorder us)" by auto
  then show ?case
    by cases (use Rose.IH Rose.prems out in \<open>simp_all add: ac_simps\<close>)
qed simp

lemma prune_parts:
  assumes "(p, Rose n ts) \<in> set (places anc F)" and "distinct (preorder F)"
  shows "distinct (preorder [Rose n ts])" and "distinct (preorder (prune (\<lambda>a. a = n) F))"
    and "set (preorder [Rose n ts]) \<inter> set (preorder (prune (\<lambda>a. a = n) F)) = {}"
    and "set (preorder F) = set (preorder [Rose n ts]) \<union> set (preorder (prune (\<lambda>a. a = n) F))"
proof -
  have m: "mset (preorder F) = mset (preorder [Rose n ts] @ preorder (prune (\<lambda>a. a = n) F))"
    using prune_split [OF assms] by simp
  then have "distinct (preorder [Rose n ts] @ preorder (prune (\<lambda>a. a = n) F))"
    using mset_eq_imp_distinct_iff [OF m] assms(2) by blast
  then show "distinct (preorder [Rose n ts])" and "distinct (preorder (prune (\<lambda>a. a = n) F))"
    and "set (preorder [Rose n ts]) \<inter> set (preorder (prune (\<lambda>a. a = n) F)) = {}" by simp_all
  show "set (preorder F) = set (preorder [Rose n ts]) \<union> set (preorder (prune (\<lambda>a. a = n) F))"
    using mset_eq_setD [OF m] by simp
qed

lemma prune_keeps:
  assumes "(p, t) \<in> set (places anc F)" and "n \<noteq> label t" and "n \<notin> set p"
  shows "label t \<in> set (preorder (prune (\<lambda>a. a = n) F))"
  using assms
proof (induction F arbitrary: anc rule: forest_induct)
  case (Rose a us vs)
  have "set xs \<subseteq> set q" if "(q, u) \<in> set (places xs G)" for q u G xs
    using that by (induction G arbitrary: xs rule: forest_induct) fastforce+
  then have "a \<in> set q" if "(q, u) \<in> set (places (a # anc) G)" for q u G using that by fastforce
  then show ?case using Rose by fastforce
qed simp

subsection \<open>Heaps and forests\<close>

abbreviation kids :: "('k, 'v) theap \<Rightarrow> ptr \<Rightarrow> ptr list" where
  "kids h a \<equiv> sl (li_items (nd_children (h ! a)))"

text \<open>What a pointer shows of its node.\<close>

definition view :: "('k, 'v) theap \<Rightarrow> ptr \<Rightarrow> 'k \<times> 'v" where
  "view h a = (nd_id (h ! a), nd_value (h ! a))"

fun agrees :: "('k, 'v) theap \<Rightarrow> ptr option \<Rightarrow> ptr forest \<Rightarrow> bool" where
  "agrees h par [] \<longleftrightarrow> True"
| "agrees h par (Rose a ts # us) \<longleftrightarrow>
     nd_parent (h ! a) = par \<and> kids h a = map label ts \<and> agrees h (Some a) ts \<and> agrees h par us"

lemma agrees_append [simp]: "agrees h par (F @ G) \<longleftrightarrow> agrees h par F \<and> agrees h par G"
  by (induction F rule: forest_induct) auto

lemma agrees_cong:
  assumes "agrees h par F"
    and "\<And>a. a \<in> set (preorder F) \<Longrightarrow> nd_parent (h' ! a) = nd_parent (h ! a) \<and> kids h' a = kids h a"
  shows "agrees h' par F"
  using assms by (induction F arbitrary: par rule: forest_induct) auto

lemma agrees_root: "agrees h par F \<Longrightarrow> a \<in> set (map label F) \<Longrightarrow> nd_parent (h ! a) = par"
  by (induction F rule: forest_induct) auto

lemma agrees_kid:
  assumes "agrees h par F" "a \<in> set (preorder F)" "c \<in> set (kids h a)"
  shows "c \<in> set (preorder F) \<and> nd_parent (h ! c) = Some a"
  using assms
proof (induction F arbitrary: par rule: forest_induct)
  case (Rose b ts us)
  then consider "a = b" | "a \<in> set (preorder ts)" | "a \<in> set (preorder us)" by auto
  then show ?case
  proof cases
    case 1
    then have "c \<in> set (map label ts)" using Rose.prems by simp
    then show ?thesis using agrees_root [of h "Some a" ts c] labels_subset [of ts] Rose.prems 1 by auto
  qed (use Rose in auto)
qed simp

definition first :: "'a list \<Rightarrow> 'a option" where
  "first xs = (case xs of [] \<Rightarrow> None | x # _ \<Rightarrow> Some x)"

lemma first_simps [simp]: "first [] = None" "first (x # xs) = Some x"
  by (simp_all add: first_def)

lemma agrees_place:
  assumes "agrees h (first anc) F" "(p, Rose a ts) \<in> set (places anc F)"
  shows "nd_parent (h ! a) = first p \<and> kids h a = map label ts \<and> agrees h (Some a) ts"
  using assms
proof (induction F arbitrary: anc rule: forest_induct)
  case (Rose b us vs)
  then show ?case using Rose.IH(1) [of "b # anc"] by fastforce
qed simp

lemma place_above:
  assumes "(b # p, t) \<in> set (places anc F)"
  shows "b # p = anc \<or> (\<exists>us. (p, Rose b us) \<in> set (places anc F))"
  using assms
proof (induction F arbitrary: anc rule: forest_induct)
  case (Rose a us vs)
  from Rose.prems consider "b # p = anc" | "(b # p, t) \<in> set (places (a # anc) us)" | "(b # p, t) \<in> set (places anc vs)" by auto
  then show ?case
  proof cases
    case 2
    from Rose.IH(1) [OF this] show ?thesis by auto
  qed (use Rose.IH(2) in auto)
qed simp

lemma places_distinct:
  assumes "(p, t) \<in> set (places anc F)" and "distinct (anc @ preorder F)"
  shows "distinct (label t # p)"
  using assms
proof (induction F arbitrary: anc rule: forest_induct)
  case (Rose a us vs)
  then show ?case using Rose.IH(1) [of "a # anc"] by fastforce
qed simp

lemma places_length: "(p, t) \<in> set (places anc F) \<Longrightarrow> length anc \<le> length p"
  by (induction F arbitrary: anc rule: forest_induct) fastforce+

lemma places_root: "([], t) \<in> set (places anc F) \<Longrightarrow> t \<in> set F"
proof (induction F arbitrary: anc rule: forest_induct)
  case (Rose a us vs)
  then show ?case using places_length [of "[]" t "a # anc" us] by auto
qed simp

lemma places_child:
  "(b # q, t) \<in> set (places anc F) \<Longrightarrow> b # q = anc \<and> t \<in> set F \<or> (\<exists>us. (q, Rose b us) \<in> set (places anc F) \<and> t \<in> set us)"
proof (induction F arbitrary: anc rule: forest_induct)
  case (Rose a us vs)
  then consider "b # q = anc" "t = Rose a us" | "(b # q, t) \<in> set (places (a # anc) us)" | "(b # q, t) \<in> set (places anc vs)" by auto
  then show ?case
  proof cases
    case 2
    from Rose.IH(1) [OF this] show ?thesis by auto
  next
    case 3
    from Rose.IH(2) [OF this] show ?thesis by auto
  qed auto
qed simp

lemma labels_distinct: "distinct (preorder F) \<Longrightarrow> distinct (map label F)"
proof (induction F rule: forest_induct)
  case (Rose a us vs)
  then show ?case using labels_subset [of vs] by auto
qed simp

lemma count_list_distinct: "distinct xs \<Longrightarrow> count_list xs x = (if x \<in> set xs then 1 else 0)"
  by (induction xs) auto

text \<open>A new subtree below one node, and a pruned one.\<close>

lemma graft_agrees:
  assumes "agrees h par F" and "distinct (preorder F)" and "agrees h' (Some q) [t]"
    and "\<And>a. a \<in> set (preorder F) \<Longrightarrow> nd_parent (h' ! a) = nd_parent (h ! a)
           \<and> kids h' a = (if a = q then kids h a @ [label t] else kids h a)"
  shows "agrees h' par (graft (\<lambda>a. a = q) t F)"
  using assms
proof (induction F arbitrary: par rule: forest_induct)
  case (Rose a us vs)
  have "graft (\<lambda>a. a = q) t us = us" if "a = q" using that Rose.prems(2) by (intro graft_idle) auto
  then show ?case using Rose by auto
qed simp

lemma prune_agrees:
  assumes "agrees h par F"
    and "\<And>a. a \<in> set (preorder (prune (\<lambda>a. a = n) F)) \<Longrightarrow> nd_parent (h' ! a) = nd_parent (h ! a)
           \<and> kids h' a = filter (\<lambda>c. c \<noteq> n) (kids h a)"
  shows "agrees h' par (prune (\<lambda>a. a = n) F)"
  using assms by (induction F arbitrary: par rule: forest_induct) (auto split: if_splits)

subsection \<open>The effect of the writes\<close>

lemma List_RemoveIf_items:
  "\<exists>l' k. List_RemoveIf (Some l) (Some P) = (Some l', k) \<and> sl (li_items l') = filter (\<lambda>x. \<not> P x) (sl (li_items l))"
proof (cases "sl (li_items l) = []")
  case False
  obtain ys w where r: "removeIfLoop P [0 ..< length (sl (li_items l))] (sl (li_items l)) 0 = (ys, w)" by fastforce
  note f = removeIfLoop_filter [OF r]
  show ?thesis
  proof (cases "length ys - w = 0")
    case True
    then have "w = length ys" using f(1,2) length_filter_le [of "\<lambda>x. \<not> P x" "sl (li_items l)"] by simp
    then have "ys = filter (\<lambda>x. \<not> P x) (sl (li_items l))" using f(3) by simp
    then show ?thesis using False True r by simp
  next
    case ne: False
    then have "\<not> length ys \<le> w" by simp
    with r False f(3) show ?thesis by (simp add: take_zero_loop Let_def List_invalidateSerializationCache_def)
  qed
qed simp

lemma nth_update: "xs[n := x] ! a = (if a = n \<and> n < length xs then x else xs ! a)"
  by (cases "n < length xs") (simp_all add: nth_list_update list_update_beyond)

lemma with_children_nth:
  "with_children f n h ! a = (case f (Some (nd_children (h ! n))) of
     Some c \<Rightarrow> if a = n \<and> n < length h then (h ! a)\<lparr>nd_children := c\<rparr> else h ! a | None \<Rightarrow> h ! a)"
  by (simp add: with_children_def nth_update split: option.split)

lemma with_children_keeps [simp]:
  "length (with_children f n h) = length h"
  "nd_parent (with_children f n h ! a) = nd_parent (h ! a)"
  "nd_id (with_children f n h ! a) = nd_id (h ! a)"
  "nd_value (with_children f n h ! a) = nd_value (h ! a)"
proof -
  show "length (with_children f n h) = length h" by (simp add: with_children_def split: option.split)
qed (simp_all add: with_children_nth split: option.split)

lemma kids_with_children [simp]:
  "kids (with_children (\<lambda>c. List_Add c [m]) q h) a = (if a = q \<and> q < length h then kids h a @ [m] else kids h a)"
  "kids (with_children List_Clear q h) a = (if a = q \<and> q < length h then [] else kids h a)"
  "kids (with_children (\<lambda>c. fst (List_RemoveIf c (Some P))) q h) a
     = (if a = q \<and> q < length h then filter (\<lambda>x. \<not> P x) (kids h a) else kids h a)"
proof -
  show "kids (with_children (\<lambda>c. fst (List_RemoveIf c (Some P))) q h) a
     = (if a = q \<and> q < length h then filter (\<lambda>x. \<not> P x) (kids h a) else kids h a)"
    using List_RemoveIf_items [of "nd_children (h ! q)" P]
    by (auto simp: with_children_nth simp del: List_RemoveIf.simps)
qed (simp_all add: with_children_nth List_invalidateSerializationCache_def)

lemma set_parent_keeps [simp]:
  "length (set_parent n p h) = length h"
  "nd_parent (set_parent n p h ! a) = (if a = n \<and> n < length h then p else nd_parent (h ! a))"
  "nd_children (set_parent n p h ! a) = nd_children (h ! a)"
  "nd_id (set_parent n p h ! a) = nd_id (h ! a)"
  "nd_value (set_parent n p h ! a) = nd_value (h ! a)"
  by (simp_all add: set_parent_def nth_update)

lemma push_rev: "foldl (\<lambda>st i. f i # st) st (rev [0 ..< n]) = map f [0 ..< n] @ st"
  by (induction n arbitrary: st) simp_all

lemma child_at_kids: "map (child_at h a) [0 ..< List_Len (Some (nd_children (h ! a)))] = kids h a"
  by (rule nth_equalityI) (auto simp: child_at_def)

lemma appendChildrenReverse_kids [simp]: "appendChildrenReverse h st a = kids h a @ st"
  unfolding appendChildrenReverse_def push_rev child_at_kids ..

subsection \<open>The loops return\<close>

text \<open>Up the parents of a node of the forest.\<close>

lemma parents_of_place:
  assumes "agrees h None F" and "(p, t) \<in> set (places [] F)"
  shows "parentDepth h (first p) d = Some (d + length p)"
    and "parentChain h (first p) xs = Some (xs @ p)"
    and "meetsNode h n (first p) = Some (n \<in> set p)"
proof -
  have "parentDepth h (first p) d = Some (d + length p) \<and> parentChain h (first p) xs = Some (xs @ p)
      \<and> meetsNode h n (first p) = Some (n \<in> set p)"
    using assms(2)
  proof (induction p arbitrary: t d xs)
    case (Cons b p)
    from Cons.prems place_above obtain us where b: "(p, Rose b us) \<in> set (places [] F)" by fastforce
    have "nd_parent (h ! b) = first p" using agrees_place [of h "[]" F, OF _ b] assms(1) by simp
    then show ?case
      using Cons.IH [OF b]
      by (simp add: parentDepth.simps [of h "Some b"] parentChain.simps [of h "Some b"] meetsNode.simps [of h n "Some b"])
  qed (simp add: parentDepth.simps parentChain.simps meetsNode.simps)
  then show "parentDepth h (first p) d = Some (d + length p)"
    and "parentChain h (first p) xs = Some (xs @ p)"
    and "meetsNode h n (first p) = Some (n \<in> set p)" by simp_all
qed

text \<open>Down the children with a stack.\<close>

lemma descendantsLoop_forest:
  "agrees h par F \<Longrightarrow> descendantsLoop h (map label F @ rest) xs = descendantsLoop h rest (xs @ preorder F)"
proof (induction F arbitrary: par rest xs rule: forest_induct)
  case (Rose a ts us)
  then show ?case using Rose.IH(1) [of "Some a"] Rose.IH(2) [of par] by (simp add: descendantsLoop.simps [of h "a # _"])
qed simp

fun walk_until :: "('st \<Rightarrow> 'a \<Rightarrow> 'st \<times> bool) \<Rightarrow> 'st \<Rightarrow> 'a list \<Rightarrow> 'st \<times> bool" where
  "walk_until fn st [] = (st, True)"
| "walk_until fn st (x # xs) = (case fn st x of (st', go) \<Rightarrow> if go then walk_until fn st' xs else (st', False))"

lemma walk_until_range: "fst (walk_until fn st xs) = range_until fn st xs"
  by (induction fn st xs rule: walk_until.induct) (auto split: prod.split)

lemma walk_until_append:
  "walk_until fn st (xs @ ys) = (case walk_until fn st xs of (st', go) \<Rightarrow> if go then walk_until fn st' ys else (st', False))"
  by (induction fn st xs rule: walk_until.induct) (auto split: prod.split)

lemma rangeDFSLoop_forest:
  "agrees h par F \<Longrightarrow> rangeDFSLoop h fn (map label F @ rest) st =
     (case walk_until (\<lambda>st a. fn st (h ! a)) st (preorder F) of
        (st', go) \<Rightarrow> if go then rangeDFSLoop h fn rest st' else Some (st', False))"
proof (induction F arbitrary: par rest st rule: forest_induct)
  case (Rose a ts us)
  then show ?case
    using Rose.IH(1) [of "Some a"] Rose.IH(2) [of par]
    by (auto simp: rangeDFSLoop.simps [of h fn "a # _"] walk_until_append split: prod.split)
qed simp

lemma rangeDFSRoots_forest:
  "agrees h par F \<Longrightarrow> rangeDFSRoots h (map label F) fn st
     = Some (range_until (\<lambda>st a. fn st (h ! a)) st (preorder F))"
proof (induction F arbitrary: st rule: forest_induct)
  case (Rose a ts us)
  have "rangeDFSFromRoot h fn a st = Some (walk_until (\<lambda>st a. fn st (h ! a)) st (preorder [Rose a ts]))"
    using rangeDFSLoop_forest [of h par "[Rose a ts]" fn "[]" st] Rose.prems
    by (auto simp: rangeDFSFromRoot_def rangeDFSLoop.simps [of h fn "[]"] split: prod.split)
  then show ?case using Rose.IH(2) Rose.prems
    by (auto simp: walk_until_append simp flip: walk_until_range split: prod.split)
qed simp

text \<open>The removal loop clears the nodes of a subtree from the leaves up.\<close>

fun postorder :: "'a forest \<Rightarrow> 'a list" where
  "postorder [] = []"
| "postorder (Rose a ts # us) = postorder ts @ a # postorder us"

lemma set_postorder [simp]: "set (postorder F) = set (preorder F)"
  by (induction F rule: forest_induct) auto

definition wipe :: "ptr \<Rightarrow> ('k, 'v) theap \<Rightarrow> ('k, 'v) theap" where
  "wipe n h = with_children List_Clear n (set_parent n None h)"

definition forget :: "('k, 'v) theap \<Rightarrow> ptr \<Rightarrow> ('k, ptr) gmap option \<Rightarrow> ('k, ptr) gmap option" where
  "forget h n m = fst (Map_Delete m (nd_id (h ! n)))"

lemma wipe_keeps [simp]:
  "length (fold wipe xs h) = length h"
  "nd_id (fold wipe xs h ! a) = nd_id (h ! a)"
  "nd_value (fold wipe xs h ! a) = nd_value (h ! a)"
  "a \<notin> set xs \<Longrightarrow> fold wipe xs h ! a = h ! a"
  by (induction xs arbitrary: h) (simp_all add: wipe_def, simp add: with_children_def set_parent_def)

lemma removeLoop_forest:
  assumes "agrees h par F" and "distinct (preorder F)"
  shows "removeLoop h m (map (\<lambda>t. (label t, False)) F @ rest)
    = removeLoop (fold wipe (postorder F) h) (fold (forget h) (postorder F) m) rest"
  using assms
proof (induction F arbitrary: h par m rest rule: forest_induct)
  case (Rose a ts us)
  let ?h1 = "fold wipe (postorder ts) h" and ?m1 = "fold (forget h) (postorder ts) m"
  let ?h2 = "wipe a ?h1" and ?rest = "map (\<lambda>t. (label t, False)) us @ rest"
  have push: "foldl (\<lambda>st i. (child_at h a i, False) # st) st (rev [0 ..< List_Len (Some (nd_children (h ! a)))])
      = map (\<lambda>t. (label t, False)) ts @ st" for st
    using arg_cong [OF child_at_kids [of h a], of "map (\<lambda>c. (c, False))"] Rose.prems(1)
    unfolding push_rev by (simp add: comp_def)
  have same: "?h2 ! b = h ! b" if "b \<in> set (preorder us)" for b
    using that Rose.prems(2) wipe_keeps(4) [of b "postorder ts @ [a]" h] by auto
  have "forget ?h2 = forget h" by (intro ext) (simp add: forget_def wipe_def)
  moreover have "agrees ?h2 par us" by (rule agrees_cong [of h]) (use Rose.prems(1) same in auto)
  ultimately have us: "removeLoop ?h2 m' (map (\<lambda>t. (label t, False)) us @ rest)
      = removeLoop (fold wipe (postorder us) ?h2) (fold (forget h) (postorder us) m') rest" for m'
    using Rose.IH(2) [of ?h2 par m' rest] Rose.prems(2) by simp
  have "removeLoop h m ((a, False) # ?rest) = removeLoop h m (map (\<lambda>t. (label t, False)) ts @ (a, True) # ?rest)"
    by (subst removeLoop.simps) (simp add: push del: List_Len.simps)
  also have "\<dots> = removeLoop ?h1 ?m1 ((a, True) # ?rest)"
    using Rose.IH(1) [of h "Some a" m "(a, True) # ?rest"] Rose.prems by simp
  also have "\<dots> = removeLoop ?h2 (forget h a ?m1) ?rest"
    by (subst removeLoop.simps) (simp add: wipe_def forget_def)
  finally show ?case by (simp add: us)
qed simp

subsection \<open>The representation\<close>

definition tree_repr :: "('k, 'v) theap \<Rightarrow> 'k gtree \<Rightarrow> ptr forest \<Rightarrow> bool" where
  "tree_repr h t F \<longleftrightarrow>
     agrees h None F \<and> distinct (preorder F) \<and> (\<forall>a\<in>set (preorder F). a < length h) \<and>
     li_abs (tr_roots t) = map label F \<and>
     (\<forall>key a. Tree_Get (Some t) key = Some a \<longleftrightarrow> a \<in> set (preorder F) \<and> nd_id (h ! a) = key)"

text \<open>The trees a state can stand for.\<close>

definition tree_rel :: "('k, 'v) tstate \<Rightarrow> ('k \<times> 'v) forest \<Rightarrow> bool" where
  "tree_rel s G \<longleftrightarrow> (\<exists>t F. snd s = Some t \<and> tree_repr (fst s) t F \<and> G = relabel (view (fst s)) F)"

abbreviation at :: "'k \<Rightarrow> 'k \<times> 'v \<Rightarrow> bool" where
  "at key \<equiv> \<lambda>x. fst x = key"

definition spot :: "'k \<Rightarrow> ('k \<times> 'v) forest \<Rightarrow> (('k \<times> 'v) list \<times> ('k \<times> 'v) rose) option" where
  "spot key G = List.find (\<lambda>(p, t). at key (label t)) (places [] G)"

lemma find_unique: "x \<in> set xs \<Longrightarrow> P x \<Longrightarrow> (\<And>y. y \<in> set xs \<Longrightarrow> P y \<Longrightarrow> y = x) \<Longrightarrow> List.find P xs = Some x"
proof (induction xs)
  case (Cons y ys)
  show ?case
  proof (cases "P y")
    case False
    then have "x \<in> set ys" using Cons.prems(1,2) by auto
    from Cons.IH [OF this Cons.prems(2)] Cons.prems(3) False show ?thesis by simp
  qed (use Cons.prems(3) in simp)
qed simp

lemma reprD:
  assumes "tree_repr h t F"
  shows "agrees h None F" "distinct (preorder F)" "\<And>a. a \<in> set (preorder F) \<Longrightarrow> a < length h"
    "li_abs (tr_roots t) = map label F"
    "\<And>key a. Tree_Get (Some t) key = Some a \<longleftrightarrow> a \<in> set (preorder F) \<and> nd_id (h ! a) = key"
    "\<And>a b. a \<in> set (preorder F) \<Longrightarrow> b \<in> set (preorder F) \<Longrightarrow> nd_id (h ! a) = nd_id (h ! b) \<Longrightarrow> a = b"
proof -
  show get: "Tree_Get (Some t) key = Some a \<longleftrightarrow> a \<in> set (preorder F) \<and> nd_id (h ! a) = key" for key a
    using assms unfolding tree_repr_def by blast
  show "a = b" if "a \<in> set (preorder F)" "b \<in> set (preorder F)" "nd_id (h ! a) = nd_id (h ! b)" for a b
    using get [of "nd_id (h ! b)" a] get [of "nd_id (h ! b)" b] that by simp
qed (use assms in \<open>simp_all add: tree_repr_def\<close>)

lemma spot_found:
  assumes r: "tree_repr h t F" and g: "Tree_Get (Some t) key = Some a"
  obtains p ts where "(p, Rose a ts) \<in> set (places [] F)" "nd_id (h ! a) = key" "a < length h"
    "spot key (relabel (view h) F) = Some (map (view h) p, map_rose (view h) (Rose a ts))"
proof -
  have a: "a \<in> set (preorder F)" "nd_id (h ! a) = key" using reprD(5) [OF r] g by auto
  obtain p ts where p: "(p, Rose a ts) \<in> set (places [] F)" using place_of [OF a(1)] by blast
  have "List.find (\<lambda>(p, t). at key (label t)) (map (\<lambda>(p, t). (map (view h) p, map_rose (view h) t)) (places [] F))
      = Some (map (view h) p, map_rose (view h) (Rose a ts))"
  proof (rule find_unique)
    show "(map (view h) p, map_rose (view h) (Rose a ts)) \<in> set (map (\<lambda>(p, t). (map (view h) p, map_rose (view h) t)) (places [] F))"
      using p by force
    show "case (map (view h) p, map_rose (view h) (Rose a ts)) of (p, t) \<Rightarrow> at key (label t)"
      using a(2) by (simp add: view_def)
    fix y
    assume "y \<in> set (map (\<lambda>(p, t). (map (view h) p, map_rose (view h) t)) (places [] F))"
    then obtain q u where u: "(q, u) \<in> set (places [] F)" "y = (map (view h) q, map_rose (view h) u)" by auto
    assume "case y of (p, t) \<Rightarrow> at key (label t)"
    then have "nd_id (h ! label u) = key" using u(2) by (simp add: view_def rose.map_sel)
    moreover have "label u \<in> set (preorder F)" using place_label [OF u(1)] .
    ultimately have "label u = a" using reprD(6) [OF r] a by blast
    with place_unique [OF reprD(2) [OF r] u(1) p] u(2)
    show "y = (map (view h) p, map_rose (view h) (Rose a ts))" by simp
  qed
  then show ?thesis
    using that [OF p a(2) reprD(3) [OF r a(1)]] places_relabel [of "view h" "[]" F] by (simp add: spot_def)
qed

lemma spot_missing:
  assumes r: "tree_repr h t F" and g: "Tree_Get (Some t) key = None"
  shows "spot key (relabel (view h) F) = None"
proof -
  have "nd_id (h ! label u) \<noteq> key" if "(q, u) \<in> set (places [] F)" for q u
  proof -
    have "label u \<in> set (preorder F)" using place_label [OF that] .
    then show ?thesis using reprD(5) [OF r, of key "label u"] g by simp
  qed
  then show ?thesis
    using places_relabel [of "view h" "[]" F]
    by (fastforce simp: spot_def find_None_iff view_def rose.map_sel)
qed

end
