(* ===== verification/Tree_Ops.thy ===== *)
theory Tree_Ops
  imports Tree_Forest
begin

text \<open>
  Each operation of the tree on a state that stands for a forest: the state after it stands for the
  forest the operation means. Helper lemmas say how the writes move a represented forest.
\<close>

subsection \<open>Adding nodes\<close>

lemma Tree_ensureInit_sets: "\<exists>m l. tr_nodes (Tree_ensureInit t) = Some m \<and> tr_roots (Tree_ensureInit t) = Some l"
  by (cases "tr_nodes t"; cases "tr_roots t")
    (simp_all add: Tree_ensureInit_def NewMap_def NewMapWithCapacity_def NewList_def NewListWithCapacity_def)

lemma Tree_ensureInit_repr [simp]: "tree_repr h (Tree_ensureInit t) F \<longleftrightarrow> tree_repr h t F"
proof -
  have "Tree_Get (Some (Tree_ensureInit t)) key = Tree_Get (Some t) key" for key
    by (cases "tr_nodes t") (auto simp: Tree_ensureInit_def Let_def NewMap_def NewMapWithCapacity_def gm_map_def)
  moreover have "li_abs (tr_roots (Tree_ensureInit t)) = li_abs (tr_roots t)"
    by (cases "tr_roots t")
      (auto simp: Tree_ensureInit_def Let_def NewList_def NewListWithCapacity_def li_zero_def li_abs_def)
  ultimately show ?thesis by (simp add: tree_repr_def)
qed

lemma Tree_Get_set:
  assumes "tr_nodes t = Some m"
  shows "Tree_Get (Some (t\<lparr>tr_nodes := Map_Set (tr_nodes t) key n\<rparr>)) k' = (if k' = key then Some n else Tree_Get (Some t) k')"
  using assms Map_Set_map [of m key n] by auto

lemma Tree_Get_roots [simp]: "Tree_Get (Some (t\<lparr>tr_roots := l\<rparr>)) = Tree_Get (Some t)"
  by (intro ext) simp

lemma node_view_cong: "nd_id (h' ! a) = nd_id (h ! a) \<Longrightarrow> nd_value (h' ! a) = nd_value (h ! a) \<Longrightarrow> view h' a = view h a"
  by (simp add: view_def)

lemma spot_has: "tree_repr h t F \<Longrightarrow> Tree_Get (Some t) key = None \<longleftrightarrow> spot key (relabel (view h) F) = None"
  by (metis not_None_eq option.distinct(1) spot_found spot_missing)

lemma repr_missing: "tree_repr h t F \<Longrightarrow> Tree_Get (Some t) key = None \<Longrightarrow> a \<in> set (preorder F) \<Longrightarrow> nd_id (h ! a) \<noteq> key"
  using reprD(5) [of h t F key a] by auto

lemma view_missing:
  assumes "tree_repr h t F" and "Tree_Get (Some t) key = None" and "x \<in> set (preorder (relabel (view h) F))"
  shows "\<not> at key x"
proof -
  obtain a where "a \<in> set (preorder F)" "x = view h a" using assms(3) by auto
  then show ?thesis using repr_missing [OF assms(1,2), of a] by (simp add: view_def)
qed

lemma relabel_view_cong:
  "(\<And>a. a \<in> set (preorder F) \<Longrightarrow> nd_id (h' ! a) = nd_id (h ! a) \<and> nd_value (h' ! a) = nd_value (h ! a))
   \<Longrightarrow> relabel (view h') F = relabel (view h) F"
  by (rule relabel_cong) (simp add: view_def)

lemma Tree_AddRoot_rel:
  assumes "tree_rel s G"
  shows "\<exists>s'. Tree_AddRoot s key v = (s', if spot key G = None then None else Some ErrNodeAlreadyExists)
    \<and> tree_rel s' (if spot key G = None then G @ [Rose (key, v) []] else G)"
proof -
  obtain h t0 F where s: "s = (h, Some t0)" and r0: "tree_repr h t0 F" and G: "G = relabel (view h) F"
    using assms by (cases s) (auto simp: tree_rel_def)
  define t where "t = Tree_ensureInit t0"
  obtain m l where ml: "tr_nodes t = Some m" "tr_roots t = Some l" using Tree_ensureInit_sets unfolding t_def by blast
  have r: "tree_repr h t F" using r0 by (simp add: t_def)
  note rd = reprD [OF r]
  show ?thesis
  proof (cases "Tree_Get (Some t) key")
    case (Some a)
    then show ?thesis using r spot_has [OF r, of key]
      by (auto simp: s Tree_AddRoot_def t_def [symmetric] Tree_Has_def tree_rel_def G simp del: Tree_Get.simps)
  next
    case None
    let ?h = "fst (newNode h key v)" and ?n = "length h"
    let ?t = "t\<lparr>tr_nodes := Map_Set (tr_nodes t) key ?n, tr_roots := List_Add (tr_roots t) [?n]\<rparr>"
    have same: "?h ! a = h ! a" if "a \<in> set (preorder F)" for a using rd(3) [OF that] by (simp add: newNode_def nth_append)
    have get: "Tree_Get (Some ?t) k' = (if k' = key then Some ?n else Tree_Get (Some t) k')" for k'
      using Tree_Get_set [OF ml(1), of key ?n k'] by simp
    have "agrees ?h None (F @ [Rose ?n []])"
      using agrees_cong [OF rd(1), of ?h] same by (auto simp: newNode_def li_zero_def)
    moreover have "distinct (preorder (F @ [Rose ?n []]))" using rd(2,3) by auto
    moreover have "Tree_Get (Some ?t) k' = Some a \<longleftrightarrow> a \<in> set (preorder (F @ [Rose ?n []])) \<and> nd_id (?h ! a) = k'" for k' a
      unfolding get using rd(5) [of k' a] None same rd(3) by (auto simp: newNode_def simp del: Tree_Get.simps)
    ultimately have "tree_repr ?h ?t (F @ [Rose ?n []])"
      using rd(3,4) ml by (auto simp: tree_repr_def newNode_def List_invalidateSerializationCache_def less_Suc_eq simp del: Tree_Get.simps)
    moreover have "relabel (view ?h) (F @ [Rose ?n []]) = G @ [Rose (key, v) []]"
      using relabel_view_cong [of F ?h h] same by (simp add: G view_def newNode_def)
    ultimately have "tree_rel (?h, Some ?t) (G @ [Rose (key, v) []])" by (auto simp: tree_rel_def)
    then show ?thesis using None spot_has [OF r, of key]
      by (auto simp: s Tree_AddRoot_def t_def [symmetric] Tree_Has_def G newNode_def simp del: Tree_Get.simps)
  qed
qed

lemma graft_mset:
  assumes "distinct (preorder F)" and "q \<in> set (preorder F)"
  shows "mset (preorder (graft (\<lambda>a. a = q) t F)) = mset (preorder F) + mset (preorder [t])"
  using assms
proof (induction F rule: forest_induct)
  case (Rose a us vs)
  have out: "graft (\<lambda>a. a = q) t H = H" if "q \<notin> set (preorder H)" for H using that by (intro graft_idle) auto
  from Rose.prems consider "a = q" "q \<notin> set (preorder us)" "q \<notin> set (preorder vs)"
    | "a \<noteq> q" "q \<in> set (preorder us)" "q \<notin> set (preorder vs)"
    | "a \<noteq> q" "q \<notin> set (preorder us)" "q \<in> set (preorder vs)" by auto
  then show ?case by cases (use Rose.IH Rose.prems out in \<open>simp_all add: ac_simps\<close>)
qed simp

lemma graft_nodes:
  assumes "distinct (preorder F)" and "q \<in> set (preorder F)" and "distinct (preorder [t])"
    and "set (preorder F) \<inter> set (preorder [t]) = {}"
  shows "distinct (preorder (graft (\<lambda>a. a = q) t F))"
    and "set (preorder (graft (\<lambda>a. a = q) t F)) = set (preorder F) \<union> set (preorder [t])"
proof -
  have m: "mset (preorder (graft (\<lambda>a. a = q) t F)) = mset (preorder F @ preorder [t])"
    using graft_mset [OF assms(1,2)] by simp
  show "distinct (preorder (graft (\<lambda>a. a = q) t F))"
    using mset_eq_imp_distinct_iff [OF m] assms by simp
  show "set (preorder (graft (\<lambda>a. a = q) t F)) = set (preorder F) \<union> set (preorder [t])"
    using mset_eq_setD [OF m] by simp
qed

lemma Map_Get_nodes: "tr_nodes t \<noteq> None \<Longrightarrow> Map_Get (tr_nodes t) key = Tree_Get (Some t) key"
  by auto

lemma Tree_AddChild_rel:
  assumes "tree_rel s G"
  shows "\<exists>s'. Tree_AddChild s parentID key v = (s', if spot key G \<noteq> None then Some ErrNodeAlreadyExists
        else if spot parentID G = None then Some ErrParentNotFound else None)
    \<and> tree_rel s' (if spot key G \<noteq> None \<or> spot parentID G = None then G else graft (at parentID) (Rose (key, v) []) G)"
proof -
  obtain h t0 F where s: "s = (h, Some t0)" and r0: "tree_repr h t0 F" and G: "G = relabel (view h) F"
    using assms by (cases s) (auto simp: tree_rel_def)
  define t where "t = Tree_ensureInit t0"
  obtain m l where ml: "tr_nodes t = Some m" "tr_roots t = Some l" using Tree_ensureInit_sets unfolding t_def by blast
  have r: "tree_repr h t F" using r0 by (simp add: t_def)
  note rd = reprD [OF r] and has = spot_has [OF r, folded G] and get_m = Map_Get_nodes [of t]
  have unfold: "Tree_AddChild s parentID key v =
      (if Tree_Get (Some t) key \<noteq> None then ((h, Some t), Some ErrNodeAlreadyExists)
       else case Tree_Get (Some t) parentID of
              None \<Rightarrow> ((h, Some t), Some ErrParentNotFound)
            | Some q \<Rightarrow> ((with_children (\<lambda>c. List_Add c [length h]) q (set_parent (length h) (Some q) (fst (newNode h key v))),
                         Some (t\<lparr>tr_nodes := Map_Set (tr_nodes t) key (length h)\<rparr>)), None))"
    using get_m ml(1) by (simp add: s Tree_AddChild_def t_def [symmetric] Tree_Has_def newNode_def split: option.splits)
  have stay: "tree_rel (h, Some t) G" using r by (auto simp: tree_rel_def G)
  show ?thesis
  proof (cases "Tree_Get (Some t) key = None \<and> Tree_Get (Some t) parentID \<noteq> None")
    case False
    then show ?thesis using has [of key] has [of parentID] stay unfolding unfold by (auto split: option.splits)
  next
    case True
    then obtain q where q: "Tree_Get (Some t) parentID = Some q" and new: "Tree_Get (Some t) key = None" by blast
    let ?n = "length h" and ?new = "fst (newNode h key v)"
    let ?h = "with_children (\<lambda>c. List_Add c [?n]) q (set_parent ?n (Some q) ?new)"
    let ?t = "t\<lparr>tr_nodes := Map_Set (tr_nodes t) key ?n\<rparr>" and ?F = "graft (\<lambda>a. a = q) (Rose ?n []) F"
    have qF: "q \<in> set (preorder F)" "nd_id (h ! q) = parentID" "q < ?n" using rd(3,5) q by auto
    have old: "nd_id (?h ! a) = nd_id (h ! a) \<and> nd_value (?h ! a) = nd_value (h ! a) \<and> nd_parent (?h ! a) = nd_parent (h ! a)
        \<and> kids ?h a = (if a = q then kids h a @ [?n] else kids h a)" if "a \<in> set (preorder F)" for a
      using rd(3) [OF that] qF(3) by (simp add: newNode_def nth_append)
    have fresh: "?n \<notin> set (preorder F)" using rd(3) by blast
    have leaf: "agrees ?h (Some q) [Rose ?n []]" using qF(3) by (simp add: newNode_def li_zero_def)
    have ag: "agrees ?h None ?F" by (rule graft_agrees [OF rd(1,2) leaf]) (use old in auto)
    have nodes: "distinct (preorder ?F)" "set (preorder ?F) = insert ?n (set (preorder F))"
      using graft_nodes [OF rd(2) qF(1), of "Rose ?n []"] fresh by auto
    have get: "Tree_Get (Some ?t) k' = Some a \<longleftrightarrow> a \<in> set (preorder ?F) \<and> nd_id (?h ! a) = k'" for k' a
      using Tree_Get_set [OF ml(1), of key ?n k'] rd(5) [of k' a] new old [of a] fresh qF(3) unfolding nodes(2)
      by (auto simp: newNode_def simp del: Tree_Get.simps split: if_splits)
    have "tree_repr ?h ?t ?F"
      unfolding tree_repr_def using ag nodes rd(3,4) get by (auto simp: newNode_def less_Suc_eq simp del: Tree_Get.simps)
    moreover have "relabel (view ?h) ?F = graft (at parentID) (Rose (key, v) []) G"
    proof -
      have "relabel (view ?h) ?F = graft (at parentID) (map_rose (view ?h) (Rose ?n [])) (relabel (view ?h) F)"
        by (rule graft_relabel) (use old rd(6) qF in \<open>auto simp: view_def\<close>)
      moreover have "relabel (view ?h) F = G" unfolding G using old by (intro relabel_view_cong) auto
      moreover have "view ?h ?n = (key, v)" by (simp add: view_def newNode_def)
      ultimately show ?thesis by simp
    qed
    ultimately have "tree_rel (?h, Some ?t) (graft (at parentID) (Rose (key, v) []) G)" by (auto simp: tree_rel_def)
    then show ?thesis using q new has [of key] has [of parentID] unfolding unfold by (auto split: option.splits)
  qed
qed

subsection \<open>Moving and removing\<close>

lemma detach_forest:
  assumes r: "tree_repr h t F" and p: "(p, Rose n ts) \<in> set (places [] F)" and d: "Tree_detach h t n = (h1, t1)"
  shows "agrees h1 None (prune (\<lambda>a. a = n) F)" and "agrees h1 None [Rose n ts]"
    and "length h1 = length h" and "\<And>a. nd_id (h1 ! a) = nd_id (h ! a) \<and> nd_value (h1 ! a) = nd_value (h ! a)"
    and "li_abs (tr_roots t1) = map label (prune (\<lambda>a. a = n) F)" and "tr_nodes t1 = tr_nodes t"
    and "Tree_Get (Some t1) = Tree_Get (Some t)"
proof -
  note rd = reprD [OF r]
  have nF: "n \<in> set (preorder F)" "n < length h" using place_label [OF p] rd(3) by auto
  have pl: "nd_parent (h ! n) = first p" "kids h n = map label ts" "agrees h (Some n) ts"
    using agrees_place [of h "[]", OF _ p] rd(1) by auto
  have sub: "n \<notin> set (preorder ts)" "set (preorder ts) \<subseteq> set (preorder F)"
    using prune_parts(1) [OF p rd(2)] places_inside [OF p] by auto
  have only: "nd_parent (h ! n) = Some a" if "a \<in> set (preorder F)" "n \<in> set (kids h a)" for a
    using agrees_kid [OF rd(1) that] by simp
  show "tr_nodes t1 = tr_nodes t" and get: "Tree_Get (Some t1) = Tree_Get (Some t)"
    using d by (auto simp: Tree_detach_def split: option.splits if_splits)
  show "length h1 = length h" and "nd_id (h1 ! a) = nd_id (h ! a) \<and> nd_value (h1 ! a) = nd_value (h ! a)" for a
    using d by (auto simp: Tree_detach_def split: option.splits)
  have up: "nd_parent (h1 ! n) = None" "\<And>a. a \<noteq> n \<Longrightarrow> nd_parent (h1 ! a) = nd_parent (h ! a)"
    using d nF(2) by (auto simp: Tree_detach_def split: option.splits)
  have down: "kids h1 a = filter (\<lambda>c. c \<noteq> n) (kids h a)" if "a \<in> set (preorder F)" for a
  proof -
    have "filter (\<lambda>c. c \<noteq> n) (kids h a) = kids h a" if "nd_parent (h ! n) \<noteq> Some a"
      using only [OF \<open>a \<in> set (preorder F)\<close>] that by (auto intro!: filter_True)
    then show ?thesis using d rd(3) [OF that] by (auto simp: Tree_detach_def split: option.splits)
  qed
  show "agrees h1 None (prune (\<lambda>a. a = n) F)"
  proof (rule prune_agrees [OF rd(1)])
    fix a
    assume a: "a \<in> set (preorder (prune (\<lambda>a. a = n) F))"
    then have "a \<in> set (preorder F)" "a \<noteq> n" using preorder_prune_subset prune_drops by fast+
    then show "nd_parent (h1 ! a) = nd_parent (h ! a) \<and> kids h1 a = filter (\<lambda>c. c \<noteq> n) (kids h a)" using up down by simp
  qed
  have "agrees h1 (Some n) ts"
  proof (rule agrees_cong [OF pl(3)])
    fix a
    assume a: "a \<in> set (preorder ts)"
    then have "n \<notin> set (kids h a)" using agrees_kid [OF pl(3) a] sub(1) by blast
    then have "filter (\<lambda>c. c \<noteq> n) (kids h a) = kids h a" by (intro filter_True) auto
    then show "nd_parent (h1 ! a) = nd_parent (h ! a) \<and> kids h1 a = kids h a" using a sub up(2) [of a] down [of a] by fastforce
  qed
  moreover have "kids h1 n = map label ts"
  proof -
    have "n \<notin> set (map label ts)" using sub(1) labels_subset [of ts] by blast
    then have "filter (\<lambda>c. c \<noteq> n) (map label ts) = map label ts" by (intro filter_True) auto
    then show ?thesis using down [OF nF(1)] pl(2) by simp
  qed
  ultimately show "agrees h1 None [Rose n ts]" using up(1) by simp
  have "n \<notin> set (map label F)" if "nd_parent (h ! n) = Some b" for b
    using agrees_root [OF rd(1), of n] that by auto
  then have "filter (\<lambda>a. a \<noteq> n) (map label F) = map label F" if "nd_parent (h ! n) = Some b" for b
    using that by (intro filter_True) auto
  moreover have "li_abs (fst (List_RemoveIf (tr_roots t) (Some (\<lambda>item. item = n)))) = filter (\<lambda>a. a \<noteq> n) (map label F)"
  proof (cases "tr_roots t")
    case (Some l)
    then show ?thesis using List_RemoveIf_items [of l "\<lambda>item. item = n"] rd(4) by (auto simp del: List_RemoveIf.simps)
  qed (use rd(4) in \<open>simp add: li_abs_def\<close>)
  moreover have "map label F = []" if "tr_roots t = None" using that rd(4) by (simp add: li_abs_def)
  ultimately show "li_abs (tr_roots t1) = map label (prune (\<lambda>a. a = n) F)"
    using d rd(4) unfolding map_label_prune
    by (cases "nd_parent (h ! n)") (auto simp: Tree_detach_def simp del: List_RemoveIf.simps split: if_splits)
qed

text \<open>Without its parent, a subtree has another place under any node that stays.\<close>

lemma move_forest:
  assumes r: "tree_repr h t F" and p: "(p, Rose n ts) \<in> set (places [] F)"
    and q: "(p', Rose q us) \<in> set (places [] F)" "n \<noteq> q" "n \<notin> set p'" and d: "Tree_detach h t n = (h1, t1)"
  defines "h2 \<equiv> with_children (\<lambda>c. List_Add c [n]) q (set_parent n (Some q) h1)"
  shows "tree_repr h2 t1 (graft (\<lambda>a. a = q) (Rose n ts) (prune (\<lambda>a. a = n) F))"
    and "view h2 = view h"
proof -
  note rd = reprD [OF r] and dt = detach_forest [OF r p d]
  note parts = prune_parts [OF p rd(2)]
  let ?P = "prune (\<lambda>a. a = n) F" and ?T = "Rose n ts"
  have qP: "q \<in> set (preorder ?P)" using prune_keeps [OF q(1)] q(2,3) by simp
  have len: "n < length h" "q < length h" using place_label [OF p] place_label [OF q(1)] rd(3) by auto
  have eff: "nd_parent (h2 ! a) = (if a = n then Some q else nd_parent (h1 ! a))"
      "kids h2 a = (if a = q then kids h1 a @ [n] else kids h1 a)"
      "nd_id (h2 ! a) = nd_id (h ! a)" "nd_value (h2 ! a) = nd_value (h ! a)" "length h2 = length h" for a
    using len dt(3,4) by (simp_all add: h2_def)
  have tree: "agrees h2 (Some q) [?T]"
  proof -
    have "agrees h2 (Some n) ts"
      by (rule agrees_cong [of h1]) (use dt(2) parts(1,3) qP in \<open>auto simp: eff\<close>)
    then show ?thesis using dt(2) q(2) by (simp add: eff)
  qed
  have ag: "agrees h2 None (graft (\<lambda>a. a = q) ?T ?P)"
    by (rule graft_agrees [OF dt(1) parts(2) tree]) (use parts(3) in \<open>auto simp: eff\<close>)
  have nodes: "distinct (preorder (graft (\<lambda>a. a = q) ?T ?P))" "set (preorder (graft (\<lambda>a. a = q) ?T ?P)) = set (preorder F)"
    using graft_nodes [OF parts(2) qP parts(1)] parts(3,4) by (simp_all add: Int_commute Un_commute)
  show "tree_repr h2 t1 (graft (\<lambda>a. a = q) ?T ?P)"
    unfolding tree_repr_def nodes(2) dt(7) using ag nodes(1) rd(3,5) dt(5) by (simp add: eff del: Tree_Get.simps)
  show "view h2 = view h" by (intro ext node_view_cong) (simp_all add: eff)
qed

lemma relabel_prune_at:
  assumes "tree_repr h t F" and "n \<in> set (preorder F)"
  shows "relabel (view h) (prune (\<lambda>a. a = n) F) = prune (at (nd_id (h ! n))) (relabel (view h) F)"
  by (rule prune_relabel) (use reprD(6) [OF assms(1)] assms(2) in \<open>auto simp: view_def\<close>)

lemma Tree_Move_rel:
  assumes "tree_rel s G"
  shows "\<exists>s'. Tree_Move s key q = Some (s',
        case spot key G of
          None \<Rightarrow> Some ErrNodeNotFound
        | Some (_, t) \<Rightarrow> (case spot q G of
            None \<Rightarrow> Some ErrParentNotFound
          | Some (p, u) \<Rightarrow> if key \<in> fst ` set (label u # p) then Some ErrCycleDetected else None))
    \<and> tree_rel s' (case spot key G of
          None \<Rightarrow> G
        | Some (_, t) \<Rightarrow> (case spot q G of
            None \<Rightarrow> G
          | Some (p, u) \<Rightarrow> if key \<in> fst ` set (label u # p) then G else graft (at q) t (prune (at key) G)))"
proof -
  obtain h t F where s: "s = (h, Some t)" and r: "tree_repr h t F" and G: "G = relabel (view h) F"
    using assms by (cases s) (auto simp: tree_rel_def)
  note rd = reprD [OF r]
  have unfold: "Tree_Move s key q = (case Tree_Get (Some t) key of
        None \<Rightarrow> Some (s, Some ErrNodeNotFound)
      | Some n \<Rightarrow> (case Tree_Get (Some t) q of
          None \<Rightarrow> Some (s, Some ErrParentNotFound)
        | Some m \<Rightarrow> if n = m then Some (s, Some ErrCycleDetected)
            else case meetsNode h n (Some m) of
                   None \<Rightarrow> None
                 | Some True \<Rightarrow> Some (s, Some ErrCycleDetected)
                 | Some False \<Rightarrow> (case Tree_detach h t n of (h1, t1) \<Rightarrow>
                     Some ((with_children (\<lambda>c. List_Add c [n]) m (set_parent n (Some m) h1), Some t1), None))))"
    unfolding s
    by (cases "tr_nodes t"; cases "Tree_Get (Some t) key"; cases "Tree_Get (Some t) q") (simp_all add: Tree_Move_def)
  show ?thesis
  proof (cases "Tree_Get (Some t) key")
    case None
    then show ?thesis using spot_missing [OF r None] assms unfolding unfold by (simp add: G del: Tree_Get.simps)
  next
    case n: (Some n)
    obtain p ts where p: "(p, Rose n ts) \<in> set (places [] F)" "nd_id (h ! n) = key"
        "spot key G = Some (map (view h) p, map_rose (view h) (Rose n ts))"
      using spot_found [OF r n] unfolding G by blast
    show ?thesis
    proof (cases "Tree_Get (Some t) q")
      case None
      then show ?thesis using spot_missing [OF r None] assms p(3) n unfolding unfold by (simp add: G del: Tree_Get.simps)
    next
      case m: (Some m)
      obtain p' us where p': "(p', Rose m us) \<in> set (places [] F)" "nd_id (h ! m) = q"
          "spot q G = Some (map (view h) p', map_rose (view h) (Rose m us))"
        using spot_found [OF r m] unfolding G by blast
      have anc: "set p' \<subseteq> set (preorder F)" using place_ancestors [OF p'(1)] by simp
      have mF: "m \<in> set (preorder F)" "n \<in> set (preorder F)" using place_label [OF p'(1)] place_label [OF p(1)] by simp_all
      have eq: "key \<in> fst ` set (view h m # map (view h) p') \<longleftrightarrow> n = m \<or> n \<in> set p'"
      proof -
        have "key = nd_id (h ! a) \<longleftrightarrow> n = a" if "a \<in> set (preorder F)" for a using p(2) rd(6) [OF mF(2) that] by auto
        then have "(\<exists>a\<in>set p'. key = nd_id (h ! a)) \<longleftrightarrow> n \<in> set p'" "key = nd_id (h ! m) \<longleftrightarrow> n = m" using mF(1) anc by blast+
        then show ?thesis by (simp add: view_def image_iff)
      qed
      have meets: "meetsNode h n (Some m) = Some (n = m \<or> n \<in> set p')"
        using parents_of_place(3) [OF rd(1) p'(1), of n] agrees_place [of h "[]", OF _ p'(1)] rd(1)
        by (simp add: meetsNode.simps [of h n "Some m"])
      show ?thesis
      proof (cases "n = m \<or> n \<in> set p'")
        case True
        then have "key \<in> fst ` set (view h m # map (view h) p')" using eq by blast
        then show ?thesis using True assms meets p(3) p'(3) n m unfolding unfold
          by (intro exI [of _ s]) (simp del: Tree_Get.simps)
      next
        case False
        obtain h1 t1 where d: "Tree_detach h t n = (h1, t1)" by fastforce
        let ?h2 = "with_children (\<lambda>c. List_Add c [n]) m (set_parent n (Some m) h1)"
        note mv = move_forest [OF r p(1) p'(1) _ _ d]
        have "relabel (view ?h2) (graft (\<lambda>a. a = m) (Rose n ts) (prune (\<lambda>a. a = n) F))
            = graft (at q) (map_rose (view h) (Rose n ts)) (prune (at key) G)"
        proof -
          have "relabel (view h) (graft (\<lambda>a. a = m) (Rose n ts) (prune (\<lambda>a. a = n) F))
              = graft (at q) (map_rose (view h) (Rose n ts)) (relabel (view h) (prune (\<lambda>a. a = n) F))"
            by (rule graft_relabel)
              (use rd(6) mF p'(2) preorder_prune_subset [of "\<lambda>a. a = n" F] in \<open>auto simp: view_def\<close>)
          then show ?thesis using mv(2) False relabel_prune_at [OF r mF(2)] p(2) by (simp add: G)
        qed
        then have "tree_rel (?h2, Some t1) (graft (at q) (map_rose (view h) (Rose n ts)) (prune (at key) G))"
          using mv(1) False unfolding tree_rel_def by fastforce
        then show ?thesis using eq meets p(3) p'(3) n m d False unfolding unfold by (auto simp del: Tree_Get.simps)
      qed
    qed
  qed
qed

lemma forget_nodes:
  assumes "tr_nodes t = Some m"
  shows "\<exists>m'. fold (forget h) xs (tr_nodes t) = Some m' \<and>
    gm_map m' = fold (\<lambda>a. fmdrop (nd_id (h ! a))) xs (gm_map m)"
  using assms
proof (induction xs arbitrary: t m)
  case (Cons x xs)
  obtain m1 where m1: "forget h x (Some m) = Some m1" "gm_map m1 = fmdrop (nd_id (h ! x)) (gm_map m)"
    using Map_Delete_map [of m "nd_id (h ! x)"] by (auto simp: forget_def)
  from Cons.IH [of "t\<lparr>tr_nodes := Some m1\<rparr>" m1] m1 Cons.prems show ?case by simp
qed simp

lemma lookup_fold_drop: "fmlookup (fold (\<lambda>a. fmdrop (f a)) xs m) key = (if key \<in> f ` set xs then None else fmlookup m key)"
  by (induction xs arbitrary: m) auto

lemma Tree_Remove_rel:
  assumes "tree_rel s G"
  shows "\<exists>s'. Tree_Remove s key = Some (s', spot key G \<noteq> None) \<and> tree_rel s' (prune (at key) G)"
proof -
  obtain h t F where s: "s = (h, Some t)" and r: "tree_repr h t F" and G: "G = relabel (view h) F"
    using assms by (cases s) (auto simp: tree_rel_def)
  note rd = reprD [OF r]
  have unfold: "Tree_Remove s key = (case Tree_Get (Some t) key of
        None \<Rightarrow> Some (s, False)
      | Some n \<Rightarrow> (case Tree_detach h t n of (h1, t1) \<Rightarrow>
          (case Tree_removeSubtree h1 t1 (Some n) of None \<Rightarrow> None | Some (h2, t2) \<Rightarrow> Some ((h2, Some t2), True))))"
    unfolding s by (cases "tr_nodes t") (simp_all add: Tree_Remove_def)
  show ?thesis
  proof (cases "Tree_Get (Some t) key")
    case None
    have "prune (at key) G = G"
      using view_missing [OF r None] unfolding G by (rule prune_idle)
    then show ?thesis using None spot_missing [OF r None] assms unfolding unfold by (simp add: G del: Tree_Get.simps)
  next
    case n: (Some n)
    obtain p ts where p: "(p, Rose n ts) \<in> set (places [] F)" "nd_id (h ! n) = key"
        "spot key G = Some (map (view h) p, map_rose (view h) (Rose n ts))"
      using spot_found [OF r n] unfolding G by blast
    obtain h1 t1 where d: "Tree_detach h t n = (h1, t1)" by fastforce
    note dt = detach_forest [OF r p(1) d] and parts = prune_parts [OF p(1) rd(2)]
    let ?xs = "postorder [Rose n ts]" and ?P = "prune (\<lambda>a. a = n) F"
    let ?h2 = "fold wipe ?xs h1" and ?t2 = "t1\<lparr>tr_nodes := fold (forget h1) ?xs (tr_nodes t1)\<rparr>"
    have "removeLoop h1 (tr_nodes t1) [(n, False)] = Some (?h2, fold (forget h1) ?xs (tr_nodes t1))"
      using removeLoop_forest [OF dt(2) parts(1), of "tr_nodes t1" "[]"] by (simp add: removeLoop.simps [of _ _ "[]"])
    then have rm: "Tree_removeSubtree h1 t1 (Some n) = Some (?h2, ?t2)" by (simp add: Tree_removeSubtree_def)
    have same: "?h2 ! a = h1 ! a" if "a \<in> set (preorder ?P)" for a
      using that parts(3) by (intro wipe_keeps(4)) auto
    have ag: "agrees ?h2 None ?P" by (rule agrees_cong [OF dt(1)]) (simp only: same)
    have ids: "nd_id (?h2 ! a) = nd_id (h ! a)" "nd_value (?h2 ! a) = nd_value (h ! a)" for a using dt(4) by (simp_all only: wipe_keeps)
    obtain m where m: "tr_nodes t1 = Some m" using n dt(6) by (cases "tr_nodes t") auto
    have lookup: "Tree_Get (Some ?t2) k' = (if k' \<in> (\<lambda>a. nd_id (h1 ! a)) ` set ?xs then None else Tree_Get (Some t1) k')" for k'
      using forget_nodes [OF m, of h1 ?xs] m by (auto simp: lookup_fold_drop)
    have get: "Tree_Get (Some ?t2) k' = Some a \<longleftrightarrow> a \<in> set (preorder ?P) \<and> nd_id (?h2 ! a) = k'" for k' a
    proof -
      have "inj_on (\<lambda>a. nd_id (h1 ! a)) (set (preorder F))" using rd(6) dt(4) by (auto intro!: inj_onI)
      then have "nd_id (h1 ! a) \<in> (\<lambda>a. nd_id (h1 ! a)) ` set ?xs \<longleftrightarrow> a \<in> set (preorder [Rose n ts])" if "a \<in> set (preorder F)"
        unfolding set_postorder by (rule inj_on_image_mem_iff [OF _ that]) (use parts(4) in blast)
      moreover have "a \<in> set (preorder ?P) \<longleftrightarrow> a \<in> set (preorder F) \<and> a \<notin> set (preorder [Rose n ts])"
        using parts(3,4) by blast
      moreover have "nd_id (h1 ! a) = nd_id (h ! a)" using dt(4) by simp
      ultimately show ?thesis using lookup [of k'] rd(5) [of k' a] ids(1) [of a] unfolding dt(7)
        by (simp del: Tree_Get.simps postorder.simps preorder.simps fold_simps) blast
    qed
    have lt: "a < length ?h2" if "a \<in> set (preorder ?P)" for a
      unfolding wipe_keeps(1) dt(3) using that rd(3) parts(4) by blast
    have "tree_repr ?h2 ?t2 ?P"
      unfolding tree_repr_def by (intro conjI ballI allI ag parts(2) lt get) (use dt(5) in simp_all)
    moreover have "relabel (view ?h2) ?P = prune (at key) G"
    proof -
      have "view ?h2 = view h" by (intro ext node_view_cong ids)
      then show ?thesis using relabel_prune_at [OF r, of n] place_label [OF p(1)] p(2) by (simp add: G)
    qed
    ultimately have "tree_rel (?h2, Some ?t2) (prune (at key) G)" by (auto simp: tree_rel_def)
    then show ?thesis using n d rm p(3) unfolding unfold by simp
  qed
qed

lemma Tree_SetValue_rel:
  assumes "tree_rel s G"
  shows "\<exists>s'. Tree_SetValue s key v = (s', spot key G \<noteq> None)
    \<and> tree_rel s' (relabel (\<lambda>x. if at key x then (key, v) else x) G)"
proof -
  obtain h t F where s: "s = (h, Some t)" and r: "tree_repr h t F" and G: "G = relabel (view h) F"
    using assms by (cases s) (auto simp: tree_rel_def)
  note rd = reprD [OF r]
  show ?thesis
  proof (cases "Tree_Get (Some t) key")
    case None
    have "relabel (\<lambda>x. if at key x then (key, v) else x) G = relabel id G"
      using view_missing [OF r None] unfolding G by (intro relabel_cong) simp
    then have "relabel (\<lambda>x. if at key x then (key, v) else x) G = G" by (simp add: rose.map_id0)
    then show ?thesis using None spot_missing [OF r None, folded G] assms by (simp add: s Tree_SetValue_def del: Tree_Get.simps)
  next
    case n: (Some n)
    then have nF: "n \<in> set (preorder F)" "nd_id (h ! n) = key" "n < length h" using rd(3,5) by auto
    let ?h = "h[n := (h ! n)\<lparr>nd_value := v\<rparr>]"
    have eff: "nd_parent (?h ! a) = nd_parent (h ! a)" "nd_children (?h ! a) = nd_children (h ! a)" "nd_id (?h ! a) = nd_id (h ! a)"
        "nd_value (?h ! a) = (if a = n then v else nd_value (h ! a))" for a
      using nF(3) by (simp_all add: nth_update)
    have "agrees ?h None F" by (rule agrees_cong [OF rd(1)]) (simp add: eff)
    then have "tree_repr ?h t F" using r by (simp add: tree_repr_def eff del: Tree_Get.simps)
    moreover have "relabel (view ?h) F = relabel (\<lambda>x. if at key x then (key, v) else x) G"
      unfolding G list.map_comp rose.map_comp comp_def
      by (rule relabel_cong [unfolded comp_def]) (use rd(6) nF in \<open>auto simp: view_def eff\<close>)
    ultimately have "tree_rel (?h, Some t) (relabel (\<lambda>x. if at key x then (key, v) else x) G)" by (auto simp: tree_rel_def)
    then show ?thesis using n spot_has [OF r, of key] by (auto simp: s G Tree_SetValue_def simp del: Tree_Get.simps)
  qed
qed

lemma Tree_Clear_rel:
  assumes "tree_rel s G"
  shows "tree_rel (Tree_Clear s) []"
proof -
  obtain h t where s: "s = (h, Some t)" using assms by (cases s) (auto simp: tree_rel_def)
  have "Map_Get (Map_Clear (tr_nodes t)) key = None" for key
    by (cases "tr_nodes t") (auto simp: gm_map_def ml_def Map_Clear.simps split: option.splits)
  moreover have "li_abs (List_Clear (tr_roots t)) = []" by (cases "tr_roots t") (simp_all add: li_abs_def)
  ultimately have "tree_repr h (t\<lparr>tr_nodes := (if tr_nodes t = None then None else Map_Clear (tr_nodes t)),
      tr_roots := (if tr_roots t = None then None else List_Clear (tr_roots t))\<rparr>) []"
    by (simp add: tree_repr_def li_abs_def)
  then show ?thesis by (auto simp: s Tree_Clear_def tree_rel_def)
qed

end
