(* ===== verification/Tree_Copy.thy ===== *)
theory Tree_Copy
  imports Tree_Ops
begin

text \<open>
  The two copies of \<^verbatim>\<open>collectionx/tree/tree_clone.go\<close>. Both keep a stack of pairs of a node and its
  copy and copy the children of a node when its pair is popped; \<open>Clone\<close> goes through the children
  from the first to the last, the detached copy from the last to the first. Shown: both loops return
  on a heap that agrees with a forest, leave the nodes that were there as they are, and lay out in new
  nodes the same forest (\<open>Clone\<close>) or its mirror image (the detached copy).
\<close>

definition turn :: "bool \<Rightarrow> 'a list \<Rightarrow> 'a list" where
  "turn flag xs = (if flag then rev xs else xs)"

lemma turn_simps [simp]:
  "turn flag (map f xs) = map f (turn flag xs)" "mset (turn flag xs) = mset xs" "set (turn flag xs) = set xs"
  "length (turn flag xs) = length xs" "turn flag [] = []" "turn False xs = xs" "turn True xs = rev xs"
  by (simp_all add: turn_def rev_map)

fun mirror :: "bool \<Rightarrow> 'a forest \<Rightarrow> 'a forest" where
  "mirror flag [] = []"
| "mirror flag (Rose a ts # us) = Rose a (turn flag (mirror flag ts)) # mirror flag us"

lemma mirror_append [simp]: "mirror flag (F @ G) = mirror flag F @ mirror flag G"
  by (induction F rule: forest_induct) simp_all

lemma mirror_rev [simp]: "mirror flag (rev F) = rev (mirror flag F)"
  by (induction F rule: forest_induct) simp_all

lemma mirror_turn [simp]: "mirror flag (turn flag' F) = turn flag' (mirror flag F)"
  by (simp add: turn_def)

lemma mirror_id [simp]: "mirror False F = F"
  by (induction F rule: forest_induct) simp_all

lemma length_mirror [simp]: "length (mirror flag F) = length F"
  by (induction F rule: forest_induct) simp_all

lemma mset_preorder_rev [simp]: "mset (preorder (rev F)) = mset (preorder F)"
  by (induction F rule: forest_induct) simp_all

lemma mset_preorder_turn [simp]: "mset (preorder (turn flag F)) = mset (preorder F)"
  by (simp add: turn_def)

lemma set_preorder_rev [simp]: "set (preorder (rev F)) = set (preorder F)" "set (preorder (turn flag F)) = set (preorder F)"
  by (rule mset_eq_setD, rule mset_preorder_rev, rule mset_eq_setD, rule mset_preorder_turn)

lemma length_preorder_rev [simp]: "length (preorder (rev F)) = length (preorder F)" "length (preorder (turn flag F)) = length (preorder F)"
  by (rule mset_eq_length, rule mset_preorder_rev, rule mset_eq_length, rule mset_preorder_turn)

text \<open>A heap with the children of a forest, whatever its parents.\<close>

fun linked :: "('k, 'v) theap \<Rightarrow> ptr forest \<Rightarrow> bool" where
  "linked h [] \<longleftrightarrow> True"
| "linked h (Rose a ts # us) \<longleftrightarrow> kids h a = map label ts \<and> linked h ts \<and> linked h us"

lemma linked_append [simp]: "linked h (F @ G) \<longleftrightarrow> linked h F \<and> linked h G"
  by (induction F rule: forest_induct) auto

lemma linked_rev [simp]: "linked h (rev F) \<longleftrightarrow> linked h F" "linked h (turn flag F) \<longleftrightarrow> linked h F"
proof -
  show rev: "linked h (rev F) \<longleftrightarrow> linked h F" by (induction F rule: forest_induct) auto
  then show "linked h (turn flag F) \<longleftrightarrow> linked h F" by (simp add: turn_def)
qed

lemma agrees_linked: "agrees h par F \<Longrightarrow> linked h F"
  by (induction F arbitrary: par rule: forest_induct) auto

lemma linked_cong: "linked h F \<Longrightarrow> (\<And>a. a \<in> set (preorder F) \<Longrightarrow> kids h' a = kids h a) \<Longrightarrow> linked h' F"
  by (induction F rule: forest_induct) auto

text \<open>The subtrees of a forest in place, whatever the parents of its roots.\<close>

definition hangs :: "('k, 'v) theap \<Rightarrow> ptr forest \<Rightarrow> bool" where
  "hangs h S \<longleftrightarrow> (\<forall>t\<in>set S. kids h (label t) = map label (subs t) \<and> agrees h (Some (label t)) (subs t))"

lemma agrees_hangs: "agrees h par F \<longleftrightarrow> hangs h F \<and> (\<forall>t\<in>set F. nd_parent (h ! label t) = par)"
  by (induction F rule: forest_induct) (auto simp: hangs_def)

subsection \<open>Copying the children of a node\<close>

definition reg :: "('k, 'v) theap \<Rightarrow> ptr \<Rightarrow> ('k, ptr) fmap \<Rightarrow> ('k, ptr) fmap" where
  "reg h a m = fmupd (nd_id (h ! a)) a m"

lemma cloneChild_effect:
  assumes "target < length h" "child < length h" and "cloneChild h target child = (h1, c)"
  shows "c = length h" "length h1 = Suc (length h)"
    "\<And>a. a < length h \<Longrightarrow> view h1 a = view h a \<and> nd_parent (h1 ! a) = nd_parent (h ! a)
       \<and> kids h1 a = (if a = target then kids h a @ [c] else kids h a)"
    "view h1 c = view h child" "nd_parent (h1 ! c) = Some target" "kids h1 c = []"
  using assms by (auto simp: cloneChild_def newNode_def view_def nth_append li_zero_def)

lemma cloneChildren_effect:
  assumes "target < length h" and "\<forall>a\<in>set cs. a < length h" and "nodes = Some m"
    and "cloneChildren target cs h nodes stack = (h1, nodes1, stack1)"
  defines "new \<equiv> [length h ..< length h + length cs]"
  shows "length h1 = length h + length cs \<and> stack1 = rev (zip cs new) @ stack
    \<and> (\<forall>a<length h. view h1 a = view h a \<and> nd_parent (h1 ! a) = nd_parent (h ! a)
         \<and> kids h1 a = (if a = target then kids h a @ new else kids h a))
    \<and> map (view h1) new = map (view h) cs \<and> (\<forall>c\<in>set new. nd_parent (h1 ! c) = Some target \<and> kids h1 c = [])
    \<and> (\<exists>m1. nodes1 = Some m1 \<and> gm_map m1 = fold (reg h1) new (gm_map m))"
  using assms(1-4) unfolding new_def
proof (induction cs arbitrary: h nodes m stack)
  case (Cons x cs)
  obtain h2 c where c: "cloneChild h target x = (h2, c)" by fastforce
  note e = cloneChild_effect [OF Cons.prems(1) _ c]
  have x: "x < length h" using Cons.prems(2) by simp
  obtain m2 where m2: "Map_Set nodes (nd_id (h2 ! c)) c = Some m2" "gm_map m2 = reg h2 c (gm_map m)"
    using Map_Set_map [of m "nd_id (h2 ! c)" c] Cons.prems(3) by (auto simp: reg_def)
  have rest: "cloneChildren target cs h2 (Some m2) ((x, c) # stack) = (h1, nodes1, stack1)"
    using Cons.prems(4) c m2(1) by simp
  have new: "[length h ..< length h + length (x # cs)] = c # [length h2 ..< length h2 + length cs]"
    using e(1,2) [OF x] by (simp add: upt_rec)
  note IH = Cons.IH [OF _ _ refl rest]
  have lt: "target < length h2" "\<forall>a\<in>set cs. a < length h2" using Cons.prems(1,2) e(2) [OF x] by auto
  note IH = IH [OF lt]
  have old: "view h1 c = view h x \<and> nd_parent (h1 ! c) = Some target \<and> kids h1 c = []"
    using IH e [OF x] Cons.prems(1) by auto
  have "reg h1 c = reg h2 c" using old e(4) [OF x] by (intro ext) (simp add: reg_def view_def)
  then have "fold (reg h1) (c # [length h2 ..< length h2 + length cs]) (gm_map m)
      = fold (reg h1) [length h2 ..< length h2 + length cs] (gm_map m2)" by (simp add: m2(2))
  moreover have "map (view h2) cs = map (view h) cs" using e(3) [OF x] Cons.prems(2) by auto
  ultimately show ?case unfolding new using IH old e(2,3) [OF x] Cons.prems(1) e(1) [OF x] by auto
qed auto

subsection \<open>Copying a forest\<close>

text \<open>What the stack holds: subtrees to copy, and for each a copy of its root that has no children
  yet.\<close>

definition pending :: "('k, 'v) theap \<Rightarrow> ptr forest \<Rightarrow> ptr list \<Rightarrow> bool" where
  "pending h S bs \<longleftrightarrow>
     linked h S \<and> (\<forall>a\<in>set (preorder S). a < length h) \<and> distinct bs \<and> map (view h) bs = map (view h) (map label S) \<and>
     (\<forall>b\<in>set bs. b < length h \<and> kids h b = [] \<and> b \<notin> set (preorder S))"

definition copied :: "bool \<Rightarrow> ('k, 'v) theap \<Rightarrow> ptr forest \<Rightarrow> ptr list \<Rightarrow> ('k, 'v) theap \<Rightarrow> bool" where
  "copied flag h S bs h' \<longleftrightarrow>
     length h \<le> length h' \<and>
     (\<forall>a<length h. view h' a = view h a \<and> nd_parent (h' ! a) = nd_parent (h ! a) \<and> (a \<notin> set bs \<longrightarrow> kids h' a = kids h a)) \<and>
     (\<exists>S'. map label S' = bs \<and> relabel (view h') S' = mirror flag (relabel (view h) S) \<and> hangs h' S'
        \<and> distinct (preorder S') \<and> set (preorder S') = set bs \<union> {length h ..< length h'})"

lemma pending_step:
  assumes p: "pending h (Rose a ts # R) (b # bs)" and m: "nodes = Some m"
    and c: "cloneChildren b (turn flag (map label ts)) h nodes stack = (h1, nodes1, stack1)"
  shows "pending h1 (rev (turn flag ts) @ R) (rev [length h ..< length h1] @ bs)"
proof -
  have lt: "b < length h" "\<forall>a\<in>set (turn flag (map label ts)). a < length h"
    using p labels_subset [of ts] by (auto simp: pending_def)
  note e = cloneChildren_effect [OF lt m c]
  let ?new = "[length h ..< length h1]" and ?cs = "turn flag (map label ts)"
  have len: "length h1 = length h + length ts" using e by simp
  have same: "view h1 x = view h x" "x \<noteq> b \<Longrightarrow> kids h1 x = kids h x" if "x < length h" for x using e that by simp_all
  have src: "x < length h" "x \<noteq> b" if "x \<in> set (preorder (rev (turn flag ts) @ R))" for x
    using p that by (auto simp: pending_def)
  have cps: "x < length h" "x \<noteq> b" "kids h x = []" "x \<notin> set (preorder (rev (turn flag ts) @ R))" if "x \<in> set bs" for x
    using p that by (auto simp: pending_def)
  have new: "kids h1 x = []" "x \<notin> set (preorder (rev (turn flag ts) @ R))" "x \<notin> set bs" if "x \<in> set ?new" for x
    using e that len src(1) [of x] cps(1) [of x] by force+
  have "linked h1 (rev (turn flag ts) @ R)"
    by (rule linked_cong [of h]) (use p src same in \<open>auto simp: pending_def\<close>)
  moreover have "map (view h1) (rev ?new @ bs) = map (view h1) (map label (rev (turn flag ts) @ R))"
  proof -
    have "map (view h1) (map label R) = map (view h) (map label R)"
    proof (rule map_cong [OF refl])
      fix x
      assume "x \<in> set (map label R)"
      then have "x \<in> set (preorder R)" by (rule labels_subset [THEN subsetD])
      then show "view h1 x = view h x" using same(1) src(1) [of x] by simp
    qed
    moreover have "map (view h1) bs = map (view h) bs" using same cps by (intro map_cong) auto
    moreover have "map (view h) bs = map (view h) (map label R)" using p by (simp add: pending_def)
    moreover have "map (view h1) ?cs = map (view h) ?cs" using lt(2) same by (intro map_cong) auto
    moreover have "map (view h1) ?new = map (view h) ?cs" using e len by simp
    ultimately show ?thesis by (simp only: map_append rev_map [symmetric] turn_simps(1) [symmetric])
  qed
  moreover have "distinct (rev ?new @ bs)" using p new(3) by (auto simp: pending_def)
  moreover have "x < length h1 \<and> kids h1 x = [] \<and> x \<notin> set (preorder (rev (turn flag ts) @ R))" if "x \<in> set (rev ?new @ bs)" for x
    using that new [of x] cps [of x] same(2) [of x] len by auto
  moreover have "x < length h1" if "x \<in> set (preorder (rev (turn flag ts) @ R))" for x using src(1) [OF that] len by simp
  ultimately show ?thesis unfolding pending_def by blast
qed

lemma copied_step:
  assumes p: "pending h (Rose a ts # R) (b # bs)" and m: "nodes = Some m"
    and c: "cloneChildren b (turn flag (map label ts)) h nodes stack = (h1, nodes1, stack1)"
    and s: "copied flag h1 (rev (turn flag ts) @ R) (rev [length h ..< length h1] @ bs) h'"
  shows "copied flag h (Rose a ts # R) (b # bs) h'"
proof -
  let ?new = "[length h ..< length h1]"
  have lt: "b < length h" "\<forall>a\<in>set (turn flag (map label ts)). a < length h" "\<forall>x\<in>set bs. x < length h" "b \<notin> set bs" "kids h b = []"
    "\<forall>x\<in>set (preorder (Rose a ts # R)). x < length h" "view h b = view h a"
    using p labels_subset [of ts] by (auto simp: pending_def)
  note e = cloneChildren_effect [OF lt(1,2) m c]
  have len: "length h1 = length h + length ts" using e by simp
  obtain S1 where S1: "map label S1 = rev ?new @ bs" "relabel (view h') S1 = mirror flag (relabel (view h1) (rev (turn flag ts) @ R))"
      "hangs h' S1" "distinct (preorder S1)" "set (preorder S1) = set (rev ?new @ bs) \<union> {length h1 ..< length h'}"
    and old: "length h1 \<le> length h'" "\<And>a. a < length h1 \<Longrightarrow> view h' a = view h1 a \<and> nd_parent (h' ! a) = nd_parent (h1 ! a)
        \<and> (a \<notin> set (rev ?new @ bs) \<longrightarrow> kids h' a = kids h1 a)"
    using s unfolding copied_def by blast
  define X Y where "X = take (length ts) S1" and "Y = drop (length ts) S1"
  have split: "S1 = X @ Y" by (simp add: X_def Y_def)
  have lab: "map label X = rev ?new" "map label Y = bs"
    using arg_cong [OF S1(1), of "take (length ts)"] arg_cong [OF S1(1), of "drop (length ts)"] len
    by (simp_all add: X_def Y_def take_map drop_map)
  have src: "relabel (view h1) F = relabel (view h) F" if "set (preorder F) \<subseteq> set (preorder (Rose a ts # R))" for F
    using that lt(6) e by (intro relabel_cong) auto
  have rel: "relabel (view h') X = rev (turn flag (mirror flag (relabel (view h) ts)))" "relabel (view h') Y = mirror flag (relabel (view h) R)"
  proof -
    have "relabel (view h1) ts = relabel (view h) ts" "relabel (view h1) R = relabel (view h) R"
      by (rule src, simp, blast) (rule src, simp, blast)
    moreover have "relabel (view h1) (rev (turn flag ts)) = rev (turn flag (relabel (view h1) ts))" by (simp add: rev_map)
    ultimately have "relabel (view h') X @ relabel (view h') Y
        = rev (turn flag (mirror flag (relabel (view h) ts))) @ mirror flag (relabel (view h) R)"
      using S1(2) unfolding split map_append mirror_append by (simp only: mirror_rev mirror_turn)
    moreover have "length (relabel (view h') X) = length (rev (turn flag (mirror flag (relabel (view h) ts))))"
      using lab(1) len by (metis add_diff_cancel_left' length_map length_mirror length_rev length_upt turn_simps(4))
    ultimately show "relabel (view h') X = rev (turn flag (mirror flag (relabel (view h) ts)))"
      "relabel (view h') Y = mirror flag (relabel (view h) R)" by simp_all
  qed
  have b: "view h' b = view h a" "kids h' b = map label (rev X)"
    using old(2) [of b] lt e lab(1) by (auto simp: rev_map [symmetric])
  have "agrees h' (Some b) (rev X)"
  proof -
    have "nd_parent (h' ! c) = Some b" if "c \<in> set ?new" for c
      using old(2) [of c] e that len by auto
    moreover have "label t \<in> set ?new" if "t \<in> set X" for t using lab(1) that by (metis image_eqI set_map set_rev)
    ultimately show ?thesis using S1(3) unfolding agrees_hangs by (auto simp: hangs_def split)
  qed
  then have "hangs h' (Rose b (rev X) # Y)" using S1(3) b(2) by (auto simp: hangs_def split)
  moreover have "relabel (view h') (Rose b (rev X) # Y) = mirror flag (relabel (view h) (Rose a ts # R))"
    using rel b(1) by (simp add: rev_map [symmetric])
  moreover have "set (preorder (Rose b (rev X) # Y)) = set (b # bs) \<union> {length h ..< length h'}"
  proof -
    have "set ?new \<union> {length h1 ..< length h'} = {length h ..< length h'}" using old(1) len by auto
    moreover have "set (preorder (Rose b (rev X) # Y)) = insert b (set (preorder S1))" by (simp add: split)
    ultimately show ?thesis using S1(5) by (simp only: set_append set_rev) auto
  qed
  moreover have "distinct (preorder (Rose b (rev X) # Y))"
  proof -
    have "distinct (preorder (rev X) @ preorder Y)"
      using S1(4) mset_eq_imp_distinct_iff [of "preorder (rev X) @ preorder Y" "preorder X @ preorder Y"] by (simp add: split)
    moreover have "b \<notin> set (preorder S1)" using S1(5) lt(1,4) len by auto
    ultimately show ?thesis by (auto simp: split)
  qed
  moreover have "view h' x = view h x \<and> nd_parent (h' ! x) = nd_parent (h ! x) \<and> (x \<notin> set (b # bs) \<longrightarrow> kids h' x = kids h x)"
    if "x < length h" for x
  proof -
    have 1: "view h1 x = view h x \<and> nd_parent (h1 ! x) = nd_parent (h ! x) \<and> (x \<noteq> b \<longrightarrow> kids h1 x = kids h x)"
      using e that by simp
    moreover have "x < length h1" "x \<notin> set ?new" using that len by auto
    ultimately show ?thesis using old(2) [of x] by simp
  qed
  moreover have "map label (Rose b (rev X) # Y) = b # bs" using lab(2) by simp
  moreover have "length h \<le> length h'" using old(1) len by simp
  ultimately show ?thesis
    unfolding copied_def by (intro conjI exI [of _ "Rose b (rev X) # Y"] allI impI) simp_all
qed

lemma copied_done: "copied flag h [] [] h"
  unfolding copied_def by (intro conjI exI [of _ "[]"]) (simp_all add: hangs_def)

lemma stack_step:
  assumes "pending h (Rose a ts # R) (b # bs)" and "nodes = Some m"
    and "cloneChildren b (turn flag (map label ts)) h nodes (zip (map label R) bs) = (h1, nodes1, stack1)"
  shows "stack1 = zip (map label (rev (turn flag ts) @ R)) (rev [length h ..< length h1] @ bs)"
proof -
  have "b < length h" "\<forall>a\<in>set (turn flag (map label ts)). a < length h"
    using assms(1) labels_subset [of ts] by (auto simp: pending_def)
  from cloneChildren_effect [OF this assms(2,3)] show ?thesis
    by (simp add: zip_append zip_rev flip: rev_map)
qed

text \<open>\<open>Clone\<close>: the loop, with the index of the copies by id.\<close>

lemma cloneLoop_copies:
  assumes "pending h S bs" and "nodes = Some m"
  shows "\<exists>h' m'. cloneLoop h nodes (zip (map label S) bs) = Some (h', Some m') \<and> copied False h S bs h'
    \<and> gm_map m' = fold (reg h') [length h ..< length h'] (gm_map m)"
  using assms
proof (induction "length (preorder S)" arbitrary: h nodes m S bs rule: less_induct)
  case less
  show ?case
  proof (cases S rule: preorder.cases)
    case 1
    then have "bs = []" using less.prems(1) by (simp add: pending_def)
    then show ?thesis using 1 less.prems(2) copied_done [of False h]
      by (intro exI [of _ h] exI [of _ m]) (simp add: cloneLoop.simps [of h "Some m" "[]"])
  next
    case (2 a ts R)
    then obtain b bs' where bs: "bs = b # bs'" using less.prems(1) by (cases bs) (auto simp: pending_def)
    note p = less.prems(1) [unfolded 2 bs]
    have ks: "map (child_at h a) [0 ..< List_Len (Some (nd_children (h ! a)))] = turn False (map label ts)"
      using child_at_kids [of h a] p by (simp add: pending_def)
    obtain h1 nodes1 stack1 where c: "cloneChildren b (turn False (map label ts)) h nodes (zip (map label R) bs') = (h1, nodes1, stack1)"
      by (metis prod_cases3)
    have "b < length h" "\<forall>a\<in>set (turn False (map label ts)). a < length h"
      using p labels_subset [of ts] by (auto simp: pending_def)
    note e = cloneChildren_effect [OF this less.prems(2) c]
    obtain m1 where m1: "nodes1 = Some m1" "gm_map m1 = fold (reg h1) [length h ..< length h1] (gm_map m)" using e by auto
    let ?S = "rev (turn False ts) @ R" and ?bs = "rev [length h ..< length h1] @ bs'"
    have "length (preorder ?S) < length (preorder S)" by (simp add: 2)
    from less.hyps [OF this pending_step [OF p less.prems(2) c] m1(1)] obtain h' m' where
      h': "cloneLoop h1 nodes1 (zip (map label ?S) ?bs) = Some (h', Some m')" "copied False h1 ?S ?bs h'"
        "gm_map m' = fold (reg h') [length h1 ..< length h'] (gm_map m1)" by blast
    have "cloneLoop h nodes (zip (map label S) bs) = cloneLoop h1 nodes1 stack1"
      using c by (subst cloneLoop.simps) (simp add: 2 bs ks del: turn_simps List_Len.simps)
    moreover have "fold (reg h') [length h ..< length h'] (gm_map m) = gm_map m'"
    proof -
      have le: "length h \<le> length h1" "length h1 \<le> length h'" using e h'(2) by (auto simp: copied_def)
      have "reg h' x = reg h1 x" if "x \<in> set [length h ..< length h1]" for x
        using that h'(2) by (intro ext) (simp add: copied_def reg_def view_def)
      then have "gm_map m1 = fold (reg h') [length h ..< length h1] (gm_map m)"
        unfolding m1(2) by (intro fold_cong) simp_all
      then show ?thesis using h'(3) upt_add_eq_append [OF le(1), of "length h' - length h1"] le by simp
    qed
    ultimately show ?thesis
      using h' copied_step [OF p less.prems(2) c h'(2)] stack_step [OF p less.prems(2) c] by (auto simp: 2 bs)
  qed
qed

text \<open>The detached copy: the same loop on the children in the other order, without the index.\<close>

lemma detachedChildren_clone:
  "\<exists>nodes'. cloneChildren target cs h nodes stack = (fst (detachedChildren target cs h stack), nodes', snd (detachedChildren target cs h stack))"
  by (induction cs arbitrary: h nodes stack) (auto split: prod.split)

lemma detachedLoop_copies:
  assumes "pending h S bs"
  shows "\<exists>h' ds'. detachedLoop root collect h (zip (map label S) bs) ds = Some (h', ds') \<and> copied True h S bs h'"
  using assms
proof (induction "length (preorder S)" arbitrary: h S bs ds rule: less_induct)
  case less
  show ?case
  proof (cases S rule: preorder.cases)
    case 1
    then have "bs = []" using less.prems(1) by (simp add: pending_def)
    then show ?thesis using 1 copied_done by (auto simp: detachedLoop.simps [of root collect h "[]"])
  next
    case (2 a ts R)
    then obtain b bs' where bs: "bs = b # bs'" using less.prems(1) by (cases bs) (auto simp: pending_def)
    note p = less.prems(1) [unfolded 2 bs]
    have ks: "map (child_at h a) (rev [0 ..< List_Len (Some (nd_children (h ! a)))]) = turn True (map label ts)"
      using child_at_kids [of h a] p unfolding rev_map [symmetric] by (simp add: pending_def rev_map)
    obtain h1 stack1 where d: "detachedChildren b (turn True (map label ts)) h (zip (map label R) bs') = (h1, stack1)" by fastforce
    obtain nodes1 where c: "cloneChildren b (turn True (map label ts)) h (Some gm_zero) (zip (map label R) bs') = (h1, nodes1, stack1)"
      using detachedChildren_clone [of b "turn True (map label ts)" h "Some gm_zero" "zip (map label R) bs'"] unfolding d by auto
    let ?S = "rev (turn True ts) @ R" and ?bs = "rev [length h ..< length h1] @ bs'"
    have "length (preorder ?S) < length (preorder S)" by (simp add: 2)
    from less.hyps [OF this pending_step [OF p refl c]] obtain h' ds' where
      h': "detachedLoop root collect h1 (zip (map label ?S) ?bs) (if collect \<and> a \<noteq> root then ds @ [b] else ds) = Some (h', ds')"
        "copied True h1 ?S ?bs h'" by blast
    have "detachedLoop root collect h (zip (map label S) bs) ds
        = detachedLoop root collect h1 stack1 (if collect \<and> a \<noteq> root then ds @ [b] else ds)"
      using d by (subst detachedLoop.simps) (simp add: 2 bs ks del: turn_simps List_Len.simps)
    then show ?thesis
      using h' copied_step [OF p refl c h'(2)] stack_step [OF p refl c] by (auto simp: 2 bs)
  qed
qed

subsection \<open>The copies\<close>

lemma lookup_reg:
  assumes "distinct (map (\<lambda>a. nd_id (h ! a)) xs)"
  shows "fmlookup (fold (reg h) xs m) key
    = (case List.find (\<lambda>a. nd_id (h ! a) = key) xs of Some a \<Rightarrow> Some a | None \<Rightarrow> fmlookup m key)"
  using assms
proof (induction xs arbitrary: m)
  case (Cons x xs)
  have "List.find (\<lambda>a. nd_id (h ! a) = key) xs = None" if "nd_id (h ! x) = key"
    using Cons.prems that by (simp add: find_None_iff) (metis image_eqI)
  then show ?case using Cons by (auto simp: reg_def split: option.split)
qed simp

lemma cloneRoots_effect:
  assumes "\<forall>a\<in>set rs. a < length h" and "tr_roots c = Some l" and "tr_nodes c = Some m"
  shows "\<exists>h' l' m'. cloneRoots rs h c stack = (h', \<lparr>tr_nodes = Some m', tr_roots = Some l'\<rparr>, rev (zip rs [length h ..< length h']) @ stack)
    \<and> length h' = length h + length rs \<and> (\<forall>a<length h. h' ! a = h ! a)
    \<and> map (view h') [length h ..< length h'] = map (view h) rs
    \<and> (\<forall>a\<in>{length h ..< length h'}. nd_parent (h' ! a) = None \<and> kids h' a = [])
    \<and> sl (li_items l') = sl (li_items l) @ [length h ..< length h']
    \<and> gm_map m' = fold (reg h') [length h ..< length h'] (gm_map m)"
  using assms
proof (induction rs arbitrary: h c l m stack)
  case Nil
  then show ?case by (cases c) simp
next
  case (Cons r rs)
  let ?h1 = "fst (newNode h (nd_id (h ! r)) (nd_value (h ! r)))" and ?n = "length h"
  obtain m1 where m1: "Map_Set (Some m) (nd_id (?h1 ! ?n)) ?n = Some m1" "gm_map m1 = reg ?h1 ?n (gm_map m)"
    using Map_Set_map [of m "nd_id (?h1 ! ?n)" ?n] by (auto simp: reg_def)
  define c1 where "c1 = c\<lparr>tr_roots := List_Add (tr_roots c) [?n], tr_nodes := Map_Set (tr_nodes c) (nd_id (?h1 ! ?n)) ?n\<rparr>"
  obtain l1 where l1: "tr_roots c1 = Some l1" "sl (li_items l1) = sl (li_items l) @ [?n]"
    using Cons.prems(2) by (auto simp: c1_def List_invalidateSerializationCache_def)
  have step: "cloneRoots (r # rs) h c stack = cloneRoots rs ?h1 c1 ((r, ?n) # stack)"
    by (simp add: newNode_def c1_def)
  have "\<forall>a\<in>set rs. a < length ?h1" using Cons.prems(1) by (auto simp: newNode_def)
  from Cons.IH [OF this l1(1), of m1 "(r, ?n) # stack"] Cons.prems(3) m1(1)
  obtain h' l' m' where h': "cloneRoots rs ?h1 c1 ((r, ?n) # stack) = (h', \<lparr>tr_nodes = Some m', tr_roots = Some l'\<rparr>,
        rev (zip rs [length ?h1 ..< length h']) @ (r, ?n) # stack)"
      "length h' = length ?h1 + length rs" "\<forall>a<length ?h1. h' ! a = ?h1 ! a"
      "map (view h') [length ?h1 ..< length h'] = map (view ?h1) rs"
      "\<forall>a\<in>{length ?h1 ..< length h'}. nd_parent (h' ! a) = None \<and> kids h' a = []"
      "sl (li_items l') = sl (li_items l1) @ [length ?h1 ..< length h']"
      "gm_map m' = fold (reg h') [length ?h1 ..< length h'] (gm_map m1)"
    by (auto simp: c1_def)
  have len: "length ?h1 = Suc ?n" by (simp add: newNode_def)
  have new: "[?n ..< length h'] = ?n # [length ?h1 ..< length h']" using h'(2) len by (simp add: upt_rec)
  have n: "h' ! ?n = ?h1 ! ?n" using h'(3) len by simp
  have old: "h' ! a = h ! a" if "a < ?n" for a using h'(3) that len by (simp add: newNode_def nth_append)
  have at_n: "view h' ?n = view h r" "nd_parent (h' ! ?n) = None" "kids h' ?n = []"
    using n by (simp_all add: view_def newNode_def li_zero_def)
  have "map (view ?h1) rs = map (view h) rs"
    using Cons.prems(1) by (auto simp: view_def newNode_def nth_append)
  then have views: "map (view h') (?n # [length ?h1 ..< length h']) = map (view h) (r # rs)"
    using at_n(1) h'(4) by (simp only: list.map)
  have "reg h' ?n = reg ?h1 ?n" using n by (intro ext) (simp add: reg_def)
  then have regs: "gm_map m' = fold (reg h') (?n # [length ?h1 ..< length h']) (gm_map m)"
    unfolding h'(7) m1(2) by (simp only: fold_simps)
  have leaves: "nd_parent (h' ! a) = None \<and> kids h' a = []" if "a \<in> {?n ..< length h'}" for a
    using that h'(5) at_n(2,3) len by (cases "a = ?n") auto
  have roots: "sl (li_items l') = sl (li_items l) @ ?n # [length ?h1 ..< length h']" using h'(6) l1(2) by simp
  have stk: "rev (zip rs [length ?h1 ..< length h']) @ (r, ?n) # stack
      = rev (zip (r # rs) (?n # [length ?h1 ..< length h'])) @ stack" by simp
  have call: "cloneRoots (r # rs) h c stack
      = (h', \<lparr>tr_nodes = Some m', tr_roots = Some l'\<rparr>, rev (zip (r # rs) [?n ..< length h']) @ stack)"
    unfolding step h'(1) stk new ..
  have "length h' = ?n + length (r # rs)" using h'(2) len by simp
  with call old leaves views [folded new] regs [folded new] roots [folded new] show ?case by blast
qed

lemma copied_keeps:
  assumes "tree_repr h t F" and "length h \<le> length h'"
    and "\<And>a. a < length h \<Longrightarrow> view h' a = view h a \<and> nd_parent (h' ! a) = nd_parent (h ! a) \<and> kids h' a = kids h a"
  shows "tree_repr h' t F" and "relabel (view h') F = relabel (view h) F"
proof -
  note rd = reprD [OF assms(1)]
  have "agrees h' None F" by (rule agrees_cong [OF rd(1)]) (use rd(3) assms(3) in auto)
  moreover have "nd_id (h' ! a) = nd_id (h ! a)" if "a \<in> set (preorder F)" for a
    using assms(3) [OF rd(3) [OF that]] by (simp add: view_def)
  ultimately show "tree_repr h' t F"
    unfolding tree_repr_def using rd assms(2) by (auto simp del: Tree_Get.simps intro: less_le_trans)
  show "relabel (view h') F = relabel (view h) F" by (rule relabel_cong) (use rd(3) assms(3) in auto)
qed

lemma lookup_index:
  assumes "distinct (map (\<lambda>a. nd_id (h ! a)) xs)"
  shows "fmlookup (fold (reg h) xs fmempty) key = Some a \<longleftrightarrow> a \<in> set xs \<and> nd_id (h ! a) = key"
proof -
  have "List.find (\<lambda>b. nd_id (h ! b) = key) xs = Some a" if "a \<in> set xs" "nd_id (h ! a) = key"
    by (rule find_unique) (use that assms in \<open>auto simp: distinct_map dest: inj_onD\<close>)
  moreover have "a \<in> set xs \<and> nd_id (h ! a) = key" if "List.find (\<lambda>b. nd_id (h ! b) = key) xs = Some a"
    using that by (auto simp: find_Some_iff)
  ultimately show ?thesis
    unfolding lookup_reg [OF assms] by (cases "List.find (\<lambda>b. nd_id (h ! b) = key) xs") auto
qed

lemma repr_clone:
  assumes r: "tree_repr h t F" and F': "agrees h' None F'" "distinct (preorder F')" "set (preorder F') = {length h ..< length h'}"
    and rel: "relabel (view h') F' = relabel (view h) F"
    and t': "li_abs (tr_roots t') = map label F'" "tr_nodes t' = Some m" "gm_map m = fold (reg h') [length h ..< length h'] fmempty"
  shows "tree_repr h' t' F'"
proof -
  note rd = reprD [OF r]
  have "map fst (map (view h') (preorder F')) = map fst (map (view h) (preorder F))"
    using arg_cong [OF rel, of preorder] by simp
  then have "map (\<lambda>a. nd_id (h' ! a)) (preorder F') = map (\<lambda>a. nd_id (h ! a)) (preorder F)" by (simp add: view_def comp_def)
  moreover have "distinct (map (\<lambda>a. nd_id (h ! a)) (preorder F))"
    using rd(2,6) by (auto simp: distinct_map intro!: inj_onI)
  ultimately have "inj_on (\<lambda>a. nd_id (h' ! a)) {length h ..< length h'}"
    using F'(3) by (metis distinct_map)
  then have "distinct (map (\<lambda>a. nd_id (h' ! a)) [length h ..< length h'])" by (simp add: distinct_map)
  from lookup_index [OF this] F' t' show ?thesis unfolding tree_repr_def by simp
qed

lemma Tree_Clone_repr:
  fixes h :: "('k, 'v) theap"
  assumes r: "tree_repr h t F"
  shows "\<exists>h' t' F'. Tree_Clone h (Some t) = Some (h', Some t') \<and> tree_repr h' t' F' \<and> relabel (view h') F' = relabel (view h) F
    \<and> tree_repr h' t F \<and> relabel (view h') F = relabel (view h) F \<and> set (preorder F') \<inter> set (preorder F) = {}"
proof (cases "tr_nodes t = None \<or> Map_IsEmpty (tr_nodes t)")
  case True
  have "Tree_Get (Some t) key = None" for key
    using True by (auto simp: Map_IsEmpty_def)
  then have "preorder F = []" using repr_missing [OF r] by (metis list.set_intros(1) neq_Nil_conv)
  then have F: "F = []" by (cases F rule: preorder.cases) simp_all
  have "tree_repr h (the NewTree) []"
    by (simp add: tree_repr_def NewTree_def newTreeWithCapacity_def NewMapWithCapacity_def NewListWithCapacity_def
        gm_map_def li_zero_def)
  moreover have "NewTree = Some (the NewTree)" by (simp add: NewTree_def newTreeWithCapacity_def)
  ultimately show ?thesis using True r F
    by (intro exI [of _ h] exI [of _ "the NewTree"] exI [of _ "[]"]) (simp add: Tree_Clone_def)
next
  case False
  note rd = reprD [OF r]
  let ?c = "int (List_Len (tr_roots t))"
  obtain l where l: "NewListWithCapacity ?c [] = Some l" "sl (li_items l) = ([] :: ptr list)"
    by (cases "List_Len (tr_roots t) = 0") (simp_all add: NewListWithCapacity_def Let_def li_zero_def)
  define c :: "'k gtree" where "c = \<lparr>tr_nodes = NewMapWithCapacity (int (Map_Len (tr_nodes t))), tr_roots = Some l\<rparr>"
  obtain m where m: "tr_nodes c = Some m" "gm_map m = fmempty" by (simp add: c_def NewMapWithCapacity_def gm_map_def)
  have roots: "map (\<lambda>i. case List_Get (tr_roots t) (int i) of Some r \<Rightarrow> r | None \<Rightarrow> 0) [0 ..< List_Len (tr_roots t)] = map label F"
    using rd(4) by (cases "tr_roots t") (auto intro!: nth_equalityI simp: li_abs_def)
  have lt: "\<forall>a\<in>set (map label F). a < length h" using rd(3) labels_subset [of F] by blast
  obtain h1 l1 m1 where c1: "cloneRoots (map label F) h c [] = (h1, \<lparr>tr_nodes = Some m1, tr_roots = Some l1\<rparr>,
        rev (zip (map label F) [length h ..< length h1]))"
      "length h1 = length h + length F" "\<forall>a<length h. h1 ! a = h ! a" "map (view h1) [length h ..< length h1] = map (view h) (map label F)"
      "\<forall>a\<in>{length h ..< length h1}. nd_parent (h1 ! a) = None \<and> kids h1 a = []"
      "sl (li_items l1) = [length h ..< length h1]" "gm_map m1 = fold (reg h1) [length h ..< length h1] fmempty"
    using cloneRoots_effect [OF lt, of c l m "[]"] m l(2) by (auto simp: c_def)
  let ?new = "[length h ..< length h1]"
  have stk: "rev (zip (map label F) ?new) = zip (map label (rev F)) (rev ?new)" using c1(2) by (simp add: zip_rev flip: rev_map)
  have k1: "view h1 a = view h a" "kids h1 a = kids h a" "nd_parent (h1 ! a) = nd_parent (h ! a)" if "a < length h" for a
    using c1(3) that by (simp_all add: view_def)
  have "pending h1 (rev F) (rev ?new)"
  proof -
    have "linked h1 (rev F)" using linked_cong [OF agrees_linked [OF rd(1)], of h1] k1(2) rd(3) by simp
    moreover have "map (view h1) (rev ?new) = map (view h1) (map label (rev F))"
    proof -
      have "map (view h1) (map label F) = map (view h) (map label F)" using lt k1(1) by (intro map_cong) auto
      then show ?thesis using c1(4) by (simp only: rev_map [symmetric])
    qed
    moreover have "a < length h1" if "a \<in> set (preorder F)" for a using rd(3) [OF that] c1(2) by simp
    moreover have "b \<notin> set (preorder F)" if "b \<in> set ?new" for b using rd(3) [of b] that by auto
    ultimately show ?thesis using c1(5) unfolding pending_def by (intro conjI ballI) simp_all
  qed
  from cloneLoop_copies [OF this refl, of m1] obtain h2 m2 where
    h2: "cloneLoop h1 (Some m1) (zip (map label (rev F)) (rev ?new)) = Some (h2, Some m2)" "copied False h1 (rev F) (rev ?new) h2"
      "gm_map m2 = fold (reg h2) [length h1 ..< length h2] (gm_map m1)" by blast
  have le: "length h \<le> length h1" "length h1 \<le> length h2" using c1(2) h2(2) by (auto simp: copied_def)
  obtain S where S: "map label S = rev ?new" "relabel (view h2) S = relabel (view h1) (rev F)" "hangs h2 S" "distinct (preorder S)"
      "set (preorder S) = set ?new \<union> {length h1 ..< length h2}"
    using h2(2) unfolding copied_def by auto
  have k2: "view h2 a = view h1 a" "nd_parent (h2 ! a) = nd_parent (h1 ! a)" "a \<notin> set ?new \<Longrightarrow> kids h2 a = kids h1 a" if "a < length h1" for a
    using h2(2) that by (simp_all add: copied_def)
  let ?t' = "\<lparr>tr_nodes = Some m2, tr_roots = Some l1\<rparr>"
  have clone: "Tree_Clone h (Some t) = Some (h2, Some ?t')"
  proof -
    have rc: "(if tr_roots t = None then 0 else List_Len (tr_roots t)) = List_Len (tr_roots t)" by simp
    have nt: "newTreeWithCapacity (int (Map_Len (tr_nodes t))) ?c = Some c" by (simp add: newTreeWithCapacity_def c_def l(1))
    show ?thesis
      by (simp only: Tree_Clone_def option.case False if_False Let_def rc roots nt c1(1) prod.case stk gtree.simps h2(1))
  qed
  have orig: "tree_repr h2 t F" "relabel (view h2) F = relabel (view h) F"
    by (rule copied_keeps [OF r]; use le k1 k2 in auto)+
  have "relabel (view h1) F = relabel (view h) F" by (rule relabel_cong) (use rd(3) k1 in auto)
  then have rel: "relabel (view h2) (rev S) = relabel (view h) F" using S(2) by (simp flip: rev_map)
  have ag: "agrees h2 None (rev S)"
  proof -
    have "label t \<in> set ?new" if "t \<in> set S" for t using S(1) that by (metis image_eqI set_map set_rev)
    then have "nd_parent (h2 ! label t) = None" if "t \<in> set S" for t using that k2(2) c1(5) by fastforce
    then show ?thesis using S(3) unfolding agrees_hangs by (simp add: hangs_def)
  qed
  have set: "set (preorder (rev S)) = {length h ..< length h2}"
    unfolding set_preorder_rev S(5) set_upt using le by (rule ivl_disj_un_two(3))
  have "gm_map m2 = fold (reg h2) [length h ..< length h2] fmempty"
  proof -
    have "fold (reg h1) ?new fmempty = fold (reg h2) ?new fmempty"
      using k2(1) by (intro fold_cong ext) (auto simp: reg_def view_def)
    then show ?thesis using h2(3) c1(7) upt_add_eq_append [OF le(1), of "length h2 - length h1"] le by simp
  qed
  moreover have "distinct (preorder (rev S))" using S(4) mset_eq_imp_distinct_iff [OF mset_preorder_rev] by blast
  moreover have "map label (rev S) = ?new" using S(1) by (simp flip: rev_map)
  ultimately have "tree_repr h2 ?t' (rev S)"
    using repr_clone [OF r ag _ set rel, of ?t' m2] c1(6) by simp
  moreover have "set (preorder (rev S)) \<inter> set (preorder F) = {}" unfolding set using rd(3) by fastforce
  ultimately show ?thesis using clone rel orig by blast
qed

text \<open>The detached copy of a subtree is its mirror image.\<close>

lemma cloneSubtreeDetached_mirror:
  assumes r: "tree_repr h t F" and p: "(p, Rose n ts) \<in> set (places [] F)"
  shows "\<exists>h' us ds. cloneSubtreeDetachedWithDescendants h (Some n) collect = Some (h', Some (length h), ds)
    \<and> agrees h' None [Rose (length h) us] \<and> relabel (view h') [Rose (length h) us] = mirror True (relabel (view h) [Rose n ts])
    \<and> tree_repr h' t F \<and> relabel (view h') F = relabel (view h) F"
proof -
  note rd = reprD [OF r]
  let ?h1 = "fst (newNode h (nd_id (h ! n)) (nd_value (h ! n)))" and ?c = "length h"
  have pl: "kids h n = map label ts" "agrees h (Some n) ts" using agrees_place [of h "[]", OF _ p] rd(1) by auto
  have lt: "a < length h" if "a \<in> set (preorder [Rose n ts])" for a using places_inside [OF p] rd(3) that by blast
  have k1: "?h1 ! a = h ! a" if "a < length h" for a using that by (simp add: newNode_def nth_append)
  have "linked ?h1 [Rose n ts]"
    by (rule linked_cong [of h]) (use pl agrees_linked lt k1 in auto)
  then have "pending ?h1 [Rose n ts] [?c]"
    using lt by (auto simp: pending_def newNode_def view_def nth_append li_zero_def intro!: less_SucI)
  from detachedLoop_copies [OF this, of n collect "[]"] obtain h' ds where
    h': "detachedLoop n collect ?h1 [(n, ?c)] [] = Some (h', ds)" "copied True ?h1 [Rose n ts] [?c] h'" by auto
  obtain S where S: "map label S = [?c]" "relabel (view h') S = mirror True (relabel (view ?h1) [Rose n ts])" "hangs h' S"
    using conjunct2 [OF conjunct2 [OF h'(2) [unfolded copied_def]]] by (elim exE conjE) (rule that)
  have k2: "length ?h1 \<le> length h'" "\<And>a. a < length ?h1 \<Longrightarrow> view h' a = view ?h1 a \<and> nd_parent (h' ! a) = nd_parent (?h1 ! a)
      \<and> (a \<noteq> ?c \<longrightarrow> kids h' a = kids ?h1 a)"
    using h'(2) unfolding copied_def by simp_all
  obtain us where Sc: "S = [Rose ?c us]" using S(1) by (cases S; cases "hd S") auto
  have len: "length ?h1 = Suc ?c" by (simp add: newNode_def)
  have "nd_parent (h' ! ?c) = None" using k2(2) [of ?c] len by (simp add: newNode_def)
  then have "agrees h' None S" using S(3) unfolding agrees_hangs by (simp add: Sc)
  moreover have "view h' a = view h a \<and> nd_parent (h' ! a) = nd_parent (h ! a) \<and> kids h' a = kids h a" if "a < length h" for a
    using k2(2) [of a] k1 [OF that] that len by (simp add: view_def)
  then have "tree_repr h' t F" "relabel (view h') F = relabel (view h) F"
    using copied_keeps [OF r, of h'] k2(1) len by auto
  moreover have "relabel (view ?h1) [Rose n ts] = relabel (view h) [Rose n ts]"
    by (rule relabel_cong) (use lt k1 in \<open>auto simp: view_def\<close>)
  then have "relabel (view h') S = mirror True (relabel (view h) [Rose n ts])" unfolding S(2) by (rule arg_cong)
  moreover have "cloneSubtreeDetachedWithDescendants h (Some n) collect = Some (h', Some ?c, ds)"
    using h'(1) by (simp add: cloneSubtreeDetachedWithDescendants_def newNode_def)
  ultimately show ?thesis unfolding Sc by blast
qed

end
