(* ===== verification/Tree_History.thy ===== *)
theory Tree_History
  imports Tree_Copy
begin

text \<open>
  Histories of calls on a tree. A node that a call returns is read through its pointer: the id and the
  value it shows. \<open>TrStuck\<close> is a call that does not return, so the refinement of the forest, whose
  calls all return, says that every call of the tree does. \<open>TrClone\<close> goes on with the clone.
\<close>

subsection \<open>Queries\<close>

lemma Tree_Len_forest:
  assumes "tree_repr h t F"
  shows "Tree_Len (Some t) = length (preorder F)"
proof -
  note rd = reprD [OF assms]
  let ?f = "\<lambda>a. nd_id (h ! a)"
  have inj: "inj_on ?f (set (preorder F))" using rd(6) by (auto intro!: inj_onI)
  show ?thesis
  proof (cases "tr_nodes t")
    case None
    then have "preorder F = []" using repr_missing [OF assms, of _ "hd (preorder F)"] by (cases "preorder F") auto
    with None show ?thesis by simp
  next
    case (Some m)
    have "fmdom' (gm_map m) = ?f ` set (preorder F)"
      using rd(5) Some by (auto simp: fmlookup_dom'_iff)
    then have "fm_size (gm_map m) = card (?f ` set (preorder F))" by (simp add: fm_size_card)
    also have "\<dots> = length (preorder F)" using inj rd(2) by (simp add: card_image distinct_card)
    finally show ?thesis using Some by simp
  qed
qed

lemma Tree_Roots_forest: "tree_repr h t F \<Longrightarrow> Tree_Roots (Some t) = map label F"
  using reprD(4) [of h t F] by (cases "tr_roots t") (auto simp: li_abs_def)

lemma Tree_Children_spot:
  assumes "tree_repr h t F"
  shows "map (view h) (Tree_Children h (Some t) key)
    = (case spot key (relabel (view h) F) of None \<Rightarrow> [] | Some (_, u) \<Rightarrow> map label (subs u))"
proof (cases "Tree_Get (Some t) key")
  case None
  then show ?thesis using spot_missing [OF assms None] by (simp add: Tree_Children_def del: Tree_Get.simps)
next
  case (Some n)
  from spot_found [OF assms Some] obtain p ts where p: "(p, Rose n ts) \<in> set (places [] F)"
    "spot key (relabel (view h) F) = Some (map (view h) p, map_rose (view h) (Rose n ts))" by blast
  have "kids h n = map label ts" using agrees_place [of h "[]", OF _ p(1)] reprD(1) [OF assms] by simp
  then show ?thesis using Some p(2) by (auto simp: Tree_Children_def rose.map_sel simp del: Tree_Get.simps)
qed

lemma Tree_Parent_spot:
  assumes "tree_repr h t F"
  shows "map_option (view h) (Tree_Parent h (Some t) key)
    = (case spot key (relabel (view h) F) of None \<Rightarrow> None | Some (p, _) \<Rightarrow> first p)"
proof (cases "Tree_Get (Some t) key")
  case None
  then show ?thesis using spot_missing [OF assms None] by (simp add: Tree_Parent_def del: Tree_Get.simps)
next
  case (Some n)
  from spot_found [OF assms Some] obtain p ts where p: "(p, Rose n ts) \<in> set (places [] F)"
    "spot key (relabel (view h) F) = Some (map (view h) p, map_rose (view h) (Rose n ts))" by blast
  have "nd_parent (h ! n) = first p" using agrees_place [of h "[]", OF _ p(1)] reprD(1) [OF assms] by simp
  then show ?thesis using Some p(2) by (cases p) (auto simp: Tree_Parent_def simp del: Tree_Get.simps)
qed

lemma Tree_Get_spot:
  assumes "tree_repr h t F"
  shows "map_option (view h) (Tree_Get (Some t) key) = map_option (\<lambda>(_, u). label u) (spot key (relabel (view h) F))"
proof (cases "Tree_Get (Some t) key")
  case None
  then show ?thesis using spot_missing [OF assms None] by (simp del: Tree_Get.simps)
next
  case (Some n)
  from spot_found [OF assms Some] show ?thesis unfolding Some by (metis (mono_tags, lifting) case_prod_conv option.simps(9) rose.map_sel(1) rose.sel(1))
qed

lemma Tree_Ancestors_spot:
  assumes "tree_repr h t F"
  shows "map_option (map (view h)) (Tree_Ancestors h (Some t) key)
    = Some (case spot key (relabel (view h) F) of None \<Rightarrow> [] | Some (p, _) \<Rightarrow> p)"
proof (cases "Tree_Get (Some t) key")
  case None
  then show ?thesis using spot_missing [OF assms None] by (simp add: Tree_Ancestors_def del: Tree_Get.simps)
next
  case (Some n)
  from spot_found [OF assms Some] obtain p ts where p: "(p, Rose n ts) \<in> set (places [] F)"
    "spot key (relabel (view h) F) = Some (map (view h) p, map_rose (view h) (Rose n ts))" by blast
  note rd = reprD(1) [OF assms]
  have "nd_parent (h ! n) = first p" using agrees_place [of h "[]", OF _ p(1)] rd by simp
  then show ?thesis using Some p(2) parents_of_place(1,2) [OF rd p(1)] by (simp add: Tree_Ancestors_def del: Tree_Get.simps)
qed

lemma Tree_Descendants_spot:
  assumes "tree_repr h t F"
  shows "map_option (map (view h)) (Tree_Descendants h (Some t) key)
    = Some (case spot key (relabel (view h) F) of None \<Rightarrow> [] | Some (_, u) \<Rightarrow> preorder (subs u))"
proof (cases "Tree_Get (Some t) key")
  case None
  then show ?thesis using spot_missing [OF assms None] by (simp add: Tree_Descendants_def del: Tree_Get.simps)
next
  case (Some n)
  from spot_found [OF assms Some] obtain p ts where p: "(p, Rose n ts) \<in> set (places [] F)"
    "spot key (relabel (view h) F) = Some (map (view h) p, map_rose (view h) (Rose n ts))" by blast
  have k: "kids h n = map label ts" "agrees h (Some n) ts" using agrees_place [of h "[]", OF _ p(1)] reprD(1) [OF assms] by auto
  have "descendantsLoop h (map label ts) [] = Some (preorder ts)"
    using descendantsLoop_forest [OF k(2), of "[]" "[]"] by (simp add: descendantsLoop.simps [of h "[]"])
  then show ?thesis using Some p(2) k(1) by (cases "ts = []") (simp_all add: Tree_Descendants_def del: Tree_Get.simps)
qed

lemma toJSONNode_forest:
  "agrees h par F \<Longrightarrow> length (preorder F) \<le> fuel
   \<Longrightarrow> those (map (toJSONNode fuel h) (map label F)) = Some (relabel (view h) F)"
proof (induction F arbitrary: par fuel rule: forest_induct)
  case (Rose a ts us)
  then obtain f where f: "fuel = Suc f" by (cases fuel) auto
  have k: "kids h a = map label ts" using Rose.prems by simp
  have sub: "those (map (toJSONNode f h) (map label ts)) = Some (relabel (view h) ts)"
    using Rose.IH(1) [of "Some a" f] Rose.prems by (simp add: f)
  have "map (\<lambda>i. toJSONNode f h (child_at h a i)) [0 ..< List_Len (Some (nd_children (h ! a)))] = map (toJSONNode f h) (map label ts)"
    using arg_cong [OF child_at_kids [of h a], of "map (toJSONNode f h)"] k by (simp add: comp_def)
  then have "toJSONNode fuel h a = Some (Rose (view h a) (relabel (view h) ts))"
    using sub k by (cases ts) (auto simp: f view_def)
  moreover have "those (map (toJSONNode fuel h) (map label us)) = Some (relabel (view h) us)"
    using Rose.IH(2) [of par fuel] Rose.prems by simp
  ultimately show ?case by simp
qed simp

lemma Tree_toJSONNodes_forest:
  assumes "tree_repr h t F"
  shows "Tree_toJSONNodes (length h) h (Some t) = Some (if F = [] then None else Some (relabel (view h) F))"
proof -
  note rd = reprD [OF assms]
  have "length (preorder F) \<le> card {..< length h}"
    unfolding distinct_card [OF rd(2), symmetric] using rd(3) by (intro card_mono) auto
  then have json: "those (map (toJSONNode (length h) h) (map label F)) = Some (relabel (view h) F)"
    using toJSONNode_forest [OF rd(1)] by simp
  have "map (\<lambda>i. case List_Get (tr_roots t) (int i) of None \<Rightarrow> None | Some r \<Rightarrow> toJSONNode (length h) h r) [0 ..< List_Len (tr_roots t)]
      = map (toJSONNode (length h) h) (map label F)"
    using rd(4) by (cases "tr_roots t") (auto intro!: nth_equalityI simp: li_abs_def)
  moreover have "Tree_IsEmpty (Some t) \<longleftrightarrow> F = []"
    using Tree_Len_forest [OF assms] by (cases F rule: preorder.cases) (simp_all add: Tree_IsEmpty_def del: Tree_Len.simps)
  ultimately show ?thesis using json by (simp add: Tree_toJSONNodes_def)
qed

subsection \<open>Histories\<close>

datatype (dead 'k, dead 'v, dead 'st) tr_op =
    TrAddRoot 'k 'v | TrAddChild 'k 'k 'v | TrMove 'k 'k | TrRemove 'k | TrSetValue 'k 'v | TrClear | TrClone
  | TrGet 'k | TrParent 'k | TrChildren 'k | TrRoots | TrAncestors 'k | TrDescendants 'k
  | TrRangeDFS "'st \<Rightarrow> 'k \<times> 'v \<Rightarrow> 'st \<times> bool" 'st | TrLen | TrIsEmpty | TrToJSON

datatype (dead 'k, dead 'v, dead 'st) tr_res =
    TrUnit | TrErr "tree_error option" | TrBool bool | TrNode "('k \<times> 'v) option" | TrNodes "('k \<times> 'v) list"
  | TrState 'st | TrNat nat | TrBytes "string + bytes" | TrStuck

text \<open>A call that may not return.\<close>

definition tr_call :: "('a \<Rightarrow> ('k, 'v) tstate \<times> ('k, 'v, 'st) tr_res) \<Rightarrow> ('k, 'v) tstate \<Rightarrow> 'a option
    \<Rightarrow> ('k, 'v) tstate \<times> ('k, 'v, 'st) tr_res" where
  "tr_call f s r = (case r of None \<Rightarrow> (s, TrStuck) | Some x \<Rightarrow> f x)"

lemma tr_call_Some [simp]: "tr_call f s (Some x) = f x"
  by (simp add: tr_call_def)

primrec tr_step ::
    "('k, 'v) jsonNode slice json_marshal \<Rightarrow> ('k, 'v, 'st) tr_op \<Rightarrow> ('k, 'v) tstate
     \<Rightarrow> ('k, 'v) tstate \<times> ('k, 'v, 'st) tr_res" where
  "tr_step marshal (TrAddRoot key v) s = map_prod id TrErr (Tree_AddRoot s key v)"
| "tr_step marshal (TrAddChild parentID key v) s = map_prod id TrErr (Tree_AddChild s parentID key v)"
| "tr_step marshal (TrMove key parentID) s = tr_call (map_prod id TrErr) s (Tree_Move s key parentID)"
| "tr_step marshal (TrRemove key) s = tr_call (map_prod id TrBool) s (Tree_Remove s key)"
| "tr_step marshal (TrSetValue key v) s = map_prod id TrBool (Tree_SetValue s key v)"
| "tr_step marshal TrClear s = (Tree_Clear s, TrUnit)"
| "tr_step marshal TrClone s = tr_call (\<lambda>s'. (s', TrUnit)) s (Tree_Clone (fst s) (snd s))"
| "tr_step marshal (TrGet key) s = (s, TrNode (map_option (view (fst s)) (Tree_Get (snd s) key)))"
| "tr_step marshal (TrParent key) s = (s, TrNode (map_option (view (fst s)) (Tree_Parent (fst s) (snd s) key)))"
| "tr_step marshal (TrChildren key) s = (s, TrNodes (map (view (fst s)) (Tree_Children (fst s) (snd s) key)))"
| "tr_step marshal TrRoots s = (s, TrNodes (map (view (fst s)) (Tree_Roots (snd s))))"
| "tr_step marshal (TrAncestors key) s =
     tr_call (\<lambda>ns. (s, TrNodes (map (view (fst s)) ns))) s (Tree_Ancestors (fst s) (snd s) key)"
| "tr_step marshal (TrDescendants key) s =
     tr_call (\<lambda>ns. (s, TrNodes (map (view (fst s)) ns))) s (Tree_Descendants (fst s) (snd s) key)"
| "tr_step marshal (TrRangeDFS fn st) s =
     tr_call (\<lambda>st'. (s, TrState st')) s
       (Tree_RangeDFS (fst s) (snd s) (Some (\<lambda>st n. fn st (nd_id n, nd_value n))) st)"
| "tr_step marshal TrLen s = (s, TrNat (Tree_Len (snd s)))"
| "tr_step marshal TrIsEmpty s = (s, TrBool (Tree_IsEmpty (snd s)))"
| "tr_step marshal TrToJSON s =
     tr_call (\<lambda>r. (s, TrBytes r)) s (Tree_ToJSON marshal (length (fst s)) (fst s) (snd s))"

primrec tr_spec ::
    "('k, 'v) jsonNode slice json_marshal \<Rightarrow> ('k, 'v, 'st) tr_op \<Rightarrow> ('k \<times> 'v) forest
     \<Rightarrow> ('k \<times> 'v) forest \<times> ('k, 'v, 'st) tr_res" where
  "tr_spec marshal (TrAddRoot key v) G =
     (if spot key G = None then (G @ [Rose (key, v) []], TrErr None) else (G, TrErr (Some ErrNodeAlreadyExists)))"
| "tr_spec marshal (TrAddChild parentID key v) G =
     (if spot key G \<noteq> None then (G, TrErr (Some ErrNodeAlreadyExists))
      else if spot parentID G = None then (G, TrErr (Some ErrParentNotFound))
      else (graft (at parentID) (Rose (key, v) []) G, TrErr None))"
| "tr_spec marshal (TrMove key parentID) G =
     (case spot key G of
        None \<Rightarrow> (G, TrErr (Some ErrNodeNotFound))
      | Some (_, t) \<Rightarrow>
          (case spot parentID G of
             None \<Rightarrow> (G, TrErr (Some ErrParentNotFound))
           | Some (p, u) \<Rightarrow>
               if key \<in> fst ` set (label u # p) then (G, TrErr (Some ErrCycleDetected))
               else (graft (at parentID) t (prune (at key) G), TrErr None)))"
| "tr_spec marshal (TrRemove key) G = (prune (at key) G, TrBool (spot key G \<noteq> None))"
| "tr_spec marshal (TrSetValue key v) G =
     (relabel (\<lambda>x. if at key x then (key, v) else x) G, TrBool (spot key G \<noteq> None))"
| "tr_spec marshal TrClear G = ([], TrUnit)"
| "tr_spec marshal TrClone G = (G, TrUnit)"
| "tr_spec marshal (TrGet key) G = (G, TrNode (map_option (\<lambda>(_, t). label t) (spot key G)))"
| "tr_spec marshal (TrParent key) G = (G, TrNode (case spot key G of None \<Rightarrow> None | Some (p, _) \<Rightarrow> first p))"
| "tr_spec marshal (TrChildren key) G = (G, TrNodes (case spot key G of None \<Rightarrow> [] | Some (_, t) \<Rightarrow> map label (subs t)))"
| "tr_spec marshal TrRoots G = (G, TrNodes (map label G))"
| "tr_spec marshal (TrAncestors key) G = (G, TrNodes (case spot key G of None \<Rightarrow> [] | Some (p, _) \<Rightarrow> p))"
| "tr_spec marshal (TrDescendants key) G =
     (G, TrNodes (case spot key G of None \<Rightarrow> [] | Some (_, t) \<Rightarrow> preorder (subs t)))"
| "tr_spec marshal (TrRangeDFS fn st) G = (G, TrState (range_until fn st (preorder G)))"
| "tr_spec marshal TrLen G = (G, TrNat (length (preorder G)))"
| "tr_spec marshal TrIsEmpty G = (G, TrBool (G = []))"
| "tr_spec marshal TrToJSON G =
     (G, TrBytes (marshalTreeJSON marshal ''tree'' (if G = [] then None else Some G)))"

lemma map_option_Some_eq: "map_option f x = Some y \<Longrightarrow> \<exists>z. x = Some z \<and> f z = y"
  by auto

lemma range_until_map: "range_until (\<lambda>st a. fn st (f a)) st xs = range_until fn st (map f xs)"
  by (induction xs arbitrary: st) (auto split: prod.split)

lemma tr_query_sim:
  assumes r: "tree_repr h t F" and q: "c \<in> {TrGet key, TrParent key, TrChildren key, TrRoots, TrAncestors key,
      TrDescendants key, TrRangeDFS fn st, TrLen, TrIsEmpty, TrToJSON}"
  shows "tr_step marshal c (h, Some t) = ((h, Some t), snd (tr_spec marshal c (relabel (view h) F)))
    \<and> fst (tr_spec marshal c (relabel (view h) F)) = relabel (view h) F"
proof -
  have empty: "Tree_IsEmpty (Some t) \<longleftrightarrow> F = []"
    using Tree_Len_forest [OF r] by (cases F rule: preorder.cases) (simp_all add: Tree_IsEmpty_def del: Tree_Len.simps)
  have dfs: "Tree_RangeDFS h (Some t) (Some (\<lambda>st n. fn st (nd_id n, nd_value n))) st
      = Some (range_until fn st (map (view h) (preorder F)))"
    using rangeDFSRoots_forest [OF reprD(1) [OF r], of "\<lambda>st n. fn st (nd_id n, nd_value n)" st]
    unfolding Tree_RangeDFS_def Tree_Roots_forest [OF r] range_until_map [symmetric] view_def by simp
  show ?thesis
    using q map_option_Some_eq [OF Tree_Ancestors_spot [OF r, of key]] map_option_Some_eq [OF Tree_Descendants_spot [OF r, of key]]
    by (auto simp: Tree_Get_spot [OF r] Tree_Parent_spot [OF r] Tree_Children_spot [OF r] Tree_Roots_forest [OF r] Tree_Len_forest [OF r]
        empty dfs Tree_ToJSON_def Tree_toJSONNodes_forest [OF r] rose.map_sel simp del: Tree_Get.simps Tree_Roots.simps Tree_Len.simps)
qed

lemma tr_step_sim:
  assumes "tree_rel s G"
  shows "snd (tr_step marshal c s) = snd (tr_spec marshal c G) \<and> tree_rel (fst (tr_step marshal c s)) (fst (tr_spec marshal c G))"
proof -
  obtain h t F where s: "s = (h, Some t)" and r: "tree_repr h t F" and G: "G = relabel (view h) F"
    using assms by (cases s) (auto simp: tree_rel_def)
  note query = tr_query_sim [OF r, of c, folded G]
  show ?thesis
  proof (cases c)
    case (TrAddRoot key v)
    then show ?thesis using Tree_AddRoot_rel [OF assms, of key v] by (auto split: if_splits)
  next
    case (TrAddChild parentID key v)
    then show ?thesis using Tree_AddChild_rel [OF assms, of parentID key v] by (auto split: if_splits)
  next
    case (TrMove key parentID)
    then show ?thesis using Tree_Move_rel [OF assms, of key parentID] by (auto split: if_splits option.splits prod.splits)
  next
    case (TrRemove key)
    then show ?thesis using Tree_Remove_rel [OF assms, of key] by auto
  next
    case (TrSetValue key v)
    then show ?thesis using Tree_SetValue_rel [OF assms, of key v] by auto
  next
    case TrClear
    then show ?thesis using Tree_Clear_rel [OF assms] by simp
  next
    case TrClone
    from Tree_Clone_repr [OF r] obtain h' t' F' where "Tree_Clone h (Some t) = Some (h', Some t')" "tree_repr h' t' F'"
      "G = relabel (view h') F'" unfolding G by metis
    then show ?thesis by (auto simp: TrClone s tree_rel_def)
  qed (use query assms in \<open>simp_all add: s\<close>)
qed

interpretation tr_sim: simulation "tr_step marshal" tree_rel "tr_spec marshal"
  by unfold_locales (use tr_step_sim in blast)+

definition tree_zero :: "'k gtree" where
  "tree_zero = \<lparr>tr_nodes = None, tr_roots = None\<rparr>"

lemma tree_rel_zero: "tree_rel (h, Some tree_zero) []"
  by (simp add: tree_rel_def tree_repr_def tree_zero_def li_abs_def)

text \<open>
  C14. Over any history of calls a Tree whose zero value was just declared is an ordered forest: every
  call returns and answers as the forest does. An id is added once and under a parent that exists; a
  move takes the node with its whole subtree to the end of the new parent's children, unless the new
  parent is the node or below it; a removal takes the node and everything below it; the parent, the
  children, the ancestors from the nearest up, the descendants and the traversal (depth first, until
  the callback stops it) are those of the forest, and so is the JSON; a clone is the same forest.
\<close>

theorem tree_refines_forest:
  "snd (run (tr_step marshal) cs (h, Some tree_zero)) = snd (run (tr_spec marshal) cs [])"
  by (rule tr_sim.run_results [OF tree_rel_zero])

text \<open>
  C40. The links of the nodes are those of a forest after any history: a node that an id finds has that
  id; it is once among the children of its parent, or once among the roots when it has none; and its
  parents end at a root without meeting a node twice.
\<close>

theorem tree_links_sound:
  assumes "fst (run (tr_step marshal) cs (h0, Some tree_zero)) = (h, Some t)" and "Tree_Get (Some t) key = Some n"
  shows "nd_id (h ! n) = key
    \<and> count_list (case nd_parent (h ! n) of None \<Rightarrow> Tree_Roots (Some t) | Some b \<Rightarrow> Node_Children h (Some b)) n = 1
    \<and> (\<exists>ps. parentChain h (Some n) [] = Some ps \<and> distinct ps)"
proof -
  have "tree_rel (h, Some t) (fst (run (tr_spec marshal) cs []))"
    using tr_sim.run_related [OF tree_rel_zero, of marshal cs h0] assms(1) by simp
  then obtain F where r: "tree_repr h t F" by (auto simp: tree_rel_def)
  note rd = reprD [OF r]
  have n: "n \<in> set (preorder F)" "nd_id (h ! n) = key" using rd(5) assms(2) by auto
  obtain p ts where p: "(p, Rose n ts) \<in> set (places [] F)" using place_of [OF n(1)] by blast
  have up: "nd_parent (h ! n) = first p" using agrees_place [of h "[]", OF _ p] rd(1) by simp
  have chain: "parentChain h (Some n) [] = Some (n # p)"
    using parents_of_place(2) [OF rd(1) p, of "[n]"] up by (simp add: parentChain.simps [of h "Some n"])
  have "distinct (n # p)" using places_distinct [OF p] rd(2) by simp
  moreover have "count_list (case nd_parent (h ! n) of None \<Rightarrow> Tree_Roots (Some t) | Some b \<Rightarrow> Node_Children h (Some b)) n = 1"
  proof (cases p)
    case Nil
    then have "n \<in> set (map label F)" using places_root [OF p [unfolded Nil]] by force
    then show ?thesis using up Nil labels_distinct [OF rd(2)] by (simp add: Tree_Roots_forest [OF r] count_list_distinct del: Tree_Roots.simps)
  next
    case (Cons b q)
    obtain us where b: "(q, Rose b us) \<in> set (places [] F)" "n \<in> set (map label us)" using places_child [OF p [unfolded Cons]] by force
    have "kids h b = map label us" using agrees_place [of h "[]", OF _ b(1)] rd(1) by simp
    moreover have "distinct (map label us)" using labels_distinct prune_parts(1) [OF b(1) rd(2)] by fastforce
    ultimately show ?thesis using up Cons b(2) by (auto simp: count_list_distinct)
  qed
  ultimately show ?thesis using n(2) chain by blast
qed

definition sample_ops :: "(nat, nat, unit) tr_op list" where
  "sample_ops = [TrAddRoot 1 10, TrAddRoot 2 20, TrAddChild 1 3 30, TrMove 1 2, TrMove 2 3]"

lemma sample_forest:
  "run (tr_spec (\<lambda>_. Inr [])) sample_ops []
   = ([Rose (2, 20) [Rose (1, 10) [Rose (3, 30) []]]], [TrErr None, TrErr None, TrErr None, TrErr None, TrErr (Some ErrCycleDetected)])"
  by (simp add: sample_ops_def spot_def)

theorem tree_links_sound_witness:
  "\<exists>h t n. fst (run (tr_step (\<lambda>_. Inr [])) sample_ops ([], Some tree_zero)) = (h, Some t) \<and> Tree_Get (Some t) 3 = Some n
    \<and> nd_id (h ! n) = 3 \<and> (\<exists>ps. parentChain h (Some n) [] = Some ps \<and> distinct ps)"
proof -
  let ?s = "fst (run (tr_step (\<lambda>_. Inr [])) sample_ops ([], Some tree_zero))"
  have rel: "tree_rel ?s [Rose (2, 20) [Rose (1, 10) [Rose (3, 30) []]]]"
    using tr_sim.run_related [OF tree_rel_zero, of "\<lambda>_. Inr []" sample_ops "[]"] by (simp add: sample_forest)
  then obtain h t F where s: "?s = (h, Some t)" and r: "tree_repr h t F"
    and G: "[Rose (2, 20) [Rose (1, 10) [Rose (3, 30) []]]] = relabel (view h) F"
    by (cases ?s) (auto simp: tree_rel_def)
  have "spot 3 [Rose (2 :: nat, 20 :: nat) [Rose (1, 10) [Rose (3, 30) []]]] \<noteq> None" by (simp add: spot_def)
  then obtain n where n: "Tree_Get (Some t) 3 = Some n" using spot_has [OF r, of 3] unfolding G by auto
  from tree_links_sound [OF s n] s n show ?thesis by blast
qed

end
