(* ===== verification/Sql_Scan.thy ===== *)
theory Sql_Scan
  imports Go_Strings
begin

text \<open>
  \<^verbatim>\<open>dbx/sqltmplx/scan\<close>: the scanner that splits an SQL template into text and directive comments. A
  \<open>collectionx.List\<close> is represented by its items, as its own theory justifies. Shown: the tokens cover
  the template chunk by chunk, text verbatim and in maximal pieces; and scanning the printed tokens
  gives them back.
\<close>

datatype token_kind = Text | Directive | OtherKind int

record token =
  Kind :: token_kind
  Value :: string

definition Token :: "token_kind \<Rightarrow> string \<Rightarrow> token" where
  "Token k v = \<lparr>Kind = k, Value = v\<rparr>"

lemma Token_sel [simp]: "Kind (Token k v) = k" "Value (Token k v) = v"
  "Token k v = Token k' v' \<longleftrightarrow> k = k' \<and> v = v'"
  by (simp_all add: Token_def)

definition isTemplateDirective :: "string \<Rightarrow> bool" where
  "isTemplateDirective s0 =
     (let s = TrimSpace s0
      in if \<not> HasPrefix s ''%'' then False
         else let s = TrimSpace (TrimPrefix s ''%'')
              in s = ''where'' \<or> s = ''set'' \<or> s = ''end'' \<or> HasPrefix s ''if '')"

definition flushText :: "string \<Rightarrow> token list \<Rightarrow> token list" where
  "flushText textBuf tokens = (if textBuf = [] then tokens else tokens @ [Token Text textBuf])"

function scanLoop :: "string \<Rightarrow> string \<Rightarrow> token list \<Rightarrow> string + token list" where
  "scanLoop input textBuf tokens =
     (if input = [] then Inr (flushText textBuf tokens)
      else case go_index input ''/*'' of
        None \<Rightarrow> Inr (flushText (textBuf @ input) tokens)
      | Some start \<Rightarrow>
         (case go_index (drop (start + 2) input) ''*/'' of
            None \<Rightarrow> Inl ''sqltmplx: unterminated directive comment''
          | Some stop \<Rightarrow>
             let rawBody = take stop (drop (start + 2) input);
                 raw = TrimSpace rawBody;
                 fullComment = ''/*'' @ rawBody @ ''*/'';
                 rest = drop (stop + 2) (drop (start + 2) input)
             in if isTemplateDirective raw
                then scanLoop rest [] (flushText (textBuf @ take start input) tokens @ [Token Directive raw])
                else scanLoop rest (textBuf @ take start input @ fullComment) tokens))"
  by pat_completeness auto
termination by (relation "measure (\<lambda>(i, b, t). length i)") auto

declare scanLoop.simps [simp del]

definition ScanList :: "string \<Rightarrow> string + token list" where
  "ScanList input = scanLoop input [] []"

definition Scan :: "string \<Rightarrow> string + token list" where
  "Scan input = (case ScanList input of Inl err \<Rightarrow> Inl err | Inr tokens \<Rightarrow> Inr tokens)"

subsection \<open>Coverage\<close>

text \<open>The chunk of the template a token stands for.\<close>

definition covers :: "token \<Rightarrow> string \<Rightarrow> bool" where
  "covers t chunk \<longleftrightarrow>
     (Kind t = Text \<and> Value t \<noteq> [] \<and> chunk = Value t) \<or>
     (Kind t = Directive \<and> isTemplateDirective (Value t)
        \<and> (\<exists>body. chunk = ''/*'' @ body @ ''*/'' \<and> Value t = TrimSpace body \<and> go_index body ''*/'' = None))"

text \<open>Text comes in maximal pieces.\<close>

fun no_adjacent_text :: "token list \<Rightarrow> bool" where
  "no_adjacent_text (s # t # ts) \<longleftrightarrow> \<not> (Kind s = Text \<and> Kind t = Text) \<and> no_adjacent_text (t # ts)"
| "no_adjacent_text ts \<longleftrightarrow> True"

lemma scanLoop_plain: "go_index input ''/*'' = None \<Longrightarrow> scanLoop input buf toks = Inr (flushText (buf @ input) toks)"
  by (subst scanLoop.simps) simp

lemma scanLoop_Some:
  assumes "go_index input ''/*'' = Some start"
  shows "scanLoop input buf toks =
     (case go_index (drop (start + 2) input) ''*/'' of
        None \<Rightarrow> Inl ''sqltmplx: unterminated directive comment''
      | Some stop \<Rightarrow>
         let body = take stop (drop (start + 2) input);
             rest = drop (stop + 2) (drop (start + 2) input)
         in if isTemplateDirective (TrimSpace body)
            then scanLoop rest [] (flushText (buf @ take start input) toks @ [Token Directive (TrimSpace body)])
            else scanLoop rest (buf @ take start input @ ''/*'' @ body @ ''*/'') toks)"
proof -
  have "input \<noteq> []" using assms by auto
  then show ?thesis by (subst scanLoop.simps) (simp only: assms Let_def if_False option.case)
qed

text \<open>One turn of the loop: no comment left, a comment that is text, or a directive.\<close>

lemma scanLoop_cases:
  assumes "scanLoop input buf toks = Inr ts"
  obtains (plain) "go_index input ''/*'' = None" "ts = flushText (buf @ input) toks"
  | (remark) pre body rest where "input = pre @ ''/*'' @ body @ ''*/'' @ rest" "go_index input ''/*'' = Some (length pre)"
      "go_index (body @ ''*/'' @ rest) ''*/'' = Some (length body)" "\<not> isTemplateDirective (TrimSpace body)"
      "scanLoop rest (buf @ pre @ ''/*'' @ body @ ''*/'') toks = Inr ts"
  | (block) pre body rest where "input = pre @ ''/*'' @ body @ ''*/'' @ rest" "go_index input ''/*'' = Some (length pre)"
      "go_index (body @ ''*/'' @ rest) ''*/'' = Some (length body)" "isTemplateDirective (TrimSpace body)"
      "scanLoop rest [] (flushText (buf @ pre) toks @ [Token Directive (TrimSpace body)]) = Inr ts"
proof (cases "go_index input ''/*''")
  case None
  have "scanLoop input buf toks = Inr (flushText (buf @ input) toks)"
    using None by (rule scanLoop_plain)
  then show ?thesis using assms plain [OF None] by simp
next
  case (Some start)
  note pre = go_index_Some [OF Some]
  define tail where "tail = drop (start + 2) input"
  have input: "input = take start input @ ''/*'' @ tail" using pre(1) by (simp add: tail_def)
  then have ne: "input \<noteq> []" by auto
  have start: "start = length (take start input)" using pre(2) by simp
  show ?thesis
  proof (cases "go_index tail ''*/''")
    case None
    then show ?thesis using assms \<open>go_index input ''/*'' = Some start\<close> by (simp add: scanLoop_Some tail_def)
  next
    case (Some stop)
    note body = go_index_Some [OF Some]
    define b r where "b = take stop tail" and "r = drop (stop + 2) tail"
    have tail: "tail = b @ ''*/'' @ r" using body(1) by (simp add: b_def r_def)
    have stop: "stop = length b" using body(2) by (simp add: b_def)
    have full: "input = take start input @ ''/*'' @ b @ ''*/'' @ r" using input tail by simp
    have loop: "scanLoop input buf toks =
        (if isTemplateDirective (TrimSpace b)
         then scanLoop r [] (flushText (buf @ take start input) toks @ [Token Directive (TrimSpace b)])
         else scanLoop r (buf @ take start input @ ''/*'' @ b @ ''*/'') toks)"
      unfolding scanLoop_Some [OF \<open>go_index input ''/*'' = Some start\<close>] tail_def [symmetric] Some option.case
        Let_def b_def [symmetric] r_def [symmetric] by (rule refl)
    have first: "go_index input ''/*'' = Some (length (take start input))"
      using \<open>go_index input ''/*'' = Some start\<close> start by simp
    have second: "go_index (b @ ''*/'' @ r) ''*/'' = Some (length b)" using Some tail stop by simp
    show ?thesis
    proof (cases "isTemplateDirective (TrimSpace b)")
      case True
      show ?thesis by (rule block [OF full first second True]) (use loop True assms in simp)
    next
      case False
      show ?thesis by (rule remark [OF full first second False]) (use loop False assms in simp)
    qed
  qed
qed

lemma no_adjacent_text_directive [simp]: "no_adjacent_text (Token Directive v # ts) \<longleftrightarrow> no_adjacent_text ts"
  by (cases ts) simp_all

lemma flushText_covers:
  "\<exists>new chunks. flushText buf toks = toks @ new \<and> list_all2 covers new chunks \<and> buf = concat chunks
     \<and> (new = [] \<or> new = [Token Text buf])"
proof (cases "buf = []")
  case True
  then show ?thesis by (intro exI [of _ "[]"]) (simp add: flushText_def)
next
  case False
  then show ?thesis
    by (intro exI [of _ "[Token Text buf]"] exI [of _ "[buf]"]) (simp add: flushText_def covers_def)
qed

lemma scanLoop_covers:
  assumes "scanLoop input buf toks = Inr ts"
  shows "\<exists>new chunks. ts = toks @ new \<and> list_all2 covers new chunks \<and> buf @ input = concat chunks
    \<and> no_adjacent_text new"
  using assms
proof (induction "length input" arbitrary: input buf toks rule: less_induct)
  case less
  from less.prems show ?case
  proof (cases rule: scanLoop_cases)
    case plain
    obtain new chunks where "ts = toks @ new" "list_all2 covers new chunks" "buf @ input = concat chunks"
        "new = [] \<or> new = [Token Text (buf @ input)]"
      using flushText_covers [of "buf @ input" toks] plain(2) by blast
    moreover from this(4) have "no_adjacent_text new" by auto
    ultimately show ?thesis by blast
  next
    case (remark pre body rest)
    have "length rest < length input" using remark(1) by simp
    from less.hyps [OF this remark(5)] show ?thesis using remark(1) by simp
  next
    case (block pre body rest)
    have "length rest < length input" using block(1) by simp
    from less.hyps [OF this block(5)] obtain new chunks where
      new: "ts = (flushText (buf @ pre) toks @ [Token Directive (TrimSpace body)]) @ new"
        "list_all2 covers new chunks" "rest = concat chunks" "no_adjacent_text new" by auto
    obtain fst_new fst_chunks where
      fst: "flushText (buf @ pre) toks = toks @ fst_new" "list_all2 covers fst_new fst_chunks"
        "buf @ pre = concat fst_chunks" "fst_new = [] \<or> fst_new = [Token Text (buf @ pre)]"
      using flushText_covers by blast
    have "go_index body ''*/'' = None" using go_index_take_None [OF block(3)] by simp
    then have dir: "covers (Token Directive (TrimSpace body)) (''/*'' @ body @ ''*/'')"
      using block(4) by (auto simp: covers_def)
    have "ts = toks @ (fst_new @ Token Directive (TrimSpace body) # new)" using new(1) fst(1) by simp
    moreover have "list_all2 covers (fst_new @ Token Directive (TrimSpace body) # new)
        (fst_chunks @ (''/*'' @ body @ ''*/'') # chunks)"
      using fst(2) new(2) dir by (simp add: list_all2_appendI)
    moreover have "buf @ input = concat (fst_chunks @ (''/*'' @ body @ ''*/'') # chunks)"
      using fst(3) new(3) by (simp add: block(1))
    moreover have "no_adjacent_text (fst_new @ Token Directive (TrimSpace body) # new)"
      using fst(4) new(4) by auto
    ultimately show ?thesis by blast
  qed
qed

subsection \<open>Round trip\<close>

fun printToken :: "token \<Rightarrow> string" where
  "printToken t = (if Kind t = Directive then ''/*'' @ Value t @ ''*/'' else Value t)"

definition printTokens :: "token list \<Rightarrow> string" where
  "printTokens ts = concat (map printToken ts)"

text \<open>Text that the scanner passes through: pieces without a comment, and comments that are no
  directive.\<close>

inductive pass_text :: "string \<Rightarrow> bool" where
  clean: "go_index pre ''/*'' = None \<Longrightarrow> pass_text pre"
| remark: "go_index pre ''/*'' = None \<Longrightarrow> go_index body ''*/'' = None \<Longrightarrow> \<not> isTemplateDirective (TrimSpace body)
    \<Longrightarrow> pass_text t \<Longrightarrow> pass_text (pre @ ''/*'' @ body @ ''*/'' @ t)"

lemma scanLoop_comment:
  assumes pre: "go_index pre ''/*'' = None" and body: "go_index body ''*/'' = None"
  shows "scanLoop (pre @ ''/*'' @ body @ ''*/'' @ rest) buf toks =
     (if isTemplateDirective (TrimSpace body)
      then scanLoop rest [] (flushText (buf @ pre) toks @ [Token Directive (TrimSpace body)])
      else scanLoop rest (buf @ pre @ ''/*'' @ body @ ''*/'') toks)"
proof -
  have "go_index (pre @ ''/*'' @ body @ ''*/'' @ rest) ''/*'' = Some (length pre)"
    by (rule go_index_marker [OF pre]) (simp_all add: HasPrefix_two)
  moreover have "go_index (body @ ''*/'' @ rest) ''*/'' = Some (length body)"
    by (rule go_index_marker [OF body]) (simp_all add: HasPrefix_two)
  ultimately show ?thesis by (simp add: scanLoop_Some Let_def)
qed

lemma scanLoop_pass:
  assumes "pass_text t" and "rest = [] \<or> HasPrefix rest ''/*''"
  shows "scanLoop (t @ rest) buf toks = scanLoop rest (buf @ t) toks"
  using assms
proof (induction t arbitrary: buf rule: pass_text.induct)
  case (clean pre)
  show ?case
  proof (cases "rest = []")
    case True
    then show ?thesis using clean by (simp add: scanLoop_plain)
  next
    case False
    then obtain t where t: "rest = ''/*'' @ t" using clean.prems by (auto simp: HasPrefix_iff)
    have all: "go_index (pre @ rest) ''/*'' = Some (length pre)"
      using clean False by (intro go_index_marker) simp_all
    have "go_index rest ''/*'' = Some 0"
      using go_index_marker [of "[]" _ _ rest] clean.prems False by auto
    show ?thesis
      unfolding scanLoop_Some [OF all] scanLoop_Some [OF \<open>go_index rest ''/*'' = Some 0\<close>]
      by (simp add: Let_def t numeral_2_eq_2 split: option.split)
  qed
next
  case (remark pre body t)
  then show ?case
    using scanLoop_comment [OF remark.hyps(1,2), of "t @ rest" buf toks] remark.IH by simp
qed


text \<open>What a scanner can produce: maximal pass-through text and trimmed directives.\<close>

definition scanned :: "token \<Rightarrow> bool" where
  "scanned t \<longleftrightarrow>
     (Kind t = Text \<and> Value t \<noteq> [] \<and> pass_text (Value t)) \<or>
     (Kind t = Directive \<and> isTemplateDirective (Value t) \<and> TrimSpace (Value t) = Value t
        \<and> go_index (Value t) ''*/'' = None)"

lemma go_index_TrimSpace:
  assumes none: "go_index body ''*/'' = None"
  shows "go_index (TrimSpace body) ''*/'' = None"
proof -
  obtain u v where uv: "body = u @ TrimSpace body @ v" using TrimSpace_factor [of body] by blast
  have "HasPrefix (drop (length u + j) body) ''*/''" if hp: "HasPrefix (drop j (TrimSpace body)) ''*/''" for j
  proof -
    obtain t where t: "drop j (TrimSpace body) = ''*/'' @ t" using hp by (auto simp: HasPrefix_iff)
    then have "j \<le> length (TrimSpace body)" by (cases "j \<le> length (TrimSpace body)") auto
    then have "drop (length u + j) body = ''*/'' @ t @ v" by (subst uv) (simp add: t)
    then show ?thesis by (simp add: HasPrefix_iff)
  qed
  then show ?thesis using none by (auto simp: go_index_None_iff)
qed

lemma scanLoop_scanned:
  assumes "scanLoop input buf toks = Inr ts" and "\<And>t. pass_text t \<Longrightarrow> pass_text (buf @ t)"
    and "list_all scanned toks"
  shows "list_all scanned ts"
  using assms
proof (induction "length input" arbitrary: input buf toks rule: less_induct)
  case less
  have flush: "list_all scanned (flushText (buf @ pre) toks)" if "go_index pre ''/*'' = None" for pre
    using that less.prems(2) [OF pass_text.clean, of pre] less.prems(3) by (simp add: flushText_def scanned_def)
  from less.prems(1) show ?case
  proof (cases rule: scanLoop_cases)
    case plain
    then show ?thesis using flush by simp
  next
    case (remark pre body rest)
    have pre: "go_index pre ''/*'' = None" using go_index_take_None [OF remark(2)] remark(1) by simp
    have body: "go_index body ''*/'' = None" using go_index_take_None [OF remark(3)] by simp
    have "pass_text ((buf @ pre @ ''/*'' @ body @ ''*/'') @ t)" if "pass_text t" for t
      using less.prems(2) [OF pass_text.remark [OF pre body remark(4) that]] by simp
    moreover have "length rest < length input" using remark(1) by simp
    ultimately show ?thesis using less.hyps remark(5) less.prems(3) by blast
  next
    case (block pre body rest)
    have pre: "go_index pre ''/*'' = None" using go_index_take_None [OF block(2)] block(1) by simp
    have body: "go_index body ''*/'' = None" using go_index_take_None [OF block(3)] by simp
    have "list_all scanned (flushText (buf @ pre) toks @ [Token Directive (TrimSpace body)])"
      using flush [OF pre] block(4) go_index_TrimSpace [OF body] by (simp add: scanned_def)
    moreover have "length rest < length input" using block(1) by simp
    ultimately show ?thesis using less.hyps [OF _ block(5)] by simp
  qed
qed

lemma scan_printed:
  assumes "list_all scanned ts" and "no_adjacent_text ts"
    and "buf = [] \<or> ts = [] \<or> Kind (hd ts) = Directive"
  shows "scanLoop (printTokens ts) buf toks = Inr (flushText buf toks @ ts)"
  using assms
proof (induction ts arbitrary: buf toks)
  case Nil
  then show ?case by (simp add: printTokens_def scanLoop_plain)
next
  case (Cons t ts)
  have adj: "no_adjacent_text ts" using Cons.prems(2) by (cases ts) auto
  show ?case
  proof (cases "Kind t = Directive")
    case True
    then have t: "t = Token Directive (Value t)" by (cases t) (simp add: Token_def)
    have "scanLoop (printTokens (t # ts)) buf toks
        = scanLoop (printTokens ts) [] (flushText buf toks @ [Token Directive (Value t)])"
      using scanLoop_comment [of "[]" "Value t" "printTokens ts" buf toks] Cons.prems(1) True
      by (auto simp: scanned_def printTokens_def)
    also have "\<dots> = Inr (flushText buf toks @ t # ts)"
      using Cons.IH [of "[]"] Cons.prems(1) adj t by (simp add: flushText_def)
    finally show ?thesis .
  next
    case False
    then have plain: "t = Token Text (Value t)" "pass_text (Value t)" "Value t \<noteq> []"
      using Cons.prems(1) by (cases t, auto simp: scanned_def Token_def)
    have buf: "buf = []" using Cons.prems(3) False by simp
    have hd: "ts = [] \<or> Kind (hd ts) = Directive"
      using Cons.prems(1,2) plain False by (cases ts) (auto simp: scanned_def)
    then have rest: "printTokens ts = [] \<or> HasPrefix (printTokens ts) ''/*''"
      by (cases ts) (auto simp: printTokens_def HasPrefix_two)
    have "scanLoop (printTokens (t # ts)) buf toks = scanLoop (printTokens ts) (Value t) toks"
      using scanLoop_pass [OF plain(2) rest, of "[]" toks] False buf by (simp add: printTokens_def)
    also have "\<dots> = Inr (flushText (Value t) toks @ ts)"
      using Cons.IH Cons.prems(1) adj hd by simp
    finally show ?thesis using plain buf by (simp add: flushText_def)
  qed
qed

text \<open>
  When a template scans, its tokens cover it from end to end: the template is the concatenation
  of chunks, one per token in order, where a text token is its chunk verbatim and a directive token
  is a closed comment whose trimmed body it holds; no text token is empty and no two are adjacent.
\<close>

theorem scan_covers_template:
  assumes "ScanList input = Inr tokens"
  shows "\<exists>chunks. list_all2 covers tokens chunks \<and> input = concat chunks \<and> no_adjacent_text tokens"
  using scanLoop_covers [of input "[]" "[]" tokens] assms by (auto simp: ScanList_def)

theorem scan_covers_template_witness:
  "\<exists>chunks. list_all2 covers [Token Text ''a = 1'', Token Directive ''%end''] chunks
      \<and> ''a = 1/* %end */'' = concat chunks \<and> no_adjacent_text [Token Text ''a = 1'', Token Directive ''%end'']"
  by (rule scan_covers_template) code_simp

text \<open>
  C7. Scanning is stable under printing: the tokens of a template, printed back (text as it is, each
  directive as a comment), scan to the same tokens.
\<close>

theorem scan_print_roundtrip:
  assumes "ScanList input = Inr tokens"
  shows "ScanList (printTokens tokens) = Inr tokens"
proof -
  have "list_all scanned tokens" using scanLoop_scanned [of input "[]" "[]" tokens] assms by (simp add: ScanList_def)
  moreover have "no_adjacent_text tokens" using scanLoop_covers [of input "[]" "[]" tokens] assms by (auto simp: ScanList_def)
  ultimately show ?thesis using scan_printed [of tokens "[]" "[]"] by (simp add: ScanList_def flushText_def)
qed

theorem scan_print_roundtrip_witness:
  "ScanList (printTokens [Token Text ''a = /* x */1'', Token Directive ''%end'']) =
     Inr [Token Text ''a = /* x */1'', Token Directive ''%end'']"
  by (rule scan_print_roundtrip [of "''a = /* x */1/* %end */''"]) code_simp

end
