(* ===== verification/Sql_Parse.thy ===== *)
theory Sql_Parse
  imports Sql_Scan
begin

text \<open>
  \<^verbatim>\<open>dbx/sqltmplx/parse\<close>: directives and the block structure of a template. \<open>BuildList\<close> keeps a stack of
  frames that point into the node lists under construction; the model has the store of those lists
  explicitly (an address is the index of a \<open>Body\<close>, address 0 is the result list, \<open>None\<close> is the nil
  list of a fresh node) and \<open>readBody\<close> follows the pointers. The compiler of \<open>expr\<close> expressions is the
  parameter \<open>compile\<close>. Shown: the parser accepts exactly the well-nested templates and the tree it
  builds flattens back to the directives and texts it was given.
\<close>

subsection \<open>Directives\<close>

record if_directive =
  if_Keyword :: string
  if_Expr :: string

record directive =
  d_If :: "if_directive option"
  d_Where :: "string option"
  d_Set :: "string option"
  d_End :: "string option"

definition no_directive :: directive where
  "no_directive = \<lparr>d_If = None, d_Where = None, d_Set = None, d_End = None\<rparr>"

text \<open>The errors, with the strings they quote.\<close>

datatype parse_error =
    MustStartWithPercent string
  | MissingIfExpression string
  | UnsupportedDirective string
  | CompileExpr string string
  | errUnexpectedEnd
  | errUnclosedBlock

text \<open>\<open>nilRegex.ReplaceAllString(in, "nil")\<close> with the pattern \<open>\bnil\b\<close>.\<close>

definition isWordByte :: "char \<Rightarrow> bool" where
  "isWordByte c = (let n = (of_char c :: nat)
     in 48 \<le> n \<and> n \<le> 57 \<or> 65 \<le> n \<and> n \<le> 90 \<or> n = 95 \<or> 97 \<le> n \<and> n \<le> 122)"

function nilReplaceAll :: "bool \<Rightarrow> string \<Rightarrow> string" where
  "nilReplaceAll afterWord s =
     (if \<not> afterWord \<and> HasPrefix s ''nil'' \<and> (drop 3 s = [] \<or> \<not> isWordByte (hd (drop 3 s)))
      then ''nil'' @ nilReplaceAll True (drop 3 s)
      else case s of [] \<Rightarrow> [] | c # t \<Rightarrow> c # nilReplaceAll (isWordByte c) t)"
  by pat_completeness auto
termination by (relation "measure (\<lambda>(b, s). length s)") (auto simp: HasPrefix_iff)

declare nilReplaceAll.simps [simp del]

definition normalizeExpr :: "string \<Rightarrow> string" where
  "normalizeExpr s = nilReplaceAll False (TrimSpace s)"

definition parseDirective :: "string \<Rightarrow> parse_error + directive" where
  "parseDirective input =
     (let raw = TrimSpace input
      in if \<not> HasPrefix raw ''%'' then Inl (MustStartWithPercent raw)
         else
           let normalized = TrimSpace (TrimPrefix raw ''%'')
           in if normalized = ''where'' then Inr (no_directive\<lparr>d_Where := Some ''where''\<rparr>)
              else if normalized = ''set'' then Inr (no_directive\<lparr>d_Set := Some ''set''\<rparr>)
              else if normalized = ''end'' then Inr (no_directive\<lparr>d_End := Some ''end''\<rparr>)
              else if HasPrefix normalized ''if'' then
                let exprText = TrimSpace (TrimPrefix normalized ''if'')
                in if exprText = [] then Inl (MissingIfExpression normalized)
                   else Inr (no_directive\<lparr>d_If := Some \<lparr>if_Keyword = ''if'', if_Expr = normalizeExpr exprText\<rparr>\<rparr>)
              else Inl (UnsupportedDirective normalized))"

subsection \<open>Nodes and the store\<close>

datatype 'p node =
    TextNode string
  | IfNode string 'p "'p node list"
  | WhereNode "'p node list"
  | SetNode "'p node list"

datatype 'p cell = TextCell string | IfCell string 'p nat | WhereCell nat | SetCell nat

datatype frameKind = frameRoot | frameIf | frameWhere | frameSet

record frame =
  fr_kind :: frameKind
  fr_out :: nat

record 'p build =
  bodies :: "'p cell list option list"
  stack :: "frame list"

definition cells :: "'p cell list option list \<Rightarrow> nat \<Rightarrow> 'p cell list" where
  "cells B a = (case B ! a of None \<Rightarrow> [] | Some cs \<Rightarrow> cs)"

definition appendFrameNode :: "'p build \<Rightarrow> 'p cell \<Rightarrow> 'p build" where
  "appendFrameNode st n =
     (let out = fr_out (stack st ! (length (stack st) - 1))
      in st\<lparr>bodies := (bodies st)[out := Some (cells (bodies st) out @ [n])]\<rparr>)"

text \<open>A fresh node: its body is a new, nil list.\<close>

definition pushFrame :: "'p build \<Rightarrow> frameKind \<Rightarrow> (nat \<Rightarrow> 'p cell) \<Rightarrow> 'p build" where
  "pushFrame st kind mk =
     (let a = length (bodies st);
          st = appendFrameNode (st\<lparr>bodies := bodies st @ [None]\<rparr>) (mk a)
      in st\<lparr>stack := stack st @ [\<lparr>fr_kind = kind, fr_out = a\<rparr>]\<rparr>)"

definition pushIfNode ::
    "(string \<Rightarrow> string + 'p) \<Rightarrow> if_directive \<Rightarrow> 'p build \<Rightarrow> parse_error + 'p build" where
  "pushIfNode compile d st =
     (case compile (if_Expr d) of
        Inl err \<Rightarrow> Inl (CompileExpr (if_Expr d) err)
      | Inr program \<Rightarrow> Inr (pushFrame st frameIf (IfCell (if_Expr d) program)))"

definition pushWhereNode :: "'p build \<Rightarrow> 'p build" where
  "pushWhereNode st = pushFrame st frameWhere WhereCell"

definition pushSetNode :: "'p build \<Rightarrow> 'p build" where
  "pushSetNode st = pushFrame st frameSet SetCell"

definition popFrame :: "'p build \<Rightarrow> parse_error + 'p build" where
  "popFrame st =
     (if length (stack st) = 1 then Inl errUnexpectedEnd
      else Inr (st\<lparr>stack := take (length (stack st) - 1) (stack st)\<rparr>))"

definition consumeDirective ::
    "(string \<Rightarrow> string + 'p) \<Rightarrow> string \<Rightarrow> 'p build \<Rightarrow> parse_error + 'p build" where
  "consumeDirective compile v st =
     (case parseDirective v of
        Inl err \<Rightarrow> Inl err
      | Inr d \<Rightarrow>
          (case d_If d of
             Some i \<Rightarrow> pushIfNode compile i st
           | None \<Rightarrow>
               if d_Where d \<noteq> None then Inr (pushWhereNode st)
               else if d_Set d \<noteq> None then Inr (pushSetNode st)
               else if d_End d \<noteq> None then popFrame st
               else Inr st))"

definition consumeToken ::
    "(string \<Rightarrow> string + 'p) \<Rightarrow> token \<Rightarrow> 'p build \<Rightarrow> parse_error + 'p build" where
  "consumeToken compile tok st =
     (case Kind tok of
        Text \<Rightarrow> Inr (appendFrameNode st (TextCell (Value tok)))
      | Directive \<Rightarrow> consumeDirective compile (Value tok) st
      | OtherKind _ \<Rightarrow> Inr st)"

fun consumeTokens ::
    "(string \<Rightarrow> string + 'p) \<Rightarrow> token list \<Rightarrow> 'p build \<Rightarrow> parse_error + 'p build" where
  "consumeTokens compile [] st = Inr st"
| "consumeTokens compile (t # ts) st =
     (case consumeToken compile t st of Inl err \<Rightarrow> Inl err | Inr st' \<Rightarrow> consumeTokens compile ts st')"

text \<open>Following the pointers. A body only points to bodies allocated after it, so as many levels as
  there are bodies are enough.\<close>

fun readCells :: "nat \<Rightarrow> 'p cell list option list \<Rightarrow> 'p cell list \<Rightarrow> 'p node list" where
  "readCells fuel B [] = []"
| "readCells fuel B (TextCell s # cs) = TextNode s # readCells fuel B cs"
| "readCells 0 B (_ # cs) = []"
| "readCells (Suc fuel) B (IfCell e p a # cs) = IfNode e p (readCells fuel B (cells B a)) # readCells (Suc fuel) B cs"
| "readCells (Suc fuel) B (WhereCell a # cs) = WhereNode (readCells fuel B (cells B a)) # readCells (Suc fuel) B cs"
| "readCells (Suc fuel) B (SetCell a # cs) = SetNode (readCells fuel B (cells B a)) # readCells (Suc fuel) B cs"

definition readBody :: "'p cell list option list \<Rightarrow> nat \<Rightarrow> 'p node list" where
  "readBody B a = readCells (length B) B (cells B a)"

definition BuildList :: "(string \<Rightarrow> string + 'p) \<Rightarrow> token list \<Rightarrow> parse_error + 'p node list" where
  "BuildList compile tokens =
     (case consumeTokens compile tokens \<lparr>bodies = [Some []], stack = [\<lparr>fr_kind = frameRoot, fr_out = 0\<rparr>]\<rparr> of
        Inl err \<Rightarrow> Inl err
      | Inr st \<Rightarrow> if length (stack st) \<noteq> 1 then Inl errUnclosedBlock else Inr (readBody (bodies st) 0))"

definition Build :: "(string \<Rightarrow> string + 'p) \<Rightarrow> token list \<Rightarrow> parse_error + 'p node list" where
  "Build compile tokens = (case BuildList compile tokens of Inl err \<Rightarrow> Inl err | Inr nodes \<Rightarrow> Inr nodes)"

subsection \<open>The reference parser\<close>

text \<open>A token as an event: text, the opening of a block, or its end.\<close>

datatype block_head = HIf string | HWhere | HSet

datatype event = EText string | EOpen block_head | EEnd

definition token_event :: "token \<Rightarrow> parse_error + event option" where
  "token_event tok =
     (case Kind tok of
        Text \<Rightarrow> Inr (Some (EText (Value tok)))
      | Directive \<Rightarrow>
          map_sum id (\<lambda>d. case d_If d of
              Some i \<Rightarrow> Some (EOpen (HIf (if_Expr i)))
            | None \<Rightarrow> if d_Where d \<noteq> None then Some (EOpen HWhere) else if d_Set d \<noteq> None then Some (EOpen HSet)
                else if d_End d \<noteq> None then Some EEnd else None) (parseDirective (Value tok))
      | OtherKind _ \<Rightarrow> Inr None)"

fun token_events :: "token list \<Rightarrow> parse_error + event list" where
  "token_events [] = Inr []"
| "token_events (t # ts) =
     (case token_event t of Inl err \<Rightarrow> Inl err
      | Inr ev \<Rightarrow> map_sum id (\<lambda>evs. (case ev of None \<Rightarrow> evs | Some e \<Rightarrow> e # evs)) (token_events ts))"

text \<open>The events a tree stands for, and that its programs are the compiled expressions.\<close>

fun flatten :: "'p node list \<Rightarrow> event list" where
  "flatten [] = []"
| "flatten (TextNode s # ns) = EText s # flatten ns"
| "flatten (IfNode e p body # ns) = EOpen (HIf e) # flatten body @ EEnd # flatten ns"
| "flatten (WhereNode body # ns) = EOpen HWhere # flatten body @ EEnd # flatten ns"
| "flatten (SetNode body # ns) = EOpen HSet # flatten body @ EEnd # flatten ns"

fun compiled :: "(string \<Rightarrow> string + 'p) \<Rightarrow> 'p node list \<Rightarrow> bool" where
  "compiled c [] \<longleftrightarrow> True"
| "compiled c (TextNode s # ns) \<longleftrightarrow> compiled c ns"
| "compiled c (IfNode e p body # ns) \<longleftrightarrow> c e = Inr p \<and> compiled c body \<and> compiled c ns"
| "compiled c (WhereNode body # ns) \<longleftrightarrow> compiled c body \<and> compiled c ns"
| "compiled c (SetNode body # ns) \<longleftrightarrow> compiled c body \<and> compiled c ns"


lemma flatten_append [simp]: "flatten (ns @ ms) = flatten ns @ flatten ms"
  by (induction ns rule: flatten.induct) simp_all

lemma compiled_append [simp]: "compiled c (ns @ ms) \<longleftrightarrow> compiled c ns \<and> compiled c ms"
  by (induction ns rule: flatten.induct) auto

text \<open>The zipper: the finished nodes before each open block with its head, then the nodes of the
  innermost block.\<close>

datatype 'p open_head = OIf string 'p | OWhere | OSet

primrec head_of :: "'p open_head \<Rightarrow> block_head" where
  "head_of (OIf e p) = HIf e" | "head_of OWhere = HWhere" | "head_of OSet = HSet"

primrec close :: "'p open_head \<Rightarrow> 'p node list \<Rightarrow> 'p node" where
  "close (OIf e p) body = IfNode e p body" | "close OWhere body = WhereNode body" | "close OSet body = SetNode body"

primrec cell_of :: "'p open_head \<Rightarrow> nat \<Rightarrow> 'p cell" where
  "cell_of (OIf e p) a = IfCell e p a" | "cell_of OWhere a = WhereCell a" | "cell_of OSet a = SetCell a"

primrec frame_of :: "'p open_head \<Rightarrow> frameKind" where
  "frame_of (OIf e p) = frameIf" | "frame_of OWhere = frameWhere" | "frame_of OSet = frameSet"

primrec open_block :: "(string \<Rightarrow> string + 'p) \<Rightarrow> block_head \<Rightarrow> parse_error + 'p open_head" where
  "open_block c (HIf e) = (case c e of Inl err \<Rightarrow> Inl (CompileExpr e err) | Inr p \<Rightarrow> Inr (OIf e p))"
| "open_block c HWhere = Inr OWhere"
| "open_block c HSet = Inr OSet"

type_synonym 'p zipper = "('p node list \<times> 'p open_head) list \<times> 'p node list"

fun zstep :: "(string \<Rightarrow> string + 'p) \<Rightarrow> event \<Rightarrow> 'p zipper \<Rightarrow> parse_error + 'p zipper" where
  "zstep c (EText s) (ps, cur) = Inr (ps, cur @ [TextNode s])"
| "zstep c (EOpen b) (ps, cur) =
     (case open_block c b of Inl err \<Rightarrow> Inl err | Inr h \<Rightarrow> Inr (ps @ [(cur, h)], []))"
| "zstep c EEnd (ps, cur) =
     (if ps = [] then Inl errUnexpectedEnd
      else Inr (butlast ps, fst (last ps) @ [close (snd (last ps)) cur]))"

fun zrun :: "(string \<Rightarrow> string + 'p) \<Rightarrow> event list \<Rightarrow> 'p zipper \<Rightarrow> parse_error + 'p zipper" where
  "zrun c [] z = Inr z"
| "zrun c (e # es) z = (case zstep c e z of Inl err \<Rightarrow> Inl err | Inr z' \<Rightarrow> zrun c es z')"

fun zflat :: "'p zipper \<Rightarrow> event list" where
  "zflat (ps, cur) = concat (map (\<lambda>(ns, h). flatten ns @ [EOpen (head_of h)]) ps) @ flatten cur"

fun zcompiled :: "(string \<Rightarrow> string + 'p) \<Rightarrow> 'p zipper \<Rightarrow> bool" where
  "zcompiled c (ps, cur) \<longleftrightarrow>
     compiled c cur \<and> (\<forall>(ns, h) \<in> set ps. compiled c ns \<and> open_block c (head_of h) = Inr h)"

lemma flatten_close [simp]: "flatten [close h body] = EOpen (head_of h) # flatten body @ [EEnd]"
  by (cases h) simp_all

lemma compiled_close [simp]: "compiled c [close h body] \<longleftrightarrow> open_block c (head_of h) = Inr h \<and> compiled c body"
  by (cases h) (auto split: sum.splits)

lemma open_block_head: "open_block c b = Inr h \<Longrightarrow> head_of h = b"
  by (cases b) (auto split: sum.splits)

lemma zstep_flat:
  assumes "zstep c e z = Inr z'" and "zcompiled c z"
  shows "zflat z' = zflat z @ [e]" and "zcompiled c z'"
proof -
  obtain ps cur where z: "z = (ps, cur)" by (cases z)
  have "zflat z' = zflat z @ [e] \<and> zcompiled c z'"
  proof (cases e)
    case (EText s)
    then show ?thesis using assms z by auto
  next
    case (EOpen b)
    then obtain h where "open_block c b = Inr h" "z' = (ps @ [(cur, h)], [])"
      using assms(1) z by (auto split: sum.splits)
    then show ?thesis using assms(2) z EOpen open_block_head [of c b h] by auto
  next
    case EEnd
    then have ne: "ps \<noteq> []" using assms(1) z by (auto split: if_splits)
    then obtain qs ns h where ps: "ps = qs @ [(ns, h)]" by (metis append_butlast_last_id surj_pair)
    then have "z' = (qs, ns @ [close h cur])" using assms(1) z EEnd by simp
    then show ?thesis using assms(2) z EEnd ps by auto
  qed
  then show "zflat z' = zflat z @ [e]" and "zcompiled c z'" by blast+
qed

lemma zrun_flat:
  assumes "zrun c es z = Inr z'" and "zcompiled c z"
  shows "zflat z' = zflat z @ es \<and> zcompiled c z'"
  using assms
proof (induction es arbitrary: z)
  case (Cons e es)
  then obtain z1 where z1: "zstep c e z = Inr z1" "zrun c es z1 = Inr z'" by (auto split: sum.splits)
  from Cons.IH [OF z1(2) zstep_flat(2) [OF z1(1) Cons.prems(2)]] zstep_flat(1) [OF z1(1) Cons.prems(2)]
  show ?case by simp
qed simp

lemma zrun_append:
  "zrun c (es @ fs) z = (case zrun c es z of Inl err \<Rightarrow> Inl err | Inr z' \<Rightarrow> zrun c fs z')"
  by (induction es arbitrary: z) (auto split: sum.split)

lemma zrun_block:
  assumes "open_block c b = Inr h" and "\<And>ps cur. zrun c (flatten body) (ps, cur) = Inr (ps, cur @ body)"
    and "\<And>ps cur. zrun c es (ps, cur) = Inr (ps, cur @ ns)"
  shows "zrun c (EOpen b # flatten body @ EEnd # es) (ps, cur) = Inr (ps, cur @ close h body # ns)"
  using assms by (simp add: zrun_append)

lemma zrun_flatten: "compiled c ns \<Longrightarrow> zrun c (flatten ns) (ps, cur) = Inr (ps, cur @ ns)"
proof (induction ns arbitrary: ps cur rule: flatten.induct)
  case (3 e p body ns)
  then show ?case using zrun_block [of c "HIf e" "OIf e p" body "flatten ns" ns] by simp
next
  case (4 body ns)
  then show ?case using zrun_block [of c HWhere OWhere body "flatten ns" ns] by simp
next
  case (5 body ns)
  then show ?case using zrun_block [of c HSet OSet body "flatten ns" ns] by simp
qed simp_all

text \<open>The zipper machine accepts the flattenings, and nothing else.\<close>

lemma zrun_iff: "zrun c es ([], []) = Inr ([], ns) \<longleftrightarrow> flatten ns = es \<and> compiled c ns"
  using zrun_flat [of c es "([], [])" "([], ns)"] zrun_flatten [of c ns "[]" "[]"] by auto


subsection \<open>The store implements the zipper\<close>

text \<open>\<open>rep B lo hi cs ns\<close>: the cells \<open>cs\<close> read as the nodes \<open>ns\<close>, with all bodies they reach allocated
  between \<open>lo\<close> and \<open>hi\<close>.\<close>

inductive rep :: "'p cell list option list \<Rightarrow> nat \<Rightarrow> nat \<Rightarrow> 'p cell list \<Rightarrow> 'p node list \<Rightarrow> bool" for B where
  rep_Nil: "rep B lo hi [] []"
| rep_Text: "rep B lo hi cs ns \<Longrightarrow> rep B lo hi (TextCell s # cs) (TextNode s # ns)"
| rep_Block: "lo < a \<Longrightarrow> a < hi \<Longrightarrow> rep B a hi (cells B a) body \<Longrightarrow> rep B lo hi cs ns
    \<Longrightarrow> rep B lo hi (cell_of h a # cs) (close h body # ns)"

lemma rep_append: "rep B lo hi cs ns \<Longrightarrow> rep B lo hi ds ms \<Longrightarrow> rep B lo hi (cs @ ds) (ns @ ms)"
  by (induction rule: rep.induct) (auto intro: rep.intros)

lemma rep_frame:
  assumes "rep B lo hi cs ns" and "\<And>x. lo < x \<Longrightarrow> x < hi \<Longrightarrow> B' ! x = B ! x" and "hi \<le> hi'"
  shows "rep B' lo hi' cs ns"
  using assms
proof (induction rule: rep.induct)
  case (rep_Block lo a hi body cs ns h)
  have "cells B' a = cells B a" using rep_Block by (simp add: cells_def)
  then show ?case using rep_Block by (auto intro!: rep.rep_Block)
qed (auto intro: rep.intros)

lemma readCells_rep:
  assumes "rep B lo hi cs ns" and "hi \<le> lo + fuel + 1"
  shows "readCells fuel B cs = ns"
  using assms
proof (induction arbitrary: fuel rule: rep.induct)
  case (rep_Block lo a hi body cs ns h)
  then obtain k where k: "fuel = Suc k" by (cases fuel) auto
  have "readCells k B (cells B a) = body" and "readCells fuel B cs = ns" using rep_Block k by simp_all
  then show ?case using k by (cases h) simp_all
qed simp_all

fun zrel :: "'p cell list option list \<Rightarrow> frame list \<Rightarrow> ('p node list \<times> 'p open_head) list \<Rightarrow> 'p node list \<Rightarrow> bool" where
  "zrel B [f] [] cur \<longleftrightarrow> fr_out f < length B \<and> rep B (fr_out f) (length B) (cells B (fr_out f)) cur"
| "zrel B (f # g # fs) ((ns, h) # ps) cur \<longleftrightarrow>
     fr_out f < fr_out g
     \<and> (\<exists>cs. cells B (fr_out f) = cs @ [cell_of h (fr_out g)] \<and> rep B (fr_out f) (fr_out g) cs ns)
     \<and> zrel B (g # fs) ps cur"
| "zrel B _ _ cur \<longleftrightarrow> False"

lemma zrel_length: "zrel B fs ps cur \<Longrightarrow> length fs = Suc (length ps)"
  by (induction B fs ps cur rule: zrel.induct) auto

lemma zrel_last: "zrel B fs ps cur \<Longrightarrow> fr_out (hd fs) \<le> fr_out (last fs) \<and> fr_out (last fs) < length B"
  by (induction B fs ps cur rule: zrel.induct) auto

text \<open>Changing the innermost body, possibly after an allocation.\<close>

lemma zrel_top:
  assumes "zrel B fs ps cur" and "length B \<le> length B'"
    and "\<And>x. x < length B \<Longrightarrow> x \<noteq> fr_out (last fs) \<Longrightarrow> B' ! x = B ! x"
    and "rep B' (fr_out (last fs)) (length B') (cells B' (fr_out (last fs))) cur'"
  shows "zrel B' fs ps cur'"
  using assms
proof (induction B fs ps cur rule: zrel.induct)
  case (2 B f g fs ns h ps cur)
  have last: "fr_out g \<le> fr_out (last (g # fs))" "fr_out (last (g # fs)) < length B"
    using zrel_last [of B "g # fs" ps cur] 2(2) by simp_all
  obtain cs where cs: "cells B (fr_out f) = cs @ [cell_of h (fr_out g)]" "rep B (fr_out f) (fr_out g) cs ns"
    using 2(2) by auto
  have "B' ! fr_out f = B ! fr_out f" using 2(2,4) last by simp
  then have "cells B' (fr_out f) = cells B (fr_out f)" by (simp add: cells_def)
  moreover have "rep B' (fr_out f) (fr_out g) cs ns"
    using rep_frame [OF cs(2), of B' "fr_out g"] 2(4) last by simp
  moreover have "zrel B' (g # fs) ps cur'" using 2 by simp
  ultimately show ?case using 2(2) cs(1) by auto
qed auto

lemma rep_top: "zrel B fs ps cur \<Longrightarrow> rep B (fr_out (last fs)) (length B) (cells B (fr_out (last fs))) cur"
  by (induction B fs ps cur rule: zrel.induct) auto

lemma zrel_text:
  assumes z: "zrel B fs ps cur" and out: "out = fr_out (last fs)"
  shows "zrel (B[out := Some (cells B out @ [TextCell s])]) fs ps (cur @ [TextNode s])"
proof -
  have lt: "out < length B" using zrel_last [OF z] out by simp
  let ?B = "B[out := Some (cells B out @ [TextCell s])]"
  have "rep ?B out (length B) (cells B out) cur"
    using rep_frame [OF rep_top [OF z], of ?B "length B"] out by simp
  then have "rep ?B out (length B) (cells B out @ [TextCell s]) (cur @ [TextNode s])"
    by (rule rep_append) (auto intro: rep.intros)
  moreover have "cells ?B out = cells B out @ [TextCell s]" using lt by (simp add: cells_def)
  ultimately show ?thesis by (intro zrel_top [OF z]) (simp_all add: out)
qed

lemma zrel_push_aux:
  assumes "zrel B fs ps cur" and "out = fr_out (last fs)" and "fr_out g = b" and "out < b" and "length B \<le> b"
    and "length B' = Suc b" and "\<And>x. x < length B \<Longrightarrow> x \<noteq> out \<Longrightarrow> B' ! x = B ! x"
    and "cells B' out = cells B out @ [cell_of h b]" and "cells B' b = []"
  shows "zrel B' (fs @ [g]) (ps @ [(cur, h)]) []"
  using assms
proof (induction B fs ps cur rule: zrel.induct)
  case (1 B f cur)
  then have "rep B' out b (cells B out) cur" using rep_frame [of B out "length B" "cells B out" cur B' b] by auto
  then show ?case using 1 by (auto intro: rep.intros)
next
  case (2 B f f' fs ns h' ps cur)
  have last: "fr_out f' \<le> out" "out < length B"
    using zrel_last [of B "f' # fs" ps cur] 2(2,3) by simp_all
  obtain cs where cs: "cells B (fr_out f) = cs @ [cell_of h' (fr_out f')]" "rep B (fr_out f) (fr_out f') cs ns"
    using 2(2) by auto
  have "B' ! fr_out f = B ! fr_out f" using 2(2,8) last by simp
  then have "cells B' (fr_out f) = cells B (fr_out f)" by (simp add: cells_def)
  moreover have "rep B' (fr_out f) (fr_out f') cs ns"
    using rep_frame [OF cs(2), of B' "fr_out f'"] 2(8) last by simp
  moreover have "zrel B' ((f' # fs) @ [g]) (ps @ [(cur, h)]) []" using 2 by simp
  ultimately show ?case using 2(2) cs(1) by auto
qed auto

lemma zrel_pop:
  assumes "zrel B fs (ps @ [(ns, h)]) cur"
  shows "zrel B (butlast fs) ps (ns @ [close h cur])"
  using assms
proof (induction ps arbitrary: fs)
  case Nil
  then obtain f g where fs: "fs = [f, g]" using zrel_length [OF Nil] by (auto simp: length_Suc_conv)
  from Nil fs obtain cs where cs: "cells B (fr_out f) = cs @ [cell_of h (fr_out g)]" "rep B (fr_out f) (fr_out g) cs ns"
    "fr_out f < fr_out g" "fr_out g < length B" "rep B (fr_out g) (length B) (cells B (fr_out g)) cur" by auto
  have "rep B (fr_out f) (length B) (cs @ [cell_of h (fr_out g)]) (ns @ [close h cur])"
    using rep_frame [OF cs(2), of B "length B"] cs(3-5) by (intro rep_append) (auto intro: rep.intros)
  then show ?case using fs cs by simp
next
  case (Cons p ps)
  obtain f g gs where fs: "fs = f # g # gs" using zrel_length [OF Cons.prems] by (auto simp: length_Suc_conv)
  obtain ms k where p: "p = (ms, k)" by (cases p)
  have sub: "zrel B (g # gs) (ps @ [(ns, h)]) cur" using Cons.prems fs p by simp
  have "gs \<noteq> []" using zrel_length [OF sub] by auto
  then show ?case using Cons.IH [OF sub] Cons.prems fs p by auto
qed

text \<open>The parser on events, and the simulation step by step.\<close>

primrec ev_step :: "(string \<Rightarrow> string + 'p) \<Rightarrow> event \<Rightarrow> 'p build \<Rightarrow> parse_error + 'p build" where
  "ev_step c (EText s) st = Inr (appendFrameNode st (TextCell s))"
| "ev_step c (EOpen b) st =
     (case open_block c b of Inl err \<Rightarrow> Inl err | Inr h \<Rightarrow> Inr (pushFrame st (frame_of h) (cell_of h)))"
| "ev_step c EEnd st = popFrame st"

fun ev_run :: "(string \<Rightarrow> string + 'p) \<Rightarrow> event list \<Rightarrow> 'p build \<Rightarrow> parse_error + 'p build" where
  "ev_run c [] st = Inr st"
| "ev_run c (e # es) st = (case ev_step c e st of Inl err \<Rightarrow> Inl err | Inr st' \<Rightarrow> ev_run c es st')"

lemma cell_of_heads: "cell_of (OIf e p) = IfCell e p" "cell_of OWhere = WhereCell" "cell_of OSet = SetCell"
  by (simp_all add: fun_eq_iff)

lemma consumeToken_event:
  "consumeToken c t st = (case token_event t of Inl err \<Rightarrow> Inl err
     | Inr None \<Rightarrow> Inr st | Inr (Some e) \<Rightarrow> ev_step c e st)"
  by (cases "Kind t"; cases "parseDirective (Value t)")
    (auto simp: consumeToken_def token_event_def consumeDirective_def pushIfNode_def pushWhereNode_def
      pushSetNode_def cell_of_heads split: option.split sum.split)

lemma consumeTokens_events:
  "consumeTokens c ts st = Inr st' \<longleftrightarrow> (\<exists>es. token_events ts = Inr es \<and> ev_run c es st = Inr st')"
proof (induction ts arbitrary: st)
  case (Cons t ts)
  show ?case
  proof (cases "token_event t")
    case (Inr ev)
    then show ?thesis
      using Cons.IH by (cases ev; cases "token_events ts") (auto simp: consumeToken_event split: sum.split)
  qed (simp add: consumeToken_event)
qed simp

definition zsim :: "'p build \<Rightarrow> 'p zipper \<Rightarrow> bool" where
  "zsim st z \<longleftrightarrow> zrel (bodies st) (stack st) (fst z) (snd z) \<and> fr_out (hd (stack st)) = 0"

lemma last_nth: "xs \<noteq> [] \<Longrightarrow> xs ! (length xs - Suc 0) = last xs"
  by (simp add: last_conv_nth)

lemma zsim_push:
  assumes z: "zsim st (ps, cur)"
  shows "zsim (pushFrame st k (cell_of h)) (ps @ [(cur, h)], [])"
proof -
  let ?B = "bodies st"
  have rel: "zrel ?B (stack st) ps cur" using z by (simp add: zsim_def)
  have ne: "stack st \<noteq> []" using zrel_length [OF rel] by auto
  define out where "out = fr_out (last (stack st))"
  have lt: "out < length ?B" using zrel_last [OF rel] by (simp add: out_def)
  have "cells (?B @ [None]) out = cells ?B out" using lt by (simp add: cells_def nth_append)
  then have st': "bodies (pushFrame st k (cell_of h)) = (?B @ [None])[out := Some (cells ?B out @ [cell_of h (length ?B)])]"
      "stack (pushFrame st k (cell_of h)) = stack st @ [\<lparr>fr_kind = k, fr_out = length ?B\<rparr>]"
    using ne by (simp_all add: pushFrame_def appendFrameNode_def Let_def last_nth out_def)
  have "zrel ((?B @ [None])[out := Some (cells ?B out @ [cell_of h (length ?B)])])
      (stack st @ [\<lparr>fr_kind = k, fr_out = length ?B\<rparr>]) (ps @ [(cur, h)]) []"
    by (rule zrel_push_aux [OF rel out_def]) (use lt in \<open>auto simp: cells_def nth_append nth_list_update\<close>)
  then show ?thesis using z ne by (simp add: zsim_def st')
qed

lemma zsim_step:
  assumes sim: "zsim st z"
  shows "rel_sum (=) zsim (ev_step c e st) (zstep c e z)"
proof -
  obtain ps cur where z: "z = (ps, cur)" by (cases z)
  have rel: "zrel (bodies st) (stack st) ps cur" using sim z by (simp add: zsim_def)
  have len: "length (stack st) = Suc (length ps)" by (rule zrel_length [OF rel])
  then have ne: "stack st \<noteq> []" by auto
  show ?thesis
  proof (cases e)
    case (EText s)
    then show ?thesis
      using zrel_text [OF rel refl] sim z ne by (simp add: zsim_def appendFrameNode_def Let_def last_nth)
  next
    case (EOpen b)
    then show ?thesis using zsim_push [of st ps cur] sim z by (auto split: sum.split)
  next
    case EEnd
    show ?thesis
    proof (cases "ps = []")
      case False
      then obtain qs ns h where ps: "ps = qs @ [(ns, h)]" by (metis append_butlast_last_id surj_pair)
      have "zrel (bodies st) (butlast (stack st)) qs (ns @ [close h cur])" using zrel_pop rel ps by blast
      moreover from this have "butlast (stack st) \<noteq> []" using zrel_length by fastforce
      then have "hd (butlast (stack st)) = hd (stack st)" by (cases "stack st") (auto split: if_splits)
      moreover have "butlast (stack st) = take (Suc (length qs)) (stack st)"
        using len ps by (simp add: butlast_conv_take)
      ultimately show ?thesis using EEnd sim z ps len by (simp add: popFrame_def zsim_def)
    qed (use EEnd z len in \<open>simp add: popFrame_def\<close>)
  qed
qed

lemma zsim_run: "zsim st z \<Longrightarrow> rel_sum (=) zsim (ev_run c es st) (zrun c es z)"
proof (induction es arbitrary: st z)
  case (Cons e es)
  from zsim_step [OF Cons.prems, of c e] show ?case
    by (cases "ev_step c e st"; cases "zstep c e z") (auto intro: Cons.IH)
qed simp

lemma BuildList_zrun:
  "BuildList c tokens = Inr ns \<longleftrightarrow> (\<exists>es. token_events tokens = Inr es \<and> zrun c es ([], []) = Inr ([], ns))"
proof -
  let ?st = "\<lparr>bodies = [Some []], stack = [\<lparr>fr_kind = frameRoot, fr_out = 0\<rparr>]\<rparr> :: 'a build"
  have "zsim ?st ([], [])" by (auto simp: zsim_def cells_def intro: rep.intros)
  note sim = zsim_run [OF this, of c]
  have final: "length (stack st) = 1 \<and> readBody (bodies st) 0 = ns \<longleftrightarrow> z = ([], ns)"
    if zs: "zsim st z" for st :: "'a build" and z
  proof -
    have zero: "fr_out (hd (stack st)) = 0" using zs by (simp add: zsim_def)
    obtain ps cur where z: "z = (ps, cur)" by (cases z)
    have rel: "zrel (bodies st) (stack st) ps cur" using zs z by (simp add: zsim_def)
    show ?thesis
    proof (cases "ps = []")
      case True
      then obtain f where f: "stack st = [f]" using zrel_length [OF rel] by (auto simp: length_Suc_conv)
      then have "rep (bodies st) 0 (length (bodies st)) (cells (bodies st) 0) cur" using rel True zero by simp
      then have "readBody (bodies st) 0 = cur" unfolding readBody_def by (rule readCells_rep) simp
      then show ?thesis using z True f by auto
    qed (use zrel_length [OF rel] z in auto)
  qed
  have "BuildList c tokens = Inr ns \<longleftrightarrow> (\<exists>st. consumeTokens c tokens ?st = Inr st \<and> length (stack st) = 1
      \<and> readBody (bodies st) 0 = ns)"
    by (auto simp: BuildList_def split: sum.splits)
  also have "\<dots> \<longleftrightarrow> (\<exists>es. token_events tokens = Inr es \<and>
      (\<exists>st. ev_run c es ?st = Inr st \<and> length (stack st) = 1 \<and> readBody (bodies st) 0 = ns))"
    by (auto simp: consumeTokens_events)
  finally have runs: "BuildList c tokens = Inr ns \<longleftrightarrow> (\<exists>es. token_events tokens = Inr es \<and>
      (\<exists>st. ev_run c es ?st = Inr st \<and> length (stack st) = 1 \<and> readBody (bodies st) 0 = ns))" .
  have "(\<exists>st. ev_run c es ?st = Inr st \<and> length (stack st) = 1 \<and> readBody (bodies st) 0 = ns)
      \<longleftrightarrow> zrun c es ([], []) = Inr ([], ns)" for es
  proof (cases "ev_run c es ?st")
    case (Inl err)
    then show ?thesis using sim [of es] by (cases "zrun c es ([], [])") auto
  next
    case (Inr st)
    then obtain z where z: "zrun c es ([], []) = Inr z" "zsim st z"
      using sim [of es] by (cases "zrun c es ([], [])") auto
    then show ?thesis using Inr final [OF z(2)] by simp
  qed
  then show ?thesis unfolding runs by simp
qed

text \<open>
  C3. \<open>BuildList\<close> returns a tree exactly when every directive parses, the tree's blocks and texts read
  from left to right are the given tokens (so the blocks are well nested and closed), and every \<open>if\<close>
  carries the program its expression compiles to. Everything else is an error.
\<close>

theorem build_iff_flatten:
  "BuildList compile tokens = Inr nodes \<longleftrightarrow> token_events tokens = Inr (flatten nodes) \<and> compiled compile nodes"
  unfolding BuildList_zrun zrun_iff by auto

text \<open>The number of open blocks after some events, \<open>None\<close> once an end has nothing to close.\<close>

fun depth :: "event list \<Rightarrow> nat \<Rightarrow> nat option" where
  "depth [] n = Some n"
| "depth (EText s # es) n = depth es n"
| "depth (EOpen b # es) n = depth es (Suc n)"
| "depth (EEnd # es) n = (case n of 0 \<Rightarrow> None | Suc m \<Rightarrow> depth es m)"

definition compiles :: "(string \<Rightarrow> string + 'p) \<Rightarrow> event list \<Rightarrow> bool" where
  "compiles c es \<longleftrightarrow> list_all (\<lambda>ev. case ev of EOpen (HIf e) \<Rightarrow> \<not> isl (c e) | _ \<Rightarrow> True) es"

lemma open_block_ok: "compiles c (EOpen b # es) \<Longrightarrow> \<exists>h. open_block c b = Inr h"
  by (cases b) (auto simp: compiles_def isl_def split: sum.splits)

lemma zrun_depth:
  assumes "compiles c es"
  shows "case depth es (length ps) of
      None \<Rightarrow> zrun c es (ps, cur) = Inl errUnexpectedEnd
    | Some n \<Rightarrow> \<exists>qs cur'. zrun c es (ps, cur) = Inr (qs, cur') \<and> length qs = n"
  using assms
proof (induction es arbitrary: ps cur)
  case (Cons e es)
  have es: "compiles c es" using Cons.prems by (simp add: compiles_def)
  show ?case
  proof (cases e)
    case (EText s)
    then show ?thesis using Cons.IH [OF es, of ps "cur @ [TextNode s]"] by (simp split: option.splits)
  next
    case (EOpen b)
    then obtain h where "open_block c b = Inr h" using open_block_ok Cons.prems by blast
    then show ?thesis using Cons.IH [OF es, of "ps @ [(cur, h)]" "[]"] EOpen by (simp split: option.splits)
  next
    case EEnd
    show ?thesis
    proof (cases "ps = []")
      case False
      then have "depth (e # es) (length ps) = depth es (length (butlast ps))"
        using EEnd by (cases "length ps") simp_all
      then show ?thesis using Cons.IH [OF es, of "butlast ps" "fst (last ps) @ [close (snd (last ps)) cur]"]
          EEnd False by (simp split: option.splits)
    qed (simp add: EEnd)
  qed
qed simp

lemma consumeTokens_run: "token_events ts = Inr es \<Longrightarrow> consumeTokens c ts st = ev_run c es st"
proof (induction ts arbitrary: es st)
  case (Cons t ts)
  then obtain ev es' where ev: "token_event t = Inr ev" "token_events ts = Inr es'"
    by (cases "token_event t"; cases "token_events ts") auto
  then show ?case using Cons by (cases ev) (auto simp: consumeToken_event split: sum.split)
qed simp

text \<open>
  C24. Unbalanced templates are refused with the right error: when every directive parses and every
  expression compiles, an end with no open block gives \<open>errUnexpectedEnd\<close>, a block left open at the end
  gives \<open>errUnclosedBlock\<close>, and a balanced template is accepted.
\<close>

theorem build_balance_errors:
  assumes events: "token_events tokens = Inr es" and comp: "compiles compile es"
  shows "case depth es 0 of
      None \<Rightarrow> BuildList compile tokens = Inl errUnexpectedEnd
    | Some 0 \<Rightarrow> (\<exists>nodes. BuildList compile tokens = Inr nodes)
    | Some (Suc n) \<Rightarrow> BuildList compile tokens = Inl errUnclosedBlock"
proof -
  let ?st = "\<lparr>bodies = [Some []], stack = [\<lparr>fr_kind = frameRoot, fr_out = 0\<rparr>]\<rparr> :: 'a build"
  have "zsim ?st ([], [])" by (auto simp: zsim_def cells_def intro: rep.intros)
  from zsim_run [OF this, of compile es] zrun_depth [OF comp, of "[]" "[]"]
  have run: "case depth es 0 of None \<Rightarrow> consumeTokens compile tokens ?st = Inl errUnexpectedEnd
      | Some n \<Rightarrow> \<exists>st. consumeTokens compile tokens ?st = Inr st \<and> length (stack st) = Suc n"
    unfolding consumeTokens_run [OF events]
    by (cases "depth es 0"; cases "ev_run compile es ?st") (auto simp: zsim_def dest: zrel_length)
  show ?thesis
  proof (cases "depth es 0")
    case None
    then show ?thesis using run by (simp add: BuildList_def)
  next
    case (Some n)
    then show ?thesis using run by (cases n) (auto simp: BuildList_def)
  qed
qed

theorem build_balance_errors_witness:
  "BuildList (Inr :: string \<Rightarrow> string + string) [Token Directive ''%end''] = Inl errUnexpectedEnd
     \<and> BuildList (Inr :: string \<Rightarrow> string + string) [Token Directive ''%where''] = Inl errUnclosedBlock"
proof -
  have ev: "token_events [Token Directive ''%end''] = Inr [EEnd]"
    "token_events [Token Directive ''%where''] = Inr [EOpen HWhere]" by code_simp+
  show ?thesis
    using build_balance_errors [OF ev(1), of "Inr :: string \<Rightarrow> string + string"]
      build_balance_errors [OF ev(2), of "Inr :: string \<Rightarrow> string + string"]
    by (simp add: compiles_def)
qed

end
