(* ===== verification/Sql_Skip.thy ===== *)
theory Sql_Skip
  imports Go_Strings
begin

text \<open>
  \<^verbatim>\<open>dbx/sqltmplx/render/bind_scan.go\<close> and the index scanners of \<^verbatim>\<open>bind.go\<close>: how far the sample literal
  behind a placeholder comment reaches. Indices are \<open>nat\<close>, errors are values of \<open>render_error\<close>, and a
  result \<open>(int, bool, error)\<close> is \<open>render_error + nat option\<close>. Every loop is a recursive function with its
  termination proof. Shown: every scanner moves forward and stays inside the input, so no slice
  expression of the renderer is out of range and the binding loop ends.
\<close>

datatype render_error =
    errSpreadParamEmpty
  | errSpreadParamType
  | errUnterminatedSQLComment
  | errInvalidCastSuffix
  | errUnterminatedBalanced
  | errUnterminatedQuoted
  | errEmptyScalarLiteral
  | MissingTestLiteral string
  | InvalidTestLiteral string render_error
  | ParamNotFound string
  | errIfExpressionNotBool
  | errExprRunnerNil
  | RunExpr string

type_synonym skip_result = "render_error + nat"
type_synonym skip_option = "render_error + nat option"

abbreviation rune_of :: "char \<Rightarrow> nat" where
  "rune_of c \<equiv> of_char c"

definition isIdentifierStart :: "unicode \<Rightarrow> nat \<Rightarrow> bool" where
  "isIdentifierStart u r \<longleftrightarrow> r = rune_of (CHR ''_'') \<or> IsLetter u r"

definition isIdentifierPart :: "unicode \<Rightarrow> nat \<Rightarrow> bool" where
  "isIdentifierPart u r \<longleftrightarrow> r = rune_of (CHR ''_'') \<or> IsLetter u r \<or> IsDigit u r"

function skipSpaces :: "string \<Rightarrow> nat \<Rightarrow> nat" where
  "skipSpaces input index =
     (if index < length input \<and> isSpaceByte (input ! index) then skipSpaces input (index + 1) else index)"
  by pat_completeness auto
termination by (relation "measure (\<lambda>(s, i). length s - i)") auto

function quotedLoop :: "string \<Rightarrow> char \<Rightarrow> nat \<Rightarrow> skip_result" where
  "quotedLoop input quote i =
     (if i < length input then
        if input ! i \<noteq> quote then quotedLoop input quote (i + 1)
        else if i + 1 < length input \<and> input ! (i + 1) = quote then quotedLoop input quote (i + 2)
        else Inr (i + 1)
      else Inl errUnterminatedQuoted)"
  by pat_completeness auto
termination by (relation "measure (\<lambda>(s, q, i). length s - i)") auto

definition skipQuoted :: "string \<Rightarrow> nat \<Rightarrow> skip_result" where
  "skipQuoted input start = quotedLoop input (input ! start) (start + 1)"

declare skipSpaces.simps [simp del] quotedLoop.simps [simp del]

lemma quotedLoop_bounds: "quotedLoop input quote i = Inr j \<Longrightarrow> i < j \<and> j \<le> length input"
proof (induction input quote i rule: quotedLoop.induct)
  case (1 input quote i)
  from 1(3) show ?case
    by (subst (asm) quotedLoop.simps) (use 1(1,2) in \<open>fastforce split: if_splits\<close>)
qed

lemma skipQuoted_bounds: "skipQuoted input start = Inr j \<Longrightarrow> start + 1 < j \<and> j \<le> length input"
  using quotedLoop_bounds by (simp add: skipQuoted_def)

lemma skipSpaces_bounds: "i \<le> skipSpaces input i \<and> (i \<le> length input \<longrightarrow> skipSpaces input i \<le> length input)"
proof (induction input i rule: skipSpaces.induct)
  case (1 input i)
  then show ?case by (subst (1 2) skipSpaces.simps) auto
qed

function balancedLoop :: "string \<Rightarrow> char \<Rightarrow> char \<Rightarrow> int \<Rightarrow> nat \<Rightarrow> skip_result" where
  "balancedLoop input openByte closeByte depth i =
     (if i < length input then
        if input ! i = CHR 0x27 \<or> input ! i = CHR 0x22 then
          (case skipQuoted input i of Inl err \<Rightarrow> Inl err | Inr j \<Rightarrow> balancedLoop input openByte closeByte depth j)
        else if input ! i = openByte then balancedLoop input openByte closeByte (depth + 1) (i + 1)
        else if input ! i = closeByte then
          if depth - 1 = 0 then Inr (i + 1) else balancedLoop input openByte closeByte (depth - 1) (i + 1)
        else balancedLoop input openByte closeByte depth (i + 1)
      else Inl errUnterminatedBalanced)"
  by pat_completeness auto
termination
  by (relation "measure (\<lambda>(s, a, b, d, i). length s - i)") (auto dest: skipQuoted_bounds)

declare balancedLoop.simps [simp del]

definition skipBalanced :: "string \<Rightarrow> nat \<Rightarrow> char \<Rightarrow> char \<Rightarrow> skip_result" where
  "skipBalanced input start openByte closeByte = balancedLoop input openByte closeByte 0 start"

lemma balancedLoop_bounds:
  "balancedLoop input openByte closeByte depth i = Inr j \<Longrightarrow> i < j \<and> j \<le> length input"
proof (induction input openByte closeByte depth i rule: balancedLoop.induct)
  case (1 input openByte closeByte depth i)
  note eq = 1(5) [unfolded balancedLoop.simps [of input openByte closeByte depth i]]
  have lt: "i < length input" using eq by (simp split: if_splits)
  have step: "i < j \<and> j \<le> length input" if "i < k" "k < j \<and> j \<le> length input" for k using that by simp
  consider (quote) "input ! i = CHR 0x27 \<or> input ! i = CHR 0x22"
    | (opens) "\<not> (input ! i = CHR 0x27 \<or> input ! i = CHR 0x22)" "input ! i = openByte"
    | (closes) "\<not> (input ! i = CHR 0x27 \<or> input ! i = CHR 0x22)" "input ! i \<noteq> openByte" "input ! i = closeByte"
    | (plain) "\<not> (input ! i = CHR 0x27 \<or> input ! i = CHR 0x22)" "input ! i \<noteq> openByte" "input ! i \<noteq> closeByte"
    by blast
  then show ?case
  proof cases
    case quote
    then obtain k where k: "skipQuoted input i = Inr k" "balancedLoop input openByte closeByte depth k = Inr j"
      using eq lt by (auto split: sum.splits)
    with skipQuoted_bounds [OF k(1)] 1(1) [OF lt quote k(1) k(2)] show ?thesis by simp
  next
    case opens
    then show ?thesis using 1(2) [OF lt opens] eq lt by simp
  next
    case closes
    then show ?thesis using 1(3) [OF lt closes] eq lt by (simp split: if_splits)
  next
    case plain
    then show ?thesis using 1(4) [OF lt plain] eq lt by simp
  qed
qed

lemma skipBalanced_bounds: "skipBalanced input start a b = Inr j \<Longrightarrow> start < j \<and> j \<le> length input"
  using balancedLoop_bounds by (simp add: skipBalanced_def)

function scalarLoop :: "string \<Rightarrow> nat \<Rightarrow> nat" where
  "scalarLoop input i =
     (if i < length input \<and> \<not> (isSpaceByte (input ! i) \<or> input ! i \<in> set '',)(]'')
      then scalarLoop input (i + 1) else i)"
  by pat_completeness auto
termination by (relation "measure (\<lambda>(s, i). length s - i)") auto

declare scalarLoop.simps [simp del]

definition skipScalarToken :: "string \<Rightarrow> nat \<Rightarrow> skip_result" where
  "skipScalarToken input start =
     (let i = scalarLoop input start in if i = start then Inl errEmptyScalarLiteral else Inr i)"

lemma scalarLoop_bounds: "i \<le> scalarLoop input i \<and> (i \<le> length input \<longrightarrow> scalarLoop input i \<le> length input)"
proof (induction input i rule: scalarLoop.induct)
  case (1 input i)
  then show ?case by (subst (1 2) scalarLoop.simps) auto
qed

function identifierLoop :: "unicode \<Rightarrow> string \<Rightarrow> nat \<Rightarrow> nat" where
  "identifierLoop u input i =
     (if i < length input \<and> isIdentifierPart u (rune_of (input ! i)) then identifierLoop u input (i + 1) else i)"
  by pat_completeness auto
termination by (relation "measure (\<lambda>(u, s, i). length s - i)") auto

declare identifierLoop.simps [simp del]

lemma identifierLoop_bounds:
  "i \<le> identifierLoop u input i \<and> (i \<le> length input \<longrightarrow> identifierLoop u input i \<le> length input)"
proof (induction u input i rule: identifierLoop.induct)
  case (1 u input i)
  then show ?case by (subst (1 2) identifierLoop.simps) auto
qed

definition looksLikeCollectionSample :: "unicode \<Rightarrow> string \<Rightarrow> nat \<Rightarrow> bool" where
  "looksLikeCollectionSample u input start =
     (if start < length input \<and> isIdentifierStart u (rune_of (input ! start)) then
        let j = identifierLoop u input (start + 1) in j < length input \<and> input ! j = CHR ''[''
      else False)"

definition skipIdentifierCall :: "string \<Rightarrow> nat \<Rightarrow> skip_option" where
  "skipIdentifierCall input start =
     (let next = skipSpaces input start
      in if next \<ge> length input \<or> input ! next \<noteq> CHR ''('' then Inr None
         else case skipBalanced input next (CHR ''('') (CHR '')'') of
                Inl err \<Rightarrow> Inl err | Inr index \<Rightarrow> Inr (Some index))"

lemma skipIdentifierCall_bounds:
  "skipIdentifierCall input start = Inr (Some j) \<Longrightarrow> start < j \<and> j \<le> length input"
  using skipSpaces_bounds [of start input]
  by (fastforce simp: skipIdentifierCall_def Let_def dest: skipBalanced_bounds split: if_splits sum.splits)

function identifierCalls :: "string \<Rightarrow> nat \<Rightarrow> skip_result" where
  "identifierCalls input i =
     (case skipIdentifierCall input i of
        Inl err \<Rightarrow> Inl err
      | Inr None \<Rightarrow> Inr i
      | Inr (Some next) \<Rightarrow> identifierCalls input next)"
  by pat_completeness auto
termination
  by (relation "measure (\<lambda>(s, i). length s - i)") (auto dest: skipIdentifierCall_bounds)

declare identifierCalls.simps [simp del]

definition skipIdentifierExpr :: "unicode \<Rightarrow> string \<Rightarrow> nat \<Rightarrow> skip_result" where
  "skipIdentifierExpr u input start = identifierCalls input (identifierLoop u input (start + 1))"

lemma identifierCalls_bounds:
  "identifierCalls input i = Inr j \<Longrightarrow> i \<le> j \<and> (i \<le> length input \<longrightarrow> j \<le> length input)"
proof (induction input i rule: identifierCalls.induct)
  case (1 input i)
  from 1(2) show ?case
    by (subst (asm) identifierCalls.simps)
      (use 1(1) in \<open>fastforce split: sum.splits option.splits dest: skipIdentifierCall_bounds\<close>)
qed

definition hasCastPrefix :: "string \<Rightarrow> nat \<Rightarrow> bool" where
  "hasCastPrefix input start \<longleftrightarrow>
     start + 1 < length input \<and> input ! start = CHR '':'' \<and> input ! (start + 1) = CHR '':''"

definition isCastIdentifierChar :: "unicode \<Rightarrow> nat \<Rightarrow> bool" where
  "isCastIdentifierChar u r \<longleftrightarrow> isIdentifierPart u r \<or> r = rune_of (CHR ''.'')"

definition hasArraySuffix :: "string \<Rightarrow> nat \<Rightarrow> bool" where
  "hasArraySuffix input start \<longleftrightarrow>
     start + 1 < length input \<and> input ! start = CHR ''['' \<and> input ! (start + 1) = CHR '']''"

function scanCastTypeSuffix :: "unicode \<Rightarrow> string \<Rightarrow> nat \<Rightarrow> nat" where
  "scanCastTypeSuffix u input index =
     (if index < length input then
        if isCastIdentifierChar u (rune_of (input ! index)) then scanCastTypeSuffix u input (index + 1)
        else if hasArraySuffix input index then scanCastTypeSuffix u input (index + 2)
        else index
      else index)"
  by pat_completeness auto
termination by (relation "measure (\<lambda>(u, s, i). length s - i)") auto

declare scanCastTypeSuffix.simps [simp del]

lemma scanCastTypeSuffix_bounds:
  "i \<le> scanCastTypeSuffix u input i \<and> (i \<le> length input \<longrightarrow> scanCastTypeSuffix u input i \<le> length input)"
proof (induction u input i rule: scanCastTypeSuffix.induct)
  case (1 u input i)
  then show ?case by (subst (1 2) scanCastTypeSuffix.simps) (auto simp: hasArraySuffix_def)
qed

definition skipCastSuffix :: "unicode \<Rightarrow> string \<Rightarrow> nat \<Rightarrow> skip_option" where
  "skipCastSuffix u input start =
     (if \<not> hasCastPrefix input start then Inr None
      else let index = start + 2
           in if index \<ge> length input \<or> \<not> isIdentifierStart u (rune_of (input ! index)) then Inl errInvalidCastSuffix
              else Inr (Some (scanCastTypeSuffix u input (index + 1))))"

definition skipIndexSuffix :: "string \<Rightarrow> nat \<Rightarrow> skip_option" where
  "skipIndexSuffix input start =
     (if start \<ge> length input \<or> input ! start \<noteq> CHR ''['' then Inr None
      else case skipBalanced input start (CHR ''['') (CHR '']'') of
             Inl err \<Rightarrow> Inl err | Inr index \<Rightarrow> Inr (Some index))"

definition nextExprSuffix :: "unicode \<Rightarrow> string \<Rightarrow> nat \<Rightarrow> skip_option" where
  "nextExprSuffix u input start =
     (let next = skipSpaces input start
      in case skipCastSuffix u input next of
           Inl err \<Rightarrow> Inl err
         | Inr (Some castNext) \<Rightarrow> Inr (Some castNext)
         | Inr None \<Rightarrow> skipIndexSuffix input next)"

lemma skipCastSuffix_bounds: "skipCastSuffix u input i = Inr (Some j) \<Longrightarrow> i < j \<and> j \<le> length input"
  using scanCastTypeSuffix_bounds [of "Suc (Suc (Suc i))" u input]
  by (auto simp: skipCastSuffix_def Let_def hasCastPrefix_def split: if_splits)

lemma skipIndexSuffix_bounds: "skipIndexSuffix input i = Inr (Some j) \<Longrightarrow> i < j \<and> j \<le> length input"
  by (auto simp: skipIndexSuffix_def dest: skipBalanced_bounds split: if_splits sum.splits)

lemma nextExprSuffix_bounds:
  assumes "nextExprSuffix u input i = Inr (Some j)"
  shows "i < j \<and> j \<le> length input"
proof -
  have "skipSpaces input i < j \<and> j \<le> length input"
    using assms by (auto simp: nextExprSuffix_def Let_def split: sum.splits option.splits
        dest: skipCastSuffix_bounds skipIndexSuffix_bounds)
  then show ?thesis using skipSpaces_bounds [of i input] by simp
qed

function skipExprSuffixes :: "unicode \<Rightarrow> string \<Rightarrow> nat \<Rightarrow> skip_result" where
  "skipExprSuffixes u input i =
     (case nextExprSuffix u input i of
        Inl err \<Rightarrow> Inl err
      | Inr None \<Rightarrow> Inr i
      | Inr (Some next) \<Rightarrow> skipExprSuffixes u input next)"
  by pat_completeness auto
termination
  by (relation "measure (\<lambda>(u, s, i). length s - i)") (auto dest: nextExprSuffix_bounds)

declare skipExprSuffixes.simps [simp del]

lemma skipExprSuffixes_bounds:
  "skipExprSuffixes u input i = Inr j \<Longrightarrow> i \<le> j \<and> (i \<le> length input \<longrightarrow> j \<le> length input)"
proof (induction u input i rule: skipExprSuffixes.induct)
  case (1 u input i)
  from 1(2) show ?case
    by (subst (asm) skipExprSuffixes.simps)
      (use 1(1) in \<open>fastforce split: sum.splits option.splits dest: nextExprSuffix_bounds\<close>)
qed

definition skipPlaceholderSample :: "unicode \<Rightarrow> string \<Rightarrow> nat \<Rightarrow> skip_result" where
  "skipPlaceholderSample u input start =
     (case (if input ! start = CHR ''('' then skipBalanced input start (CHR ''('') (CHR '')'')
            else if input ! start = CHR 0x27 \<or> input ! start = CHR 0x22 then skipQuoted input start
            else if isIdentifierStart u (rune_of (input ! start)) then skipIdentifierExpr u input start
            else skipScalarToken input start) of
        Inl err \<Rightarrow> Inl err
      | Inr i \<Rightarrow> skipExprSuffixes u input i)"

lemma sample_skip_bounds:
  assumes "skipPlaceholderSample u input start = Inr stop" and "start < length input"
  shows "start < stop \<and> stop \<le> length input"
proof -
  obtain i where i: "skipExprSuffixes u input i = Inr stop" and "start < i \<and> i \<le> length input"
    using assms identifierLoop_bounds [of "start + 1" u input] scalarLoop_bounds [of start input]
    by (fastforce simp: skipPlaceholderSample_def skipIdentifierExpr_def skipScalarToken_def Let_def
        split: if_splits sum.splits dest: skipBalanced_bounds skipQuoted_bounds identifierCalls_bounds)
  then show ?thesis using skipExprSuffixes_bounds [OF i] by simp
qed

text \<open>
  C25. A sample literal that starts inside the input ends strictly behind its start and not behind the
  end of the input, for every classification of letters and digits: the renderer always moves forward
  and never slices out of range.
\<close>

theorem sample_in_bounds:
  "skipPlaceholderSample u input start = Inr stop \<Longrightarrow> start < length input \<Longrightarrow> start < stop \<and> stop \<le> length input"
  by (rule sample_skip_bounds)

theorem sample_in_bounds_witness:
  "skipPlaceholderSample ascii_unicode ''now() , 1'' 0 = Inr 5 \<and> (0::nat) < 5 \<and> 5 \<le> length ''now() , 1''"
proof -
  have "skipPlaceholderSample ascii_unicode ''now() , 1'' 0 = Inr 5" by code_simp
  then show ?thesis using sample_in_bounds [of ascii_unicode "''now() , 1''" 0 5] by simp
qed

end
