(* ===== verification/Sql_Params.thy ===== *)
theory Sql_Params
  imports Go_Strings "HOL-Library.AList"
begin

text \<open>
  Parameter lookup of \<^verbatim>\<open>dbx/sqltmplx/render\<close> (\<^verbatim>\<open>lookup.go\<close>, \<^verbatim>\<open>metadata.go\<close>, \<^verbatim>\<open>params.go\<close>, the environment part
  of \<^verbatim>\<open>context.go\<close>). \<open>gval\<close> is a Go value as \<open>reflect\<close> shows it to this code: a struct has its fields
  (name, exported, tags, value) and the methods of its value and of its pointer type (name, number of
  inputs with the receiver, number of outputs, result); a map has its entries, with a flag for keys of
  string kind; \<open>GOverlay\<close> is \<open>paramOverlay\<close>. The two metadata caches (samber/hot) are keyed by type and
  hold a function of the type, so the metadata is computed where it is used. Shown: an overlaid
  parameter shadows the base under every spelling of its name, and nothing else.
\<close>

datatype gval =
    GNil
  | GBool bool
  | GInt int
  | GStr string
  | GPtr "gval option"
  | GSlice "gval list"
  | GArray "gval list"
  | GMap bool "(string \<times> gval) list"
  | GStruct "(string \<times> bool \<times> (string \<times> string) list \<times> gval) list"
      "(string \<times> nat \<times> nat \<times> gval) list" "(string \<times> nat \<times> nat \<times> gval) list"
  | GOverlay gval "(string \<times> string \<times> gval) list"
  | GOther string

type_synonym 'v field = "string \<times> bool \<times> (string \<times> string) list \<times> 'v"
type_synonym 'v meth = "string \<times> nat \<times> nat \<times> 'v"

subsection \<open>Metadata\<close>

text \<open>\<open>f.Tag.Get\<close> gives the empty string for an absent tag.\<close>

definition tagGet :: "(string \<times> string) list \<Rightarrow> string \<Rightarrow> string" where
  "tagGet tags key = (case map_of tags key of None \<Rightarrow> [] | Some v \<Rightarrow> v)"

definition fieldAliases :: "(string \<times> string) list \<Rightarrow> string list" where
  "fieldAliases tags =
     foldl (\<lambda>aliases tagKey.
        let raw = TrimSpace (tagGet tags tagKey)
        in if raw = [] \<or> raw = ''-'' then aliases
           else let alias = TrimSpace (fst (go_cut raw '',''))
                in if alias = [] \<or> alias = ''-'' then aliases
                   else if alias \<in> set aliases then aliases
                   else aliases @ [alias])
       [] [''sqltmpl'', ''db'', ''json'']"

record structFieldMetadata =
  fm_index :: nat
  fm_name :: string
  fm_foldedName :: string
  fm_aliases :: "string list"
  fm_envKeys :: "string list"

definition addEnvKey :: "string list \<Rightarrow> string \<Rightarrow> string list" where
  "addEnvKey keys key = (if key = [] \<or> key \<in> set keys then keys else keys @ [key])"

definition fieldEnvKeys :: "unicode \<Rightarrow> string \<Rightarrow> string list \<Rightarrow> string list" where
  "fieldEnvKeys u name aliases =
     foldl addEnvKey (addEnvKey (addEnvKey [] name) (ToLower u name)) aliases"

record structMetadata =
  sm_fields :: "structFieldMetadata list"
  sm_lookup :: "string \<rightharpoonup> structFieldMetadata"
  sm_envKeyCount :: nat

definition buildStructMetadata :: "unicode \<Rightarrow> 'v field list \<Rightarrow> structMetadata" where
  "buildStructMetadata u fs =
     (let fields = map (\<lambda>(index, name, exported, tags, v).
            \<lparr>fm_index = index, fm_name = name, fm_foldedName = ToLower u name, fm_aliases = fieldAliases tags,
             fm_envKeys = fieldEnvKeys u name (fieldAliases tags)\<rparr>)
          (filter (\<lambda>(index, name, exported, tags, v). exported) (enumerate 0 fs));
        lookup = foldl (\<lambda>m f.
            foldl (\<lambda>m alias. (m(alias \<mapsto> f))(ToLower u alias \<mapsto> f))
              ((m(fm_name f \<mapsto> f))(fm_foldedName f \<mapsto> f)) (fm_aliases f)) Map.empty fields
      in \<lparr>sm_fields = fields, sm_lookup = lookup,
          sm_envKeyCount = foldl (\<lambda>n f. n + length (fm_envKeys f)) 0 fields\<rparr>)"

definition buildMethodMetadata :: "unicode \<Rightarrow> 'v meth list \<Rightarrow> (string \<rightharpoonup> nat)" where
  "buildMethodMetadata u ms =
     foldl (\<lambda>m (index, name, numIn, numOut, v).
        if numIn \<noteq> 1 \<or> numOut \<noteq> 1 then m else (m(name \<mapsto> index))(ToLower u name \<mapsto> index))
       Map.empty (enumerate 0 ms)"

definition lookupStructField :: "unicode \<Rightarrow> structMetadata \<Rightarrow> string \<Rightarrow> structFieldMetadata option" where
  "lookupStructField u meta name =
     (case sm_lookup meta name of
        Some f \<Rightarrow> Some f
      | None \<Rightarrow> let folded = ToLower u name in if folded = name then None else sm_lookup meta folded)"

definition lookupZeroArgMethodIndex :: "unicode \<Rightarrow> (string \<rightharpoonup> nat) \<Rightarrow> string \<Rightarrow> nat option" where
  "lookupZeroArgMethodIndex u meta name =
     (case meta name of
        Some i \<Rightarrow> Some i
      | None \<Rightarrow> let folded = ToLower u name in if folded = name then None else meta folded)"

definition callZeroArgMethodOn :: "unicode \<Rightarrow> 'v meth list \<Rightarrow> string \<Rightarrow> 'v option" where
  "callZeroArgMethodOn u ms name =
     (case lookupZeroArgMethodIndex u (buildMethodMetadata u ms) name of
        None \<Rightarrow> None
      | Some index \<Rightarrow> (case ms ! index of (_, _, _, result) \<Rightarrow> Some result))"

text \<open>The pointer's methods are tried when the value is addressable.\<close>

definition callZeroArgMethod ::
    "unicode \<Rightarrow> 'v meth list \<Rightarrow> 'v meth list \<Rightarrow> bool \<Rightarrow> string \<Rightarrow> 'v option" where
  "callZeroArgMethod u ms ptr_ms canAddr name =
     (case callZeroArgMethodOn u ms name of
        Some v \<Rightarrow> Some v
      | None \<Rightarrow> if canAddr then callZeroArgMethodOn u ptr_ms name else None)"

subsection \<open>Lookup\<close>

text \<open>The value behind the pointers, and whether it is addressable.\<close>

fun indirectValue :: "bool \<Rightarrow> gval \<Rightarrow> (gval \<times> bool) option" where
  "indirectValue addr GNil = None"
| "indirectValue addr (GPtr None) = None"
| "indirectValue addr (GPtr (Some v)) = indirectValue True v"
| "indirectValue addr v = Some (v, addr)"

definition reflectMapStringValue :: "(string \<times> gval) list \<Rightarrow> string \<Rightarrow> gval option" where
  "reflectMapStringValue entries key = map_of entries key"

definition lookupMapValue :: "unicode \<Rightarrow> bool \<Rightarrow> (string \<times> gval) list \<Rightarrow> string \<Rightarrow> gval option" where
  "lookupMapValue u stringKeys entries name =
     (if \<not> stringKeys then None
      else case reflectMapStringValue entries name of
        Some v \<Rightarrow> Some v
      | None \<Rightarrow>
          (case (let folded = ToLower u name
                 in if folded \<noteq> name then reflectMapStringValue entries folded else None) of
             Some v \<Rightarrow> Some v
           | None \<Rightarrow> let upper = ToUpper u name
                     in if upper \<noteq> name then reflectMapStringValue entries upper else None))"

definition lookupStructValue ::
    "unicode \<Rightarrow> gval field list \<Rightarrow> gval meth list \<Rightarrow> gval meth list \<Rightarrow> bool \<Rightarrow> string \<Rightarrow> gval option" where
  "lookupStructValue u fs ms ptr_ms canAddr name =
     (case lookupStructField u (buildStructMetadata u fs) name of
        Some field \<Rightarrow> (case fs ! fm_index field of (_, _, _, v) \<Rightarrow> Some v)
      | None \<Rightarrow> callZeroArgMethod u ms ptr_ms canAddr name)"

subsection \<open>Environments\<close>

definition assignStructField :: "(string \<times> gval) list \<Rightarrow> structFieldMetadata \<Rightarrow> gval \<Rightarrow> (string \<times> gval) list" where
  "assignStructField out field v = foldl (\<lambda>out key. AList.update key v out) out (fm_envKeys field)"

definition structEnv :: "unicode \<Rightarrow> gval field list \<Rightarrow> (string \<times> gval) list" where
  "structEnv u fs =
     foldl (\<lambda>out field. case fs ! fm_index field of (_, _, _, v) \<Rightarrow> assignStructField out field v)
       [] (sm_fields (buildStructMetadata u fs))"

definition mapEnv :: "bool \<Rightarrow> (string \<times> gval) list \<Rightarrow> (string \<times> gval) list" where
  "mapEnv stringKeys entries =
     (if stringKeys then foldl (\<lambda>out (k, v). AList.update k v out) [] entries else [])"

text \<open>\<open>envMap\<close> with \<open>paramOverlay.SQLTemplateParamEnv\<close>.\<close>

definition overlayEnv :: "(string \<times> gval) list \<Rightarrow> (string \<times> string \<times> gval) list \<Rightarrow> (string \<times> gval) list" where
  "overlayEnv env vals =
     foldl (\<lambda>env (key, name, v).
        let env = AList.update key v env in if name \<noteq> [] then AList.update name v env else env) env vals"

fun envMap :: "unicode \<Rightarrow> gval \<Rightarrow> (string \<times> gval) list" where
  "envMap u (GOverlay base vals) = overlayEnv (envMap u base) vals"
| "envMap u params =
     (case indirectValue False params of
        None \<Rightarrow> []
      | Some (GMap stringKeys entries, _) \<Rightarrow> mapEnv stringKeys entries
      | Some (GStruct fs _ _, _) \<Rightarrow> structEnv u fs
      | Some _ \<Rightarrow> [])"

definition SQLTemplateParamEnv :: "unicode \<Rightarrow> gval \<Rightarrow> (string \<times> string \<times> gval) list \<Rightarrow> (string \<times> gval) list" where
  "SQLTemplateParamEnv u base vals = overlayEnv (envMap u base) vals"

definition normalizeParamName :: "unicode \<Rightarrow> string \<Rightarrow> string" where
  "normalizeParamName u name = ToLower u (TrimSpace name)"

text \<open>An overlay that misses is then inspected as the struct it is: no exported field, and the two
  exported methods of \<open>paramOverlay\<close>.\<close>

definition overlay_methods :: "unicode \<Rightarrow> gval \<Rightarrow> (string \<times> string \<times> gval) list \<Rightarrow> gval meth list" where
  "overlay_methods u base vals =
     [(''LookupSQLTemplateParam'', 2, 2, GNil),
      (''SQLTemplateParamEnv'', 1, 1, GMap True (SQLTemplateParamEnv u base vals))]"

fun lookupOneValue :: "unicode \<Rightarrow> gval \<Rightarrow> string \<Rightarrow> gval option" where
  "lookupOneValue u (GOverlay base vals) name =
     (case (case map_of vals (normalizeParamName u name) of
              Some (_, v) \<Rightarrow> Some v | None \<Rightarrow> lookupOneValue u base name) of
        Some v \<Rightarrow> Some v
      | None \<Rightarrow> lookupStructValue u [] (overlay_methods u base vals) (overlay_methods u base vals) False name)"
| "lookupOneValue u params name =
     (case indirectValue False params of
        None \<Rightarrow> None
      | Some (GMap stringKeys entries, _) \<Rightarrow> lookupMapValue u stringKeys entries name
      | Some (GStruct fs ms ptr_ms, canAddr) \<Rightarrow> lookupStructValue u fs ms ptr_ms canAddr name
      | Some _ \<Rightarrow> None)"

definition LookupSQLTemplateParam ::
    "unicode \<Rightarrow> gval \<Rightarrow> (string \<times> string \<times> gval) list \<Rightarrow> string \<Rightarrow> gval option" where
  "LookupSQLTemplateParam u base vals name =
     (case map_of vals (normalizeParamName u name) of
        Some (_, v) \<Rightarrow> Some v | None \<Rightarrow> lookupOneValue u base name)"

text \<open>The loop over the dotted path.\<close>

function lookupValue :: "unicode \<Rightarrow> gval \<Rightarrow> string \<Rightarrow> gval option" where
  "lookupValue u cur remaining =
     (if remaining = [] then Some cur
      else case go_cut remaining ''.'' of
        (part, rest, found) \<Rightarrow>
          (case lookupOneValue u cur part of
             None \<Rightarrow> None
           | Some next \<Rightarrow> if found then lookupValue u next rest else Some next))"
  by pat_completeness auto
termination
  by (relation "measure (\<lambda>(u, c, r). length r)")
    (auto simp: go_cut_def split: option.splits dest: go_index_Some(2))

declare lookupValue.simps [simp del]

subsection \<open>Overlays\<close>

definition WithParam :: "unicode \<Rightarrow> gval \<Rightarrow> string \<Rightarrow> gval \<Rightarrow> gval" where
  "WithParam u params name v =
     (let key = normalizeParamName u name
      in if key = [] then params else GOverlay params [(key, TrimSpace name, v)])"

text \<open>\<open>WithParams\<close>, over the entries in the order the map is iterated.\<close>

definition WithParams :: "unicode \<Rightarrow> gval \<Rightarrow> (string \<times> gval) list \<Rightarrow> gval" where
  "WithParams u params vals =
     (let filtered = foldl (\<lambda>m (name, v).
            let key = normalizeParamName u name
            in if key \<noteq> [] then AList.update key (TrimSpace name, v) m else m) [] vals
      in if filtered = [] then params else GOverlay params filtered)"

text \<open>The helpers that templates see. \<open>lo.IsEmpty\<close> on a value is the parameter \<open>lo_IsEmpty\<close>.\<close>

definition isEmpty :: "gval \<Rightarrow> bool" where
  "isEmpty v =
     (case indirectValue False v of
        None \<Rightarrow> True
      | Some (GStr s, _) \<Rightarrow> s = []
      | Some (GArray xs, _) \<Rightarrow> xs = []
      | Some (GSlice xs, _) \<Rightarrow> xs = []
      | Some (GMap _ entries, _) \<Rightarrow> entries = []
      | Some _ \<Rightarrow> False)"

definition isBlank :: "(gval \<Rightarrow> bool) \<Rightarrow> gval \<Rightarrow> bool" where
  "isBlank lo_IsEmpty v =
     (case indirectValue False v of None \<Rightarrow> True | Some (rv, _) \<Rightarrow> lo_IsEmpty rv)"

definition isPresent :: "(gval \<Rightarrow> bool) \<Rightarrow> gval \<Rightarrow> bool" where
  "isPresent lo_IsEmpty v \<longleftrightarrow> \<not> isBlank lo_IsEmpty v"

subsection \<open>What an overlay does\<close>

text \<open>
  A parameter overlaid with \<open>WithParam\<close> under a name that is not blank is found under every spelling
  that normalizes to the same key, whatever the base holds; under any other name the base answers,
  and where the base has nothing only \<open>paramOverlay\<close>'s own exported method can.
\<close>

theorem with_param_shadows:
  assumes "normalizeParamName u name \<noteq> []"
  shows "lookupOneValue u (WithParam u params name v) m =
     (if normalizeParamName u m = normalizeParamName u name then Some v
      else case lookupOneValue u params m of
        Some x \<Rightarrow> Some x
      | None \<Rightarrow> callZeroArgMethodOn u
           (overlay_methods u params [(normalizeParamName u name, TrimSpace name, v)]) m)"
  using assms
  by (auto simp: WithParam_def Let_def lookupStructValue_def lookupStructField_def buildStructMetadata_def
      callZeroArgMethod_def split: option.splits)

theorem with_param_shadows_witness:
  "lookupOneValue ascii_unicode (WithParam ascii_unicode (GMap True [(''page'', GInt 1), (''size'', GInt 10)]) ''Page'' (GInt 7)) ''PAGE''
     = Some (GInt 7)
   \<and> lookupOneValue ascii_unicode (WithParam ascii_unicode (GMap True [(''page'', GInt 1), (''size'', GInt 10)]) ''Page'' (GInt 7)) ''SIZE''
     = Some (GInt 10)"
proof -
  have n: "normalizeParamName ascii_unicode ''Page'' \<noteq> []" by code_simp
  have eq: "normalizeParamName ascii_unicode ''PAGE'' = normalizeParamName ascii_unicode ''Page''"
    "normalizeParamName ascii_unicode ''SIZE'' \<noteq> normalizeParamName ascii_unicode ''Page''" by code_simp+
  have base: "lookupOneValue ascii_unicode (GMap True [(''page'', GInt 1), (''size'', GInt 10)]) ''SIZE'' = Some (GInt 10)"
    by code_simp
  show ?thesis unfolding with_param_shadows [OF n] by (simp add: eq base del: lookupOneValue.simps)
qed

end
