(* ===== verification/Sql_Render.thy ===== *)
theory Sql_Render
  imports Sql_Parse Sql_Skip Sql_Params
begin

text \<open>
  \<^verbatim>\<open>dbx/sqltmplx/render\<close> (\<^verbatim>\<open>bind.go\<close>, \<^verbatim>\<open>renderer.go\<close>, \<^verbatim>\<open>cleanup.go\<close>, \<^verbatim>\<open>context.go\<close>, \<^verbatim>\<open>eval.go\<close>) and the dialects'
  \<open>BindVar\<close>. The renderer's state is the argument list, the bind counter and the cached expression
  environment. Parameters: the Unicode tables, the dialect's \<open>BindVar\<close>, the runner of compiled
  expressions (\<open>expr-lang\<close>) and the two functions of samber/lo. The regular expressions of
  \<^verbatim>\<open>cleanup.go\<close> are anchored, so each replacement touches at most one place; they are written out as
  functions on the text.
\<close>

record 'p renderer =
  uni :: unicode
  BindVar :: "nat \<Rightarrow> string"
  exprRunner :: "('p \<Rightarrow> (string \<times> gval) list \<Rightarrow> string + gval) option"
  lo_IsEmpty :: "string \<Rightarrow> bool"
  lo_Compact :: "string list \<Rightarrow> string list"

text \<open>What the code relies on from samber/lo, as documented there.\<close>

definition lo_ok :: "'p renderer \<Rightarrow> bool" where
  "lo_ok R \<longleftrightarrow> (\<forall>s. lo_IsEmpty R s = (s = [])) \<and> (\<forall>xs. lo_Compact R xs = filter (\<lambda>s. s \<noteq> []) xs)"

subsection \<open>State\<close>

record rstate =
  st_params :: gval
  st_args :: "gval list"
  st_bindN :: nat
  st_env :: "(string \<times> gval) list option"

definition newState :: "gval \<Rightarrow> rstate" where
  "newState params = \<lparr>st_params = params, st_args = [], st_bindN = 0, st_env = None\<rparr>"

definition nextBind :: "'p renderer \<Rightarrow> rstate \<Rightarrow> string \<times> rstate" where
  "nextBind R st = (BindVar R (st_bindN st + 1), st\<lparr>st_bindN := st_bindN st + 1\<rparr>)"

text \<open>The environment of the expressions: the parameters, and the three helper functions under their
  names.\<close>

definition exprEnv :: "unicode \<Rightarrow> gval \<Rightarrow> (string \<times> gval) list" where
  "exprEnv u params =
     AList.update ''present'' (GOther ''isPresent'')
      (AList.update ''blank'' (GOther ''isBlank'')
        (AList.update ''empty'' (GOther ''isEmpty'') (envMap u params)))"

definition state_exprEnv :: "'p renderer \<Rightarrow> rstate \<Rightarrow> (string \<times> gval) list \<times> rstate" where
  "state_exprEnv R st =
     (case st_env st of
        Some env \<Rightarrow> (env, st)
      | None \<Rightarrow> let env = exprEnv (uni R) (st_params st) in (env, st\<lparr>st_env := Some env\<rparr>))"

definition exprRun :: "'p renderer \<Rightarrow> 'p \<Rightarrow> (string \<times> gval) list \<Rightarrow> render_error + gval" where
  "exprRun R program env =
     (case exprRunner R of
        None \<Rightarrow> Inl errExprRunnerNil
      | Some runner \<Rightarrow> (case runner program env of Inl err \<Rightarrow> Inl (RunExpr err) | Inr v \<Rightarrow> Inr v))"

subsection \<open>Placeholders\<close>

definition isParamPath :: "unicode \<Rightarrow> string \<Rightarrow> bool" where
  "isParamPath u s =
     (if s = [] then False
      else list_all (\<lambda>(i, r).
        if r = rune_of (CHR ''.'') then \<not> (i = 0 \<or> i = length s - 1)
        else r = rune_of (CHR ''_'') \<or> IsLetter u r \<or> IsDigit u r) (go_runes s))"

definition parseCommentPlaceholder :: "unicode \<Rightarrow> string \<Rightarrow> nat \<Rightarrow> render_error + (string \<times> nat) option" where
  "parseCommentPlaceholder u input start =
     (case go_index (drop (start + 2) input) ''*/'' of
        None \<Rightarrow> Inl errUnterminatedSQLComment
      | Some endComment \<Rightarrow>
          let commentEnd = start + 2 + endComment + 2;
              raw = TrimSpace (take endComment (drop (start + 2) input))
          in if raw = [] \<or> HasPrefix raw ''%'' \<or> \<not> isParamPath u raw then Inr None
             else Inr (Some (raw, commentEnd)))"

definition placeholderSampleStart :: "string \<Rightarrow> nat \<Rightarrow> string \<Rightarrow> skip_result" where
  "placeholderSampleStart input commentEnd raw =
     (let start = skipSpaces input commentEnd
      in if start \<ge> length input then Inl (MissingTestLiteral raw) else Inr start)"

definition lookupParam :: "unicode \<Rightarrow> gval \<Rightarrow> string \<Rightarrow> render_error + gval" where
  "lookupParam u params name =
     (case lookupValue u params name of None \<Rightarrow> Inl (ParamNotFound name) | Some v \<Rightarrow> Inr v)"

fun spreadValue :: "gval \<Rightarrow> render_error + gval list" where
  "spreadValue (GPtr None) = Inl errSpreadParamEmpty"
| "spreadValue (GPtr (Some v)) = spreadValue v"
| "spreadValue GNil = Inl errSpreadParamEmpty"
| "spreadValue (GSlice xs) = (if xs = [] then Inl errSpreadParamEmpty else Inr xs)"
| "spreadValue (GArray xs) = (if xs = [] then Inl errSpreadParamEmpty else Inr xs)"
| "spreadValue _ = Inl errSpreadParamType"

definition appendSpreadBind :: "string \<Rightarrow> nat \<Rightarrow> string \<Rightarrow> string" where
  "appendSpreadBind out index bind = (if index > 0 then out @ '', '' else out) @ bind"

fun spreadLoop :: "'p renderer \<Rightarrow> gval list \<Rightarrow> nat \<Rightarrow> string \<Rightarrow> rstate \<Rightarrow> string \<times> rstate" where
  "spreadLoop R [] j out st = (out, st)"
| "spreadLoop R (v # vs) j out st =
     (case nextBind R st of (bind, st1) \<Rightarrow>
        spreadLoop R vs (j + 1) (appendSpreadBind out j bind) (st1\<lparr>st_args := st_args st1 @ [v]\<rparr>))"

definition bindSpreadParam :: "'p renderer \<Rightarrow> gval \<Rightarrow> rstate \<Rightarrow> render_error + string \<times> rstate" where
  "bindSpreadParam R val st =
     (case spreadValue val of Inl err \<Rightarrow> Inl err | Inr vs \<Rightarrow> Inr (spreadLoop R vs 0 [] st))"

definition bindParam :: "'p renderer \<Rightarrow> string \<Rightarrow> bool \<Rightarrow> rstate \<Rightarrow> render_error + string \<times> rstate" where
  "bindParam R name spread st =
     (case lookupParam (uni R) (st_params st) name of
        Inl err \<Rightarrow> Inl err
      | Inr val \<Rightarrow>
          if \<not> spread then Inr (nextBind R (st\<lparr>st_args := st_args st @ [val]\<rparr>))
          else bindSpreadParam R val st)"

text \<open>\<open>Inr None\<close>: the comment is no placeholder.\<close>

definition bindCommentPlaceholder ::
    "'p renderer \<Rightarrow> string \<Rightarrow> nat \<Rightarrow> rstate \<Rightarrow> render_error + (string \<times> nat \<times> rstate) option" where
  "bindCommentPlaceholder R input i st =
     (case parseCommentPlaceholder (uni R) input i of
        Inl err \<Rightarrow> Inl err
      | Inr None \<Rightarrow> Inr None
      | Inr (Some (raw, commentEnd)) \<Rightarrow>
         (case placeholderSampleStart input commentEnd raw of
            Inl err \<Rightarrow> Inl err
          | Inr sampleStart \<Rightarrow>
             let spread = input ! sampleStart = CHR ''('' \<or> looksLikeCollectionSample (uni R) input sampleStart
             in case bindParam R raw spread st of
                  Inl err \<Rightarrow> Inl err
                | Inr (out, st') \<Rightarrow>
                   (case skipPlaceholderSample (uni R) input sampleStart of
                      Inl err \<Rightarrow> Inl (InvalidTestLiteral raw err)
                    | Inr k \<Rightarrow> Inr (Some (out, k, st')))))"

lemma bindCommentPlaceholder_progress:
  assumes "bindCommentPlaceholder R input i st = Inr (Some (out, k, st'))"
  shows "i < k \<and> k \<le> length input"
proof -
  obtain raw commentEnd sampleStart where
    "parseCommentPlaceholder (uni R) input i = Inr (Some (raw, commentEnd))"
    and start: "placeholderSampleStart input commentEnd raw = Inr sampleStart"
    and skip: "skipPlaceholderSample (uni R) input sampleStart = Inr k"
    using assms by (auto simp: bindCommentPlaceholder_def Let_def split: sum.splits option.splits prod.splits)
  then have "i + 2 \<le> commentEnd" by (auto simp: parseCommentPlaceholder_def Let_def split: option.splits if_splits)
  moreover have "commentEnd \<le> sampleStart" "sampleStart < length input"
    using start skipSpaces_bounds [of commentEnd input] by (auto simp: placeholderSampleStart_def Let_def split: if_splits)
  ultimately show ?thesis using sample_skip_bounds [OF skip] by simp
qed

function bindLoop :: "'p renderer \<Rightarrow> string \<Rightarrow> nat \<Rightarrow> string \<Rightarrow> rstate \<Rightarrow> render_error + string \<times> rstate" where
  "bindLoop R input i out st =
     (if i < length input then
        (case (if i + 1 < length input \<and> input ! i = CHR ''/'' \<and> input ! (i + 1) = CHR ''*''
               then bindCommentPlaceholder R input i st else Inr None) of
           Inl err \<Rightarrow> Inl err
         | Inr (Some (bound, next, st')) \<Rightarrow> bindLoop R input next (out @ bound) st'
         | Inr None \<Rightarrow> bindLoop R input (i + 1) (out @ [input ! i]) st)
      else Inr (out, st))"
  by pat_completeness auto
termination
  by (relation "measure (\<lambda>(R, input, i, out, st). length input - i)")
    (auto split: if_splits dest: bindCommentPlaceholder_progress)

declare bindLoop.simps [simp del]

definition bindText :: "'p renderer \<Rightarrow> string \<Rightarrow> rstate \<Rightarrow> render_error + string \<times> rstate" where
  "bindText R input st = bindLoop R input 0 [] st"

subsection \<open>Clean-up\<close>

text \<open>\<open>\s\<close> of Go's regular expressions.\<close>

definition isReSpace :: "char \<Rightarrow> bool" where
  "isReSpace c \<longleftrightarrow> (of_char c :: nat) \<in> {9, 10, 12, 13, 32}"

text \<open>\<open>leadingBool\<close>: \<open>(?is)^\s*(AND|OR)\b\<close>, replaced by nothing.\<close>

definition foldsTo :: "string \<Rightarrow> string \<Rightarrow> bool" where
  "foldsTo w s \<longleftrightarrow> length w \<le> length s
     \<and> list_all2 (\<lambda>a b. a = b \<or> (of_char b :: nat) = of_char a + 32) w (take (length w) s)
     \<and> (drop (length w) s = [] \<or> \<not> isWordByte (hd (drop (length w) s)))"

definition leadingBool_strip :: "string \<Rightarrow> string" where
  "leadingBool_strip s =
     (let t = dropWhile isReSpace s
      in if foldsTo ''AND'' t then drop 3 t else if foldsTo ''OR'' t then drop 2 t else s)"

text \<open>\<open>trailingComma\<close>: \<open>(?s),\s*$\<close>, replaced by nothing.\<close>

definition trailingComma_strip :: "string \<Rightarrow> string" where
  "trailingComma_strip s =
     (case dropWhile isReSpace (rev s) of [] \<Rightarrow> s | c # t \<Rightarrow> if c = CHR '','' then rev t else s)"

definition cleanupWhere :: "'p renderer \<Rightarrow> string \<Rightarrow> string" where
  "cleanupWhere R s =
     (let s = TrimSpace (leadingBool_strip (TrimSpace s))
      in if lo_IsEmpty R s then [] else ''WHERE '' @ s)"

definition cleanupSet :: "'p renderer \<Rightarrow> string \<Rightarrow> string" where
  "cleanupSet R s =
     (let s = TrimSpace (trailingComma_strip (TrimSpace s))
      in if lo_IsEmpty R s then [] else ''SET '' @ s)"

definition compactWhitespace :: "'p renderer \<Rightarrow> string \<Rightarrow> string" where
  "compactWhitespace R s = Join (lo_Compact R (Fields s)) '' ''"

subsection \<open>Rendering\<close>

definition evalIf :: "'p renderer \<Rightarrow> 'p \<Rightarrow> rstate \<Rightarrow> render_error + bool \<times> rstate" where
  "evalIf R program st =
     (case state_exprEnv R st of (env, st') \<Rightarrow>
        (case exprRun R program env of
           Inl err \<Rightarrow> Inl err
         | Inr (GBool b) \<Rightarrow> Inr (b, st')
         | Inr _ \<Rightarrow> Inl errIfExpressionNotBool))"

text \<open>\<open>renderCleanedBlock\<close>, after its body is rendered.\<close>

definition cleanBlock :: "(string \<Rightarrow> string) \<Rightarrow> render_error + string \<times> rstate \<Rightarrow> render_error + string \<times> rstate" where
  "cleanBlock cleanup r =
     (case r of
        Inl err \<Rightarrow> Inl err
      | Inr (piece, st) \<Rightarrow>
          let cleaned = cleanup piece
          in if cleaned = [] then Inr ([], st) else Inr ('' '' @ cleaned @ '' '', st))"

fun renderNodes :: "'p renderer \<Rightarrow> 'p node list \<Rightarrow> rstate \<Rightarrow> render_error + string \<times> rstate"
and renderNode :: "'p renderer \<Rightarrow> 'p node \<Rightarrow> rstate \<Rightarrow> render_error + string \<times> rstate" where
  "renderNodes R [] st = Inr ([], st)"
| "renderNodes R (n # ns) st =
     (case renderNode R n st of
        Inl err \<Rightarrow> Inl err
      | Inr (out, st1) \<Rightarrow>
         (case renderNodes R ns st1 of Inl err \<Rightarrow> Inl err | Inr (rest, st2) \<Rightarrow> Inr (out @ rest, st2)))"
| "renderNode R (TextNode s) st = bindText R s st"
| "renderNode R (IfNode rawExpr program body) st =
     (case evalIf R program st of
        Inl err \<Rightarrow> Inl err
      | Inr (b, st') \<Rightarrow> if \<not> b then Inr ([], st') else renderNodes R body st')"
| "renderNode R (WhereNode body) st = cleanBlock (cleanupWhere R) (renderNodes R body st)"
| "renderNode R (SetNode body) st = cleanBlock (cleanupSet R) (renderNodes R body st)"

record result =
  Query :: string
  Args :: "gval list"

definition RenderList :: "'p renderer \<Rightarrow> 'p node list \<Rightarrow> gval \<Rightarrow> render_error + result" where
  "RenderList R nodes params =
     (case renderNodes R nodes (newState params) of
        Inl err \<Rightarrow> Inl err
      | Inr (query, st) \<Rightarrow> Inr \<lparr>Query = compactWhitespace R query, Args = st_args st\<rparr>)"

definition Render :: "'p renderer \<Rightarrow> 'p node list \<Rightarrow> gval \<Rightarrow> render_error + result" where
  "Render R nodes params = RenderList R nodes params"

subsection \<open>Placeholders and arguments\<close>

text \<open>A character that white space, words and commas do not contain survives trimming, clean-up and
  compaction. \<open>?\<close> and \<open>$\<close> are such characters.\<close>

definition marker_char :: "char \<Rightarrow> bool" where
  "marker_char c \<longleftrightarrow> \<not> isWordByte c \<and> c \<noteq> CHR '','' \<and> list_all (\<lambda>e. c \<notin> set e) space_encodings"

lemma count_list_notin: "c \<notin> set s \<Longrightarrow> count_list s c = 0"
  by (simp add: count_list_0_iff)

lemma marker_not_space: "marker_char c \<Longrightarrow> e \<in> set space_encodings \<Longrightarrow> count_list e c = 0"
  by (auto simp: marker_char_def list_all_iff intro: count_list_notin)

lemma count_TrimLeftSpace: "marker_char c \<Longrightarrow> count_list (TrimLeftSpace s) c = count_list s c"
proof (induction s rule: TrimLeftSpace.induct)
  case (1 s)
  show ?case
  proof (cases "spaceLen s = 0")
    case False
    then obtain e where e: "e \<in> set space_encodings" "s = e @ drop (spaceLen s) s" using spaceLen_pos by blast
    have "count_list s c = count_list (drop (spaceLen s) s) c"
      using marker_not_space [OF 1(2) e(1)] e(2) by (metis add_0 count_list_append)
    then show ?thesis using 1 False by (simp add: TrimLeftSpace.simps [of s])
  qed (simp add: TrimLeftSpace.simps [of s])
qed

lemma count_TrimRightSpace: "marker_char c \<Longrightarrow> count_list (TrimRightSpace s) c = count_list s c"
proof (induction s rule: TrimRightSpace.induct)
  case (1 s)
  show ?case
  proof (cases "spaceLenLast s = 0")
    case False
    then obtain e where e: "e \<in> set space_encodings" "s = take (length s - spaceLenLast s) s @ e"
      using spaceLenLast_pos by blast
    have "count_list s c = count_list (take (length s - spaceLenLast s) s) c"
      using marker_not_space [OF 1(2) e(1)] e(2) by (metis add_0_right count_list_append)
    then show ?thesis using 1 False by (simp add: TrimRightSpace.simps [of s])
  qed (simp add: TrimRightSpace.simps [of s])
qed

lemma count_TrimSpace: "marker_char c \<Longrightarrow> count_list (TrimSpace s) c = count_list s c"
  by (simp add: TrimSpace_def count_TrimLeftSpace count_TrimRightSpace)

lemma isReSpace_encoding: "isReSpace x \<Longrightarrow> [x] \<in> set space_encodings"
proof -
  have enc: "[char_of (9::nat)] \<in> set space_encodings" "[char_of (10::nat)] \<in> set space_encodings"
    "[char_of (12::nat)] \<in> set space_encodings" "[char_of (13::nat)] \<in> set space_encodings"
    "[char_of (32::nat)] \<in> set space_encodings" by code_simp+
  assume "isReSpace x"
  then obtain n :: nat where n: "of_char x = n" "n \<in> {9, 10, 12, 13, 32}" by (simp add: isReSpace_def)
  from n(1) have "x = char_of n" by (metis char_of_char)
  then show ?thesis using n(2) enc by blast
qed

lemma marker_not_letters:
  assumes c: "marker_char c"
  shows "c \<notin> set ''WHERE ''" and "c \<notin> set ''SET ''" and "c \<noteq> CHR '' ''"
proof -
  have words: "list_all isWordByte ''WHERE''" "list_all isWordByte ''SET''" by code_simp+
  have "[CHR '' ''] \<in> set space_encodings" by code_simp
  then show sp: "c \<noteq> CHR '' ''" using c by (auto simp: marker_char_def list_all_iff)
  show "c \<notin> set ''WHERE ''" and "c \<notin> set ''SET ''"
    using words sp c by (auto simp: marker_char_def)
qed

lemma count_spaces: "marker_char c \<Longrightarrow> count_list (takeWhile isReSpace s) c = 0"
proof (rule count_list_notin, rule notI)
  assume c: "marker_char c" "c \<in> set (takeWhile isReSpace s)"
  then have "[c] \<in> set space_encodings" by (blast dest: set_takeWhileD isReSpace_encoding)
  then show False using marker_not_space [OF c(1)] by fastforce
qed

lemma count_dropWhile: "marker_char c \<Longrightarrow> count_list (dropWhile isReSpace s) c = count_list s c"
  using count_spaces by (metis add_0 count_list_append takeWhile_dropWhile_id)

lemma foldsTo_words:
  assumes "foldsTo w s" and "list_all (\<lambda>a. 65 \<le> (of_char a :: nat) \<and> (of_char a :: nat) \<le> 90) w" and "marker_char c"
  shows "count_list (drop (length w) s) c = count_list s c"
proof -
  have "isWordByte b" if b: "b \<in> set (take (length w) s)" for b
  proof -
    obtain i where i: "i < length (take (length w) s)" "b = take (length w) s ! i"
      using b by (metis in_set_conv_nth)
    have "list_all2 (\<lambda>a b. a = b \<or> (of_char b :: nat) = of_char a + 32) w (take (length w) s)"
      using assms(1) by (simp add: foldsTo_def)
    then have "w ! i = b \<or> (of_char b :: nat) = of_char (w ! i) + 32" "w ! i \<in> set w"
      using i by (simp_all add: list_all2_conv_all_nth)
    then have "(of_char b :: nat) = of_char (w ! i) \<or> (of_char b :: nat) = of_char (w ! i) + 32"
      and "65 \<le> (of_char (w ! i) :: nat)" "(of_char (w ! i) :: nat) \<le> 90"
      using assms(2) unfolding list_all_iff by blast+
    then show ?thesis unfolding isWordByte_def Let_def by presburger
  qed
  then have "count_list (take (length w) s) c = 0" using assms(3) by (auto simp: marker_char_def intro: count_list_notin)
  then show ?thesis by (metis add_0 append_take_drop_id count_list_append)
qed

lemma count_leadingBool: "marker_char c \<Longrightarrow> count_list (leadingBool_strip s) c = count_list s c"
  using foldsTo_words [of "''AND''" "dropWhile isReSpace s" c] foldsTo_words [of "''OR''" "dropWhile isReSpace s" c]
  by (simp add: leadingBool_strip_def Let_def count_dropWhile numeral_3_eq_3 numeral_2_eq_2)

lemma count_trailingComma:
  assumes "marker_char c"
  shows "count_list (trailingComma_strip s) c = count_list s c"
proof (cases "dropWhile isReSpace (rev s)")
  case (Cons x t)
  then have "count_list (x # t) c = count_list s c"
    using count_dropWhile [OF assms, of "rev s"] by (simp add: count_list_rev)
  then show ?thesis using Cons assms by (auto simp: trailingComma_strip_def marker_char_def count_list_rev)
qed (simp add: trailingComma_strip_def)

lemma count_cleanup:
  assumes "marker_char c" and "lo_ok R"
  shows "count_list (cleanupWhere R s) c = count_list s c" and "count_list (cleanupSet R s) c = count_list s c"
proof -
  have letters: "count_list ''WHERE '' c = 0" "count_list ''SET '' c = 0"
    by (rule count_list_notin, rule marker_not_letters [OF assms(1)])+
  define t u where "t = TrimSpace (leadingBool_strip (TrimSpace s))" and "u = TrimSpace (trailingComma_strip (TrimSpace s))"
  have tu: "count_list t c = count_list s c" "count_list u c = count_list s c"
    by (simp_all add: t_def u_def count_TrimSpace count_leadingBool count_trailingComma assms(1))
  have "cleanupWhere R s = (if t = [] then [] else ''WHERE '' @ t)" "cleanupSet R s = (if u = [] then [] else ''SET '' @ u)"
    using assms(2) by (simp_all add: cleanupWhere_def cleanupSet_def Let_def lo_ok_def t_def u_def)
  then show "count_list (cleanupWhere R s) c = count_list s c" and "count_list (cleanupSet R s) c = count_list s c"
    using tu letters by (cases "t = []"; cases "u = []"; simp only: count_list_append if_True if_False count_list.simps(1))+
qed

lemma count_fieldsLoop:
  assumes "marker_char c"
  shows "sum_list (map (\<lambda>w. count_list w c) (fieldsLoop word s)) = count_list word c + count_list s c"
proof (induction word s rule: fieldsLoop.induct)
  case (2 word x s)
  show ?case
  proof (cases "spaceLen (x # s) = 0")
    case True
    then show ?thesis using 2 by simp
  next
    case False
    then obtain e where e: "e \<in> set space_encodings" "x # s = e @ drop (spaceLen (x # s)) (x # s)"
      using spaceLen_pos [of "x # s"] by auto
    have "count_list (x # s) c = count_list (drop (spaceLen (x # s)) (x # s)) c"
      using marker_not_space [OF assms e(1)] e(2) by (metis add_0 count_list_append)
    then show ?thesis using 2 False by simp
  qed
qed simp

lemma count_Join: "c \<noteq> CHR '' '' \<Longrightarrow> count_list (Join ws '' '') c = sum_list (map (\<lambda>w. count_list w c) ws)"
  by (induction ws "'' ''" rule: Join.induct) simp_all

lemma sum_list_filter_nonempty:
  "sum_list (map (\<lambda>w. count_list w c) (filter (\<lambda>w. w \<noteq> []) ws)) = sum_list (map (\<lambda>w. count_list w c) ws)"
  by (induction ws) auto

lemma count_compact:
  assumes "marker_char c" and "lo_ok R"
  shows "count_list (compactWhitespace R s) c = count_list s c"
proof -
  have "c \<noteq> CHR '' ''" using marker_not_letters(3) [OF assms(1)] .
  then show ?thesis
    using assms count_fieldsLoop [OF assms(1), of "[]" s]
    by (simp add: compactWhitespace_def Fields_def lo_ok_def count_Join sum_list_filter_nonempty)
qed

text \<open>\<open>bound st st' k\<close>: between the two states \<open>k\<close> placeholders were numbered, from the next number on, and
  as many arguments appended.\<close>

definition bound :: "rstate \<Rightarrow> rstate \<Rightarrow> nat \<Rightarrow> bool" where
  "bound st st' k \<longleftrightarrow> st_bindN st' = st_bindN st + k \<and> length (st_args st') = length (st_args st) + k"

lemma bound_refl [simp]: "bound st st 0"
  by (simp add: bound_def)

lemma bound_trans: "bound a b j \<Longrightarrow> bound b d k \<Longrightarrow> bound a d (j + k)"
  by (simp add: bound_def)

definition binds_once :: "'p renderer \<Rightarrow> char \<Rightarrow> bool" where
  "binds_once R c \<longleftrightarrow> marker_char c \<and> (\<forall>n. count_list (BindVar R n) c = 1)"

lemma spreadLoop_bound:
  assumes R: "binds_once R c" and "spreadLoop R vs j out st = (out', st')"
  shows "bound st st' (length vs) \<and> count_list out' c = count_list out c + length vs"
  using assms(2)
proof (induction vs arbitrary: j out st)
  case (Cons v vs)
  have sep: "count_list '', '' c = 0"
    using R marker_not_letters(3) [of c] by (auto simp: binds_once_def marker_char_def)
  have "count_list (BindVar R (Suc (st_bindN st))) c = 1" using R by (simp add: binds_once_def)
  then have "count_list (appendSpreadBind out j (BindVar R (Suc (st_bindN st)))) c = Suc (count_list out c)"
    using sep by (simp add: appendSpreadBind_def)
  then show ?case using Cons.IH Cons.prems by (fastforce simp: nextBind_def bound_def)
qed simp

lemma bindParam_bound:
  assumes R: "binds_once R c" and "bindParam R name spread st = Inr (out, st')"
  shows "bound st st' (count_list out c)"
proof (cases spread)
  case True
  then obtain vs where "spreadLoop R vs 0 [] st = (out, st')"
    using assms(2) by (auto simp: bindParam_def bindSpreadParam_def split: sum.splits)
  from spreadLoop_bound [OF R this] show ?thesis by simp
next
  case False
  have "count_list (BindVar R n) c = 1" for n using R by (simp add: binds_once_def)
  then show ?thesis using False assms(2) by (auto simp: bindParam_def nextBind_def bound_def split: sum.splits)
qed

lemma bindCommentPlaceholder_bound:
  assumes R: "binds_once R c" and "bindCommentPlaceholder R input i st = Inr (Some (out, k, st'))"
  shows "bound st st' (count_list out c)"
proof -
  obtain raw spread where "bindParam R raw spread st = Inr (out, st')"
    using assms(2) by (auto simp: bindCommentPlaceholder_def Let_def split: sum.splits option.splits prod.splits)
  then show ?thesis using bindParam_bound [OF R] by blast
qed

text \<open>One turn of the binding loop.\<close>

lemma bindLoop_cases:
  assumes "bindLoop R input i out st = Inr (out', st')"
  obtains (stop) "length input \<le> i" "out' = out" "st' = st"
  | (byte) "i < length input" "bindLoop R input (i + 1) (out @ [input ! i]) st = Inr (out', st')"
  | (bind) piece k st1 where "i < k" "k \<le> length input" "i < length input"
      "bindCommentPlaceholder R input i st = Inr (Some (piece, k, st1))"
      "bindLoop R input k (out @ piece) st1 = Inr (out', st')"
proof (cases "i < length input")
  case True
  define r where "r = (if i + 1 < length input \<and> input ! i = CHR ''/'' \<and> input ! (i + 1) = CHR ''*''
    then bindCommentPlaceholder R input i st else Inr None)"
  have unfold: "bindLoop R input i out st = (case r of Inl err \<Rightarrow> Inl err
      | Inr (Some (piece, k, st1)) \<Rightarrow> bindLoop R input k (out @ piece) st1
      | Inr None \<Rightarrow> bindLoop R input (i + 1) (out @ [input ! i]) st)"
    using True by (subst bindLoop.simps) (simp only: r_def if_True)
  consider err where "r = Inl err" | "r = Inr None" | piece k st1 where "r = Inr (Some (piece, k, st1))"
    by (cases r) (auto, metis not_None_eq prod_cases3)
  then show ?thesis
  proof cases
    case 1
    then show ?thesis using assms unfold by simp
  next
    case 2
    then show ?thesis using assms unfold by (intro byte [OF True]) simp
  next
    case (3 piece k st1)
    then have comment: "bindCommentPlaceholder R input i st = Inr (Some (piece, k, st1))"
      by (auto simp: r_def split: if_splits)
    have "bindLoop R input k (out @ piece) st1 = Inr (out', st')" using assms unfold 3 by simp
    then show ?thesis using bind [OF _ _ True comment] bindCommentPlaceholder_progress [OF comment] by blast
  qed
next
  case False
  have "bindLoop R input i out st = Inr (out, st)" using False by (subst bindLoop.simps) simp
  then show ?thesis using False assms by (intro stop) simp_all
qed

lemma bindLoop_bound:
  assumes R: "binds_once R c" and c: "c \<notin> set input" and "bindLoop R input i out st = Inr (out', st')"
  shows "\<exists>k. bound st st' k \<and> count_list out' c = count_list out c + k"
  using assms(3)
proof (induction "length input - i" arbitrary: i out st rule: less_induct)
  case less
  from less.prems show ?case
  proof (cases rule: bindLoop_cases)
    case stop
    then show ?thesis by (auto intro!: exI [of _ 0])
  next
    case byte
    moreover from this c have "input ! i \<noteq> c" by auto
    moreover have "length input - (i + 1) < length input - i" using byte(1) by simp
    ultimately show ?thesis using less.hyps [OF _ byte(2)] by auto
  next
    case (bind piece k st1)
    have "length input - k < length input - i" using bind(1,3) by simp
    from less.hyps [OF this bind(5)] obtain m where
      m: "bound st1 st' m" "count_list out' c = count_list (out @ piece) c + m" by blast
    have "bound st st' (count_list piece c + m)"
      using bound_trans bindCommentPlaceholder_bound [OF R bind(4)] m(1) by blast
    with m(2) show ?thesis by auto
  qed
qed

lemma bindText_bound:
  assumes "binds_once R c" and "c \<notin> set input" and "bindText R input st = Inr (out, st')"
  shows "bound st st' (count_list out c)"
  using bindLoop_bound [OF assms(1,2), of 0 "[]" st out st'] assms(3) by (auto simp: bindText_def)

lemma evalIf_bound: "evalIf R p st = Inr (b, st') \<Longrightarrow> bound st st' 0"
  by (auto simp: evalIf_def state_exprEnv_def exprRun_def Let_def bound_def
      split: option.splits sum.splits gval.splits prod.splits)

lemma cleanBlock_bound:
  assumes "cleanBlock f r = Inr (out, st')" and "\<And>piece. count_list (f piece) c = count_list piece c"
    and "\<And>piece. r = Inr (piece, st') \<Longrightarrow> bound st st' (count_list piece c)" and "c \<noteq> CHR '' ''"
  shows "bound st st' (count_list out c)"
proof -
  obtain piece where r: "r = Inr (piece, st')" and out: "out = (if f piece = [] then [] else '' '' @ f piece @ '' '')"
    using assms(1) by (auto simp: cleanBlock_def Let_def split: sum.splits prod.splits if_splits)
  have "count_list out c = count_list (f piece) c" using out assms(4) by auto
  then show ?thesis using assms(2,3) r by simp
qed

definition texts_avoid :: "char \<Rightarrow> 'p node list \<Rightarrow> bool" where
  "texts_avoid c ns \<longleftrightarrow> (\<forall>s. EText s \<in> set (flatten ns) \<longrightarrow> c \<notin> set s)"

lemma texts_avoid_simps [simp]:
  "texts_avoid c []"
  "texts_avoid c (n # ns) \<longleftrightarrow> texts_avoid c [n] \<and> texts_avoid c ns"
  "texts_avoid c [TextNode s] \<longleftrightarrow> c \<notin> set s"
  "texts_avoid c [IfNode e p body] \<longleftrightarrow> texts_avoid c body"
  "texts_avoid c [WhereNode body] \<longleftrightarrow> texts_avoid c body"
  "texts_avoid c [SetNode body] \<longleftrightarrow> texts_avoid c body"
proof -
  have "flatten (n # ns) = flatten [n] @ flatten ns" by (cases n) simp_all
  then show "texts_avoid c (n # ns) \<longleftrightarrow> texts_avoid c [n] \<and> texts_avoid c ns"
    by (auto simp: texts_avoid_def)
qed (auto simp: texts_avoid_def)

declare texts_avoid_simps(2) [simp del]

lemma render_bound:
  "binds_once R c \<Longrightarrow> lo_ok R \<Longrightarrow> texts_avoid c ns \<Longrightarrow> renderNodes R ns st = Inr (out, st')
     \<Longrightarrow> bound st st' (count_list out c)"
  "binds_once R c \<Longrightarrow> lo_ok R \<Longrightarrow> texts_avoid c [n] \<Longrightarrow> renderNode R n st = Inr (out, st')
     \<Longrightarrow> bound st st' (count_list out c)"
proof (induction R ns st and R n st arbitrary: out st' and out st' rule: renderNodes_renderNode.induct)
  case (2 R n ns st)
  obtain o1 st1 o2 where o: "renderNode R n st = Inr (o1, st1)" "renderNodes R ns st1 = Inr (o2, st')" "out = o1 @ o2"
    using "2.prems"(4) by (auto split: sum.splits prod.splits)
  have avoid: "texts_avoid c [n]" "texts_avoid c ns" using "2.prems"(3) by (simp_all add: texts_avoid_simps(2) [of c n ns])
  have "bound st st1 (count_list o1 c)" using "2.IH"(1) "2.prems"(1,2) avoid(1) o(1) by blast
  moreover have "bound st1 st' (count_list o2 c)" using "2.IH"(2) [OF o(1) refl] "2.prems"(1,2) avoid(2) o(2) by blast
  ultimately show ?case using bound_trans o(3) by (metis count_list_append)
next
  case (3 R s st)
  then show ?case using bindText_bound by simp
next
  case (4 R e p body st)
  then obtain b st1 where b: "evalIf R p st = Inr (b, st1)" by (auto split: sum.splits)
  note ev = evalIf_bound [OF b]
  show ?case
  proof (cases b)
    case True
    then have "renderNodes R body st1 = Inr (out, st')" using "4.prems"(4) b by simp
    then have "bound st1 st' (count_list out c)" using "4.IH" [OF b refl] True "4.prems"(1-3) by simp
    then show ?thesis using bound_trans [OF ev] by simp
  next
    case False
    then show ?thesis using "4.prems"(4) b ev by simp
  qed
next
  case (5 R body st)
  have c: "marker_char c" using "5.prems"(1) by (simp add: binds_once_def)
  show ?case
    using "5.prems" "5.IH" by (intro cleanBlock_bound [of "cleanupWhere R" "renderNodes R body st" out st' c])
      (simp_all add: count_cleanup [OF c] marker_not_letters(3) [OF c])
next
  case (6 R body st)
  have c: "marker_char c" using "6.prems"(1) by (simp add: binds_once_def)
  show ?case
    using "6.prems" "6.IH" by (intro cleanBlock_bound [of "cleanupSet R" "renderNodes R body st" out st' c])
      (simp_all add: count_cleanup [OF c] marker_not_letters(3) [OF c])
qed simp

lemma RenderList_count:
  assumes "binds_once R c" and "lo_ok R" and "texts_avoid c ns" and "RenderList R ns params = Inr res"
  shows "count_list (Query res) c = length (Args res)"
proof -
  obtain q st where r: "renderNodes R ns (newState params) = Inr (q, st)"
      and res: "res = \<lparr>Query = compactWhitespace R q, Args = st_args st\<rparr>"
    using assms(4) by (auto simp: RenderList_def split: sum.splits prod.splits)
  have "bound (newState params) st (count_list q c)" using render_bound(1) [OF assms(1-3) r] .
  moreover have "count_list (compactWhitespace R q) c = count_list q c"
    using assms(1,2) by (simp add: count_compact binds_once_def)
  ultimately show ?thesis by (simp add: res bound_def newState_def)
qed

end
