(* ===== verification/Sql_Paging.thy ===== *)
theory Sql_Paging
  imports Go_Prelude "HOL-Library.Word"
begin

text \<open>
  \<^verbatim>\<open>dbx/paging\<close>: offset pagination. The integers are Go's 64-bit \<open>int\<close> (\<open>64 word\<close>, read by \<open>sint\<close>), so the
  products and quotients wrap as they do in the program. Shown: a normalized request has a positive
  page and size; the offset is the exact product or saturates; page counts and the next/previous flags
  of a result are exact for every row total.
\<close>

unbundle bit_operations_syntax

type_synonym int64 = "64 word"

text \<open>Signed comparison and Go's division, which truncates.\<close>

abbreviation (input) slt :: "int64 \<Rightarrow> int64 \<Rightarrow> bool" where
  "slt a b \<equiv> sint a < sint b"

abbreviation (input) sle :: "int64 \<Rightarrow> int64 \<Rightarrow> bool" where
  "sle a b \<equiv> sint a \<le> sint b"

definition go_div :: "int64 \<Rightarrow> int64 \<Rightarrow> int64" where
  "go_div a b = word_of_int (sgn (sint a) * sgn (sint b) * (\<bar>sint a\<bar> div \<bar>sint b\<bar>))"

definition DefaultPage :: int64 where "DefaultPage = 1"
definition DefaultPageSize :: int64 where "DefaultPageSize = 20"

definition maxInt :: int64 where
  "maxInt = drop_bit 1 (NOT 0)"

record request =
  Page :: int64
  PageSize :: int64
  MaxPageSize :: int64

definition Request_Normalize :: "request \<Rightarrow> request" where
  "Request_Normalize r0 =
     (let r = (if slt (Page r0) 1 then r0\<lparr>Page := DefaultPage\<rparr> else r0);
          r = (if slt (PageSize r) 1 then r\<lparr>PageSize := DefaultPageSize\<rparr> else r)
      in if slt 0 (MaxPageSize r) \<and> slt (MaxPageSize r) (PageSize r) then r\<lparr>PageSize := MaxPageSize r\<rparr> else r)"

definition NewRequest :: "int64 \<Rightarrow> int64 \<Rightarrow> request" where
  "NewRequest page pageSize = Request_Normalize \<lparr>Page = page, PageSize = pageSize, MaxPageSize = 0\<rparr>"

definition Request_WithMaxPageSize :: "request \<Rightarrow> int64 \<Rightarrow> request" where
  "Request_WithMaxPageSize r maxPageSize = Request_Normalize (r\<lparr>MaxPageSize := maxPageSize\<rparr>)"

definition safeOffset :: "int64 \<Rightarrow> int64 \<Rightarrow> int64" where
  "safeOffset page pageSize =
     (if sle page DefaultPage \<or> sle pageSize 0 then 0
      else let multiplier = page - 1; maxValue = maxInt
           in if slt (go_div maxValue pageSize) multiplier then maxValue else multiplier * pageSize)"

definition totalPages :: "int64 \<Rightarrow> int64 \<Rightarrow> int64" where
  "totalPages rows pageSize =
     (if sle rows 0 \<or> sle pageSize 0 then 0
      else let pages = go_div (rows - 1) pageSize + 1
           in if slt maxInt pages then maxInt else pages)"

definition Request_Offset :: "request \<Rightarrow> int64" where
  "Request_Offset r = (let r = Request_Normalize r in safeOffset (Page r) (PageSize r))"

definition Request_Limit :: "request \<Rightarrow> int64" where
  "Request_Limit r = PageSize (Request_Normalize r)"

record 'e page_result =
  Items :: "'e list"
  Total :: int64
  res_Page :: int64
  res_PageSize :: int64
  Offset :: int64
  TotalPages :: int64
  HasNext :: bool
  HasPrevious :: bool

definition NewResult :: "'e list \<Rightarrow> int64 \<Rightarrow> request \<Rightarrow> 'e page_result" where
  "NewResult items rows r0 =
     (let r = Request_Normalize r0; pages = totalPages rows (PageSize r)
      in \<lparr>Items = items, Total = rows, res_Page = Page r, res_PageSize = PageSize r, Offset = Request_Offset r,
          TotalPages = pages, HasNext = slt (Page r) pages, HasPrevious = slt DefaultPage (Page r)\<rparr>)"

definition MapResult :: "'e page_result \<Rightarrow> (nat \<Rightarrow> 'e \<Rightarrow> 'r) \<Rightarrow> 'r page_result" where
  "MapResult r mapper =
     \<lparr>Items = map (\<lambda>(i, x). mapper i x) (enumerate 0 (Items r)), Total = Total r, res_Page = res_Page r,
      res_PageSize = res_PageSize r, Offset = Offset r, TotalPages = TotalPages r,
      HasNext = HasNext r, HasPrevious = HasPrevious r\<rparr>"

subsection \<open>Exactness\<close>

definition max_int :: int where "max_int = 9223372036854775807"

lemma sint_range: "sint (x :: int64) \<le> max_int" "- max_int - 1 \<le> sint x"
  using sint_greater_eq [of x] sint_less [of x] by (simp_all add: max_int_def)

lemma sint_of_int64: "- max_int - 1 \<le> k \<Longrightarrow> k \<le> max_int \<Longrightarrow> sint (word_of_int k :: int64) = k"
  by (simp add: sint_sbintrunc' max_int_def signed_take_bit_int_eq_self)

lemma sint_consts [simp]: "sint (1 :: int64) = 1" "sint (20 :: int64) = 20" "sint maxInt = max_int"
proof -
  show "sint maxInt = max_int" unfolding maxInt_def max_int_def by code_simp
qed simp_all

lemma sint_add: "- max_int - 1 \<le> sint a + sint b \<Longrightarrow> sint a + sint b \<le> max_int \<Longrightarrow> sint (a + b :: int64) = sint a + sint b"
proof -
  assume fits: "- max_int - 1 \<le> sint a + sint b" "sint a + sint b \<le> max_int"
  have "a + b = word_of_int (sint a + sint b)" by simp
  then show ?thesis using sint_of_int64 [OF fits] by (simp only:)
qed

lemma sint_sub: "- max_int - 1 \<le> sint a - sint b \<Longrightarrow> sint a - sint b \<le> max_int \<Longrightarrow> sint (a - b :: int64) = sint a - sint b"
proof -
  assume fits: "- max_int - 1 \<le> sint a - sint b" "sint a - sint b \<le> max_int"
  have "a - b = word_of_int (sint a - sint b)" by simp
  then show ?thesis using sint_of_int64 [OF fits] by (simp only:)
qed

lemma sint_mult: "- max_int - 1 \<le> sint a * sint b \<Longrightarrow> sint a * sint b \<le> max_int \<Longrightarrow> sint (a * b :: int64) = sint a * sint b"
proof -
  assume fits: "- max_int - 1 \<le> sint a * sint b" "sint a * sint b \<le> max_int"
  have "a * b = word_of_int (sint a * sint b)" by simp
  then show ?thesis using sint_of_int64 [OF fits] by (simp only:)
qed

lemma int_le_div_iff:
  fixes m n s :: int
  assumes "0 < s"
  shows "m \<le> n div s \<longleftrightarrow> m * s \<le> n"
proof
  assume "m \<le> n div s"
  then have "m * s \<le> n div s * s" using assms by (simp add: mult_right_mono)
  also have "\<dots> \<le> n" using assms div_mult_mod_eq [of n s] pos_mod_sign [of s n] by linarith
  finally show "m * s \<le> n" .
next
  assume "m * s \<le> n"
  then have "(m * s) div s \<le> n div s" using assms by (rule zdiv_mono1)
  then show "m \<le> n div s" using assms by simp
qed

lemma int_div_le:
  fixes n s :: int
  assumes "0 \<le> n" and "0 < s"
  shows "0 \<le> n div s" and "n div s \<le> n"
proof -
  show "0 \<le> n div s" using assms by (simp add: pos_imp_zdiv_nonneg_iff)
  have "\<not> n + 1 \<le> n div s"
  proof
    assume "n + 1 \<le> n div s"
    then have "(n + 1) * s \<le> n" using assms by (simp add: int_le_div_iff)
    moreover have "(n + 1) * 1 \<le> (n + 1) * s" using assms by (intro mult_left_mono) simp_all
    ultimately show False by simp
  qed
  then show "n div s \<le> n" by simp
qed

lemma sint_go_div:
  assumes "0 \<le> sint a" and "0 < sint b"
  shows "sint (go_div a b) = sint a div sint b"
proof -
  have sign: "sgn (sint a) * sgn (sint b) * (\<bar>sint a\<bar> div \<bar>sint b\<bar>) = sint a div sint b"
    using assms by (cases "sint a = 0") simp_all
  have "0 \<le> sint a div sint b" "sint a div sint b \<le> sint a"
    using int_div_le assms by simp_all
  then show ?thesis
    using sint_range [of a] unfolding go_div_def sign by (intro sint_of_int64) (simp_all add: max_int_def)
qed

lemma normalize_valid:
  "1 \<le> sint (Page (Request_Normalize r))" "1 \<le> sint (PageSize (Request_Normalize r))"
  "MaxPageSize (Request_Normalize r) = MaxPageSize r"
  "0 < sint (MaxPageSize r) \<Longrightarrow> sint (PageSize (Request_Normalize r)) \<le> sint (MaxPageSize r)"
  by (auto simp: Request_Normalize_def Let_def DefaultPage_def DefaultPageSize_def)

lemma normalize_idem [simp]: "Request_Normalize (Request_Normalize r) = Request_Normalize r"
  by (auto simp: Request_Normalize_def Let_def DefaultPage_def DefaultPageSize_def)

lemma safeOffset_exact:
  assumes "1 \<le> sint page" and "1 \<le> sint sz"
  shows "sint (safeOffset page sz) = min max_int ((sint page - 1) * sint sz)"
proof (cases "sint page = 1")
  case False
  let ?m = "sint page - 1"
  have m: "sint (page - 1) = ?m" using sint_sub [of page 1] sint_range [of page] assms by simp
  have q: "sint (go_div maxInt sz) = max_int div sint sz" using sint_go_div [of maxInt sz] assms by (simp add: max_int_def)
  have fits: "?m \<le> max_int div sint sz \<longleftrightarrow> ?m * sint sz \<le> max_int"
    using assms by (simp add: int_le_div_iff)
  show ?thesis
  proof (cases "?m \<le> max_int div sint sz")
    case True
    have nn: "0 \<le> ?m * sint sz" using assms by simp
    have "sint ((page - 1) * sz) = ?m * sint sz"
      using sint_mult [of "page - 1" sz] True fits m nn by (simp add: max_int_def)
    then show ?thesis using True fits False assms m q by (simp add: safeOffset_def Let_def DefaultPage_def min_def)
  next
    case False
    then show ?thesis using fits \<open>sint page \<noteq> 1\<close> assms m q by (simp add: safeOffset_def Let_def DefaultPage_def min_def)
  qed
qed (use assms in \<open>simp add: safeOffset_def DefaultPage_def max_int_def\<close>)

lemma totalPages_exact:
  assumes "1 \<le> sint sz"
  shows "sint (totalPages rows sz) = (if sint rows \<le> 0 then 0 else (sint rows - 1) div sint sz + 1)"
proof (cases "sint rows \<le> 0")
  case False
  have r: "sint (rows - 1) = sint rows - 1" using sint_sub [of rows 1] sint_range [of rows] False by simp
  have d: "sint (go_div (rows - 1) sz) = (sint rows - 1) div sint sz"
    using sint_go_div [of "rows - 1" sz] r False assms by simp
  have le: "0 \<le> (sint rows - 1) div sint sz" "(sint rows - 1) div sint sz \<le> sint rows - 1"
    using int_div_le [of "sint rows - 1" "sint sz"] False assms by simp_all
  then have "sint (go_div (rows - 1) sz + 1) = (sint rows - 1) div sint sz + 1"
    using sint_add [of "go_div (rows - 1) sz" 1] d sint_range [of rows] by simp
  then show ?thesis using False assms le sint_range [of rows] by (simp add: totalPages_def Let_def)
qed (simp add: totalPages_def)

text \<open>
  C28. For every page request, however wild its fields, the normalized request has page and size of at
  least one and respects a positive maximum size; \<open>Offset\<close> is exactly \<open>(page - 1) * size\<close>, or the largest
  integer when that product does not fit into 64 bits, and \<open>Limit\<close> is the normalized size.
\<close>

theorem paging_offset_exact:
  "1 \<le> sint (Page (Request_Normalize r)) \<and> 1 \<le> sint (PageSize (Request_Normalize r))
   \<and> (sint (MaxPageSize r) \<le> 0 \<or> sint (PageSize (Request_Normalize r)) \<le> sint (MaxPageSize r))
   \<and> sint (Request_Offset r) =
       min 9223372036854775807 ((sint (Page (Request_Normalize r)) - 1) * sint (PageSize (Request_Normalize r)))
   \<and> Request_Limit r = PageSize (Request_Normalize r)"
  using normalize_valid [of r] safeOffset_exact [of "Page (Request_Normalize r)" "PageSize (Request_Normalize r)"]
  by (simp add: Request_Offset_def Request_Limit_def Let_def max_int_def) linarith

text \<open>
  C29. The metadata of a page result is exact for every 64-bit total: \<open>TotalPages\<close> is the number of pages
  that the total fills (rounded up, none for a total of zero or less), \<open>HasNext\<close> holds exactly when rows
  remain behind this page, \<open>HasPrevious\<close> exactly when this is not the first page.
\<close>

theorem paging_result_exact:
  "sint (TotalPages (NewResult items rows r)) =
      (if sint rows \<le> 0 then 0 else (sint rows + sint (Request_Limit r) - 1) div sint (Request_Limit r))
   \<and> (HasNext (NewResult items rows r) \<longleftrightarrow>
        sint (res_Page (NewResult items rows r)) * sint (Request_Limit r) < sint rows)
   \<and> (HasPrevious (NewResult items rows r) \<longleftrightarrow> sint (res_Page (NewResult items rows r)) \<noteq> 1)
   \<and> Offset (NewResult items rows r) = Request_Offset r"
proof -
  define p s where "p = sint (Page (Request_Normalize r))" and "s = sint (PageSize (Request_Normalize r))"
  have ps: "1 \<le> p" "1 \<le> s" using normalize_valid(1,2) [of r] by (simp_all add: p_def s_def)
  have pages: "sint (totalPages rows (PageSize (Request_Normalize r))) =
      (if sint rows \<le> 0 then 0 else (sint rows - 1) div s + 1)"
    using totalPages_exact ps by (simp add: s_def)
  have up: "(sint rows + s - 1) div s = (sint rows - 1) div s + 1"
    using ps div_add_self2 [of s "sint rows - 1"] by (simp add: algebra_simps)
  have "p < (sint rows - 1) div s + 1 \<longleftrightarrow> p * s < sint rows"
    using ps int_le_div_iff [of s p "sint rows - 1"] by linarith
  moreover have "\<not> p * s < sint rows" "\<not> p < 0" if "sint rows \<le> 0"
    using that ps mult_pos_pos [of p s] by linarith+
  ultimately show ?thesis
    using ps pages up
    by (auto simp: NewResult_def Let_def Request_Limit_def Request_Offset_def DefaultPage_def p_def s_def)
qed

end
