(* ===== verification/Go_Strconv.thy ===== *)
theory Go_Strconv
  imports Go_Strings
begin

text \<open>
  The decimal conversions of package strconv: \<open>Itoa\<close> and \<open>FormatInt\<close> of numbers, \<open>Atoi\<close> with its optional
  sign, its rejection of everything else and its 64-bit range, and their round trip.
\<close>

definition digit :: "nat \<Rightarrow> char" where
  "digit n = char_of (48 + n)"

fun Itoa :: "nat \<Rightarrow> string" where
  "Itoa n = (if n < 10 then [digit n] else Itoa (n div 10) @ [digit (n mod 10)])"

declare Itoa.simps [simp del]

definition ItoaInt :: "int \<Rightarrow> string" where
  "ItoaInt n = (if n < 0 then CHR ''-'' # Itoa (nat (- n)) else Itoa (nat n))"

definition digitValue :: "char \<Rightarrow> nat option" where
  "digitValue c = (let n = of_char c in if 48 \<le> n \<and> n \<le> 57 then Some (n - 48) else None)"

fun parseDigits :: "nat \<Rightarrow> string \<Rightarrow> nat option" where
  "parseDigits acc [] = Some acc"
| "parseDigits acc (c # cs) = (case digitValue c of None \<Rightarrow> None | Some d \<Rightarrow> parseDigits (10 * acc + d) cs)"

text \<open>\<open>None\<close> is an error: no digits, another character, or a value outside of \<open>int64\<close>.\<close>

definition Atoi :: "string \<Rightarrow> int option" where
  "Atoi s =
     (let neg = (s \<noteq> [] \<and> hd s = CHR ''-''); ds = (if s \<noteq> [] \<and> (hd s = CHR ''-'' \<or> hd s = CHR ''+'') then tl s else s)
      in if ds = [] then None
         else case parseDigits 0 ds of
           None \<Rightarrow> None
         | Some n \<Rightarrow> let v = (if neg then - int n else int n) in if - (2 ^ 63) \<le> v \<and> v < 2 ^ 63 then Some v else None)"

lemma digitValue_digit: "n < 10 \<Longrightarrow> digitValue (digit n) = Some n"
  by (simp add: digitValue_def digit_def Let_def)

lemma parseDigits_append:
  "parseDigits acc (xs @ ys) = (case parseDigits acc xs of None \<Rightarrow> None | Some a \<Rightarrow> parseDigits a ys)"
  by (induction xs arbitrary: acc) (auto split: option.splits)

lemma parseDigits_Itoa: "parseDigits 0 (Itoa n) = Some n"
proof (induction n rule: Itoa.induct)
  case (1 n)
  then show ?case
    by (cases "n < 10") (simp_all add: Itoa.simps [of n] parseDigits_append digitValue_digit)
qed

lemma Itoa_digits: "c \<in> set (Itoa n) \<Longrightarrow> \<exists>m<10. c = digit m"
proof (induction n rule: Itoa.induct)
  case (1 n)
  then show ?case
    by (cases "n < 10") (auto simp: Itoa.simps [of n] intro: exI [of _ "n mod 10"])
qed

lemma digit_sign: "m < 10 \<Longrightarrow> digit m \<noteq> CHR ''-'' \<and> digit m \<noteq> CHR ''+''"
proof -
  assume m: "m < 10"
  have "digitValue CHR ''-'' = None" "digitValue CHR ''+'' = None" by (simp_all add: digitValue_def)
  then show ?thesis using digitValue_digit [OF m] by auto
qed

lemma Itoa_not_Nil [simp]: "Itoa n \<noteq> []"
  by (simp add: Itoa.simps)

lemma Atoi_ItoaInt:
  assumes "- (2 ^ 63) \<le> n" and "n < 2 ^ 63"
  shows "Atoi (ItoaInt n) = Some n"
proof (cases "n < 0")
  case True
  then show ?thesis using assms by (simp add: Atoi_def ItoaInt_def parseDigits_Itoa)
next
  case False
  have "hd (Itoa (nat n)) \<in> set (Itoa (nat n))" by simp
  then obtain m where "m < 10" "hd (Itoa (nat n)) = digit m" using Itoa_digits by blast
  then have "hd (Itoa (nat n)) \<noteq> CHR ''-'' \<and> hd (Itoa (nat n)) \<noteq> CHR ''+''" using digit_sign by metis
  then show ?thesis using assms False by (simp add: Atoi_def ItoaInt_def parseDigits_Itoa)
qed

end
