(* ===== verification/Sql_Template.thy ===== *)
theory Sql_Template
  imports Sql_Render Sql_Paging Go_Strconv
begin

text \<open>
  \<^verbatim>\<open>dbx/sqltmplx\<close>: templates, the engine with its template cache, pagination, and \<open>BindVar\<close> of the
  dialects. The scanner, the parser and the renderer meet here. The cache (samber/hot) is a parameter
  that may drop any entry at any time but never invents one; the SQL validator is a parameter too.
  Shown: every template that renders has as many placeholders as arguments; the engine with its cache
  is the engine without it; text without placeholders passes through up to white space; a \<open>where\<close>
  block whose conditions all fail leaves nothing.
\<close>

subsection \<open>Dialects\<close>

definition mysql_BindVar :: "nat \<Rightarrow> string" where "mysql_BindVar _ = ''?''"
definition sqlite_BindVar :: "nat \<Rightarrow> string" where "sqlite_BindVar _ = ''?''"
definition postgres_BindVar :: "nat \<Rightarrow> string" where "postgres_BindVar n = ''$'' @ Itoa n"

subsection \<open>Templates\<close>

datatype template_error =
    ScanTemplate string
  | BuildTemplateNodes parse_error
  | RenderTemplate render_error
  | ValidateRenderedSQL string
  | RenderBoundQuery template_error
  | CompileTemplate template_error
  | ErrNilStatement

text \<open>A validator returns the error it found, if any.\<close>

type_synonym validator = "(string \<Rightarrow> string option) option"

record 'p template =
  t_name :: string
  t_nodes :: "'p node list"
  t_validator :: validator

record bound_sql =
  Name :: string
  SQL :: string
  bound_Args :: "gval list"
  CapacityHint :: int

definition compileTemplate ::
    "(string \<Rightarrow> string + 'p) \<Rightarrow> validator \<Rightarrow> string \<Rightarrow> string \<Rightarrow> template_error + 'p template" where
  "compileTemplate compile v name tpl =
     (case ScanList tpl of
        Inl err \<Rightarrow> Inl (ScanTemplate err)
      | Inr tokens \<Rightarrow>
         (case BuildList compile tokens of
            Inl err \<Rightarrow> Inl (BuildTemplateNodes err)
          | Inr nodes \<Rightarrow> Inr \<lparr>t_name = name, t_nodes = nodes, t_validator = v\<rparr>))"

primrec Template_StatementName :: "'p template option \<Rightarrow> string" where
  "Template_StatementName None = []"
| "Template_StatementName (Some t) = t_name t"

definition Template_Render :: "'p renderer \<Rightarrow> 'p template \<Rightarrow> gval \<Rightarrow> template_error + result" where
  "Template_Render R t params =
     (case RenderList R (t_nodes t) params of
        Inl err \<Rightarrow> Inl (RenderTemplate err)
      | Inr b \<Rightarrow>
         (case t_validator t of
            None \<Rightarrow> Inr b
          | Some validate \<Rightarrow>
             (case validate (Query b) of
                Some err \<Rightarrow> Inl (ValidateRenderedSQL err) | None \<Rightarrow> Inr b)))"

fun Template_Bind :: "'p renderer \<Rightarrow> 'p template option \<Rightarrow> gval \<Rightarrow> template_error + bound_sql" where
  "Template_Bind R None params = Inl ErrNilStatement"
| "Template_Bind R (Some t) params =
     (case Template_Render R t params of
        Inl err \<Rightarrow> Inl (RenderBoundQuery err)
      | Inr b \<Rightarrow> Inr \<lparr>Name = t_name t, SQL = Query b, bound_Args = Args b, CapacityHint = 0\<rparr>)"

subsection \<open>Pagination\<close>

text \<open>A page request as a template sees it: its three fields, and the exported methods of \<open>Request\<close>
  without arguments. The request that \<open>Normalize\<close> returns is shown without its own methods.\<close>

definition request_fields :: "request \<Rightarrow> gval field list" where
  "request_fields r =
     [(''Page'', True, [], GInt (sint (Page r))), (''PageSize'', True, [], GInt (sint (PageSize r))),
      (''MaxPageSize'', True, [], GInt (sint (MaxPageSize r)))]"

definition request_value :: "request \<Rightarrow> gval" where
  "request_value r =
     (let ms = [(''Limit'', 1, 1, GInt (sint (Request_Limit r))),
                (''Normalize'', 1, 1, GStruct (request_fields (Request_Normalize r)) [] []),
                (''Offset'', 1, 1, GInt (sint (Request_Offset r))),
                (''WithMaxPageSize'', 2, 1, GNil)]
      in GStruct (request_fields r) ms ms)"

definition WithPage :: "unicode \<Rightarrow> gval \<Rightarrow> request \<Rightarrow> gval" where
  "WithPage u params r = WithParam u params ''Page'' (request_value (Request_Normalize r))"

definition Template_RenderPage :: "'p renderer \<Rightarrow> 'p template \<Rightarrow> gval \<Rightarrow> request \<Rightarrow> template_error + result" where
  "Template_RenderPage R t params r = Template_Render R t (WithPage (uni R) params r)"

definition Template_BindPage ::
    "'p renderer \<Rightarrow> 'p template option \<Rightarrow> gval \<Rightarrow> request \<Rightarrow> template_error + bound_sql" where
  "Template_BindPage R t params r0 =
     (let r = Request_Normalize r0
      in case Template_Bind R t (WithPage (uni R) params r) of
           Inl err \<Rightarrow> Inl err
         | Inr b \<Rightarrow> Inr (b\<lparr>CapacityHint := sint (Request_Limit r)\<rparr>))"

subsection \<open>The engine\<close>

text \<open>The operations of the template cache, and what they promise: a key holds what was stored under it
  last, or nothing.\<close>

record ('c, 'v) hot_cache =
  Peek :: "'c \<Rightarrow> string \<times> string \<Rightarrow> 'v option"
  hot_Set :: "'c \<Rightarrow> string \<times> string \<Rightarrow> 'v \<Rightarrow> 'c"

definition hot_ok :: "('c, 'v) hot_cache \<Rightarrow> bool" where
  "hot_ok H \<longleftrightarrow> (\<forall>c k v k'. Peek H (hot_Set H c k v) k' = None
     \<or> Peek H (hot_Set H c k v) k' = (if k' = k then Some v else Peek H c k'))"

record 'c engine =
  e_validator :: validator
  e_cache :: "'c option"

text \<open>\<open>New\<close> with the options applied: a cache of size zero or less is no cache.\<close>

definition newTemplateCache :: "'c \<Rightarrow> int \<Rightarrow> 'c option" where
  "newTemplateCache fresh sz = (if sz \<le> 0 then None else Some fresh)"

definition New :: "'c \<Rightarrow> validator \<Rightarrow> int \<Rightarrow> 'c engine" where
  "New fresh v sz = \<lparr>e_validator = v, e_cache = newTemplateCache fresh sz\<rparr>"

definition Engine_CompileNamed ::
    "(string \<Rightarrow> string + 'p) \<Rightarrow> ('c, 'p template) hot_cache \<Rightarrow> 'c engine \<Rightarrow> string \<Rightarrow> string
     \<Rightarrow> 'c engine \<times> (template_error + 'p template)" where
  "Engine_CompileNamed compile H e name tpl =
     (let key = (name, tpl); peek = (\<lambda>c. case c of None \<Rightarrow> None | Some h \<Rightarrow> Peek H h key)
      in case peek (e_cache e) of
           Some cached \<Rightarrow> (e, Inr cached)
         | None \<Rightarrow>
            (case compileTemplate compile (e_validator e) name tpl of
               Inl err \<Rightarrow> (e, Inl err)
             | Inr built \<Rightarrow>
                (case e_cache e of
                   None \<Rightarrow> (e, Inr built)
                 | Some h \<Rightarrow>
                    (case Peek H h key of
                       Some cached \<Rightarrow> (e, Inr cached)
                     | None \<Rightarrow> (e\<lparr>e_cache := Some (hot_Set H h key built)\<rparr>, Inr built)))))"

definition Engine_Compile ::
    "(string \<Rightarrow> string + 'p) \<Rightarrow> ('c, 'p template) hot_cache \<Rightarrow> 'c engine \<Rightarrow> string
     \<Rightarrow> 'c engine \<times> (template_error + 'p template)" where
  "Engine_Compile compile H e tpl = Engine_CompileNamed compile H e [] tpl"

definition Engine_Render ::
    "(string \<Rightarrow> string + 'p) \<Rightarrow> ('c, 'p template) hot_cache \<Rightarrow> 'p renderer \<Rightarrow> 'c engine \<Rightarrow> string \<Rightarrow> gval
     \<Rightarrow> 'c engine \<times> (template_error + result)" where
  "Engine_Render compile H R e tpl params =
     (case Engine_Compile compile H e tpl of
        (e', Inl err) \<Rightarrow> (e', Inl (CompileTemplate err))
      | (e', Inr t) \<Rightarrow> (e', Template_Render R t params))"

definition Engine_RenderPage ::
    "(string \<Rightarrow> string + 'p) \<Rightarrow> ('c, 'p template) hot_cache \<Rightarrow> 'p renderer \<Rightarrow> 'c engine \<Rightarrow> string \<Rightarrow> gval \<Rightarrow> request
     \<Rightarrow> 'c engine \<times> (template_error + result)" where
  "Engine_RenderPage compile H R e tpl params r = Engine_Render compile H R e tpl (WithPage (uni R) params r)"

subsection \<open>The cache is transparent\<close>

datatype engine_call = CallCompile string string | CallRender string gval

datatype 'p engine_answer = Compiled "template_error + 'p template" | Rendered "template_error + result"

fun en_step ::
    "(string \<Rightarrow> string + 'p) \<Rightarrow> ('c, 'p template) hot_cache \<Rightarrow> 'p renderer \<Rightarrow> engine_call \<Rightarrow> 'c engine
     \<Rightarrow> 'c engine \<times> 'p engine_answer" where
  "en_step c H R (CallCompile name tpl) e = map_prod id Compiled (Engine_CompileNamed c H e name tpl)"
| "en_step c H R (CallRender tpl params) e = map_prod id Rendered (Engine_Render c H R e tpl params)"

text \<open>The same calls with a fresh compilation each.\<close>

fun en_spec ::
    "(string \<Rightarrow> string + 'p) \<Rightarrow> validator \<Rightarrow> 'p renderer \<Rightarrow> engine_call \<Rightarrow> 'p engine_answer" where
  "en_spec c v R (CallCompile name tpl) = Compiled (compileTemplate c v name tpl)"
| "en_spec c v R (CallRender tpl params) = Rendered
     (case compileTemplate c v [] tpl of
        Inl err \<Rightarrow> Inl (CompileTemplate err) | Inr t \<Rightarrow> Template_Render R t params)"

definition en_inv ::
    "(string \<Rightarrow> string + 'p) \<Rightarrow> ('c, 'p template) hot_cache \<Rightarrow> validator \<Rightarrow> 'c engine \<Rightarrow> bool" where
  "en_inv c H v e \<longleftrightarrow> e_validator e = v
     \<and> (\<forall>h name tpl t. e_cache e = Some h \<and> Peek H h (name, tpl) = Some t \<longrightarrow> compileTemplate c v name tpl = Inr t)"

lemma CompileNamed_transparent:
  assumes H: "hot_ok H" and inv: "en_inv c H v e"
  shows "en_inv c H v (fst (Engine_CompileNamed c H e name tpl))
    \<and> snd (Engine_CompileNamed c H e name tpl) = compileTemplate c v name tpl"
proof (cases "e_cache e")
  case None
  then show ?thesis using inv
    by (cases "compileTemplate c v name tpl") (simp_all add: Engine_CompileNamed_def en_inv_def)
next
  case (Some h)
  show ?thesis
  proof (cases "Peek H h (name, tpl)")
    case (Some t)
    then show ?thesis using inv \<open>e_cache e = Some h\<close> by (simp add: Engine_CompileNamed_def en_inv_def)
  next
    case None
    show ?thesis
    proof (cases "compileTemplate c v name tpl")
      case (Inl err)
      then show ?thesis using inv Some None by (simp add: Engine_CompileNamed_def en_inv_def)
    next
      case (Inr t)
      have "compileTemplate c v n' t' = Inr x" if "Peek H (hot_Set H h (name, tpl) t) (n', t') = Some x" for n' t' x
        using H [unfolded hot_ok_def, rule_format, of h "(name, tpl)" t "(n', t')"] that inv Some Inr
        by (auto simp: en_inv_def split: if_splits)
      then show ?thesis using inv Some None Inr by (auto simp: Engine_CompileNamed_def en_inv_def)
    qed
  qed
qed

lemma en_step_transparent:
  assumes "hot_ok H" and "en_inv c H v e"
  shows "en_inv c H v (fst (en_step c H R call e)) \<and> snd (en_step c H R call e) = en_spec c v R call"
proof (cases call)
  case (CallCompile name tpl)
  then show ?thesis using CompileNamed_transparent [OF assms, of name tpl] by (simp add: map_prod_def split_beta)
next
  case (CallRender tpl params)
  then show ?thesis
    using CompileNamed_transparent [OF assms, of "[]" tpl]
    by (cases "Engine_CompileNamed c H e [] tpl")
      (auto simp: Engine_Render_def Engine_Compile_def split: sum.split)
qed

lemma en_run_transparent:
  assumes "hot_ok H" and "en_inv c H v e"
  shows "snd (run (en_step c H R) calls e) = map (en_spec c v R) calls"
  using assms(2)
proof (induction calls arbitrary: e)
  case (Cons call calls)
  then show ?case using en_step_transparent [OF assms(1) Cons.prems, of R call] by (simp add: split_beta)
qed simp

text \<open>
  C8. Over any history of compilations and renderings on one engine, with any cache size and any cache
  that only ever answers with what was stored under the key, every call answers what it would answer
  if the template were compiled afresh.
\<close>

theorem engine_cache_transparent:
  assumes "hot_ok H" and "\<forall>k. Peek H fresh k = None"
  shows "snd (run (en_step c H R) calls (New fresh v sz)) = map (en_spec c v R) calls"
  using en_run_transparent [OF assms(1), of c v "New fresh v sz" R calls] assms(2)
  by (auto simp: en_inv_def New_def newTemplateCache_def)

text \<open>A cache of one entry, and the ASCII renderers of the two placeholder styles, for the witnesses.\<close>

definition one_entry_cache :: "(((string \<times> string) \<times> 'v) option, 'v) hot_cache" where
  "one_entry_cache =
     \<lparr>Peek = (\<lambda>c k. case c of None \<Rightarrow> None | Some (k', v) \<Rightarrow> if k' = k then Some v else None),
      hot_Set = (\<lambda>c k v. Some (k, v))\<rparr>"

definition ascii_renderer :: "(nat \<Rightarrow> string) \<Rightarrow> string renderer" where
  "ascii_renderer bv =
     \<lparr>uni = ascii_unicode, BindVar = bv,
      exprRunner = Some (\<lambda>p env. case map_of env p of None \<Rightarrow> Inl ''unknown name'' | Some v \<Rightarrow> Inr v),
      lo_IsEmpty = (\<lambda>s. s = []), lo_Compact = filter (\<lambda>s. s \<noteq> [])\<rparr>"

theorem engine_cache_transparent_witness:
  "snd (run (en_step Inr one_entry_cache (ascii_renderer postgres_BindVar))
      [CallCompile ''a'' ''x'', CallRender ''x'' GNil, CallCompile ''a'' ''x''] (New None None 8)) =
   map (en_spec Inr None (ascii_renderer postgres_BindVar))
      [CallCompile ''a'' ''x'', CallRender ''x'' GNil, CallCompile ''a'' ''x'']"
  by (rule engine_cache_transparent) (auto simp: hot_ok_def one_entry_cache_def)

subsection \<open>Placeholders and arguments, from the template's text on\<close>

lemma token_events_text:
  "token_events ts = Inr es \<Longrightarrow> EText s \<in> set es \<Longrightarrow> \<exists>t \<in> set ts. Kind t = Text \<and> Value t = s"
proof (induction ts arbitrary: es)
  case (Cons t ts)
  obtain ev es' where ev: "token_event t = Inr ev" "token_events ts = Inr es'"
      and es: "es = (case ev of None \<Rightarrow> es' | Some e \<Rightarrow> e # es')"
    using Cons.prems(1) by (cases "token_event t"; cases "token_events ts") auto
  show ?case
  proof (cases "ev = Some (EText s)")
    case True
    then have "Kind t = Text \<and> Value t = s"
      using ev(1) by (cases "Kind t"; cases "parseDirective (Value t)")
        (auto simp: token_event_def split: option.splits if_splits)
    then show ?thesis by auto
  next
    case False
    then have "EText s \<in> set es'" using Cons.prems(2) es by (auto split: option.splits)
    then show ?thesis using Cons.IH ev(2) by auto
  qed
qed simp

lemma compiled_texts:
  assumes "compileTemplate compile v name tpl = Inr t" and "c \<notin> set tpl"
  shows "texts_avoid c (t_nodes t)"
proof -
  obtain tokens where tokens: "ScanList tpl = Inr tokens" "BuildList compile tokens = Inr (t_nodes t)"
    using assms(1) by (auto simp: compileTemplate_def split: sum.splits)
  have events: "token_events tokens = Inr (flatten (t_nodes t))"
    using tokens(2) unfolding BuildList_zrun zrun_iff by auto
  obtain chunks where chunks: "list_all2 covers tokens chunks" "tpl = concat chunks"
    using scanLoop_covers [of tpl "[]" "[]" tokens] tokens(1) by (auto simp: ScanList_def)
  have "c \<notin> set s" if s: "EText s \<in> set (flatten (t_nodes t))" for s
  proof -
    obtain tok where tok: "tok \<in> set tokens" "Kind tok = Text" "Value tok = s"
      using token_events_text [OF events s] by blast
    then obtain i where i: "i < length tokens" "tok = tokens ! i" by (auto simp: in_set_conv_nth)
    then have "chunks ! i \<in> set chunks" "covers tok (chunks ! i)"
      using chunks(1) by (simp_all add: list_all2_conv_all_nth)
    then have "set s \<subseteq> set tpl" using tok chunks(2) by (auto simp: covers_def)
    then show ?thesis using assms(2) by blast
  qed
  then show ?thesis by (simp add: texts_avoid_def)
qed

lemma count_Itoa: "count_list (Itoa n) CHR ''$'' = 0"
proof (induction n rule: Itoa.induct)
  case (1 n)
  have d: "digit m \<noteq> CHR ''$''" if "m < 10" for m
  proof
    assume "digit m = CHR ''$''"
    then have "(of_char (digit m) :: nat) = 36" by simp
    then show False using that by (simp add: digit_def)
  qed
  show ?case
    using 1 d [of n] d [of "n mod 10"] by (cases "n < 10") (simp_all add: Itoa.simps [of n] del: Itoa.simps)
qed

lemma marker_chars: "marker_char CHR ''?''" "marker_char CHR ''$''"
  by code_simp+

lemma binds_once_dialects:
  "BindVar R = mysql_BindVar \<or> BindVar R = sqlite_BindVar \<Longrightarrow> binds_once R CHR ''?''"
  "BindVar R = postgres_BindVar \<Longrightarrow> binds_once R CHR ''$''"
  using marker_chars
  by (auto simp: binds_once_def mysql_BindVar_def sqlite_BindVar_def postgres_BindVar_def count_Itoa simp del: Itoa.simps)

text \<open>
  C2. Whatever the template and its parameters, a rendered query has exactly as many placeholders as
  arguments: with MySQL and SQLite it contains \<open>?\<close>, and with PostgreSQL \<open>$\<close>, once per argument, when the
  template's own text does not contain that character. Scanner, parser, binder and clean-up together
  neither drop nor add one.
\<close>

theorem template_binds_match_args:
  assumes "lo_ok R" and "compileTemplate compile v name tpl = Inr t" and "Template_Render R t params = Inr res"
  shows "((BindVar R = mysql_BindVar \<or> BindVar R = sqlite_BindVar) \<and> CHR ''?'' \<notin> set tpl
            \<longrightarrow> count_list (Query res) CHR ''?'' = length (Args res))
       \<and> (BindVar R = postgres_BindVar \<and> CHR ''$'' \<notin> set tpl
            \<longrightarrow> count_list (Query res) CHR ''$'' = length (Args res))"
proof -
  have "RenderList R (t_nodes t) params = Inr res"
    using assms(3) by (auto simp: Template_Render_def split: sum.splits option.splits)
  then have "count_list (Query res) c = length (Args res)" if "binds_once R c" "c \<notin> set tpl" for c
    using RenderList_count [OF that(1) assms(1) compiled_texts [OF assms(2) that(2)]] by blast
  then show ?thesis using binds_once_dialects [of R] by blast
qed

lemma ascii_renderer_ok: "lo_ok (ascii_renderer bv)"
  by (simp add: lo_ok_def ascii_renderer_def)

text \<open>A spread parameter inside a taken \<open>if\<close> inside a \<open>where\<close>.\<close>

definition sample_template :: string where
  "sample_template = ''s /*%where*/ and a = /* x */0 /*%if c*/and id in (/* ids */(1))/*%end*//*%end*/''"

definition sample_nodes :: "string node list" where
  "sample_nodes =
     [TextNode ''s '', WhereNode [TextNode '' and a = /* x */0 '', IfNode ''c'' ''c'' [TextNode ''and id in (/* ids */(1))'']]]"

definition sample_params :: gval where
  "sample_params = GMap True [(''x'', GInt 7), (''c'', GBool True), (''ids'', GSlice [GInt 4, GInt 5])]"

lemma sample_compiles: "compileTemplate Inr None [] sample_template = Inr \<lparr>t_name = [], t_nodes = sample_nodes, t_validator = None\<rparr>"
proof -
  have "ScanList sample_template = Inr [Token Text ''s '', Token Directive ''%where'', Token Text '' and a = /* x */0 '',
      Token Directive ''%if c'', Token Text ''and id in (/* ids */(1))'', Token Directive ''%end'', Token Directive ''%end'']"
    by code_simp
  moreover have "BuildList Inr [Token Text ''s '', Token Directive ''%where'', Token Text '' and a = /* x */0 '',
      Token Directive ''%if c'', Token Text ''and id in (/* ids */(1))'', Token Directive ''%end'', Token Directive ''%end'']
      = Inr sample_nodes"
    by code_simp
  ultimately show ?thesis by (simp add: compileTemplate_def)
qed

lemma sample_renders:
  "RenderList (ascii_renderer postgres_BindVar) sample_nodes sample_params =
     Inr \<lparr>Query = ''s WHERE a = $1 and id in ($2, $3)'', Args = [GInt 7, GInt 4, GInt 5]\<rparr>"
  by code_simp

theorem template_binds_match_args_witness:
  "count_list ''s WHERE a = $1 and id in ($2, $3)'' CHR ''$'' = length [GInt 7, GInt 4, GInt 5]
   \<and> Template_Render (ascii_renderer postgres_BindVar) \<lparr>t_name = [], t_nodes = sample_nodes, t_validator = None\<rparr> sample_params =
       Inr \<lparr>Query = ''s WHERE a = $1 and id in ($2, $3)'', Args = [GInt 7, GInt 4, GInt 5]\<rparr>"
proof -
  have render: "Template_Render (ascii_renderer postgres_BindVar) \<lparr>t_name = [], t_nodes = sample_nodes, t_validator = None\<rparr>
      sample_params = Inr \<lparr>Query = ''s WHERE a = $1 and id in ($2, $3)'', Args = [GInt 7, GInt 4, GInt 5]\<rparr>"
    by (simp add: Template_Render_def sample_renders)
  have "BindVar (ascii_renderer postgres_BindVar) = postgres_BindVar \<and> CHR ''$'' \<notin> set sample_template"
    by (simp add: ascii_renderer_def sample_template_def)
  with template_binds_match_args [OF ascii_renderer_ok sample_compiles render] render
  show ?thesis unfolding result.select_convs by blast
qed

subsection \<open>Text and blocks\<close>

lemma bindLoop_plain:
  assumes "go_index (drop i input) ''/*'' = None"
  shows "bindLoop R input i out st = Inr (out @ drop i input, st)"
  using assms
proof (induction "length input - i" arbitrary: i out)
  case 0
  then show ?case by (subst bindLoop.simps) simp
next
  case (Suc n)
  then have i: "i < length input" by simp
  then have d: "drop i input = input ! i # drop (Suc i) input" by (simp add: Cons_nth_drop_Suc)
  have no: "\<not> HasPrefix (drop i input) ''/*''" using Suc.prems go_index_None [of "drop i input" "''/*''" 0] by simp
  have "\<not> (i + 1 < length input \<and> input ! i = CHR ''/'' \<and> input ! (i + 1) = CHR ''*'')"
  proof
    assume a: "i + 1 < length input \<and> input ! i = CHR ''/'' \<and> input ! (i + 1) = CHR ''*''"
    then have "drop (Suc i) input = input ! Suc i # drop (Suc (Suc i)) input"
      using Cons_nth_drop_Suc [of "Suc i" input] by simp
    then have "HasPrefix (drop i input) ''/*''" using d a by (simp add: HasPrefix_two)
    then show False using no by blast
  qed
  moreover have "go_index (drop (Suc i) input) ''/*'' = None" using Suc.prems d by (simp split: if_splits)
  ultimately show ?case using i d Suc.hyps(1) [of "Suc i"] Suc.hyps(2) by (subst bindLoop.simps) auto
qed

text \<open>
  C27. A template without any comment renders to its own fields separated by single blanks, with no
  arguments. White space inside string literals is not exempt: it is collapsed like any other.
\<close>

theorem plain_template_renders:
  assumes "lo_ok R" and "go_index tpl ''/*'' = None"
  shows "\<exists>t. compileTemplate compile None name tpl = Inr t
    \<and> Template_Render R t params = Inr \<lparr>Query = Join (filter (\<lambda>w. w \<noteq> []) (Fields tpl)) '' '', Args = []\<rparr>"
proof (cases "tpl = []")
  case True
  then have "ScanList tpl = Inr []" by (simp add: ScanList_def scanLoop_plain flushText_def)
  moreover have "BuildList compile [] = Inr []" unfolding BuildList_zrun by simp
  ultimately show ?thesis
    using True assms(1)
    by (simp add: compileTemplate_def Template_Render_def RenderList_def compactWhitespace_def Fields_def newState_def lo_ok_def)
next
  case False
  then have "ScanList tpl = Inr [Token Text tpl]" using assms(2) by (simp add: ScanList_def scanLoop_plain flushText_def)
  moreover have "BuildList compile [Token Text tpl] = Inr [TextNode tpl]"
    unfolding BuildList_zrun by (simp add: token_event_def)
  moreover have "bindText R tpl st = Inr (tpl, st)" for st
    using bindLoop_plain [of 0 tpl R "[]" st] assms(2) by (simp add: bindText_def)
  ultimately show ?thesis
    using assms(1)
    by (simp add: compileTemplate_def Template_Render_def RenderList_def compactWhitespace_def newState_def lo_ok_def)
qed

theorem plain_template_renders_witness:
  "\<exists>t. compileTemplate (Inr :: string \<Rightarrow> string + string) None [] [CHR ''x'', CHR ''='', CHR 0x27, CHR ''a'', CHR '' '', CHR '' '', CHR ''b'', CHR 0x27] = Inr t
    \<and> Template_Render (ascii_renderer mysql_BindVar) t GNil =
        Inr \<lparr>Query = [CHR ''x'', CHR ''='', CHR 0x27, CHR ''a'', CHR '' '', CHR ''b'', CHR 0x27], Args = []\<rparr>"
proof -
  let ?tpl = "[CHR ''x'', CHR ''='', CHR 0x27, CHR ''a'', CHR '' '', CHR '' '', CHR ''b'', CHR 0x27]"
  have plain: "go_index ?tpl ''/*'' = None" by code_simp
  have out: "Join (filter (\<lambda>w. w \<noteq> []) (Fields ?tpl)) '' '' = [CHR ''x'', CHR ''='', CHR 0x27, CHR ''a'', CHR '' '', CHR ''b'', CHR 0x27]"
    by code_simp
  show ?thesis
    using plain_template_renders [OF ascii_renderer_ok [of mysql_BindVar] plain, where compile = Inr and name = "[]" and params = GNil]
    unfolding out .
qed

lemma TrimSpace_blank:
  assumes "list_all isReSpace s"
  shows "TrimSpace s = []"
proof -
  have "TrimLeftSpace s = []"
    using assms
  proof (induction s rule: TrimLeftSpace.induct)
    case (1 s)
    show ?case
    proof (cases s)
      case (Cons x xs)
      then have "[x] \<in> set space_encodings" "HasPrefix s [x]"
        using 1(2) isReSpace_encoding by (auto simp: HasPrefix_def)
      then have "spaceLen s \<noteq> 0" by (auto simp: spaceLen_zero_iff)
      moreover have "list_all isReSpace (drop (spaceLen s) s)"
        using 1(2) by (auto simp: list_all_iff dest: in_set_dropD)
      ultimately show ?thesis using 1(1) by (simp add: TrimLeftSpace.simps [of s])
    qed (simp add: TrimLeftSpace.simps)
  qed
  then show ?thesis by (simp add: TrimSpace_def TrimRightSpace.simps spaceLenLast_def space_encodings_def HasPrefix_def)
qed

text \<open>Nodes that contribute nothing: blank text, and an \<open>if\<close> whose condition is false.\<close>

fun silent :: "'p renderer \<Rightarrow> (string \<times> gval) list \<Rightarrow> 'p node \<Rightarrow> bool" where
  "silent R env (TextNode s) \<longleftrightarrow> list_all isReSpace s"
| "silent R env (IfNode e p body) \<longleftrightarrow> exprRun R p env = Inr (GBool False)"
| "silent R env _ \<longleftrightarrow> False"

lemma blank_no_comment: "list_all isReSpace s \<Longrightarrow> go_index s ''/*'' = None"
proof -
  assume blank: "list_all isReSpace s"
  have "\<not> isReSpace CHR ''/''" by code_simp
  then have "CHR ''/'' \<notin> set s" using blank by (auto simp: list_all_iff)
  then have "\<not> HasPrefix (drop j s) ''/*''" for j
    by (auto simp: HasPrefix_two) (metis in_set_dropD list.set_intros(1))
  then show ?thesis by (simp add: go_index_None_iff)
qed

lemma state_exprEnv_stable:
  assumes "state_exprEnv R st = (env, st')"
  shows "state_exprEnv R st' = (env, st')" and "st_args st' = st_args st" and "st_bindN st' = st_bindN st"
  using assms by (auto simp: state_exprEnv_def Let_def split: option.splits)

lemma silent_nodes:
  assumes "list_all (silent R (fst (state_exprEnv R st))) ns"
  shows "\<exists>out st'. renderNodes R ns st = Inr (out, st') \<and> list_all isReSpace out
    \<and> st_args st' = st_args st \<and> st_bindN st' = st_bindN st"
  using assms
proof (induction ns arbitrary: st)
  case (Cons n ns)
  show ?case
  proof (cases n)
    case (TextNode s)
    then have blank: "list_all isReSpace s" using Cons.prems by simp
    then have "bindText R s st = Inr (s, st)"
      using bindLoop_plain [of 0 s R "[]" st] blank_no_comment by (simp add: bindText_def)
    moreover have "list_all (silent R (fst (state_exprEnv R st))) ns" using Cons.prems by simp
    from Cons.IH [OF this] obtain out st' where "renderNodes R ns st = Inr (out, st')" "list_all isReSpace out"
        "st_args st' = st_args st" "st_bindN st' = st_bindN st" by blast
    ultimately show ?thesis using TextNode blank by simp
  next
    case (IfNode e p body)
    obtain env st1 where env: "state_exprEnv R st = (env, st1)" by (cases "state_exprEnv R st")
    note stable = state_exprEnv_stable [OF env]
    have "evalIf R p st = Inr (False, st1)" using Cons.prems IfNode env by (simp add: evalIf_def)
    moreover have "list_all (silent R (fst (state_exprEnv R st1))) ns" using Cons.prems stable(1) env by simp
    from Cons.IH [OF this] obtain out st' where "renderNodes R ns st1 = Inr (out, st')" "list_all isReSpace out"
        "st_args st' = st_args st1" "st_bindN st' = st_bindN st1" by blast
    ultimately show ?thesis using IfNode stable(2,3) by simp
  qed (use Cons.prems in simp_all)
qed simp

text \<open>
  C26. A \<open>where\<close> or \<open>set\<close> block in which nothing but blank text and \<open>if\<close> blocks with a false condition
  stands renders to nothing at all: no keyword is left over, no argument is bound and the numbering of
  later placeholders does not move.
\<close>

theorem silent_block_vanishes:
  assumes "lo_ok R" and "list_all (silent R (fst (state_exprEnv R st))) body"
  shows "\<exists>st'. renderNode R (WhereNode body) st = Inr ([], st') \<and> renderNode R (SetNode body) st = Inr ([], st')
    \<and> st_args st' = st_args st \<and> st_bindN st' = st_bindN st"
proof -
  obtain out st' where "renderNodes R body st = Inr (out, st')" "list_all isReSpace out"
      "st_args st' = st_args st" "st_bindN st' = st_bindN st"
    using silent_nodes [OF assms(2)] by blast
  moreover have "TrimSpace [] = []" by (rule TrimSpace_blank) simp
  ultimately show ?thesis
    using assms(1) TrimSpace_blank [of out]
    by (simp add: cleanBlock_def cleanupWhere_def cleanupSet_def leadingBool_strip_def trailingComma_strip_def
        foldsTo_def Let_def lo_ok_def)
qed

theorem silent_block_vanishes_witness:
  "\<exists>st'. renderNode (ascii_renderer mysql_BindVar) (WhereNode [TextNode '' '', IfNode ''c'' ''c'' [TextNode ''a = 1'']])
      (newState (GMap True [(''c'', GBool False)])) = Inr ([], st') \<and> st_args st' = [] \<and> st_bindN st' = 0"
proof -
  have "list_all (silent (ascii_renderer mysql_BindVar)
      (fst (state_exprEnv (ascii_renderer mysql_BindVar) (newState (GMap True [(''c'', GBool False)])))))
      [TextNode '' '', IfNode ''c'' ''c'' [TextNode ''a = 1'']]" by code_simp
  from silent_block_vanishes [OF ascii_renderer_ok this] show ?thesis by (auto simp: newState_def)
qed

end
