(* ===== verification/Client_Policy.thy ===== *)
theory Client_Policy
  imports Client_Error
begin

text \<open>
  \<^verbatim>\<open>clientx/policy.go\<close>, \<^verbatim>\<open>policy_retry.go\<close> and \<^verbatim>\<open>policy_bulkhead.go\<close>: the policy chain around a client call,
  with retries. The world \<open>'w\<close> is whatever policies, the call and the clock act on; a policy is the record
  of its methods, each a state transformer that returns or panics. A context is an abstract value, nil
  is \<open>None\<close>. Parameters: the background context, the wait on a context (\<open>select\<close> between the timer and
  \<open>ctx.Done()\<close>), the error constructors of samber/oops and three functions of samber/lo. The retry loop
  has no bound of its own: it is a \<open>partial_function\<close>, and that it returns is a theorem.
\<close>

datatype 'a outcome = Returned 'a | Panicked

record operation =
  op_Protocol :: Protocol
  op_Kind :: string
  op_Op :: string
  op_Network :: string
  op_Addr :: string

definition OperationKindUnknown :: string where "OperationKindUnknown = ''unknown''"

record ('w, 'c) policy =
  Before :: "'c option \<Rightarrow> operation \<Rightarrow> 'w \<Rightarrow> 'w \<times> ('c option \<times> gerror option) outcome"
  After :: "'c option \<Rightarrow> operation \<Rightarrow> gerror option \<Rightarrow> 'w \<Rightarrow> 'w \<times> gerror option outcome"
  ShouldRetry :: "('c option \<Rightarrow> operation \<Rightarrow> int \<Rightarrow> gerror \<Rightarrow> 'w \<Rightarrow> 'w \<times> (bool \<times> int) outcome) option"

text \<open>\<open>oops_New domain attributes msg\<close> and \<open>oops_Wrap domain attributes msg cause\<close> are the two builders of
  samber/oops the code uses. \<open>ctx_wait ctx d\<close> is \<open>Some e\<close> when the context ends with the error \<open>e\<close> before the
  timer fires; \<open>ctx_Err\<close> is \<open>ctx.Err()\<close>.\<close>

datatype attr = AttrString string | AttrInt int

record ('w, 'c) client_env =
  backgroundContext :: 'c
  ctx_wait :: "'c option \<Rightarrow> int \<Rightarrow> 'w \<Rightarrow> 'w \<times> gerror option"
  ctx_Err :: "'c \<Rightarrow> 'w \<Rightarrow> gerror option"
  oops_New :: "string \<Rightarrow> (string \<times> attr) list \<Rightarrow> string \<Rightarrow> gerror"
  oops_Wrap :: "string \<Rightarrow> (string \<times> attr) list \<Rightarrow> string \<Rightarrow> gerror \<Rightarrow> gerror"
  lo_Filter :: "('w, 'c) policy option list \<Rightarrow> (('w, 'c) policy option \<Rightarrow> bool) \<Rightarrow> ('w, 'c) policy option list"
  lo_Concat :: "('w, 'c) policy list list \<Rightarrow> ('w, 'c) policy list"
  lo_Reduce :: "('w, 'c) policy list \<Rightarrow> ('w \<times> bool \<times> int \<Rightarrow> ('w, 'c) policy \<Rightarrow> 'w \<times> bool \<times> int)
                  \<Rightarrow> 'w \<times> bool \<times> int \<Rightarrow> 'w \<times> bool \<times> int"

text \<open>What the code relies on from samber/lo and from samber/oops (a wrapped error unwraps to its
  cause).\<close>

definition env_ok :: "('w, 'c) client_env \<Rightarrow> bool" where
  "env_ok E \<longleftrightarrow> (\<forall>xs P. lo_Filter E xs P = filter P xs) \<and> (\<forall>xss. lo_Concat E xss = concat xss)
     \<and> (\<forall>xs f a. lo_Reduce E xs f a = foldl f a xs)
     \<and> (\<forall>d oper m e. \<exists>msg. oops_Wrap E d oper m e = Wrapped msg e)"

subsection \<open>The chain\<close>

definition normalizeContext :: "('w, 'c) client_env \<Rightarrow> 'c option \<Rightarrow> 'c option" where
  "normalizeContext E ctx = (case ctx of None \<Rightarrow> Some (backgroundContext E) | Some c \<Rightarrow> Some c)"

definition normalizeOperation :: "operation \<Rightarrow> operation" where
  "normalizeOperation oper0 =
     (let oper = (if op_Protocol oper0 = [] then oper0\<lparr>op_Protocol := ProtocolUnknown\<rparr> else oper0)
      in if op_Kind oper = [] then oper\<lparr>op_Kind := OperationKindUnknown\<rparr> else oper)"

definition filterPolicies :: "('w, 'c) client_env \<Rightarrow> ('w, 'c) policy option list \<Rightarrow> ('w, 'c) policy list" where
  "filterPolicies E policies = map the (lo_Filter E policies (\<lambda>p. p \<noteq> None))"

definition operationAttrs :: "operation \<Rightarrow> (string \<times> attr) list" where
  "operationAttrs oper =
     [(''protocol'', AttrString (op_Protocol oper)), (''operation_kind'', AttrString (op_Kind oper)),
      (''network'', AttrString (op_Network oper)), (''addr'', AttrString (op_Addr oper))]"

definition wrapPolicyBeforeError :: "('w, 'c) client_env \<Rightarrow> operation \<Rightarrow> gerror option \<Rightarrow> gerror option" where
  "wrapPolicyBeforeError E oper err =
     map_option (oops_Wrap E ''clientx/policy'' ((''op'', AttrString ''policy_before'') # operationAttrs oper)
       ''policy before'') err"

definition wrapPolicyAfterError :: "('w, 'c) client_env \<Rightarrow> operation \<Rightarrow> gerror option \<Rightarrow> gerror option" where
  "wrapPolicyAfterError E oper err =
     map_option (oops_Wrap E ''clientx/policy'' ((''op'', AttrString ''policy_after'') # operationAttrs oper)
       ''policy after'') err"

text \<open>The results of this function have no names: when the deferred call recovers a panic, the function
  returns their zero values, a nil context and no error.\<close>

definition callPolicyBefore ::
    "('w, 'c) client_env \<Rightarrow> 'c option \<Rightarrow> ('w, 'c) policy \<Rightarrow> operation \<Rightarrow> 'w \<Rightarrow> 'w \<times> 'c option \<times> gerror option" where
  "callPolicyBefore E ctx p oper w =
     (case Before p ctx oper w of
        (w', Panicked) \<Rightarrow> (w', None, None)
      | (w', Returned (policyCtx, policyErr)) \<Rightarrow>
          (w', (case policyCtx of None \<Rightarrow> ctx | Some c \<Rightarrow> Some c), wrapPolicyBeforeError E oper policyErr))"

definition callPolicyAfter ::
    "('w, 'c) client_env \<Rightarrow> 'c option \<Rightarrow> ('w, 'c) policy \<Rightarrow> operation \<Rightarrow> gerror option \<Rightarrow> 'w
     \<Rightarrow> 'w \<times> bool \<times> gerror option" where
  "callPolicyAfter E ctx p oper err w =
     (case After p ctx oper err w of
        (w', Panicked) \<Rightarrow> (w', False, None)
      | (w', Returned afterErr) \<Rightarrow> (w', True, wrapPolicyAfterError E oper afterErr))"

fun applyBeforePolicies ::
    "('w, 'c) client_env \<Rightarrow> 'c option \<Rightarrow> ('w, 'c) policy list \<Rightarrow> operation \<Rightarrow> 'w
     \<Rightarrow> 'w \<times> 'c option \<times> ('w, 'c) policy list \<times> gerror option" where
  "applyBeforePolicies E ctx [] oper w = (w, ctx, [], None)"
| "applyBeforePolicies E ctx (p # ps) oper w =
     (case callPolicyBefore E ctx p oper w of
        (w1, nextCtx, Some err) \<Rightarrow> (w1, ctx, [], Some err)
      | (w1, nextCtx, None) \<Rightarrow>
          (case applyBeforePolicies E nextCtx ps oper w1 of
             (w2, finalCtx, tailApplied, tailErr) \<Rightarrow> (w2, finalCtx, lo_Concat E [[p], tailApplied], tailErr)))"

text \<open>\<open>errors.Join(a, b)\<close> for a \<open>b\<close> that is not nil.\<close>

definition errors_Join :: "gerror option \<Rightarrow> gerror \<Rightarrow> gerror" where
  "errors_Join a b = Joined ((case a of None \<Rightarrow> [] | Some e \<Rightarrow> [e]) @ [b])"

fun applyAfterPolicies ::
    "('w, 'c) client_env \<Rightarrow> 'c option \<Rightarrow> ('w, 'c) policy list \<Rightarrow> operation \<Rightarrow> gerror option \<Rightarrow> 'w
     \<Rightarrow> 'w \<times> gerror option" where
  "applyAfterPolicies E ctx [] oper aggErr w = (w, aggErr)"
| "applyAfterPolicies E ctx (p # ps) oper aggErr w =
     (case callPolicyAfter E ctx p oper aggErr w of
        (w1, True, Some afterErr) \<Rightarrow> applyAfterPolicies E ctx ps oper (Some (errors_Join aggErr afterErr)) w1
      | (w1, _, _) \<Rightarrow> applyAfterPolicies E ctx ps oper aggErr w1)"

text \<open>Retry and wait of one decider; a panic counts as no.\<close>

definition callShouldRetry ::
    "'c option \<Rightarrow> ('c option \<Rightarrow> operation \<Rightarrow> int \<Rightarrow> gerror \<Rightarrow> 'w \<Rightarrow> 'w \<times> (bool \<times> int) outcome)
     \<Rightarrow> operation \<Rightarrow> int \<Rightarrow> gerror \<Rightarrow> 'w \<Rightarrow> 'w \<times> bool \<times> int \<times> bool" where
  "callShouldRetry ctx decider oper attempt err w =
     (case decider ctx oper attempt err w of
        (w', Panicked) \<Rightarrow> (w', False, 0, False)
      | (w', Returned (retry, wait)) \<Rightarrow> (w', retry, wait, True))"

definition decideRetry ::
    "('w, 'c) client_env \<Rightarrow> 'c option \<Rightarrow> ('w, 'c) policy list \<Rightarrow> operation \<Rightarrow> int \<Rightarrow> gerror \<Rightarrow> 'w
     \<Rightarrow> 'w \<times> bool \<times> int" where
  "decideRetry E ctx policies oper attempt err w =
     (case lo_Reduce E policies
        (\<lambda>(w, retry, wait) p.
           case ShouldRetry p of
             None \<Rightarrow> (w, retry, wait)
           | Some decider \<Rightarrow>
              (case callShouldRetry ctx decider oper attempt err w of
                 (w', shouldRetry, delay, retryOK) \<Rightarrow>
                   if \<not> retryOK \<or> \<not> shouldRetry then (w', retry, wait)
                   else (w', True, max wait delay)))
        (w, False, 0) of
      (w', retry, wait) \<Rightarrow> (w', retry, max wait 0))"

definition sleepWithContext ::
    "('w, 'c) client_env \<Rightarrow> 'c option \<Rightarrow> operation \<Rightarrow> int \<Rightarrow> int \<Rightarrow> 'w \<Rightarrow> 'w \<times> gerror option" where
  "sleepWithContext E ctx oper attempt d w =
     (if d \<le> 0 then (w, None)
      else case ctx_wait E ctx d w of
        (w', Some err) \<Rightarrow>
          (w', Some (oops_Wrap E ''clientx/policy''
             ([(''op'', AttrString ''retry_wait''), (''attempt'', AttrInt attempt), (''duration'', AttrInt d)]
              @ operationAttrs oper) ''context done'' err))
      | (w', None) \<Rightarrow> (w', None))"

text \<open>One turn of the loop of \<open>InvokeWithPolicies\<close>: \<open>Inl\<close> what the function returns, or \<open>Inr\<close> the world in
  which the next attempt starts. A panic of \<open>fn\<close> passes through: nothing recovers it. \<open>zero\<close> is the zero
  value of the result type.\<close>

type_synonym ('w, 'c, 'r) call = "'c option \<Rightarrow> 'w \<Rightarrow> 'w \<times> ('r \<times> gerror option) outcome"

definition afterCall ::
    "('w, 'c) client_env \<Rightarrow> 'c option \<Rightarrow> operation \<Rightarrow> ('w, 'c) policy list \<Rightarrow> int \<Rightarrow> 'r \<Rightarrow> 'w \<Rightarrow> gerror option
     \<Rightarrow> ('w \<times> ('r \<times> gerror option) outcome) + 'w" where
  "afterCall E ctx oper active attempt result w3 execErr0 =
     (case execErr0 of
        None \<Rightarrow> Inl (w3, Returned (result, None))
      | Some execErr \<Rightarrow>
         (case decideRetry E ctx active oper attempt execErr w3 of
            (w4, retry, wait) \<Rightarrow>
              if \<not> retry then Inl (w4, Returned (result, Some execErr))
              else (case sleepWithContext E ctx oper attempt wait w4 of
                      (w5, Some sleepErr) \<Rightarrow> Inl (w5, Returned (result, Some (errors_Join (Some execErr) sleepErr)))
                    | (w5, None) \<Rightarrow> Inr w5)))"

definition invokeAttempt ::
    "('w, 'c) client_env \<Rightarrow> 'c option \<Rightarrow> operation \<Rightarrow> 'r \<Rightarrow> ('w, 'c, 'r) call \<Rightarrow> ('w, 'c) policy list \<Rightarrow> int \<Rightarrow> 'w
     \<Rightarrow> ('w \<times> ('r \<times> gerror option) outcome) + 'w" where
  "invokeAttempt E ctx oper zero fn active attempt w =
     (case applyBeforePolicies E ctx active oper w of
        (w1, attemptCtx, applied, Some err) \<Rightarrow>
          (case applyAfterPolicies E attemptCtx applied oper (Some err) w1 of
             (w2, err') \<Rightarrow> Inl (w2, Returned (zero, err')))
      | (w1, attemptCtx, applied, None) \<Rightarrow>
          (case fn attemptCtx w1 of
             (w2, Panicked) \<Rightarrow> Inl (w2, Panicked)
           | (w2, Returned (result, err)) \<Rightarrow>
              (case applyAfterPolicies E attemptCtx applied oper err w2 of
                 (w3, execErr) \<Rightarrow> afterCall E ctx oper active attempt result w3 execErr)))"

partial_function (option) invokeLoop ::
    "('w, 'c) client_env \<Rightarrow> 'c option \<Rightarrow> operation \<Rightarrow> 'r \<Rightarrow> ('w, 'c, 'r) call \<Rightarrow> ('w, 'c) policy list \<Rightarrow> int \<Rightarrow> 'w
     \<Rightarrow> ('w \<times> ('r \<times> gerror option) outcome) option" where
  "invokeLoop E ctx oper zero fn active attempt w =
     (case invokeAttempt E ctx oper zero fn active attempt w of
        Inl final \<Rightarrow> Some final
      | Inr w' \<Rightarrow> invokeLoop E ctx oper zero fn active (attempt + 1) w')"

definition InvokeWithPolicies ::
    "('w, 'c) client_env \<Rightarrow> 'c option \<Rightarrow> operation \<Rightarrow> 'r \<Rightarrow> ('w, 'c, 'r) call option \<Rightarrow> ('w, 'c) policy option list \<Rightarrow> 'w
     \<Rightarrow> ('w \<times> ('r \<times> gerror option) outcome) option" where
  "InvokeWithPolicies E ctx0 oper0 zero fn0 policies w =
     (let ctx = normalizeContext E ctx0; oper = normalizeOperation oper0
      in case fn0 of
           None \<Rightarrow> Some (w, Returned (zero, Some (oops_New E ''clientx/policy''
                     ((''op'', AttrString ''invoke'') # operationAttrs oper) ''invoke function is nil'')))
         | Some fn \<Rightarrow> invokeLoop E ctx oper zero fn (filterPolicies E policies) 1 w)"

subsection \<open>\<open>PolicyFuncs\<close>\<close>

definition PolicyFuncs ::
    "('c option \<Rightarrow> operation \<Rightarrow> 'w \<Rightarrow> 'w \<times> ('c option \<times> gerror option) outcome) option
     \<Rightarrow> ('c option \<Rightarrow> operation \<Rightarrow> gerror option \<Rightarrow> 'w \<Rightarrow> 'w \<times> gerror option outcome) option \<Rightarrow> ('w, 'c) policy" where
  "PolicyFuncs beforeFunc afterFunc =
     \<lparr>Before = (\<lambda>ctx oper w. case beforeFunc of Some f \<Rightarrow> f ctx oper w | None \<Rightarrow> (w, Returned (ctx, None))),
      After = (\<lambda>ctx oper err w. case afterFunc of Some f \<Rightarrow> f ctx oper err w | None \<Rightarrow> (w, Returned None)),
      ShouldRetry = None\<rparr>"

subsection \<open>The retry policy\<close>

text \<open>\<open>float64\<close> is a type \<open>'f\<close> with the operations the code uses and no law about them: conversions in both
  directions (\<open>f_Duration\<close> gives some \<open>int64\<close> also out of range and for NaN, as Go leaves it to the
  platform), comparison, arithmetic, \<open>math.Pow\<close> and the random source.\<close>

record ('w, 'f) float_env =
  f_of_int :: "int \<Rightarrow> 'f"
  f_Duration :: "'f \<Rightarrow> int"
  f_less :: "'f \<Rightarrow> 'f \<Rightarrow> bool"
  f_le :: "'f \<Rightarrow> 'f \<Rightarrow> bool"
  f_add :: "'f \<Rightarrow> 'f \<Rightarrow> 'f"
  f_sub :: "'f \<Rightarrow> 'f \<Rightarrow> 'f"
  f_mul :: "'f \<Rightarrow> 'f \<Rightarrow> 'f"
  f_Pow :: "'f \<Rightarrow> 'f \<Rightarrow> 'f"
  rand_Float64 :: "'w \<Rightarrow> 'w \<times> 'f"

record ('w, 'f) retryConfig =
  MaxAttempts :: int
  BaseDelay :: int
  MaxDelay :: int
  Multiplier :: 'f
  JitterRatio :: 'f
  Retryable :: "(gerror option \<Rightarrow> 'w \<Rightarrow> 'w \<times> bool outcome) option"

record ('w, 'f) retryPolicy =
  maxAttempts :: int
  baseDelay :: int
  maxDelay :: int
  multiplier :: 'f
  jitterRatio :: 'f
  retryable :: "gerror option \<Rightarrow> 'w \<Rightarrow> 'w \<times> bool outcome"

definition defaultRetryable :: "gerror option \<Rightarrow> bool" where
  "defaultRetryable err0 =
     (case err0 of
        None \<Rightarrow> False
      | Some err \<Rightarrow>
          if errors_Is err Canceled then False
          else if errors_Is err DeadlineExceeded then True
          else let kind = KindOf err in
            if kind \<in> {ErrorKindTimeout, ErrorKindTemporary, ErrorKindConnRefused, ErrorKindDNS, ErrorKindNetwork} then True
            else if kind \<in> {ErrorKindUnknown, ErrorKindCanceled, ErrorKindClosed, ErrorKindTLS, ErrorKindCodec} then False
            else (case AsNetError err of Some netErr \<Rightarrow> Error_Timeout netErr | None \<Rightarrow> False))"

definition Millisecond :: int where "Millisecond = 1000000"
definition Second :: int where "Second = 1000 * Millisecond"

definition NewRetryPolicy :: "('w, 'f) float_env \<Rightarrow> ('w, 'f) retryConfig \<Rightarrow> ('w, 'f) retryPolicy" where
  "NewRetryPolicy F cfg =
     (let attempts = (if MaxAttempts cfg \<le> 0 then 3 else MaxAttempts cfg);
          base = (if BaseDelay cfg \<le> 0 then 100 * Millisecond else BaseDelay cfg);
          most0 = (if MaxDelay cfg \<le> 0 then 2 * Second else MaxDelay cfg);
          most = (if most0 < base then base else most0);
          mult = (if f_less F (Multiplier cfg) (f_of_int F 1) then f_of_int F 2 else Multiplier cfg);
          jitter0 = (if f_less F (JitterRatio cfg) (f_of_int F 0) then f_of_int F 0 else JitterRatio cfg);
          jitter = (if f_less F (f_of_int F 1) jitter0 then f_of_int F 1 else jitter0);
          retry = (case Retryable cfg of None \<Rightarrow> (\<lambda>err w. (w, Returned (defaultRetryable err))) | Some f \<Rightarrow> f)
      in \<lparr>maxAttempts = attempts, baseDelay = base, maxDelay = most, multiplier = mult, jitterRatio = jitter,
          retryable = retry\<rparr>)"

definition backoffDelay :: "('w, 'f) float_env \<Rightarrow> ('w, 'f) retryPolicy \<Rightarrow> int \<Rightarrow> 'w \<Rightarrow> 'w \<times> int" where
  "backoffDelay F p attempt0 w =
     (let attempt = (if attempt0 < 1 then 1 else attempt0);
          delayFloat = f_mul F (f_of_int F (baseDelay p)) (f_Pow F (multiplier p) (f_of_int F (attempt - 1)));
          delay0 = f_Duration F delayFloat;
          delay = (if delay0 < 0 \<or> maxDelay p < delay0 then maxDelay p else delay0)
      in if f_le F (jitterRatio p) (f_of_int F 0) then (w, delay)
         else
           let delta = f_mul F (f_of_int F delay) (jitterRatio p);
               minDelayF = f_sub F (f_of_int F delay) delta;
               maxDelayF = f_add F (f_of_int F delay) delta
           in if f_le F maxDelayF minDelayF then (w, delay)
              else case rand_Float64 F w of
                (w', r) \<Rightarrow>
                  let jittered0 = f_add F minDelayF (f_mul F r (f_sub F maxDelayF minDelayF));
                      jittered = (if f_less F jittered0 (f_of_int F 0) then f_of_int F 0 else jittered0);
                      jitteredDelay = f_Duration F jittered
                  in (w', if maxDelay p < jitteredDelay then maxDelay p else jitteredDelay))"

definition retryPolicy_ShouldRetry ::
    "('w, 'c) client_env \<Rightarrow> ('w, 'f) float_env \<Rightarrow> ('w, 'f) retryPolicy \<Rightarrow> 'c option \<Rightarrow> operation \<Rightarrow> int \<Rightarrow> gerror option \<Rightarrow> 'w
     \<Rightarrow> 'w \<times> (bool \<times> int) outcome" where
  "retryPolicy_ShouldRetry E F p ctx oper attempt err w =
     (if err = None then (w, Returned (False, 0))
      else if maxAttempts p \<le> 1 \<or> maxAttempts p \<le> attempt then (w, Returned (False, 0))
      else if (case ctx of None \<Rightarrow> False | Some c \<Rightarrow> ctx_Err E c w \<noteq> None) then (w, Returned (False, 0))
      else case retryable p err w of
        (w1, Panicked) \<Rightarrow> (w1, Panicked)
      | (w1, Returned ok) \<Rightarrow>
          if \<not> ok then (w1, Returned (False, 0))
          else case backoffDelay F p attempt w1 of (w2, delay) \<Rightarrow> (w2, Returned (True, delay)))"

definition retryPolicy_Before :: "'c option \<Rightarrow> operation \<Rightarrow> 'w \<Rightarrow> 'w \<times> ('c option \<times> gerror option) outcome" where
  "retryPolicy_Before ctx oper w = (w, Returned (ctx, None))"

definition retryPolicy_After :: "'c option \<Rightarrow> operation \<Rightarrow> gerror option \<Rightarrow> 'w \<Rightarrow> 'w \<times> gerror option outcome" where
  "retryPolicy_After ctx oper err w = (w, Returned None)"

text \<open>A \<open>*retryPolicy\<close> seen as the interfaces \<open>Policy\<close> and \<open>RetryDecider\<close>.\<close>

definition asPolicy :: "('w, 'c) client_env \<Rightarrow> ('w, 'f) float_env \<Rightarrow> ('w, 'f) retryPolicy \<Rightarrow> ('w, 'c) policy" where
  "asPolicy E F p =
     \<lparr>Before = retryPolicy_Before, After = retryPolicy_After,
      ShouldRetry = Some (\<lambda>ctx oper attempt err. retryPolicy_ShouldRetry E F p ctx oper attempt (Some err))\<rparr>"

subsection \<open>The concurrency limit\<close>

text \<open>The channel \<open>sem\<close> is its length and its capacity. \<open>select\<close> takes a case that is ready: sending when the
  channel has room, the context when it has ended; \<open>pick\<close> is Go's choice when both are. \<open>None\<close> is a call
  that blocks.\<close>

record semaphore =
  sem_len :: nat
  sem_cap :: nat

definition NewConcurrencyLimitPolicy :: "int \<Rightarrow> semaphore" where
  "NewConcurrencyLimitPolicy maxInFlight = \<lparr>sem_len = 0, sem_cap = nat (if maxInFlight \<le> 0 then 1 else maxInFlight)\<rparr>"

definition concurrencyLimitPolicy_Before ::
    "('w, 'c) client_env \<Rightarrow> bool \<Rightarrow> 'w \<Rightarrow> 'c option \<Rightarrow> operation \<Rightarrow> semaphore option
     \<Rightarrow> (semaphore option \<times> 'c option \<times> gerror option) option" where
  "concurrencyLimitPolicy_Before E pick w ctx0 oper p =
     (let ctx = normalizeContext E ctx0;
          attrs = [(''op'', AttrString ''policy_before''), (''policy'', AttrString ''concurrency_limit'')] @ operationAttrs oper
      in case p of
           None \<Rightarrow> Some (p, ctx, Some (oops_New E ''clientx'' attrs ''concurrency limit policy is nil''))
         | Some sem \<Rightarrow>
             (let room = sem_len sem < sem_cap sem;
                  ctxErr = ctx_Err E (the ctx) w
              in if room \<and> (ctxErr = None \<or> pick) then Some (Some (sem\<lparr>sem_len := sem_len sem + 1\<rparr>), ctx, None)
                 else case ctxErr of
                   Some err \<Rightarrow> Some (p, ctx, Some (oops_Wrap E ''clientx''
                       (attrs @ [(''max_in_flight'', AttrInt (int (sem_cap sem))), (''in_flight'', AttrInt (int (sem_len sem)))])
                       ''acquire concurrency slot'' err))
                 | None \<Rightarrow> None))"

definition concurrencyLimitPolicy_After :: "semaphore \<Rightarrow> semaphore \<times> gerror option" where
  "concurrencyLimitPolicy_After sem = (if sem_len sem > 0 then sem\<lparr>sem_len := sem_len sem - 1\<rparr> else sem, None)"

subsection \<open>Accounting over a call\<close>

text \<open>\<open>charges m d p\<close>: the measure \<open>m\<close> of the world grows by \<open>d p\<close> in a \<open>Before\<close> of \<open>p\<close> that counts as applied,
  which is one that returns no error or panics, shrinks by as much in \<open>After\<close>, and is left alone
  otherwise.\<close>

definition charges :: "('w \<Rightarrow> int) \<Rightarrow> (('w, 'c) policy \<Rightarrow> int) \<Rightarrow> ('w, 'c) policy \<Rightarrow> bool" where
  "charges m d p \<longleftrightarrow>
     (\<forall>ctx oper w. case Before p ctx oper w of
        (w', Returned (c, Some e)) \<Rightarrow> m w' = m w | (w', _) \<Rightarrow> m w' = m w + d p) \<and>
     (\<forall>ctx oper err w. m (fst (After p ctx oper err w)) = m w - d p) \<and>
     (\<forall>decider ctx oper attempt err w. ShouldRetry p = Some decider \<longrightarrow> m (fst (decider ctx oper attempt err w)) = m w)"

definition waits :: "('w, 'c) client_env \<Rightarrow> ('w \<Rightarrow> int) \<Rightarrow> bool" where
  "waits E m \<longleftrightarrow> (\<forall>ctx d w. m (fst (ctx_wait E ctx d w)) = m w)"

definition refuses_from :: "int \<Rightarrow> ('w, 'c) policy \<Rightarrow> bool" where
  "refuses_from N p \<longleftrightarrow>
     (\<forall>decider ctx oper attempt err w w' wait.
        ShouldRetry p = Some decider \<and> N \<le> attempt \<longrightarrow> decider ctx oper attempt err w \<noteq> (w', Returned (True, wait)))"

lemma callPolicyBefore_charge:
  assumes "charges m d p" and "callPolicyBefore E ctx p oper w = (w', c, err)"
  shows "m w' = m w + (if err = None then d p else 0)"
proof -
  have *: "case Before p ctx oper w of (w', Returned (c, Some e)) \<Rightarrow> m w' = m w | (w', _) \<Rightarrow> m w' = m w + d p"
    using assms(1) by (simp add: charges_def)
  show ?thesis
    using assms(2) *
    by (auto simp: callPolicyBefore_def wrapPolicyBeforeError_def split: prod.splits outcome.splits option.splits)
qed

lemma callPolicyAfter_charge:
  assumes "charges m d p" and "callPolicyAfter E ctx p oper err w = (w', ok, err')"
  shows "m w' = m w - d p"
proof -
  have "m (fst (After p ctx oper err w)) = m w - d p" using assms(1) by (simp add: charges_def)
  then show ?thesis using assms(2) by (auto simp: callPolicyAfter_def split: prod.splits outcome.splits)
qed

lemma applyBeforePolicies_charge:
  assumes "env_ok E"
  shows "\<forall>p\<in>set ps. charges m d p \<Longrightarrow> applyBeforePolicies E ctx ps oper w = (w', c, applied, err)
    \<Longrightarrow> m w' = m w + sum_list (map d applied) \<and> set applied \<subseteq> set ps \<and> (err = None \<longrightarrow> applied = ps)"
proof (induction ps arbitrary: ctx w w' c applied err)
  case (Cons p ps)
  obtain w1 c1 e1 where head: "callPolicyBefore E ctx p oper w = (w1, c1, e1)" by (metis prod_cases3)
  have m1: "m w1 = m w + (if e1 = None then d p else 0)" using callPolicyBefore_charge head Cons.prems(1) by fastforce
  show ?case
  proof (cases e1)
    case None
    obtain w2 c2 tl e2 where tail: "applyBeforePolicies E c1 ps oper w1 = (w2, c2, tl, e2)" by (metis prod_cases4)
    have "m w2 = m w1 + sum_list (map d tl) \<and> set tl \<subseteq> set ps \<and> (e2 = None \<longrightarrow> tl = ps)"
      using Cons.IH [OF _ tail] Cons.prems(1) by simp
    then show ?thesis using Cons.prems(2) head tail None m1 assms by (auto simp: env_ok_def)
  qed (use Cons.prems(2) head m1 in auto)
qed simp

lemma applyAfterPolicies_charge:
  "\<forall>p\<in>set ps. charges m d p \<Longrightarrow> applyAfterPolicies E ctx ps oper agg w = (w', err)
    \<Longrightarrow> m w' = m w - sum_list (map d ps)"
proof (induction ps arbitrary: agg w)
  case (Cons p ps)
  obtain w1 ok e1 where head: "callPolicyAfter E ctx p oper agg w = (w1, ok, e1)" by (metis prod_cases3)
  obtain agg' where "applyAfterPolicies E ctx ps oper agg' w1 = (w', err)"
    using Cons.prems(2) head by (auto split: bool.splits option.splits)
  then have "m w' = m w1 - sum_list (map d ps)" using Cons.IH Cons.prems(1) by simp
  then show ?case using callPolicyAfter_charge [OF _ head] Cons.prems(1) by fastforce
qed simp

lemma applyAfterPolicies_keeps_error:
  "agg \<noteq> None \<Longrightarrow> snd (applyAfterPolicies E ctx ps oper agg w) \<noteq> None"
proof (induction ps arbitrary: agg w)
  case (Cons p ps)
  obtain w1 ok e1 where head: "callPolicyAfter E ctx p oper agg w = (w1, ok, e1)" by (metis prod_cases3)
  then show ?case using Cons by (auto split: bool.splits option.splits)
qed simp

text \<open>One step of the fold in \<open>decideRetry\<close>, and what it keeps.\<close>

definition decideStep ::
    "'c option \<Rightarrow> operation \<Rightarrow> int \<Rightarrow> gerror \<Rightarrow> 'w \<times> bool \<times> int \<Rightarrow> ('w, 'c) policy \<Rightarrow> 'w \<times> bool \<times> int" where
  "decideStep ctx oper attempt err agg p =
     (case agg of (w, retry, wait) \<Rightarrow>
       (case ShouldRetry p of
          None \<Rightarrow> agg
        | Some decider \<Rightarrow>
           (case decider ctx oper attempt err w of
              (w', Returned (True, delay)) \<Rightarrow> (w', True, max wait delay)
            | (w', _) \<Rightarrow> (w', retry, wait))))"

lemma decideRetry_foldl:
  fixes E :: "('w, 'c) client_env"
  assumes "env_ok E"
  shows "decideRetry E ctx ps oper attempt err w =
     (case foldl (decideStep ctx oper attempt err) (w, False, 0) ps of (w', retry, wait) \<Rightarrow> (w', retry, max wait 0))"
proof -
  have "(\<lambda>(w, retry, wait) p.
           case ShouldRetry p of
             None \<Rightarrow> (w, retry, wait)
           | Some decider \<Rightarrow>
              (case callShouldRetry ctx decider oper attempt err w of
                 (w', shouldRetry, delay, retryOK) \<Rightarrow>
                   if \<not> retryOK \<or> \<not> shouldRetry then (w', retry, wait)
                   else (w', True, max wait delay)))
        = (decideStep ctx oper attempt err :: 'w \<times> bool \<times> int \<Rightarrow> ('w, 'c) policy \<Rightarrow> 'w \<times> bool \<times> int)"
    by (intro ext)
      (auto simp: decideStep_def callShouldRetry_def split: prod.splits option.splits outcome.splits bool.splits)
  then show ?thesis using assms by (simp add: decideRetry_def env_ok_def)
qed

lemma decideRetry_charge:
  assumes "env_ok E" and "\<forall>p\<in>set ps. charges m d p" and "decideRetry E ctx ps oper attempt err w = (w', retry, wait)"
  shows "m w' = m w"
proof -
  have "m (fst (foldl (decideStep ctx oper attempt err) agg ps)) = m (fst agg)" for agg
    using assms(2)
  proof (induction ps arbitrary: agg)
    case (Cons p ps)
    have "m (fst (decideStep ctx oper attempt err agg p)) = m (fst agg)"
      using Cons.prems
      by (auto simp: charges_def decideStep_def split: prod.splits option.splits outcome.splits bool.splits)
        (metis fst_conv)+
    then show ?case using Cons by simp
  qed simp
  from this [of "(w, False, 0)"] show ?thesis
    using assms(1,3) by (auto simp: decideRetry_foldl split: prod.splits)
qed

lemma decideRetry_refused:
  assumes "env_ok E" and "\<forall>p\<in>set ps. refuses_from N p" and "N \<le> attempt"
  shows "\<exists>w'. decideRetry E ctx ps oper attempt err w = (w', False, 0)"
proof -
  have "\<exists>w'. foldl (decideStep ctx oper attempt err) (w, False, 0) ps = (w', False, 0)" for w
    using assms(2)
  proof (induction ps arbitrary: w)
    case (Cons p ps)
    have "\<exists>w1. decideStep ctx oper attempt err (w, False, 0) p = (w1, False, 0)"
      using Cons.prems assms(3)
      by (auto simp: refuses_from_def decideStep_def split: prod.splits option.splits outcome.splits bool.splits)
    then show ?case using Cons by auto
  qed simp
  then obtain w' where "foldl (decideStep ctx oper attempt err) (w, False, 0) ps = (w', False, 0)" by blast
  then show ?thesis using assms(1) by (simp add: decideRetry_foldl)
qed

lemma sleepWithContext_charge:
  "waits E m \<Longrightarrow> sleepWithContext E ctx oper attempt d w = (w', err) \<Longrightarrow> m w' = m w"
  by (auto simp: waits_def sleepWithContext_def split: if_splits prod.splits option.splits) (metis fst_conv)+

lemma afterCall_charge:
  assumes "env_ok E" and "waits E m" and "\<forall>p\<in>set active. charges m d p"
  shows "case afterCall E ctx oper active attempt result w err of
      Inr w' \<Rightarrow> m w' = m w | Inl (w', out) \<Rightarrow> m w' = m w \<and> out \<noteq> Panicked"
proof (cases err)
  case (Some e)
  obtain w4 retry wait where dec: "decideRetry E ctx active oper attempt e w = (w4, retry, wait)" by (metis prod_cases3)
  have m4: "m w4 = m w" using decideRetry_charge [OF assms(1,3) dec] .
  obtain w5 err5 where sl: "sleepWithContext E ctx oper attempt wait w4 = (w5, err5)" by (metis surj_pair)
  have "m w5 = m w4" using sleepWithContext_charge [OF assms(2) sl] .
  then show ?thesis using Some dec sl m4 by (cases err5) (simp_all add: afterCall_def)
qed (simp add: afterCall_def)

lemma invokeAttempt_charge:
  assumes E: "env_ok E" and waits: "waits E m" and charges: "\<forall>p\<in>set active. charges m d p"
    and fn: "\<forall>c w. m (fst (fn c w)) = m w + k"
  shows "case invokeAttempt E ctx oper zero fn active attempt w of
      Inr w' \<Rightarrow> m w' = m w + k
    | Inl (w', Returned r) \<Rightarrow> m w' = m w + k \<or> m w' = m w
    | Inl (w', Panicked) \<Rightarrow> m w' = m w + k + sum_list (map d active)"
proof -
  obtain w1 c1 applied err where before: "applyBeforePolicies E ctx active oper w = (w1, c1, applied, err)" by (metis prod_cases4)
  note b = applyBeforePolicies_charge [OF E charges before]
  then have charges': "\<forall>p\<in>set applied. charges m d p" using charges by blast
  show ?thesis
  proof (cases err)
    case (Some e)
    obtain w2 err2 where "applyAfterPolicies E c1 applied oper (Some e) w1 = (w2, err2)" by (metis surj_pair)
    with applyAfterPolicies_charge [OF charges' this] show ?thesis
      using before Some b by (simp add: invokeAttempt_def)
  next
    case None
    obtain w2 out where call: "fn c1 w1 = (w2, out)" by (metis surj_pair)
    then have m2: "m w2 = m w1 + k" using fn by (metis fst_conv)
    show ?thesis
    proof (cases out)
      case (Returned r)
      obtain result e2 where r: "r = (result, e2)" by (metis surj_pair)
      obtain w3 e3 where after: "applyAfterPolicies E c1 applied oper e2 w2 = (w3, e3)" by (metis surj_pair)
      have "m w3 = m w + k" using applyAfterPolicies_charge [OF charges' after] m2 b by simp
      then show ?thesis
        using before None call Returned r after afterCall_charge [OF E waits charges, where ctx = ctx and oper = oper and attempt = attempt and result = result and w = w3 and err = e3]
        by (auto simp: invokeAttempt_def split: sum.splits prod.splits outcome.splits)
    qed (use before None call m2 b in \<open>simp add: invokeAttempt_def\<close>)
  qed
qed

lemma invokeAttempt_last:
  fixes zero :: 'r
  assumes "env_ok E" and "\<forall>p\<in>set active. refuses_from N p" and "N \<le> attempt"
  shows "invokeAttempt E ctx oper zero fn active attempt w \<noteq> Inr w'"
proof -
  have "afterCall E ctx oper active attempt result w3 e3 \<noteq> Inr w'" for result :: 'r and w3 e3
  proof (cases e3)
    case (Some e)
    then show ?thesis using decideRetry_refused [OF assms, of ctx oper e w3] by (auto simp: afterCall_def)
  qed (simp add: afterCall_def)
  then show ?thesis by (auto simp: invokeAttempt_def split: prod.splits option.splits outcome.splits)
qed

lemma filterPolicies_set: "env_ok E \<Longrightarrow> set (filterPolicies E policies) = {p. Some p \<in> set policies}"
  by (induction policies) (auto simp: filterPolicies_def env_ok_def)

lemma invokeLoop_bounded:
  assumes E: "env_ok E" and waits: "waits E m" and charges: "\<forall>p\<in>set active. charges m (\<lambda>_. 0) p"
    and refuse: "\<forall>p\<in>set active. refuses_from N p"
    and fn: "\<forall>c w. m (fst (fn c w)) = m w + 1"
  shows "attempt \<le> N \<Longrightarrow> \<exists>w' out. invokeLoop E ctx oper zero fn active attempt w = Some (w', out)
    \<and> m w' \<le> m w + (N - attempt + 1)"
proof (induction "nat (N - attempt)" arbitrary: attempt w rule: less_induct)
  case less
  note step = invokeAttempt_charge [OF E waits charges fn, where ctx = ctx and oper = oper and zero = zero and attempt = attempt and w = w]
  show ?case
  proof (cases "invokeAttempt E ctx oper zero fn active attempt w")
    case (Inl final)
    obtain w' out where "final = (w', out)" by (metis surj_pair)
    then show ?thesis
      using Inl step less.prems by (subst invokeLoop.simps) (auto simp: sum_list_0 split: outcome.splits)
  next
    case (Inr w1)
    then have "attempt \<noteq> N" using invokeAttempt_last [OF E refuse order_refl] by metis
    then have "\<exists>w' out. invokeLoop E ctx oper zero fn active (attempt + 1) w1 = Some (w', out)
      \<and> m w' \<le> m w1 + (N - (attempt + 1) + 1)"
      using less.prems by (intro less.hyps) auto
    then show ?thesis using Inr step by (subst invokeLoop.simps) auto
  qed
qed

text \<open>Partial correctness of the loop: a relation between the world before and after that every attempt
  keeps.\<close>

lemma invokeLoop_balanced:
  "invokeLoop E ctx oper zero fn active attempt w = Some x \<Longrightarrow>
     env_ok E \<and> waits E m \<and> (\<forall>p\<in>set active. charges m d p) \<and> (\<forall>c w. m (fst (fn c w)) = m w + 0) \<and> snd x = Returned r
     \<longrightarrow> m (fst x) = m w"
proof (erule invokeLoop.raw_induct [rotated, where P = "\<lambda>E ctx oper zero fn active attempt w x.
     env_ok E \<and> waits E m \<and> (\<forall>p\<in>set active. charges m d p) \<and> (\<forall>c w. m (fst (fn c w)) = m w + 0) \<and> snd x = Returned r
     \<longrightarrow> m (fst x) = m w"], intro impI, elim conjE)
  fix loop E ctx oper zero fn active attempt w x
  assume IH: "\<And>E ctx oper zero fn active attempt w x.
      loop E ctx oper zero fn active attempt w = Some x \<Longrightarrow>
      env_ok E \<and> waits E m \<and> (\<forall>p\<in>set active. charges m d p) \<and> (\<forall>c w. m (fst (fn c w)) = m w + 0) \<and> snd x = Returned r
      \<longrightarrow> m (fst x) = m w"
    and body: "(case invokeAttempt E ctx oper zero fn active attempt w of Inl final \<Rightarrow> Some final
       | Inr w' \<Rightarrow> loop E ctx oper zero fn active (attempt + 1) w') = Some x"
    and hyps: "env_ok E" "waits E m" "\<forall>p\<in>set active. charges m d p" "\<forall>c w. m (fst (fn c w)) = m w + 0"
    and ret: "snd x = Returned r"
  note step = invokeAttempt_charge [OF hyps, where ctx = ctx and oper = oper and zero = zero and attempt = attempt and w = w]
  show "m (fst x) = m w"
  proof (cases "invokeAttempt E ctx oper zero fn active attempt w")
    case (Inl final)
    then show ?thesis using body ret step by (cases x) auto
  next
    case (Inr w1)
    then have "loop E ctx oper zero fn active (attempt + 1) w1 = Some x" using body by simp
    from IH [OF this] show ?thesis using hyps ret Inr step by simp
  qed
qed

subsection \<open>Retries\<close>

lemma asPolicy_refuses: "maxAttempts rp \<le> N \<Longrightarrow> refuses_from N (asPolicy E F rp)"
  by (auto simp: refuses_from_def asPolicy_def retryPolicy_ShouldRetry_def)

lemma backoffDelay_le: "snd (backoffDelay F p attempt w) \<le> maxDelay p"
  by (auto simp: backoffDelay_def Let_def split: prod.splits)

lemma NewRetryPolicy_bounds:
  "1 \<le> maxAttempts (NewRetryPolicy F cfg) \<and> 0 < baseDelay (NewRetryPolicy F cfg)
   \<and> baseDelay (NewRetryPolicy F cfg) \<le> maxDelay (NewRetryPolicy F cfg)"
  by (simp add: NewRetryPolicy_def Let_def Millisecond_def Second_def)

text \<open>
  C4. A call returns. When every policy that may ask for a retry is a retry policy of at most \<open>N\<close>
  attempts, \<open>InvokeWithPolicies\<close> gives a result and runs the function at most \<open>N\<close> times, whatever the
  errors, the other policies, the floating-point arithmetic and the waits do: \<open>m\<close> counts the runs.
\<close>

theorem retry_attempts_bounded:
  assumes "env_ok E" and "waits E m"
    and "\<forall>p. Some p \<in> set policies \<longrightarrow> charges m (\<lambda>_. 0) p"
    and "\<forall>p. Some p \<in> set policies \<longrightarrow>
           ShouldRetry p = None \<or> (\<exists>cfg. p = asPolicy E F (NewRetryPolicy F cfg) \<and> maxAttempts (NewRetryPolicy F cfg) \<le> N)"
    and "1 \<le> N" and "\<forall>c w. m (fst (fn c w)) = m w + 1"
  shows "\<exists>w' out. InvokeWithPolicies E ctx oper zero (Some fn) policies w = Some (w', out) \<and> m w' \<le> m w + N"
proof -
  have active: "set (filterPolicies E policies) = {p. Some p \<in> set policies}" using assms(1) by (rule filterPolicies_set)
  have "refuses_from N p" if p: "Some p \<in> set policies" for p
    using assms(4) p asPolicy_refuses by (fastforce simp: refuses_from_def)
  then have refuse: "\<forall>p\<in>set (filterPolicies E policies). refuses_from N p" using active by simp
  have "\<forall>p\<in>set (filterPolicies E policies). charges m (\<lambda>_. 0) p" using assms(3) active by simp
  from invokeLoop_bounded [OF assms(1,2) this refuse assms(6,5), of "normalizeContext E ctx" "normalizeOperation oper" zero w]
  show ?thesis by (simp add: InvokeWithPolicies_def Let_def)
qed

text \<open>A world of one counter, floats as integers, and a context that never ends.\<close>

definition demo_env :: "(int, unit) client_env" where
  "demo_env = \<lparr>backgroundContext = (), ctx_wait = \<lambda>_ _ w. (w, None), ctx_Err = \<lambda>_ _. None,
     oops_New = \<lambda>_ _ msg. Sentinel msg, oops_Wrap = \<lambda>_ _ msg e. Wrapped msg e,
     lo_Filter = \<lambda>xs P. filter P xs, lo_Concat = concat, lo_Reduce = \<lambda>xs f a. foldl f a xs\<rparr>"

definition demo_float :: "(int, int) float_env" where
  "demo_float = \<lparr>f_of_int = id, f_Duration = id, f_less = (<), f_le = (\<le>), f_add = (+), f_sub = (-), f_mul = (*),
     f_Pow = \<lambda>x y. x ^ nat y, rand_Float64 = \<lambda>w. (w, 0)\<rparr>"

definition demo_cfg :: "(int, int) retryConfig" where
  "demo_cfg = \<lparr>MaxAttempts = 0, BaseDelay = 0, MaxDelay = 0, Multiplier = 0, JitterRatio = 0, Retryable = None\<rparr>"

definition demo_operation :: operation where
  "demo_operation = \<lparr>op_Protocol = [], op_Kind = [], op_Op = ''get'', op_Network = ''tcp'', op_Addr = []\<rparr>"

lemma demo_env_ok: "env_ok demo_env" and demo_waits: "waits demo_env id"
  by (simp_all add: env_ok_def demo_env_def waits_def)

lemma demo_retry_charges: "charges id (\<lambda>_. 0) (asPolicy demo_env demo_float (NewRetryPolicy demo_float demo_cfg))"
  by (auto simp: charges_def asPolicy_def retryPolicy_Before_def retryPolicy_After_def retryPolicy_ShouldRetry_def
      demo_cfg_def demo_float_def demo_env_def NewRetryPolicy_def Let_def backoffDelay_def)

lemma demo_attempts: "maxAttempts (NewRetryPolicy demo_float demo_cfg) = 3"
  by (simp add: NewRetryPolicy_def demo_cfg_def Let_def)

lemma demo_retries:
  "\<exists>cfg. asPolicy demo_env demo_float (NewRetryPolicy demo_float demo_cfg) = asPolicy demo_env demo_float (NewRetryPolicy demo_float cfg)
     \<and> maxAttempts (NewRetryPolicy demo_float cfg) \<le> 3"
  by (rule exI [of _ demo_cfg]) (simp add: demo_attempts)

theorem retry_attempts_bounded_witness:
  "\<exists>w' out. InvokeWithPolicies demo_env None demo_operation (0 :: int)
       (Some (\<lambda>_ w. (w + 1, Returned (0, Some DeadlineExceeded))))
       [None, Some (asPolicy demo_env demo_float (NewRetryPolicy demo_float demo_cfg))] (0 :: int) = Some (w', out)
     \<and> w' \<le> 3"
  using retry_attempts_bounded [OF demo_env_ok demo_waits,
      of "[None, Some (asPolicy demo_env demo_float (NewRetryPolicy demo_float demo_cfg))]" demo_float 3
        "\<lambda>_ w. (w + 1, Returned (0 :: int, Some DeadlineExceeded))" None demo_operation 0 0]
    demo_retry_charges demo_retries by auto

text \<open>
  Retry decisions of the default retry policies, for any floating-point arithmetic, NaN and
  overflowing conversions included: the wait lies between 0 and the largest configured delay, and a
  retry is asked for only before the last attempt and never for a cancelled operation.
\<close>

theorem retry_decision_sound:
  fixes w :: 'w
  assumes "env_ok E" and "0 \<le> D"
    and "\<forall>p\<in>set policies. ShouldRetry p = None \<or>
           (\<exists>cfg. p = asPolicy E F (NewRetryPolicy F cfg) \<and> Retryable cfg = None
              \<and> maxDelay (NewRetryPolicy F cfg) \<le> D \<and> maxAttempts (NewRetryPolicy F cfg) \<le> N)"
    and "decideRetry E ctx policies oper attempt err w = (w', retry, wait)"
  shows "0 \<le> wait \<and> wait \<le> D \<and> (retry \<longrightarrow> attempt < N \<and> \<not> errors_Is err Canceled)"
proof -
  define good where "good = (\<lambda>(w :: 'w, retry, wait :: int). wait \<le> D \<and> (retry \<longrightarrow> attempt < N \<and> \<not> errors_Is err Canceled))"
  have step: "good (decideStep ctx oper attempt err agg p)" if "p \<in> set policies" "good agg" for agg p
  proof (cases "ShouldRetry p")
    case (Some decider)
    with assms(3) that(1) obtain cfg where p: "p = asPolicy E F (NewRetryPolicy F cfg)" "Retryable cfg = None"
      "maxDelay (NewRetryPolicy F cfg) \<le> D" "maxAttempts (NewRetryPolicy F cfg) \<le> N" by auto
    have retryable: "retryable (NewRetryPolicy F cfg) e w = (w, Returned (defaultRetryable e))" for e w
      using p(2) by (simp add: NewRetryPolicy_def Let_def)
    have delay: "delay \<le> D" if "backoffDelay F (NewRetryPolicy F cfg) attempt w = (w', delay)" for w w' delay
      using that p(3) backoffDelay_le [of F "NewRetryPolicy F cfg" attempt w] by simp
    show ?thesis
      using that(2) p(1,4) delay
      by (auto simp: good_def decideStep_def asPolicy_def retryPolicy_ShouldRetry_def retryable defaultRetryable_def
          split: prod.splits if_splits bool.splits)
  qed (use that in \<open>auto simp: good_def decideStep_def\<close>)
  have "good (foldl (decideStep ctx oper attempt err) agg ps)" if "good agg" "set ps \<subseteq> set policies" for agg ps
    using that by (induction ps arbitrary: agg) (auto simp: step)
  from this [of "(w, False, 0)" policies] show ?thesis
    using assms(1,2,4) by (auto simp: good_def decideRetry_foldl split: prod.splits)
qed

theorem retry_decision_sound_witness:
  "decideRetry demo_env None [asPolicy demo_env demo_float (NewRetryPolicy demo_float demo_cfg)] demo_operation 1
      DeadlineExceeded 0 = (0, True, 100000000) \<and> \<not> errors_Is DeadlineExceeded Canceled"
proof -
  have dec: "decideRetry demo_env None [asPolicy demo_env demo_float (NewRetryPolicy demo_float demo_cfg)] demo_operation 1
      DeadlineExceeded 0 = (0, True, 100000000)"
    unfolding decideRetry_foldl [OF demo_env_ok]
    by (simp add: decideStep_def asPolicy_def retryPolicy_ShouldRetry_def
        NewRetryPolicy_def demo_cfg_def demo_float_def demo_env_def Let_def backoffDelay_def defaultRetryable_def
        errors_Is_def DeadlineExceeded_def Canceled_def Millisecond_def Second_def)
  have "\<exists>cfg. asPolicy demo_env demo_float (NewRetryPolicy demo_float demo_cfg) = asPolicy demo_env demo_float (NewRetryPolicy demo_float cfg)
     \<and> Retryable cfg = None \<and> maxDelay (NewRetryPolicy demo_float cfg) \<le> 2000000000
     \<and> maxAttempts (NewRetryPolicy demo_float cfg) \<le> 3"
    by (rule exI [of _ demo_cfg])
      (simp add: demo_attempts, simp add: NewRetryPolicy_def demo_cfg_def Let_def Millisecond_def Second_def)
  with retry_decision_sound [OF demo_env_ok _ _ dec, of 2000000000 demo_float 3]
  have "\<not> errors_Is DeadlineExceeded Canceled" by auto
  with dec show ?thesis by simp
qed

subsection \<open>Every policy that was applied is released\<close>

text \<open>
  C9. What policies take they give back. Let \<open>m\<close> measure what is held and each policy \<open>p\<close> take \<open>d p\<close> in
  \<open>Before\<close> and return it in \<open>After\<close>; then, when \<open>InvokeWithPolicies\<close> returns a value or an error, after
  any number of attempts and whichever policy refused, exactly as much is held as at the start.
\<close>

theorem policies_released:
  assumes "env_ok E" and "waits E m" and "\<forall>p. Some p \<in> set policies \<longrightarrow> charges m d p"
    and "\<forall>fn. fn0 = Some fn \<longrightarrow> (\<forall>c w. m (fst (fn c w)) = m w)"
    and "InvokeWithPolicies E ctx oper zero fn0 policies w = Some (w', Returned r)"
  shows "m w' = m w"
proof (cases fn0)
  case (Some fn)
  have "\<forall>p\<in>set (filterPolicies E policies). charges m d p" using assms(1,3) by (simp add: filterPolicies_set)
  moreover have "invokeLoop E (normalizeContext E ctx) (normalizeOperation oper) zero fn (filterPolicies E policies) 1 w
    = Some (w', Returned r)" using assms(5) Some by (simp add: InvokeWithPolicies_def Let_def)
  ultimately show ?thesis using invokeLoop_balanced [of E _ _ _ fn _ _ w "(w', Returned r)" m d r] assms(1,2,4) Some by simp
qed (use assms(5) in \<open>simp add: InvokeWithPolicies_def Let_def\<close>)

text \<open>Two policies that take a slot each; the second refuses.\<close>

definition demo_slot :: "gerror option \<Rightarrow> (int, unit) policy" where
  "demo_slot refusal = \<lparr>Before = \<lambda>ctx _ w. if refusal = None then (w + 1, Returned (ctx, None)) else (w, Returned (ctx, refusal)),
     After = \<lambda>_ _ _ w. (w - 1, Returned None), ShouldRetry = None\<rparr>"

lemma demo_slot_charges: "charges id (\<lambda>_. 1) (demo_slot refusal)"
  by (auto simp: charges_def demo_slot_def split: option.splits)

theorem policies_released_witness:
  "\<exists>r. InvokeWithPolicies demo_env None demo_operation (0 :: int) (Some (\<lambda>_ w. (w, Returned (7, None))))
     [Some (demo_slot None), Some (demo_slot (Some Canceled))] (5 :: int) = Some (5, Returned r)"
proof -
  have "\<exists>w' r. InvokeWithPolicies demo_env None demo_operation (0 :: int) (Some (\<lambda>_ w. (w, Returned (7, None))))
     [Some (demo_slot None), Some (demo_slot (Some Canceled))] (5 :: int) = Some (w', Returned r)"
    by (simp add: InvokeWithPolicies_def Let_def filterPolicies_def demo_env_def normalizeContext_def)
      (subst invokeLoop.simps, simp add: invokeAttempt_def callPolicyBefore_def callPolicyAfter_def demo_slot_def
        wrapPolicyBeforeError_def wrapPolicyAfterError_def)
  then obtain w' r where run: "InvokeWithPolicies demo_env None demo_operation (0 :: int) (Some (\<lambda>_ w. (w, Returned (7, None))))
     [Some (demo_slot None), Some (demo_slot (Some Canceled))] (5 :: int) = Some (w', Returned r)" by blast
  have "id w' = id (5 :: int)"
    by (rule policies_released [OF demo_env_ok demo_waits _ _ run, of "\<lambda>_. 1"]) (auto simp: demo_slot_charges)
  with run show ?thesis by auto
qed

text \<open>A \<open>Before\<close> that panics is recovered as success with a nil context, which the policies after it and
  the function receive, although the code means to go on with the context it had.\<close>

lemma panicking_before_drops_context:
  assumes "Before p ctx oper w = (w', Panicked)"
  shows "callPolicyBefore E ctx p oper w = (w', None, None)"
  using assms by (simp add: callPolicyBefore_def)

subsection \<open>The concurrency limit between goroutines\<close>

text \<open>The calls of many goroutines on one limit, one channel operation a step: \<open>running\<close> holds the
  goroutines between a \<open>Before\<close> that returned no error and their \<open>After\<close>.\<close>

inductive limit_step :: "('w, 'c) client_env \<Rightarrow> semaphore \<times> 'g set \<Rightarrow> semaphore \<times> 'g set \<Rightarrow> bool" for E where
  acquire: "g \<notin> running \<Longrightarrow> concurrencyLimitPolicy_Before E pick w ctx oper (Some sem) = Some (Some sem', ctx', None)
     \<Longrightarrow> limit_step E (sem, running) (sem', insert g running)"
| refuse: "concurrencyLimitPolicy_Before E pick w ctx oper (Some sem) = Some (Some sem', ctx', Some err)
     \<Longrightarrow> limit_step E (sem, running) (sem', running)"
| release: "g \<in> running \<Longrightarrow> concurrencyLimitPolicy_After sem = (sem', err)
     \<Longrightarrow> limit_step E (sem, running) (sem', running - {g})"

lemma limit_step_invariant:
  assumes "limit_step E s s'" and "finite (snd s) \<and> sem_len (fst s) = card (snd s) \<and> card (snd s) \<le> n \<and> sem_cap (fst s) = n"
  shows "finite (snd s') \<and> sem_len (fst s') = card (snd s') \<and> card (snd s') \<le> n \<and> sem_cap (fst s') = n"
  using assms
  by (induction rule: limit_step.induct)
    (auto simp: concurrencyLimitPolicy_Before_def concurrencyLimitPolicy_After_def Let_def card_gt_0_iff
      split: if_splits option.splits)

text \<open>
  C30. At most \<open>maxInFlight\<close> operations (one when the number is not positive) run at any time, under
  any interleaving of the goroutines; the channel counts exactly the running ones; and a call blocks
  only when all slots are taken and its context has not ended.
\<close>

theorem concurrency_limit_holds:
  assumes "(limit_step E)\<^sup>*\<^sup>* (NewConcurrencyLimitPolicy maxInFlight, {}) (sem, running)"
  shows "card running \<le> nat (max maxInFlight 1) \<and> sem_len sem = card running
    \<and> (concurrencyLimitPolicy_Before E pick w (Some c) oper (Some sem) = None
         \<longleftrightarrow> card running = nat (max maxInFlight 1) \<and> ctx_Err E c w = None)"
proof -
  define n where "n = nat (max maxInFlight 1)"
  define inv where "inv = (\<lambda>s :: semaphore \<times> 'a set.
    finite (snd s) \<and> sem_len (fst s) = card (snd s) \<and> card (snd s) \<le> n \<and> sem_cap (fst s) = n)"
  have "inv (NewConcurrencyLimitPolicy maxInFlight, {})"
    by (auto simp: inv_def n_def NewConcurrencyLimitPolicy_def max_def)
  with assms have "inv (sem, running)"
    by (induction rule: rtranclp_induct) (auto simp: inv_def dest: limit_step_invariant)
  then show ?thesis
    by (auto simp: inv_def n_def concurrencyLimitPolicy_Before_def normalizeContext_def Let_def split: option.splits)
qed

theorem concurrency_limit_holds_witness:
  "concurrencyLimitPolicy_Before demo_env True (0 :: int) (Some ()) demo_operation (Some \<lparr>sem_len = 1, sem_cap = 1\<rparr>) = None
     \<longleftrightarrow> card {0 :: nat} = nat (max 0 1) \<and> ctx_Err demo_env () (0 :: int) = None"
proof -
  have "limit_step demo_env (NewConcurrencyLimitPolicy 0, {}) (\<lparr>sem_len = 1, sem_cap = 1\<rparr>, insert (0 :: nat) {})"
    by (rule limit_step.acquire [where pick = True and w = 0 and ctx = None and oper = demo_operation and ctx' = "Some ()"])
      (simp_all add: concurrencyLimitPolicy_Before_def NewConcurrencyLimitPolicy_def demo_env_def normalizeContext_def)
  then have "(limit_step demo_env)\<^sup>*\<^sup>* (NewConcurrencyLimitPolicy 0, {}) (\<lparr>sem_len = 1, sem_cap = 1\<rparr>, {0 :: nat})"
    by (rule r_into_rtranclp)
  from concurrency_limit_holds [OF this, of True 0 "()" demo_operation] show ?thesis by simp
qed

end
