(* ===== verification/Client_Codec.thy ===== *)
theory Client_Codec
  imports Client_Error "HOL-Library.Word"
begin

text \<open>
  \<^verbatim>\<open>clientx/codec\<close>: length-prefixed framing (\<^verbatim>\<open>framer.go\<close>), the built-in codecs for
  bytes and text (\<^verbatim>\<open>bytes.go\<close>, \<^verbatim>\<open>text.go\<close>). Bytes of a frame are \<open>8 word\<close>, its length a
  \<open>32 word\<close>. Readers and writers are the interfaces of package io: state transformers whose contract, as
  documented there, is a locale each. \<open>io.ReadFull\<close> and \<open>writeFull\<close> loop for as long as the other side
  makes no progress, so they are partial functions. The error builders of samber/oops are parameters;
  the domain \<open>clientx/codec\<close>, the same in every error, is left out of their arguments.
\<close>

unbundle bit_operations_syntax

type_synonym octet = "8 word"

datatype cattr = CString string | CNat nat

record oops_env =
  oops_New :: "(string \<times> cattr) list \<Rightarrow> string \<Rightarrow> gerror"
  oops_Errorf :: "(string \<times> cattr) list \<Rightarrow> string \<Rightarrow> nat list \<Rightarrow> gerror"
  oops_Wrapf :: "(string \<times> cattr) list \<Rightarrow> string \<Rightarrow> gerror \<Rightarrow> gerror"

subsection \<open>Readers and writers\<close>

text \<open>\<open>Read(p)\<close> with \<open>len(p) = n\<close> gives the bytes it put at the front of \<open>p\<close>; \<open>Write(p)\<close> gives how many bytes
  of \<open>p\<close> it took.\<close>

type_synonym 's reader = "'s \<Rightarrow> nat \<Rightarrow> 's \<times> octet list \<times> gerror option"
type_synonym 's writer = "'s \<Rightarrow> octet list \<Rightarrow> 's \<times> nat \<times> gerror option"

definition EOF :: gerror where "EOF = Sentinel ''EOF''"
definition ErrUnexpectedEOF :: gerror where "ErrUnexpectedEOF = Sentinel ''unexpected EOF''"

text \<open>\<open>io.ReadFull(r, buf)\<close>; \<open>got\<close> is what is in \<open>buf\<close> so far.\<close>

partial_function (option) readLoop :: "'s reader \<Rightarrow> nat \<Rightarrow> octet list \<Rightarrow> 's \<Rightarrow> ('s \<times> octet list \<times> gerror option) option" where
  "readLoop rd n got r =
     (if length got < n
      then let x = rd r (n - length got) in
        if snd (snd x) = None then readLoop rd n (got @ fst (snd x)) (fst x)
        else Some (fst x, got @ fst (snd x), snd (snd x))
      else Some (r, got, None))"

definition ReadFull :: "'s reader \<Rightarrow> nat \<Rightarrow> 's \<Rightarrow> ('s \<times> octet list \<times> gerror option) option" where
  "ReadFull rd n r =
     (case readLoop rd n [] r of
        None \<Rightarrow> None
      | Some (r', got, err) \<Rightarrow>
          Some (r', got, if n \<le> length got then None
                         else if 0 < length got \<and> err = Some EOF then Some ErrUnexpectedEOF else err))"

subsection \<open>Big-endian headers\<close>

definition PutUint32 :: "32 word \<Rightarrow> octet list" where
  "PutUint32 v = [ucast (drop_bit 24 v), ucast (drop_bit 16 v), ucast (drop_bit 8 v), ucast v]"

definition Uint32 :: "octet list \<Rightarrow> 32 word" where
  "Uint32 b = ucast (b ! 3) OR push_bit 8 (ucast (b ! 2)) OR push_bit 16 (ucast (b ! 1)) OR push_bit 24 (ucast (b ! 0))"

lemma length_PutUint32 [simp]: "length (PutUint32 v) = 4"
  by (simp add: PutUint32_def)

lemma Uint32_PutUint32 [simp]: "Uint32 (PutUint32 v) = v"
proof (rule bit_word_eqI)
  fix n
  assume "n < LENGTH(32)"
  then show "bit (Uint32 (PutUint32 v)) n = bit v n"
    by (cases "n < 8"; cases "n < 16"; cases "n < 24") (auto simp: Uint32_def PutUint32_def bit_simps)
qed

subsection \<open>The framer\<close>

record framer =
  MaxFrameBytes :: "32 word"

definition DefaultMaxFrameBytes :: "32 word" where
  "DefaultMaxFrameBytes = 4 * 1024 * 1024"

definition NewLengthPrefixed :: "32 word \<Rightarrow> framer" where
  "NewLengthPrefixed maxFrameBytes =
     \<lparr>MaxFrameBytes = (if maxFrameBytes = 0 then DefaultMaxFrameBytes else maxFrameBytes)\<rparr>"

text \<open>A result is the state of the reader and an error (\<open>Inl\<close>) or the frame. A nil reader is \<open>None\<close>.\<close>

definition ReadFrame :: "oops_env \<Rightarrow> 's reader option \<Rightarrow> framer \<Rightarrow> 's \<Rightarrow> ('s \<times> (gerror + octet list)) option" where
  "ReadFrame E rd0 f r =
     (case rd0 of
        None \<Rightarrow> Some (r, Inl (oops_New E [(''op'', CString ''read_frame''), (''max_frame_bytes'', CNat (unat (MaxFrameBytes f)))] ''reader is nil''))
      | Some rd \<Rightarrow>
         (case ReadFull rd 4 r of
            None \<Rightarrow> None
          | Some (r1, header, Some err) \<Rightarrow>
              Some (r1, Inl (oops_Wrapf E [(''op'', CString ''read_frame''), (''stage'', CString ''header''),
                 (''max_frame_bytes'', CNat (unat (MaxFrameBytes f)))] ''read frame header'' err))
          | Some (r1, header, None) \<Rightarrow>
              (let size = Uint32 header in
               if MaxFrameBytes f < size
               then Some (r1, Inl (oops_Errorf E [(''op'', CString ''read_frame''), (''frame_size'', CNat (unat size)),
                      (''max_frame_bytes'', CNat (unat (MaxFrameBytes f)))] ''frame too large: %d > %d''
                      [unat size, unat (MaxFrameBytes f)]))
               else if size = 0 then Some (r1, Inr [])
               else (case ReadFull rd (unat size) r1 of
                       None \<Rightarrow> None
                     | Some (r2, frame, Some err) \<Rightarrow>
                         Some (r2, Inl (oops_Wrapf E [(''op'', CString ''read_frame''), (''stage'', CString ''body''),
                           (''frame_size'', CNat (unat size)), (''max_frame_bytes'', CNat (unat (MaxFrameBytes f)))]
                           ''read frame body'' err))
                     | Some (r2, frame, None) \<Rightarrow> Some (r2, Inr frame)))))"

text \<open>\<open>data = data[n:]\<close> panics for an \<open>n\<close> out of range; a \<open>Write\<close> that breaks its contract so is outside the
  model.\<close>

partial_function (option) writeFull :: "oops_env \<Rightarrow> 's writer \<Rightarrow> octet list \<Rightarrow> 's \<Rightarrow> ('s \<times> gerror option) option" where
  "writeFull E wr data w =
     (if data = [] then Some (w, None)
      else let x = wr w data in
        case snd (snd x) of
          Some err \<Rightarrow> Some (fst x, Some (oops_Wrapf E [(''op'', CString ''write_full''), (''remaining_bytes'', CNat (length data))]
                        ''write frame bytes'' err))
        | None \<Rightarrow> writeFull E wr (drop (fst (snd x)) data) (fst x))"

definition frameAttrs :: "string \<Rightarrow> octet list \<Rightarrow> framer \<Rightarrow> (string \<times> cattr) list" where
  "frameAttrs stage frame f =
     [(''op'', CString ''write_frame''), (''stage'', CString stage), (''frame_size'', CNat (length frame)),
      (''max_frame_bytes'', CNat (unat (MaxFrameBytes f)))]"

definition WriteFrame :: "oops_env \<Rightarrow> 's writer option \<Rightarrow> framer \<Rightarrow> octet list \<Rightarrow> 's \<Rightarrow> ('s \<times> gerror option) option" where
  "WriteFrame E wr0 f frame w =
     (case wr0 of
        None \<Rightarrow> Some (w, Some (oops_New E [(''op'', CString ''write_frame''), (''max_frame_bytes'', CNat (unat (MaxFrameBytes f)))] ''writer is nil''))
      | Some wr \<Rightarrow>
          if unat (MaxFrameBytes f) < length frame
          then Some (w, Some (oops_Errorf E [(''op'', CString ''write_frame''), (''frame_size'', CNat (length frame)),
                 (''max_frame_bytes'', CNat (unat (MaxFrameBytes f)))] ''frame too large: %d > %d''
                 [length frame, unat (MaxFrameBytes f)]))
          else (case writeFull E wr (PutUint32 (of_nat (length frame))) w of
                  None \<Rightarrow> None
                | Some (w1, Some err) \<Rightarrow> Some (w1, Some (oops_Wrapf E (frameAttrs ''header'' frame f) ''write frame header'' err))
                | Some (w1, None) \<Rightarrow>
                   (case writeFull E wr frame w1 of
                      None \<Rightarrow> None
                    | Some (w2, Some err) \<Rightarrow> Some (w2, Some (oops_Wrapf E (frameAttrs ''body'' frame f) ''write frame body'' err))
                    | Some (w2, None) \<Rightarrow> Some (w2, None))))"

subsection \<open>The contracts of io.Reader and io.Writer\<close>

text \<open>What the framing format says of a stream: the frame at its front and what follows, if there is one
  that is complete and not too large.\<close>

definition decode_frame :: "framer \<Rightarrow> octet list \<Rightarrow> (octet list \<times> octet list) option" where
  "decode_frame f bs =
     (let n = unat (Uint32 (take 4 bs)) in
      if length bs < 4 \<or> unat (MaxFrameBytes f) < n \<or> length bs < 4 + n then None
      else Some (take n (drop 4 bs), drop (4 + n) bs))"

text \<open>A reader of a finite stream: \<open>content\<close> is what is still to come; a call returns a prefix of it that
  fits, makes progress or reports an error, and the only error is \<open>EOF\<close>, at the end of the stream.\<close>

locale byte_reader =
  fixes rd :: "'s reader" and content :: "'s \<Rightarrow> octet list"
  assumes read_prefix: "rd r n = (r', bs, err) \<Longrightarrow> content r = bs @ content r' \<and> length bs \<le> n"
    and read_progress: "rd r n = (r', bs, err) \<Longrightarrow> 0 < n \<Longrightarrow> bs \<noteq> [] \<or> err \<noteq> None"
    and read_error: "rd r n = (r', bs, Some e) \<Longrightarrow> e = EOF \<and> content r' = []"
begin

lemma readLoop_spec:
  "\<exists>r' err. readLoop rd n got r = Some (r', got @ take (n - length got) (content r), err)
     \<and> content r' = drop (n - length got) (content r)
     \<and> (n \<le> length got + length (content r) \<or> err = Some EOF)"
proof (induction "n - length got" arbitrary: got r rule: less_induct)
  case less
  obtain r1 bs e where x: "rd r (n - length got) = (r1, bs, e)" by (metis prod_cases3)
  show ?case
  proof (cases "length got < n")
    case True
    note pre = read_prefix [OF x]
    show ?thesis
    proof (cases e)
      case None
      then have "0 < length bs" using read_progress [OF x] True by simp
      then have "n - length (got @ bs) < n - length got" using True unfolding length_append by linarith
      from less.hyps [OF this, of r1] show ?thesis
        using None x True pre by (subst readLoop.simps) (auto simp: Let_def)
    next
      case (Some err)
      then have "err = EOF" "content r1 = []" using read_error x by blast+
      then show ?thesis using Some x True pre by (subst readLoop.simps) (auto simp: Let_def)
    qed
  qed (subst readLoop.simps, simp)
qed

lemma ReadFull_enough:
  assumes "n \<le> length (content r)"
  shows "\<exists>r'. ReadFull rd n r = Some (r', take n (content r), None) \<and> content r' = drop n (content r)"
  using readLoop_spec [of n "[]" r] assms by (auto simp: ReadFull_def)

lemma ReadFull_short:
  assumes "length (content r) < n"
  shows "\<exists>r'. ReadFull rd n r = Some (r', content r, Some (if content r = [] then EOF else ErrUnexpectedEOF)) \<and> content r' = []"
  using readLoop_spec [of n "[]" r] assms by (auto simp: ReadFull_def)

lemma ReadFrame_decodes:
  "\<exists>r' res. ReadFrame E (Some rd) f r = Some (r', res) \<and>
    (case decode_frame f (content r) of
       Some (frame, rest) \<Rightarrow> res = Inr frame \<and> content r' = rest
     | None \<Rightarrow> (\<exists>e. res = Inl e) \<and>
         (4 \<le> length (content r) \<and> MaxFrameBytes f < Uint32 (take 4 (content r)) \<longrightarrow> content r' = drop 4 (content r)))"
proof (cases "length (content r) < 4")
  case True
  then show ?thesis using ReadFull_short [OF True] by (auto simp: ReadFrame_def decode_frame_def)
next
  case False
  define size where "size = Uint32 (take 4 (content r))"
  obtain r1 where h: "ReadFull rd 4 r = Some (r1, take 4 (content r), None)" "content r1 = drop 4 (content r)"
    using ReadFull_enough [of 4 r] False by auto
  consider "MaxFrameBytes f < size" | "size = 0" | "\<not> MaxFrameBytes f < size" "size \<noteq> 0" by blast
  then show ?thesis
  proof cases
    case 1
    then show ?thesis using h False by (auto simp: ReadFrame_def decode_frame_def size_def Let_def word_less_nat_alt)
  next
    case 2
    then show ?thesis using h False by (auto simp: ReadFrame_def decode_frame_def size_def Let_def)
  next
    case 3
    then have fits: "\<not> unat (MaxFrameBytes f) < unat size" by (simp add: word_less_nat_alt)
    show ?thesis
    proof (cases "unat size \<le> length (content r1)")
      case True
      then show ?thesis
        using ReadFull_enough [OF True] h 3 fits False
        by (auto simp: ReadFrame_def decode_frame_def size_def Let_def add.commute)
    next
      case short: False
      then show ?thesis
        using ReadFull_short [of r1 "unat size"] h 3 fits False
        by (auto simp: ReadFrame_def decode_frame_def size_def Let_def)
    qed
  qed
qed

end

text \<open>A writer: \<open>written\<close> is what it has taken; a call that takes less than everything reports an error.\<close>

locale byte_writer =
  fixes wr :: "'s writer" and written :: "'s \<Rightarrow> octet list"
  assumes write_prefix: "wr w data = (w', n, err) \<Longrightarrow> n \<le> length data \<and> written w' = written w @ take n data"
    and write_short: "wr w data = (w', n, None) \<Longrightarrow> n = length data"
begin

lemma writeFull_spec:
  "\<exists>w' err k. writeFull E wr data w = Some (w', err) \<and> written w' = written w @ take k data
     \<and> (err = None \<longrightarrow> written w' = written w @ data)"
proof (cases "data = []")
  case False
  obtain w1 n e where x: "wr w data = (w1, n, e)" by (metis prod_cases3)
  show ?thesis
  proof (cases e)
    case None
    then have "n = length data" using write_short x by blast
    moreover have "writeFull E wr [] w1 = Some (w1, None)" by (simp add: writeFull.simps)
    ultimately show ?thesis
      using None x False write_prefix [OF x]
      by (subst writeFull.simps) (auto simp: Let_def intro: exI [of _ "length data"])
  qed (use x False write_prefix [OF x] in \<open>subst writeFull.simps, auto simp: Let_def\<close>)
qed (auto simp: writeFull.simps)

lemma WriteFrame_spec:
  assumes "WriteFrame E (Some wr) f frame w = Some (w', None)"
  shows "written w' = written w @ PutUint32 (of_nat (length frame)) @ frame \<and> length frame \<le> unat (MaxFrameBytes f)"
proof -
  obtain w1 e1 where h: "writeFull E wr (PutUint32 (of_nat (length frame))) w = Some (w1, e1)"
    "e1 = None \<longrightarrow> written w1 = written w @ PutUint32 (of_nat (length frame))" using writeFull_spec by metis
  obtain w2 e2 where b: "writeFull E wr frame w1 = Some (w2, e2)"
    "e2 = None \<longrightarrow> written w2 = written w1 @ frame" using writeFull_spec by metis
  show ?thesis using assms h b by (auto simp: WriteFrame_def split: if_splits option.splits)
qed

lemma WriteFrame_returns: "\<exists>w' err. WriteFrame E (Some wr) f frame w = Some (w', err)"
proof -
  obtain w1 e1 where h: "writeFull E wr (PutUint32 (of_nat (length frame))) w = Some (w1, e1)" using writeFull_spec by metis
  obtain w2 e2 where b: "writeFull E wr frame w1 = Some (w2, e2)" using writeFull_spec by metis
  show ?thesis using h b by (auto simp: WriteFrame_def split: option.splits)
qed

end

text \<open>\<open>bytes.Buffer\<close> as reader and writer, and \<open>iotest.OneByteReader\<close>, which hands out one byte a call.\<close>

definition buffer_Read :: "octet list reader" where
  "buffer_Read buf n = (if buf = [] then ([], [], if n = 0 then None else Some EOF) else (drop n buf, take n buf, None))"

definition buffer_Write :: "octet list writer" where
  "buffer_Write buf p = (buf @ p, length p, None)"

definition oneByte_Read :: "'s reader \<Rightarrow> 's reader" where
  "oneByte_Read rd r n = (if n = 0 then (r, [], None) else rd r 1)"

interpretation buf_reader: byte_reader buffer_Read id
  by unfold_locales (auto simp: buffer_Read_def split: if_splits)

interpretation slow_reader: byte_reader "oneByte_Read buffer_Read" id
  by unfold_locales (auto simp: oneByte_Read_def buffer_Read_def split: if_splits)

interpretation buf_writer: byte_writer buffer_Write id
  by unfold_locales (auto simp: buffer_Write_def)

subsection \<open>Reading what was written\<close>

text \<open>
  C31. \<open>ReadFrame\<close> on a reader that keeps the contract of \<open>io.Reader\<close>, however it cuts the stream into
  pieces: it returns; its result is the frame at the front of the stream, with the reader right behind
  it, or an error; when the announced length exceeds the limit, nothing of the body is read.
\<close>

theorem read_frame_decodes:
  assumes "byte_reader rd content"
  shows "\<exists>r' res. ReadFrame E (Some rd) f r = Some (r', res) \<and>
    (case decode_frame f (content r) of
       Some (frame, rest) \<Rightarrow> res = Inr frame \<and> content r' = rest
     | None \<Rightarrow> (\<exists>e. res = Inl e) \<and>
         (4 \<le> length (content r) \<and> MaxFrameBytes f < Uint32 (take 4 (content r)) \<longrightarrow> content r' = drop 4 (content r)))"
  by (rule byte_reader.ReadFrame_decodes [OF assms])

theorem read_frame_decodes_witness:
  "\<exists>r' res. ReadFrame \<lparr>oops_New = \<lambda>_ m. Sentinel m, oops_Errorf = \<lambda>_ m _. Sentinel m, oops_Wrapf = \<lambda>_. Wrapped\<rparr>
       (Some (oneByte_Read buffer_Read)) (NewLengthPrefixed 0) [0, 0, 0, 2, 7, 8, 9] = Some (r', res)
     \<and> res = Inr [7, 8] \<and> r' = [9]"
proof -
  have "decode_frame (NewLengthPrefixed 0) [0, 0, 0, 2, 7, 8, 9] = Some ([7, 8], [9])"
    by (simp add: decode_frame_def NewLengthPrefixed_def DefaultMaxFrameBytes_def Uint32_def)
  with read_frame_decodes [OF slow_reader.byte_reader_axioms,
      of "\<lparr>oops_New = \<lambda>_ m. Sentinel m, oops_Errorf = \<lambda>_ m _. Sentinel m, oops_Wrapf = \<lambda>_. Wrapped\<rparr>"
        "NewLengthPrefixed 0" "[0, 0, 0, 2, 7, 8, 9]"]
  show ?thesis by simp
qed

fun writeFrames :: "oops_env \<Rightarrow> 's writer \<Rightarrow> framer \<Rightarrow> octet list list \<Rightarrow> 's \<Rightarrow> ('s \<times> gerror option) option" where
  "writeFrames E wr f [] w = Some (w, None)"
| "writeFrames E wr f (frame # frames) w =
     (case WriteFrame E (Some wr) f frame w of
        Some (w', None) \<Rightarrow> writeFrames E wr f frames w' | other \<Rightarrow> other)"

fun readFrames :: "oops_env \<Rightarrow> 's reader \<Rightarrow> framer \<Rightarrow> nat \<Rightarrow> 's \<Rightarrow> ('s \<times> (gerror + octet list list)) option" where
  "readFrames E rd f 0 r = Some (r, Inr [])"
| "readFrames E rd f (Suc n) r =
     (case ReadFrame E (Some rd) f r of
        None \<Rightarrow> None
      | Some (r', Inl e) \<Rightarrow> Some (r', Inl e)
      | Some (r', Inr frame) \<Rightarrow> map_option (\<lambda>(r'', res). (r'', map_sum id ((#) frame) res)) (readFrames E rd f n r'))"

lemma decode_frame_encoded:
  assumes "length frame \<le> unat (MaxFrameBytes f)"
  shows "decode_frame f (PutUint32 (of_nat (length frame)) @ frame @ rest) = Some (frame, rest)"
proof -
  have "unat (MaxFrameBytes f) < 2 ^ LENGTH(32)" by (rule unsigned_less)
  then have "length frame < 2 ^ 32" using assms by simp
  then have "unat (of_nat (length frame) :: 32 word) = length frame" by (simp add: unat_of_nat take_bit_nat_eq_self)
  then show ?thesis using assms by (simp add: decode_frame_def)
qed

lemma writeFrames_stream:
  assumes "byte_writer wr written" and "writeFrames E wr f frames w = Some (w', None)"
  shows "written w' = written w @ concat (map (\<lambda>frame. PutUint32 (of_nat (length frame)) @ frame) frames)
     \<and> (\<forall>frame\<in>set frames. length frame \<le> unat (MaxFrameBytes f))"
  using assms(2)
proof (induction frames arbitrary: w)
  case (Cons frame frames)
  then obtain w1 where w1: "WriteFrame E (Some wr) f frame w = Some (w1, None)" "writeFrames E wr f frames w1 = Some (w', None)"
    by (auto split: option.splits)
  from Cons.IH [OF w1(2)] byte_writer.WriteFrame_spec [OF assms(1) w1(1)] show ?case by auto
qed simp

text \<open>
  C10. Framing round trip: whatever list of frames was written without an error, reading as many
  frames from the bytes written gives exactly them, in order, and leaves the reader at what follows.
\<close>

theorem frames_roundtrip:
  assumes "byte_reader rd content" and "byte_writer wr written"
    and "writeFrames E wr f frames w = Some (w', None)"
    and "written w' = written w @ bs" and "content r = bs @ rest"
  shows "\<exists>r'. readFrames E rd f (length frames) r = Some (r', Inr frames) \<and> content r' = rest"
proof -
  have stream: "bs = concat (map (\<lambda>frame. PutUint32 (of_nat (length frame)) @ frame) frames)"
    and fits: "\<forall>frame\<in>set frames. length frame \<le> unat (MaxFrameBytes f)"
    using writeFrames_stream [OF assms(2,3)] assms(4) by auto
  show ?thesis
    using assms(5) stream fits
  proof (induction frames arbitrary: r bs)
    case (Cons frame frames)
    let ?tl = "concat (map (\<lambda>frame. PutUint32 (of_nat (length frame)) @ frame) frames)"
    have "decode_frame f (content r) = Some (frame, ?tl @ rest)"
      using Cons.prems decode_frame_encoded [of frame f "?tl @ rest"] by simp
    then obtain r1 where r1: "ReadFrame E (Some rd) f r = Some (r1, Inr frame)" "content r1 = ?tl @ rest"
      using byte_reader.ReadFrame_decodes [OF assms(1), of E f r] by auto
    from Cons.IH [OF r1(2) refl] Cons.prems(3) r1(1) show ?case by auto
  qed simp
qed

theorem frames_roundtrip_witness:
  "\<exists>r'. readFrames \<lparr>oops_New = \<lambda>_ m. Sentinel m, oops_Errorf = \<lambda>_ m _. Sentinel m, oops_Wrapf = \<lambda>_. Wrapped\<rparr>
       (oneByte_Read buffer_Read) (NewLengthPrefixed 3) 2 [0, 0, 0, 2, 7, 8, 0, 0, 0, 0, 5] = Some (r', Inr [[7, 8], []])
     \<and> r' = [5]"
proof -
  let ?E = "\<lparr>oops_New = \<lambda>_ m. Sentinel m, oops_Errorf = \<lambda>_ m _. Sentinel m, oops_Wrapf = \<lambda>_. Wrapped\<rparr>"
  have "writeFrames ?E buffer_Write (NewLengthPrefixed 3) [[7, 8], []] [] = Some ([0, 0, 0, 2, 7, 8, 0, 0, 0, 0], None)"
    by (simp add: WriteFrame_def writeFull.simps buffer_Write_def NewLengthPrefixed_def PutUint32_def)
  from frames_roundtrip [OF slow_reader.byte_reader_axioms buf_writer.byte_writer_axioms this,
      of "[0, 0, 0, 2, 7, 8, 0, 0, 0, 0]" "[0, 0, 0, 2, 7, 8, 0, 0, 0, 0, 5]" "[5]"]
  show ?thesis by (simp add: numeral_2_eq_2 del: readFrames.simps)
qed

subsection \<open>The built-in codecs\<close>

text \<open>What the type switches tell apart of a value to marshal, and of a target to unmarshal into (a
  pointer is its old content; \<open>UnmarshalText\<close> is the method of the target). \<open>AnyValue\<close> and \<open>AnyTarget\<close>
  are every other type, by its name under \<open>%T\<close>.\<close>

datatype mvalue =
    VString string
  | VBytes bytes
  | VTextMarshaler string "gerror + bytes"
  | VStringer string string
  | AnyValue string

datatype target =
    PString string
  | PBytes bytes
  | PTextUnmarshaler string bytes "bytes \<Rightarrow> bytes \<Rightarrow> gerror + bytes"
  | AnyTarget string

definition ErrUnsupportedValue :: gerror where "ErrUnsupportedValue = Sentinel ''codec unsupported value type''"

fun typeOf :: "mvalue \<Rightarrow> string" where
  "typeOf (VString _) = ''string''" | "typeOf (VBytes _) = ''[]uint8''"
| "typeOf (VTextMarshaler t _) = t" | "typeOf (VStringer t _) = t" | "typeOf (AnyValue t) = t"

fun targetTypeOf :: "target \<Rightarrow> string" where
  "targetTypeOf (PString _) = ''*string''" | "targetTypeOf (PBytes _) = ''*[]uint8''"
| "targetTypeOf (PTextUnmarshaler t _ _) = t" | "targetTypeOf (AnyTarget t) = t"

fun textCodec_Marshal :: "oops_env \<Rightarrow> mvalue \<Rightarrow> gerror + bytes" where
  "textCodec_Marshal E (VString s) = Inr s"
| "textCodec_Marshal E (VBytes b) = Inr b"
| "textCodec_Marshal E (VTextMarshaler t (Inl err)) =
     Inl (oops_Wrapf E [(''op'', CString ''marshal_text''), (''codec'', CString ''text''), (''value_type'', CString t)] ''marshal text value'' err)"
| "textCodec_Marshal E (VTextMarshaler t (Inr data)) = Inr data"
| "textCodec_Marshal E (VStringer t s) = Inr s"
| "textCodec_Marshal E (AnyValue t) =
     Inl (oops_Wrapf E [(''op'', CString ''marshal_text''), (''codec'', CString ''text''), (''value_type'', CString t)] ''marshal text value'' ErrUnsupportedValue)"

text \<open>Unmarshalling gives the target after the call and the error.\<close>

fun textCodec_Unmarshal :: "oops_env \<Rightarrow> bytes \<Rightarrow> target \<Rightarrow> target \<times> gerror option" where
  "textCodec_Unmarshal E data (PString s) = (PString data, None)"
| "textCodec_Unmarshal E data (PBytes b) = (PBytes (take 0 b @ data), None)"
| "textCodec_Unmarshal E data (PTextUnmarshaler t st f) =
     (case f st data of
        Inl err \<Rightarrow> (PTextUnmarshaler t st f,
           Some (oops_Wrapf E [(''op'', CString ''unmarshal_text''), (''codec'', CString ''text''), (''target_type'', CString t),
             (''payload_size'', CNat (length data))] ''unmarshal text value'' err))
      | Inr st' \<Rightarrow> (PTextUnmarshaler t st' f, None))"
| "textCodec_Unmarshal E data (AnyTarget t) =
     (AnyTarget t, Some (oops_Wrapf E [(''op'', CString ''unmarshal_text''), (''codec'', CString ''text''), (''target_type'', CString t),
        (''payload_size'', CNat (length data))] ''unmarshal text value'' ErrUnsupportedValue))"

definition bytesCodec_Marshal :: "oops_env \<Rightarrow> mvalue \<Rightarrow> gerror + bytes" where
  "bytesCodec_Marshal E v =
     (case v of
        VBytes b \<Rightarrow> Inr b
      | _ \<Rightarrow> Inl (oops_Wrapf E [(''op'', CString ''marshal_bytes''), (''codec'', CString ''bytes''), (''value_type'', CString (typeOf v))]
               ''marshal bytes value'' ErrUnsupportedValue))"

definition bytesCodec_Unmarshal :: "oops_env \<Rightarrow> bytes \<Rightarrow> target \<Rightarrow> target \<times> gerror option" where
  "bytesCodec_Unmarshal E data v =
     (case v of
        PBytes b \<Rightarrow> (PBytes (take 0 b @ data), None)
      | _ \<Rightarrow> (v, Some (oops_Wrapf E [(''op'', CString ''unmarshal_bytes''), (''codec'', CString ''bytes''),
               (''target_type'', CString (targetTypeOf v)), (''payload_size'', CNat (length data))]
               ''unmarshal bytes value'' ErrUnsupportedValue)))"

lemma codecs_unmarshal_marshalled:
  "bytesCodec_Marshal E (VBytes b) = Inr data \<Longrightarrow> bytesCodec_Unmarshal E data (PBytes old) = (PBytes b, None)"
  "textCodec_Marshal E (VString s) = Inr data \<Longrightarrow> textCodec_Unmarshal E data (PString old') = (PString s, None)"
  by (simp_all add: bytesCodec_Marshal_def bytesCodec_Unmarshal_def)

end
