(* ===== verification/Kv_Lock.thy ===== *)
theory Kv_Lock
  imports Client_Policy Mapping_Map Go_Strconv
begin

text \<open>
  \<^verbatim>\<open>kvx/module/lock\<close>: distributed locks (\<^verbatim>\<open>lock.go\<close>), read-write locks (\<^verbatim>\<open>rwlock.go\<close>) and semaphores
  (\<^verbatim>\<open>semaphore.go\<close>) over a key-value server, with the lock operations of \<^verbatim>\<open>kvx/adapter/redis/lock.go\<close>. The server
  is a parameter on states \<open>'s\<close>; what Redis documents of it is a locale. A result is an error (\<open>Inl\<close>) or a
  value. Contexts are left out: a cancelled call is an error of the server. The clock and the wait between
  two attempts are parameters on the same state. Attributes of errors are left out.
\<close>

definition ErrLockNotAcquired :: gerror where "ErrLockNotAcquired = Sentinel ''lock: could not acquire lock''"
definition ErrLockNotHeld :: gerror where "ErrLockNotHeld = Sentinel ''lock: lock not held''"
definition ErrNil :: gerror where "ErrNil = Sentinel ''kvx: nil''"

record lock_env =
  lk_Wrapf :: "string \<Rightarrow> gerror \<Rightarrow> gerror"
  lk_New :: "string \<Rightarrow> gerror"

definition lock_env_ok :: "lock_env \<Rightarrow> bool" where
  "lock_env_ok E \<longleftrightarrow> (\<forall>m e. \<exists>msg. lk_Wrapf E m e = Wrapped msg e)"

lemma wrapped_Is: "lock_env_ok E \<Longrightarrow> errors_Is e target \<Longrightarrow> errors_Is (lk_Wrapf E m e) target"
  by (metis chain.simps(5) errors_Is_def list.set_intros(2) lock_env_ok_def)

subsection \<open>The server and the Redis adapter\<close>

text \<open>The commands of the server that are used: \<open>SET key token NX PX ttl\<close>, and \<open>GET\<close>, \<open>DEL\<close>, \<open>PEXPIRE\<close> inside scripts.
  \<open>run_EVAL\<close> sends a script and returns its number; what it does with the script is the server's. The
  decimal text of \<open>ARGV[2]\<close> is the number it stands for.\<close>

record 's redis =
  setNX :: "'s \<Rightarrow> string \<Rightarrow> string \<Rightarrow> int \<Rightarrow> 's \<times> (gerror + unit)"
  cmd_GET :: "'s \<Rightarrow> string \<Rightarrow> 's \<times> (gerror + string option)"
  cmd_DEL :: "'s \<Rightarrow> string \<Rightarrow> 's \<times> (gerror + int)"
  cmd_PEXPIRE :: "'s \<Rightarrow> string \<Rightarrow> int \<Rightarrow> 's \<times> (gerror + int)"
  run_EVAL :: "('s \<Rightarrow> 's \<times> (gerror + int)) \<Rightarrow> 's \<Rightarrow> 's \<times> (gerror + int)"

text \<open>The two Lua scripts. \<open>GET\<close> of a missing key is \<open>false\<close> in Lua, which equals no string; an error of a command
  ends the script.\<close>

definition releaseLockScript :: "'s redis \<Rightarrow> string \<Rightarrow> string \<Rightarrow> 's \<Rightarrow> 's \<times> (gerror + int)" where
  "releaseLockScript R key token s =
     (case cmd_GET R s key of
        (s1, Inl err) \<Rightarrow> (s1, Inl err)
      | (s1, Inr val) \<Rightarrow> if val = Some token then cmd_DEL R s1 key else (s1, Inr 0))"

definition extendLockScript :: "'s redis \<Rightarrow> string \<Rightarrow> string \<Rightarrow> int \<Rightarrow> 's \<Rightarrow> 's \<times> (gerror + int)" where
  "extendLockScript R key token ms s =
     (case cmd_GET R s key of
        (s1, Inl err) \<Rightarrow> (s1, Inl err)
      | (s1, Inr val) \<Rightarrow> if val = Some token then cmd_PEXPIRE R s1 key ms else (s1, Inr 0))"

definition RedisNil :: gerror where "RedisNil = Sentinel ''redis: nil''"

text \<open>The interface \<open>kvx.Lock\<close>.\<close>

record 's lockClient =
  cl_Acquire :: "'s \<Rightarrow> string \<Rightarrow> string \<Rightarrow> int \<Rightarrow> 's \<times> (gerror + bool)"
  cl_Release :: "'s \<Rightarrow> string \<Rightarrow> string \<Rightarrow> 's \<times> (gerror + bool)"
  cl_Extend :: "'s \<Rightarrow> string \<Rightarrow> string \<Rightarrow> int \<Rightarrow> 's \<times> (gerror + bool)"

definition Adapter_Acquire :: "lock_env \<Rightarrow> 's redis \<Rightarrow> 's \<Rightarrow> string \<Rightarrow> string \<Rightarrow> int \<Rightarrow> 's \<times> (gerror + bool)" where
  "Adapter_Acquire E R s key token ttl =
     (case setNX R s key token ttl of
        (s', Inr _) \<Rightarrow> (s', Inr True)
      | (s', Inl err) \<Rightarrow> if errors_Is err RedisNil then (s', Inr False) else (s', Inl (lk_Wrapf E ''acquire lock'' err)))"

definition Adapter_Release :: "lock_env \<Rightarrow> 's redis \<Rightarrow> 's \<Rightarrow> string \<Rightarrow> string \<Rightarrow> 's \<times> (gerror + bool)" where
  "Adapter_Release E R s key token =
     (case run_EVAL R (releaseLockScript R key token) s of
        (s', Inl err) \<Rightarrow> (s', Inl (lk_Wrapf E ''release lock'' err))
      | (s', Inr n) \<Rightarrow> (s', Inr (n = 1)))"

definition Milliseconds :: "int \<Rightarrow> int" where
  "Milliseconds d = (if d < 0 then - ((- d) div 1000000) else d div 1000000)"

definition Adapter_Extend :: "lock_env \<Rightarrow> 's redis \<Rightarrow> 's \<Rightarrow> string \<Rightarrow> string \<Rightarrow> int \<Rightarrow> 's \<times> (gerror + bool)" where
  "Adapter_Extend E R s key token ttl =
     (case run_EVAL R (extendLockScript R key token (Milliseconds ttl)) s of
        (s', Inl err) \<Rightarrow> (s', Inl (lk_Wrapf E ''extend lock'' err))
      | (s', Inr n) \<Rightarrow> (s', Inr (n = 1)))"

definition redisClient :: "lock_env \<Rightarrow> 's redis \<Rightarrow> 's lockClient" where
  "redisClient E R = \<lparr>cl_Acquire = Adapter_Acquire E R, cl_Release = Adapter_Release E R, cl_Extend = Adapter_Extend E R\<rparr>"

subsection \<open>Lock\<close>

text \<open>\<open>stopped\<close>: the channel \<open>stopExtend\<close> is closed. \<open>extenders\<close>: the goroutines that extend the lock.\<close>

record dlock =
  lock_key :: string
  lock_identifier :: string
  lock_ttl :: int
  autoExtend :: bool
  stopped :: bool
  extenders :: nat

record lockOptions =
  TTL :: int
  AutoExtend :: bool

definition DefaultOptions :: lockOptions where
  "DefaultOptions = \<lparr>TTL = 30 * Second, AutoExtend = True\<rparr>"

definition resolveOptions :: "lockOptions option \<Rightarrow> lockOptions" where
  "resolveOptions opts = (case opts of Some o1 \<Rightarrow> o1 | None \<Rightarrow> DefaultOptions)"

text \<open>\<open>ident\<close> is what \<open>generateIdentifier\<close> returns.\<close>

definition NewLock :: "string \<Rightarrow> string \<Rightarrow> lockOptions option \<Rightarrow> dlock" where
  "NewLock ident key opts0 =
     (let opts = resolveOptions opts0
      in \<lparr>lock_key = key, lock_identifier = ident, lock_ttl = TTL opts, autoExtend = AutoExtend opts, stopped = False, extenders = 0\<rparr>)"

text \<open>A goroutine that finds the channel closed ends at once. (With a TTL below 3 ns \<open>time.NewTicker\<close> panics in the
  goroutine and ends the process; the model has no such end and goes on.)\<close>

definition startAutoExtend :: "dlock \<Rightarrow> dlock" where
  "startAutoExtend l = (if stopped l then l else l\<lparr>extenders := extenders l + 1\<rparr>)"

text \<open>One tick of such a goroutine: it goes on unless the client fails.\<close>

definition extendTick :: "'s lockClient \<Rightarrow> dlock \<Rightarrow> 's \<Rightarrow> 's \<times> dlock" where
  "extendTick C l s =
     (case cl_Extend C s (lock_key l) (lock_identifier l) (lock_ttl l) of
        (s', Inl err) \<Rightarrow> (s', l\<lparr>extenders := extenders l - 1\<rparr>)
      | (s', Inr _) \<Rightarrow> (s', l))"

text \<open>Closing a closed channel panics.\<close>

definition stopAutoExtend :: "dlock \<Rightarrow> dlock outcome" where
  "stopAutoExtend l =
     (if autoExtend l then (if stopped l then Panicked else Returned (l\<lparr>stopped := True, extenders := 0\<rparr>)) else Returned l)"

definition Lock_Acquire :: "lock_env \<Rightarrow> 's lockClient \<Rightarrow> dlock \<Rightarrow> 's \<Rightarrow> 's \<times> dlock \<times> gerror option" where
  "Lock_Acquire E C l s =
     (case cl_Acquire C s (lock_key l) (lock_identifier l) (lock_ttl l) of
        (s', Inl err) \<Rightarrow> (s', l, Some (lk_Wrapf E ''acquire lock'' err))
      | (s', Inr acquired) \<Rightarrow>
          if \<not> acquired then (s', l, Some (lk_Wrapf E ''acquire lock'' ErrLockNotAcquired))
          else (s', if autoExtend l then startAutoExtend l else l, None))"

text \<open>\<open>now\<close> reads the clock; \<open>pause\<close> waits 100 ms, or returns the error of a context that ended.\<close>

partial_function (option) tryAcquireLoop ::
    "lock_env \<Rightarrow> 's lockClient \<Rightarrow> ('s \<Rightarrow> int) \<Rightarrow> ('s \<Rightarrow> 's \<times> gerror option) \<Rightarrow> int \<Rightarrow> dlock \<Rightarrow> 's \<Rightarrow> ('s \<times> dlock \<times> gerror option) option" where
  "tryAcquireLoop E C now pause deadline l s =
     (if deadline < now s then Some (s, l, Some (lk_Wrapf E ''acquire lock before deadline'' ErrLockNotAcquired))
      else let x = Lock_Acquire E C l s in
        (case snd (snd x) of
           None \<Rightarrow> Some x
         | Some err \<Rightarrow>
             if \<not> errors_Is err ErrLockNotAcquired then Some x
             else let y = pause (fst x) in
               (case snd y of
                  Some ctxErr \<Rightarrow> Some (fst y, fst (snd x), Some (lk_Wrapf E ''lock acquisition canceled'' ctxErr))
                | None \<Rightarrow> tryAcquireLoop E C now pause deadline (fst (snd x)) (fst y))))"

definition Lock_TryAcquire ::
    "lock_env \<Rightarrow> 's lockClient \<Rightarrow> ('s \<Rightarrow> int) \<Rightarrow> ('s \<Rightarrow> 's \<times> gerror option) \<Rightarrow> dlock \<Rightarrow> int \<Rightarrow> 's \<Rightarrow> ('s \<times> dlock \<times> gerror option) option" where
  "Lock_TryAcquire E C now pause l timeout s = tryAcquireLoop E C now pause (now s + timeout) l s"

definition Lock_Release :: "lock_env \<Rightarrow> 's lockClient \<Rightarrow> dlock \<Rightarrow> 's \<Rightarrow> 's \<times> dlock \<times> gerror option outcome" where
  "Lock_Release E C l s =
     (case stopAutoExtend l of
        Panicked \<Rightarrow> (s, l, Panicked)
      | Returned l1 \<Rightarrow>
         (case cl_Release C s (lock_key l1) (lock_identifier l1) of
            (s', Inl err) \<Rightarrow> (s', l1, Returned (Some (lk_Wrapf E ''release lock'' err)))
          | (s', Inr released) \<Rightarrow>
              (s', l1, Returned (if \<not> released then Some (lk_Wrapf E ''release lock'' ErrLockNotHeld) else None))))"

definition Lock_Extend :: "lock_env \<Rightarrow> 's lockClient \<Rightarrow> dlock \<Rightarrow> int \<Rightarrow> 's \<Rightarrow> 's \<times> gerror option" where
  "Lock_Extend E C l ttl s =
     (case cl_Extend C s (lock_key l) (lock_identifier l) ttl of
        (s', Inl err) \<Rightarrow> (s', Some (lk_Wrapf E ''extend lock'' err))
      | (s', Inr extended) \<Rightarrow> (s', if \<not> extended then Some (lk_Wrapf E ''extend lock'' ErrLockNotHeld) else None))"

definition Lock_IsHeld :: "lock_env \<Rightarrow> 's lockClient \<Rightarrow> dlock \<Rightarrow> 's \<Rightarrow> 's \<times> (gerror + bool)" where
  "Lock_IsHeld E C l s =
     (case cl_Extend C s (lock_key l) (lock_identifier l) (lock_ttl l) of
        (s', Inl err) \<Rightarrow> (s', Inl (lk_Wrapf E ''check lock state'' err))
      | (s', Inr held) \<Rightarrow> (s', Inr held))"

subsection \<open>Running under a lock\<close>

definition releaseLockOnExit :: "lock_env \<Rightarrow> 's lockClient \<Rightarrow> dlock \<Rightarrow> 's \<Rightarrow> 's \<times> gerror option outcome" where
  "releaseLockOnExit E C l s =
     (case Lock_Release E C l s of
        (s', _, Panicked) \<Rightarrow> (s', Panicked)
      | (s', _, Returned err) \<Rightarrow> (s', Returned (map_option (lk_Wrapf E ''release lock on exit'') err)))"

text \<open>\<open>errors.Join\<close> of two errors that may be nil.\<close>

definition join2 :: "gerror option \<Rightarrow> gerror option \<Rightarrow> gerror option" where
  "join2 a b = (case (case a of None \<Rightarrow> [] | Some e \<Rightarrow> [e]) @ (case b of None \<Rightarrow> [] | Some e \<Rightarrow> [e]) of [] \<Rightarrow> None | es \<Rightarrow> Some (Joined es))"

text \<open>The body and the deferred release of \<open>WithLock\<close> and \<open>WithTryLock\<close>; a panic of \<open>fn\<close> goes on after the
  release.\<close>

definition runLocked :: "lock_env \<Rightarrow> 's lockClient \<Rightarrow> dlock \<Rightarrow> ('s \<Rightarrow> 's \<times> gerror option outcome) \<Rightarrow> 's \<Rightarrow> 's \<times> gerror option outcome" where
  "runLocked E C l fn s =
     (case fn s of
        (s1, out) \<Rightarrow>
         (case releaseLockOnExit E C l s1 of
            (s2, Panicked) \<Rightarrow> (s2, Panicked)
          | (s2, Returned relErr) \<Rightarrow>
             (case out of Panicked \<Rightarrow> (s2, Panicked) | Returned err \<Rightarrow> (s2, Returned (join2 err relErr)))))"

definition WithLock :: "lock_env \<Rightarrow> 's lockClient \<Rightarrow> string \<Rightarrow> string \<Rightarrow> lockOptions option \<Rightarrow> ('s \<Rightarrow> 's \<times> gerror option outcome)
     \<Rightarrow> 's \<Rightarrow> 's \<times> gerror option outcome" where
  "WithLock E C ident key opts fn s =
     (case Lock_Acquire E C (NewLock ident key opts) s of
        (s1, l, Some err) \<Rightarrow> (s1, Returned (Some err))
      | (s1, l, None) \<Rightarrow> runLocked E C l fn s1)"

definition WithTryLock :: "lock_env \<Rightarrow> 's lockClient \<Rightarrow> ('s \<Rightarrow> int) \<Rightarrow> ('s \<Rightarrow> 's \<times> gerror option) \<Rightarrow> string \<Rightarrow> string \<Rightarrow> int
     \<Rightarrow> lockOptions option \<Rightarrow> ('s \<Rightarrow> 's \<times> gerror option outcome) \<Rightarrow> 's \<Rightarrow> ('s \<times> gerror option outcome) option" where
  "WithTryLock E C now pause ident key timeout opts fn s =
     (case Lock_TryAcquire E C now pause (NewLock ident key opts) timeout s of
        None \<Rightarrow> None
      | Some (s1, l, Some err) \<Rightarrow> Some (s1, Returned (Some err))
      | Some (s1, l, None) \<Rightarrow> Some (runLocked E C l fn s1))"

subsection \<open>The manager\<close>

text \<open>The manager shares its locks with the callers: the locks are cells of a heap, the manager maps keys to
  them. \<open>ks\<close> is the order of \<open>Keys\<close>.\<close>

record lockManager =
  heap :: "dlock list"
  locks :: "(string, nat) fmap"

definition NewManager :: lockManager where
  "NewManager = \<lparr>heap = [], locks = fmempty\<rparr>"

definition addLock :: "lockManager \<Rightarrow> string \<Rightarrow> dlock \<Rightarrow> lockManager \<times> nat" where
  "addLock m key l = (m\<lparr>heap := heap m @ [l], locks := fmupd key (length (heap m)) (locks m)\<rparr>, length (heap m))"

definition Manager_Acquire :: "lock_env \<Rightarrow> 's lockClient \<Rightarrow> string \<Rightarrow> lockManager \<Rightarrow> string \<Rightarrow> lockOptions option \<Rightarrow> 's
     \<Rightarrow> 's \<times> lockManager \<times> (gerror + nat)" where
  "Manager_Acquire E C ident m key opts s =
     (case Lock_Acquire E C (NewLock ident key opts) s of
        (s', _, Some err) \<Rightarrow> (s', m, Inl err)
      | (s', l, None) \<Rightarrow> (case addLock m key l of (m', p) \<Rightarrow> (s', m', Inr p)))"

definition Manager_TryAcquire :: "lock_env \<Rightarrow> 's lockClient \<Rightarrow> ('s \<Rightarrow> int) \<Rightarrow> ('s \<Rightarrow> 's \<times> gerror option) \<Rightarrow> string \<Rightarrow> lockManager
     \<Rightarrow> string \<Rightarrow> int \<Rightarrow> lockOptions option \<Rightarrow> 's \<Rightarrow> ('s \<times> lockManager \<times> (gerror + nat)) option" where
  "Manager_TryAcquire E C now pause ident m key timeout opts s =
     (case Lock_TryAcquire E C now pause (NewLock ident key opts) timeout s of
        None \<Rightarrow> None
      | Some (s', _, Some err) \<Rightarrow> Some (s', m, Inl err)
      | Some (s', l, None) \<Rightarrow> (case addLock m key l of (m', p) \<Rightarrow> Some (s', m', Inr p)))"

definition Manager_Release :: "lock_env \<Rightarrow> 's lockClient \<Rightarrow> lockManager \<Rightarrow> string \<Rightarrow> 's \<Rightarrow> 's \<times> lockManager \<times> gerror option outcome" where
  "Manager_Release E C m key s =
     (case fmlookup (locks m) key of
        None \<Rightarrow> (s, m, Returned (Some (lk_Wrapf E ''release managed lock'' ErrLockNotHeld)))
      | Some p \<Rightarrow>
         (case Lock_Release E C (heap m ! p) s of
            (s', l, out) \<Rightarrow> (s', m\<lparr>heap := (heap m)[p := l], locks := fmdrop key (locks m)\<rparr>, out)))"

text \<open>The callback of \<open>ReleaseAll\<close>, and the call of \<open>lo.FilterMap\<close>, a parameter, with it.\<close>

definition releaseManaged :: "lock_env \<Rightarrow> 's lockClient \<Rightarrow> string \<Rightarrow> 's \<times> lockManager \<Rightarrow> ('s \<times> lockManager) \<times> gerror option outcome" where
  "releaseManaged E C key sm =
     (case fmlookup (locks (snd sm)) key of
        None \<Rightarrow> (sm, Returned None)
      | Some _ \<Rightarrow> (case Manager_Release E C (snd sm) key (fst sm) of (s1, m1, out) \<Rightarrow> ((s1, m1), out)))"

type_synonym 's lo_filter_map = "string list \<Rightarrow> (string \<Rightarrow> 's \<times> lockManager \<Rightarrow> ('s \<times> lockManager) \<times> gerror option outcome)
     \<Rightarrow> 's \<times> lockManager \<Rightarrow> ('s \<times> lockManager) \<times> gerror list outcome"

definition Manager_ReleaseAll :: "lock_env \<Rightarrow> 's lo_filter_map \<Rightarrow> 's lockClient \<Rightarrow> string list \<Rightarrow> lockManager \<Rightarrow> 's
     \<Rightarrow> 's \<times> lockManager \<times> gerror option outcome" where
  "Manager_ReleaseAll E lo_FilterMap C ks m s =
     (case lo_FilterMap ks (releaseManaged E C) (s, m) of
        ((s', m'), Panicked) \<Rightarrow> (s', m', Panicked)
      | ((s', m'), Returned errs) \<Rightarrow> (s', m', Returned (if errs = [] then None else Some (Joined errs))))"

definition Manager_IsHeld :: "lock_env \<Rightarrow> 's lockClient \<Rightarrow> lockManager \<Rightarrow> string \<Rightarrow> 's \<Rightarrow> 's \<times> (gerror + bool)" where
  "Manager_IsHeld E C m key s =
     (case fmlookup (locks m) key of None \<Rightarrow> (s, Inr False) | Some p \<Rightarrow> Lock_IsHeld E C (heap m ! p) s)"

subsection \<open>Read-write locks and semaphores\<close>

text \<open>The operations of the interface \<open>kvx.KV\<close> that are used.\<close>

record 's kvClient =
  kv_Get :: "'s \<Rightarrow> string \<Rightarrow> 's \<times> (gerror + bytes)"
  kv_Set :: "'s \<Rightarrow> string \<Rightarrow> bytes \<Rightarrow> int \<Rightarrow> 's \<times> gerror option"
  kv_Delete :: "'s \<Rightarrow> string \<Rightarrow> 's \<times> gerror option"
  kv_Exists :: "'s \<Rightarrow> string \<Rightarrow> 's \<times> (gerror + bool)"

record 's rwlock =
  rw_client :: "'s kvClient option"
  readKey :: string
  writeKey :: string
  rw_identifier :: string

definition NewRWLock :: "string \<Rightarrow> 's kvClient option \<Rightarrow> string \<Rightarrow> 's rwlock" where
  "NewRWLock ident client key =
     \<lparr>rw_client = client, readKey = key @ '':read'', writeKey = key @ '':write'', rw_identifier = ident\<rparr>"

definition RWLock_readerKey :: "'s rwlock \<Rightarrow> string" where
  "RWLock_readerKey rw = readKey rw @ '':'' @ rw_identifier rw"

definition wrapErr :: "lock_env \<Rightarrow> string \<Rightarrow> gerror option \<Rightarrow> gerror option" where
  "wrapErr E msg err = map_option (lk_Wrapf E msg) err"

definition RWLock_RLock :: "lock_env \<Rightarrow> 's rwlock option \<Rightarrow> int \<Rightarrow> 's \<Rightarrow> 's \<times> gerror option" where
  "RWLock_RLock E rw0 ttl s =
     (case rw0 of
        None \<Rightarrow> (s, Some (lk_New E ''rwlock is nil''))
      | Some rw \<Rightarrow>
         (case rw_client rw of
            None \<Rightarrow> (s, Some (lk_New E ''lock client is nil''))
          | Some C \<Rightarrow>
             (case kv_Exists C s (writeKey rw) of
                (s1, Inl err) \<Rightarrow> (s1, Some (lk_Wrapf E ''check write lock'' err))
              | (s1, Inr exists) \<Rightarrow>
                  if exists then (s1, Some (lk_Wrapf E ''acquire read lock'' ErrLockNotAcquired))
                  else (case kv_Set C s1 (RWLock_readerKey rw) ''1'' ttl of (s2, err) \<Rightarrow> (s2, wrapErr E ''store read lock'' err)))))"

definition RWLock_RUnlock :: "lock_env \<Rightarrow> 's rwlock option \<Rightarrow> 's \<Rightarrow> 's \<times> gerror option" where
  "RWLock_RUnlock E rw0 s =
     (case rw0 of
        None \<Rightarrow> (s, Some (lk_New E ''rwlock is nil''))
      | Some rw \<Rightarrow>
         (case rw_client rw of
            None \<Rightarrow> (s, Some (lk_New E ''lock client is nil''))
          | Some C \<Rightarrow> (case kv_Delete C s (RWLock_readerKey rw) of (s1, err) \<Rightarrow> (s1, wrapErr E ''delete read lock'' err))))"

definition RWLock_Lock :: "lock_env \<Rightarrow> 's rwlock option \<Rightarrow> int \<Rightarrow> 's \<Rightarrow> 's \<times> gerror option" where
  "RWLock_Lock E rw0 ttl s =
     (case rw0 of
        None \<Rightarrow> (s, Some (lk_New E ''rwlock is nil''))
      | Some rw \<Rightarrow>
         (case rw_client rw of
            None \<Rightarrow> (s, Some (lk_New E ''lock client is nil''))
          | Some C \<Rightarrow> (case kv_Set C s (writeKey rw) (rw_identifier rw) ttl of (s1, err) \<Rightarrow> (s1, wrapErr E ''store write lock'' err))))"

definition RWLock_Unlock :: "lock_env \<Rightarrow> 's rwlock option \<Rightarrow> 's \<Rightarrow> 's \<times> gerror option" where
  "RWLock_Unlock E rw0 s =
     (case rw0 of
        None \<Rightarrow> (s, Some (lk_New E ''rwlock is nil''))
      | Some rw \<Rightarrow>
         (case rw_client rw of
            None \<Rightarrow> (s, Some (lk_New E ''lock client is nil''))
          | Some C \<Rightarrow> (case kv_Delete C s (writeKey rw) of (s1, err) \<Rightarrow> (s1, wrapErr E ''delete write lock'' err))))"

record 's dsemaphore =
  sem_client :: "'s kvClient option"
  sem_key :: string
  limit :: int

definition NewSemaphore :: "'s kvClient option \<Rightarrow> string \<Rightarrow> int \<Rightarrow> 's dsemaphore" where
  "NewSemaphore client key n = \<lparr>sem_client = client, sem_key = key, limit = n\<rparr>"

text \<open>\<open>atoiErr\<close> is the error of \<open>strconv.Atoi\<close>.\<close>

definition atoiErr :: "string \<Rightarrow> gerror" where "atoiErr s = Sentinel (''strconv.Atoi: parsing '' @ s)"

definition Semaphore_loadCount :: "lock_env \<Rightarrow> 's kvClient \<Rightarrow> string \<Rightarrow> bool \<Rightarrow> 's \<Rightarrow> 's \<times> (gerror + int)" where
  "Semaphore_loadCount E C key allowMissing s =
     (case kv_Get C s key of
        (s1, Inl err) \<Rightarrow>
          if allowMissing \<and> errors_Is err ErrNil then (s1, Inr 0)
          else (s1, Inl (lk_Wrapf E ''load semaphore count'' err))
      | (s1, Inr data) \<Rightarrow>
          if data = [] then (s1, Inr 0)
          else (case Atoi data of
                  None \<Rightarrow> (s1, Inl (lk_Wrapf E ''parse semaphore count'' (atoiErr data)))
                | Some cnt \<Rightarrow> (s1, Inr cnt)))"

definition Semaphore_storeCount :: "lock_env \<Rightarrow> 's kvClient \<Rightarrow> string \<Rightarrow> int \<Rightarrow> int \<Rightarrow> 's \<Rightarrow> 's \<times> gerror option" where
  "Semaphore_storeCount E C key cnt ttl s =
     (case kv_Set C s key (ItoaInt cnt) ttl of (s1, err) \<Rightarrow> (s1, wrapErr E ''store semaphore count'' err))"

definition Semaphore_Acquire :: "lock_env \<Rightarrow> 's dsemaphore option \<Rightarrow> int \<Rightarrow> 's \<Rightarrow> 's \<times> gerror option" where
  "Semaphore_Acquire E sem0 ttl s =
     (case sem0 of
        None \<Rightarrow> (s, Some (lk_New E ''semaphore is nil''))
      | Some sem \<Rightarrow>
         (case sem_client sem of
            None \<Rightarrow> (s, Some (lk_New E ''lock client is nil''))
          | Some C \<Rightarrow>
             (case Semaphore_loadCount E C (sem_key sem) True s of
                (s1, Inl err) \<Rightarrow> (s1, Some err)
              | (s1, Inr cnt) \<Rightarrow>
                  if limit sem \<le> cnt then (s1, Some (lk_Wrapf E ''acquire semaphore'' ErrLockNotAcquired))
                  else Semaphore_storeCount E C (sem_key sem) (cnt + 1) ttl s1)))"

definition Semaphore_Release :: "lock_env \<Rightarrow> 's dsemaphore option \<Rightarrow> 's \<Rightarrow> 's \<times> gerror option" where
  "Semaphore_Release E sem0 s =
     (case sem0 of
        None \<Rightarrow> (s, Some (lk_New E ''semaphore is nil''))
      | Some sem \<Rightarrow>
         (case sem_client sem of
            None \<Rightarrow> (s, Some (lk_New E ''lock client is nil''))
          | Some C \<Rightarrow>
             (case Semaphore_loadCount E C (sem_key sem) False s of
                (s1, Inl err) \<Rightarrow> (s1, Some err)
              | (s1, Inr cnt) \<Rightarrow> Semaphore_storeCount E C (sem_key sem) (if cnt > 0 then cnt - 1 else cnt) 0 s1)))"

end
