(* ===== verification/Kv_Exclusion.thy ===== *)
theory Kv_Exclusion
  imports Kv_Lock
begin

text \<open>
  What the distributed locks of \<open>Kv_Lock\<close> promise, from what the server documents. \<open>holder s k\<close> is the token
  stored under a key. A call that fails may or may not have had its effect. Leases end when the server
  says so, at any time. Shown: locks exclude each other while their leases last, also through the Redis
  adapter; a function run under a lock runs while it is held and gives it back; waiting for a lock ends;
  semaphores count when their calls do not overlap, and admit too many when they do, as writers do.
\<close>

subsection \<open>Contracts\<close>

text \<open>A delete of the own key that may or may not have happened, because its answer was lost.\<close>

definition maybe_deleted :: "(string \<Rightarrow> string option) \<Rightarrow> string \<Rightarrow> string \<Rightarrow> (string \<Rightarrow> string option) \<Rightarrow> bool" where
  "maybe_deleted h k tok h' \<longleftrightarrow> h' = h \<or> h k = Some tok \<and> h' = h(k := None)"

locale lock_client =
  fixes C :: "'s lockClient" and holder :: "'s \<Rightarrow> string \<Rightarrow> string option"
  assumes acquired: "cl_Acquire C s k tok ttl = (s', Inr True) \<Longrightarrow> holder s k = None \<and> holder s' = (holder s)(k \<mapsto> tok)"
    and refused: "cl_Acquire C s k tok ttl = (s', Inr False) \<Longrightarrow> holder s k \<noteq> None \<and> holder s' = holder s"
    and acquire_err: "cl_Acquire C s k tok ttl = (s', Inl e) \<Longrightarrow>
          holder s' = holder s \<or> holder s k = None \<and> holder s' = (holder s)(k \<mapsto> tok)"
    and released: "cl_Release C s k tok = (s', Inr b) \<Longrightarrow>
          (b \<longleftrightarrow> holder s k = Some tok) \<and> holder s' = (if b then (holder s)(k := None) else holder s)"
    and release_err: "cl_Release C s k tok = (s', Inl e) \<Longrightarrow> maybe_deleted (holder s) k tok (holder s')"
    and extended: "cl_Extend C s k tok ttl = (s', Inr b) \<Longrightarrow>
          (b \<longleftrightarrow> holder s k = Some tok) \<and> holder s' = (if b \<and> Milliseconds ttl \<le> 0 then (holder s)(k := None) else holder s)"
    and extend_err: "cl_Extend C s k tok ttl = (s', Inl e) \<Longrightarrow>
          holder s' = holder s \<or> Milliseconds ttl \<le> 0 \<and> maybe_deleted (holder s) k tok (holder s')"
begin

lemma Lock_Acquire_holder:
  assumes "Lock_Acquire E C l s = (s', l', err)"
  shows "err = None \<Longrightarrow> holder s (lock_key l) = None \<and> holder s' = (holder s)(lock_key l \<mapsto> lock_identifier l)"
    and "holder s' = holder s \<or> holder s (lock_key l) = None \<and> holder s' = (holder s)(lock_key l \<mapsto> lock_identifier l)"
    and "lock_key l' = lock_key l \<and> lock_identifier l' = lock_identifier l \<and> stopped l' = stopped l"
proof -
  obtain s1 r where c: "cl_Acquire C s (lock_key l) (lock_identifier l) (lock_ttl l) = (s1, r)" by (metis surj_pair)
  consider e where "r = Inl e" | "r = Inr True" | "r = Inr False" by (cases r) auto
  then have "(err = None \<longrightarrow> holder s (lock_key l) = None \<and> holder s' = (holder s)(lock_key l \<mapsto> lock_identifier l))
    \<and> (holder s' = holder s \<or> holder s (lock_key l) = None \<and> holder s' = (holder s)(lock_key l \<mapsto> lock_identifier l))
    \<and> (lock_key l' = lock_key l \<and> lock_identifier l' = lock_identifier l \<and> stopped l' = stopped l)"
    by cases (use assms c acquired acquire_err refused in \<open>auto simp: Lock_Acquire_def startAutoExtend_def split: if_splits\<close>)
  then show "err = None \<Longrightarrow> holder s (lock_key l) = None \<and> holder s' = (holder s)(lock_key l \<mapsto> lock_identifier l)"
    and "holder s' = holder s \<or> holder s (lock_key l) = None \<and> holder s' = (holder s)(lock_key l \<mapsto> lock_identifier l)"
    and "lock_key l' = lock_key l \<and> lock_identifier l' = lock_identifier l \<and> stopped l' = stopped l" by blast+
qed

lemma Lock_Release_holder:
  assumes "Lock_Release E C l s = (s', l', out)"
  shows "if out = Panicked then holder s' = holder s
    else maybe_deleted (holder s) (lock_key l) (lock_identifier l) (holder s')"
proof (cases "stopAutoExtend l")
  case (Returned l1)
  then have same: "lock_key l1 = lock_key l" "lock_identifier l1 = lock_identifier l"
    by (auto simp: stopAutoExtend_def split: if_splits)
  obtain s1 r where c: "cl_Release C s (lock_key l) (lock_identifier l) = (s1, r)" by (metis surj_pair)
  then show ?thesis
    using assms Returned same released [of s "lock_key l" "lock_identifier l"] release_err [of s "lock_key l" "lock_identifier l"]
    by (cases r) (auto simp: Lock_Release_def maybe_deleted_def)
qed (use assms in \<open>simp add: Lock_Release_def\<close>)

end

text \<open>What Redis documents: \<open>SET NX\<close> stores only a key that is missing and answers nil otherwise; \<open>DEL\<close> and
  \<open>PEXPIRE\<close> answer 1 for a key that is there and 0 otherwise; \<open>PEXPIRE\<close> with a time that is not positive deletes
  the key; a command that fails has no effect; a script runs atomically. When the answer of a script is
  an error, the script was not run, or it was and failed or its answer was lost.\<close>

locale redis_server =
  fixes E :: lock_env and R :: "'s redis" and held_by :: "'s \<Rightarrow> string \<Rightarrow> string option"
  assumes set_ok: "setNX R s k tok ttl = (s', Inr u) \<Longrightarrow> held_by s k = None \<and> held_by s' = (held_by s)(k \<mapsto> tok)"
    and set_nil: "setNX R s k tok ttl = (s', Inl e) \<Longrightarrow> errors_Is e RedisNil \<Longrightarrow> held_by s k \<noteq> None \<and> held_by s' = held_by s"
    and set_err: "setNX R s k tok ttl = (s', Inl e) \<Longrightarrow>
          held_by s' = held_by s \<or> held_by s k = None \<and> held_by s' = (held_by s)(k \<mapsto> tok)"
    and get_ok: "cmd_GET R s k = (s', r) \<Longrightarrow> held_by s' = held_by s \<and> (\<forall>v. r = Inr v \<longrightarrow> v = held_by s k)"
    and del_ok: "cmd_DEL R s k = (s', Inr n) \<Longrightarrow> n = (if held_by s k = None then 0 else 1) \<and> held_by s' = (held_by s)(k := None)"
    and del_err: "cmd_DEL R s k = (s', Inl e) \<Longrightarrow> held_by s' = held_by s"
    and expire_ok: "cmd_PEXPIRE R s k ms = (s', Inr n) \<Longrightarrow>
          n = (if held_by s k = None then 0 else 1) \<and> held_by s' = (if 0 < ms then held_by s else (held_by s)(k := None))"
    and expire_err: "cmd_PEXPIRE R s k ms = (s', Inl e) \<Longrightarrow> held_by s' = held_by s"
    and eval_ok: "run_EVAL R script s = (s', Inr n) \<Longrightarrow> \<exists>s1. script s = (s1, Inr n) \<and> held_by s' = held_by s1"
    and eval_err: "run_EVAL R script s = (s', Inl e) \<Longrightarrow>
          held_by s' = held_by s \<or> (\<exists>s1 r. script s = (s1, r) \<and> held_by s' = held_by s1)"
begin

text \<open>The scripts compare before they act: only the own key is deleted or expires.\<close>

lemma release_script:
  assumes "releaseLockScript R k tok s = (s', r)"
  shows "case r of Inr n \<Rightarrow> n = (if held_by s k = Some tok then 1 else 0)
        \<and> held_by s' = (if held_by s k = Some tok then (held_by s)(k := None) else held_by s)
    | Inl _ \<Rightarrow> held_by s' = held_by s"
proof -
  obtain s1 v where get: "cmd_GET R s k = (s1, v)" by (metis surj_pair)
  obtain s2 d where del: "cmd_DEL R s1 k = (s2, d)" by (metis surj_pair)
  have "held_by s1 = held_by s" "v = Inr w \<Longrightarrow> w = held_by s k" for w using get_ok [OF get] by blast+
  moreover have "d = Inr n \<Longrightarrow> n = (if held_by s1 k = None then 0 else 1) \<and> held_by s2 = (held_by s1)(k := None)" for n
    using del_ok del by blast
  moreover have "d = Inl e \<Longrightarrow> held_by s2 = held_by s1" for e using del_err del by blast
  ultimately show ?thesis
    using assms get del by (cases v; cases d) (auto simp: releaseLockScript_def split: if_splits)
qed

lemma extend_script:
  assumes "extendLockScript R k tok ms s = (s', r)"
  shows "case r of Inr n \<Rightarrow> n = (if held_by s k = Some tok then 1 else 0)
        \<and> held_by s' = (if held_by s k = Some tok \<and> ms \<le> 0 then (held_by s)(k := None) else held_by s)
    | Inl _ \<Rightarrow> held_by s' = held_by s"
proof -
  obtain s1 v where get: "cmd_GET R s k = (s1, v)" by (metis surj_pair)
  obtain s2 d where ex: "cmd_PEXPIRE R s1 k ms = (s2, d)" by (metis surj_pair)
  have "held_by s1 = held_by s" "v = Inr w \<Longrightarrow> w = held_by s k" for w using get_ok [OF get] by blast+
  moreover have "d = Inr n \<Longrightarrow> n = (if held_by s1 k = None then 0 else 1)
      \<and> held_by s2 = (if 0 < ms then held_by s1 else (held_by s1)(k := None))" for n
    using expire_ok ex by blast
  moreover have "d = Inl e \<Longrightarrow> held_by s2 = held_by s1" for e using expire_err ex by blast
  ultimately show ?thesis
    using assms get ex by (cases v; cases d) (auto simp: extendLockScript_def split: if_splits)
qed

lemma eval_release:
  assumes "run_EVAL R (releaseLockScript R k tok) s = (s', r)"
  shows "case r of Inr n \<Rightarrow> n = (if held_by s k = Some tok then 1 else 0)
        \<and> held_by s' = (if held_by s k = Some tok then (held_by s)(k := None) else held_by s)
    | Inl _ \<Rightarrow> maybe_deleted (held_by s) k tok (held_by s')"
proof (cases r)
  case (Inr n)
  with eval_ok assms obtain s1 where s1: "releaseLockScript R k tok s = (s1, Inr n)" "held_by s' = held_by s1" by blast
  from release_script [OF s1(1)] s1(2) Inr show ?thesis by simp
next
  case (Inl e)
  then consider "held_by s' = held_by s" | s1 r1 where "releaseLockScript R k tok s = (s1, r1)" "held_by s' = held_by s1"
    using eval_err assms by blast
  then show ?thesis
  proof cases
    case (2 s1 r1)
    then show ?thesis using release_script [OF 2(1)] Inl by (cases r1) (auto simp: maybe_deleted_def)
  qed (use Inl in \<open>simp add: maybe_deleted_def\<close>)
qed

lemma eval_extend:
  assumes "run_EVAL R (extendLockScript R k tok ms) s = (s', r)"
  shows "case r of Inr n \<Rightarrow> n = (if held_by s k = Some tok then 1 else 0)
        \<and> held_by s' = (if held_by s k = Some tok \<and> ms \<le> 0 then (held_by s)(k := None) else held_by s)
    | Inl _ \<Rightarrow> held_by s' = held_by s \<or> ms \<le> 0 \<and> maybe_deleted (held_by s) k tok (held_by s')"
proof (cases r)
  case (Inr n)
  with eval_ok assms obtain s1 where s1: "extendLockScript R k tok ms s = (s1, Inr n)" "held_by s' = held_by s1" by blast
  from extend_script [OF s1(1)] s1(2) Inr show ?thesis by simp
next
  case (Inl e)
  then consider "held_by s' = held_by s" | s1 r1 where "extendLockScript R k tok ms s = (s1, r1)" "held_by s' = held_by s1"
    using eval_err assms by blast
  then show ?thesis
  proof cases
    case (2 s1 r1)
    then show ?thesis using extend_script [OF 2(1)] Inl by (cases r1) (auto simp: maybe_deleted_def)
  qed (use Inl in \<open>simp add: maybe_deleted_def\<close>)
qed

end

sublocale redis_server \<subseteq> lock_client "redisClient E R" held_by
proof unfold_locales
  fix s k tok ttl s' e b
  show "cl_Acquire (redisClient E R) s k tok ttl = (s', Inr True) \<Longrightarrow> held_by s k = None \<and> held_by s' = (held_by s)(k \<mapsto> tok)"
    by (auto simp: redisClient_def Adapter_Acquire_def dest: set_ok split: prod.splits sum.splits if_splits)
  show "cl_Acquire (redisClient E R) s k tok ttl = (s', Inr False) \<Longrightarrow> held_by s k \<noteq> None \<and> held_by s' = held_by s"
    by (auto simp: redisClient_def Adapter_Acquire_def dest: set_nil split: prod.splits sum.splits if_splits)
  show "cl_Acquire (redisClient E R) s k tok ttl = (s', Inl e) \<Longrightarrow>
      held_by s' = held_by s \<or> held_by s k = None \<and> held_by s' = (held_by s)(k \<mapsto> tok)"
    using set_err by (auto simp: redisClient_def Adapter_Acquire_def split: prod.splits sum.splits if_splits)
  obtain s1 r1 where rel: "run_EVAL R (releaseLockScript R k tok) s = (s1, r1)" by (metis surj_pair)
  show "cl_Release (redisClient E R) s k tok = (s', Inr b) \<Longrightarrow>
      (b \<longleftrightarrow> held_by s k = Some tok) \<and> held_by s' = (if b then (held_by s)(k := None) else held_by s)"
    using rel eval_release [OF rel] by (cases r1) (auto simp: redisClient_def Adapter_Release_def)
  show "cl_Release (redisClient E R) s k tok = (s', Inl e) \<Longrightarrow> maybe_deleted (held_by s) k tok (held_by s')"
    using rel eval_release [OF rel] by (cases r1) (auto simp: redisClient_def Adapter_Release_def)
  obtain s2 r2 where ext: "run_EVAL R (extendLockScript R k tok (Milliseconds ttl)) s = (s2, r2)" by (metis surj_pair)
  show "cl_Extend (redisClient E R) s k tok ttl = (s', Inr b) \<Longrightarrow>
      (b \<longleftrightarrow> held_by s k = Some tok) \<and> held_by s' = (if b \<and> Milliseconds ttl \<le> 0 then (held_by s)(k := None) else held_by s)"
    using ext eval_extend [OF ext] by (cases r2) (auto simp: redisClient_def Adapter_Extend_def)
  show "cl_Extend (redisClient E R) s k tok ttl = (s', Inl e) \<Longrightarrow>
      held_by s' = held_by s \<or> Milliseconds ttl \<le> 0 \<and> maybe_deleted (held_by s) k tok (held_by s')"
    using ext eval_extend [OF ext] by (cases r2) (auto simp: redisClient_def Adapter_Extend_def)
qed

context redis_server
begin

lemma lock_client_redis: "lock_client (redisClient E R) held_by"
  by (rule lock_client_axioms)

end

text \<open>A server that keeps its keys in memory and never fails.\<close>

definition memRedis :: "(string \<Rightarrow> string option) redis" where
  "memRedis = \<lparr>setNX = \<lambda>m k tok _. if m k = None then (m(k \<mapsto> tok), Inr ()) else (m, Inl RedisNil),
     cmd_GET = \<lambda>m k. (m, Inr (m k)),
     cmd_DEL = \<lambda>m k. (m(k := None), Inr (if m k = None then 0 else 1)),
     cmd_PEXPIRE = \<lambda>m k ms. (if 0 < ms then m else m(k := None), Inr (if m k = None then 0 else 1)),
     run_EVAL = \<lambda>script m. script m\<rparr>"

definition memEnv :: lock_env where
  "memEnv = \<lparr>lk_Wrapf = Wrapped, lk_New = Sentinel\<rparr>"

interpretation mem: redis_server memEnv memRedis id
  by unfold_locales (auto simp: memRedis_def errors_Is_def RedisNil_def split: if_splits)

subsection \<open>Mutual exclusion\<close>

text \<open>Any number of locks on one server, one call a step, with any TTL; \<open>TryAcquire\<close> and the goroutines that
  extend are sequences of such calls. \<open>B\<close> holds the key and the identifier of every lock whose \<open>Acquire\<close>
  returned no error and whose lease was not given up since, by \<open>Release\<close> or by extending it by less than a
  millisecond, and has not run out: when leases run out, the server drops their keys.\<close>

definition kept_by :: "int \<Rightarrow> dlock \<Rightarrow> (string \<times> string) set \<Rightarrow> (string \<times> string) set" where
  "kept_by ttl l B = (if 0 < Milliseconds ttl then B else B - {(lock_key l, lock_identifier l)})"

inductive lock_step :: "lock_env \<Rightarrow> 's lockClient \<Rightarrow> ('s \<Rightarrow> string \<Rightarrow> string option)
    \<Rightarrow> 's \<times> (string \<times> string) set \<Rightarrow> 's \<times> (string \<times> string) set \<Rightarrow> bool" for E C holder where
  step_acquire: "Lock_Acquire E C l s = (s', l', None) \<Longrightarrow>
     lock_step E C holder (s, B) (s', insert (lock_key l, lock_identifier l) B)"
| step_fail: "Lock_Acquire E C l s = (s', l', Some err) \<Longrightarrow> lock_step E C holder (s, B) (s', B)"
| step_release: "Lock_Release E C l s = (s', l', Returned err) \<Longrightarrow>
     lock_step E C holder (s, B) (s', B - {(lock_key l, lock_identifier l)})"
| step_release_panics: "Lock_Release E C l s = (s', l', Panicked) \<Longrightarrow> lock_step E C holder (s, B) (s', B)"
| step_extend: "Lock_Extend E C l ttl s = (s', err) \<Longrightarrow> lock_step E C holder (s, B) (s', kept_by ttl l B)"
| step_held: "Lock_IsHeld E C l s = (s', r) \<Longrightarrow> lock_step E C holder (s, B) (s', kept_by (lock_ttl l) l B)"
| step_tick: "extendTick C l s = (s', l') \<Longrightarrow> lock_step E C holder (s, B) (s', kept_by (lock_ttl l) l B)"
| step_expire: "holder s' = (\<lambda>k. if k \<in> X then None else holder s k) \<Longrightarrow>
     lock_step E C holder (s, B) (s', {(k, i) \<in> B. k \<notin> X})"

context lock_client
begin

lemma extend_lease:
  assumes "cl_Extend C s (lock_key l) (lock_identifier l) ttl = (s', r)" and "\<forall>k i. (k, i) \<in> B \<longrightarrow> holder s k = Some i"
  shows "\<forall>k i. (k, i) \<in> kept_by ttl l B \<longrightarrow> holder s' k = Some i"
proof (cases r)
  case (Inl e)
  then show ?thesis using assms(2) extend_err [OF assms(1) [unfolded Inl]] by (auto simp: kept_by_def maybe_deleted_def)
next
  case (Inr b)
  then show ?thesis using assms(2) extended [OF assms(1) [unfolded Inr]] by (auto simp: kept_by_def)
qed

lemma lock_step_inv:
  assumes "lock_step E C holder (s, B) (s', B')" and "\<forall>k i. (k, i) \<in> B \<longrightarrow> holder s k = Some i"
  shows "\<forall>k i. (k, i) \<in> B' \<longrightarrow> holder s' k = Some i"
  using assms(1)
proof cases
  case (step_acquire l l')
  then show ?thesis using assms(2) Lock_Acquire_holder(1) [OF step_acquire(2)] by fastforce
next
  case (step_fail l l' err)
  then show ?thesis using assms(2) Lock_Acquire_holder(2) [OF step_fail(2)] by fastforce
next
  case (step_release l l' err)
  then show ?thesis using assms(2) Lock_Release_holder [OF step_release(2)] by (auto simp: maybe_deleted_def)
next
  case (step_release_panics l l')
  then show ?thesis using assms(2) Lock_Release_holder [OF step_release_panics(2)] by simp
next
  case (step_extend l ttl err)
  obtain s1 r where "cl_Extend C s (lock_key l) (lock_identifier l) ttl = (s1, r)" by (metis surj_pair)
  then show ?thesis using step_extend extend_lease [OF _ assms(2)] by (auto simp: Lock_Extend_def split: sum.splits)
next
  case (step_held l r)
  obtain s1 r1 where "cl_Extend C s (lock_key l) (lock_identifier l) (lock_ttl l) = (s1, r1)" by (metis surj_pair)
  then show ?thesis using step_held extend_lease [OF _ assms(2)] by (auto simp: Lock_IsHeld_def split: sum.splits)
next
  case (step_tick l l')
  obtain s1 r where "cl_Extend C s (lock_key l) (lock_identifier l) (lock_ttl l) = (s1, r)" by (metis surj_pair)
  then show ?thesis using step_tick extend_lease [OF _ assms(2)] by (auto simp: extendTick_def split: sum.splits)
next
  case (step_expire X)
  then show ?thesis using assms(2) by auto
qed

lemma lock_steps_inv:
  "(lock_step E C holder)\<^sup>*\<^sup>* (s0, {}) (s, B) \<Longrightarrow> \<forall>k i. (k, i) \<in> B \<longrightarrow> holder s k = Some i"
  by (induction "(s, B)" arbitrary: s B rule: rtranclp_induct) (auto dest: lock_step_inv)

end

text \<open>
  C12. Mutual exclusion, through the adapter and its scripts: on a server that does what Redis documents,
  whatever calls of any number of locks run in whatever order, with whatever TTLs, fail, or lose their
  answer or their lease, two locks that hold the same key have the same identifier, and the server has
  it under that key. A lock holds its key from an \<open>Acquire\<close> without error until its \<open>Release\<close>, an extension
  by less than a millisecond (which deletes the key; \<open>IsHeld\<close> extends by the lock's TTL), or the end of its
  lease.
\<close>

theorem lock_mutual_exclusion:
  assumes "redis_server R held_by" and "(lock_step E (redisClient E R) held_by)\<^sup>*\<^sup>* (s0, {}) (s, B)"
    and "(k, i) \<in> B" and "(k, j) \<in> B"
  shows "i = j \<and> held_by s k = Some i"
proof -
  have "lock_client (redisClient E R) held_by" using assms(1) by (rule redis_server.lock_client_redis)
  from lock_client.lock_steps_inv [OF this assms(2)] assms(3,4) show ?thesis by (metis option.inject)
qed

definition demo_lock :: dlock where
  "demo_lock = NewLock ''a1'' ''job'' None"

theorem lock_mutual_exclusion_witness:
  "\<exists>s. (lock_step memEnv (redisClient memEnv memRedis) id)\<^sup>*\<^sup>* (Map.empty, {}) (s, {(''job'', ''a1'')}) \<and> s ''job'' = Some ''a1''"
proof -
  have "Lock_Acquire memEnv (redisClient memEnv memRedis) demo_lock Map.empty = (Map.empty(''job'' \<mapsto> ''a1''), startAutoExtend demo_lock, None)"
    by (simp add: Lock_Acquire_def redisClient_def Adapter_Acquire_def memRedis_def demo_lock_def NewLock_def resolveOptions_def DefaultOptions_def)
  from step_acquire [OF this, of id "{}"]
  have "lock_step memEnv (redisClient memEnv memRedis) id (Map.empty, {}) (Map.empty(''job'' \<mapsto> ''a1''), {(''job'', ''a1'')})"
    by (simp add: demo_lock_def NewLock_def Let_def)
  then have run: "(lock_step memEnv (redisClient memEnv memRedis) id)\<^sup>*\<^sup>* (Map.empty, {}) (Map.empty(''job'' \<mapsto> ''a1''), {(''job'', ''a1'')})"
    by (rule r_into_rtranclp)
  from lock_mutual_exclusion [OF mem.redis_server_axioms run, of "''job''" "''a1''" "''a1''"]
  have "id (Map.empty(''job'' \<mapsto> ''a1'')) ''job'' = Some ''a1''" by simp
  with run show ?thesis by (intro exI [of _ "Map.empty(''job'' \<mapsto> ''a1'')"]) simp
qed

subsection \<open>Running under a lock\<close>

text \<open>The error of \<open>releaseLockOnExit\<close> for an answer of the client.\<close>

fun exitError :: "lock_env \<Rightarrow> gerror + bool \<Rightarrow> gerror option" where
  "exitError E (Inr True) = None"
| "exitError E (Inr False) = Some (lk_Wrapf E ''release lock on exit'' (lk_Wrapf E ''release lock'' ErrLockNotHeld))"
| "exitError E (Inl e) = Some (lk_Wrapf E ''release lock on exit'' (lk_Wrapf E ''release lock'' e))"

lemma releaseLockOnExit_run:
  assumes "\<not> stopped l" and "cl_Release C s (lock_key l) (lock_identifier l) = (s', r)"
  shows "releaseLockOnExit E C l s = (s', Returned (exitError E r))"
  using assms
  by (cases "(E, r)" rule: exitError.cases)
    (simp_all add: releaseLockOnExit_def Lock_Release_def stopAutoExtend_def)

lemma runLocked_run:
  assumes "\<not> stopped l" and "fn s = (s1, out)" and "cl_Release C s1 (lock_key l) (lock_identifier l) = (s', r)"
  shows "runLocked E C l fn s = (s', case out of Panicked \<Rightarrow> Panicked | Returned err \<Rightarrow> Returned (join2 err (exitError E r)))"
  using assms(2) releaseLockOnExit_run [OF assms(1,3), of E] by (cases out) (simp_all add: runLocked_def)

lemma wrapped_self: "lock_env_ok E \<Longrightarrow> errors_Is (lk_Wrapf E m e) e"
  by (rule wrapped_Is) (simp_all add: errors_Is_def chain_self)

lemma joined_exit:
  assumes "lock_env_ok E"
  shows "(join2 err (exitError E r) = None \<longleftrightarrow> err = None \<and> r = Inr True)
    \<and> (\<forall>e. err = Some e \<longrightarrow> errors_Is (the (join2 err (exitError E r))) e)
    \<and> (\<forall>e. r = Inl e \<longrightarrow> errors_Is (the (join2 err (exitError E r))) e)
    \<and> (r = Inr False \<longrightarrow> errors_Is (the (join2 err (exitError E r))) ErrLockNotHeld)"
proof -
  have twice: "e \<in> set (chain (lk_Wrapf E m (lk_Wrapf E m' e)))" for e m m'
    using wrapped_Is [OF assms wrapped_self [OF assms]] by (simp add: errors_Is_def)
  show ?thesis
    by (cases "(E, r)" rule: exitError.cases; cases err) (auto simp: join2_def errors_Is_def chain_self twice)
qed

text \<open>
  C34. \<open>WithLock\<close> runs the function only under the lock and always gives it back. Either the client did not
  grant the lock: the function is not run and the client's error, or \<open>ErrLockNotAcquired\<close>, is reported. Or
  the key was free and the function started with the lock's identifier stored there; when it had
  returned or panicked, the client was asked to release the lock. If that call returned, the key no
  longer holds the identifier and no other key was touched. A panic goes on; otherwise there is no error
  exactly when the function had none and the lock was still held, and the errors of the function and of
  the release (\<open>ErrLockNotHeld\<close> when the lease had ended) are both found in the result.
\<close>

theorem with_lock_runs_held:
  assumes "lock_client C holder" and "lock_env_ok E" and "WithLock E C ident key opts fn s = (s', out)"
  shows "(\<exists>r e. cl_Acquire C s key ident (TTL (resolveOptions opts)) = (s', r) \<and> out = Returned (Some e)
        \<and> (r = Inr False \<and> errors_Is e ErrLockNotAcquired \<or> (\<exists>cause. r = Inl cause \<and> errors_Is e cause)))
    \<or> (\<exists>s1 s2 ran r. cl_Acquire C s key ident (TTL (resolveOptions opts)) = (s1, Inr True)
        \<and> holder s key = None \<and> holder s1 = (holder s)(key \<mapsto> ident)
        \<and> fn s1 = (s2, ran) \<and> cl_Release C s2 key ident = (s', r)
        \<and> (\<forall>b. r = Inr b \<longrightarrow> (b \<longleftrightarrow> holder s2 key = Some ident) \<and> holder s' key \<noteq> Some ident
             \<and> (\<forall>k. k \<noteq> key \<longrightarrow> holder s' k = holder s2 k))
        \<and> (case ran of Panicked \<Rightarrow> out = Panicked
           | Returned err \<Rightarrow> \<exists>res. out = Returned res \<and> (res = None \<longleftrightarrow> err = None \<and> r = Inr True)
               \<and> (\<forall>e. err = Some e \<longrightarrow> errors_Is (the res) e) \<and> (\<forall>e. r = Inl e \<longrightarrow> errors_Is (the res) e)
               \<and> (r = Inr False \<longrightarrow> errors_Is (the res) ErrLockNotHeld)))"
proof -
  let ?l = "NewLock ident key opts" and ?ttl = "TTL (resolveOptions opts)"
  have fields: "lock_key ?l = key" "lock_identifier ?l = ident" "lock_ttl ?l = ?ttl" "\<not> stopped ?l"
    by (simp_all add: NewLock_def Let_def)
  obtain s1 a where acq: "cl_Acquire C s key ident ?ttl = (s1, a)" by (metis surj_pair)
  consider cause where "a = Inl cause" | "a = Inr False" | "a = Inr True" by (cases a) auto
  then show ?thesis
  proof cases
    case 3
    obtain l where l: "Lock_Acquire E C ?l s = (s1, l, None)" "lock_key l = key" "lock_identifier l = ident" "\<not> stopped l"
      using 3 acq fields by (auto simp: Lock_Acquire_def startAutoExtend_def)
    obtain s2 ran where fn: "fn s1 = (s2, ran)" by (metis surj_pair)
    obtain s3 r where rel: "cl_Release C s2 key ident = (s3, r)" by (metis surj_pair)
    have "runLocked E C l fn s1 = (s', out)" using assms(3) l by (simp add: WithLock_def)
    with runLocked_run [of l fn s1 s2 ran C s3 r E] fn rel l have s3: "s' = s3"
      and out: "out = (case ran of Panicked \<Rightarrow> Panicked | Returned err \<Rightarrow> Returned (join2 err (exitError E r)))"
      by simp_all
    have "\<exists>res. out = Returned res \<and> (res = None \<longleftrightarrow> err = None \<and> r = Inr True)
        \<and> (\<forall>e. err = Some e \<longrightarrow> errors_Is (the res) e) \<and> (\<forall>e. r = Inl e \<longrightarrow> errors_Is (the res) e)
        \<and> (r = Inr False \<longrightarrow> errors_Is (the res) ErrLockNotHeld)" if "ran = Returned err" for err
      using that out joined_exit [OF assms(2), of err r] by simp
    moreover have "\<forall>b. r = Inr b \<longrightarrow> (b \<longleftrightarrow> holder s2 key = Some ident) \<and> holder s' key \<noteq> Some ident
        \<and> (\<forall>k. k \<noteq> key \<longrightarrow> holder s' k = holder s2 k)"
      using lock_client.released [OF assms(1)] rel s3 by (auto split: if_splits)
    ultimately show ?thesis
      using lock_client.acquired [OF assms(1)] acq 3 fn rel s3 out by (cases ran) auto
  qed (use assms(2,3) acq fields in \<open>auto simp: WithLock_def Lock_Acquire_def wrapped_self\<close>)
qed

theorem with_lock_runs_held_witness:
  "\<exists>s' e. WithLock memEnv (redisClient memEnv memRedis) ''a1'' ''job'' None (\<lambda>s. (s, Returned (Some ErrNil))) Map.empty
     = (s', Returned (Some e)) \<and> errors_Is e ErrNil \<and> s' ''job'' \<noteq> Some ''a1''"
proof -
  let ?C = "redisClient memEnv memRedis"
  obtain s' out where run: "WithLock memEnv ?C ''a1'' ''job'' None (\<lambda>s. (s, Returned (Some ErrNil))) Map.empty = (s', out)"
    by (metis surj_pair)
  have env: "lock_env_ok memEnv" by (simp add: lock_env_ok_def memEnv_def)
  have acq: "cl_Acquire ?C Map.empty ''job'' ''a1'' ttl = (Map.empty(''job'' \<mapsto> ''a1''), Inr True)" for ttl
    by (simp add: redisClient_def Adapter_Acquire_def memRedis_def)
  from with_lock_runs_held [OF mem.lock_client_axioms env run] acq
  obtain s2 r res where rel: "cl_Release ?C s2 ''job'' ''a1'' = (s', r)" and out: "out = Returned res"
    and err: "res \<noteq> None" "errors_Is (the res) ErrNil" and free: "\<And>b. r = Inr b \<Longrightarrow> s' ''job'' \<noteq> Some ''a1''"
    by (auto split: outcome.splits)
  have "\<exists>b. snd (cl_Release ?C s2 ''job'' ''a1'') = Inr b"
    by (auto simp: redisClient_def Adapter_Release_def releaseLockScript_def memRedis_def)
  with rel obtain b where "r = Inr b" by auto
  with run out err free show ?thesis by auto
qed

subsection \<open>Waiting for a lock\<close>

lemma tryAcquireLoop_returns:
  assumes C: "lock_client C holder" and pause: "\<And>s. now s + 1 \<le> now (fst (pause s))"
    and calls: "\<And>s k tok ttl. now s \<le> now (fst (cl_Acquire C s k tok ttl))"
  shows "\<exists>s' l' err. tryAcquireLoop E C now pause deadline l s = Some (s', l', err)
    \<and> (err = None \<longrightarrow> holder s' (lock_key l) = Some (lock_identifier l))"
proof (induction "nat (deadline + 1 - now s)" arbitrary: l s rule: less_induct)
  case less
  obtain s1 l1 err where acq: "Lock_Acquire E C l s = (s1, l1, err)" by (metis prod_cases3)
  note h = lock_client.Lock_Acquire_holder [OF C acq]
  have now1: "now s \<le> now s1"
    using acq calls [of s "lock_key l" "lock_identifier l" "lock_ttl l"]
    by (cases "cl_Acquire C s (lock_key l) (lock_identifier l) (lock_ttl l)") (auto simp: Lock_Acquire_def split: sum.splits if_splits)
  show ?case
  proof (cases "deadline < now s \<or> err = None \<or> \<not> errors_Is (the err) ErrLockNotAcquired \<or> snd (pause s1) \<noteq> None")
    case True
    then show ?thesis
      using acq h(1) by (subst tryAcquireLoop.simps) (auto simp: Let_def split: option.splits)
  next
    case False
    obtain s2 where p: "pause s1 = (s2, None)" using False by (cases "pause s1") auto
    have "nat (deadline + 1 - now s2) < nat (deadline + 1 - now s)" using False p pause [of s1] now1 by simp
    from less.hyps [OF this, of l1] show ?thesis
      using False acq p h(3) by (subst tryAcquireLoop.simps) (auto simp: Let_def split: option.splits)
  qed
qed

text \<open>
  C35. \<open>TryAcquire\<close> returns, whatever the server answers and however long the key stays taken, as long as
  time passes while it waits; and when it returns no error the lock is held.
\<close>

theorem try_acquire_returns:
  assumes "lock_client C holder" and "\<forall>s. now s + 1 \<le> now (fst (pause s))"
    and "\<forall>s k tok ttl. now s \<le> now (fst (cl_Acquire C s k tok ttl))"
  shows "\<exists>s' l' err. Lock_TryAcquire E C now pause l timeout s = Some (s', l', err)
    \<and> (err = None \<longrightarrow> holder s' (lock_key l) = Some (lock_identifier l))"
  unfolding Lock_TryAcquire_def by (rule tryAcquireLoop_returns [OF assms(1)]) (use assms(2,3) in auto)

text \<open>The server in memory with a clock beside it.\<close>

definition clockRedis :: "((string \<Rightarrow> string option) \<times> int) redis" where
  "clockRedis = \<lparr>setNX = \<lambda>(m, t) k tok ttl. case setNX memRedis m k tok ttl of (m', r) \<Rightarrow> ((m', t), r),
     cmd_GET = \<lambda>(m, t) k. case cmd_GET memRedis m k of (m', r) \<Rightarrow> ((m', t), r),
     cmd_DEL = \<lambda>(m, t) k. case cmd_DEL memRedis m k of (m', r) \<Rightarrow> ((m', t), r),
     cmd_PEXPIRE = \<lambda>(m, t) k ms. case cmd_PEXPIRE memRedis m k ms of (m', r) \<Rightarrow> ((m', t), r),
     run_EVAL = \<lambda>script s. script s\<rparr>"

interpretation clocked: redis_server memEnv clockRedis fst
  by unfold_locales (auto simp: clockRedis_def memRedis_def errors_Is_def RedisNil_def split: if_splits)

theorem try_acquire_returns_witness:
  "\<exists>s' l' err. Lock_TryAcquire memEnv (redisClient memEnv clockRedis) snd (\<lambda>(m, t). ((m, t + 100), None)) demo_lock 250
      (Map.empty(''job'' \<mapsto> ''b2''), 0) = Some (s', l', err)"
proof -
  have "\<forall>s k tok ttl. snd s \<le> snd (fst (cl_Acquire (redisClient memEnv clockRedis) s k tok ttl))"
    by (auto simp: redisClient_def Adapter_Acquire_def clockRedis_def memRedis_def split: prod.splits sum.splits if_splits)
  from try_acquire_returns [OF clocked.lock_client_axioms _ this, of "\<lambda>(m, t). ((m, t + 100), None)" memEnv demo_lock 250 "(Map.empty(''job'' \<mapsto> ''b2''), 0)"]
  show ?thesis by auto
qed

subsection \<open>Semaphores\<close>

text \<open>What is relied on of a key-value server: a missing key is \<open>ErrNil\<close>, what was set is read back. Calls
  that fail and keys that expire are not considered here.\<close>

definition kv_ok :: "'s kvClient \<Rightarrow> ('s \<Rightarrow> string \<Rightarrow> bytes option) \<Rightarrow> bool" where
  "kv_ok K val \<longleftrightarrow>
     (\<forall>s k. val (fst (kv_Get K s k)) = val s \<and> (case val s k of Some d \<Rightarrow> snd (kv_Get K s k) = Inr d
        | None \<Rightarrow> (\<exists>e. snd (kv_Get K s k) = Inl e \<and> errors_Is e ErrNil))) \<and>
     (\<forall>s k v ttl. val (fst (kv_Set K s k v ttl)) = (val s)(k \<mapsto> v) \<and> snd (kv_Set K s k v ttl) = None) \<and>
     (\<forall>s k. val (fst (kv_Delete K s k)) = (val s)(k := None) \<and> snd (kv_Delete K s k) = None) \<and>
     (\<forall>s k. val (fst (kv_Exists K s k)) = val s \<and> snd (kv_Exists K s k) = Inr (val s k \<noteq> None))"

text \<open>One call: \<open>Some ttl\<close> acquires, \<open>None\<close> releases; the answer is whether there was no error.\<close>

fun sem_call :: "lock_env \<Rightarrow> 's dsemaphore \<Rightarrow> int option \<Rightarrow> 's \<Rightarrow> 's \<times> bool" where
  "sem_call E sem (Some ttl) s = (case Semaphore_Acquire E (Some sem) ttl s of (s', err) \<Rightarrow> (s', err = None))"
| "sem_call E sem None s = (case Semaphore_Release E (Some sem) s of (s', err) \<Rightarrow> (s', err = None))"

primrec sem_spec :: "int \<Rightarrow> int option \<Rightarrow> int option \<Rightarrow> int option \<times> bool" where
  "sem_spec n (Some ttl) c = (let k = (case c of None \<Rightarrow> 0 | Some k \<Rightarrow> k) in if n \<le> k then (c, False) else (Some (k + 1), True))"
| "sem_spec n None c = (case c of None \<Rightarrow> (None, False) | Some k \<Rightarrow> (Some (if k > 0 then k - 1 else k), True))"

fun runs :: "('op \<Rightarrow> 's \<Rightarrow> 's \<times> 'r) \<Rightarrow> 'op list \<Rightarrow> 's \<Rightarrow> 's \<times> 'r list" where
  "runs f [] s = (s, [])"
| "runs f (x # xs) s = (case f x s of (s1, r) \<Rightarrow> (case runs f xs s1 of (s2, rs) \<Rightarrow> (s2, r # rs)))"

definition sem_rel :: "int \<Rightarrow> bytes option \<Rightarrow> int option \<Rightarrow> bool" where
  "sem_rel n v c \<longleftrightarrow> v = map_option ItoaInt c \<and> (\<forall>k. c = Some k \<longrightarrow> 0 \<le> k \<and> k \<le> max 0 n)"

lemma ItoaInt_not_Nil [simp]: "ItoaInt n \<noteq> []"
  by (simp add: ItoaInt_def)

lemma kv_ok_Get:
  assumes "kv_ok K val"
  shows "val (fst (kv_Get K s k)) = val s \<and> (case val s k of Some d \<Rightarrow> snd (kv_Get K s k) = Inr d
    | None \<Rightarrow> (\<exists>e. snd (kv_Get K s k) = Inl e \<and> errors_Is e ErrNil))"
  using assms unfolding kv_ok_def by (elim conjE allE) (intro conjI)

lemma loadCount_spec:
  assumes K: "kv_ok K val" and rel: "sem_rel n (val s key) c" and n: "n < 2 ^ 63"
    and load: "Semaphore_loadCount E K key am s = (s1, r)"
  shows "val s1 = val s \<and> (case c of Some k \<Rightarrow> r = Inr k | None \<Rightarrow> if am then r = Inr 0 else (\<exists>e. r = Inl e))"
proof -
  obtain s2 g where get: "kv_Get K s key = (s2, g)" by (metis surj_pair)
  have g: "val s2 = val s" "case val s key of Some d \<Rightarrow> g = Inr d | None \<Rightarrow> (\<exists>e. g = Inl e \<and> errors_Is e ErrNil)"
    using kv_ok_Get [OF K, of s key] unfolding get fst_conv snd_conv by blast+
  show ?thesis
  proof (cases c)
    case None
    then show ?thesis using g get load rel by (auto simp: Semaphore_loadCount_def sem_rel_def split: if_splits)
  next
    case (Some k)
    then have v: "val s key = Some (ItoaInt k)" "0 \<le> k" "k < 2 ^ 63" using rel n by (auto simp: sem_rel_def)
    then show ?thesis using Some g get load Atoi_ItoaInt [of k] by (auto simp: Semaphore_loadCount_def)
  qed
qed

lemma storeCount_spec:
  assumes "kv_ok K val" and "Semaphore_storeCount E K key k ttl s = (s1, err)"
  shows "err = None \<and> val s1 = (val s)(key \<mapsto> ItoaInt k)"
proof -
  obtain s2 e where st: "kv_Set K s key (ItoaInt k) ttl = (s2, e)" by (metis surj_pair)
  have "e = None" "val s2 = (val s)(key \<mapsto> ItoaInt k)"
    using assms(1) st unfolding kv_ok_def by (metis snd_conv, metis fst_conv)
  then show ?thesis using assms(2) st by (auto simp: Semaphore_storeCount_def wrapErr_def)
qed

lemma sem_call_spec:
  assumes K: "kv_ok K val" and rel: "sem_rel (limit sem) (val s (sem_key sem)) c" and n: "limit sem < 2 ^ 63"
    and cl: "sem_client sem = Some K" and call: "sem_call E sem op s = (s', ok)"
  shows "ok = snd (sem_spec (limit sem) op c) \<and> sem_rel (limit sem) (val s' (sem_key sem)) (fst (sem_spec (limit sem) op c))"
proof -
  obtain s1 r where load: "Semaphore_loadCount E K (sem_key sem) (op \<noteq> None) s = (s1, r)" by (metis surj_pair)
  note l = loadCount_spec [OF K rel n load]
  show ?thesis
  proof (cases op)
    case None
    then show ?thesis
      using call load l rel cl
      by (cases c) (auto simp: Semaphore_Release_def sem_rel_def split: prod.splits if_splits dest!: storeCount_spec [OF K])
  next
    case (Some ttl)
    then show ?thesis
      using call load l rel cl
      by (cases c) (auto simp: Semaphore_Acquire_def sem_rel_def Let_def split: prod.splits if_splits dest!: storeCount_spec [OF K])
  qed
qed

text \<open>
  A semaphore whose calls do not overlap counts: over any sequence of acquires and releases it
  grants and refuses as a counter bounded by the limit would, and the server holds that counter, within
  0 and the limit, in decimal.
\<close>

theorem semaphore_counts:
  assumes "kv_ok K val" and "sem = NewSemaphore (Some K) key n" and "n < 2 ^ 63" and "val s key = None"
    and "runs (sem_call E sem) ops s = (s', answers)" and "runs (sem_spec n) ops None = (c, answers')"
  shows "answers = answers' \<and> val s' key = map_option ItoaInt c \<and> (\<forall>k. c = Some k \<longrightarrow> 0 \<le> k \<and> k \<le> max 0 n)"
proof -
  have sem: "sem_client sem = Some K" "sem_key sem = key" "limit sem = n" using assms(2) by (simp_all add: NewSemaphore_def)
  have "answers = answers' \<and> sem_rel n (val s' key) c"
    if "sem_rel n (val s key) c0" "runs (sem_call E sem) ops s = (s', answers)" "runs (sem_spec n) ops c0 = (c, answers')"
    for s c0 answers answers' s' c
    using that
  proof (induction ops arbitrary: s c0 answers answers' s' c)
    case (Cons op ops)
    obtain s1 r where one: "sem_call E sem op s = (s1, r)" by (metis surj_pair)
    obtain c1 r' where spec: "sem_spec n op c0 = (c1, r')" by (metis surj_pair)
    obtain s2 rs where rest: "runs (sem_call E sem) ops s1 = (s2, rs)" by (metis surj_pair)
    obtain c2 rs' where rest': "runs (sem_spec n) ops c1 = (c2, rs')" by (metis surj_pair)
    have "r = r' \<and> sem_rel n (val s1 key) c1"
      using sem_call_spec [OF assms(1), of sem s c0 E op s1 r] Cons.prems(1) one spec sem assms(3) by simp
    with Cons.IH [OF _ rest rest'] show ?case using Cons.prems(2,3) one spec rest rest' by auto
  qed simp
  from this [OF _ assms(5,6)] assms(4) show ?thesis by (simp add: sem_rel_def)
qed

definition memKV :: "(string \<Rightarrow> bytes option) kvClient" where
  "memKV = \<lparr>kv_Get = \<lambda>m k. (m, case m k of None \<Rightarrow> Inl ErrNil | Some d \<Rightarrow> Inr d), kv_Set = \<lambda>m k v _. (m(k \<mapsto> v), None),
     kv_Delete = \<lambda>m k. (m(k := None), None), kv_Exists = \<lambda>m k. (m, Inr (m k \<noteq> None))\<rparr>"

lemma memKV_ok: "kv_ok memKV id"
  by (auto simp: kv_ok_def memKV_def errors_Is_def ErrNil_def split: option.splits)

theorem semaphore_counts_witness:
  "\<exists>s'. runs (sem_call memEnv (NewSemaphore (Some memKV) ''s'' 1)) [Some 5, Some 5, None] Map.empty = (s', [True, False, True])
     \<and> s' ''s'' = Some ''0''"
proof -
  obtain s' answers where run: "runs (sem_call memEnv (NewSemaphore (Some memKV) ''s'' 1)) [Some 5, Some 5, None] Map.empty = (s', answers)"
    by (metis surj_pair)
  have spec: "runs (sem_spec 1) [Some 5, Some 5, None] None = (Some 0, [True, False, True])" by simp
  have "ItoaInt 0 = ''0''" by code_simp
  with semaphore_counts [OF memKV_ok refl _ _ run spec] run show ?thesis by auto
qed

subsection \<open>What the key-value locks do not promise\<close>

text \<open>
  C36. Two writers hold a read-write lock at once, whoever holds it before, and the first one's
  \<open>Unlock\<close> removes the second one's lock: \<open>Lock\<close> sets the key without looking. And two acquires of a
  semaphore that overlap are both granted where one permit is left: the count is read and written in
  two calls.
\<close>

theorem kv_locks_not_exclusive:
  assumes "kv_ok K val"
  shows "(\<exists>s1 s2 s3. RWLock_Lock E (Some (NewRWLock i (Some K) key)) ttl s = (s1, None)
       \<and> RWLock_Lock E (Some (NewRWLock j (Some K) key)) ttl s1 = (s2, None)
       \<and> RWLock_Unlock E (Some (NewRWLock i (Some K) key)) s2 = (s3, None) \<and> val s3 (key @ '':write'') = None)
    \<and> (n < 2 ^ 63 \<and> 0 < n \<and> val s key = Some (ItoaInt (n - 1)) \<longrightarrow>
       (\<exists>s1 s2 s3. Semaphore_loadCount E K key True s = (s1, Inr (n - 1))
         \<and> Semaphore_Acquire E (Some (NewSemaphore (Some K) key n)) ttl s1 = (s2, None)
         \<and> Semaphore_storeCount E K key (n - 1 + 1) ttl s2 = (s3, None) \<and> val s3 key = Some (ItoaInt n)))"
proof -
  have set_ok: "\<exists>s'. kv_Set K s k v ttl = (s', None) \<and> val s' = (val s)(k \<mapsto> v)" for s k v
    using assms unfolding kv_ok_def by (metis prod.collapse)
  have del_ok: "\<exists>s'. kv_Delete K s k = (s', None) \<and> val s' = (val s)(k := None)" for s k
    using assms unfolding kv_ok_def by (metis prod.collapse)
  have writers: "\<exists>s1 s2 s3. RWLock_Lock E (Some (NewRWLock i (Some K) key)) ttl s = (s1, None)
       \<and> RWLock_Lock E (Some (NewRWLock j (Some K) key)) ttl s1 = (s2, None)
       \<and> RWLock_Unlock E (Some (NewRWLock i (Some K) key)) s2 = (s3, None) \<and> val s3 (key @ '':write'') = None"
  proof -
    obtain s1 where s1: "kv_Set K s (key @ '':write'') i ttl = (s1, None)" using set_ok by blast
    obtain s2 where s2: "kv_Set K s1 (key @ '':write'') j ttl = (s2, None)" using set_ok by blast
    obtain s3 where "kv_Delete K s2 (key @ '':write'') = (s3, None)" "val s3 = (val s2)(key @ '':write'' := None)" using del_ok by blast
    then show ?thesis using s1 s2 by (simp add: RWLock_Lock_def RWLock_Unlock_def NewRWLock_def wrapErr_def)
  qed
  moreover have "\<exists>s1 s2 s3. Semaphore_loadCount E K key True s = (s1, Inr (n - 1))
         \<and> Semaphore_Acquire E (Some (NewSemaphore (Some K) key n)) ttl s1 = (s2, None)
         \<and> Semaphore_storeCount E K key (n - 1 + 1) ttl s2 = (s3, None) \<and> val s3 key = Some (ItoaInt n)"
    if n: "n < 2 ^ 63 \<and> 0 < n \<and> val s key = Some (ItoaInt (n - 1))"
  proof -
    have rel: "sem_rel n (val s key) (Some (n - 1))" using n by (simp add: sem_rel_def)
    obtain s1 r1 where l1: "Semaphore_loadCount E K key True s = (s1, r1)" by (metis surj_pair)
    with loadCount_spec [OF assms rel _ l1] n have r1: "r1 = Inr (n - 1)" "val s1 = val s" by auto
    obtain s1' r where l2: "Semaphore_loadCount E K key True s1 = (s1', r)" by (metis surj_pair)
    with loadCount_spec [OF assms _ _ l2, of n "Some (n - 1)"] n rel r1 have r2: "r = Inr (n - 1)" by auto
    obtain s2 e2 where st2: "Semaphore_storeCount E K key (n - 1 + 1) ttl s1' = (s2, e2)" by (metis surj_pair)
    obtain s3 e3 where st3: "Semaphore_storeCount E K key (n - 1 + 1) ttl s2 = (s3, e3)" by (metis surj_pair)
    show ?thesis
      using l1 r1 l2 r2 st2 st3 storeCount_spec [OF assms st2] storeCount_spec [OF assms st3]
      by (auto simp: Semaphore_Acquire_def NewSemaphore_def)
  qed
  ultimately show ?thesis by blast
qed

theorem kv_locks_not_exclusive_witness:
  "\<exists>s1 s2. RWLock_Lock memEnv (Some (NewRWLock ''a'' (Some memKV) ''k'')) 5 Map.empty = (s1, None)
     \<and> RWLock_Lock memEnv (Some (NewRWLock ''b'' (Some memKV) ''k'')) 5 s1 = (s2, None)"
  using kv_locks_not_exclusive [OF memKV_ok, of memEnv "''a''" "''k''" 5 Map.empty "''b''" 1] by blast

end
