(* ===== verification/Event_Bus.thy ===== *)
theory Event_Bus
  imports Client_Error Mapping_Map
begin

text \<open>
  \<^verbatim>\<open>eventx\<close>: the in-memory event bus (\<^verbatim>\<open>bus_core.go\<close>, \<^verbatim>\<open>bus_subscribe.go\<close>, \<^verbatim>\<open>bus_publish.go\<close>, \<^verbatim>\<open>bus_dispatch.go\<close>,
  \<^verbatim>\<open>middleware.go\<close>, \<^verbatim>\<open>options.go\<close>). The subscription table and the cache of handler snapshots are the contents
  of a \<open>ConcurrentTable\<close> and a \<open>ConcurrentMap\<close>, finite maps. A handler acts on the world \<open>'w\<close> of the
  subscriber, returns an error or panics; a handler with a call limit also acts on the bus, where its
  atomic counter is kept under the id of its subscription. Handlers that call the bus themselves are
  outside the model. The order in which \<open>range\<close> visits a row and the order in which parallel handlers run
  are arguments. The pool of panjf2000/ants is the list of accepted tasks; whether it accepts one is an
  argument. Logging and metrics are left out; the span of the observability backend, samber/lo and
  samber/oops are parameters.
\<close>

subsection \<open>Events, handlers, middleware\<close>

record ('t, 'p) event =
  ev_type :: 't
  ev_Name :: string
  ev_payload :: 'p

text \<open>A panic carries an error or some other value.\<close>

datatype panic = PanicError gerror | PanicValue string

datatype 'a ran = Ran 'a | Raised panic

type_synonym ('c, 't, 'p, 'w) HandlerFunc = "'c \<Rightarrow> ('t, 'p) event \<Rightarrow> 'w \<Rightarrow> 'w \<times> gerror option ran"

text \<open>A \<open>HandlerFunc\<close> and a \<open>Middleware\<close> may be nil.\<close>

type_synonym ('c, 't, 'p, 'w) Middleware = "('c, 't, 'p, 'w) HandlerFunc option \<Rightarrow> ('c, 't, 'p, 'w) HandlerFunc option"

text \<open>What a subscription calls: the chained handler, or the closure of \<open>limitedSubscriptionHandler\<close> around
  it. Calling a nil function panics.\<close>

datatype ('c, 't, 'p, 'w) handler =
    Direct "('c, 't, 'p, 'w) HandlerFunc"
  | Limited 't nat "('c, 't, 'p, 'w) HandlerFunc option"

record ('c, 't, 'p, 'w) publishTask =
  task_ctx :: 'c
  task_event :: "('t, 'p) event"
  task_handlers :: "('c, 't, 'p, 'w) handler list"

text \<open>\<open>remaining\<close> holds the counters of the limited handlers, \<open>queue\<close> the tasks the pool accepted, \<open>antsPool\<close>
  whether there is a pool.\<close>

record ('c, 't, 'p, 'w) bus =
  closed :: bool
  nextID :: nat
  subsByType :: "('t, (nat, ('c, 't, 'p, 'w) handler option) fmap) fmap"
  handlerCache :: "('t, ('c, 't, 'p, 'w) handler list) fmap"
  parallel :: bool
  middleware :: "('c, 't, 'p, 'w) Middleware option list"
  onAsyncErr :: "('c \<Rightarrow> ('t, 'p) event \<Rightarrow> gerror \<Rightarrow> 'w \<Rightarrow> 'w) option"
  antsPool :: bool
  initErr :: "gerror option"
  dispatchWG :: nat
  remaining :: "(nat, int) fmap"
  queue :: "('c, 't, 'p, 'w) publishTask list"

type_synonym ('c, 't, 'p, 'w) st = "('c, 't, 'p, 'w) bus \<times> 'w"

record ('c, 't, 'p, 'w) event_env =
  bgContext :: 'c
  StartSpan :: "'c \<Rightarrow> string \<Rightarrow> 'c"
  wrapf :: "string \<Rightarrow> gerror \<Rightarrow> gerror"
  errorf :: "string \<Rightarrow> gerror"
  lo_ReduceRight :: "('c, 't, 'p, 'w) Middleware option list
     \<Rightarrow> (('c, 't, 'p, 'w) HandlerFunc option \<Rightarrow> ('c, 't, 'p, 'w) Middleware option \<Rightarrow> ('c, 't, 'p, 'w) HandlerFunc option)
     \<Rightarrow> ('c, 't, 'p, 'w) HandlerFunc option \<Rightarrow> ('c, 't, 'p, 'w) HandlerFunc option"
  lo_FilterMap :: "('c, 't, 'p, 'w) handler list
     \<Rightarrow> (('c, 't, 'p, 'w) handler \<Rightarrow> ('c, 't, 'p, 'w) st \<Rightarrow> ('c, 't, 'p, 'w) st \<times> gerror option ran)
     \<Rightarrow> ('c, 't, 'p, 'w) st \<Rightarrow> ('c, 't, 'p, 'w) st \<times> gerror list ran"

text \<open>A loop that runs a callback over a slice and keeps what it returns; a panic leaves it.\<close>

fun collect :: "'a list \<Rightarrow> ('a \<Rightarrow> 's \<Rightarrow> 's \<times> 'b option ran) \<Rightarrow> 's \<Rightarrow> 's \<times> 'b list ran" where
  "collect [] f s = (s, Ran [])"
| "collect (x # xs) f s =
     (case f x s of
        (s1, Raised p) \<Rightarrow> (s1, Raised p)
      | (s1, Ran r) \<Rightarrow>
         (case collect xs f s1 of
            (s2, Raised p) \<Rightarrow> (s2, Raised p)
          | (s2, Ran rs) \<Rightarrow> (s2, Ran (case r of None \<Rightarrow> rs | Some e \<Rightarrow> e # rs))))"

text \<open>What is relied on of samber/lo and samber/oops.\<close>

definition event_env_ok :: "('c, 't, 'p, 'w) event_env \<Rightarrow> bool" where
  "event_env_ok E \<longleftrightarrow> (\<forall>ms f h. lo_ReduceRight E ms f h = foldr (\<lambda>m out. f out m) ms h)
     \<and> (\<forall>hs f s. lo_FilterMap E hs f s = collect hs f s)
     \<and> (\<forall>m e. \<exists>msg. wrapf E m e = Wrapped msg e)"

definition ErrBusClosed :: gerror where "ErrBusClosed = Sentinel ''eventx: bus is closed''"
definition ErrNilEvent :: gerror where "ErrNilEvent = Sentinel ''eventx: event is nil''"
definition ErrNilHandler :: gerror where "ErrNilHandler = Sentinel ''eventx: handler is nil''"
definition ErrNilBus :: gerror where "ErrNilBus = Sentinel ''eventx: bus is nil''"
definition ErrAsyncRuntimeUnavailable :: gerror where "ErrAsyncRuntimeUnavailable = Sentinel ''eventx: async runtime unavailable''"
definition ErrInvalidSubscribeCount :: gerror where
  "ErrInvalidSubscribeCount = Sentinel ''eventx: subscribe count must be greater than zero''"
definition ErrPoolClosed :: gerror where "ErrPoolClosed = Sentinel ''this pool has been closed''"

definition nilCall :: panic where
  "nilCall = PanicValue ''invalid memory address or nil pointer dereference''"

definition chainMiddleware :: "('c, 't, 'p, 'w) event_env \<Rightarrow> ('c, 't, 'p, 'w) HandlerFunc option
     \<Rightarrow> ('c, 't, 'p, 'w) Middleware option list \<Rightarrow> ('c, 't, 'p, 'w) HandlerFunc option" where
  "chainMiddleware E handler mws =
     lo_ReduceRight E mws (\<lambda>out mw. case mw of None \<Rightarrow> out | Some m \<Rightarrow> m out) handler"

definition RecoverMiddleware :: "('c, 't, 'p, 'w) event_env \<Rightarrow> ('c, 't, 'p, 'w) Middleware" where
  "RecoverMiddleware E nxt = Some (\<lambda>ctx event w.
     case (case nxt of None \<Rightarrow> (w, Raised nilCall) | Some h \<Rightarrow> h ctx event w) of
       (w', Ran err) \<Rightarrow> (w', Ran err)
     | (w', Raised (PanicError e)) \<Rightarrow> (w', Ran (Some (wrapf E ''eventx: recovered panic'' e)))
     | (w', Raised (PanicValue v)) \<Rightarrow> (w', Ran (Some (errorf E (''eventx: recovered panic: '' @ v)))))"

text \<open>The duration handed to the observer is left out. When the handler panics the observer is not called.\<close>

definition ObserveMiddleware :: "('c \<Rightarrow> ('t, 'p) event \<Rightarrow> gerror option \<Rightarrow> 'w \<Rightarrow> 'w) option \<Rightarrow> ('c, 't, 'p, 'w) Middleware" where
  "ObserveMiddleware observer nxt = Some (\<lambda>ctx event w.
     case (case nxt of None \<Rightarrow> (w, Raised nilCall) | Some h \<Rightarrow> h ctx event w) of
       (w', Raised p) \<Rightarrow> (w', Raised p)
     | (w', Ran err) \<Rightarrow> (case observer of None \<Rightarrow> w' | Some obs \<Rightarrow> obs ctx event err w', Ran err))"

subsection \<open>Subscriptions\<close>

definition row :: "('c, 't, 'p, 'w) bus \<Rightarrow> 't \<Rightarrow> (nat, ('c, 't, 'p, 'w) handler option) fmap" where
  "row b t = (case fmlookup (subsByType b) t of None \<Rightarrow> fmempty | Some r \<Rightarrow> r)"

definition invalidateHandlerSnapshot :: "('c, 't, 'p, 'w) bus \<Rightarrow> 't \<Rightarrow> ('c, 't, 'p, 'w) bus" where
  "invalidateHandlerSnapshot b t = b\<lparr>handlerCache := fmdrop t (handlerCache b)\<rparr>"

definition registerSubscription :: "('c, 't, 'p, 'w) bus option \<Rightarrow> 't \<Rightarrow> (nat \<Rightarrow> ('c, 't, 'p, 'w) handler option) option
     \<Rightarrow> ('c, 't, 'p, 'w) bus option \<times> (gerror + nat)" where
  "registerSubscription b0 t buildHandler =
     (case b0 of
        None \<Rightarrow> (b0, Inl ErrNilBus)
      | Some b \<Rightarrow>
          if closed b then (b0, Inl ErrBusClosed)
          else let sid = nextID b + 1;
                   handler = (case buildHandler of None \<Rightarrow> None | Some factory \<Rightarrow> factory sid);
                   b1 = b\<lparr>nextID := sid, subsByType := fmupd t (fmupd sid handler (row b t)) (subsByType b)\<rparr>
               in (Some (invalidateHandlerSnapshot b1 t), Inr sid))"

text \<open>The table drops a row with its last cell.\<close>

definition deleteSubscription :: "('c, 't, 'p, 'w) bus \<Rightarrow> 't \<Rightarrow> nat \<Rightarrow> ('c, 't, 'p, 'w) bus" where
  "deleteSubscription b t sid =
     (if fmlookup (row b t) sid = None then b
      else let r = fmdrop sid (row b t);
               b1 = b\<lparr>subsByType := (if r = fmempty then fmdrop t (subsByType b) else fmupd t r (subsByType b))\<rparr>
           in invalidateHandlerSnapshot b1 t)"

definition subscriptionHandler :: "('c, 't, 'p, 'w) event_env \<Rightarrow> ('c, 't, 'p, 'w) bus \<Rightarrow> ('c, 't, 'p, 'w) HandlerFunc option
     \<Rightarrow> ('c, 't, 'p, 'w) Middleware option list \<Rightarrow> ('c, 't, 'p, 'w) HandlerFunc option" where
  "subscriptionHandler E b base subscriberMiddleware =
     chainMiddleware E (chainMiddleware E base subscriberMiddleware) (middleware b)"

text \<open>\<open>maxCalls\<close> of a limited handler goes into the counter of its id.\<close>

definition subscriptionDispatchHandler :: "'t \<Rightarrow> nat \<Rightarrow> ('c, 't, 'p, 'w) HandlerFunc option \<Rightarrow> int \<Rightarrow> ('c, 't, 'p, 'w) handler option" where
  "subscriptionDispatchHandler t sid handler maxCalls =
     (if maxCalls \<le> 0 then map_option Direct handler else Some (Limited t sid handler))"

definition subscribe :: "('c, 't, 'p, 'w) event_env \<Rightarrow> ('c, 't, 'p, 'w) bus option \<Rightarrow> 't \<Rightarrow> ('c, 't, 'p, 'w) HandlerFunc
     \<Rightarrow> ('c, 't, 'p, 'w) Middleware option list \<Rightarrow> int \<Rightarrow> ('c, 't, 'p, 'w) bus option \<times> (gerror + nat)" where
  "subscribe E b0 t base subscriberMiddleware maxCalls =
     (case b0 of
        None \<Rightarrow> (b0, Inl (wrapf E ''eventx: validate subscribe bus'' ErrNilBus))
      | Some b \<Rightarrow>
         (let finalHandler = subscriptionHandler E b (Some base) subscriberMiddleware
          in case registerSubscription b0 t (Some (\<lambda>sid. subscriptionDispatchHandler t sid finalHandler maxCalls)) of
               (b1, Inl err) \<Rightarrow> (b1, Inl err)
             | (b1, Inr sid) \<Rightarrow>
                 (map_option (\<lambda>b. if 0 < maxCalls then b\<lparr>remaining := fmupd sid maxCalls (remaining b)\<rparr> else b) b1, Inr sid)))"

definition typedEventHandler :: "('c, 't, 'p, 'w) event_env \<Rightarrow> 't \<Rightarrow> ('c, 't, 'p, 'w) HandlerFunc \<Rightarrow> ('c, 't, 'p, 'w) HandlerFunc" where
  "typedEventHandler E t handler ctx event w =
     (if ev_type event \<noteq> t then (w, Ran (Some (errorf E ''eventx: event type mismatch''))) else handler ctx event w)"

definition Subscribe :: "('c, 't, 'p, 'w) event_env \<Rightarrow> ('c, 't, 'p, 'w) bus option \<Rightarrow> 't \<Rightarrow> ('c, 't, 'p, 'w) HandlerFunc option
     \<Rightarrow> ('c, 't, 'p, 'w) Middleware option list \<Rightarrow> ('c, 't, 'p, 'w) bus option \<times> (gerror + nat)" where
  "Subscribe E b t handler mws =
     (if Option.is_none b then (b, Inl (wrapf E ''eventx: validate subscribe bus'' ErrNilBus))
      else case handler of
        None \<Rightarrow> (b, Inl (wrapf E ''eventx: validate subscribe handler'' ErrNilHandler))
      | Some h \<Rightarrow> subscribe E b t (typedEventHandler E t h) mws 0)"

definition SubscribeN :: "('c, 't, 'p, 'w) event_env \<Rightarrow> ('c, 't, 'p, 'w) bus option \<Rightarrow> 't \<Rightarrow> int \<Rightarrow> ('c, 't, 'p, 'w) HandlerFunc option
     \<Rightarrow> ('c, 't, 'p, 'w) Middleware option list \<Rightarrow> ('c, 't, 'p, 'w) bus option \<times> (gerror + nat)" where
  "SubscribeN E b t n handler mws =
     (if n \<le> 0 then (b, Inl (wrapf E ''eventx: validate subscribe count'' ErrInvalidSubscribeCount))
      else if Option.is_none b then (b, Inl (wrapf E ''eventx: validate subscribe bus'' ErrNilBus))
      else case handler of
        None \<Rightarrow> (b, Inl (wrapf E ''eventx: validate subscribe handler'' ErrNilHandler))
      | Some h \<Rightarrow> subscribe E b t (typedEventHandler E t h) mws n)"

definition SubscribeOnce :: "('c, 't, 'p, 'w) event_env \<Rightarrow> ('c, 't, 'p, 'w) bus option \<Rightarrow> 't \<Rightarrow> ('c, 't, 'p, 'w) HandlerFunc option
     \<Rightarrow> ('c, 't, 'p, 'w) Middleware option list \<Rightarrow> ('c, 't, 'p, 'w) bus option \<times> (gerror + nat)" where
  "SubscribeOnce E b t handler mws = SubscribeN E b t 1 handler mws"

subsection \<open>Calling a handler\<close>

text \<open>\<open>consumeSubscriptionCall\<close> is one atomic step: its loop repeats until the compare-and-swap succeeds.\<close>

definition consumeSubscriptionCall :: "int \<Rightarrow> int \<times> int \<times> bool" where
  "consumeSubscriptionCall n = (if n \<le> 0 then (n, 0, False) else (n - 1, n, True))"

definition callFunc :: "('c, 't, 'p, 'w) HandlerFunc option \<Rightarrow> 'c \<Rightarrow> ('t, 'p) event \<Rightarrow> ('c, 't, 'p, 'w) st
     \<Rightarrow> ('c, 't, 'p, 'w) st \<times> gerror option ran" where
  "callFunc h ctx event s =
     (case h of None \<Rightarrow> (s, Raised nilCall)
      | Some f \<Rightarrow> (case f ctx event (snd s) of (w, r) \<Rightarrow> ((fst s, w), r)))"

text \<open>The closure of \<open>limitedSubscriptionHandler\<close>.\<close>

definition limitedSubscriptionHandler :: "'t \<Rightarrow> nat \<Rightarrow> ('c, 't, 'p, 'w) HandlerFunc option \<Rightarrow> 'c \<Rightarrow> ('t, 'p) event
     \<Rightarrow> ('c, 't, 'p, 'w) st \<Rightarrow> ('c, 't, 'p, 'w) st \<times> gerror option ran" where
  "limitedSubscriptionHandler t sid h ctx event s =
     (case consumeSubscriptionCall (case fmlookup (remaining (fst s)) sid of None \<Rightarrow> 0 | Some n \<Rightarrow> n) of
        (left, current, ok) \<Rightarrow>
          if \<not> ok then (s, Ran None)
          else let b1 = (fst s)\<lparr>remaining := fmupd sid left (remaining (fst s))\<rparr>;
                   b2 = (if current = 1 then deleteSubscription b1 t sid else b1)
               in callFunc h ctx event (b2, snd s))"

definition callHandler :: "'c \<Rightarrow> ('t, 'p) event \<Rightarrow> ('c, 't, 'p, 'w) handler \<Rightarrow> ('c, 't, 'p, 'w) st
     \<Rightarrow> ('c, 't, 'p, 'w) st \<times> gerror option ran" where
  "callHandler ctx event h s =
     (case h of Direct f \<Rightarrow> callFunc (Some f) ctx event s
      | Limited t sid f \<Rightarrow> limitedSubscriptionHandler t sid f ctx event s)"

text \<open>The function returned by \<open>subscribe\<close>; \<open>fired\<close> is its \<open>sync.Once\<close>.\<close>

definition unsubscribeFunc :: "bool \<Rightarrow> ('c, 't, 'p, 'w) bus \<Rightarrow> 't \<Rightarrow> nat \<Rightarrow> bool \<times> ('c, 't, 'p, 'w) bus" where
  "unsubscribeFunc fired b t sid = (True, if fired then b else deleteSubscription b t sid)"

subsection \<open>Snapshots and dispatch\<close>

text \<open>The two halves of \<open>snapshotHandlersByEventType\<close> behind a cache miss: reading the row, in the order \<open>ks\<close>
  of its iteration, and storing the snapshot. No lock is held between them.\<close>

definition snapshotRead :: "('c, 't, 'p, 'w) bus \<Rightarrow> 't \<Rightarrow> nat list \<Rightarrow> ('c, 't, 'p, 'w) handler list" where
  "snapshotRead b t ks = List.map_filter (\<lambda>(k, h). h) (fm_entries ks (row b t))"

definition snapshotStore :: "('c, 't, 'p, 'w) bus \<Rightarrow> 't \<Rightarrow> ('c, 't, 'p, 'w) handler list \<Rightarrow> ('c, 't, 'p, 'w) bus" where
  "snapshotStore b t snapshot = b\<lparr>handlerCache := fmupd t snapshot (handlerCache b)\<rparr>"

definition snapshotHandlersByEventType :: "('c, 't, 'p, 'w) bus \<Rightarrow> 't \<Rightarrow> nat list
     \<Rightarrow> ('c, 't, 'p, 'w) bus \<times> ('c, 't, 'p, 'w) handler list" where
  "snapshotHandlersByEventType b t ks =
     (case fmlookup (handlerCache b) t of
        Some cached \<Rightarrow> (b, cached)
      | None \<Rightarrow>
          if row b t = fmempty then (b, [])
          else let snapshot = snapshotRead b t ks in (snapshotStore b t snapshot, snapshot))"

text \<open>\<open>errors.Join\<close>.\<close>

definition joinErrors :: "gerror list \<Rightarrow> gerror option" where
  "joinErrors errs = (if errs = [] then None else Some (Joined errs))"

definition joined :: "'s \<times> gerror list ran \<Rightarrow> 's \<times> gerror option ran" where
  "joined x = (case x of (s, Raised p) \<Rightarrow> (s, Raised p) | (s, Ran errs) \<Rightarrow> (s, Ran (joinErrors errs)))"

definition dispatchSerial :: "('c, 't, 'p, 'w) event_env \<Rightarrow> 'c \<Rightarrow> ('t, 'p) event \<Rightarrow> ('c, 't, 'p, 'w) handler list
     \<Rightarrow> ('c, 't, 'p, 'w) st \<Rightarrow> ('c, 't, 'p, 'w) st \<times> gerror option ran" where
  "dispatchSerial E ctx event handlers s = joined (lo_FilterMap E handlers (callHandler ctx event) s)"

text \<open>Each handler in a goroutine of its own; \<open>perm\<close> puts them in the order in which they run and send
  their errors. A panic ends the process.\<close>

definition dispatchParallel :: "'c \<Rightarrow> ('t, 'p) event \<Rightarrow> (('c, 't, 'p, 'w) handler list \<Rightarrow> ('c, 't, 'p, 'w) handler list)
     \<Rightarrow> ('c, 't, 'p, 'w) handler list \<Rightarrow> ('c, 't, 'p, 'w) st \<Rightarrow> ('c, 't, 'p, 'w) st \<times> gerror option ran" where
  "dispatchParallel ctx event perm handlers s = joined (collect (perm handlers) (callHandler ctx event) s)"

definition ev_normalizeContext :: "('c, 't, 'p, 'w) event_env \<Rightarrow> 'c option \<Rightarrow> 'c" where
  "ev_normalizeContext E ctx = (case ctx of Some c \<Rightarrow> c | None \<Rightarrow> bgContext E)"

definition dispatch :: "('c, 't, 'p, 'w) event_env \<Rightarrow> (('c, 't, 'p, 'w) handler list \<Rightarrow> ('c, 't, 'p, 'w) handler list) \<Rightarrow> 'c
     \<Rightarrow> ('t, 'p) event \<Rightarrow> ('c, 't, 'p, 'w) handler list \<Rightarrow> ('c, 't, 'p, 'w) st \<Rightarrow> ('c, 't, 'p, 'w) st \<times> gerror option ran" where
  "dispatch E perm ctx0 event handlers s =
     (if handlers = [] then (s, Ran None)
      else let ctx = StartSpan E ctx0 ''eventx.dispatch''
           in if parallel (fst s) then dispatchParallel ctx event perm handlers s
              else dispatchSerial E ctx event handlers s)"

definition beginDispatch :: "('c, 't, 'p, 'w) bus \<Rightarrow> ('c, 't, 'p, 'w) bus \<times> bool" where
  "beginDispatch b = (if closed b then (b, False) else (b\<lparr>dispatchWG := dispatchWG b + 1\<rparr>, True))"

definition doneDispatch :: "('c, 't, 'p, 'w) bus \<Rightarrow> ('c, 't, 'p, 'w) bus" where
  "doneDispatch b = b\<lparr>dispatchWG := dispatchWG b - 1\<rparr>"

definition validatePublishRequest :: "('c, 't, 'p, 'w) event_env \<Rightarrow> ('c, 't, 'p, 'w) bus option \<Rightarrow> ('t, 'p) event option \<Rightarrow> gerror option" where
  "validatePublishRequest E b event =
     (if Option.is_none b then Some (wrapf E ''eventx: validate publish bus'' ErrNilBus)
      else if Option.is_none event then Some (wrapf E ''eventx: validate publish event'' ErrNilEvent)
      else None)"

text \<open>\<open>Publish\<close> behind the checks for nil.\<close>

definition publishSync :: "('c, 't, 'p, 'w) event_env \<Rightarrow> (('c, 't, 'p, 'w) handler list \<Rightarrow> ('c, 't, 'p, 'w) handler list) \<Rightarrow> nat list
     \<Rightarrow> 'c option \<Rightarrow> ('t, 'p) event \<Rightarrow> ('c, 't, 'p, 'w) st \<Rightarrow> ('c, 't, 'p, 'w) st \<times> gerror option ran" where
  "publishSync E perm ks ctx event s =
     (case beginDispatch (fst s) of
        (b, False) \<Rightarrow> ((b, snd s), Ran (Some (wrapf E ''eventx: publish sync'' ErrBusClosed)))
      | (b, True) \<Rightarrow>
         (case snapshotHandlersByEventType b (ev_type event) ks of
            (b1, handlers) \<Rightarrow>
              (case dispatch E perm (ev_normalizeContext E ctx) event handlers (b1, snd s) of
                 ((b2, w2), r) \<Rightarrow> ((doneDispatch b2, w2), r))))"

definition Bus_Publish :: "('c, 't, 'p, 'w) event_env \<Rightarrow> (('c, 't, 'p, 'w) handler list \<Rightarrow> ('c, 't, 'p, 'w) handler list) \<Rightarrow> nat list
     \<Rightarrow> 'c option \<Rightarrow> ('t, 'p) event option \<Rightarrow> ('c, 't, 'p, 'w) bus option \<Rightarrow> 'w
     \<Rightarrow> ('c, 't, 'p, 'w) bus option \<times> 'w \<times> gerror option ran" where
  "Bus_Publish E perm ks ctx event b w =
     (case validatePublishRequest E b event of
        Some err \<Rightarrow> (b, w, Ran (Some err))
      | None \<Rightarrow> (case publishSync E perm ks ctx (the event) (the b, w) of ((b', w'), r) \<Rightarrow> (Some b', w', r)))"

subsection \<open>Asynchronous publishing\<close>

definition asyncRuntimeUnavailable :: "('c, 't, 'p, 'w) event_env \<Rightarrow> ('c, 't, 'p, 'w) bus \<Rightarrow> gerror option" where
  "asyncRuntimeUnavailable E b =
     (case initErr b of None \<Rightarrow> None
      | Some e \<Rightarrow> Some (wrapf E ''eventx: async runtime unavailable'' (Joined [ErrAsyncRuntimeUnavailable, e])))"

text \<open>\<open>accept\<close> is what \<open>Submit\<close> of the pool returns.\<close>

definition submitAsyncTask :: "('c, 't, 'p, 'w) event_env \<Rightarrow> gerror option \<Rightarrow> 'c \<Rightarrow> ('t, 'p) event \<Rightarrow> ('c, 't, 'p, 'w) handler list
     \<Rightarrow> ('c, 't, 'p, 'w) bus \<Rightarrow> ('c, 't, 'p, 'w) bus \<times> gerror option" where
  "submitAsyncTask E accept ctx event handlers b =
     (case beginDispatch b of
        (b1, False) \<Rightarrow> (b1, Some (wrapf E ''eventx: submit async task'' ErrBusClosed))
      | (b1, True) \<Rightarrow>
         (case accept of
            None \<Rightarrow> (b1\<lparr>queue := queue b1 @ [\<lparr>task_ctx = ctx, task_event = event, task_handlers = handlers\<rparr>]\<rparr>, None)
          | Some err \<Rightarrow>
              (doneDispatch b1,
               Some (wrapf E ''eventx: submit async task'' (if errors_Is err ErrPoolClosed then ErrBusClosed else err)))))"

definition Bus_PublishAsync :: "('c, 't, 'p, 'w) event_env \<Rightarrow> (('c, 't, 'p, 'w) handler list \<Rightarrow> ('c, 't, 'p, 'w) handler list) \<Rightarrow> nat list
     \<Rightarrow> gerror option \<Rightarrow> 'c option \<Rightarrow> ('t, 'p) event option \<Rightarrow> ('c, 't, 'p, 'w) bus option \<Rightarrow> 'w
     \<Rightarrow> ('c, 't, 'p, 'w) bus option \<times> 'w \<times> gerror option ran" where
  "Bus_PublishAsync E perm ks accept ctx0 event0 b0 w =
     (case validatePublishRequest E b0 event0 of
        Some err \<Rightarrow> (b0, w, Ran (Some err))
      | None \<Rightarrow>
         (let event = the event0;
              ctx = StartSpan E (ev_normalizeContext E ctx0) ''eventx.publish.async.enqueue''
          in case snapshotHandlersByEventType (the b0) (ev_type event) ks of
               (b, handlers) \<Rightarrow>
                 (case asyncRuntimeUnavailable E b of
                    Some err \<Rightarrow> (Some b, w, Ran (Some err))
                  | None \<Rightarrow>
                      if \<not> antsPool b then Bus_Publish E perm ks (Some ctx) event0 (Some b) w
                      else (case submitAsyncTask E accept ctx event handlers b of (b1, err) \<Rightarrow> (Some b1, w, Ran err)))))"

text \<open>A worker takes the task at index \<open>i\<close>; \<open>dispatchWG.Done\<close> is deferred.\<close>

definition executeTask :: "('c, 't, 'p, 'w) event_env \<Rightarrow> (('c, 't, 'p, 'w) handler list \<Rightarrow> ('c, 't, 'p, 'w) handler list)
     \<Rightarrow> ('c, 't, 'p, 'w) publishTask \<Rightarrow> ('c, 't, 'p, 'w) st \<Rightarrow> ('c, 't, 'p, 'w) st \<times> unit ran" where
  "executeTask E perm task s =
     (case dispatch E perm (task_ctx task) (task_event task) (task_handlers task) s of
        (s1, Raised p) \<Rightarrow> (s1, Raised p)
      | (s1, Ran None) \<Rightarrow> (s1, Ran ())
      | (s1, Ran (Some err)) \<Rightarrow>
         (case onAsyncErr (fst s1) of
            None \<Rightarrow> (s1, Ran ())
          | Some f \<Rightarrow> ((fst s1, f (task_ctx task) (task_event task) err (snd s1)), Ran ())))"

definition runTask :: "('c, 't, 'p, 'w) event_env \<Rightarrow> (('c, 't, 'p, 'w) handler list \<Rightarrow> ('c, 't, 'p, 'w) handler list) \<Rightarrow> nat
     \<Rightarrow> ('c, 't, 'p, 'w) st \<Rightarrow> ('c, 't, 'p, 'w) st \<times> unit ran" where
  "runTask E perm i s =
     (let b = fst s; q = queue b in
      if length q \<le> i then (s, Ran ())
      else case executeTask E perm (q ! i) (b\<lparr>queue := take i q @ drop (i + 1) q\<rparr>, snd s) of
        ((b1, w1), r) \<Rightarrow> ((doneDispatch b1, w1), r))"

subsection \<open>Construction, counting, closing\<close>

definition Bus_SubscriberCount :: "('c, 't, 'p, 'w) bus option \<Rightarrow> nat" where
  "Bus_SubscriberCount b0 = (case b0 of None \<Rightarrow> 0 | Some b \<Rightarrow> (\<Sum>t\<in>fmdom' (subsByType b). fm_size (row b t)))"

text \<open>\<open>ts\<close> is the order of the row keys; the result is the content of a multimap, in which \<open>Set\<close> without
  values leaves no entry.\<close>

fun groupHandlers :: "'t list \<Rightarrow> ('t \<Rightarrow> nat list) \<Rightarrow> ('c, 't, 'p, 'w) bus \<Rightarrow> ('t, ('c, 't, 'p, 'w) handler list) fmap
     \<Rightarrow> ('c, 't, 'p, 'w) bus \<times> ('t, ('c, 't, 'p, 'w) handler list) fmap" where
  "groupHandlers [] ks b grouped = (b, grouped)"
| "groupHandlers (t # ts) ks b grouped =
     (case snapshotHandlersByEventType b t (ks t) of
        (b1, hs) \<Rightarrow> groupHandlers ts ks b1 (if hs = [] then fmdrop t grouped else fmupd t hs grouped))"

definition Bus_GetHandlersGroupedByEventType :: "'t list \<Rightarrow> ('t \<Rightarrow> nat list) \<Rightarrow> ('c, 't, 'p, 'w) bus option
     \<Rightarrow> ('c, 't, 'p, 'w) bus option \<times> ('t, ('c, 't, 'p, 'w) handler list) fmap" where
  "Bus_GetHandlersGroupedByEventType ts ks b0 =
     (case b0 of None \<Rightarrow> (None, fmempty)
      | Some b \<Rightarrow> (case groupHandlers ts ks b fmempty of (b1, grouped) \<Rightarrow> (Some b1, grouped)))"

text \<open>The first half of \<open>Close\<close>, under the lock: whether this call goes on to wait. The second half returns
  when the wait group is at zero.\<close>

definition closeMark :: "('c, 't, 'p, 'w) bus \<Rightarrow> ('c, 't, 'p, 'w) bus \<times> bool" where
  "closeMark b = (if closed b then (b, False) else (b\<lparr>closed := True\<rparr>, True))"

definition closeWaitDone :: "('c, 't, 'p, 'w) bus \<Rightarrow> bool" where
  "closeWaitDone b \<longleftrightarrow> dispatchWG b = 0"

record ('c, 't, 'p, 'w) Options =
  antsPoolSize :: int
  opt_parallel :: bool
  opt_middleware :: "('c, 't, 'p, 'w) Middleware option list"
  onAsyncError :: "('c \<Rightarrow> ('t, 'p) event \<Rightarrow> gerror \<Rightarrow> 'w \<Rightarrow> 'w) option"

definition defaultOptions :: "('c, 't, 'p, 'w) Options" where
  "defaultOptions = \<lparr>antsPoolSize = 4, opt_parallel = False, opt_middleware = [], onAsyncError = None\<rparr>"

definition WithMiddleware :: "('c, 't, 'p, 'w) Middleware option list \<Rightarrow> ('c, 't, 'p, 'w) Options \<Rightarrow> ('c, 't, 'p, 'w) Options" where
  "WithMiddleware mw opts = opts\<lparr>opt_middleware := opt_middleware opts @ filter (\<lambda>m. \<not> Option.is_none m) mw\<rparr>"

text \<open>\<open>poolErr\<close> is what \<open>ants.NewPool\<close> returns for the size.\<close>

definition NewBus :: "(int \<Rightarrow> gerror option) \<Rightarrow> ('c, 't, 'p, 'w) Options \<Rightarrow> ('c, 't, 'p, 'w) bus" where
  "NewBus poolErr cfg =
     \<lparr>closed = False, nextID = 0, subsByType = fmempty, handlerCache = fmempty, parallel = opt_parallel cfg,
      middleware = opt_middleware cfg, onAsyncErr = onAsyncError cfg,
      antsPool = Option.is_none (poolErr (antsPoolSize cfg)), initErr = poolErr (antsPoolSize cfg),
      dispatchWG = 0, remaining = fmempty, queue = []\<rparr>"

end
