(* ===== verification/Event_Deliver.thy ===== *)
theory Event_Deliver
  imports Event_Bus
begin

text \<open>
  What the event bus of \<open>Event_Bus\<close> promises. \<open>view b t sid\<close> is the abstract subscription: the function to
  call and the calls left. Over any history of calls that do not overlap, a publish runs every live
  subscription of the event's type exactly once and leaves the others alone, whether it finds a snapshot
  in the cache or not; the \<open>Close\<close> that closes the bus drains it; and the race between a subscriber and a
  publisher that fills the cache loses the subscriber.
\<close>

subsection \<open>The invariant\<close>

definition live :: "('c, 't, 'p, 'w) bus \<Rightarrow> 't \<Rightarrow> nat \<Rightarrow> ('c, 't, 'p, 'w) handler \<Rightarrow> bool" where
  "live b t sid h \<longleftrightarrow> fmlookup (row b t) sid = Some (Some h)"

definition held :: "('c, 't, 'p, 'w) bus \<Rightarrow> 't \<Rightarrow> nat \<Rightarrow> bool" where
  "held b t sid \<longleftrightarrow> fmlookup (row b t) sid \<noteq> None"

text \<open>Ids are never reused and belong to one event type.\<close>

definition rows_ok :: "('c, 't, 'p, 'w) bus \<Rightarrow> bool" where
  "rows_ok b \<longleftrightarrow> (\<forall>t sid. held b t sid \<longrightarrow> sid \<le> nextID b \<and> (\<forall>t'. held b t' sid \<longrightarrow> t' = t))"

text \<open>A limited subscription that is still there has calls left.\<close>

definition limits_ok :: "('c, 't, 'p, 'w) bus \<Rightarrow> bool" where
  "limits_ok b \<longleftrightarrow> (\<forall>t sid t' sid' f. live b t sid (Limited t' sid' f) \<longrightarrow>
     t' = t \<and> sid' = sid \<and> (\<exists>n>0. fmlookup (remaining b) sid = Some n))"

text \<open>A cached snapshot is what reading the row would give now.\<close>

definition cache_ok :: "('c, 't, 'p, 'w) bus \<Rightarrow> bool" where
  "cache_ok b \<longleftrightarrow> (\<forall>t hs. fmlookup (handlerCache b) t = Some hs \<longrightarrow>
     (\<exists>ks. iterates ks (row b t) \<and> hs = snapshotRead b t ks))"

definition handler_ok :: "('c, 't, 'p, 'w) bus \<Rightarrow> ('c, 't, 'p, 'w) handler \<Rightarrow> bool" where
  "handler_ok b h \<longleftrightarrow>
     (\<forall>t sid f. h = Limited t sid f \<longrightarrow> sid \<le> nextID b \<and> (\<forall>t'. held b t' sid \<longrightarrow> t' = t))"

definition queue_ok :: "('c, 't, 'p, 'w) bus \<Rightarrow> bool" where
  "queue_ok b \<longleftrightarrow> (\<forall>task\<in>set (queue b). \<forall>h\<in>set (task_handlers task). handler_ok b h)"

definition bus_inv :: "('c, 't, 'p, 'w) bus \<Rightarrow> bool" where
  "bus_inv b \<longleftrightarrow> rows_ok b \<and> limits_ok b \<and> cache_ok b \<and> queue_ok b"

lemma bus_inv_limit:
  assumes "bus_inv b" and "live b t sid (Limited t' sid' f)"
  obtains n where "t' = t" "sid' = sid" "0 < n" "fmlookup (remaining b) sid = Some n"
  using assms unfolding bus_inv_def limits_ok_def by blast

definition view :: "('c, 't, 'p, 'w) bus \<Rightarrow> 't \<Rightarrow> nat \<Rightarrow> (('c, 't, 'p, 'w) HandlerFunc option \<times> int option) option" where
  "view b t sid =
     (case fmlookup (row b t) sid of
        Some (Some (Direct f)) \<Rightarrow> Some (Some f, None)
      | Some (Some (Limited _ _ f)) \<Rightarrow> Some (f, fmlookup (remaining b) sid)
      | _ \<Rightarrow> None)"

text \<open>What one call does to a subscription.\<close>

fun spent :: "('f \<times> int option) option \<Rightarrow> ('f \<times> int option) option" where
  "spent (Some (f, Some n)) = (if n = 1 then None else Some (f, Some (n - 1)))"
| "spent v = v"

subsection \<open>Reading and deleting\<close>

lemma snapshotRead_row: "row b t = row b' t \<Longrightarrow> snapshotRead b t ks = snapshotRead b' t ks"
  by (simp add: snapshotRead_def)

lemma snapshotRead_ids:
  assumes "iterates ks (row b t)"
  shows "snapshotRead b t ks = map (\<lambda>sid. the (the (fmlookup (row b t) sid))) (filter (\<lambda>sid. \<exists>h. live b t sid h) ks)"
proof -
  have "set ks \<subseteq> fmdom' (row b t)" using assms by (simp add: iterates_def)
  then show ?thesis
    by (induction ks) (auto simp: snapshotRead_def live_def map_filter_simps split: option.splits)
qed

lemma row_deleteSubscription: "row (deleteSubscription b t sid) t' = (if t' = t then fmdrop sid (row b t) else row b t')"
proof (cases "fmlookup (row b t) sid")
  case None
  then show ?thesis by (simp add: deleteSubscription_def fmdrop_idle fmlookup_dom_iff)
next
  case (Some h)
  then show ?thesis by (auto simp: deleteSubscription_def Let_def row_def invalidateHandlerSnapshot_def)
qed

lemma deleteSubscription_fields [simp]:
  "nextID (deleteSubscription b t sid) = nextID b" "remaining (deleteSubscription b t sid) = remaining b"
  "queue (deleteSubscription b t sid) = queue b" "closed (deleteSubscription b t sid) = closed b"
  "parallel (deleteSubscription b t sid) = parallel b" "dispatchWG (deleteSubscription b t sid) = dispatchWG b"
  by (simp_all add: deleteSubscription_def Let_def invalidateHandlerSnapshot_def)

lemma handlerCache_deleteSubscription:
  "fmlookup (handlerCache (deleteSubscription b t sid)) t' =
     (if t' = t \<and> fmlookup (row b t) sid \<noteq> None then None else fmlookup (handlerCache b) t')"
  by (auto simp: deleteSubscription_def Let_def invalidateHandlerSnapshot_def)

lemma live_deleteSubscription: "live (deleteSubscription b t sid) t' sid' h \<longleftrightarrow> live b t' sid' h \<and> \<not> (t' = t \<and> sid' = sid)"
  by (auto simp: live_def row_deleteSubscription)

lemma held_deleteSubscription: "held (deleteSubscription b t sid) t' sid' \<longleftrightarrow> held b t' sid' \<and> \<not> (t' = t \<and> sid' = sid)"
  by (auto simp: held_def row_deleteSubscription)

lemma handler_ok_deleteSubscription: "handler_ok b h \<Longrightarrow> handler_ok (deleteSubscription b t sid) h"
  by (simp add: handler_ok_def held_deleteSubscription)

lemma bus_inv_deleteSubscription:
  assumes "bus_inv b"
  shows "bus_inv (deleteSubscription b t sid)"
proof -
  have "rows_ok (deleteSubscription b t sid)"
    using assms by (simp add: bus_inv_def rows_ok_def held_deleteSubscription) blast
  moreover have "limits_ok (deleteSubscription b t sid)"
    using assms unfolding bus_inv_def limits_ok_def live_deleteSubscription deleteSubscription_fields by blast
  moreover have "cache_ok (deleteSubscription b t sid)"
    unfolding cache_ok_def
  proof (intro allI impI)
    fix t' hs
    assume hs: "fmlookup (handlerCache (deleteSubscription b t sid)) t' = Some hs"
    then have same: "row (deleteSubscription b t sid) t' = row b t'"
      by (auto simp: handlerCache_deleteSubscription row_deleteSubscription fmdrop_idle fmlookup_dom_iff split: if_splits)
    have "fmlookup (handlerCache b) t' = Some hs" using hs by (auto simp: handlerCache_deleteSubscription split: if_splits)
    then obtain ks where "iterates ks (row b t')" "hs = snapshotRead b t' ks"
      using assms by (auto simp: bus_inv_def cache_ok_def)
    then show "\<exists>ks. iterates ks (row (deleteSubscription b t sid) t') \<and> hs = snapshotRead (deleteSubscription b t sid) t' ks"
      using same snapshotRead_row [of b t' "deleteSubscription b t sid"] by auto
  qed
  moreover have "queue_ok (deleteSubscription b t sid)"
    using assms by (auto simp: bus_inv_def queue_ok_def handler_ok_deleteSubscription)
  ultimately show ?thesis by (simp add: bus_inv_def)
qed

subsection \<open>One call of a handler\<close>

text \<open>The effect of a call on the bus.\<close>

definition spend :: "('c, 't, 'p, 'w) bus \<Rightarrow> 't \<Rightarrow> nat \<Rightarrow> int \<Rightarrow> ('c, 't, 'p, 'w) bus" where
  "spend b t sid n =
     (let b1 = b\<lparr>remaining := fmupd sid (n - 1) (remaining b)\<rparr> in if n = 1 then deleteSubscription b1 t sid else b1)"

lemma row_cong: "subsByType b' = subsByType b \<Longrightarrow> row b' t = row b t"
  by (simp add: row_def)

lemma update_frame [simp]:
  "row (b\<lparr>remaining := x\<rparr>) = row b" "row (b\<lparr>dispatchWG := n\<rparr>) = row b" "row (b\<lparr>closed := c\<rparr>) = row b"
  "row (b\<lparr>queue := q\<rparr>) = row b" "row (b\<lparr>handlerCache := hc\<rparr>) = row b"
  by (simp_all add: row_def fun_eq_iff)

lemma same_row:
  assumes "row b' = row b"
  shows "live b' = live b" "held b' = held b" "snapshotRead b' = snapshotRead b"
    "nextID b' = nextID b \<Longrightarrow> handler_ok b' = handler_ok b"
  using assms by (simp_all add: fun_eq_iff live_def held_def snapshotRead_def handler_ok_def)

lemma bus_inv_remaining:
  assumes "bus_inv b" and "\<forall>t'. held b t' sid \<longrightarrow> 0 < n"
  shows "bus_inv (b\<lparr>remaining := fmupd sid n (remaining b)\<rparr>)"
proof -
  have "limits_ok (b\<lparr>remaining := fmupd sid n (remaining b)\<rparr>)"
    unfolding limits_ok_def
  proof (intro allI impI)
    fix t sid0 t' sid' f
    assume "live (b\<lparr>remaining := fmupd sid n (remaining b)\<rparr>) t sid0 (Limited t' sid' f)"
    then have l: "live b t sid0 (Limited t' sid' f)" by (simp add: live_def)
    then have h: "held b t sid0" by (simp add: live_def held_def)
    from assms(1) l obtain m where "t' = t" "sid' = sid0" "0 < m" "fmlookup (remaining b) sid0 = Some m" by (rule bus_inv_limit)
    then show "t' = t \<and> sid' = sid0 \<and> (\<exists>m>0. fmlookup (remaining (b\<lparr>remaining := fmupd sid n (remaining b)\<rparr>)) sid0 = Some m)"
      using assms(2) h by (cases "sid0 = sid") auto
  qed
  then show ?thesis
    using assms(1) same_row [of "b\<lparr>remaining := fmupd sid n (remaining b)\<rparr>" b]
    by (simp add: bus_inv_def rows_ok_def cache_ok_def queue_ok_def)
qed

lemma spend_fields [simp]:
  "nextID (spend b t sid n) = nextID b" "queue (spend b t sid n) = queue b" "closed (spend b t sid n) = closed b"
  "parallel (spend b t sid n) = parallel b" "dispatchWG (spend b t sid n) = dispatchWG b"
  "remaining (spend b t sid n) = fmupd sid (n - 1) (remaining b)"
  by (simp_all add: spend_def Let_def)

lemma spend_alt:
  "spend b t sid n = (let b1 = (if n = 1 then deleteSubscription b t sid else b)
     in b1\<lparr>remaining := fmupd sid (n - 1) (remaining b1)\<rparr>)"
  by (simp add: spend_def Let_def deleteSubscription_def invalidateHandlerSnapshot_def)

lemma fmlookup_row_spend:
  "fmlookup (row (spend b t sid n) t') sid' = (if n = 1 \<and> t' = t \<and> sid' = sid then None else fmlookup (row b t') sid')"
  by (auto simp: spend_def Let_def row_deleteSubscription)

lemma handler_ok_spend: "handler_ok b h \<Longrightarrow> handler_ok (spend b t sid n) h"
  by (auto simp: handler_ok_def held_def fmlookup_row_spend)

lemma bus_inv_spend:
  assumes "bus_inv b" and "handler_ok b (Limited t sid f)" and "0 < n"
  shows "bus_inv (spend b t sid n)"
proof (cases "n = 1")
  case True
  have "\<not> held (deleteSubscription b t sid) t' sid" for t'
    using assms(2) by (auto simp: handler_ok_def held_deleteSubscription)
  then show ?thesis
    using True bus_inv_remaining [OF bus_inv_deleteSubscription [OF assms(1)], of t sid sid "n - 1"]
    by (simp add: spend_alt)
next
  case False
  then show ?thesis using bus_inv_remaining [OF assms(1), of sid "n - 1"] assms(3) by (simp add: spend_alt)
qed

lemma limited_call:
  "limitedSubscriptionHandler t sid f ctx event (b, w) =
     (case fmlookup (remaining b) sid of
        None \<Rightarrow> ((b, w), Ran None)
      | Some n \<Rightarrow> if n \<le> 0 then ((b, w), Ran None) else callFunc f ctx event (spend b t sid n, w))"
  by (auto simp: limitedSubscriptionHandler_def consumeSubscriptionCall_def spend_def Let_def split: option.splits)

definition runFunc :: "'c \<Rightarrow> ('t, 'p) event \<Rightarrow> ('c, 't, 'p, 'w) HandlerFunc option \<Rightarrow> 'w \<Rightarrow> 'w \<times> gerror option ran" where
  "runFunc ctx event f w = (case f of None \<Rightarrow> (w, Raised nilCall) | Some g \<Rightarrow> g ctx event w)"

lemma callFunc_run: "callFunc f ctx event (b, w) = (case runFunc ctx event f w of (w', r) \<Rightarrow> ((b, w'), r))"
  by (simp add: callFunc_def runFunc_def split: option.splits)

text \<open>Calling any handler keeps the invariant, and whatever was well-formed stays so.\<close>

definition kept :: "('c, 't, 'p, 'w) bus \<Rightarrow> ('c, 't, 'p, 'w) bus \<Rightarrow> bool" where
  "kept b b' \<longleftrightarrow> bus_inv b' \<and> (\<forall>h. handler_ok b h \<longrightarrow> handler_ok b' h) \<and> nextID b' = nextID b \<and> queue b' = queue b
     \<and> closed b' = closed b \<and> parallel b' = parallel b \<and> dispatchWG b' = dispatchWG b"

lemma kept_refl: "bus_inv b \<Longrightarrow> kept b b"
  by (simp add: kept_def)

lemma kept_trans: "kept b b' \<Longrightarrow> kept b' b'' \<Longrightarrow> kept b b''"
  by (auto simp: kept_def)

lemma kept_spend: "bus_inv b \<Longrightarrow> handler_ok b (Limited t sid f) \<Longrightarrow> 0 < n \<Longrightarrow> kept b (spend b t sid n)"
  by (simp add: kept_def bus_inv_spend handler_ok_spend)

lemma callHandler_kept:
  assumes "bus_inv b" and "handler_ok b h" and "callHandler ctx event h (b, w) = ((b', w'), r)"
  shows "kept b b'"
proof (cases h)
  case (Direct f)
  then show ?thesis using assms by (auto simp: callHandler_def callFunc_run kept_refl split: prod.splits)
next
  case (Limited t sid f)
  then show ?thesis
    using assms kept_spend [of b t sid f]
    by (auto simp: callHandler_def limited_call callFunc_run kept_refl split: prod.splits option.splits if_splits)
qed

lemma collect_kept:
  assumes "collect hs (callHandler ctx event) (b, w) = ((b', w'), r)" and "bus_inv b" and "\<forall>h\<in>set hs. handler_ok b h"
  shows "kept b b'"
  using assms
proof (induction hs arbitrary: b w r b' w')
  case (Cons h hs)
  obtain b1 w1 r1 where call: "callHandler ctx event h (b, w) = ((b1, w1), r1)" by (metis surj_pair)
  then have k: "kept b b1" using callHandler_kept Cons.prems by fastforce
  show ?case
  proof (cases r1)
    case (Ran e)
    obtain b2 w2 r2 where rest: "collect hs (callHandler ctx event) (b1, w1) = ((b2, w2), r2)" by (metis surj_pair)
    have "kept b1 b2" using Cons.IH [OF rest] Cons.prems k by (auto simp: kept_def)
    moreover have "b' = b2" using Cons.prems(1) call Ran rest by (cases r2) auto
    ultimately show ?thesis using k kept_trans by blast
  qed (use Cons.prems call k in auto)
qed (auto simp: kept_refl)

subsection \<open>A round of calls\<close>

text \<open>Calling a live handler runs the function of its subscription and spends one call of it; every other
  subscription is left alone.\<close>

lemma callHandler_live:
  assumes inv: "bus_inv b" and l: "live b t sid h" and call: "callHandler ctx event h (b, w) = ((b', w'), r)"
  shows "\<exists>f lim. view b t sid = Some (f, lim) \<and> (w', r) = runFunc ctx event f w"
    and "view b' t' sid' = (if t' = t \<and> sid' = sid then spent (view b t sid) else view b t' sid')"
    and "\<not> (t' = t \<and> sid' = sid) \<Longrightarrow> live b' t' sid' h' = live b t' sid' h'"
proof -
  have "(\<exists>f lim. view b t sid = Some (f, lim) \<and> (w', r) = runFunc ctx event f w)
    \<and> (\<forall>t' sid'. view b' t' sid' = (if t' = t \<and> sid' = sid then spent (view b t sid) else view b t' sid'))
    \<and> (\<forall>t' sid' h'. \<not> (t' = t \<and> sid' = sid) \<longrightarrow> live b' t' sid' h' = live b t' sid' h')"
  proof (cases h)
    case (Direct f)
    then show ?thesis
      using l call by (auto simp: callHandler_def callFunc_run live_def view_def split: prod.splits)
  next
    case (Limited t0 sid0 f)
    with inv l obtain n where lim: "t0 = t" "sid0 = sid" "0 < n" "fmlookup (remaining b) sid = Some n"
      by (blast elim: bus_inv_limit)
    have b': "b' = spend b t sid n" and run: "(w', r) = runFunc ctx event f w"
      using call Limited lim by (auto simp: callHandler_def limited_call callFunc_run split: prod.splits)
    have others: "sid' \<noteq> sid" if "held b t' sid'" "t' \<noteq> t" for t' sid'
      using inv l that by (auto simp: bus_inv_def rows_ok_def live_def held_def)
    have "view b' t' sid' = view b t' sid'" if "\<not> (t' = t \<and> sid' = sid)" for t' sid'
      using that others [of t' sid']
      by (auto simp: b' view_def fmlookup_row_spend held_def split: option.splits handler.splits)
    moreover have "view b' t sid = spent (view b t sid)"
      using l Limited lim by (simp add: b' view_def fmlookup_row_spend live_def)
    moreover have "view b t sid = Some (f, Some n)" using l Limited lim by (simp add: view_def live_def)
    ultimately show ?thesis using run by (auto simp: b' live_def fmlookup_row_spend)
  qed
  then show "\<exists>f lim. view b t sid = Some (f, lim) \<and> (w', r) = runFunc ctx event f w"
    and "view b' t' sid' = (if t' = t \<and> sid' = sid then spent (view b t sid) else view b t' sid')"
    and "\<not> (t' = t \<and> sid' = sid) \<Longrightarrow> live b' t' sid' h' = live b t' sid' h'" by blast+
qed

lemma live_handler_ok: "bus_inv b \<Longrightarrow> live b t sid h \<Longrightarrow> handler_ok b h"
  unfolding handler_ok_def
  by (metis (no_types, lifting) bus_inv_def bus_inv_limit held_def live_def option.distinct(1) rows_ok_def)

text \<open>The functions of the subscriptions \<open>ids\<close> of type \<open>t\<close>, run one after the other.\<close>

definition targets :: "('c, 't, 'p, 'w) bus \<Rightarrow> 't \<Rightarrow> nat list \<Rightarrow> ('c, 't, 'p, 'w) HandlerFunc option list" where
  "targets b t ids = map (\<lambda>sid. fst (the (view b t sid))) ids"

definition handlers_of :: "('c, 't, 'p, 'w) bus \<Rightarrow> 't \<Rightarrow> nat list \<Rightarrow> ('c, 't, 'p, 'w) handler list" where
  "handlers_of b t ids = map (\<lambda>sid. the (the (fmlookup (row b t) sid))) ids"

lemma handlers_of_simps [simp]:
  "handlers_of b t [] = []"
  "handlers_of b t (sid # ids) = the (the (fmlookup (row b t) sid)) # handlers_of b t ids"
  by (simp_all add: handlers_of_def)

lemma targets_simps [simp]: "targets b t [] = []" "targets b t (sid # ids) = fst (the (view b t sid)) # targets b t ids"
  by (simp_all add: targets_def)

lemma collect_live:
  assumes "bus_inv b" and "distinct ids" and "\<forall>sid\<in>set ids. \<exists>h. live b t sid h"
    and "collect (handlers_of b t ids) (callHandler ctx event) (b, w) = ((b', w'), r)"
  shows "(w', r) = collect (targets b t ids) (runFunc ctx event) w
    \<and> ((\<exists>es. r = Ran es) \<longrightarrow> (\<forall>t' sid. view b' t' sid = (if t' = t \<and> sid \<in> set ids then spent (view b t sid) else view b t' sid)))"
  using assms
proof (induction ids arbitrary: b w r b' w')
  case (Cons sid ids)
  then obtain h where l: "live b t sid h" by auto
  then have h: "the (the (fmlookup (row b t) sid)) = h" by (simp add: live_def)
  obtain b1 w1 r1 where call: "callHandler ctx event h (b, w) = ((b1, w1), r1)" by (metis surj_pair)
  note one = callHandler_live [OF Cons.prems(1) l call]
  obtain f lim where f: "view b t sid = Some (f, lim)" "(w1, r1) = runFunc ctx event f w" using one(1) by blast
  have inv1: "bus_inv b1" using callHandler_kept [OF Cons.prems(1) live_handler_ok [OF Cons.prems(1) l] call] by (simp add: kept_def)
  have same: "live b1 t sid' = live b t sid'" "view b1 t sid' = view b t sid'" if "sid' \<in> set ids" for sid'
    using that Cons.prems(2) one(2) [of t sid'] one(3) [of t sid'] by (auto simp: fun_eq_iff)
  have live1: "\<forall>sid'\<in>set ids. \<exists>h. live b1 t sid' h" using same Cons.prems(3) by auto
  have hs1: "handlers_of b1 t ids = handlers_of b t ids"
    unfolding handlers_of_def
  proof (rule map_cong [OF refl])
    fix sid' assume s: "sid' \<in> set ids"
    then obtain h' where "live b t sid' h'" using Cons.prems(3) by auto
    with same(1) [OF s] show "the (the (fmlookup (row b1 t) sid')) = the (the (fmlookup (row b t) sid'))"
      by (metis live_def)
  qed
  have ts1: "targets b1 t ids = targets b t ids" using same(2) by (simp add: targets_def)
  show ?case
  proof (cases r1)
    case (Raised p)
    then show ?thesis
      using Cons.prems(4) call h f(1) f(2) [symmetric] by auto
  next
    case (Ran e)
    obtain b2 w2 r2 where rest: "collect (handlers_of b1 t ids) (callHandler ctx event) (b1, w1) = ((b2, w2), r2)" by (metis surj_pair)
    note IH = Cons.IH [OF inv1 _ live1 rest]
    have out: "b' = b2" "w' = w2" "r = (case r2 of Raised p \<Rightarrow> Raised p | Ran rs \<Rightarrow> Ran (case e of None \<Rightarrow> rs | Some x \<Rightarrow> x # rs))"
      using Cons.prems(4) call h Ran rest hs1 by (auto split: ran.splits)
    have "(w', r) = collect (targets b t (sid # ids)) (runFunc ctx event) w"
      using IH Cons.prems(2) f(1) f(2) [symmetric] Ran out ts1 by (auto split: ran.splits prod.splits)
    moreover have "view b' t' s = (if t' = t \<and> s \<in> set (sid # ids) then spent (view b t s) else view b t' s)"
      if "\<exists>es. r = Ran es" for t' s
    proof -
      have "\<exists>es. r2 = Ran es" using that out(3) by (cases r2) auto
      then have "view b2 t' s = (if t' = t \<and> s \<in> set ids then spent (view b1 t s) else view b1 t' s)"
        using IH Cons.prems(2) by auto
      then show ?thesis using one(2) [of t' s] same(2) [of s] Cons.prems(2) out(1) by auto
    qed
    ultimately show ?thesis by blast
  qed
qed simp

lemma map_of_perm:
  assumes "mset ys = mset (map f xs)"
  shows "\<exists>xs'. ys = map f xs' \<and> mset xs' = mset xs"
  using assms
proof (induction xs arbitrary: ys)
  case (Cons x xs)
  then have "f x \<in> set ys" by (metis list.set_intros(1) list.simps(9) mset_eq_setD)
  then obtain as bs where ys: "ys = as @ f x # bs" by (metis split_list)
  with Cons.prems have "mset (as @ bs) = mset (map f xs)" by simp
  then obtain xs' where "as @ bs = map f xs'" "mset xs' = mset xs" using Cons.IH by blast
  then have "as = map f (take (length as) xs')" "bs = map f (drop (length as) xs')"
    by (metis append_eq_conv_conj take_map, metis append_eq_conv_conj drop_map)
  with ys have "ys = map f (take (length as) xs' @ x # drop (length as) xs')" by simp
  moreover have "mset (take (length as) xs' @ x # drop (length as) xs') = mset (x # xs)"
    using \<open>mset xs' = mset xs\<close> by (metis append_take_drop_id mset.simps(2) mset_append union_mset_add_mset_right)
  ultimately show ?case by blast
qed simp

subsection \<open>Publishing\<close>

text \<open>A snapshot, cached or fresh, is the handlers of exactly the live subscriptions.\<close>

lemma snapshotRead_live:
  assumes "iterates ks (row b t)"
  shows "\<exists>ids. distinct ids \<and> set ids = {sid. \<exists>h. live b t sid h} \<and> snapshotRead b t ks = handlers_of b t ids"
proof (intro exI conjI)
  show "snapshotRead b t ks = handlers_of b t (filter (\<lambda>sid. \<exists>h. live b t sid h) ks)"
    using snapshotRead_ids [OF assms] by (simp add: handlers_of_def)
  show "set (filter (\<lambda>sid. \<exists>h. live b t sid h) ks) = {sid. \<exists>h. live b t sid h}"
    using assms by (auto simp: iterates_def live_def fmlookup_dom'_iff)
qed (use assms in \<open>simp add: iterates_def\<close>)

lemma bus_inv_frame:
  assumes "bus_inv b"
  shows "bus_inv (b\<lparr>dispatchWG := n\<rparr>)" "bus_inv (b\<lparr>closed := c\<rparr>)"
    "\<forall>task\<in>set q. \<forall>h\<in>set (task_handlers task). handler_ok b h \<Longrightarrow> bus_inv (b\<lparr>queue := q\<rparr>)"
  using assms same_row [of "b\<lparr>dispatchWG := n\<rparr>" b] same_row [of "b\<lparr>closed := c\<rparr>" b] same_row [of "b\<lparr>queue := q\<rparr>" b]
  by (simp_all add: bus_inv_def rows_ok_def limits_ok_def cache_ok_def queue_ok_def)

lemma view_cong: "row b' = row b \<Longrightarrow> remaining b' = remaining b \<Longrightarrow> view b' = view b"
  by (intro ext) (simp add: view_def split: option.split handler.split)

lemma snapshotStore_inv:
  assumes "bus_inv b" and "iterates ks (row b t)"
  shows "bus_inv (snapshotStore b t (snapshotRead b t ks))"
proof -
  let ?b = "snapshotStore b t (snapshotRead b t ks)"
  have row: "row ?b = row b" by (simp add: snapshotStore_def)
  have "cache_ok ?b"
    using assms same_row(3) [OF row] row by (auto simp: cache_ok_def bus_inv_def snapshotStore_def)
  then show ?thesis
    using assms(1) same_row [OF row]
    by (simp add: bus_inv_def rows_ok_def limits_ok_def queue_ok_def snapshotStore_def)
qed

lemma snapshot_spec:
  assumes "bus_inv b" and "iterates ks (row b t)" and "snapshotHandlersByEventType b t ks = (b', hs)"
  shows "bus_inv b' \<and> row b' = row b \<and> remaining b' = remaining b \<and> nextID b' = nextID b \<and> closed b' = closed b
    \<and> parallel b' = parallel b \<and> queue b' = queue b \<and> dispatchWG b' = dispatchWG b
    \<and> (\<exists>ids. distinct ids \<and> set ids = {sid. \<exists>h. live b t sid h} \<and> hs = handlers_of b t ids)"
proof (cases "fmlookup (handlerCache b) t")
  case (Some cached)
  then obtain ks' where "iterates ks' (row b t)" "cached = snapshotRead b t ks'"
    using assms(1) by (auto simp: bus_inv_def cache_ok_def)
  then show ?thesis using assms Some snapshotRead_live [of ks' b t] by (auto simp: snapshotHandlersByEventType_def)
next
  case None
  show ?thesis
  proof (cases "row b t = fmempty")
    case True
    then show ?thesis
      using assms None by (auto simp: snapshotHandlersByEventType_def live_def handlers_of_def intro: exI [of _ "[]"])
  next
    case False
    then show ?thesis
      using assms None snapshotRead_live [OF assms(2)] snapshotStore_inv [OF assms(1,2)]
      by (auto simp: snapshotHandlersByEventType_def Let_def) (simp_all add: snapshotStore_def)
  qed
qed

lemma view_live: "view b t sid \<noteq> None \<longleftrightarrow> (\<exists>h. live b t sid h)"
  by (auto simp: view_def live_def split: option.splits handler.splits)

lemma joined_nothing: "joined (s, Ran []) = (s, Ran None)"
  by (simp add: joined_def joinErrors_def)

lemma dispatch_collect:
  assumes "event_env_ok E"
  shows "dispatch E perm ctx event hs s =
    joined (collect (if parallel (fst s) \<and> hs \<noteq> [] then perm hs else hs) (callHandler (StartSpan E ctx ''eventx.dispatch'') event) s)"
  using assms
  by (cases s; cases "hs = []") (simp_all add: dispatch_def dispatchParallel_def dispatchSerial_def event_env_ok_def joined_nothing Let_def)

lemma publishSync_spec:
  assumes E: "event_env_ok E" and inv: "bus_inv b" and ks: "iterates ks (row b (ev_type event))"
    and perm: "\<forall>hs. mset (perm hs) = mset hs" and opened: "\<not> closed b"
    and pub: "publishSync E perm ks ctx event (b, w) = ((b', w'), r)"
  shows "kept b b' \<and> (\<exists>ids. distinct ids \<and> set ids = {sid. view b (ev_type event) sid \<noteq> None}
    \<and> (w', r) = joined (collect (targets b (ev_type event) ids)
          (runFunc (StartSpan E (ev_normalizeContext E ctx) ''eventx.dispatch'') event) w)
    \<and> ((\<exists>err. r = Ran err) \<longrightarrow>
        (\<forall>t sid. view b' t sid = (if t = ev_type event then spent (view b t sid) else view b t sid))))"
proof -
  let ?t = "ev_type event" and ?c = "StartSpan E (ev_normalizeContext E ctx) ''eventx.dispatch''"
  define b0 where "b0 = b\<lparr>dispatchWG := dispatchWG b + 1\<rparr>"
  have inv0: "bus_inv b0" and row0: "row b0 = row b" using inv by (simp_all add: b0_def bus_inv_frame)
  obtain b1 hs where snap: "snapshotHandlersByEventType b0 ?t ks = (b1, hs)" by (metis surj_pair)
  obtain ids where ids: "distinct ids" "set ids = {sid. \<exists>h. live b0 ?t sid h}" "hs = handlers_of b0 ?t ids"
    and inv1: "bus_inv b1" and row1: "row b1 = row b0" and rem1: "remaining b1 = remaining b0"
    and keep: "nextID b1 = nextID b0" "closed b1 = closed b0" "parallel b1 = parallel b0" "queue b1 = queue b0"
      "dispatchWG b1 = dispatchWG b0"
    using snapshot_spec [OF inv0 _ snap] ks row0 by auto
  define order where "order = (if parallel b1 \<and> hs \<noteq> [] then perm hs else hs)"
  have "mset order = mset (map (\<lambda>sid. the (the (fmlookup (row b0 ?t) sid))) ids)"
    using perm ids(3) by (simp add: order_def handlers_of_def)
  then obtain ids' where order: "order = handlers_of b1 ?t ids'" and ids': "mset ids' = mset ids"
    using map_of_perm row1 by (fastforce simp: handlers_of_def)
  have set': "distinct ids'" "set ids' = {sid. view b ?t sid \<noteq> None}"
    using ids(1,2) mset_eq_imp_distinct_iff [OF ids'] mset_eq_setD [OF ids'] same_row(1) [OF row0]
    unfolding view_live by simp_all
  have live1: "\<forall>sid\<in>set ids'. \<exists>h. live b1 ?t sid h"
    using ids(2) mset_eq_setD [OF ids'] same_row(1) [OF row1] by simp
  have views: "view b1 = view b" using view_cong [OF row1 rem1] view_cong [OF row0] by (simp add: b0_def)
  obtain b2 w2 r2 where run: "collect order (callHandler ?c event) (b1, w) = ((b2, w2), r2)" by (metis surj_pair)
  note res = collect_live [OF inv1 set'(1) live1 run [unfolded order]]
  have begun: "beginDispatch b = (b0, True)" using opened by (simp add: beginDispatch_def b0_def)
  have disp: "dispatch E perm (ev_normalizeContext E ctx) event hs (b1, w) = joined ((b2, w2), r2)"
    using run by (simp add: dispatch_collect [OF E] order_def)
  have out: "b' = doneDispatch b2" "(w', r) = joined (w2, r2)"
    using pub snap begun disp by (cases r2; auto simp: publishSync_def joined_def)+
  have "\<forall>h\<in>set order. handler_ok b1 h"
  proof
    fix h assume "h \<in> set order"
    then obtain sid where "sid \<in> set ids'" "h = the (the (fmlookup (row b1 ?t) sid))" by (auto simp: order handlers_of_def)
    with live1 have "live b1 ?t sid h" by (auto simp: live_def)
    then show "handler_ok b1 h" by (rule live_handler_ok [OF inv1])
  qed
  from collect_kept [OF run inv1 this] have "kept b1 b2" .
  then have "kept b b'"
    using keep row1 row0 same_row(4) [of b1 b] same_row(4) [of "doneDispatch b2" b2]
    by (auto simp: kept_def out doneDispatch_def bus_inv_frame b0_def)
  moreover have "(w', r) = joined (collect (targets b ?t ids') (runFunc ?c event) w)"
    using res out views by (simp add: targets_def)
  moreover have "view b' t sid = (if t = ?t then spent (view b t sid) else view b t sid)" if "\<exists>err. r = Ran err" for t sid
  proof -
    have "view b' = view b2" by (rule view_cong) (simp_all add: out doneDispatch_def)
    moreover have "\<exists>es. r2 = Ran es" using that out(2) by (cases r2) (auto simp: joined_def)
    ultimately have "view b' t sid = (if t = ?t \<and> sid \<in> set ids' then spent (view b t sid) else view b t sid)"
      using res views by auto
    then show ?thesis using set'(2) by (cases "view b t sid") auto
  qed
  ultimately show ?thesis using set' by blast
qed

subsection \<open>Subscribing\<close>

text \<open>The subscription that \<open>subscribe\<close> makes of a chained handler.\<close>

definition granted :: "'f option \<Rightarrow> int \<Rightarrow> ('f option \<times> int option) option" where
  "granted f maxCalls = (if 0 < maxCalls then Some (f, Some maxCalls) else map_option (\<lambda>g. (Some g, None)) f)"

lemma bus_inv_register:
  fixes b :: "('c, 't, 'p, 'w) bus"
  assumes inv: "bus_inv b" and row': "\<And>t'. row b' t' = (if t' = t then fmupd (nextID b + 1) hdl (row b t) else row b t')"
    and nid: "nextID b' = nextID b + 1" and cache: "handlerCache b' = fmdrop t (handlerCache b)" and q: "queue b' = queue b"
    and hdl: "hdl = None \<or> (\<exists>g. hdl = Some (Direct g)) \<or> (\<exists>f n. hdl = Some (Limited t (nextID b + 1) f) \<and> 0 < n \<and> fmlookup (remaining b') (nextID b + 1) = Some n)"
    and rem: "\<And>sid. sid \<le> nextID b \<Longrightarrow> fmlookup (remaining b') sid = fmlookup (remaining b) sid"
  shows "bus_inv b'"
proof -
  let ?id = "nextID b + 1"
  have fresh: "sid \<le> nextID b" if "held b t' sid" for t' sid using inv that by (simp add: bus_inv_def rows_ok_def)
  have held': "held b' t' sid \<longleftrightarrow> held b t' sid \<or> t' = t \<and> sid = ?id" for t' sid
    using fresh [of t' sid] by (auto simp: held_def row')
  have live': "live b' t' sid h \<longleftrightarrow> (if t' = t \<and> sid = ?id then hdl = Some h else live b t' sid h)" for t' sid h
    by (auto simp: live_def row')
  have "rows_ok b'"
    using inv fresh unfolding bus_inv_def rows_ok_def held' nid by fastforce
  moreover have "limits_ok b'"
    unfolding limits_ok_def
  proof (intro allI impI)
    fix t' sid t0 sid0 f
    assume l: "live b' t' sid (Limited t0 sid0 f)"
    show "t0 = t' \<and> sid0 = sid \<and> (\<exists>n>0. fmlookup (remaining b') sid = Some n)"
    proof (cases "t' = t \<and> sid = ?id")
      case True
      then show ?thesis using l hdl by (auto simp: live')
    next
      case False
      then have old: "live b t' sid (Limited t0 sid0 f)" using l by (auto simp: live' split: if_splits)
      then have "sid \<le> nextID b" using fresh [of t' sid] by (simp add: live_def held_def)
      from inv old obtain n where "t0 = t'" "sid0 = sid" "0 < n" "fmlookup (remaining b) sid = Some n" by (rule bus_inv_limit)
      then show ?thesis using rem [OF \<open>sid \<le> nextID b\<close>] by auto
    qed
  qed
  moreover have "cache_ok b'"
    unfolding cache_ok_def
  proof (intro allI impI)
    fix t' hs
    assume "fmlookup (handlerCache b') t' = Some hs"
    then have other: "t' \<noteq> t" "fmlookup (handlerCache b) t' = Some hs" by (auto simp: cache split: if_splits)
    then obtain ks where "iterates ks (row b t')" "hs = snapshotRead b t' ks" using inv by (auto simp: bus_inv_def cache_ok_def)
    then show "\<exists>ks. iterates ks (row b' t') \<and> hs = snapshotRead b' t' ks"
      using other(1) row' snapshotRead_row [of b t' b'] by auto
  qed
  moreover have "handler_ok b' h" if "handler_ok b h" for h
    using that by (auto simp: handler_ok_def held' nid)
  then have "queue_ok b'" using inv by (auto simp: bus_inv_def queue_ok_def q)
  ultimately show ?thesis by (simp add: bus_inv_def)
qed

lemma subscribe_spec:
  assumes inv: "bus_inv b" and sub: "subscribe E (Some b) t base mws maxCalls = (b', res)"
  shows "if closed b then b' = Some b \<and> res = Inl ErrBusClosed
    else \<exists>b1. b' = Some b1 \<and> res = Inr (nextID b + 1) \<and> bus_inv b1 \<and> closed b1 = closed b \<and> view b t (nextID b + 1) = None
      \<and> (\<forall>t' sid. view b1 t' sid = (if t' = t \<and> sid = nextID b + 1
            then granted (subscriptionHandler E b (Some base) mws) maxCalls else view b t' sid))"
proof (cases "closed b")
  case True
  then show ?thesis using sub by (auto simp: subscribe_def registerSubscription_def)
next
  case False
  let ?id = "nextID b + 1" and ?f = "subscriptionHandler E b (Some base) mws"
  define h where "h = subscriptionDispatchHandler t ?id ?f maxCalls"
  define b1 where "b1 = b\<lparr>nextID := ?id, subsByType := fmupd t (fmupd ?id h (row b t)) (subsByType b),
    handlerCache := fmdrop t (handlerCache b), remaining := (if 0 < maxCalls then fmupd ?id maxCalls (remaining b) else remaining b)\<rparr>"
  have out: "b' = Some b1" "res = Inr ?id"
    using sub False by (auto simp: subscribe_def registerSubscription_def invalidateHandlerSnapshot_def h_def b1_def Let_def)
  have row': "row b1 t' = (if t' = t then fmupd ?id h (row b t) else row b t')" for t' by (auto simp: b1_def row_def)
  have rem1: "remaining b1 = (if 0 < maxCalls then fmupd ?id maxCalls (remaining b) else remaining b)" by (simp add: b1_def)
  have "bus_inv b1"
    by (rule bus_inv_register [OF inv row'])
      (auto simp: b1_def h_def subscriptionDispatchHandler_def)
  moreover have fresh: "fmlookup (row b t') ?id = None" for t'
    using inv by (force simp: bus_inv_def rows_ok_def held_def)
  have "view b1 t' sid = (if t' = t \<and> sid = ?id then granted ?f maxCalls else view b t' sid)" for t' sid
  proof (cases "sid = ?id")
    case True
    then show ?thesis
      using fresh [of t'] by (cases ?f) (auto simp: view_def row' rem1 granted_def h_def subscriptionDispatchHandler_def)
  next
    case False
    then show ?thesis by (auto simp: view_def row' rem1 split: option.split handler.split)
  qed
  moreover have "view b t ?id = None" using fresh [of t] by (simp add: view_def)
  ultimately show ?thesis using False out by (simp add: b1_def)
qed

subsection \<open>Histories\<close>

text \<open>The states of a bus whose calls run one after the other: any sequence of calls, each with some iteration
  order of the row it reads, some order of parallel handlers and some answer of the pool. A handler that
  panics ends its call but not the history. Publishers may also overlap in filling the cache
  (\<open>reach_Store\<close>): one stores the snapshot it read earlier, provided the row is still what it read. Without
  that proviso a state need not be reached here: that is the race at the end of this theory.\<close>

inductive bus_reach :: "('c, 't, 'p, 'w) event_env \<Rightarrow> ('c, 't, 'p, 'w) bus \<Rightarrow> 'w \<Rightarrow> bool" for E where
  reach_New: "bus_reach E (NewBus poolErr cfg) w"
| reach_Subscribe: "bus_reach E b w \<Longrightarrow> Subscribe E (Some b) t h mws = (Some b', res) \<Longrightarrow> bus_reach E b' w"
| reach_SubscribeN: "bus_reach E b w \<Longrightarrow> SubscribeN E (Some b) t n h mws = (Some b', res) \<Longrightarrow> bus_reach E b' w"
| reach_Unsubscribe: "bus_reach E b w \<Longrightarrow> unsubscribeFunc fired b t sid = (fired', b') \<Longrightarrow> bus_reach E b' w"
| reach_Publish: "bus_reach E b w \<Longrightarrow> iterates ks (row b (ev_type event)) \<Longrightarrow> \<forall>hs. mset (perm hs) = mset hs
     \<Longrightarrow> Bus_Publish E perm ks ctx (Some event) (Some b) w = (Some b', w', r) \<Longrightarrow> bus_reach E b' w'"
| reach_PublishAsync: "bus_reach E b w \<Longrightarrow> iterates ks (row b (ev_type event)) \<Longrightarrow> \<forall>hs. mset (perm hs) = mset hs
     \<Longrightarrow> Bus_PublishAsync E perm ks accept ctx (Some event) (Some b) w = (Some b', w', r) \<Longrightarrow> bus_reach E b' w'"
| reach_Task: "bus_reach E b w \<Longrightarrow> \<forall>hs. mset (perm hs) = mset hs \<Longrightarrow> runTask E perm i (b, w) = ((b', w'), r) \<Longrightarrow> bus_reach E b' w'"
| reach_Store: "bus_reach E b w \<Longrightarrow> iterates ks (row earlier t) \<Longrightarrow> row earlier t = row b t
     \<Longrightarrow> bus_reach E (snapshotStore b t (snapshotRead earlier t ks)) w"
| reach_Close: "bus_reach E b w \<Longrightarrow> closeMark b = (b', go) \<Longrightarrow> bus_reach E b' w"

lemma bus_inv_NewBus: "bus_inv (NewBus poolErr cfg)"
  by (simp add: bus_inv_def rows_ok_def limits_ok_def cache_ok_def queue_ok_def NewBus_def held_def live_def row_def)

lemma bus_inv_subscribe:
  "bus_inv b \<Longrightarrow> subscribe E (Some b) t base mws n = (Some b', res) \<Longrightarrow> bus_inv b'"
  using subscribe_spec [of b E t base mws n "Some b'" res] by (auto split: if_splits)

lemma Publish_unfold:
  "Bus_Publish E perm ks ctx (Some event) (Some b) w = (Some b', w', r) \<longleftrightarrow>
     publishSync E perm ks ctx event (b, w) = ((b', w'), r)"
  by (auto simp: Bus_Publish_def validatePublishRequest_def split: prod.splits)

lemma bus_inv_publishSync:
  assumes "event_env_ok E" and "bus_inv b" and "iterates ks (row b (ev_type event))" and "\<forall>hs. mset (perm hs) = mset hs"
    and "publishSync E perm ks ctx event (b, w) = ((b', w'), r)"
  shows "bus_inv b'"
proof (cases "closed b")
  case True
  then show ?thesis using assms(2,5) by (auto simp: publishSync_def beginDispatch_def)
next
  case False
  then show ?thesis using publishSync_spec [OF assms(1-4) False assms(5)] by (simp add: kept_def)
qed

lemma bus_inv_submit:
  assumes "bus_inv b" and "\<forall>h\<in>set hs. handler_ok b h" and "submitAsyncTask E accept ctx event hs b = (b', err)"
  shows "bus_inv b'"
proof (cases "closed b")
  case True
  then show ?thesis using assms by (auto simp: submitAsyncTask_def beginDispatch_def)
next
  case False
  define b0 where "b0 = b\<lparr>dispatchWG := dispatchWG b + 1\<rparr>"
  have inv0: "bus_inv b0" and ok0: "handler_ok b0 = handler_ok b"
    using assms(1) same_row(4) [of b0 b] by (simp_all add: b0_def bus_inv_frame)
  have "bus_inv (b0\<lparr>queue := queue b0 @ [\<lparr>task_ctx = ctx, task_event = event, task_handlers = hs\<rparr>]\<rparr>)"
    using inv0 ok0 assms(2) by (intro bus_inv_frame(3)) (auto simp: bus_inv_def queue_ok_def)
  moreover have "beginDispatch b = (b0, True)" using False by (simp add: beginDispatch_def b0_def)
  ultimately show ?thesis
    using assms(3) inv0 by (auto simp: submitAsyncTask_def doneDispatch_def bus_inv_frame split: option.splits)
qed

lemma bus_inv_PublishAsync:
  assumes "event_env_ok E" and "bus_inv b" and "iterates ks (row b (ev_type event))" and "\<forall>hs. mset (perm hs) = mset hs"
    and pub: "Bus_PublishAsync E perm ks accept ctx (Some event) (Some b) w = (Some b', w', r)"
  shows "bus_inv b'"
proof -
  obtain b1 hs where snap: "snapshotHandlersByEventType b (ev_type event) ks = (b1, hs)" by (metis surj_pair)
  note s = snapshot_spec [OF assms(2,3) snap]
  then have inv1: "bus_inv b1" and row1: "row b1 = row b" by simp_all
  have "\<forall>h\<in>set hs. handler_ok b1 h"
  proof
    fix h assume "h \<in> set hs"
    then obtain sid where "live b (ev_type event) sid h" using s by (auto simp: handlers_of_def live_def)
    then have "live b1 (ev_type event) sid h" using same_row(1) [OF row1] by simp
    then show "handler_ok b1 h" by (rule live_handler_ok [OF inv1])
  qed
  then show ?thesis
    using pub snap inv1 row1 assms(3) bus_inv_submit [OF inv1, of hs E accept] bus_inv_publishSync [OF assms(1) inv1 _ assms(4)]
    by (auto simp: Bus_PublishAsync_def validatePublishRequest_def Let_def Publish_unfold split: option.splits if_splits prod.splits)
qed

lemma bus_inv_runTask:
  assumes E: "event_env_ok E" and inv: "bus_inv b" and perm: "\<forall>hs. mset (perm hs) = mset hs"
    and run: "runTask E perm i (b, w) = ((b', w'), r)"
  shows "bus_inv b'"
proof (cases "length (queue b) \<le> i")
  case False
  define b0 where "b0 = b\<lparr>queue := take i (queue b) @ drop (i + 1) (queue b)\<rparr>"
  have task: "\<forall>task\<in>set (queue b). \<forall>h\<in>set (task_handlers task). handler_ok b h" using inv by (simp add: bus_inv_def queue_ok_def)
  have ok0: "handler_ok b0 = handler_ok b" using same_row(4) [of b0 b] by (simp add: b0_def)
  have inv0: "bus_inv b0"
    unfolding b0_def using task by (intro bus_inv_frame(3) [OF inv]) (auto dest: in_set_takeD in_set_dropD)
  let ?task = "queue b ! i"
  let ?order = "if parallel b0 \<and> task_handlers ?task \<noteq> [] then perm (task_handlers ?task) else task_handlers ?task"
  have "mset ?order = mset (task_handlers ?task)" using perm by simp
  then have order_set: "set ?order = set (task_handlers ?task)" by (rule mset_eq_setD)
  have "?task \<in> set (queue b)" using False by simp
  then have oks: "\<forall>h\<in>set ?order. handler_ok b0 h" unfolding order_set ok0 using task by blast
  obtain b1 w1 r1 where c: "collect ?order (callHandler (StartSpan E (task_ctx ?task) ''eventx.dispatch'') (task_event ?task)) (b0, w) = ((b1, w1), r1)"
    by (metis surj_pair)
  from collect_kept [OF c inv0 oks] have "bus_inv b1" by (simp add: kept_def)
  moreover have "dispatch E perm (task_ctx ?task) (task_event ?task) (task_handlers ?task) (b0, w) = joined ((b1, w1), r1)"
    using c by (simp add: dispatch_collect [OF E])
  then have "fst (fst (executeTask E perm ?task (b0, w))) = b1"
    by (cases r1) (auto simp: executeTask_def joined_def split: option.splits)
  then have "b' = doneDispatch b1"
    using run False by (auto simp: runTask_def Let_def b0_def split: prod.splits)
  ultimately show ?thesis by (simp add: doneDispatch_def bus_inv_frame)
qed (use run inv in \<open>simp add: runTask_def Let_def\<close>)

lemma bus_reach_inv:
  assumes "event_env_ok E" and "bus_reach E b w"
  shows "bus_inv b"
  using assms(2)
proof (induction rule: bus_reach.induct)
  case (reach_Subscribe b w t h mws b' res)
  then show ?case by (auto simp: Subscribe_def split: option.splits if_splits intro: bus_inv_subscribe)
next
  case (reach_SubscribeN b w t n h mws b' res)
  then show ?case by (auto simp: SubscribeN_def split: option.splits if_splits intro: bus_inv_subscribe)
next
  case (reach_Unsubscribe b w fired t sid fired' b')
  then show ?case by (auto simp: unsubscribeFunc_def bus_inv_deleteSubscription split: if_splits)
next
  case (reach_Publish b w ks event perm ctx b' w' r)
  then show ?case using bus_inv_publishSync [OF assms(1)] by (simp add: Publish_unfold)
next
  case (reach_PublishAsync b w ks event perm accept ctx b' w' r)
  then show ?case using bus_inv_PublishAsync [OF assms(1)] by blast
next
  case (reach_Task b w perm i b' w' r)
  then show ?case using bus_inv_runTask [OF assms(1)] by blast
next
  case (reach_Store b w ks earlier t)
  then show ?case using snapshotStore_inv [of b ks t] snapshotRead_row [of earlier t b ks] by simp
next
  case (reach_Close b w b' go)
  then show ?case by (auto simp: closeMark_def bus_inv_frame split: if_splits)
qed (simp add: bus_inv_NewBus)

subsection \<open>What the bus promises\<close>

text \<open>
  C11. On an open bus that was reached by calls one after the other, a publish that no other call
  interrupts runs the function of every live subscription of the event's type exactly once, in some order,
  and no other, whether it finds a snapshot in the cache or reads the row; its result is the join of their
  errors. A handler that panics ends the round. If none does, each of these subscriptions has then spent
  one call (a limited one is gone after its last) and all others are as before. Calls that overlap are
  covered as far as publishers store snapshots late of a row that has not changed since; a subscription
  that comes in between is lost: the race at the end of this theory.
\<close>

theorem publish_delivers_once:
  assumes "event_env_ok E" and "bus_reach E b w" and "\<not> closed b" and "iterates ks (row b (ev_type event))"
    and "\<forall>hs. mset (perm hs) = mset hs" and "Bus_Publish E perm ks ctx (Some event) (Some b) w = (Some b', w', r)"
  shows "\<exists>ids. distinct ids \<and> set ids = {sid. view b (ev_type event) sid \<noteq> None}
    \<and> (w', r) = joined (collect (targets b (ev_type event) ids)
          (runFunc (StartSpan E (ev_normalizeContext E ctx) ''eventx.dispatch'') event) w)
    \<and> ((\<exists>err. r = Ran err) \<longrightarrow>
        (\<forall>t sid. view b' t sid = (if t = ev_type event then spent (view b t sid) else view b t sid)))"
  using publishSync_spec [OF assms(1) bus_reach_inv [OF assms(1,2)] assms(4,5,3)] assms(6) by (simp add: Publish_unfold)

text \<open>
  Subscribing and unsubscribing act on the registry of subscriptions alone: on an open bus a new
  subscription appears under a fresh id with the middleware chained around its handler and its calls
  counted from the limit asked for; unsubscribing removes the one it names; a closed bus takes no
  subscription.
\<close>

theorem subscriptions_registry:
  assumes "event_env_ok E" and "bus_reach E b w"
  shows "(closed b \<longrightarrow> SubscribeN E (Some b) t (int n + 1) (Some h) mws = (Some b, Inl ErrBusClosed)) \<and>
    (\<not> closed b \<longrightarrow> (\<exists>b1. SubscribeN E (Some b) t (int n + 1) (Some h) mws = (Some b1, Inr (nextID b + 1))
       \<and> (\<forall>t'. view b t' (nextID b + 1) = None)
       \<and> (\<forall>t' sid. view b1 t' sid = (if t' = t \<and> sid = nextID b + 1
            then Some (subscriptionHandler E b (Some (typedEventHandler E t h)) mws, Some (int n + 1)) else view b t' sid)))) \<and>
    (\<forall>t' sid'. view (snd (unsubscribeFunc False b t sid)) t' sid' = (if t' = t \<and> sid' = sid then None else view b t' sid'))"
proof -
  note inv = bus_reach_inv [OF assms]
  obtain b1 res where sub: "subscribe E (Some b) t (typedEventHandler E t h) mws (int n + 1) = (b1, res)" by (metis surj_pair)
  then have subN: "SubscribeN E (Some b) t (int n + 1) (Some h) mws = (b1, res)" by (simp add: SubscribeN_def)
  have fresh: "view b t' (nextID b + 1) = None" for t'
  proof -
    have "\<not> held b t' (nextID b + 1)" using inv by (force simp: bus_inv_def rows_ok_def)
    then show ?thesis by (simp add: view_def held_def)
  qed
  have "view (snd (unsubscribeFunc False b t sid)) t' sid' = (if t' = t \<and> sid' = sid then None else view b t' sid')" for t' sid'
    by (auto simp: unsubscribeFunc_def view_def row_deleteSubscription split: option.split handler.split)
  moreover have "closed b \<longrightarrow> b1 = Some b \<and> res = Inl ErrBusClosed"
    using subscribe_spec [OF inv sub] by simp
  moreover have "\<not> closed b \<longrightarrow> (\<exists>b2. b1 = Some b2 \<and> res = Inr (nextID b + 1) \<and> (\<forall>t' sid. view b2 t' sid = (if t' = t \<and> sid = nextID b + 1
      then Some (subscriptionHandler E b (Some (typedEventHandler E t h)) mws, Some (int n + 1)) else view b t' sid)))"
    using subscribe_spec [OF inv sub] by (auto simp: granted_def)
  ultimately show ?thesis using subN fresh by auto
qed

text \<open>A bus of strings with a counter as the subscribers' world, and one handler that adds.\<close>

definition demo_events :: "(unit, string, int, int) event_env" where
  "demo_events = \<lparr>bgContext = (), StartSpan = \<lambda>c _. c, wrapf = \<lambda>m e. Wrapped m e, errorf = Sentinel,
     lo_ReduceRight = \<lambda>ms f h. foldr (\<lambda>m out. f out m) ms h, lo_FilterMap = collect\<rparr>"

definition demo_add :: "(unit, string, int, int) HandlerFunc" where
  "demo_add ctx event w = (w + ev_payload event, Ran None)"

definition demo_event :: "(string, int) event" where
  "demo_event = \<lparr>ev_type = ''user.created'', ev_Name = [], ev_payload = 5\<rparr>"

definition demo_bus :: "(unit, string, int, int) bus" where
  "demo_bus = the (fst (SubscribeOnce demo_events (Some (NewBus (\<lambda>_. None) defaultOptions)) ''user.created'' (Some demo_add) []))"

lemma demo_events_ok: "event_env_ok demo_events"
  by (simp add: event_env_ok_def demo_events_def)

lemmas demo_eval = demo_bus_def SubscribeOnce_def SubscribeN_def subscribe_def registerSubscription_def NewBus_def
  invalidateHandlerSnapshot_def subscriptionDispatchHandler_def defaultOptions_def

lemma demo_bus_reach: "bus_reach demo_events demo_bus w"
proof (rule bus_reach.reach_SubscribeN)
  show "bus_reach demo_events (NewBus (\<lambda>_. None) defaultOptions) w" by (rule bus_reach.reach_New)
  show "SubscribeN demo_events (Some (NewBus (\<lambda>_. None) defaultOptions)) ''user.created'' 1 (Some demo_add) [] = (Some demo_bus, Inr 1)"
    by (simp add: demo_eval Let_def)
qed

lemma demo_bus_open: "\<not> closed demo_bus"
  by (simp add: demo_eval Let_def)

lemma demo_row: "row demo_bus ''user.created'' =
    fmupd 1 (Some (Limited ''user.created'' 1 (subscriptionHandler demo_events (NewBus (\<lambda>_. None) defaultOptions)
      (Some (typedEventHandler demo_events ''user.created'' demo_add)) []))) fmempty"
  by (simp add: demo_eval Let_def row_def)

theorem publish_delivers_once_witness:
  "\<exists>b' w' r ids. Bus_Publish demo_events id [1] None (Some demo_event) (Some demo_bus) 2 = (Some b', w', r)
     \<and> ids = [1 :: nat] \<and> (w', r) = joined (collect (targets demo_bus ''user.created'' ids) (runFunc () demo_event) 2)"
proof -
  have one: "iterates [1] (row demo_bus (ev_type demo_event))"
    by (simp add: iterates_def demo_event_def demo_row)
  obtain b' w' r where pub: "publishSync demo_events id [1] None demo_event (demo_bus, 2) = ((b', w'), r)" by (metis surj_pair)
  then have "Bus_Publish demo_events id [1] None (Some demo_event) (Some demo_bus) 2 = (Some b', w', r)" by (simp add: Publish_unfold)
  from publish_delivers_once [OF demo_events_ok demo_bus_reach demo_bus_open one _ this]
  obtain ids where ids: "distinct ids" "set ids = {sid. view demo_bus ''user.created'' sid \<noteq> None}"
    "(w', r) = joined (collect (targets demo_bus ''user.created'' ids) (runFunc () demo_event) 2)"
    by (auto simp: demo_event_def demo_events_def ev_normalizeContext_def)
  have set1: "set ids = {1}" unfolding ids(2) by (auto simp: view_def demo_row split: if_splits)
  then have "length ids = 1" using distinct_card [OF ids(1)] by simp
  then obtain x where "ids = [x]" by (metis One_nat_def length_0_conv length_Suc_conv)
  with set1 have "ids = [1]" by simp
  with ids(3) \<open>Bus_Publish demo_events id [1] None (Some demo_event) (Some demo_bus) 2 = (Some b', w', r)\<close> show ?thesis by blast
qed

theorem subscriptions_registry_witness:
  "view (snd (unsubscribeFunc False demo_bus ''user.created'' 1)) ''user.created'' 1 = None"
  using subscriptions_registry [OF demo_events_ok demo_bus_reach, where t = "''user.created''" and sid = 1] by simp

subsection \<open>Closing\<close>

text \<open>The lifecycle of the bus between goroutines, one critical section or wait-group operation a step:
  \<open>active\<close> are the dispatches between \<open>beginDispatch\<close> and \<open>Done\<close>, \<open>closer\<close> is the call of \<open>Close\<close> that found the
  bus open and goes on to wait, \<open>returned\<close> are the calls of \<open>Close\<close> that have returned.\<close>

record ('c, 't, 'p, 'w, 'g) life =
  lf_bus :: "('c, 't, 'p, 'w) bus"
  lf_active :: "'g set"
  lf_closer :: "'g option"
  lf_returned :: "'g set"

inductive life_step :: "('c, 't, 'p, 'w, 'g) life \<Rightarrow> ('c, 't, 'p, 'w, 'g) life \<Rightarrow> bool" where
  begin_dispatch: "g \<notin> lf_active s \<Longrightarrow> beginDispatch (lf_bus s) = (b', True)
     \<Longrightarrow> life_step s (s\<lparr>lf_bus := b', lf_active := insert g (lf_active s)\<rparr>)"
| refuse_dispatch: "beginDispatch (lf_bus s) = (b', False) \<Longrightarrow> life_step s (s\<lparr>lf_bus := b'\<rparr>)"
| end_dispatch: "g \<in> lf_active s \<Longrightarrow> life_step s (s\<lparr>lf_bus := doneDispatch (lf_bus s), lf_active := lf_active s - {g}\<rparr>)"
| close_waits: "k \<notin> lf_returned s \<Longrightarrow> closeMark (lf_bus s) = (b', True)
     \<Longrightarrow> life_step s (s\<lparr>lf_bus := b', lf_closer := Some k\<rparr>)"
| close_again: "lf_closer s \<noteq> Some k \<Longrightarrow> closeMark (lf_bus s) = (b', False)
     \<Longrightarrow> life_step s (s\<lparr>lf_bus := b', lf_returned := insert k (lf_returned s)\<rparr>)"
| close_returns: "lf_closer s = Some k \<Longrightarrow> closeWaitDone (lf_bus s)
     \<Longrightarrow> life_step s (s\<lparr>lf_returned := insert k (lf_returned s)\<rparr>)"

definition life_inv :: "('c, 't, 'p, 'w, 'g) life \<Rightarrow> bool" where
  "life_inv s \<longleftrightarrow> finite (lf_active s) \<and> dispatchWG (lf_bus s) = card (lf_active s)
     \<and> (closed (lf_bus s) \<longleftrightarrow> lf_closer s \<noteq> None)
     \<and> (\<forall>k. lf_closer s = Some k \<and> k \<in> lf_returned s \<longrightarrow> lf_active s = {})"

lemma life_step_inv: "life_step s s' \<Longrightarrow> life_inv s \<Longrightarrow> life_inv s'"
  by (induction rule: life_step.induct)
    (auto simp: life_inv_def beginDispatch_def doneDispatch_def closeMark_def closeWaitDone_def split: if_splits)

text \<open>
  C32. Closing, under any interleaving of dispatches and calls of \<open>Close\<close>. The wait group counts the
  dispatches in flight. When the call of \<open>Close\<close> that found the bus open has returned, no dispatch is in flight;
  once the bus is closed none can begin any more; and that call can return when the dispatches in flight
  have all ended. Any other call of \<open>Close\<close> on a closed bus returns at once, also while dispatches are in
  flight: the comment of \<open>Close\<close>, which says that it drains and waits, holds for the first call only.
\<close>

theorem close_drains:
  assumes "life_step\<^sup>*\<^sup>* \<lparr>lf_bus = NewBus poolErr cfg, lf_active = {}, lf_closer = None, lf_returned = {}\<rparr> s"
  shows "dispatchWG (lf_bus s) = card (lf_active s)
    \<and> (closed (lf_bus s) \<longrightarrow> beginDispatch (lf_bus s) = (lf_bus s, False))
    \<and> (\<forall>k. lf_closer s = Some k \<and> k \<in> lf_returned s \<longrightarrow> closed (lf_bus s) \<and> lf_active s = {})
    \<and> (\<forall>k. lf_closer s = Some k \<and> lf_active s = {} \<longrightarrow> life_step s (s\<lparr>lf_returned := insert k (lf_returned s)\<rparr>))
    \<and> (\<forall>k. closed (lf_bus s) \<and> lf_closer s \<noteq> Some k \<longrightarrow> life_step s (s\<lparr>lf_returned := insert k (lf_returned s)\<rparr>))"
proof -
  have inv: "life_inv s"
    using assms by (induction rule: rtranclp_induct) (auto simp: life_inv_def NewBus_def dest: life_step_inv)
  have "life_step s (s\<lparr>lf_returned := insert k (lf_returned s)\<rparr>)" if "lf_closer s = Some k" "lf_active s = {}" for k
    using inv that by (auto simp: life_inv_def closeWaitDone_def intro: close_returns)
  moreover have "life_step s (s\<lparr>lf_returned := insert k (lf_returned s)\<rparr>)" if "closed (lf_bus s)" "lf_closer s \<noteq> Some k" for k
    using close_again [of s k "lf_bus s"] that by (simp add: closeMark_def)
  ultimately show ?thesis using inv by (auto simp: life_inv_def beginDispatch_def)
qed

text \<open>A second \<open>Close\<close> that returns while the first one waits for a dispatch.\<close>

theorem close_drains_witness:
  "\<exists>s :: (unit, string, int, int, nat) life.
     life_step\<^sup>*\<^sup>* \<lparr>lf_bus = NewBus (\<lambda>_. None) defaultOptions, lf_active = {}, lf_closer = None, lf_returned = {}\<rparr> s
     \<and> lf_active s = {1} \<and> lf_closer s = Some 2 \<and> lf_returned s = {} \<and> life_step s (s\<lparr>lf_returned := {3}\<rparr>)"
proof -
  let ?b = "NewBus (\<lambda>_. None) defaultOptions :: (unit, string, int, int) bus"
  let ?s0 = "\<lparr>lf_bus = ?b, lf_active = {} :: nat set, lf_closer = None, lf_returned = {}\<rparr>"
  let ?s1 = "\<lparr>lf_bus = ?b\<lparr>dispatchWG := 1\<rparr>, lf_active = {1} :: nat set, lf_closer = None, lf_returned = {}\<rparr>"
  let ?s2 = "\<lparr>lf_bus = ?b\<lparr>dispatchWG := 1, closed := True\<rparr>, lf_active = {1} :: nat set, lf_closer = Some 2, lf_returned = {}\<rparr>"
  have "life_step ?s0 ?s1" using begin_dispatch [of 1 ?s0 "?b\<lparr>dispatchWG := 1\<rparr>"] by (simp add: beginDispatch_def NewBus_def)
  moreover have "life_step ?s1 ?s2"
    using close_waits [of 2 ?s1 "?b\<lparr>dispatchWG := 1, closed := True\<rparr>"] by (simp add: closeMark_def NewBus_def)
  ultimately have run: "life_step\<^sup>*\<^sup>* ?s0 ?s2" by (meson converse_rtranclp_into_rtranclp r_into_rtranclp)
  from close_drains [OF this] have "life_step ?s2 (?s2\<lparr>lf_returned := {3}\<rparr>)" by (simp add: NewBus_def)
  with run show ?thesis by (intro exI [of _ ?s2]) simp
qed

subsection \<open>A lost subscriber\<close>

text \<open>
  C33. The two halves of filling the cache are not one critical section. When a subscription is
  registered between a publisher's reading of the row and its storing of the snapshot, the snapshot
  stored is stale and stays: every later publish finds it in the cache and does not run the new
  subscriber's handler, although the subscription is in the registry.
\<close>

theorem snapshot_race_loses_subscriber:
  assumes "event_env_ok E" and "bus_reach E b w" and "\<not> closed b" and "iterates ks (row b t)"
    and "SubscribeN E (Some b) t (int n + 1) (Some h) mws = (Some b1, Inr sid)"
    and "b2 = snapshotStore b1 t (snapshotRead b t ks)"
  shows "view b2 t sid \<noteq> None
    \<and> (\<forall>ks'. snapshotHandlersByEventType b2 t ks' = (b2, snapshotRead b t ks))
    \<and> (\<forall>f. Limited t sid f \<notin> set (snapshotRead b t ks))"
proof -
  note inv = bus_reach_inv [OF assms(1,2)]
  have "subscribe E (Some b) t (typedEventHandler E t h) mws (int n + 1) = (Some b1, Inr sid)"
    using assms(5) by (simp add: SubscribeN_def)
  from subscribe_spec [OF inv this] assms(3)
  have sid: "sid = nextID b + 1" and "view b1 t sid = Some (subscriptionHandler E b (Some (typedEventHandler E t h)) mws, Some (int n + 1))"
    by (auto simp: granted_def)
  moreover have "view b2 = view b1" using assms(6) by (intro view_cong) (simp_all add: snapshotStore_def)
  moreover have "Limited t sid f \<notin> set (snapshotRead b t ks)" for f
  proof
    assume "Limited t sid f \<in> set (snapshotRead b t ks)"
    then obtain s where "live b t s (Limited t sid f)"
      using snapshotRead_live [OF assms(4)] by (auto simp: handlers_of_def live_def)
    with inv have "live b t sid (Limited t sid f)" by (metis bus_inv_limit)
    then have "sid \<le> nextID b" using inv by (auto simp: bus_inv_def rows_ok_def live_def held_def)
    then show False using sid by simp
  qed
  ultimately show ?thesis using assms(6) by (simp add: snapshotHandlersByEventType_def snapshotStore_def)
qed

theorem snapshot_race_loses_subscriber_witness:
  "\<exists>b1 sid. SubscribeN demo_events (Some demo_bus) ''user.created'' (int 0 + 1) (Some demo_add) [] = (Some b1, Inr sid)
     \<and> view (snapshotStore b1 ''user.created'' (snapshotRead demo_bus ''user.created'' [1])) ''user.created'' sid \<noteq> None"
proof -
  have one: "iterates [1] (row demo_bus ''user.created'')" by (simp add: iterates_def demo_row)
  obtain b1 where sub: "SubscribeN demo_events (Some demo_bus) ''user.created'' (int 0 + 1) (Some demo_add) [] = (Some b1, Inr (nextID demo_bus + 1))"
    using demo_bus_open by (auto simp: SubscribeN_def subscribe_def registerSubscription_def Let_def)
  from snapshot_race_loses_subscriber [OF demo_events_ok demo_bus_reach demo_bus_open one sub refl] sub show ?thesis by blast
qed

end
