(* ===== verification/Spec2Isabelle.thy ===== *)
theory Spec2Isabelle
  imports Http_Routes Mapping_OrderedMap Mapping_BiMap List_Rope Interval_RangeMap List_Ring
    List_PriorityQueue Tree_History Sql_Template Client_Policy Client_Codec Kv_Exclusion Event_Deliver
begin

text \<open>
  A verification development of \<^verbatim>\<open>arcgo\<close>, a collection of Go packages for building backend services.

  \<^bold>\<open>The program.\<close> \<^verbatim>\<open>collectionx\<close> holds generic containers (intervals, lists, maps, sets, tries, trees);
  most of them keep derived data (serialized JSON, sorted snapshots, entry slices) in caches that every
  mutation has to invalidate. \<^verbatim>\<open>dbx\<close> is a database layer; its package \<^verbatim>\<open>dbx/sqltmplx\<close> compiles SQL files with
  directives in comments (if, where, set, parameters with sample values) and renders them with bind
  variables, and \<^verbatim>\<open>dbx/paging\<close> computes offsets and page counts. \<^verbatim>\<open>clientx\<close> wraps network clients with policies
  (retry, concurrency limit), error classification and framing. The other packages (\<^verbatim>\<open>authx\<close>, \<^verbatim>\<open>configx\<close>,
  \<^verbatim>\<open>dix\<close>, \<^verbatim>\<open>eventx\<close>, \<^verbatim>\<open>httpx\<close>, \<^verbatim>\<open>kvx\<close>, \<^verbatim>\<open>logx\<close>, \<^verbatim>\<open>observabilityx\<close>) build on these.

  \<^bold>\<open>The theories.\<close>
  \<^item> \<^verbatim>\<open>Go_Prelude\<close>: slices, nil, loops with early exit, \<open>sort.Search\<close>, the collections of rewrite rules.
    \<^verbatim>\<open>Go_Strings\<close>: package strings (Index, Cut, TrimSpace, Fields, Join) over bytes, runes.
  \<^item> \<^verbatim>\<open>Ser_Cache\<close>, \<^verbatim>\<open>List_JSON\<close>: the contract of a serialization cache as a locale, and the JSON helpers of
    \<^verbatim>\<open>collectionx/internal\<close> and \<^verbatim>\<open>list/json.go\<close>. Each container interprets the locale on its own operations.
  \<^item> \<^verbatim>\<open>Interval_RangeSet\<close>, \<^verbatim>\<open>Interval_RangeMap\<close>: \<^verbatim>\<open>interval/range.go\<close>, \<^verbatim>\<open>range_set.go\<close>, \<^verbatim>\<open>range_map.go\<close>. A range set
    refines a set of points, a range map a partial function; normal form; caches never stale.
  \<^item> \<^verbatim>\<open>List_Ring\<close> (\<^verbatim>\<open>deque.go\<close>, \<^verbatim>\<open>ring_buffer.go\<close>), \<^verbatim>\<open>List_PriorityQueue\<close> (\<^verbatim>\<open>priority_queue.go\<close> over container/heap),
    \<^verbatim>\<open>List_List\<close> (\<^verbatim>\<open>list.go\<close>, \<^verbatim>\<open>list_chain.go\<close>), \<^verbatim>\<open>List_Rope\<close> (\<^verbatim>\<open>rope.go\<close>, \<^verbatim>\<open>rope_node.go\<close>): each answers every
    history of calls as a list, a bounded queue or a multiset would (\<open>PushFront\<close> of the deque and \<open>InsertAt\<close> of the
    rope as coded, where their comments differ); the rope's depth is logarithmic.
  \<^item> \<^verbatim>\<open>Mapping_Map\<close>, \<^verbatim>\<open>Mapping_OrderedMap\<close>, \<^verbatim>\<open>Mapping_BiMap\<close>: \<^verbatim>\<open>mapping/map.go\<close>, \<^verbatim>\<open>ordered_map.go\<close>, \<^verbatim>\<open>bimap.go\<close> and
    their parts of \<^verbatim>\<open>json.go\<close>, refining finite maps, association lists in insertion order and one-to-one
    relations. The iteration order of a Go map is an argument of every operation that iterates.
  \<^item> \<^verbatim>\<open>Mapping_MultiMap\<close>: \<^verbatim>\<open>mapping/multimap.go\<close>, \<^verbatim>\<open>multimap_chain.go\<close>, a map to value lists with its running count.
    \<^verbatim>\<open>Co_Guarded\<close>, \<^verbatim>\<open>List_Concurrent\<close>, \<^verbatim>\<open>Mapping_Concurrent\<close>: \<^verbatim>\<open>list/concurrent_list.go\<close>, \<^verbatim>\<open>mapping/concurrent_map.go\<close> and
    \<^verbatim>\<open>concurrent_multimap.go\<close>. A section under the lock is one step, a method that takes the lock twice is two,
    and every interleaving of the steps answers as the sequential container would.
  \<^item> \<^verbatim>\<open>Tree_Node\<close> (the operations of \<^verbatim>\<open>collectionx/tree\<close> on a heap of nodes with parent and child pointers),
    \<^verbatim>\<open>Tree_Forest\<close> (forests, and when a heap agrees with one), \<^verbatim>\<open>Tree_Ops\<close> (each mutation), \<^verbatim>\<open>Tree_Copy\<close> (the two
    clone loops), \<^verbatim>\<open>Tree_History\<close>: over any history a tree is an ordered forest, and no walk over its
    pointers runs forever.
  \<^item> \<^verbatim>\<open>Http_Matcher\<close>, \<^verbatim>\<open>Http_Routes\<close>: the route trie of \<^verbatim>\<open>httpx/route_matcher.go\<close> with its pruning by sequence number,
    and the registry of \<^verbatim>\<open>server_routes.go\<close> on the concurrent containers. A lookup gives the exact route, else
    the first registered route whose pattern fits.
  \<^item> \<^verbatim>\<open>Sql_Scan\<close>, \<^verbatim>\<open>Sql_Parse\<close>, \<^verbatim>\<open>Sql_Skip\<close>, \<^verbatim>\<open>Sql_Params\<close>, \<^verbatim>\<open>Sql_Render\<close>, \<^verbatim>\<open>Sql_Template\<close>: the template pipeline
    \<open>ScanList\<close>, \<open>BuildList\<close>, \<open>RenderList\<close> and the engine, composed as in \<^verbatim>\<open>template.go\<close> and \<^verbatim>\<open>engine.go\<close>. Shown:
    scanning covers the text and inverts printing; the parser accepts exactly the balanced templates and
    builds the tree they spell; samples end inside the input; overlays shadow; one placeholder per
    argument from end to end; blocks without live content vanish; the engine's cache is invisible.
  \<^item> \<^verbatim>\<open>Sql_Paging\<close>: \<^verbatim>\<open>dbx/paging/pagination.go\<close> on 64-bit words, exact or saturated.
  \<^item> \<^verbatim>\<open>Client_Error\<close> (\<^verbatim>\<open>clientx/error.go\<close>), \<^verbatim>\<open>Client_Policy\<close> (\<^verbatim>\<open>policy.go\<close>, \<^verbatim>\<open>policy_retry.go\<close>, \<^verbatim>\<open>policy_bulkhead.go\<close>),
    \<^verbatim>\<open>Client_Codec\<close> (\<^verbatim>\<open>codec/framer.go\<close>, \<^verbatim>\<open>bytes.go\<close>, \<^verbatim>\<open>text.go\<close>): wrapping happens once; a call under retry policies
    returns within the configured attempts and releases what its policies took; the concurrency limit
    holds under any interleaving; frames are read back as written, however the stream is cut.
  \<^item> \<^verbatim>\<open>Event_Bus\<close> (the bus of \<^verbatim>\<open>eventx\<close>: registry, snapshot cache, middleware, serial and parallel dispatch,
    asynchronous queue, close), \<^verbatim>\<open>Event_Deliver\<close>: when calls do not overlap, a publish calls exactly the live
    handlers, once each, and joins their errors; under any interleaving the first close waits for what
    began, a later one does not; and the interleaving in which a subscriber is lost.
  \<^item> \<^verbatim>\<open>Go_Strconv\<close>: \<open>strconv.Itoa\<close> and \<open>Atoi\<close> with their round trip. \<^verbatim>\<open>Kv_Lock\<close> (\<^verbatim>\<open>kvx/module/lock\<close> and the Redis
    adapter's \<^verbatim>\<open>lock.go\<close> with its Lua scripts), \<^verbatim>\<open>Kv_Exclusion\<close>: the contract of the lock client as a locale, which
    the adapter and its scripts meet over a server that does what Redis documents of its commands; mutual
    exclusion under any interleaving of clients; a function run under a lock gives it back; the loop that
    waits for a lock returns; the semaphore counts; where the read-write lock and semaphore fail to exclude.

  \<^bold>\<open>How state and calls are modelled.\<close> A struct is a record, a pointer receiver an option, a method a
  function from the old state and the arguments to the new state and the results; \<open>None\<close> where the code
  would panic. A history of calls is a list of call values; the refinement theorems run it on the code's
  state and on the specification and compare every answer. Callbacks with effects are state
  transformers. Code outside the repository (samber/lo, samber/oops, samber/hot, expr-lang) is a
  parameter, with what is relied on named in \<open>lo_ok\<close>, \<open>hot_ok\<close>, \<open>env_ok\<close>; the standard library is written
  out, except \<open>json.Marshal\<close>, the Unicode tables and floating-point arithmetic, which are parameters with
  no law at all.

  \<^bold>\<open>Bounds.\<close> Loops are recursive functions with termination proofs; the loops that need not end (retrying,
  reading from a stream, following pointers) are partial functions with a theorem that they return. Fuel
  is used once, for the recursion of the tree's JSON over the heap: the number of nodes of the heap, which
  is enough since a forest has no more. Lengths are natural numbers; index arguments are integers;
  arithmetic that may overflow in practice (paging, frame lengths, route sequence numbers) is on words.

  \<^bold>\<open>Not modelled.\<close> Of \<^verbatim>\<open>collectionx\<close> the sets (thin layers over the maps), the prefix trie, the table, the grid,
  the sharded map and the remaining wrappers that hold a lock around the modelled operations. Of \<^verbatim>\<open>dbx\<close> the
  query builder, schema migration, mapping and repositories, which work through reflection on struct tags
  and on database drivers, and the template registry and validators (file system, vendor parsers). Of
  \<^verbatim>\<open>clientx\<close> the transports (sockets, HTTP), the timeout policy (real time and the context tree) and the
  codec registry; of \<^verbatim>\<open>httpx\<close> the server adapters, OpenAPI and websockets; of \<^verbatim>\<open>kvx\<close> the clients, repositories
  and modules other than locks. Nothing of \<^verbatim>\<open>authx\<close> and \<^verbatim>\<open>dix\<close> is modelled. Logging, metrics, configuration
  files, examples and scripts drive libraries and hold little logic of their own.
\<close>

end
